(* ===== verification/Prelude.thy ===== *)
theory Prelude
  imports Main "HOL-Library.Word" "HOL-Library.Sublist" "HOL-Library.Multiset"
begin

text \<open>
  Shared vocabulary of the development: the machine types of the Rust sources, the parts of
  the Rust standard library the program uses (string splitting, UTF-8 validation, saturating and
  wrapping arithmetic, stable sorting by a key) and the generic lemmas about them.

  A Rust \<open>String\<close> or \<open>&str\<close> is a \<^typ>\<open>string\<close>, the list of its UTF-8 bytes (a
  \<^typ>\<open>char\<close> of HOL is a byte); a \<open>Vec<u8>\<close> or \<open>&[u8]\<close> is a list of
  \<open>8 word\<close>.  Unsigned 64-bit quantities that the code only compares, saturates or
  wraps explicitly are natural numbers with the wrap-around written out by \<open>wrap64\<close> and
  \<open>sat_add64\<close>.
\<close>

named_theorems str_simps \<open>rewriting of the string operations of the standard library\<close>
named_theorems u8_simps \<open>moving between characters, bytes and natural numbers\<close>

type_synonym u8 = "8 word"
type_synonym u32 = "32 word"
type_synonym bytes = "u8 list"

section \<open>Fixed-width arithmetic\<close>

definition u64_max :: nat where
  "u64_max = 2 ^ 64 - 1"

definition wrap64 :: "nat \<Rightarrow> nat" where
  "wrap64 n = n mod 2 ^ 64"

definition wrap32 :: "nat \<Rightarrow> nat" where
  "wrap32 n = n mod 2 ^ 32"

definition sat_add64 :: "nat \<Rightarrow> nat \<Rightarrow> nat" where
  "sat_add64 a b = min (a + b) u64_max"

lemma wrap64_id [simp]: "n \<le> u64_max \<Longrightarrow> wrap64 n = n"
  by (simp add: wrap64_def u64_max_def)

lemma wrap64_bound: "wrap64 n \<le> u64_max"
proof -
  have "n mod 2 ^ 64 < (2::nat) ^ 64" by simp
  then show ?thesis by (simp add: wrap64_def u64_max_def)
qed

lemma wrap32_id [simp]: "n < 2 ^ 32 \<Longrightarrow> wrap32 n = n"
  by (simp add: wrap32_def)

lemma sat_add64_bound [simp]: "sat_add64 a b \<le> u64_max"
  by (simp add: sat_add64_def)

lemma sat_add64_id [simp]: "a + b \<le> u64_max \<Longrightarrow> sat_add64 a b = a + b"
  by (simp add: sat_add64_def)

definition div_ceil :: "nat \<Rightarrow> nat \<Rightarrow> nat" where
  "div_ceil a b = (if a mod b = 0 then a div b else a div b + 1)"

lemma div_ceil_upper:
  assumes "0 < b"
  shows "a \<le> div_ceil a b * b"
proof -
  have "a div b * b + a mod b = a" by (rule div_mult_mod_eq)
  moreover have "a mod b < b" using assms by simp
  ultimately have "a \<le> a div b * b + (if a mod b = 0 then 0 else b)" by (simp only: split: if_split) linarith
  then show ?thesis by (simp add: div_ceil_def add_mult_distrib split: if_splits)
qed

lemma div_ceil_lower:
  assumes "0 < a"
  shows "(div_ceil a b - 1) * b < a"
proof (cases "a mod b = 0")
  case True
  then have eq: "a div b * b = a" by (auto elim: dvdE)
  with assms obtain k where k: "a div b = Suc k" and "0 < b"
    by (cases "a div b"; cases b) auto
  with True eq show ?thesis by (simp add: div_ceil_def)
next
  case False
  moreover have "a div b * b + a mod b = a" by (rule div_mult_mod_eq)
  ultimately have "a div b * b < a" by linarith
  with False show ?thesis by (simp add: div_ceil_def)
qed

lemma div_ceil_unique:
  assumes "0 < b" and "a \<le> n * b" and "0 < n \<Longrightarrow> (n - 1) * b < a"
  shows "div_ceil a b = n"
proof -
  have "div_ceil a b \<le> n"
  proof (cases "a = 0")
    case False
    then have "(div_ceil a b - 1) * b < n * b"
      using div_ceil_lower [of a b] assms(2) by linarith
    then have "div_ceil a b - 1 < n" by simp
    then show ?thesis by linarith
  qed (simp add: div_ceil_def)
  moreover have "n \<le> div_ceil a b"
  proof (cases n)
    case (Suc m)
    then have "m * b < a" using assms(3) by simp
    then have "m * b < div_ceil a b * b"
      using div_ceil_upper [OF assms(1), of a] by linarith
    then show ?thesis using Suc by simp
  qed simp
  ultimately show ?thesis by simp
qed

section \<open>Characters and bytes\<close>

definition u8_of_char :: "char \<Rightarrow> u8" where
  "u8_of_char c = of_char c"

definition char_of_u8 :: "u8 \<Rightarrow> char" where
  "char_of_u8 b = char_of (unat b)"

definition as_bytes :: "string \<Rightarrow> bytes" where
  "as_bytes s = map u8_of_char s"

definition of_bytes :: "bytes \<Rightarrow> string" where
  "of_bytes bs = map char_of_u8 bs"

lemma of_char_less_256 [simp]: "of_char c < (256::nat)"
proof -
  have "of_char c mod 256 < (256::nat)" by simp
  then show ?thesis by simp
qed

lemma unat_u8_of_char [u8_simps, simp]: "unat (u8_of_char c) = of_char c"
proof -
  have "(of_char c :: u8) = of_nat (of_char c)" by (simp add: of_nat_of_char)
  then have "unat (of_char c :: u8) = of_char c mod 2 ^ 8"
    by (simp add: unat_of_nat)
  then show ?thesis by (simp add: u8_of_char_def)
qed

lemma char_of_u8_of_char [u8_simps, simp]: "char_of_u8 (u8_of_char c) = c"
  by (simp add: char_of_u8_def)

lemma u8_of_char_of_u8 [u8_simps, simp]: "u8_of_char (char_of_u8 b) = b"
proof (rule word_unat_eq_iff [THEN iffD2])
  have "unat b < 256" using unsigned_less [of b] by simp
  then show "unat (u8_of_char (char_of_u8 b)) = unat b"
    by (simp add: char_of_u8_def)
qed

lemma u8_of_char_inject [simp]: "u8_of_char c = u8_of_char d \<longleftrightarrow> c = d"
  by (metis char_of_u8_of_char)

lemma of_bytes_as_bytes [u8_simps, simp]: "of_bytes (as_bytes s) = s"
  by (simp add: of_bytes_def as_bytes_def comp_def)

lemma as_bytes_of_bytes [u8_simps, simp]: "as_bytes (of_bytes bs) = bs"
  by (simp add: of_bytes_def as_bytes_def comp_def)

lemma length_as_bytes [simp]: "length (as_bytes s) = length s"
  by (simp add: as_bytes_def)

lemma length_of_bytes [simp]: "length (of_bytes s) = length s"
  by (simp add: of_bytes_def)

lemma as_bytes_append [simp]: "as_bytes (s @ t) = as_bytes s @ as_bytes t"
  by (simp add: as_bytes_def)

lemma as_bytes_Cons [simp]: "as_bytes (c # t) = u8_of_char c # as_bytes t"
  by (simp add: as_bytes_def)

lemma as_bytes_Nil [simp]: "as_bytes [] = []"
  by (simp add: as_bytes_def)

section \<open>Strings of the standard library\<close>

text \<open>\<open>str::split(c)\<close>: the pieces between the separators, always at least one.\<close>

fun split_on :: "char \<Rightarrow> string \<Rightarrow> string list" where
  "split_on c [] = [[]]"
| "split_on c (x # xs) =
    (if x = c then [] # split_on c xs
     else case split_on c xs of [] \<Rightarrow> [[x]] | p # ps \<Rightarrow> (x # p) # ps)"

text \<open>\<open>[String]::join(c)\<close>.\<close>

fun join_with :: "char \<Rightarrow> string list \<Rightarrow> string" where
  "join_with c [] = []"
| "join_with c [s] = s"
| "join_with c (s # t # ss) = s @ c # join_with c (t # ss)"

text \<open>\<open>str::split_once(c)\<close> (first occurrence) and \<open>str::rsplit_once(c)\<close> (last occurrence).\<close>

fun split_once :: "char \<Rightarrow> string \<Rightarrow> (string \<times> string) option" where
  "split_once c [] = None"
| "split_once c (x # xs) =
    (if x = c then Some ([], xs) else map_option (\<lambda>(a, b). (x # a, b)) (split_once c xs))"

definition rsplit_once :: "char \<Rightarrow> string \<Rightarrow> (string \<times> string) option" where
  "rsplit_once c s = map_option (\<lambda>(a, b). (rev b, rev a)) (split_once c (rev s))"

definition starts_with :: "string \<Rightarrow> string \<Rightarrow> bool" where
  "starts_with s p = (take (length p) s = p)"

definition strip_prefix :: "string \<Rightarrow> string \<Rightarrow> string option" where
  "strip_prefix s p = (if starts_with s p then Some (drop (length p) s) else None)"

lemma split_on_nonempty [simp]: "split_on c s \<noteq> []"
  by (cases s) (auto split: list.splits)

lemma join_split [str_simps, simp]: "join_with c (split_on c s) = s"
proof (induction s)
  case (Cons x xs)
  obtain p ps where "split_on c xs = p # ps" by (cases "split_on c xs") auto
  with Cons show ?case by (cases ps) auto
qed simp

lemma split_on_no_sep [str_simps]: "c \<notin> set s \<Longrightarrow> split_on c s = [s]"
  by (induction s) auto

lemma split_on_append [str_simps]: "c \<notin> set s \<Longrightarrow> split_on c (s @ c # t) = s # split_on c t"
  by (induction s) auto

lemma split_join [str_simps]:
  "ss \<noteq> [] \<Longrightarrow> \<forall>s \<in> set ss. c \<notin> set s \<Longrightarrow> split_on c (join_with c ss) = ss"
  by (induction c ss rule: join_with.induct) (auto simp: split_on_append split_on_no_sep)

lemma split_on_pieces: "p \<in> set (split_on c s) \<Longrightarrow> c \<notin> set p"
proof (induction s arbitrary: p)
  case (Cons x xs)
  then show ?case by (auto split: list.splits if_splits)
qed simp

lemma split_once_Some:
  "split_once c s = Some (a, b) \<longleftrightarrow> s = a @ c # b \<and> c \<notin> set a"
proof (induction s arbitrary: a)
  case (Cons x xs)
  show ?case
  proof (cases a)
    case (Cons y ys)
    with Cons.IH [of ys] show ?thesis by auto
  qed auto
qed simp

lemma split_once_None: "split_once c s = None \<longleftrightarrow> c \<notin> set s"
  by (induction s) auto

lemma rsplit_once_Some:
  "rsplit_once c s = Some (a, b) \<longleftrightarrow> s = a @ c # b \<and> c \<notin> set b"
proof -
  have "rsplit_once c s = Some (a, b) \<longleftrightarrow> split_once c (rev s) = Some (rev b, rev a)"
    by (auto simp: rsplit_once_def)
  also have "\<dots> \<longleftrightarrow> rev s = rev b @ c # rev a \<and> c \<notin> set b"
    by (simp add: split_once_Some)
  also have "\<dots> \<longleftrightarrow> s = a @ c # b \<and> c \<notin> set b"
    by (metis append_Cons append_assoc append_self_conv2 rev.simps(2) rev_append rev_rev_ident)
  finally show ?thesis .
qed

lemma rsplit_once_None: "rsplit_once c s = None \<longleftrightarrow> c \<notin> set s"
  by (simp add: rsplit_once_def split_once_None)

lemma starts_with_iff: "starts_with s p \<longleftrightarrow> (\<exists>t. s = p @ t)"
  by (auto simp: starts_with_def) (metis append_take_drop_id)

lemma strip_prefix_Some: "strip_prefix s p = Some t \<longleftrightarrow> s = p @ t"
  by (auto simp: strip_prefix_def starts_with_iff)

section \<open>Errno values\<close>

text \<open>The Linux values of the \<open>libc\<close> constants the file system answers with.\<close>

definition EPERM :: int where "EPERM = 1"
definition ENOENT :: int where "ENOENT = 2"
definition EIO :: int where "EIO = 5"
definition EBADF :: int where "EBADF = 9"
definition EAGAIN :: int where "EAGAIN = 11"
definition EACCES :: int where "EACCES = 13"
definition EEXIST :: int where "EEXIST = 17"
definition ENOTDIR :: int where "ENOTDIR = 20"
definition EISDIR :: int where "EISDIR = 21"
definition EINVAL :: int where "EINVAL = 22"
definition ENOSPC :: int where "ENOSPC = 28"
definition EROFS :: int where "EROFS = 30"
definition ENAMETOOLONG :: int where "ENAMETOOLONG = 36"
definition ENOTEMPTY :: int where "ENOTEMPTY = 39"
definition ENOTSUP :: int where "ENOTSUP = 95"

lemmas errno_defs = EPERM_def ENOENT_def EIO_def EBADF_def EAGAIN_def EACCES_def EEXIST_def ENOTDIR_def EISDIR_def
  EINVAL_def ENOSPC_def EROFS_def ENAMETOOLONG_def ENOTEMPTY_def ENOTSUP_def

section \<open>Text of the standard library\<close>

text \<open>\<open>str::trim\<close> on ASCII text, \<open>trim_end_matches(c)\<close>, \<open>contains\<close> and \<open>find(c)\<close>.\<close>

definition is_space :: "char \<Rightarrow> bool" where
  "is_space c \<longleftrightarrow> c \<in> set [CHR '' '', CHR 0x09, CHR 0x0A, CHR 0x0B, CHR 0x0C, CHR 0x0D]"

definition trim_end :: "(char \<Rightarrow> bool) \<Rightarrow> string \<Rightarrow> string" where
  "trim_end p s = rev (dropWhile p (rev s))"

definition trim :: "string \<Rightarrow> string" where
  "trim s = trim_end is_space (dropWhile is_space s)"

fun contains :: "string \<Rightarrow> string \<Rightarrow> bool" where
  "contains [] p = (p = [])"
| "contains (x # xs) p = (starts_with (x # xs) p \<or> contains xs p)"

fun find_char :: "char \<Rightarrow> string \<Rightarrow> nat option" where
  "find_char c [] = None"
| "find_char c (x # xs) = (if x = c then Some 0 else map_option Suc (find_char c xs))"

text \<open>\<open>str::parse::<u64>\<close>: an optional sign, at least one digit, no overflow; and its inverse.\<close>

definition digit_val :: "char \<Rightarrow> nat option" where
  "digit_val c = (if 48 \<le> (of_char c :: nat) \<and> (of_char c :: nat) \<le> 57 then Some (of_char c - 48) else None)"

fun digits_val :: "nat \<Rightarrow> string \<Rightarrow> nat option" where
  "digits_val acc [] = Some acc"
| "digits_val acc (c # cs) =
    (case digit_val c of
      None \<Rightarrow> None
    | Some d \<Rightarrow> if acc * 10 + d \<le> u64_max then digits_val (acc * 10 + d) cs else None)"

definition parse_u64 :: "string \<Rightarrow> nat option" where
  "parse_u64 s =
    (let digits = (if s \<noteq> [] \<and> hd s = CHR ''+'' then tl s else s)
     in if digits = [] then None else digits_val 0 digits)"

fun show_nat :: "nat \<Rightarrow> string" where
  "show_nat n = (if n < 10 then [char_of (48 + n)] else show_nat (n div 10) @ [char_of (48 + n mod 10)])"

declare show_nat.simps [simp del]

lemma trim_end_id: "s = [] \<or> \<not> p (last s) \<Longrightarrow> trim_end p s = s"
  by (cases s rule: rev_cases) (auto simp: trim_end_def)

lemma trim_end_append: "\<not> p c \<Longrightarrow> \<forall>x \<in> set t. p x \<Longrightarrow> trim_end p (s @ c # t) = s @ [c]"
  by (simp add: trim_end_def dropWhile_append2 dropWhile_append3)

lemma trim_end_last: "trim_end p s = [] \<or> \<not> p (last (trim_end p s))"
proof (cases "dropWhile p (rev s)")
  case (Cons c cs)
  then have "\<not> p c" by (metis hd_dropWhile list.sel(1) list.simps(3))
  then show ?thesis by (simp add: trim_end_def Cons)
qed (simp add: trim_end_def)

lemma trim_end_prefix: "\<exists>t. s = trim_end p s @ t \<and> (\<forall>x \<in> set t. p x)"
proof -
  have "s = trim_end p s @ rev (takeWhile p (rev s))"
    by (metis trim_end_def rev_append rev_rev_ident takeWhile_dropWhile_id)
  then show ?thesis by (metis set_rev set_takeWhileD)
qed

lemma digits_val_append:
  "digits_val acc (s @ t) = (case digits_val acc s of None \<Rightarrow> None | Some a \<Rightarrow> digits_val a t)"
  by (induction s arbitrary: acc) (auto split: option.splits)

lemma digit_val_char [simp]: "n < 10 \<Longrightarrow> digit_val (char_of (48 + n)) = Some n"
  by (simp add: digit_val_def)

lemma digits_val_show: "n \<le> u64_max \<Longrightarrow> digits_val 0 (show_nat n) = Some n"
proof (induction n rule: less_induct)
  case (less n)
  show ?case
  proof (cases "n < 10")
    case True
    with less.prems show ?thesis by (simp add: show_nat.simps [of n])
  next
    case False
    then have "digits_val 0 (show_nat (n div 10)) = Some (n div 10)"
      using less by simp
    moreover have "n div 10 * 10 + n mod 10 = n" by (rule div_mult_mod_eq)
    ultimately show ?thesis
      using False less.prems by (subst show_nat.simps) (simp add: digits_val_append)
  qed
qed

lemma show_nat_digits: "c \<in> set (show_nat n) \<Longrightarrow> digit_val c \<noteq> None"
proof (induction n rule: less_induct)
  case (less n)
  have d: "digit_val (char_of (48 + k)) \<noteq> None" if "k < 10" for k :: nat using that by simp
  show ?case
    using less.prems less.IH [of "n div 10"] d [of n] d [of "n mod 10"] by (auto simp: show_nat.simps [of n] simp del: digit_val_char split: if_splits)
qed

lemma show_nat_nonempty [simp]: "show_nat n \<noteq> []"
  by (subst show_nat.simps) simp

lemma parse_show_u64: "n \<le> u64_max \<Longrightarrow> parse_u64 (show_nat n) = Some n"
proof -
  assume n: "n \<le> u64_max"
  have "digit_val (hd (show_nat n)) \<noteq> None"
    using show_nat_digits [of "hd (show_nat n)" n] by simp
  moreover have "digit_val (CHR ''+'') = None" by (simp add: digit_val_def)
  ultimately have "hd (show_nat n) \<noteq> CHR ''+''" by auto
  then show ?thesis using digits_val_show [OF n] by (simp add: parse_u64_def)
qed

text \<open>
  \<open>str::from_utf8\<close>: well-formed UTF-8 (no overlong forms, no surrogates, nothing above U+10FFFF),
  following the table of the Unicode standard the Rust validator implements.
\<close>

definition utf8_cont :: "u8 \<Rightarrow> bool" where
  "utf8_cont b \<longleftrightarrow> 0x80 \<le> b \<and> b \<le> 0xBF"

definition utf8_next :: "bytes \<Rightarrow> bytes option" where
  "utf8_next bs =
    (case bs of
      [] \<Rightarrow> None
    | a # r \<Rightarrow>
        if a \<le> 0x7F then Some r
        else if 0xC2 \<le> a \<and> a \<le> 0xDF
        then (case r of b # r' \<Rightarrow> if utf8_cont b then Some r' else None | _ \<Rightarrow> None)
        else if 0xE0 \<le> a \<and> a \<le> 0xEF
        then (case r of
            b # c # r' \<Rightarrow>
              if utf8_cont b \<and> (a = 0xE0 \<longrightarrow> 0xA0 \<le> b) \<and> (a = 0xED \<longrightarrow> b \<le> 0x9F) \<and> utf8_cont c
              then Some r' else None
          | _ \<Rightarrow> None)
        else if 0xF0 \<le> a \<and> a \<le> 0xF4
        then (case r of
            b # c # d # r' \<Rightarrow>
              if utf8_cont b \<and> (a = 0xF0 \<longrightarrow> 0x90 \<le> b) \<and> (a = 0xF4 \<longrightarrow> b \<le> 0x8F) \<and>
                utf8_cont c \<and> utf8_cont d
              then Some r' else None
          | _ \<Rightarrow> None)
        else None)"

lemma utf8_next_shorter: "utf8_next bs = Some r \<Longrightarrow> length r < length bs"
  unfolding utf8_next_def by (simp only: split: list.splits if_splits) auto

function utf8_valid :: "bytes \<Rightarrow> bool" where
  "utf8_valid bs = (bs = [] \<or> (case utf8_next bs of None \<Rightarrow> False | Some r \<Rightarrow> utf8_valid r))"
  by pat_completeness auto
termination
  by (relation "measure length") (auto dest: utf8_next_shorter)

declare utf8_valid.simps [simp del]

definition from_utf8 :: "bytes \<Rightarrow> string option" where
  "from_utf8 bs = (if utf8_valid bs then Some (of_bytes bs) else None)"

text \<open>The invariant every Rust \<open>str\<close> carries.\<close>

definition rust_str :: "string \<Rightarrow> bool" where
  "rust_str s \<longleftrightarrow> utf8_valid (as_bytes s)"

lemma ascii_not_cont [simp]: "a \<le> 0x7F \<Longrightarrow> \<not> utf8_cont a"
  by (auto simp: utf8_cont_def word_le_nat_alt)

lemma utf8_next_ascii [simp]: "m \<le> 0x7F \<Longrightarrow> utf8_next (m # r) = Some r"
  by (simp add: utf8_next_def)

lemma utf8_next_append:
  assumes m: "m \<le> 0x7F" and "xs \<noteq> []"
  shows "utf8_next (xs @ m # ys) = map_option (\<lambda>r. r @ m # ys) (utf8_next xs)"
proof -
  note no = ascii_not_cont [OF m]
  consider a where "xs = [a]" | a b where "xs = [a, b]" | a b c where "xs = [a, b, c]"
    | a b c d r where "xs = a # b # c # d # r"
    using \<open>xs \<noteq> []\<close> by (metis list.exhaust)
  then show ?thesis
    by cases (simp_all add: utf8_next_def no split: list.split)
qed

lemma utf8_valid_split:
  assumes "m \<le> 0x7F"
  shows "utf8_valid (xs @ m # ys) \<longleftrightarrow> utf8_valid xs \<and> utf8_valid ys"
proof (induction xs rule: utf8_valid.induct)
  case (1 xs)
  show ?case
  proof (cases "xs = []")
    case True
    then show ?thesis using assms by (simp add: utf8_valid.simps [of "m # ys"] utf8_valid.simps [of "[]"])
  next
    case False
    then show ?thesis
      using 1 utf8_next_append [OF assms False]
      by (simp add: utf8_valid.simps [of "xs @ m # ys"] utf8_valid.simps [of xs] split: option.split)
  qed
qed

lemma rust_str_append_sep:
  assumes "of_char c \<le> (0x7F :: nat)"
  shows "rust_str (s @ c # t) \<longleftrightarrow> rust_str s \<and> rust_str t"
proof -
  have "u8_of_char c \<le> 0x7F" using assms by (simp add: word_le_nat_alt)
  then show ?thesis by (simp add: rust_str_def utf8_valid_split)
qed

lemma rust_str_split:
  assumes "of_char c \<le> (0x7F :: nat)" and "rust_str s" and "p \<in> set (split_on c s)"
  shows "rust_str p"
  using assms(2,3)
proof (induction "split_on c s" arbitrary: s)
  case (Cons q qs)
  show ?case
  proof (cases qs)
    case Nil
    with Cons.hyps(2) have "s = q" by (metis join_split join_with.simps(2))
    with Cons Nil show ?thesis by (metis empty_iff empty_set set_ConsD)
  next
    case (Cons r rs)
    with Cons.hyps(2) have s: "s = q @ c # join_with c qs"
      by (metis join_split join_with.simps(3))
    have "\<forall>x \<in> set qs. c \<notin> set x"
      using Cons.hyps(2) split_on_pieces by (metis list.set_intros(2))
    then have qs: "split_on c (join_with c qs) = qs"
      using Cons by (intro split_join) auto
    have "rust_str q \<and> rust_str (join_with c qs)"
      using Cons.prems(1) s rust_str_append_sep [OF assms(1)] by simp
    then show ?thesis
      using Cons.hyps(1) [of "join_with c qs"] Cons.hyps(2) Cons.prems(2) qs
      by (metis set_ConsD)
  qed
qed simp

end
