(* ===== verification/Base91.thy ===== *)
theory Base91
  imports Prelude
begin

unbundle bit_operations_syntax

text \<open>
  \<open>src/src/base91.rs\<close>: the base91 binary-to-text codec over a file-system safe alphabet.

  The encoder and decoder keep a 32-bit accumulator, modelled as a \<open>32 word\<close>; the bit counts
  (\<open>num_bits\<close>, a \<open>u32\<close> that stays below 22) are natural numbers.  The main results are
  that the decoder inverts the encoder on every byte string, that the length bound the callers use
  for \<open>NAME_MAX\<close> is an upper bound, and that an encoded name is a legal path component.
  Indexing \<open>ALPHABET\<close> panics out of range; \<open>enc_step_index\<close> shows it never is.
\<close>

section \<open>Alphabet and inverse table\<close>

definition ALPHABET :: string where
  "ALPHABET =
    ''ABCDEFGHIJKLMNOPQRSTUVWXYZabcdefghijklmnopqrstuvwxyz0123456789!#$%&()*+,.':;<=>?@[]^_`{|}~''
    @ [CHR 0x22]"

definition NONE :: u8 where
  "NONE = 0xff"

definition INVERSE :: "u8 list" where
  "INVERSE = foldl (\<lambda>inv i. inv[of_char (ALPHABET ! i) := of_nat i])
    (replicate 256 NONE) [0..<length ALPHABET]"

datatype base91_error = InvalidCharacter | InvalidPadding

section \<open>Encoder\<close>

definition encoded_len_upper_bound :: "nat \<Rightarrow> nat" where
  "encoded_len_upper_bound src_len =
    (let input_bits = src_len * 8;
         full_blocks = input_bits div 13;
         remaining_bits = input_bits mod 13;
         out = full_blocks * 2
     in if remaining_bits > 0 then out + 2 else out)"

record enc_state =
  e_acc :: u32
  e_bits :: nat
  e_out :: string

definition enc_init :: enc_state where
  "enc_init = \<lparr>e_acc = 0, e_bits = 0, e_out = []\<rparr>"

definition alpha :: "u32 \<Rightarrow> char" where
  "alpha v = ALPHABET ! unat v"

definition enc_step :: "enc_state \<Rightarrow> u8 \<Rightarrow> enc_state" where
  "enc_step s x =
    (let acc = e_acc s OR push_bit (e_bits s) (ucast x);
         num_bits = e_bits s + 8
     in if num_bits > 13 then
          (let v = acc AND 0x1fff
           in if v > 88
              then s\<lparr>e_acc := drop_bit 13 acc, e_bits := num_bits - 13,
                     e_out := e_out s @ [alpha (v mod 91), alpha (v div 91)]\<rparr>
              else (let v = acc AND 0x3fff
                    in s\<lparr>e_acc := drop_bit 14 acc, e_bits := num_bits - 14,
                         e_out := e_out s @ [alpha (v mod 91), alpha (v div 91)]\<rparr>))
        else s\<lparr>e_acc := acc, e_bits := num_bits\<rparr>)"

definition enc_finish :: "enc_state \<Rightarrow> string" where
  "enc_finish s =
    (if e_bits s > 0
     then e_out s @ [alpha (e_acc s mod 91)]
       @ (if e_bits s > 7 \<or> e_acc s > 90 then [alpha (e_acc s div 91)] else [])
     else e_out s)"

definition encode :: "bytes \<Rightarrow> string" where
  "encode src = enc_finish (foldl enc_step enc_init src)"

section \<open>Decoder\<close>

record dec_state =
  d_acc :: "u32 option"
  d_b :: u32
  d_bits :: nat
  d_out :: bytes

definition dec_init :: dec_state where
  "dec_init = \<lparr>d_acc = None, d_b = 0, d_bits = 0, d_out = []\<rparr>"

function dec_emit :: "u32 \<Rightarrow> nat \<Rightarrow> bytes \<Rightarrow> u32 \<times> nat \<times> bytes" where
  "dec_emit b num_bits out =
    (let out' = out @ [ucast (b AND 0xff)]; b' = drop_bit 8 b; num_bits' = num_bits - 8
     in if num_bits' \<le> 7 then (b', num_bits', out') else dec_emit b' num_bits' out')"
  by pat_completeness auto
termination
  by (relation "measure (\<lambda>(b, num_bits, out). num_bits)") auto

declare dec_emit.simps [simp del]

definition dec_step :: "dec_state \<Rightarrow> char \<Rightarrow> base91_error + dec_state" where
  "dec_step s x =
    (let idx = INVERSE ! of_char x
     in if idx = NONE then Inl InvalidCharacter
        else case d_acc s of
          Some acc_v \<Rightarrow>
            (let a = acc_v + ucast idx * 91;
                 b = d_b s OR push_bit (d_bits s) a;
                 num_bits = d_bits s + (if (a AND 0x1fff) > 88 then 13 else 14);
                 (b', num_bits', out') = dec_emit b num_bits (d_out s)
             in Inr \<lparr>d_acc = None, d_b = b', d_bits = num_bits', d_out = out'\<rparr>)
        | None \<Rightarrow> Inr (s\<lparr>d_acc := Some (ucast idx)\<rparr>))"

fun dec_run :: "dec_state \<Rightarrow> string \<Rightarrow> base91_error + dec_state" where
  "dec_run s [] = Inr s"
| "dec_run s (x # xs) = (case dec_step s x of Inl e \<Rightarrow> Inl e | Inr s' \<Rightarrow> dec_run s' xs)"

definition dec_finish :: "dec_state \<Rightarrow> base91_error + bytes" where
  "dec_finish s =
    (case d_acc s of
      Some a \<Rightarrow>
        (let last = d_b s OR push_bit (d_bits s) a
         in if last > 0xff then Inl InvalidPadding else Inr (d_out s @ [ucast (last AND 0xff)]))
    | None \<Rightarrow> if d_b s \<noteq> 0 then Inl InvalidPadding else Inr (d_out s))"

definition decode :: "string \<Rightarrow> base91_error + bytes" where
  "decode src = (case dec_run dec_init src of Inl e \<Rightarrow> Inl e | Inr s \<Rightarrow> dec_finish s)"

section \<open>The tables\<close>

lemma length_ALPHABET [simp]: "length ALPHABET = 91"
  by (simp add: ALPHABET_def)

lemma distinct_ALPHABET: "distinct ALPHABET"
  by code_simp

lemma foldl_update_nth:
  assumes "distinct (map k is)" and "j \<in> set is" and "k j < length init"
  shows "foldl (\<lambda>inv i. inv[k i := v i]) init is ! k j = v j"
  using assms
proof (induction "is" rule: rev_induct)
  case (snoc i js)
  have len: "length (foldl (\<lambda>inv i. inv[k i := v i]) init js) = length init"
    by (induction js rule: rev_induct) auto
  show ?case
  proof (cases "i = j")
    case True
    then show ?thesis using snoc.prems by (simp add: len)
  next
    case False
    with snoc.prems have "k i \<noteq> k j" and "j \<in> set js" by auto
    with snoc show ?thesis by simp
  qed
qed simp

lemma INVERSE_ALPHABET [simp]:
  assumes "i < 91"
  shows "INVERSE ! of_char (ALPHABET ! i) = of_nat i"
proof -
  have "distinct (map (\<lambda>i. of_char (ALPHABET ! i) :: nat) [0..<91])"
    using distinct_ALPHABET
    by (auto simp: distinct_map inj_on_def nth_eq_iff_index_eq)
  with assms show ?thesis
    unfolding INVERSE_def by (subst foldl_update_nth) auto
qed

section \<open>Bit-level facts\<close>

lemma nat_or_push_bit:
  fixes a :: nat
  assumes "a < 2 ^ n"
  shows "a OR push_bit n x = a + push_bit n x"
proof -
  from assms have "take_bit n a = a" by (simp add: take_bit_nat_eq_self)
  then have low: "bit a m \<Longrightarrow> m < n" for m
    by (metis bit_take_bit_iff)
  have "a AND push_bit n x = 0"
    by (rule bit_eqI) (auto simp: bit_and_iff bit_push_bit_iff dest: low)
  then show ?thesis by (simp add: disjunctive_add_eq_or)
qed

lemma unat_or_push_bit:
  fixes a x :: u32
  assumes "unat a < 2 ^ n" and "unat x * 2 ^ n < 2 ^ 32"
  shows "unat (a OR push_bit n x) = unat a + unat x * 2 ^ n"
proof -
  have "unat (push_bit n x) = unat x * 2 ^ n"
    using assms(2)
    by (subst unsigned_push_bit_eq) (simp add: push_bit_eq_mult take_bit_nat_eq_self)
  moreover have "unat a OR push_bit n (unat x) = unat a + push_bit n (unat x)"
    using assms(1) by (rule nat_or_push_bit)
  ultimately show ?thesis by (simp only: unsigned_or_eq push_bit_eq_mult)
qed

lemma unat_and_1fff: "unat ((x::u32) AND 0x1fff) = unat x mod 8192"
proof -
  have "unat x AND 0x1fff = take_bit 13 (unat x)"
    by (simp add: take_bit_eq_mask mask_eq_exp_minus_1)
  then show ?thesis by (simp add: unsigned_and_eq take_bit_eq_mod)
qed

lemma unat_and_3fff: "unat ((x::u32) AND 0x3fff) = unat x mod 16384"
proof -
  have "unat x AND 0x3fff = take_bit 14 (unat x)"
    by (simp add: take_bit_eq_mask mask_eq_exp_minus_1)
  then show ?thesis by (simp add: unsigned_and_eq take_bit_eq_mod)
qed

lemma unat_and_ff: "unat ((x::u32) AND 0xff) = unat x mod 256"
proof -
  have "unat x AND 0xff = take_bit 8 (unat x)"
    by (simp add: take_bit_eq_mask mask_eq_exp_minus_1)
  then show ?thesis by (simp add: unsigned_and_eq take_bit_eq_mod)
qed

lemma unat_drop_bit_u32: "unat (drop_bit n (x::u32)) = unat x div 2 ^ n"
  by (simp only: unat_drop_bit_eq) (simp add: drop_bit_eq_div)

lemma unat_ucast_u8_u32 [simp]: "unat (ucast (x::u8) :: u32) = unat x"
proof -
  have "unat x < 2 ^ 8" using unsigned_less [of x] by simp
  then show ?thesis by (simp add: unsigned_ucast_eq take_bit_nat_eq_self)
qed

lemma unat_ucast_and_ff: "unat (ucast ((x::u32) AND 0xff) :: u8) = unat x mod 256"
  by (simp add: unsigned_ucast_eq unat_and_ff take_bit_eq_mod)

lemmas word_nat_simps = unat_and_1fff unat_and_3fff unat_and_ff unat_drop_bit_u32
  unat_ucast_and_ff word_less_nat_alt unat_div unat_mod

lemma unat_mod_91: "unat ((v::u32) mod 91) = unat v mod 91"
  by (simp add: unat_mod)

lemma unat_div_91: "unat ((v::u32) div 91) = unat v div 91"
  by (simp add: unat_div)

section \<open>Little-endian values\<close>

fun le_val :: "bytes \<Rightarrow> nat" where
  "le_val [] = 0"
| "le_val (b # bs) = unat b + 256 * le_val bs"

lemma le_val_append: "le_val (xs @ ys) = le_val xs + 256 ^ length xs * le_val ys"
  by (induction xs) (auto simp: algebra_simps)

lemma unat_u8_less: "unat (b::u8) < 256"
  using unsigned_less [of b] by simp

lemma le_val_inject:
  "length xs = length ys \<Longrightarrow> le_val xs = le_val ys \<Longrightarrow> xs = ys"
proof (induction xs ys rule: list_induct2)
  case (Cons x xs y ys)
  have "unat x = (unat x + 256 * le_val xs) mod 256"
    using unat_u8_less [of x] by simp
  also have "\<dots> = (unat y + 256 * le_val ys) mod 256"
    using Cons.prems by simp
  also have "\<dots> = unat y" using unat_u8_less [of y] by simp
  finally have "x = y" by (simp add: word_unat_eq_iff)
  with Cons show ?case by simp
qed simp

section \<open>One encoded pair is decoded exactly\<close>

lemma dec_emit_spec:
  assumes "8 \<le> n" and "unat b < 2 ^ n" and "dec_emit b n out = (b', n', out')"
  shows "le_val out' + 256 ^ length out' * unat b' = le_val out + 256 ^ length out * unat b"
    and "8 * length out' + n' = 8 * length out + n"
    and "n' \<le> 7" and "unat b' < 2 ^ n'"
proof -
  have "le_val out' + 256 ^ length out' * unat b' = le_val out + 256 ^ length out * unat b \<and>
    8 * length out' + n' = 8 * length out + n \<and> n' \<le> 7 \<and> unat b' < 2 ^ n'"
    using assms
  proof (induction b n out rule: dec_emit.induct)
    case (1 b n out)
    let ?o = "out @ [ucast (b AND 0xff)]" and ?b = "drop_bit 8 b"
    have val: "le_val ?o + 256 ^ length ?o * unat ?b = le_val out + 256 ^ length out * unat b"
    proof -
      have "unat b = unat b mod 256 + 256 * (unat b div 256)" by simp
      then have "256 ^ length out * unat b
        = 256 ^ length out * (unat b mod 256) + 256 ^ length out * (256 * (unat b div 256))"
        by (metis add_mult_distrib2)
      then show ?thesis by (simp add: le_val_append word_nat_simps)
    qed
    have "n = 8 + (n - 8)" using \<open>8 \<le> n\<close> by simp
    then have "(2::nat) ^ n = 2 ^ 8 * 2 ^ (n - 8)" by (metis power_add)
    then have small: "unat ?b < 2 ^ (n - 8)"
      using \<open>unat b < 2 ^ n\<close> by (simp add: word_nat_simps less_mult_imp_div_less mult.commute)
    show ?case
    proof (cases "n - 8 \<le> 7")
      case True
      then have "b' = ?b" "n' = n - 8" "out' = ?o"
        using "1.prems"(3) by (auto simp: dec_emit.simps [of b n out] Let_def)
      with val small True \<open>8 \<le> n\<close> show ?thesis by simp
    next
      case False
      then have "dec_emit ?b (n - 8) ?o = (b', n', out')"
        using "1.prems"(3) by (auto simp: dec_emit.simps [of b n out] Let_def)
      from "1.IH" [OF refl refl refl False _ small this] False val \<open>8 \<le> n\<close>
      show ?thesis by simp
    qed
  qed
  then show "le_val out' + 256 ^ length out' * unat b' = le_val out + 256 ^ length out * unat b"
    and "8 * length out' + n' = 8 * length out + n"
    and "n' \<le> 7" and "unat b' < 2 ^ n'" by blast+
qed

definition dec_ok :: "dec_state \<Rightarrow> bool" where
  "dec_ok s \<longleftrightarrow> d_acc s = None \<and> d_bits s \<le> 7 \<and> unat (d_b s) < 2 ^ d_bits s"

definition dec_total :: "dec_state \<Rightarrow> nat" where
  "dec_total s = le_val (d_out s) + 256 ^ length (d_out s) * unat (d_b s)"

definition dec_pos :: "dec_state \<Rightarrow> nat" where
  "dec_pos s = 8 * length (d_out s) + d_bits s"

lemma INVERSE_alpha [simp]:
  assumes "unat v < 91"
  shows "INVERSE ! of_char (alpha v) = ucast v"
  using assms by (simp add: alpha_def)

lemma ucast_alpha_ne_NONE:
  assumes "unat (v::u32) < 91"
  shows "(ucast v :: u8) \<noteq> NONE" and "(ucast (ucast v :: u8) :: u32) = v"
proof -
  have u: "unat (ucast v :: u8) = unat v"
    using assms by (simp add: unsigned_ucast_eq take_bit_nat_eq_self)
  then show "(ucast v :: u8) \<noteq> NONE"
    using assms by (auto simp: NONE_def)
  show "(ucast (ucast v :: u8) :: u32) = v"
    by (simp add: word_unat_eq_iff u)
qed

lemma dec_run_append:
  "dec_run s (xs @ ys) = (case dec_run s xs of Inl e \<Rightarrow> Inl e | Inr s' \<Rightarrow> dec_run s' ys)"
  by (induction xs arbitrary: s) (auto split: sum.splits)

lemma dec_step_first:
  assumes "d_acc s = None" and "unat v < 91"
  shows "dec_step s (alpha v) = Inr (s\<lparr>d_acc := Some v\<rparr>)"
  using assms by (simp add: dec_step_def ucast_alpha_ne_NONE)

lemma dec_pair:
  assumes ok: "dec_ok s" and v: "unat v < 8281"
    and k: "k = (if unat v mod 8192 > 88 then 13 else 14)" and vk: "unat v < 2 ^ k"
  obtains s' where "dec_run s [alpha (v mod 91), alpha (v div 91)] = Inr s'" and "dec_ok s'"
    and "dec_pos s' = dec_pos s + k"
    and "dec_total s' = dec_total s + 256 ^ length (d_out s) * (2 ^ d_bits s * unat v)"
proof -
  let ?b = "d_b s OR push_bit (d_bits s) v" and ?n = "d_bits s + k"
  obtain b' n' out' where emit: "dec_emit ?b ?n (d_out s) = (b', n', out')"
    by (metis prod.exhaust)
  let ?s' = "\<lparr>d_acc = None, d_b = b', d_bits = n', d_out = out'\<rparr>"
  have lo: "unat (v mod 91) < 91" and hi: "unat (v div 91) < 91"
    using v by (auto simp: unat_mod_91 unat_div_91)
  have "v mod 91 + v div 91 * 91 = v" by (rule mod_div_mult_eq)
  then have run: "dec_run s [alpha (v mod 91), alpha (v div 91)] = Inr ?s'"
    using ok lo hi emit
    by (simp add: dec_ok_def dec_step_first)
      (simp add: dec_step_def ucast_alpha_ne_NONE Let_def word_nat_simps k)
  have bits: "d_bits s \<le> 7" and bs: "unat (d_b s) < 2 ^ d_bits s"
    using ok by (auto simp: dec_ok_def)
  have pow: "2 ^ d_bits s \<le> (2::nat) ^ 7" using bits by (rule power_increasing) simp
  have "unat v * 2 ^ d_bits s \<le> 8281 * 2 ^ 7"
    using v pow by (intro mult_le_mono) auto
  then have ub: "unat ?b = unat (d_b s) + unat v * 2 ^ d_bits s"
    using bs by (intro unat_or_push_bit) auto
  have "unat v * 2 ^ d_bits s + 2 ^ d_bits s = (unat v + 1) * 2 ^ d_bits s" by simp
  also have "\<dots> \<le> 2 ^ k * 2 ^ d_bits s" using vk by (intro mult_le_mono) auto
  finally have "unat ?b < 2 ^ ?n" using ub bs by (simp add: power_add mult.commute)
  moreover have "8 \<le> ?n" using k by simp
  ultimately have "le_val out' + 256 ^ length out' * unat b'
      = le_val (d_out s) + 256 ^ length (d_out s) * unat ?b"
    and "8 * length out' + n' = 8 * length (d_out s) + ?n" and "n' \<le> 7" and "unat b' < 2 ^ n'"
    using dec_emit_spec [OF _ _ emit] by blast+
  then show ?thesis
    using run ub by (intro that [of ?s'])
      (simp_all add: dec_ok_def dec_pos_def dec_total_def algebra_simps)
qed

section \<open>The encoder's invariant\<close>

definition enc_inv :: "enc_state \<Rightarrow> bytes \<Rightarrow> bool" where
  "enc_inv s bs \<longleftrightarrow> unat (e_acc s) < 2 ^ e_bits s \<and> e_bits s \<le> 13 \<and>
    13 * length (e_out s) + 2 * e_bits s \<le> 16 * length bs \<and> even (length (e_out s)) \<and>
    (\<exists>d. dec_run dec_init (e_out s) = Inr d \<and> dec_ok d \<and>
       dec_pos d + e_bits s = 8 * length bs \<and>
       dec_total d + 256 ^ length (d_out d) * (2 ^ d_bits d * unat (e_acc s)) = le_val bs)"

lemma enc_inv_init: "enc_inv enc_init []"
  by (simp add: enc_inv_def enc_init_def dec_init_def dec_ok_def dec_pos_def dec_total_def)

text \<open>Consuming a byte without emitting: the accumulator grows by eight bits.\<close>

lemma enc_acc_step:
  assumes "unat (acc::u32) < 2 ^ n" and "n \<le> 13"
  shows "unat (acc OR push_bit n (ucast (x::u8))) = unat acc + unat x * 2 ^ n"
    and "unat acc + unat x * 2 ^ n < 2 ^ (n + 8)"
proof -
  have pow: "2 ^ n \<le> (2::nat) ^ 13" using assms(2) by (rule power_increasing) simp
  have "unat x * 2 ^ n \<le> 255 * 2 ^ 13"
    using pow unat_u8_less [of x] by (intro mult_le_mono) auto
  then show "unat (acc OR push_bit n (ucast x)) = unat acc + unat x * 2 ^ n"
    using assms(1) by (subst unat_or_push_bit) auto
  have "unat x * 2 ^ n + 2 ^ n = (unat x + 1) * 2 ^ n" by simp
  also have "\<dots> \<le> 256 * 2 ^ n" using unat_u8_less [of x] by (intro mult_le_mono) auto
  finally have "unat x * 2 ^ n + 2 ^ n \<le> 256 * 2 ^ n" .
  moreover have "(2::nat) ^ (n + 8) = 256 * 2 ^ n" by (simp add: power_add)
  ultimately show "unat acc + unat x * 2 ^ n < 2 ^ (n + 8)"
    using assms(1) by linarith
qed

text \<open>Emitting a \<open>k\<close>-bit block (13 or 14 bits) keeps the invariant.\<close>

lemma enc_emit_inv:
  assumes acc: "unat (acc::u32) < 2 ^ n" and n: "13 < n" "n \<le> 21" and kn: "k \<le> n"
    and vk: "unat v = unat acc mod 2 ^ k" and v: "unat v < 8281"
    and k: "k = (if unat v mod 8192 > 88 then 13 else 14)"
    and run: "dec_run dec_init out = Inr d" and ok: "dec_ok d"
    and pos: "dec_pos d + n = 8 * length bs"
    and tot: "dec_total d + 256 ^ length (d_out d) * (2 ^ d_bits d * unat acc) = le_val bs"
    and len: "13 * length out + 2 * n \<le> 16 * length bs" "even (length out)"
  shows "enc_inv \<lparr>e_acc = drop_bit k acc, e_bits = n - k,
           e_out = out @ [alpha (v mod 91), alpha (v div 91)]\<rparr> bs"
proof -
  have "unat v < 2 ^ k" using vk by simp
  from dec_pair [OF ok v k this] obtain d' where
    run': "dec_run d [alpha (v mod 91), alpha (v div 91)] = Inr d'" and ok': "dec_ok d'"
    and pos': "dec_pos d' = dec_pos d + k"
    and tot': "dec_total d' = dec_total d + 256 ^ length (d_out d) * (2 ^ d_bits d * unat v)"
    by blast
  have split: "unat acc = unat v + 2 ^ k * (unat acc div 2 ^ k)"
    using vk by simp
  have "256 ^ length (d_out d') * 2 ^ d_bits d' = (2::nat) ^ dec_pos d'"
    by (simp add: dec_pos_def power_add power_mult)
  also have "\<dots> = 2 ^ dec_pos d * 2 ^ k" by (simp add: pos' power_add)
  also have "\<dots> = 256 ^ length (d_out d) * 2 ^ d_bits d * 2 ^ k"
    by (simp add: dec_pos_def power_add power_mult)
  finally have scale: "256 ^ length (d_out d') * (2 ^ d_bits d' * (unat acc div 2 ^ k))
      = 256 ^ length (d_out d) * (2 ^ d_bits d * (2 ^ k * (unat acc div 2 ^ k)))"
    by (metis mult.assoc)
  have "dec_total d' + 256 ^ length (d_out d') * (2 ^ d_bits d' * (unat acc div 2 ^ k))
      = dec_total d + 256 ^ length (d_out d) * (2 ^ d_bits d * (unat v + 2 ^ k * (unat acc div 2 ^ k)))"
    using scale tot' by (simp add: distrib_left)
  also have "\<dots> = le_val bs" using tot by (simp flip: split)
  finally have "dec_total d' + 256 ^ length (d_out d') * (2 ^ d_bits d' * (unat acc div 2 ^ k))
      = le_val bs" .
  moreover have "unat acc div 2 ^ k < 2 ^ (n - k)"
    using acc kn by (metis le_add_diff_inverse less_mult_imp_div_less mult.commute power_add)
  moreover have "13 \<le> k" using k by simp
  ultimately show ?thesis
    using run run' ok' pos pos' kn n len
    by (auto simp: enc_inv_def dec_run_append unat_drop_bit_u32)
qed

lemma block_bounds: "(a::nat) mod 8192 \<le> 88 \<Longrightarrow> a mod 16384 < 8281"
  "(a::nat) mod 16384 mod 8192 = a mod 8192"
proof -
  have "a mod (8192 * 2) = 8192 * (a div 8192 mod 2) + a mod 8192" by (rule mod_mult2_eq)
  then have eq: "a mod 16384 = 8192 * (a div 8192 mod 2) + a mod 8192" by simp
  have "a div 8192 mod 2 \<le> 1" by simp
  then show "a mod 8192 \<le> 88 \<Longrightarrow> a mod 16384 < 8281" using eq by linarith
  show "a mod 16384 mod 8192 = a mod 8192" by (simp add: eq)
qed

lemma enc_state_update_all:
  "s\<lparr>e_acc := a, e_bits := n, e_out := out\<rparr> = \<lparr>e_acc = a, e_bits = n, e_out = out\<rparr>"
  by (cases s) simp

lemma enc_step_inv:
  assumes "enc_inv s bs"
  shows "enc_inv (enc_step s x) (bs @ [x])"
proof -
  from assms obtain d where acc: "unat (e_acc s) < 2 ^ e_bits s" and n: "e_bits s \<le> 13"
    and len: "13 * length (e_out s) + 2 * e_bits s \<le> 16 * length bs" "even (length (e_out s))"
    and run: "dec_run dec_init (e_out s) = Inr d" and ok: "dec_ok d"
    and pos: "dec_pos d + e_bits s = 8 * length bs"
    and tot: "dec_total d + 256 ^ length (d_out d) * (2 ^ d_bits d * unat (e_acc s)) = le_val bs"
    by (auto simp: enc_inv_def)
  define a where "a = e_acc s OR push_bit (e_bits s) (ucast x)"
  have ua: "unat a = unat (e_acc s) + unat x * 2 ^ e_bits s" and small: "unat a < 2 ^ (e_bits s + 8)"
    using enc_acc_step [OF acc n, of x] by (auto simp: a_def)
  have "256 ^ length (d_out d) * (2 ^ d_bits d * (unat x * 2 ^ e_bits s))
      = 2 ^ (dec_pos d + e_bits s) * unat x"
    by (simp add: dec_pos_def power_add power_mult)
  also have "\<dots> = 256 ^ length bs * unat x" by (simp add: pos power_mult)
  finally have scale: "256 ^ length (d_out d) * (2 ^ d_bits d * (unat x * 2 ^ e_bits s))
      = 256 ^ length bs * unat x" .
  have app: "le_val (bs @ [x]) = le_val bs + 256 ^ length bs * unat x" by (simp add: le_val_append)
  have tot': "dec_total d + 256 ^ length (d_out d) * (2 ^ d_bits d * unat a) = le_val (bs @ [x])"
    unfolding ua distrib_left app using scale tot by linarith
  have pos': "dec_pos d + (e_bits s + 8) = 8 * length (bs @ [x])" using pos by simp
  have len': "13 * length (e_out s) + 2 * (e_bits s + 8) \<le> 16 * length (bs @ [x])" using len by simp
  note emit = enc_emit_inv [OF small _ _ _ _ _ _ run ok pos' tot' len' len(2)]
  show ?thesis
  proof (cases "e_bits s + 8 > 13")
    case False
    then show ?thesis
      using small run ok pos' tot' len' len(2)
      by (auto simp: enc_inv_def enc_step_def Let_def simp flip: a_def)
  next
    case big: True
    show ?thesis
    proof (cases "unat a mod 8192 > 88")
      case True
      moreover have "unat a mod 8192 < 8281" using mod_less_divisor [of 8192 "unat a"] by simp
      ultimately show ?thesis
        using emit [of 13 "a AND 0x1fff"] big n
        by (simp add: enc_step_def Let_def word_nat_simps enc_state_update_all flip: a_def)
    next
      case False
      then show ?thesis
        using emit [of 14 "a AND 0x3fff"] big n block_bounds [of "unat a"]
        by (simp add: enc_step_def Let_def word_nat_simps enc_state_update_all flip: a_def)
    qed
  qed
qed

lemma foldl_enc_inv: "enc_inv (foldl enc_step enc_init src) src"
  by (induction src rule: rev_induct) (auto simp: enc_inv_init enc_step_inv)

lemma enc_step_index:
  assumes "enc_inv s bs" and "acc = e_acc s OR push_bit (e_bits s) (ucast x)"
    and "v = (if (acc AND 0x1fff) > 88 then acc AND 0x1fff else acc AND 0x3fff)"
  shows "unat (v mod 91) < 91 \<and> unat (v div 91) < 91"
  using block_bounds(1) [of "unat acc"] mod_less_divisor [of 8192 "unat acc"]
  unfolding assms(3)
  by (auto simp: word_nat_simps) 

section \<open>Finishing\<close>

lemma dec_finish_ok:
  assumes "dec_ok d" and "dec_total d = le_val bs" and "8 * length (d_out d) = 8 * length bs"
  shows "dec_finish d = Inr bs"
proof -
  have len: "length (d_out d) = length bs" using assms(3) by simp
  have bound: "le_val xs < 256 ^ length xs" for xs
  proof (induction xs)
    case (Cons x xs)
    then have "256 * (le_val xs + 1) \<le> 256 * 256 ^ length xs" by simp
    then show ?case using unat_u8_less [of x] by simp
  qed simp
  have "256 ^ length bs * unat (d_b d) < 256 ^ length bs * 1"
    using assms(2) bound [of bs] unfolding dec_total_def len by linarith
  then have zero: "unat (d_b d) = 0" by simp
  then have "le_val (d_out d) = le_val bs" using assms(2) by (simp add: dec_total_def)
  then have "d_out d = bs" using len by (simp add: le_val_inject)
  then show ?thesis using zero assms(1) by (simp add: dec_finish_def dec_ok_def unat_eq_0)
qed

text \<open>
  The last block holds at most 13 bits.  Together with the decoder's pending bits it fills exactly
  one or two bytes, and the one- or two-character form the encoder chooses makes the decoder emit
  exactly these.
\<close>

lemma enc_finish_one:
  assumes ok: "dec_ok d" and acc: "unat (acc::u32) < 2 ^ n" and n: "0 < n" "n \<le> 7" "unat acc \<le> 90"
    and pos: "dec_pos d + n = 8 * length bs"
    and tot: "dec_total d + 256 ^ length (d_out d) * (2 ^ d_bits d * unat acc) = le_val bs"
  shows "\<exists>d'. dec_run d [alpha (acc mod 91)] = Inr d' \<and> dec_finish d' = Inr bs"
proof -
  have acc91: "acc mod 91 = acc"
    using n by (simp add: word_unat_eq_iff unat_mod_91)
  have "d_bits d \<le> 7" using ok by (simp add: dec_ok_def)
  then have bits: "d_bits d + n = 8" using pos n unfolding dec_pos_def by presburger
  then have len: "length bs = length (d_out d) + 1" using pos by (simp add: dec_pos_def)
  have pow: "2 ^ d_bits d \<le> (2::nat) ^ 7" using ok by (intro power_increasing) (auto simp: dec_ok_def)
  have "unat acc * 2 ^ d_bits d \<le> 90 * 2 ^ 7" using n(3) pow by (rule mult_le_mono)
  then have ub: "unat (d_b d OR push_bit (d_bits d) acc) = unat (d_b d) + unat acc * 2 ^ d_bits d"
    using ok by (intro unat_or_push_bit) (auto simp: dec_ok_def)
  have "unat acc * 2 ^ d_bits d + 2 ^ d_bits d \<le> 2 ^ n * 2 ^ d_bits d"
    using acc mult_le_mono1 [of "unat acc + 1" "2 ^ n" "2 ^ d_bits d"] by simp
  also have "\<dots> = 2 ^ 8" using bits by (metis add.commute power_add)
  finally have lt: "unat (d_b d OR push_bit (d_bits d) acc) < 256"
    using ub ok by (simp add: dec_ok_def)
  let ?last = "d_b d OR push_bit (d_bits d) acc"
  have "le_val (d_out d @ [ucast (?last AND 0xff)])
      = le_val (d_out d) + 256 ^ length (d_out d) * (unat (d_b d) + unat acc * 2 ^ d_bits d)"
    using lt by (simp add: le_val_append unat_ucast_and_ff flip: ub)
  also have "\<dots> = le_val bs"
    using tot by (simp add: dec_total_def algebra_simps)
  finally have "d_out d @ [ucast (?last AND 0xff)] = bs"
    using len by (intro le_val_inject) auto
  then show ?thesis
    using ok n lt by (simp add: dec_ok_def dec_step_first acc91 dec_finish_def Let_def word_less_nat_alt)
qed

lemma enc_finish_two:
  assumes ok: "dec_ok d" and acc: "unat (acc::u32) < 2 ^ n" and n: "n \<le> 13" "7 < n \<or> 90 < unat acc"
    and pos: "dec_pos d + n = 8 * length bs"
    and tot: "dec_total d + 256 ^ length (d_out d) * (2 ^ d_bits d * unat acc) = le_val bs"
  shows "\<exists>d'. dec_run d [alpha (acc mod 91), alpha (acc div 91)] = Inr d' \<and> dec_finish d' = Inr bs"
proof -
  define k :: nat where "k = (if unat acc mod 8192 > 88 then 13 else 14)"
  have pow: "(2::nat) ^ n \<le> 2 ^ 13" using n(1) by (rule power_increasing) simp
  then have a: "unat acc < 8281" and ak: "unat acc < 2 ^ k" using acc by (auto simp: k_def)
  have "n = 7 \<or> 7 < n"
  proof (rule ccontr)
    assume "\<not> (n = 7 \<or> 7 < n)"
    then have "(2::nat) ^ n \<le> 2 ^ 6" by (intro power_increasing) auto
    then show False using acc n(2) \<open>\<not> (n = 7 \<or> 7 < n)\<close> by simp
  qed
  moreover have "n = 7 \<Longrightarrow> k = 13" using acc n(2) by (auto simp: k_def)
  ultimately have k: "n = 7 \<and> k = 13 \<or> 7 < n \<and> (k = 13 \<or> k = 14)" by (auto simp: k_def)
  from dec_pair [OF ok a k_def ak] obtain d' where
    run: "dec_run d [alpha (acc mod 91), alpha (acc div 91)] = Inr d'" and ok': "dec_ok d'"
    and pos': "dec_pos d' = dec_pos d + k"
    and tot': "dec_total d' = dec_total d + 256 ^ length (d_out d) * (2 ^ d_bits d * unat acc)"
    by blast
  have "dec_pos d' + n = 8 * length bs + k" using pos pos' by simp
  moreover have "d_bits d' \<le> 7" using ok' by (simp add: dec_ok_def)
  ultimately have "length (d_out d') = length bs"
    using k n(1) by (auto simp: dec_pos_def)
  then show ?thesis using dec_finish_ok [OF ok', of bs] run tot tot' by simp
qed

lemma decode_encode: "decode (encode src) = Inr src"
proof -
  let ?s = "foldl enc_step enc_init src"
  from foldl_enc_inv [of src] obtain d where
    inv: "unat (e_acc ?s) < 2 ^ e_bits ?s" "e_bits ?s \<le> 13"
    "dec_run dec_init (e_out ?s) = Inr d" "dec_ok d" "dec_pos d + e_bits ?s = 8 * length src"
    "dec_total d + 256 ^ length (d_out d) * (2 ^ d_bits d * unat (e_acc ?s)) = le_val src"
    by (auto simp: enc_inv_def)
  consider (none) "e_bits ?s = 0"
    | (one) "0 < e_bits ?s" "e_bits ?s \<le> 7" "unat (e_acc ?s) \<le> 90"
    | (two) "0 < e_bits ?s" "7 < e_bits ?s \<or> 90 < unat (e_acc ?s)" by linarith
  then show ?thesis
  proof cases
    case none
    then have "dec_finish d = Inr src"
      using inv by (intro dec_finish_ok) (auto simp: dec_pos_def dec_ok_def)
    then show ?thesis using none inv by (simp add: decode_def encode_def enc_finish_def)
  next
    case one
    with enc_finish_one [OF inv(4,1) one inv(5,6)] inv(3) show ?thesis
      by (auto simp: decode_def encode_def enc_finish_def dec_run_append word_less_nat_alt)
  next
    case two
    with enc_finish_two [OF inv(4,1,2) two(2) inv(5,6)] inv(3) show ?thesis
      by (auto simp: decode_def encode_def enc_finish_def dec_run_append word_less_nat_alt)
  qed
qed

lemma pairs_bound:
  fixes p n L :: nat
  assumes "13 * p + n \<le> 8 * L"
  shows "(if 0 < n then 2 * p + 2 else 2 * p) \<le> encoded_len_upper_bound L"
proof -
  define q r where "q = L * 8 div 13" and "r = L * 8 mod 13"
  have "13 * q + r = 8 * L" by (simp add: q_def r_def)
  with assms have pq: "13 * p + n \<le> 13 * q + r" by simp
  have "r < 13" by (simp add: r_def)
  have ub: "encoded_len_upper_bound L = (if r > 0 then q * 2 + 2 else q * 2)"
    by (simp add: encoded_len_upper_bound_def Let_def q_def r_def)
  show ?thesis
  proof (cases "0 < n \<and> r = 0")
    case True
    then have "p < q" using pq by linarith
    then show ?thesis using True by (simp add: ub)
  next
    case False
    have "p \<le> q" using pq \<open>r < 13\<close> by linarith
    then show ?thesis using False by (auto simp: ub)
  qed
qed

lemma encode_length_bound: "length (encode src) \<le> encoded_len_upper_bound (length src)"
proof -
  let ?s = "foldl enc_step enc_init src"
  from foldl_enc_inv [of src] have b: "13 * length (e_out ?s) + 2 * e_bits ?s \<le> 16 * length src"
    and ev: "even (length (e_out ?s))" by (auto simp: enc_inv_def)
  from ev obtain p where p: "length (e_out ?s) = 2 * p" by blast
  have "length (encode src) \<le> (if 0 < e_bits ?s then 2 * p + 2 else 2 * p)"
    by (simp add: encode_def enc_finish_def p)
  also have "\<dots> \<le> encoded_len_upper_bound (length src)"
    using b p by (intro pairs_bound) simp
  finally show ?thesis .
qed

section \<open>Encoded values are legal path components\<close>

lemma foldl_update_other:
  assumes "j \<notin> k ` set is"
  shows "foldl (\<lambda>inv i. inv[k i := v i]) init is ! j = init ! j"
  using assms by (induction "is" arbitrary: init) auto

lemma INVERSE_outside:
  assumes "c \<notin> set ALPHABET"
  shows "INVERSE ! of_char c = NONE"
proof -
  have "of_char c \<notin> (\<lambda>i. of_char (ALPHABET ! i) :: nat) ` set [0..<91]"
    using assms by (auto simp: in_set_conv_nth)
  then show ?thesis unfolding INVERSE_def by (subst foldl_update_other) auto
qed

lemma dec_run_chars:
  "dec_run s xs = Inr s' \<Longrightarrow> set xs \<subseteq> set ALPHABET"
proof (induction xs arbitrary: s)
  case (Cons x xs)
  then have "x \<in> set ALPHABET"
    by (rule_tac ccontr) (simp add: dec_step_def INVERSE_outside)
  with Cons show ?case by (auto split: sum.splits)
qed simp

lemma encode_alphabet: "set (encode src) \<subseteq> set ALPHABET"
  using decode_encode [of src] dec_run_chars [of dec_init "encode src"]
  by (auto simp: decode_def split: sum.splits)

lemma slash_notin_ALPHABET: "CHR ''/'' \<notin> set ALPHABET" "CHR 0x00 \<notin> set ALPHABET"
  by (simp_all add: ALPHABET_def)

lemma encode_nonempty:
  assumes "src \<noteq> []"
  shows "encode src \<noteq> []"
proof
  assume "encode src = []"
  then have "decode (encode src) = Inr []"
    by (simp add: decode_def dec_finish_def dec_init_def)
  with decode_encode [of src] assms show False by simp
qed

section \<open>Properties\<close>

text \<open>
  C2: decoding is a left inverse of encoding: for every byte string, \<open>decode\<close> succeeds on the
  output of \<open>encode\<close> and returns exactly the original bytes.
\<close>

theorem base91_roundtrip: "decode (encode src) = Inr src"
  by (rule decode_encode)

text \<open>
  \<open>encode\<close> always produces a single legal path component: only alphabet characters, no
  slash and no NUL, and never more characters than \<open>encoded_len_upper_bound\<close> announces.
\<close>

theorem base91_legal_component:
  "set (encode src) \<subseteq> set ALPHABET \<and> CHR ''/'' \<notin> set (encode src) \<and>
   CHR 0x00 \<notin> set (encode src) \<and> length (encode src) \<le> encoded_len_upper_bound (length src)"
  using encode_alphabet [of src] slash_notin_ALPHABET encode_length_bound [of src] by blast

lemma dec_step_total:
  assumes "c \<in> set ALPHABET"
  shows "\<exists>s'. dec_step s c = Inr s'"
proof -
  obtain i where i: "i < 91" "c = ALPHABET ! i"
    using assms by (auto simp: in_set_conv_nth)
  have "unat (of_nat i :: u8) = i" using i(1) by (simp add: unat_of_nat)
  then have "of_nat i \<noteq> NONE" using i(1) by (auto simp: NONE_def)
  then show ?thesis using i by (simp add: dec_step_def Let_def split: option.splits prod.splits)
qed

lemma dec_run_total: "set xs \<subseteq> set ALPHABET \<Longrightarrow> \<exists>s'. dec_run s xs = Inr s'"
proof (induction xs arbitrary: s)
  case (Cons x xs)
  from Cons.prems dec_step_total [of x s] obtain s1 where "dec_step s x = Inr s1" by auto
  with Cons show ?case by simp
qed simp

text \<open>
  \<open>decode\<close> reports \<open>InvalidCharacter\<close> for exactly the strings that contain a character
  outside the alphabet.
\<close>

lemma decode_invalid_character:
  "decode s = Inl InvalidCharacter \<longleftrightarrow> \<not> set s \<subseteq> set ALPHABET"
proof
  assume "decode s = Inl InvalidCharacter"
  then have "\<nexists>s'. dec_run dec_init s = Inr s'"
    by (auto simp: decode_def dec_finish_def Let_def split: sum.splits option.splits if_splits)
  then show "\<not> set s \<subseteq> set ALPHABET" using dec_run_total [of s dec_init] by auto
next
  assume foreign: "\<not> set s \<subseteq> set ALPHABET"
  have err: "dec_run st xs = Inl e \<Longrightarrow> e = InvalidCharacter" for st xs e
    by (induction xs arbitrary: st)
      (auto simp: dec_step_def Let_def split: sum.splits if_splits option.splits prod.splits)
  from foreign dec_run_chars [of dec_init s] obtain e where "dec_run dec_init s = Inl e"
    by (cases "dec_run dec_init s") auto
  with err show "decode s = Inl InvalidCharacter" by (auto simp: decode_def)
qed

end
