(* ===== verification/Path_Cipher.thy ===== *)
theory Path_Cipher
  imports Base91
begin

text \<open>
  \<open>src/src/encryption/path.rs\<close>: the file-name cipher.  A path component is zero-padded at the
  front, encrypted with the wide-block cipher HCTR2 under the plaintext path of its parent as tweak,
  and base91-encoded.

  HCTR2 (crate \<open>hctr2-rs\<close>) is a parameter: a record of its two operations.  The only facts used
  about it are its documented ones, collected in \<open>hctr2_correct\<close>: an input of at least one
  AES block is encrypted to an output of the same length, and decryption inverts encryption under
  the same key and tweak.
\<close>

section \<open>The codec interface\<close>

text \<open>
  What the path cipher needs of a binary-to-text codec for stored path components.
\<close>

locale component_codec =
  fixes enc :: "bytes \<Rightarrow> string" and dec :: "string \<Rightarrow> 'e + bytes" and bound :: "nat \<Rightarrow> nat"
  assumes dec_enc: "dec (enc bs) = Inr bs"
    and enc_length: "length (enc bs) \<le> bound (length bs)"
    and enc_no_slash: "CHR ''/'' \<notin> set (enc bs)"
begin

lemma enc_inject: "enc a = enc b \<longleftrightarrow> a = b"
  by (metis dec_enc sum.inject(2))

lemma split_stored:
  assumes "cs \<noteq> []" and "set cs \<subseteq> range enc"
  shows "split_on (CHR ''/'') (join_with (CHR ''/'') cs) = cs"
  using assms enc_no_slash by (intro split_join) auto

lemma stored_nonempty:
  assumes "bs \<noteq> []"
  shows "enc bs \<noteq> enc []"
  using assms by (simp add: enc_inject)

end

interpretation b91: component_codec encode decode encoded_len_upper_bound
  using encode_alphabet slash_notin_ALPHABET
  by unfold_locales (auto simp: decode_encode encode_length_bound)

section \<open>Model\<close>

record hctr2 =
  h_encrypt :: "bytes \<Rightarrow> bytes \<Rightarrow> bytes \<Rightarrow> bytes option"
  h_decrypt :: "bytes \<Rightarrow> bytes \<Rightarrow> bytes \<Rightarrow> bytes option"

definition hctr2_correct :: "hctr2 \<Rightarrow> bool" where
  "hctr2_correct h \<longleftrightarrow>
    (\<forall>key tweak m. 16 \<le> length m \<longrightarrow>
      (\<exists>c. h_encrypt h key tweak m = Some c \<and> length c = length m \<and>
           h_decrypt h key tweak c = Some m))"

definition PAD_BLOCK :: nat where "PAD_BLOCK = 32"
definition MIN_ZERO_PAD :: nat where "MIN_ZERO_PAD = 12"
definition NAME_MAX :: nat where "NAME_MAX = 255"

datatype path_error = InvalidName | NameTooLong

text \<open>A failing name operation returns a \<open>PathError\<close>, or panics in the \<open>expect\<close>.\<close>

datatype path_failure = PathErr path_error | Panicked

record path_cipher =
  path_key :: bytes

definition validate_name :: "string \<Rightarrow> path_error + unit" where
  "validate_name name =
    (if name = [] \<or> 0 \<in> set (as_bytes name) \<or> CHR ''/'' \<in> set name
     then Inl InvalidName else Inr ())"

definition encoded_fits :: "nat \<Rightarrow> bool" where
  "encoded_fits input_len \<longleftrightarrow> encoded_len_upper_bound input_len \<le> NAME_MAX"

definition encrypt_input_len :: "nat \<Rightarrow> nat option" where
  "encrypt_input_len name_len =
    (let min_len = name_len + MIN_ZERO_PAD;
         padded = div_ceil min_len PAD_BLOCK * PAD_BLOCK
     in if encoded_fits padded then Some padded
        else if encoded_fits min_len then Some min_len
        else None)"

fun strip_leading_nuls :: "bytes \<Rightarrow> bytes" where
  "strip_leading_nuls [] = []"
| "strip_leading_nuls (b # bs) = (if b = 0 then strip_leading_nuls bs else b # bs)"

definition push_component :: "string \<Rightarrow> string \<Rightarrow> string" where
  "push_component parent cmp = (if parent \<noteq> [] then parent @ ''/'' @ cmp else cmp)"

definition check_name_len :: "string \<Rightarrow> path_error + unit" where
  "check_name_len name =
    (case validate_name name of
      Inl e \<Rightarrow> Inl e
    | Inr _ \<Rightarrow> (case encrypt_input_len (length name) of None \<Rightarrow> Inl NameTooLong | Some _ \<Rightarrow> Inr ()))"

definition encrypt_component ::
  "hctr2 \<Rightarrow> path_cipher \<Rightarrow> string \<Rightarrow> string \<Rightarrow> path_failure + string" where
  "encrypt_component h pc name parent =
    (case validate_name name of
      Inl e \<Rightarrow> Inl (PathErr e)
    | Inr _ \<Rightarrow>
        (case encrypt_input_len (length name) of
          None \<Rightarrow> Inl (PathErr NameTooLong)
        | Some input_len \<Rightarrow>
            (let buf = replicate (input_len - length name) 0 @ as_bytes name
             in case h_encrypt h (path_key pc) (as_bytes parent) buf of
                  None \<Rightarrow> Inl Panicked
                | Some ciphertext \<Rightarrow> Inr (encode ciphertext))))"

definition decrypt_component ::
  "hctr2 \<Rightarrow> path_cipher \<Rightarrow> string \<Rightarrow> string \<Rightarrow> string option" where
  "decrypt_component h pc stored parent =
    (case decode stored of
      Inl _ \<Rightarrow> None
    | Inr ciphertext \<Rightarrow>
        if length ciphertext < PAD_BLOCK then None
        else (case h_decrypt h (path_key pc) (as_bytes parent) ciphertext of
            None \<Rightarrow> None
          | Some plaintext \<Rightarrow>
              (let pad = take MIN_ZERO_PAD plaintext;
                   acc = foldl (OR) 0 pad
               in if acc \<noteq> 0 then None
                  else (case from_utf8 (strip_leading_nuls plaintext) of
                      None \<Rightarrow> None
                    | Some name \<Rightarrow>
                        (case validate_name name of Inl _ \<Rightarrow> None | Inr _ \<Rightarrow> Some name)))))"

fun encrypt_components ::
  "hctr2 \<Rightarrow> path_cipher \<Rightarrow> string \<Rightarrow> string list \<Rightarrow> path_failure + string list" where
  "encrypt_components h pc parent [] = Inr []"
| "encrypt_components h pc parent (cmp # comps) =
    (case encrypt_component h pc cmp parent of
      Inl e \<Rightarrow> Inl e
    | Inr s \<Rightarrow>
        (case encrypt_components h pc (push_component parent cmp) comps of
          Inl e \<Rightarrow> Inl e
        | Inr ss \<Rightarrow> Inr (s # ss)))"

definition encrypt_path :: "hctr2 \<Rightarrow> path_cipher \<Rightarrow> string \<Rightarrow> path_failure + string" where
  "encrypt_path h pc plaintext_path =
    (if plaintext_path = [] then Inr []
     else (case encrypt_components h pc [] (split_on (CHR ''/'') plaintext_path) of
         Inl e \<Rightarrow> Inl e
       | Inr encoded \<Rightarrow> Inr (join_with (CHR ''/'') encoded)))"

fun decrypt_components ::
  "hctr2 \<Rightarrow> path_cipher \<Rightarrow> string \<Rightarrow> string list \<Rightarrow> string list option" where
  "decrypt_components h pc parent [] = Some []"
| "decrypt_components h pc parent (cmp # comps) =
    (case decrypt_component h pc cmp parent of
      None \<Rightarrow> None
    | Some name \<Rightarrow>
        (case decrypt_components h pc (push_component parent name) comps of
          None \<Rightarrow> None
        | Some names \<Rightarrow> Some (name # names)))"

definition decrypt_path :: "hctr2 \<Rightarrow> path_cipher \<Rightarrow> string \<Rightarrow> string option" where
  "decrypt_path h pc stored_path =
    (if stored_path = [] then Some []
     else (case decrypt_components h pc [] (split_on (CHR ''/'') stored_path) of
         None \<Rightarrow> None
       | Some plain \<Rightarrow> Some (join_with (CHR ''/'') plain)))"

section \<open>Padding and length\<close>

definition valid_name :: "string \<Rightarrow> bool" where
  "valid_name name \<longleftrightarrow> name \<noteq> [] \<and> 0 \<notin> set (as_bytes name) \<and> CHR ''/'' \<notin> set name"

lemma validate_name_Inr [simp]: "validate_name name = Inr u \<longleftrightarrow> valid_name name"
  by (auto simp: validate_name_def valid_name_def)

lemma validate_name_Inl [simp]:
  "validate_name name = Inl e \<longleftrightarrow> \<not> valid_name name \<and> e = InvalidName"
  by (auto simp: validate_name_def valid_name_def)

lemma validate_name_cases:
  "(case validate_name name of Inl e \<Rightarrow> f e | Inr u \<Rightarrow> g u)
    = (if valid_name name then g () else f InvalidName)"
  by (auto simp: validate_name_def valid_name_def)

lemma encoded_fits_iff: "encoded_fits n \<longleftrightarrow> n \<le> 206"
proof -
  define c where "c = n * 8 div 13 + (if n * 8 mod 13 > 0 then 1 else 0)"
  have ub: "encoded_len_upper_bound n = 2 * c"
    by (simp add: encoded_len_upper_bound_def Let_def c_def)
  have eq: "13 * (n * 8 div 13) + n * 8 mod 13 = n * 8" by simp
  have lt: "n * 8 mod 13 < 13" by simp
  from eq lt have c: "c = n * 8 div 13 + 1 \<and> 0 < n * 8 mod 13 \<or> c = n * 8 div 13 \<and> n * 8 mod 13 = 0"
    by (simp add: c_def)
  have lo: "n * 8 \<le> 13 * c" using eq lt c by linarith
  have hi: "13 * c < n * 8 + 13" using eq lt c by linarith
  have "c \<le> 127 \<Longrightarrow> n \<le> 206" using lo by linarith
  then have "2 * c \<le> 255 \<Longrightarrow> n \<le> 206" by simp
  moreover have "n \<le> 206 \<Longrightarrow> 2 * c \<le> 255" using hi by linarith
  ultimately show ?thesis unfolding encoded_fits_def NAME_MAX_def ub by blast
qed

lemma encrypt_input_len_Some_iff: "(\<exists>r. encrypt_input_len n = Some r) \<longleftrightarrow> n \<le> 194"
proof -
  have "n + 12 \<le> div_ceil (n + 12) 32 * 32" by (rule div_ceil_upper) simp
  then show ?thesis
    by (auto simp: encrypt_input_len_def Let_def encoded_fits_iff MIN_ZERO_PAD_def PAD_BLOCK_def)
qed

lemma encrypt_input_len_SomeD:
  assumes "encrypt_input_len n = Some r"
  shows "n + MIN_ZERO_PAD \<le> r" and "PAD_BLOCK \<le> r" and "encoded_fits r" and "n \<le> 194"
proof -
  have up: "n + 12 \<le> div_ceil (n + 12) 32 * 32" by (rule div_ceil_upper) simp
  have "(div_ceil (n + 12) 32 - 1) * 32 < n + 12" by (rule div_ceil_lower) simp
  then have lo: "div_ceil (n + 12) 32 * 32 < n + 44" by linarith
  from up have one: "32 \<le> div_ceil (n + 12) 32 * 32" by (cases "div_ceil (n + 12) 32") auto
  show "n + MIN_ZERO_PAD \<le> r" and "PAD_BLOCK \<le> r" and "encoded_fits r" and "n \<le> 194"
    using assms up lo one
    by (auto simp: encrypt_input_len_def Let_def encoded_fits_iff MIN_ZERO_PAD_def PAD_BLOCK_def
        split: if_splits)
qed

section \<open>Stripping the padding\<close>

lemma strip_leading_nuls_pad:
  assumes "valid_name name"
  shows "strip_leading_nuls (replicate j 0 @ as_bytes name) = as_bytes name"
proof -
  have "strip_leading_nuls (as_bytes name) = as_bytes name"
    using assms by (cases name) (auto simp: valid_name_def)
  then show ?thesis by (induction j) auto
qed

lemma strip_leading_nuls_split:
  "\<exists>j. bs = replicate j 0 @ strip_leading_nuls bs"
proof (induction bs)
  case (Cons b bs)
  then obtain j where "bs = replicate j 0 @ strip_leading_nuls bs" by blast
  then have "b = 0 \<Longrightarrow> b # bs = replicate (Suc j) 0 @ strip_leading_nuls (b # bs)" by simp
  moreover have "b \<noteq> 0 \<Longrightarrow> b # bs = replicate 0 0 @ strip_leading_nuls (b # bs)" by simp
  ultimately show ?case by blast
qed simp

lemma foldl_or_zero:
  "foldl (OR) a bs = (0 :: u8) \<longleftrightarrow> a = 0 \<and> (\<forall>b \<in> set bs. b = 0)"
  by (induction bs arbitrary: a) (auto simp: or_eq_0_iff)

lemma zero_pad_prefix:
  assumes "foldl (OR) (0::u8) (take k pt) = 0" and "strip_leading_nuls pt \<noteq> []"
  shows "\<exists>j \<ge> k. pt = replicate j 0 @ strip_leading_nuls pt"
proof -
  obtain j where j: "pt = replicate j 0 @ strip_leading_nuls pt"
    using strip_leading_nuls_split by blast
  obtain b rest where b: "strip_leading_nuls pt = b # rest" using assms(2) by (cases "strip_leading_nuls pt") auto
  have "b \<noteq> 0"
  proof -
    have "strip_leading_nuls xs = b # rest \<Longrightarrow> b \<noteq> 0" for xs
      by (induction xs) (auto split: if_splits)
    then show ?thesis using b by blast
  qed
  have "k \<le> j"
  proof (rule ccontr)
    assume "\<not> k \<le> j"
    then have "j < k" by simp
    then have "b \<in> set (take k pt)"
      by (subst j) (simp add: b take_Cons' split: if_splits)
    with assms(1) \<open>b \<noteq> 0\<close> show False by (simp add: foldl_or_zero)
  qed
  with j show ?thesis by blast
qed

section \<open>Components round-trip\<close>

lemma encrypt_component_spec:
  assumes "hctr2_correct h" and "valid_name name" and "encrypt_input_len (length name) = Some n"
  shows "\<exists>ct. encrypt_component h pc name parent = Inr (encode ct) \<and> length ct = n \<and>
    h_decrypt h (path_key pc) (as_bytes parent) ct
      = Some (replicate (n - length name) 0 @ as_bytes name)"
proof -
  let ?buf = "replicate (n - length name) 0 @ as_bytes name"
  have "length ?buf = n" and "16 \<le> n"
    using encrypt_input_len_SomeD [OF assms(3)] by (auto simp: PAD_BLOCK_def)
  then obtain ct where "h_encrypt h (path_key pc) (as_bytes parent) ?buf = Some ct"
    and "length ct = n" and "h_decrypt h (path_key pc) (as_bytes parent) ct = Some ?buf"
    using assms(1) unfolding hctr2_correct_def by metis
  then show ?thesis
    using assms(2,3) by (auto simp: encrypt_component_def validate_name_cases intro!: exI [of _ ct])
qed

lemma encrypt_component_Inr_iff:
  assumes "hctr2_correct h"
  shows "(\<exists>s. encrypt_component h pc name parent = Inr s) \<longleftrightarrow> valid_name name \<and> length name \<le> 194"
proof -
  have "(\<exists>s. encrypt_component h pc name parent = Inr s)
    \<longleftrightarrow> valid_name name \<and> (\<exists>n. encrypt_input_len (length name) = Some n)"
    using encrypt_component_spec [OF assms]
    by (fastforce simp: encrypt_component_def validate_name_cases split: option.splits if_splits)
  then show ?thesis by (simp add: encrypt_input_len_Some_iff)
qed

lemma encrypt_component_not_panicked:
  assumes "hctr2_correct h"
  shows "encrypt_component h pc name parent \<noteq> Inl Panicked"
proof (cases "valid_name name \<and> (\<exists>n. encrypt_input_len (length name) = Some n)")
  case True
  then show ?thesis using encrypt_component_spec [OF assms, of name _ pc parent] by fastforce
next
  case False
  then show ?thesis
    by (auto simp: encrypt_component_def validate_name_cases split: option.splits)
qed

lemma decrypt_encrypt_component:
  assumes "hctr2_correct h" and "rust_str name" and "encrypt_component h pc name parent = Inr s"
  shows "decrypt_component h pc s parent = Some name"
proof -
  from assms(3) have v: "valid_name name"
    by (auto simp: encrypt_component_def validate_name_cases split: if_splits)
  from assms(3) obtain n where n: "encrypt_input_len (length name) = Some n"
    by (auto simp: encrypt_component_def validate_name_cases split: if_splits option.splits)
  from encrypt_component_spec [OF assms(1) v n, of pc parent] assms(3) obtain ct where
    s: "s = encode ct" and len: "length ct = n"
    and pt: "h_decrypt h (path_key pc) (as_bytes parent) ct
      = Some (replicate (n - length name) 0 @ as_bytes name)" by auto
  note d = encrypt_input_len_SomeD [OF n]
  have "take MIN_ZERO_PAD (replicate (n - length name) 0 @ as_bytes name) = replicate MIN_ZERO_PAD (0::u8)"
    using d(1) by simp
  moreover have "foldl (OR) (0::u8) (replicate MIN_ZERO_PAD 0) = 0" by (simp add: foldl_or_zero)
  ultimately show ?thesis
    using v d(2) assms(2) len
    by (simp add: decrypt_component_def s decode_encode pt strip_leading_nuls_pad from_utf8_def
        rust_str_def validate_name_cases)
qed

lemma encrypt_component_stored:
  assumes "encrypt_component h pc name parent = Inr s"
  shows "s \<in> range encode"
  using assms by (auto simp: encrypt_component_def validate_name_cases split: if_splits option.splits)

lemma decrypt_encrypt_components:
  assumes "hctr2_correct h"
  shows "\<forall>c \<in> set cs. rust_str c \<Longrightarrow> encrypt_components h pc parent cs = Inr ss \<Longrightarrow>
    decrypt_components h pc parent ss = Some cs \<and> set ss \<subseteq> range encode \<and> length ss = length cs"
proof (induction cs arbitrary: parent ss)
  case (Cons c cs)
  then show ?case
    using decrypt_encrypt_component [OF assms, of c pc parent] encrypt_component_stored
    by (fastforce split: sum.splits)
qed simp

lemma encrypt_components_Inr_iff:
  assumes "hctr2_correct h"
  shows "(\<exists>ss. encrypt_components h pc parent cs = Inr ss)
    \<longleftrightarrow> (\<forall>c \<in> set cs. valid_name c \<and> length c \<le> 194)"
proof (induction cs arbitrary: parent)
  case (Cons c cs)
  show ?case
    using Cons.IH [of "push_component parent c"] encrypt_component_Inr_iff [OF assms, of pc c parent]
    by (auto split: sum.splits)
qed simp

lemma encrypt_components_error:
  assumes "hctr2_correct h" and "encrypt_components h pc parent cs = Inl e"
  shows "e = PathErr InvalidName \<or> e = PathErr NameTooLong"
  using assms(2)
proof (induction cs arbitrary: parent)
  case (Cons c cs)
  have "encrypt_component h pc c parent = Inl e \<Longrightarrow> e = PathErr InvalidName \<or> e = PathErr NameTooLong" for e
    using encrypt_component_not_panicked [OF assms(1), of pc c parent]
    by (auto simp: encrypt_component_def validate_name_cases split: if_splits option.splits)
  with Cons show ?case by (auto split: sum.splits)
qed simp

lemma join_nonempty:
  assumes "cs \<noteq> []" and "\<forall>c \<in> set cs. c \<noteq> []"
  shows "join_with sep cs \<noteq> []"
  using assms by (cases "(sep, cs)" rule: join_with.cases) auto

section \<open>Properties\<close>

text \<open>
  C1: a path that the cipher encrypts is recovered exactly by decryption with the same key, for every
  depth and every component, provided HCTR2 behaves as documented.
\<close>

theorem path_roundtrip:
  assumes "hctr2_correct h" and "rust_str p" and "encrypt_path h pc p = Inr s"
  shows "decrypt_path h pc s = Some p"
proof (cases "p = []")
  case True
  then show ?thesis using assms(3) by (simp add: encrypt_path_def decrypt_path_def)
next
  case False
  let ?cs = "split_on (CHR ''/'') p"
  from assms(3) False obtain ss where ss: "encrypt_components h pc [] ?cs = Inr ss"
    and s: "s = join_with (CHR ''/'') ss"
    by (auto simp: encrypt_path_def split: sum.splits)
  have "\<forall>c \<in> set ?cs. rust_str c"
    using rust_str_split [OF _ assms(2), of "CHR ''/''"] by simp
  from decrypt_encrypt_components [OF assms(1) this ss]
  have dec: "decrypt_components h pc [] ss = Some ?cs" and rng: "set ss \<subseteq> range encode"
    and len: "length ss = length ?cs" by auto
  have ne: "ss \<noteq> []" using len by (metis length_0_conv split_on_nonempty)
  have "\<forall>x \<in> set ss. x \<noteq> []"
  proof
    fix x assume "x \<in> set ss"
    moreover have "decrypt_components h pc par xs = Some ys \<Longrightarrow> [] \<notin> set xs" for par xs ys
      by (induction xs arbitrary: par ys)
        (auto split: option.splits simp: decrypt_component_def decode_def dec_finish_def dec_init_def
          PAD_BLOCK_def)
    ultimately show "x \<noteq> []" using dec by blast
  qed
  with ne have "s \<noteq> []" by (simp add: s join_nonempty)
  then show ?thesis
    by (simp add: decrypt_path_def s b91.split_stored [OF ne rng] dec)
qed

text \<open>A concrete length-preserving permutation that satisfies the documented laws of HCTR2.\<close>

definition xor_cipher :: hctr2 where
  "xor_cipher = (let f = (\<lambda>key tweak m. if length m < 16 then None
       else Some (map (\<lambda>b. b XOR foldl (XOR) 0x5a (key @ tweak)) m))
     in \<lparr>h_encrypt = f, h_decrypt = f\<rparr>)"

lemma xor_cipher_correct: "hctr2_correct xor_cipher"
  by (auto simp: hctr2_correct_def xor_cipher_def Let_def comp_def xor.assoc intro!: map_idI)

theorem path_roundtrip_witness:
  "\<exists>s. encrypt_path xor_cipher \<lparr>path_key = [1, 2]\<rparr> ''dir/f'' = Inr s \<and>
     decrypt_path xor_cipher \<lparr>path_key = [1, 2]\<rparr> s = Some ''dir/f''"
proof -
  have comps: "split_on (CHR ''/'') ''dir/f'' = [''dir'', ''f'']" by simp
  have "\<exists>ss. encrypt_components xor_cipher \<lparr>path_key = [1, 2]\<rparr> [] [''dir'', ''f''] = Inr ss"
    by (subst encrypt_components_Inr_iff [OF xor_cipher_correct])
      (simp add: valid_name_def u8_of_char_def)
  then obtain s where s: "encrypt_path xor_cipher \<lparr>path_key = [1, 2]\<rparr> ''dir/f'' = Inr s"
    by (auto simp: encrypt_path_def comps)
  have "rust_str ''dir/f''" by code_simp
  from path_roundtrip [OF xor_cipher_correct this s] s show ?thesis by blast
qed

text \<open>
  Encryption of a non-empty path never panics; it succeeds exactly when every component is a
  legal name of at most 194 bytes, and otherwise reports \<open>InvalidName\<close> or \<open>NameTooLong\<close>.
\<close>

theorem encrypt_path_total:
  assumes "hctr2_correct h" and "p \<noteq> []"
  shows "case encrypt_path h pc p of
      Inr s \<Rightarrow> \<forall>c \<in> set (split_on (CHR ''/'') p). valid_name c \<and> length c \<le> 194
    | Inl e \<Rightarrow> (e = PathErr InvalidName \<or> e = PathErr NameTooLong) \<and>
        (\<exists>c \<in> set (split_on (CHR ''/'') p). \<not> (valid_name c \<and> length c \<le> 194))"
proof -
  let ?cs = "split_on (CHR ''/'') p"
  show ?thesis
  proof (cases "encrypt_components h pc [] ?cs")
    case (Inl e)
    then have "\<not> (\<exists>ss. encrypt_components h pc [] ?cs = Inr ss)" by simp
    then have "\<exists>c \<in> set ?cs. \<not> (valid_name c \<and> length c \<le> 194)"
      by (subst (asm) encrypt_components_Inr_iff [OF assms(1)]) blast
    with Inl assms(2) encrypt_components_error [OF assms(1) Inl] show ?thesis
      by (simp add: encrypt_path_def)
  next
    case (Inr ss)
    then have "\<exists>ss. encrypt_components h pc [] ?cs = Inr ss" by blast
    then have "\<forall>c \<in> set ?cs. valid_name c \<and> length c \<le> 194"
      by (subst (asm) encrypt_components_Inr_iff [OF assms(1)])
    with Inr assms(2) show ?thesis by (simp add: encrypt_path_def)
  qed
qed

theorem encrypt_path_total_witness:
  "\<exists>s. encrypt_path xor_cipher \<lparr>path_key = []\<rparr> ''f'' = Inr s"
  using encrypt_path_total [OF xor_cipher_correct, where p = "''f''" and pc = "\<lparr>path_key = []\<rparr>"]
  by (auto simp: valid_name_def u8_of_char_def split: sum.splits)

text \<open>
  C31: every name the cipher stores fits the file-system limit of 255 bytes and is a single path
  component, and \<open>check_name_len\<close>, the cheap check run before any local change, accepts
  exactly the names \<open>encrypt_component\<close> can store.
\<close>

theorem stored_name_fits:
  assumes "hctr2_correct h"
  shows "case encrypt_component h pc name parent of
      Inr s \<Rightarrow> length s \<le> NAME_MAX \<and> CHR ''/'' \<notin> set s \<and> check_name_len name = Inr ()
    | Inl e \<Rightarrow> (\<exists>pe. e = PathErr pe \<and> check_name_len name = Inl pe)"
proof (cases "valid_name name \<and> (\<exists>n. encrypt_input_len (length name) = Some n)")
  case True
  then obtain n where n: "encrypt_input_len (length name) = Some n" and v: "valid_name name" by blast
  from encrypt_component_spec [OF assms v n] obtain ct where
    s: "encrypt_component h pc name parent = Inr (encode ct)" and "length ct = n" by blast
  then have "length (encode ct) \<le> NAME_MAX"
    using encrypt_input_len_SomeD(3) [OF n] b91.enc_length [of ct] by (simp add: encoded_fits_def)
  then show ?thesis using s n v b91.enc_no_slash
    by (simp add: check_name_len_def validate_name_cases)
next
  case False
  then show ?thesis
    by (auto simp: encrypt_component_def check_name_len_def validate_name_cases split: option.splits)
qed

theorem stored_name_fits_witness:
  "\<exists>s. encrypt_component xor_cipher \<lparr>path_key = []\<rparr> ''f'' [] = Inr s \<and> length s \<le> NAME_MAX"
  using stored_name_fits [OF xor_cipher_correct, where pc = "\<lparr>path_key = []\<rparr>" and name = "''f''" and parent = "[]"]
  by (auto simp: check_name_len_def validate_name_cases valid_name_def u8_of_char_def
      encrypt_input_len_def encoded_fits_def encoded_len_upper_bound_def NAME_MAX_def Let_def
      MIN_ZERO_PAD_def PAD_BLOCK_def div_ceil_def split: sum.splits)

text \<open>
  A stored component is accepted exactly when it decodes, is at least one pad block long, and its
  HCTR2 plaintext is a run of at least twelve zero bytes followed by a legal UTF-8 name: this is the
  redundancy that authenticates a name.
\<close>

theorem decrypt_component_iff:
  "decrypt_component h pc stored parent = Some name \<longleftrightarrow>
    (\<exists>ct pt j. decode stored = Inr ct \<and> PAD_BLOCK \<le> length ct \<and>
      h_decrypt h (path_key pc) (as_bytes parent) ct = Some pt \<and>
      MIN_ZERO_PAD \<le> j \<and> pt = replicate j 0 @ as_bytes name \<and> valid_name name \<and> rust_str name)"
  (is "?lhs \<longleftrightarrow> ?rhs")
proof
  assume ?lhs
  then obtain ct pt where ct: "decode stored = Inr ct" "PAD_BLOCK \<le> length ct"
    and pt: "h_decrypt h (path_key pc) (as_bytes parent) ct = Some pt"
    and pad: "foldl (OR) 0 (take MIN_ZERO_PAD pt) = 0"
    and utf: "from_utf8 (strip_leading_nuls pt) = Some name" and v: "valid_name name"
    by (auto simp: decrypt_component_def validate_name_cases Let_def not_less
        split: sum.splits option.splits if_splits)
  from utf have name: "strip_leading_nuls pt = as_bytes name" and "rust_str name"
    by (auto simp: from_utf8_def rust_str_def split: if_splits)
  moreover have "as_bytes name \<noteq> []" using v by (auto simp: valid_name_def as_bytes_def)
  ultimately show ?rhs using zero_pad_prefix [OF pad] ct pt v by metis
next
  assume ?rhs
  then show ?lhs
    by (auto simp: decrypt_component_def validate_name_cases strip_leading_nuls_pad from_utf8_def
        rust_str_def foldl_or_zero Let_def not_less)
qed

end
