(* ===== verification/Content.thy ===== *)
theory Content
  imports Prelude
begin

text \<open>
  \<open>src/src/encryption/content.rs\<close>: the HFEB container around an AEGIS-RAF body, the size
  map between plaintext and ciphertext, the fetch plan of a decrypting ranged read, and the two
  \<open>RafIo\<close> back ends (a read-only window over fetched ranges and a file window past the HFEB
  prefix).

  The RAF implementation (crate \<open>aegis\<close>) is a parameter of the operations that call it.
  Object sizes and offsets are \<open>u64\<close> values, modelled as natural numbers; the one expression
  that can exceed 64 bits, \<open>ciphertext_size\<close>, wraps explicitly, and the theorems on
  \<open>plan_read\<close> show that every offset it computes stays below the object size.
\<close>

section \<open>Constants and header\<close>

definition HFEB_MAGIC :: bytes where
  "HFEB_MAGIC = map u8_of_char ''HFEB''"

definition HFEB_VERSION :: u8 where "HFEB_VERSION = 1"
definition HFEB_HEADER_LEN :: nat where "HFEB_HEADER_LEN = 6"
definition ALG_AEGIS_128X2 :: u8 where "ALG_AEGIS_128X2 = 2"
definition RAF_HEADER_LEN :: nat where "RAF_HEADER_LEN = 64"
definition RAF_CHUNK_SIZE :: nat where "RAF_CHUNK_SIZE = 65536"
definition RAF_CHUNK_OVERHEAD :: nat where "RAF_CHUNK_OVERHEAD = 32"

definition RAF_CHUNK_RECORD :: nat where
  "RAF_CHUNK_RECORD = RAF_CHUNK_SIZE + RAF_CHUNK_OVERHEAD"

definition CONTAINER_HEADER_LEN :: nat where
  "CONTAINER_HEADER_LEN = HFEB_HEADER_LEN + RAF_HEADER_LEN"

lemmas raf_consts = HFEB_HEADER_LEN_def RAF_HEADER_LEN_def RAF_CHUNK_SIZE_def
  RAF_CHUNK_OVERHEAD_def RAF_CHUNK_RECORD_def CONTAINER_HEADER_LEN_def

datatype header_error = Truncated | BadMagic | UnsupportedVersion u8 | UnknownAlgorithm u8

definition write_header :: "bytes \<Rightarrow> u8 \<Rightarrow> bytes" where
  "write_header buf algorithm =
    ((HFEB_MAGIC @ drop 4 buf)[4 := HFEB_VERSION])[5 := algorithm]"

definition parse_header :: "bytes \<Rightarrow> header_error + u8" where
  "parse_header bs =
    (if length bs < HFEB_HEADER_LEN then Inl Truncated
     else if take 4 bs \<noteq> HFEB_MAGIC then Inl BadMagic
     else if bs ! 4 \<noteq> HFEB_VERSION then Inl (UnsupportedVersion (bs ! 4))
     else if bs ! 5 = ALG_AEGIS_128X2 then Inr ALG_AEGIS_128X2
     else Inl (UnknownAlgorithm (bs ! 5)))"

section \<open>Size map\<close>

definition ciphertext_size :: "nat \<Rightarrow> nat" where
  "ciphertext_size plaintext =
    wrap64 (CONTAINER_HEADER_LEN + wrap64 (div_ceil plaintext RAF_CHUNK_SIZE * RAF_CHUNK_RECORD))"

definition container_chunk_count :: "nat \<Rightarrow> nat option" where
  "container_chunk_count ciphertext =
    (if ciphertext < CONTAINER_HEADER_LEN then None
     else let body = ciphertext - CONTAINER_HEADER_LEN
          in if body mod RAF_CHUNK_RECORD = 0 then Some (body div RAF_CHUNK_RECORD) else None)"

section \<open>Read plan\<close>

record read_plan =
  header_object :: "nat \<times> nat"
  slots_object :: "nat \<times> nat"
  slot_base_raf :: nat
  plan_raf_size :: nat

definition plan_read :: "nat \<Rightarrow> nat \<Rightarrow> nat \<Rightarrow> read_plan option" where
  "plan_read object_size off len =
    (case container_chunk_count object_size of
      None \<Rightarrow> None
    | Some chunks \<Rightarrow>
        (let raf_size = object_size - HFEB_HEADER_LEN;
             hfeb = HFEB_HEADER_LEN;
             header = (hfeb, hfeb + RAF_HEADER_LEN);
             first = off div RAF_CHUNK_SIZE;
             end = sat_add64 off len
         in if len = 0 \<or> chunks = 0 \<or> first \<ge> chunks
            then Some \<lparr>header_object = header, slots_object = (0, 0),
                       slot_base_raf = RAF_HEADER_LEN, plan_raf_size = raf_size\<rparr>
            else (let last = min ((end - 1) div RAF_CHUNK_SIZE) (chunks - 1);
                      slot_base = RAF_HEADER_LEN + first * RAF_CHUNK_RECORD;
                      slot_end = RAF_HEADER_LEN + (last + 1) * RAF_CHUNK_RECORD
                  in Some \<lparr>header_object = header,
                           slots_object = (hfeb + slot_base, hfeb + slot_end),
                           slot_base_raf = slot_base, plan_raf_size = raf_size\<rparr>)))"

section \<open>The read-only RafIo\<close>

datatype io_error = InvalidInput | UnexpectedEof | Unsupported | IoOther string

record read_io =
  io_raf_size :: nat
  io_header :: bytes
  io_slot_base :: nat
  io_slots :: bytes

definition read_io_new :: "nat \<Rightarrow> bytes \<Rightarrow> nat \<Rightarrow> bytes \<Rightarrow> read_io" where
  "read_io_new raf_size header slot_base slots =
    \<lparr>io_raf_size = raf_size, io_header = header, io_slot_base = slot_base, io_slots = slots\<rparr>"

definition read_io_read_at :: "read_io \<Rightarrow> nat \<Rightarrow> nat \<Rightarrow> io_error + bytes" where
  "read_io_read_at io len offset =
    (if offset + len > u64_max then Inl InvalidInput
     else let end = offset + len
          in if end \<le> length (io_header io) then Inr (take len (drop offset (io_header io)))
             else if offset \<ge> io_slot_base io \<and> end \<le> io_slot_base io + length (io_slots io)
             then Inr (take len (drop (offset - io_slot_base io) (io_slots io)))
             else Inl UnexpectedEof)"

definition read_io_write_at :: "read_io \<Rightarrow> bytes \<Rightarrow> nat \<Rightarrow> io_error + read_io" where
  "read_io_write_at io buf offset = Inl Unsupported"

definition read_io_get_size :: "read_io \<Rightarrow> nat" where
  "read_io_get_size io = io_raf_size io"

definition read_io_set_size :: "read_io \<Rightarrow> nat \<Rightarrow> io_error + read_io" where
  "read_io_set_size io new_size = Inl Unsupported"

text \<open>What \<open>aegis::raf::probe\<close> reports of a RAF header.\<close>

record raf_info =
  ri_algorithm :: u8
  ri_chunk_size :: nat
  ri_file_size :: nat

definition probe_plaintext_size ::
  "(read_io \<Rightarrow> raf_info option) \<Rightarrow> bytes \<Rightarrow> nat \<Rightarrow> nat option" where
  "probe_plaintext_size probe raf_header ct_size =
    (if ct_size < HFEB_HEADER_LEN then None
     else (let raf_size = ct_size - HFEB_HEADER_LEN;
               io = read_io_new raf_size raf_header RAF_HEADER_LEN []
           in case probe io of
                None \<Rightarrow> None
              | Some info \<Rightarrow>
                  if ri_algorithm info \<noteq> ALG_AEGIS_128X2 \<or> ri_chunk_size info \<noteq> RAF_CHUNK_SIZE
                  then None else Some (ri_file_size info)))"

text \<open>\<open>decrypt_read\<close> opens the RAF over the window and reads; the RAF is a parameter.\<close>

definition decrypt_read ::
  "(read_io \<Rightarrow> bytes \<Rightarrow> ('e + 'raf)) \<Rightarrow> ('raf \<Rightarrow> nat \<Rightarrow> nat \<Rightarrow> 'e + bytes) \<Rightarrow>
   bytes \<Rightarrow> read_io \<Rightarrow> nat \<Rightarrow> nat \<Rightarrow> 'e + bytes" where
  "decrypt_read raf_open raf_read key io plaintext_off out_len =
    (case raf_open io key of Inl e \<Rightarrow> Inl e | Inr raf \<Rightarrow> raf_read raf out_len plaintext_off)"

section \<open>The staging file window\<close>

text \<open>
  Positioned file I/O of the operating system: \<open>read_exact_at\<close> fails past the end of the file,
  \<open>write_all_at\<close> extends the file with zero bytes up to the offset, \<open>set_len\<close> truncates
  or zero-extends.
\<close>

definition file_read_exact_at :: "bytes \<Rightarrow> nat \<Rightarrow> nat \<Rightarrow> io_error + bytes" where
  "file_read_exact_at f len off =
    (if off + len \<le> length f then Inr (take len (drop off f))
     else if len = 0 then Inr [] else Inl UnexpectedEof)"

definition file_write_all_at :: "bytes \<Rightarrow> bytes \<Rightarrow> nat \<Rightarrow> bytes" where
  "file_write_all_at f buf off =
    (if buf = [] then f
     else take off f @ replicate (off - length f) 0 @ buf @ drop (off + length buf) f)"

definition file_set_len :: "bytes \<Rightarrow> nat \<Rightarrow> bytes" where
  "file_set_len f n = take n f @ replicate (n - length f) 0"

definition staging_read_at :: "bytes \<Rightarrow> nat \<Rightarrow> nat \<Rightarrow> io_error + bytes" where
  "staging_read_at f len offset = file_read_exact_at f len (offset + HFEB_HEADER_LEN)"

definition staging_write_at :: "bytes \<Rightarrow> bytes \<Rightarrow> nat \<Rightarrow> bytes" where
  "staging_write_at f buf offset = file_write_all_at f buf (offset + HFEB_HEADER_LEN)"

definition staging_get_size :: "bytes \<Rightarrow> nat" where
  "staging_get_size f = length f - HFEB_HEADER_LEN"

definition staging_set_size :: "bytes \<Rightarrow> nat \<Rightarrow> bytes" where
  "staging_set_size f new_size = file_set_len f (new_size + HFEB_HEADER_LEN)"

text \<open>
  \<open>create_staging_container\<close> truncates the file, writes the HFEB header and lets the RAF
  initialise itself through the window; \<open>raf_create\<close> maps the window file to the file after the
  RAF has written its header, or fails.
\<close>

definition create_staging_container ::
  "(bytes \<Rightarrow> bytes \<Rightarrow> io_error + bytes) \<Rightarrow> bytes \<Rightarrow> io_error + bytes" where
  "create_staging_container raf_create key =
    (let header = write_header (replicate HFEB_HEADER_LEN 0) ALG_AEGIS_128X2
     in raf_create header key)"

definition open_staging_raf ::
  "(bytes \<Rightarrow> bytes \<Rightarrow> io_error + 'raf) \<Rightarrow> bytes \<Rightarrow> bytes \<Rightarrow> io_error + 'raf" where
  "open_staging_raf raf_open f key =
    (case file_read_exact_at f HFEB_HEADER_LEN 0 of
      Inl e \<Rightarrow> Inl e
    | Inr header \<Rightarrow>
        (case parse_header header of
          Inl e \<Rightarrow> Inl (IoOther ''invalid HFEB header'')
        | Inr _ \<Rightarrow> raf_open f key))"

section \<open>Ranged decrypting reads of the virtual file system\<close>

text \<open>
  \<open>VirtualFs::fetch_object_range_with\<close> reads a download stream to its end and retries a
  failed download.  The CAS client is a parameter: \<open>attempt k\<close> is the outcome of opening the
  stream at the \<open>k\<close>-th attempt, a list of the events \<open>next()\<close> delivers; a list that ends
  without \<open>End\<close> is a stream that stalls until the timeout fires.
\<close>

datatype stream_event = Chunk bytes | End | Failed

fun drain_stream :: "stream_event list \<Rightarrow> bytes \<Rightarrow> bytes option" where
  "drain_stream [] buf = None"
| "drain_stream (Chunk c # evs) buf = drain_stream evs (buf @ c)"
| "drain_stream (End # evs) buf = Some buf"
| "drain_stream (Failed # evs) buf = None"

definition MAX_ATTEMPTS :: nat where "MAX_ATTEMPTS = 3"

fun fetch_attempts :: "(nat \<Rightarrow> 'e + stream_event list) \<Rightarrow> nat list \<Rightarrow> int + bytes" where
  "fetch_attempts attempt [] = Inl EIO"
| "fetch_attempts attempt (k # ks) =
    (case attempt k of
      Inl e \<Rightarrow> fetch_attempts attempt ks
    | Inr evs \<Rightarrow>
        (case drain_stream evs [] of Some buf \<Rightarrow> Inr buf | None \<Rightarrow> fetch_attempts attempt ks))"

definition fetch_object_range_with :: "(nat \<Rightarrow> 'e + stream_event list) \<Rightarrow> int + bytes" where
  "fetch_object_range_with attempt = fetch_attempts attempt [0..<MAX_ATTEMPTS]"

record enc_read_state =
  er_cipher_size :: nat
  er_header :: "bytes option"

text \<open>
  \<open>VirtualFs::encrypted_read\<close>: plan the read, take the RAF header from the handle's cache or
  fetch it, fetch the covering slots, decrypt through the window.  The result is the errno or the
  bytes with the end-of-file flag, and the handle state with the header cached.
\<close>

definition encrypted_read ::
  "(nat \<Rightarrow> nat \<Rightarrow> int + bytes) \<Rightarrow> (read_io \<Rightarrow> bytes \<Rightarrow> 'e + 'raf) \<Rightarrow>
   ('raf \<Rightarrow> nat \<Rightarrow> nat \<Rightarrow> 'e + bytes) \<Rightarrow> bytes option \<Rightarrow> enc_read_state \<Rightarrow> nat \<Rightarrow> nat \<Rightarrow>
   (int + bytes \<times> bool) \<times> enc_read_state" where
  "encrypted_read fetch raf_open raf_read encryptor st offset sz =
    (case encryptor of None \<Rightarrow> (Inl EIO, st) | Some key \<Rightarrow>
    case plan_read (er_cipher_size st) offset sz of
      None \<Rightarrow> (Inl EIO, st)
    | Some plan \<Rightarrow>
        (case (case er_header st of
                 Some h \<Rightarrow> Inr h
               | None \<Rightarrow> fetch (fst (header_object plan)) (snd (header_object plan))) of
          Inl e \<Rightarrow> (Inl e, st)
        | Inr header \<Rightarrow>
            (let st' = st\<lparr>er_header := Some header\<rparr>
             in case (if fst (slots_object plan) < snd (slots_object plan)
                      then fetch (fst (slots_object plan)) (snd (slots_object plan))
                      else Inr []) of
                  Inl e \<Rightarrow> (Inl e, st')
                | Inr slots \<Rightarrow>
                    (let io = read_io_new (plan_raf_size plan) header (slot_base_raf plan) slots
                     in case decrypt_read raf_open raf_read key io offset sz of
                          Inl e \<Rightarrow> (Inl EIO, st')
                        | Inr out \<Rightarrow> (Inr (out, length out < sz), st')))))"

definition probe_plaintext_size_with ::
  "(nat \<Rightarrow> nat \<Rightarrow> int + bytes) \<Rightarrow> (read_io \<Rightarrow> raf_info option) \<Rightarrow> u8 \<Rightarrow> nat \<Rightarrow> nat option" where
  "probe_plaintext_size_with fetch probe algorithm cipher_size =
    (case fetch 0 CONTAINER_HEADER_LEN of
      Inl _ \<Rightarrow> None
    | Inr header \<Rightarrow>
        if length header < CONTAINER_HEADER_LEN then None
        else (case parse_header (take HFEB_HEADER_LEN header) of
            Inl _ \<Rightarrow> None
          | Inr alg \<Rightarrow>
              if alg \<noteq> algorithm then None
              else (case probe_plaintext_size probe (drop HFEB_HEADER_LEN header) cipher_size of
                  None \<Rightarrow> None
                | Some plaintext \<Rightarrow>
                    if ciphertext_size plaintext = cipher_size then Some plaintext else None)))"

section \<open>Header lemmas\<close>

lemma length_HFEB_MAGIC [simp]: "length HFEB_MAGIC = 4"
  by (simp add: HFEB_MAGIC_def)

lemma list_split6:
  assumes "length buf = 6"
  obtains a b c d e f where "buf = [a, b, c, d, e, f]"
proof -
  from assms have "buf = [buf ! 0, buf ! 1, buf ! 2, buf ! 3, buf ! 4, buf ! 5]"
    by (intro nth_equalityI) (auto simp: less_Suc_eq numeral_eq_Suc)
  then show ?thesis by (rule that)
qed

lemma write_header_eq:
  assumes "length buf = HFEB_HEADER_LEN"
  shows "write_header buf alg = HFEB_MAGIC @ [HFEB_VERSION, alg]"
proof -
  from assms obtain a b c d e f where "buf = [a, b, c, d, e, f]"
    by (auto simp: HFEB_HEADER_LEN_def elim: list_split6)
  then show ?thesis by (simp add: write_header_def HFEB_MAGIC_def)
qed

lemma parse_header_Inr:
  "parse_header bs = Inr a \<longleftrightarrow>
    a = ALG_AEGIS_128X2 \<and> (\<exists>rest. bs = HFEB_MAGIC @ [HFEB_VERSION, ALG_AEGIS_128X2] @ rest)"
proof
  assume l: "parse_header bs = Inr a"
  then have len: "6 \<le> length bs" and mg: "take 4 bs = HFEB_MAGIC" and "bs ! 4 = HFEB_VERSION"
    and "bs ! 5 = ALG_AEGIS_128X2" and "a = ALG_AEGIS_128X2"
    by (auto simp: parse_header_def HFEB_HEADER_LEN_def split: if_splits)
  moreover have "bs = take 4 bs @ [bs ! 4, bs ! 5] @ drop 6 bs"
  proof -
    have "drop 4 bs = bs ! 4 # drop 5 bs" and "drop 5 bs = bs ! 5 # drop 6 bs"
      using len Cons_nth_drop_Suc [of 4 bs] Cons_nth_drop_Suc [of 5 bs] by auto
    then show ?thesis by (metis append_Cons append_Nil append_take_drop_id)
  qed
  ultimately show "a = ALG_AEGIS_128X2 \<and>
    (\<exists>rest. bs = HFEB_MAGIC @ [HFEB_VERSION, ALG_AEGIS_128X2] @ rest)" by metis
next
  assume "a = ALG_AEGIS_128X2 \<and> (\<exists>rest. bs = HFEB_MAGIC @ [HFEB_VERSION, ALG_AEGIS_128X2] @ rest)"
  then show "parse_header bs = Inr a"
    by (auto simp: parse_header_def HFEB_HEADER_LEN_def HFEB_MAGIC_def)
qed

section \<open>Properties of the size map\<close>

lemma ciphertext_size_exact:
  assumes "CONTAINER_HEADER_LEN + div_ceil p RAF_CHUNK_SIZE * RAF_CHUNK_RECORD \<le> u64_max"
  shows "ciphertext_size p = CONTAINER_HEADER_LEN + div_ceil p RAF_CHUNK_SIZE * RAF_CHUNK_RECORD"
  using assms by (simp add: ciphertext_size_def)

lemma container_chunk_count_Some:
  "container_chunk_count c = Some n \<longleftrightarrow> c = CONTAINER_HEADER_LEN + n * RAF_CHUNK_RECORD"
proof -
  have pos: "0 < RAF_CHUNK_RECORD" by (simp add: raf_consts)
  show ?thesis
  proof
    assume "container_chunk_count c = Some n"
    then have "CONTAINER_HEADER_LEN \<le> c"
      and "(c - CONTAINER_HEADER_LEN) mod RAF_CHUNK_RECORD = 0"
      and "n = (c - CONTAINER_HEADER_LEN) div RAF_CHUNK_RECORD"
      by (auto simp: container_chunk_count_def Let_def split: if_splits)
    then show "c = CONTAINER_HEADER_LEN + n * RAF_CHUNK_RECORD"
      by (metis add.commute add_0 div_mult_mod_eq le_add_diff_inverse)
  next
    assume "c = CONTAINER_HEADER_LEN + n * RAF_CHUNK_RECORD"
    then show "container_chunk_count c = Some n"
      using pos by (simp add: container_chunk_count_def)
  qed
qed

section \<open>The plan covers what the RAF reads\<close>

definition object_slice :: "bytes \<Rightarrow> nat \<times> nat \<Rightarrow> bytes" where
  "object_slice obj r = take (snd r - fst r) (drop (fst r) obj)"

definition plan_io :: "bytes \<Rightarrow> read_plan \<Rightarrow> read_io" where
  "plan_io obj plan = read_io_new (plan_raf_size plan) (object_slice obj (header_object plan))
     (slot_base_raf plan) (object_slice obj (slots_object plan))"

lemma plan_read_Some:
  assumes "plan_read object_size off len = Some plan"
  obtains chunks where "object_size = CONTAINER_HEADER_LEN + chunks * RAF_CHUNK_RECORD"
    and "header_object plan = (HFEB_HEADER_LEN, CONTAINER_HEADER_LEN)"
    and "plan_raf_size plan = object_size - HFEB_HEADER_LEN"
    and "len = 0 \<or> off div RAF_CHUNK_SIZE \<ge> chunks \<Longrightarrow> slots_object plan = (0, 0)"
    and "len \<noteq> 0 \<Longrightarrow> off div RAF_CHUNK_SIZE < chunks \<Longrightarrow>
      slots_object plan = (HFEB_HEADER_LEN + slot_base_raf plan,
        HFEB_HEADER_LEN + RAF_HEADER_LEN
          + (min ((sat_add64 off len - 1) div RAF_CHUNK_SIZE) (chunks - 1) + 1) * RAF_CHUNK_RECORD) \<and>
      slot_base_raf plan = RAF_HEADER_LEN + off div RAF_CHUNK_SIZE * RAF_CHUNK_RECORD"
proof -
  from assms obtain chunks where c: "container_chunk_count object_size = Some chunks"
    by (auto simp: plan_read_def split: option.splits)
  show ?thesis
    by (rule that [of chunks])
      (use assms c in \<open>auto simp: plan_read_def container_chunk_count_Some Let_def
        CONTAINER_HEADER_LEN_def split: if_splits\<close>)
qed

lemma plan_slots_bounds:
  assumes "plan_read object_size off len = Some plan" and "object_size \<le> u64_max"
  shows "fst (slots_object plan) \<le> snd (slots_object plan)"
    and "snd (slots_object plan) \<le> object_size" and "CONTAINER_HEADER_LEN \<le> object_size"
proof -
  from assms(1) obtain chunks where
    sz: "object_size = CONTAINER_HEADER_LEN + chunks * RAF_CHUNK_RECORD"
    and e: "len = 0 \<or> off div RAF_CHUNK_SIZE \<ge> chunks \<Longrightarrow> slots_object plan = (0, 0)"
    and s: "len \<noteq> 0 \<Longrightarrow> off div RAF_CHUNK_SIZE < chunks \<Longrightarrow>
      slots_object plan = (HFEB_HEADER_LEN + slot_base_raf plan,
        HFEB_HEADER_LEN + RAF_HEADER_LEN
          + (min ((sat_add64 off len - 1) div RAF_CHUNK_SIZE) (chunks - 1) + 1) * RAF_CHUNK_RECORD) \<and>
      slot_base_raf plan = RAF_HEADER_LEN + off div RAF_CHUNK_SIZE * RAF_CHUNK_RECORD"
    by (rule plan_read_Some) blast
  define last where "last = min ((sat_add64 off len - 1) div RAF_CHUNK_SIZE) (chunks - 1)"
  show "CONTAINER_HEADER_LEN \<le> object_size" by (simp add: sz)
  show "fst (slots_object plan) \<le> snd (slots_object plan)" and "snd (slots_object plan) \<le> object_size"
  proof -
    have "fst (slots_object plan) \<le> snd (slots_object plan) \<and> snd (slots_object plan) \<le> object_size"
    proof (cases "len = 0 \<or> off div RAF_CHUNK_SIZE \<ge> chunks")
      case False
      then have off: "off div RAF_CHUNK_SIZE < chunks" and "0 < len" by auto
      have "(off div RAF_CHUNK_SIZE) * RAF_CHUNK_RECORD \<le> chunks * RAF_CHUNK_RECORD"
        using off by simp
      moreover have "off < (off div RAF_CHUNK_SIZE + 1) * RAF_CHUNK_SIZE"
        by (simp add: RAF_CHUNK_SIZE_def)
      moreover have "(off div RAF_CHUNK_SIZE + 1) * RAF_CHUNK_SIZE \<le> chunks * RAF_CHUNK_RECORD"
        using off by (intro mult_le_mono) (auto simp: raf_consts)
      ultimately have "off < u64_max" using sz assms(2) by linarith
      then have "off \<le> sat_add64 off len - 1" using \<open>0 < len\<close> by (simp add: sat_add64_def)
      then have "off div RAF_CHUNK_SIZE \<le> last"
        using off by (simp add: last_def div_le_mono)
      then have "off div RAF_CHUNK_SIZE * RAF_CHUNK_RECORD \<le> (last + 1) * RAF_CHUNK_RECORD"
        by (intro mult_le_mono) simp_all
      moreover have "(last + 1) * RAF_CHUNK_RECORD \<le> chunks * RAF_CHUNK_RECORD"
        using off by (intro mult_le_mono) (auto simp: last_def)
      ultimately show ?thesis
        using s False sz by (simp add: CONTAINER_HEADER_LEN_def last_def)
    qed (use e in simp)
    then show "fst (slots_object plan) \<le> snd (slots_object plan)" and "snd (slots_object plan) \<le> object_size"
      by auto
  qed
qed

lemma take_drop_slice:
  assumes "off + n \<le> b - a" and "b \<le> length xs" 
  shows "take n (drop off (take (b - a) (drop a xs))) = take n (drop (a + off) xs)"
  using assms by (simp add: drop_take min_absorb1 add.commute)

text \<open>Every successful read through the window returns the bytes of the RAF container.\<close>

lemma plan_io_sound:
  assumes plan: "plan_read (length obj) off len = Some plan" and sz: "length obj \<le> u64_max"
    and rd: "read_io_read_at (plan_io obj plan) n ofs = Inr bs"
  shows "bs = take n (drop ofs (drop HFEB_HEADER_LEN obj))"
proof -
  note b = plan_slots_bounds [OF plan sz]
  have hdr: "header_object plan = (HFEB_HEADER_LEN, CONTAINER_HEADER_LEN)"
    using plan by (rule plan_read_Some)
  show ?thesis
  proof (cases "ofs + n \<le> length (object_slice obj (header_object plan))")
    case True
    then have "ofs + n \<le> CONTAINER_HEADER_LEN - HFEB_HEADER_LEN"
      using b(3) by (simp add: object_slice_def hdr)
    then show ?thesis
      using rd True b(3)
      by (auto simp: read_io_read_at_def plan_io_def read_io_new_def Let_def object_slice_def hdr
          take_drop_slice add.commute split: if_splits)
  next
    case False
    then have lo: "slot_base_raf plan \<le> ofs"
      and hi: "ofs + n \<le> slot_base_raf plan + length (object_slice obj (slots_object plan))"
      and bs: "bs = take n (drop (ofs - slot_base_raf plan) (object_slice obj (slots_object plan)))"
      using rd by (auto simp: read_io_read_at_def plan_io_def read_io_new_def Let_def split: if_splits)
    show ?thesis
    proof (cases "n = 0")
      case n: False
      then have "slots_object plan \<noteq> (0, 0)" using lo hi by (auto simp: object_slice_def)
      then have so: "fst (slots_object plan) = HFEB_HEADER_LEN + slot_base_raf plan"
        using plan by (elim plan_read_Some) (metis fst_conv not_le)
      have "ofs - slot_base_raf plan + n \<le> snd (slots_object plan) - fst (slots_object plan)"
        using lo hi b(1,2) by (simp add: object_slice_def)
      then show ?thesis
        using bs b(2) lo by (simp add: object_slice_def take_drop_slice so add.commute)
    qed (use bs in simp)
  qed
qed

text \<open>Every part of a chunk slot that covers a requested plaintext byte is in the window.\<close>

lemma plan_io_covers:
  assumes plan: "plan_read (length obj) off len = Some plan" and sz: "length obj \<le> u64_max"
    and chunks: "container_chunk_count (length obj) = Some chunks"
    and q: "off \<le> q" "q < off + len" "q div RAF_CHUNK_SIZE < chunks"
    and rng: "RAF_HEADER_LEN + q div RAF_CHUNK_SIZE * RAF_CHUNK_RECORD \<le> ofs"
      "ofs + n \<le> RAF_HEADER_LEN + (q div RAF_CHUNK_SIZE + 1) * RAF_CHUNK_RECORD"
  shows "\<exists>bs. read_io_read_at (plan_io obj plan) n ofs = Inr bs"
proof -
  define c where "c = q div RAF_CHUNK_SIZE"
  note b = plan_slots_bounds [OF plan sz]
  have ch: "length obj = CONTAINER_HEADER_LEN + chunks * RAF_CHUNK_RECORD"
    using chunks by (simp add: container_chunk_count_Some)
  have first: "off div RAF_CHUNK_SIZE \<le> c" using q(1) by (simp add: c_def div_le_mono)
  then have "off div RAF_CHUNK_SIZE < chunks" and "len \<noteq> 0" using q by (auto simp: c_def)
  moreover have "RAF_CHUNK_RECORD \<noteq> 0" by (simp add: raf_consts)
  ultimately have so: "slots_object plan = (HFEB_HEADER_LEN + slot_base_raf plan,
        HFEB_HEADER_LEN + RAF_HEADER_LEN
          + (min ((sat_add64 off len - 1) div RAF_CHUNK_SIZE) (chunks - 1) + 1) * RAF_CHUNK_RECORD)"
    and base: "slot_base_raf plan = RAF_HEADER_LEN + off div RAF_CHUNK_SIZE * RAF_CHUNK_RECORD"
    using plan ch by (elim plan_read_Some; simp)+
  have top: "(c + 1) * RAF_CHUNK_RECORD \<le> chunks * RAF_CHUNK_RECORD"
    using q(3) by (intro mult_le_mono) (auto simp: c_def)
  moreover have "q < (c + 1) * RAF_CHUNK_SIZE" by (simp add: c_def RAF_CHUNK_SIZE_def)
  moreover have "(c + 1) * RAF_CHUNK_SIZE \<le> (c + 1) * RAF_CHUNK_RECORD"
    by (intro mult_le_mono) (auto simp: raf_consts)
  ultimately have "q < u64_max" using sz ch by linarith
  then have "q \<le> sat_add64 off len - 1" using q by (simp add: sat_add64_def)
  then have last: "c \<le> min ((sat_add64 off len - 1) div RAF_CHUNK_SIZE) (chunks - 1)"
    using q(3) by (simp add: c_def div_le_mono)
  have "slot_base_raf plan \<le> RAF_HEADER_LEN + c * RAF_CHUNK_RECORD"
    using first by (simp add: base)
  then have lo: "slot_base_raf plan \<le> ofs" using rng by (simp add: c_def)
  have "ofs + n \<le> RAF_HEADER_LEN + (c + 1) * RAF_CHUNK_RECORD" using rng by (simp add: c_def)
  also have "\<dots> \<le> RAF_HEADER_LEN
      + (min ((sat_add64 off len - 1) div RAF_CHUNK_SIZE) (chunks - 1) + 1) * RAF_CHUNK_RECORD"
    using last by (intro add_mono mult_le_mono) auto
  also have "\<dots> = snd (slots_object plan) - HFEB_HEADER_LEN" by (simp add: so)
  also have "\<dots> = slot_base_raf plan + length (object_slice obj (slots_object plan))"
  proof -
    have "length (object_slice obj (slots_object plan))
        = snd (slots_object plan) - fst (slots_object plan)"
      using b(2) by (simp add: object_slice_def)
    moreover have "fst (slots_object plan) = HFEB_HEADER_LEN + slot_base_raf plan"
      using so by (metis fst_conv)
    ultimately show ?thesis using b(1) by linarith
  qed
  finally have hi: "ofs + n \<le> slot_base_raf plan + length (object_slice obj (slots_object plan))" .
  have "ofs + n \<le> u64_max"
  proof -
    have "ofs + n \<le> RAF_HEADER_LEN + (c + 1) * RAF_CHUNK_RECORD" using rng by (simp add: c_def)
    then show ?thesis using sz ch top unfolding CONTAINER_HEADER_LEN_def by linarith
  qed
  then show ?thesis
    using lo hi by (auto simp: read_io_read_at_def plan_io_def read_io_new_def Let_def)
qed

lemma plan_io_header:
  assumes plan: "plan_read (length obj) off len = Some plan" and sz: "length obj \<le> u64_max"
    and rng: "ofs + n \<le> RAF_HEADER_LEN"
  shows "\<exists>bs. read_io_read_at (plan_io obj plan) n ofs = Inr bs"
proof -
  note b = plan_slots_bounds [OF plan sz]
  have "header_object plan = (HFEB_HEADER_LEN, CONTAINER_HEADER_LEN)"
    using plan by (rule plan_read_Some)
  moreover have "ofs + n \<le> u64_max" using b(3) sz rng by (simp add: CONTAINER_HEADER_LEN_def)
  ultimately show ?thesis
    using b(3) rng
    by (auto simp: read_io_read_at_def plan_io_def read_io_new_def object_slice_def
        CONTAINER_HEADER_LEN_def)
qed

section \<open>Ranged decryption against decryption of the whole object\<close>

text \<open>
  The window of a caller that downloaded the whole object, and the part of a window that the RAF may
  look at to decrypt \<open>len\<close> bytes at \<open>off\<close>: the size, the RAF header and the slots of the
  covering chunks.  \<open>raf_local\<close> says that the RAF looks at nothing else, which is the contract
  \<open>decrypt_read\<close> documents.
\<close>

definition whole_io :: "bytes \<Rightarrow> read_io" where
  "whole_io obj =
    read_io_new (length obj - HFEB_HEADER_LEN) (drop HFEB_HEADER_LEN obj) RAF_HEADER_LEN []"

definition raf_touches :: "nat \<Rightarrow> nat \<Rightarrow> nat \<Rightarrow> nat \<Rightarrow> nat \<Rightarrow> bool" where
  "raf_touches raf_size off len n ofs \<longleftrightarrow>
    ofs + n \<le> RAF_HEADER_LEN \<or>
    (\<exists>q. off \<le> q \<and> q < off + len \<and>
      RAF_HEADER_LEN + (q div RAF_CHUNK_SIZE + 1) * RAF_CHUNK_RECORD \<le> raf_size \<and>
      RAF_HEADER_LEN + q div RAF_CHUNK_SIZE * RAF_CHUNK_RECORD \<le> ofs \<and>
      ofs + n \<le> RAF_HEADER_LEN + (q div RAF_CHUNK_SIZE + 1) * RAF_CHUNK_RECORD)"

definition same_view :: "read_io \<Rightarrow> read_io \<Rightarrow> nat \<Rightarrow> nat \<Rightarrow> bool" where
  "same_view io1 io2 off len \<longleftrightarrow>
    read_io_get_size io1 = read_io_get_size io2 \<and>
    (\<forall>n ofs. raf_touches (read_io_get_size io1) off len n ofs \<longrightarrow>
      read_io_read_at io1 n ofs = read_io_read_at io2 n ofs)"

definition raf_local ::
  "(read_io \<Rightarrow> bytes \<Rightarrow> ('e + 'raf)) \<Rightarrow> ('raf \<Rightarrow> nat \<Rightarrow> nat \<Rightarrow> 'e + bytes) \<Rightarrow> bool" where
  "raf_local raf_open raf_read \<longleftrightarrow>
    (\<forall>io1 io2 key off len. same_view io1 io2 off len \<longrightarrow>
      decrypt_read raf_open raf_read key io1 off len = decrypt_read raf_open raf_read key io2 off len)"

lemma whole_io_read:
  assumes "ofs + n \<le> length obj - HFEB_HEADER_LEN" and "length obj \<le> u64_max"
  shows "read_io_read_at (whole_io obj) n ofs = Inr (take n (drop ofs (drop HFEB_HEADER_LEN obj)))"
  using assms by (simp add: read_io_read_at_def whole_io_def read_io_new_def)

lemma plan_same_view:
  assumes plan: "plan_read (length obj) off len = Some plan" and sz: "length obj \<le> u64_max"
  shows "same_view (plan_io obj plan) (whole_io obj) off len"
proof -
  from plan obtain chunks where ch: "container_chunk_count (length obj) = Some chunks"
    by (auto simp: plan_read_def split: option.splits)
  then have lenq: "length obj = CONTAINER_HEADER_LEN + chunks * RAF_CHUNK_RECORD"
    by (simp add: container_chunk_count_Some)
  have rs: "plan_raf_size plan = length obj - HFEB_HEADER_LEN" using plan by (rule plan_read_Some)
  then have size_eq: "read_io_get_size (plan_io obj plan) = length obj - HFEB_HEADER_LEN"
    by (simp add: read_io_get_size_def plan_io_def read_io_new_def)
  have "read_io_read_at (plan_io obj plan) n ofs = read_io_read_at (whole_io obj) n ofs"
    if t: "raf_touches (length obj - HFEB_HEADER_LEN) off len n ofs" for n ofs
  proof -
    have "\<exists>bs. read_io_read_at (plan_io obj plan) n ofs = Inr bs"
      and bound: "ofs + n \<le> length obj - HFEB_HEADER_LEN"
    proof -
      have pos: "0 < RAF_CHUNK_RECORD" by (simp add: raf_consts)
      consider "ofs + n \<le> RAF_HEADER_LEN" | q where "off \<le> q" "q < off + len"
        "RAF_HEADER_LEN + (q div RAF_CHUNK_SIZE + 1) * RAF_CHUNK_RECORD \<le> length obj - HFEB_HEADER_LEN"
        "RAF_HEADER_LEN + q div RAF_CHUNK_SIZE * RAF_CHUNK_RECORD \<le> ofs"
        "ofs + n \<le> RAF_HEADER_LEN + (q div RAF_CHUNK_SIZE + 1) * RAF_CHUNK_RECORD"
        using t by (auto simp: raf_touches_def)
      then have "(\<exists>bs. read_io_read_at (plan_io obj plan) n ofs = Inr bs) \<and>
          ofs + n \<le> length obj - HFEB_HEADER_LEN"
      proof cases
        case 1
        then show ?thesis
          using plan_io_header [OF plan sz] lenq by (simp add: CONTAINER_HEADER_LEN_def)
      next
        case (2 q)
        from 2(3) have "(q div RAF_CHUNK_SIZE + 1) * RAF_CHUNK_RECORD \<le> chunks * RAF_CHUNK_RECORD"
          using lenq unfolding CONTAINER_HEADER_LEN_def by linarith
        then have "q div RAF_CHUNK_SIZE < chunks"
          using pos by (metis Suc_eq_plus1 Suc_le_eq mult_le_cancel2)
        then show ?thesis
          using plan_io_covers [OF plan sz ch 2(1,2) _ 2(4,5)] 2(3,5) by (meson order_trans)
      qed
      then show "\<exists>bs. read_io_read_at (plan_io obj plan) n ofs = Inr bs"
        and "ofs + n \<le> length obj - HFEB_HEADER_LEN" by auto
    qed
    then show ?thesis using plan_io_sound [OF plan sz] whole_io_read [OF bound sz] by auto
  qed
  then show ?thesis
    by (simp add: same_view_def size_eq) (simp add: read_io_get_size_def whole_io_def read_io_new_def)
qed

section \<open>The staging window is the file past its prefix\<close>

lemma file_write_all_at_prefix:
  "length h = k \<Longrightarrow> file_write_all_at (h @ b) buf (off + k) = h @ file_write_all_at b buf off"
  by (auto simp: file_write_all_at_def)

lemma file_set_len_prefix:
  "length h = k \<Longrightarrow> file_set_len (h @ b) (n + k) = h @ file_set_len b n"
  by (auto simp: file_set_len_def)

lemma hfeb_prefix_cases:
  assumes "HFEB_HEADER_LEN \<le> length f"
  obtains h b where "f = h @ b" and "length h = HFEB_HEADER_LEN"
  using assms append_take_drop_id [of HFEB_HEADER_LEN f]
  by (metis length_take min.absorb2)

lemma staging_write_window:
  assumes "HFEB_HEADER_LEN \<le> length f"
  shows "take HFEB_HEADER_LEN (staging_write_at f buf offset) = take HFEB_HEADER_LEN f"
    and "drop HFEB_HEADER_LEN (staging_write_at f buf offset)
      = file_write_all_at (drop HFEB_HEADER_LEN f) buf offset"
    and "HFEB_HEADER_LEN \<le> length (staging_write_at f buf offset)"
  using assms
  by (auto elim!: hfeb_prefix_cases
      simp: staging_write_at_def file_write_all_at_prefix)

lemma staging_set_size_window:
  assumes "HFEB_HEADER_LEN \<le> length f"
  shows "take HFEB_HEADER_LEN (staging_set_size f n) = take HFEB_HEADER_LEN f"
    and "drop HFEB_HEADER_LEN (staging_set_size f n) = file_set_len (drop HFEB_HEADER_LEN f) n"
    and "HFEB_HEADER_LEN \<le> length (staging_set_size f n)"
  using assms
  by (auto elim!: hfeb_prefix_cases simp: staging_set_size_def file_set_len_prefix)

datatype raf_op = Raf_write bytes nat | Raf_set_size nat

fun staging_apply :: "raf_op \<Rightarrow> bytes \<Rightarrow> bytes" where
  "staging_apply (Raf_write buf off) f = staging_write_at f buf off"
| "staging_apply (Raf_set_size n) f = staging_set_size f n"

fun body_apply :: "raf_op \<Rightarrow> bytes \<Rightarrow> bytes" where
  "body_apply (Raf_write buf off) b = file_write_all_at b buf off"
| "body_apply (Raf_set_size n) b = file_set_len b n"

lemma staging_apply_window:
  assumes "HFEB_HEADER_LEN \<le> length f"
  shows "take HFEB_HEADER_LEN (staging_apply op f) = take HFEB_HEADER_LEN f"
    and "drop HFEB_HEADER_LEN (staging_apply op f) = body_apply op (drop HFEB_HEADER_LEN f)"
    and "HFEB_HEADER_LEN \<le> length (staging_apply op f)"
  by (cases op; simp add: assms staging_write_window staging_set_size_window)+

lemma staging_fold_window:
  assumes "HFEB_HEADER_LEN \<le> length f"
  shows "take HFEB_HEADER_LEN (fold staging_apply ops f) = take HFEB_HEADER_LEN f \<and>
    drop HFEB_HEADER_LEN (fold staging_apply ops f) = fold body_apply ops (drop HFEB_HEADER_LEN f) \<and>
    HFEB_HEADER_LEN \<le> length (fold staging_apply ops f)"
  using assms by (induction ops arbitrary: f) (auto simp: staging_apply_window)

lemma staging_header_valid:
  assumes "take HFEB_HEADER_LEN f = write_header (replicate HFEB_HEADER_LEN 0) ALG_AEGIS_128X2"
    and "HFEB_HEADER_LEN \<le> length f"
  shows "open_staging_raf raf_open f key = raf_open f key"
proof -
  have "parse_header (take HFEB_HEADER_LEN f) = Inr ALG_AEGIS_128X2"
    unfolding assms(1) by (simp add: write_header_eq parse_header_Inr)
  then show ?thesis using assms(2) by (simp add: open_staging_raf_def file_read_exact_at_def)
qed

lemma drain_stream_Some:
  "drain_stream evs buf = Some out \<longleftrightarrow>
    (\<exists>cs rest. evs = map Chunk cs @ End # rest \<and> out = buf @ concat cs)"
proof (induction evs buf rule: drain_stream.induct)
  case (2 c evs buf)
  show ?case (is "?l \<longleftrightarrow> ?r")
  proof
    assume ?l
    then obtain cs rest where "evs = map Chunk cs @ End # rest" "out = (buf @ c) @ concat cs"
      using 2 by auto
    then show ?r by (intro exI [of _ "c # cs"]) auto
  next
    assume ?r
    then obtain cs rest where e: "Chunk c # evs = map Chunk cs @ End # rest" "out = buf @ concat cs"
      by blast
    then show ?l using 2 by (cases cs) auto
  qed
qed (auto simp: Cons_eq_append_conv)

section \<open>Properties\<close>

lemma hfeb_header_roundtrip_parts:
  assumes "length buf = HFEB_HEADER_LEN"
  shows "parse_header (write_header buf alg @ body) =
      (if alg = ALG_AEGIS_128X2 then Inr alg else Inl (UnknownAlgorithm alg))"
    and "parse_header bs = Inr a \<longleftrightarrow>
      a = ALG_AEGIS_128X2 \<and> (\<exists>rest. bs = write_header buf ALG_AEGIS_128X2 @ rest)"
proof -
  show "parse_header (write_header buf alg @ body) =
      (if alg = ALG_AEGIS_128X2 then Inr alg else Inl (UnknownAlgorithm alg))"
    by (simp add: write_header_eq [OF assms] parse_header_def HFEB_HEADER_LEN_def HFEB_MAGIC_def)
  show "parse_header bs = Inr a \<longleftrightarrow>
      a = ALG_AEGIS_128X2 \<and> (\<exists>rest. bs = write_header buf ALG_AEGIS_128X2 @ rest)"
    unfolding write_header_eq [OF assms] by (simp add: parse_header_Inr)
qed

text \<open>
  The six-byte header round-trips: parsing what \<open>write_header\<close> wrote, with any bytes after
  it, gives back the algorithm byte when it is the known one and the error naming it otherwise; and a
  byte string parses exactly when it starts with that header.
\<close>

theorem hfeb_header_roundtrip:
  assumes "length buf = HFEB_HEADER_LEN"
  shows "(parse_header (write_header buf alg @ body) =
      (if alg = ALG_AEGIS_128X2 then Inr alg else Inl (UnknownAlgorithm alg))) \<and>
    (parse_header bs = Inr a \<longleftrightarrow>
      a = ALG_AEGIS_128X2 \<and> (\<exists>rest. bs = write_header buf ALG_AEGIS_128X2 @ rest))"
  using hfeb_header_roundtrip_parts [OF assms] by blast

theorem hfeb_header_roundtrip_witness:
  "parse_header (write_header [0, 0, 0, 0, 0, 0] 2 @ [9]) = Inr 2"
  using hfeb_header_roundtrip [of "[0, 0, 0, 0, 0, 0]" 2 "[9]"]
  by (simp add: HFEB_HEADER_LEN_def ALG_AEGIS_128X2_def)

lemma size_map_chunks_parts:
  assumes "CONTAINER_HEADER_LEN + div_ceil p RAF_CHUNK_SIZE * RAF_CHUNK_RECORD \<le> u64_max"
    and "CONTAINER_HEADER_LEN + div_ceil q RAF_CHUNK_SIZE * RAF_CHUNK_RECORD \<le> u64_max"
  shows "\<exists>n. container_chunk_count (ciphertext_size p) = Some n \<and> p \<le> n * RAF_CHUNK_SIZE \<and>
      (0 < p \<longrightarrow> (n - 1) * RAF_CHUNK_SIZE < p) \<and> (p = 0 \<longrightarrow> n = 0)"
    and "ciphertext_size p = ciphertext_size q \<longleftrightarrow>
      div_ceil p RAF_CHUNK_SIZE = div_ceil q RAF_CHUNK_SIZE"
proof -
  have pos: "0 < RAF_CHUNK_SIZE" "0 < RAF_CHUNK_RECORD" by (simp_all add: raf_consts)
  have "container_chunk_count (ciphertext_size p) = Some (div_ceil p RAF_CHUNK_SIZE)"
    by (simp add: container_chunk_count_Some ciphertext_size_exact [OF assms(1)])
  then show "\<exists>n. container_chunk_count (ciphertext_size p) = Some n \<and> p \<le> n * RAF_CHUNK_SIZE \<and>
      (0 < p \<longrightarrow> (n - 1) * RAF_CHUNK_SIZE < p) \<and> (p = 0 \<longrightarrow> n = 0)"
    using div_ceil_upper [OF pos(1), of p] div_ceil_lower [of p RAF_CHUNK_SIZE]
    by (intro exI [of _ "div_ceil p RAF_CHUNK_SIZE"]) (auto simp: div_ceil_def)
  show "ciphertext_size p = ciphertext_size q \<longleftrightarrow>
      div_ceil p RAF_CHUNK_SIZE = div_ceil q RAF_CHUNK_SIZE"
    using pos by (simp add: ciphertext_size_exact [OF assms(1)] ciphertext_size_exact [OF assms(2)])
qed

text \<open>
  The size map.  While the container size fits in 64 bits it is a valid container size whose
  chunk count \<open>n\<close> bounds the plaintext to \<open>((n - 1) * CHUNK, n * CHUNK]\<close>, and two plaintexts
  have containers of one size exactly when they take the same number of chunks.
\<close>

theorem size_map_chunks:
  assumes "CONTAINER_HEADER_LEN + div_ceil p RAF_CHUNK_SIZE * RAF_CHUNK_RECORD \<le> u64_max"
    and "CONTAINER_HEADER_LEN + div_ceil q RAF_CHUNK_SIZE * RAF_CHUNK_RECORD \<le> u64_max"
  shows "(\<exists>n. container_chunk_count (ciphertext_size p) = Some n \<and> p \<le> n * RAF_CHUNK_SIZE \<and>
      (0 < p \<longrightarrow> (n - 1) * RAF_CHUNK_SIZE < p) \<and> (p = 0 \<longrightarrow> n = 0)) \<and>
    (ciphertext_size p = ciphertext_size q \<longleftrightarrow>
      div_ceil p RAF_CHUNK_SIZE = div_ceil q RAF_CHUNK_SIZE)"
  using size_map_chunks_parts [OF assms] by blast

theorem size_map_chunks_witness:
  "\<exists>n. container_chunk_count (ciphertext_size 65537) = Some n \<and> 65537 \<le> n * RAF_CHUNK_SIZE \<and>
      (n - 1) * RAF_CHUNK_SIZE < 65537"
  using size_map_chunks [of 65537 0]
  by (auto simp: raf_consts div_ceil_def u64_max_def)

text \<open>
  A ranged read sees the container.  For a valid container within 64 bits, \<open>plan_read\<close>
  succeeds, the ranges it fetches lie inside the object, and the window built from the fetched ranges
  gives the RAF, on the header and on every chunk slot covering a requested byte, exactly what a
  window over the whole downloaded object would give.
\<close>

theorem plan_read_window:
  assumes "container_chunk_count (length obj) = Some chunks" and "length obj \<le> u64_max"
  shows "\<exists>plan. plan_read (length obj) off len = Some plan \<and>
    snd (header_object plan) \<le> length obj \<and>
    fst (slots_object plan) \<le> snd (slots_object plan) \<and> snd (slots_object plan) \<le> length obj \<and>
    same_view (plan_io obj plan) (whole_io obj) off len"
proof -
  obtain plan where plan: "plan_read (length obj) off len = Some plan"
    using assms(1) by (cases "plan_read (length obj) off len") (auto simp: plan_read_def Let_def split: if_splits)
  have "header_object plan = (HFEB_HEADER_LEN, CONTAINER_HEADER_LEN)"
    using plan by (rule plan_read_Some)
  then show ?thesis
    using plan plan_slots_bounds [OF plan assms(2)] plan_same_view [OF plan assms(2)] by auto
qed

theorem plan_read_window_witness:
  "\<exists>plan. plan_read (length (replicate 131206 (7 :: u8))) 65530 100 = Some plan \<and>
    same_view (plan_io (replicate 131206 7) plan) (whole_io (replicate 131206 7)) 65530 100"
proof -
  have "container_chunk_count (length (replicate 131206 (7 :: u8))) = Some 2"
    by (simp add: container_chunk_count_def raf_consts)
  then show ?thesis
    using plan_read_window [of "replicate 131206 7" 2 65530 100] by (auto simp: u64_max_def)
qed

text \<open>
  C3: Decrypting a ranged read is decrypting the downloaded object.  With a RAF that looks only at
  what \<open>decrypt_read\<close> documents, a fetch that returns object bytes, and a handle whose cached
  header (if any) is the object's, \<open>encrypted_read\<close> returns the bytes the RAF decrypts from the
  whole object (with the end-of-file flag set exactly on a short read), or \<open>EIO\<close> exactly when
  that decryption fails, and leaves the header cached.
\<close>

theorem encrypted_read_refines_whole_decrypt:
  assumes chunks: "container_chunk_count (length obj) = Some chunks" and sz: "length obj \<le> u64_max"
    and fetch: "\<And>a b. a \<le> b \<Longrightarrow> b \<le> length obj \<Longrightarrow> fetch a b = Inr (object_slice obj (a, b))"
    and raf: "raf_local raf_open raf_read"
    and cached: "er_cipher_size st = length obj"
      "er_header st = None \<or> er_header st = Some (take RAF_HEADER_LEN (drop HFEB_HEADER_LEN obj))"
  shows "encrypted_read fetch raf_open raf_read (Some key) st off len =
    (case decrypt_read raf_open raf_read key (whole_io obj) off len of
       Inl e \<Rightarrow> Inl EIO | Inr out \<Rightarrow> Inr (out, length out < len),
     st\<lparr>er_header := Some (take RAF_HEADER_LEN (drop HFEB_HEADER_LEN obj))\<rparr>)"
proof -
  let ?h = "take RAF_HEADER_LEN (drop HFEB_HEADER_LEN obj)"
  obtain plan where plan: "plan_read (length obj) off len = Some plan"
    using chunks by (cases "plan_read (length obj) off len") (auto simp: plan_read_def Let_def split: if_splits)
  note b = plan_slots_bounds [OF plan sz]
  have hdr: "header_object plan = (HFEB_HEADER_LEN, CONTAINER_HEADER_LEN)"
    using plan by (rule plan_read_Some)
  have h: "object_slice obj (header_object plan) = ?h"
    by (simp add: object_slice_def hdr CONTAINER_HEADER_LEN_def)
  have "fetch HFEB_HEADER_LEN CONTAINER_HEADER_LEN = Inr ?h"
    using fetch [of HFEB_HEADER_LEN CONTAINER_HEADER_LEN] b(3) h by (simp add: hdr CONTAINER_HEADER_LEN_def)
  then have f1: "(case er_header st of Some h \<Rightarrow> Inr h
       | None \<Rightarrow> fetch (fst (header_object plan)) (snd (header_object plan))) = Inr ?h"
    using cached(2) by (auto simp: hdr)
  have f2: "(if fst (slots_object plan) < snd (slots_object plan)
       then fetch (fst (slots_object plan)) (snd (slots_object plan)) else Inr [])
     = Inr (object_slice obj (slots_object plan))"
    using fetch [OF b(1,2)] b(1) by (simp add: object_slice_def)
  have "decrypt_read raf_open raf_read key (plan_io obj plan) off len
      = decrypt_read raf_open raf_read key (whole_io obj) off len"
    using raf plan_same_view [OF plan sz] by (simp add: raf_local_def)
  then have d: "decrypt_read raf_open raf_read key (read_io_new (plan_raf_size plan) ?h
      (slot_base_raf plan) (object_slice obj (slots_object plan))) off len
      = decrypt_read raf_open raf_read key (whole_io obj) off len"
    by (simp add: plan_io_def h)
  show ?thesis
    by (simp add: encrypted_read_def cached(1) plan f1 f2 d Let_def split: sum.split)
qed

text \<open>A RAF that reads one slot: it shows that the hypotheses can hold.\<close>

definition toy_raf_read :: "read_io \<Rightarrow> nat \<Rightarrow> nat \<Rightarrow> unit + bytes" where
  "toy_raf_read io len off =
    (if len = 0 \<or> RAF_HEADER_LEN + (off div RAF_CHUNK_SIZE + 1) * RAF_CHUNK_RECORD > read_io_get_size io
     then Inr []
     else case read_io_read_at io RAF_CHUNK_RECORD
            (RAF_HEADER_LEN + off div RAF_CHUNK_SIZE * RAF_CHUNK_RECORD) of
         Inl _ \<Rightarrow> Inl ()
       | Inr slot \<Rightarrow> Inr (take len (drop (off mod RAF_CHUNK_SIZE) (take RAF_CHUNK_SIZE slot))))"

lemma toy_raf_local: "raf_local (\<lambda>io key. Inr io) toy_raf_read"
proof -
  have "toy_raf_read io1 len off = toy_raf_read io2 len off" if v: "same_view io1 io2 off len"
    for io1 io2 off len
  proof (cases "len = 0 \<or>
      RAF_HEADER_LEN + (off div RAF_CHUNK_SIZE + 1) * RAF_CHUNK_RECORD > read_io_get_size io1")
    case False
    then have "raf_touches (read_io_get_size io1) off len RAF_CHUNK_RECORD
        (RAF_HEADER_LEN + off div RAF_CHUNK_SIZE * RAF_CHUNK_RECORD)"
      unfolding raf_touches_def by (intro disjI2 exI [of _ off]) auto
    then show ?thesis using v by (simp add: toy_raf_read_def same_view_def)
  qed (use v in \<open>auto simp: toy_raf_read_def same_view_def\<close>)
  then show ?thesis by (simp add: raf_local_def decrypt_read_def)
qed

theorem encrypted_read_refines_whole_decrypt_witness:
  "fst (encrypted_read (\<lambda>a b. Inr (object_slice (replicate 65638 7) (a, b))) (\<lambda>io key. Inr io)
     toy_raf_read (Some []) \<lparr>er_cipher_size = 65638, er_header = None\<rparr> 65530 100)
   = Inr ([7, 7, 7, 7, 7, 7], True)"
proof -
  have ch: "container_chunk_count (length (replicate 65638 (7 :: u8))) = Some 1"
    by (simp add: container_chunk_count_def raf_consts)
  have six: "replicate 6 (7 :: u8) = [7, 7, 7, 7, 7, 7]" by (simp add: numeral_eq_Suc)
  have r: "read_io_read_at (whole_io (replicate 65638 7)) 65568 64 = Inr (replicate 65568 7)"
    by (subst whole_io_read) (simp_all add: raf_consts u64_max_def)
  have "toy_raf_read (whole_io (replicate 65638 7)) 100 65530 = Inr (replicate 6 7)"
    using r by (simp add: toy_raf_read_def raf_consts)
      (simp add: read_io_get_size_def whole_io_def read_io_new_def raf_consts)
  then show ?thesis
    using encrypted_read_refines_whole_decrypt [OF ch, of "\<lambda>a b. Inr (object_slice (replicate 65638 7) (a, b))"
        "\<lambda>io key. Inr io" toy_raf_read "\<lparr>er_cipher_size = 65638, er_header = None\<rparr>" "[]" 65530 100]
    by (simp add: toy_raf_local decrypt_read_def u64_max_def six)
qed

lemma staging_window_refinement_parts:
  fixes ops :: "raf_op list"
  defines "f \<equiv> fold staging_apply ops (write_header (replicate HFEB_HEADER_LEN 0) ALG_AEGIS_128X2)"
  shows "open_staging_raf raf_open f key = raf_open f key"
    and "drop HFEB_HEADER_LEN f = fold body_apply ops []"
    and "staging_get_size f = length (fold body_apply ops [])"
    and "staging_read_at f n off = file_read_exact_at (fold body_apply ops []) n off"
proof -
  let ?h = "write_header (replicate HFEB_HEADER_LEN 0) ALG_AEGIS_128X2"
  have len: "length ?h = HFEB_HEADER_LEN"
    by (subst write_header_eq) (simp_all add: HFEB_HEADER_LEN_def)
  then have "take HFEB_HEADER_LEN f = ?h \<and> drop HFEB_HEADER_LEN f = fold body_apply ops [] \<and>
      HFEB_HEADER_LEN \<le> length f"
    unfolding f_def using staging_fold_window [of ?h ops] by simp
  then have t: "take HFEB_HEADER_LEN f = ?h" and d: "drop HFEB_HEADER_LEN f = fold body_apply ops []"
    and l: "HFEB_HEADER_LEN \<le> length f" by auto
  show "open_staging_raf raf_open f key = raf_open f key" using t l by (rule staging_header_valid)
  show "drop HFEB_HEADER_LEN f = fold body_apply ops []" by (rule d)
  show "staging_get_size f = length (fold body_apply ops [])"
    unfolding d [symmetric] by (simp add: staging_get_size_def)
  show "staging_read_at f n off = file_read_exact_at (fold body_apply ops []) n off"
    unfolding d [symmetric] using l
    by (auto simp: staging_read_at_def file_read_exact_at_def add.commute)
qed

text \<open>
  C30: No sequence of RAF writes and truncations damages the staging container's prefix: the file that
  \<open>create_staging_container\<close> starts from keeps its header, so \<open>open_staging_raf\<close> accepts it
  afterwards, and its body past the prefix is what the same operations give on a plain file.
\<close>

theorem staging_window_refinement:
  fixes ops :: "raf_op list"
  defines "f \<equiv> fold staging_apply ops (write_header (replicate HFEB_HEADER_LEN 0) ALG_AEGIS_128X2)"
  shows "(open_staging_raf raf_open f key = raf_open f key) \<and>
    (drop HFEB_HEADER_LEN f = fold body_apply ops []) \<and>
    (staging_get_size f = length (fold body_apply ops [])) \<and>
    (staging_read_at f n off = file_read_exact_at (fold body_apply ops []) n off)"
  unfolding f_def using staging_window_refinement_parts by blast

lemma probe_size_consistent_parts:
  assumes "probe_plaintext_size_with fetch probe algorithm cipher_size = Some p"
  shows "ciphertext_size p = cipher_size"
    and "\<exists>rest. fetch 0 CONTAINER_HEADER_LEN = Inr (write_header (replicate HFEB_HEADER_LEN 0) algorithm @ rest)"
    and "algorithm = ALG_AEGIS_128X2"
proof -
  obtain header where f: "fetch 0 CONTAINER_HEADER_LEN = Inr header"
    and len: "CONTAINER_HEADER_LEN \<le> length header"
    and alg: "parse_header (take HFEB_HEADER_LEN header) = Inr algorithm"
    and p: "probe_plaintext_size probe (drop HFEB_HEADER_LEN header) cipher_size = Some p"
    and c: "ciphertext_size p = cipher_size"
    using assms
    by (auto simp: probe_plaintext_size_with_def split: sum.splits option.splits if_splits)
  show "ciphertext_size p = cipher_size" by (rule c)
  show a: "algorithm = ALG_AEGIS_128X2" using alg by (simp add: parse_header_Inr)
  from alg obtain rest where r: "take HFEB_HEADER_LEN header = HFEB_MAGIC @ [HFEB_VERSION, algorithm] @ rest"
    by (auto simp: parse_header_Inr)
  have "header = (HFEB_MAGIC @ [HFEB_VERSION, algorithm]) @ (rest @ drop HFEB_HEADER_LEN header)"
    using r append_take_drop_id [of HFEB_HEADER_LEN header] by (metis append.assoc)
  then show "\<exists>rest. fetch 0 CONTAINER_HEADER_LEN =
      Inr (write_header (replicate HFEB_HEADER_LEN 0) algorithm @ rest)"
    using f by (subst write_header_eq) (auto simp: a)
qed

text \<open>
  A size probe that succeeds is consistent: the object starts with a valid header of the mount's
  algorithm and the plaintext size it reports is one whose container has exactly the object's size.
\<close>

theorem probe_size_consistent:
  assumes "probe_plaintext_size_with fetch probe algorithm cipher_size = Some p"
  shows "(ciphertext_size p = cipher_size) \<and>
    (\<exists>rest. fetch 0 CONTAINER_HEADER_LEN = Inr (write_header (replicate HFEB_HEADER_LEN 0) algorithm @ rest)) \<and>
    (algorithm = ALG_AEGIS_128X2)"
  using probe_size_consistent_parts [OF assms] by blast

theorem probe_size_consistent_witness:
  "ciphertext_size 100 = 65638"
  using probe_size_consistent [of "\<lambda>a b. Inr (HFEB_MAGIC @ [1, 2] @ replicate 64 0)"
      "\<lambda>io. Some \<lparr>ri_algorithm = 2, ri_chunk_size = 65536, ri_file_size = 100\<rparr>" 2 65638 100]
  by (simp add: probe_plaintext_size_with_def probe_plaintext_size_def parse_header_def raf_consts
      HFEB_MAGIC_def HFEB_VERSION_def ALG_AEGIS_128X2_def ciphertext_size_def div_ceil_def wrap64_def)

lemma fetch_returns_first_complete_parts:
  shows "fetch_object_range_with attempt = Inr buf \<longleftrightarrow>
    (\<exists>k < MAX_ATTEMPTS. (\<exists>cs rest. attempt k = Inr (map Chunk cs @ End # rest) \<and> buf = concat cs) \<and>
      (\<forall>j < k. \<forall>cs rest. attempt j \<noteq> Inr (map Chunk cs @ End # rest)))"
    (is "_ \<longleftrightarrow> ?R")
    and "fetch_object_range_with attempt = Inl e \<Longrightarrow> e = EIO"
proof -
  define ok where "ok k = (case attempt k of Inl e \<Rightarrow> None | Inr evs \<Rightarrow> drain_stream evs [])" for k
  have ok_Some: "ok k = Some b \<longleftrightarrow> (\<exists>cs rest. attempt k = Inr (map Chunk cs @ End # rest) \<and> b = concat cs)"
    for k b by (auto simp: ok_def drain_stream_Some split: sum.splits)
  then have ok_None: "ok k = None \<longleftrightarrow> (\<forall>cs rest. attempt k \<noteq> Inr (map Chunk cs @ End # rest))" for k
    by (metis not_None_eq)
  have step: "fetch_attempts attempt (k # ks) =
      (case ok k of Some b \<Rightarrow> Inr b | None \<Rightarrow> fetch_attempts attempt ks)" for k ks
    by (simp add: ok_def split: sum.splits)
  have "[0..<MAX_ATTEMPTS] = [0, 1, 2]" by (simp add: MAX_ATTEMPTS_def upt_rec)
  then have r: "fetch_object_range_with attempt =
    (case ok 0 of Some b \<Rightarrow> Inr b | None \<Rightarrow> (case ok 1 of Some b \<Rightarrow> Inr b | None \<Rightarrow>
      (case ok 2 of Some b \<Rightarrow> Inr b | None \<Rightarrow> Inl EIO)))"
    by (simp only: fetch_object_range_with_def step fetch_attempts.simps(1))
  then have "fetch_object_range_with attempt = Inr buf \<longleftrightarrow>
      (\<exists>k < MAX_ATTEMPTS. ok k = Some buf \<and> (\<forall>j < k. ok j = None))"
    by (auto simp: MAX_ATTEMPTS_def less_Suc_eq numeral_eq_Suc split: option.splits)
  then show "fetch_object_range_with attempt = Inr buf \<longleftrightarrow> ?R" by (simp add: ok_Some ok_None)
  show "fetch_object_range_with attempt = Inl e \<Longrightarrow> e = EIO"
    using r by (auto split: option.splits)
qed

text \<open>
  The fetch retries: the bytes returned are the whole stream of the first of the three attempts
  that reached its end, and the result is \<open>EIO\<close> exactly when none did; a truncated stream is
  never returned.
\<close>

theorem fetch_returns_first_complete:
  shows "(fetch_object_range_with attempt = Inr buf \<longleftrightarrow>
    (\<exists>k < MAX_ATTEMPTS. (\<exists>cs rest. attempt k = Inr (map Chunk cs @ End # rest) \<and> buf = concat cs) \<and>
      (\<forall>j < k. \<forall>cs rest. attempt j \<noteq> Inr (map Chunk cs @ End # rest)))) \<and>
    (fetch_object_range_with attempt = Inl e \<longrightarrow> e = EIO)"
  using fetch_returns_first_complete_parts by blast

theorem fetch_returns_first_complete_witness:
  "fetch_object_range_with (\<lambda>k. if k = 0 then Inl () else Inr [Chunk [1], Chunk [2], End]) = Inr [1, 2]"
  using fetch_returns_first_complete [of "\<lambda>k. if k = 0 then Inl () else Inr [Chunk [1], Chunk [2], End]" "[1, 2]"]
  by (simp add: fetch_object_range_with_def MAX_ATTEMPTS_def upt_rec)

end
