(* ===== verification/Inode.thy ===== *)
theory Inode
  imports Prelude "HOL-Library.Product_Lexorder"
begin

text \<open>
  \<open>src/src/virtual_fs/inode.rs\<close>: the inode table, the in-memory tree behind every file-system
  operation.  This theory holds the data and one definition per operation; \<open>Inode_Inv\<close> states
  the tree invariant and \<open>Inode_Props\<close> the correctness of the walks and of eviction.

  Atomics are plain fields (every caller holds the table's lock or tolerates any interleaving);
  counters that the code changes with wrapping atomic instructions or with \<open>+= 1\<close> wrap
  explicitly.  Times are natural numbers and a call to \<open>now()\<close> is an argument.  A \<open>HashMap\<close> is a
  HOL map; where the code iterates over one, the order is an argument that enumerates its keys.
  Loops that follow the tree with a stack are partial functions into \<open>option\<close>: \<open>None\<close> is a walk
  that does not end, and \<open>Inode_Props\<close> shows that on a well-formed table none of them does.
\<close>

section \<open>Data\<close>

definition ROOT_INODE :: nat where "ROOT_INODE = 1"

definition child_path :: "string \<Rightarrow> string \<Rightarrow> string" where
  "child_path parent_path name =
    (if parent_path = [] then name else parent_path @ ''/'' @ name)"

datatype inode_kind = File | Directory | Symlink

record dir_child =
  c_ino :: nat
  c_name :: string

record eviction_state =
  ev_nlookup :: nat
  ev_last_touched :: nat
  ev_evict_pending :: bool
  ev_open_handles :: nat

definition eviction_default :: eviction_state where
  "eviction_default = \<lparr>ev_nlookup = 0, ev_last_touched = 0, ev_evict_pending = False,
     ev_open_handles = 0\<rparr>"

record inode_entry =
  e_inode :: nat
  e_parent :: nat
  e_name :: string
  e_full_path :: string
  e_kind :: inode_kind
  e_size :: nat
  e_cipher_size :: "nat option"
  e_needs_size_probe :: bool
  e_mtime :: nat
  e_mode :: nat
  e_uid :: nat
  e_gid :: nat
  e_atime :: nat
  e_ctime :: nat
  e_nlink :: nat
  e_symlink_target :: "string option"
  e_xet_hash :: "string option"
  e_staging_is_current :: bool
  e_etag :: "string option"
  e_dirty_generation :: nat
  e_children_loaded_at :: "nat option"
  e_children_from_remote :: bool
  e_children :: "dir_child list"
  e_child_index :: "string \<rightharpoonup> nat"
  e_pending_deletes :: "string list"
  e_last_revalidated :: "nat option"
  e_eviction :: eviction_state

section \<open>Operations on one entry\<close>

definition ev_bump_nlookup :: "eviction_state \<Rightarrow> eviction_state" where
  "ev_bump_nlookup ev = ev\<lparr>ev_nlookup := wrap64 (ev_nlookup ev + 1)\<rparr>"

definition ev_drop_nlookup :: "nat \<Rightarrow> eviction_state \<Rightarrow> bool \<times> eviction_state" where
  "ev_drop_nlookup n ev = (ev_nlookup ev - n = 0, ev\<lparr>ev_nlookup := ev_nlookup ev - n\<rparr>)"

definition is_dirty :: "inode_entry \<Rightarrow> bool" where
  "is_dirty e \<longleftrightarrow> e_dirty_generation e > 0"

definition add_child :: "nat \<Rightarrow> string \<Rightarrow> inode_entry \<Rightarrow> inode_entry" where
  "add_child ino name e =
    e\<lparr>e_child_index := (e_child_index e)(name \<mapsto> ino),
      e_children := e_children e @ [\<lparr>c_ino = ino, c_name = name\<rparr>]\<rparr>"

fun remove_first :: "('a \<Rightarrow> bool) \<Rightarrow> 'a list \<Rightarrow> 'a list" where
  "remove_first P [] = []"
| "remove_first P (x # xs) = (if P x then xs else x # remove_first P xs)"

definition remove_child_by_ino :: "nat \<Rightarrow> inode_entry \<Rightarrow> inode_entry" where
  "remove_child_by_ino ino e =
    (case find (\<lambda>c. c_ino c = ino) (e_children e) of
      None \<Rightarrow> e
    | Some removed \<Rightarrow>
        e\<lparr>e_children := remove_first (\<lambda>c. c_ino c = ino) (e_children e),
          e_child_index := (e_child_index e)(c_name removed := None)\<rparr>)"

definition remove_child_by_name :: "string \<Rightarrow> inode_entry \<Rightarrow> inode_entry" where
  "remove_child_by_name name e =
    (case e_child_index e name of
      None \<Rightarrow> e
    | Some ino \<Rightarrow>
        e\<lparr>e_child_index := (e_child_index e)(name := None),
          e_children := remove_first (\<lambda>c. c_ino c = ino) (e_children e)\<rparr>)"

definition children_loaded :: "inode_entry \<Rightarrow> bool" where
  "children_loaded e \<longleftrightarrow> e_children_loaded_at e \<noteq> None"

definition set_dirty :: "inode_entry \<Rightarrow> inode_entry" where
  "set_dirty e = e\<lparr>e_dirty_generation := sat_add64 (e_dirty_generation e) 1\<rparr>"

definition clear_dirty_if :: "nat \<Rightarrow> inode_entry \<Rightarrow> bool \<times> inode_entry" where
  "clear_dirty_if snapshot e =
    (if e_dirty_generation e = snapshot then (True, e\<lparr>e_dirty_generation := 0\<rparr>) else (False, e))"

definition apply_commit :: "string \<Rightarrow> nat \<Rightarrow> nat \<Rightarrow> nat \<Rightarrow> inode_entry \<Rightarrow> inode_entry" where
  "apply_commit hash sz dirty_generation now e =
    (let (cleared, e1) = clear_dirty_if dirty_generation e;
         e2 = (if cleared
               then (let e' = e1\<lparr>e_xet_hash := Some hash, e_staging_is_current := True\<rparr>;
                         e'' = (if e_cipher_size e' \<noteq> None then e'\<lparr>e_cipher_size := Some sz\<rparr>
                                else e'\<lparr>e_size := sz\<rparr>)
                     in e''\<lparr>e_pending_deletes := []\<rparr>)
               else e1)
     in e2\<lparr>e_mtime := now, e_ctime := now, e_last_revalidated := Some now\<rparr>)"

section \<open>The table\<close>

record inode_table =
  t_inodes :: "nat \<rightharpoonup> inode_entry"
  t_paths :: "string \<rightharpoonup> nat"
  t_next_inode :: nat
  t_touch_counter :: nat
  t_touch_enabled :: bool

text \<open>\<open>if let Some(e) = self.inodes.get_mut(&i) { ... }\<close>, \<open>remove\<close> on each of the two maps.\<close>

definition upd_inode :: "nat \<Rightarrow> (inode_entry \<Rightarrow> inode_entry) \<Rightarrow> inode_table \<Rightarrow> inode_table" where
  "upd_inode i f t = t\<lparr>t_inodes := (t_inodes t)(i := map_option f (t_inodes t i))\<rparr>"

definition del_inode :: "nat \<Rightarrow> inode_table \<Rightarrow> inode_table" where
  "del_inode i t = t\<lparr>t_inodes := (t_inodes t)(i := None)\<rparr>"

definition remove_path :: "string \<Rightarrow> inode_table \<Rightarrow> inode_table" where
  "remove_path p t = t\<lparr>t_paths := (t_paths t)(p := None)\<rparr>"

definition insert_path :: "string \<Rightarrow> nat \<Rightarrow> inode_table \<Rightarrow> inode_table" where
  "insert_path p i t = t\<lparr>t_paths := (t_paths t)(p \<mapsto> i)\<rparr>"

definition root_entry :: inode_entry where
  "root_entry = \<lparr>e_inode = ROOT_INODE, e_parent = ROOT_INODE, e_name = [], e_full_path = [],
     e_kind = Directory, e_size = 0, e_cipher_size = None, e_needs_size_probe = False, e_mtime = 0,
     e_mode = 493, e_uid = 0, e_gid = 0, e_atime = 0, e_ctime = 0, e_nlink = 2,
     e_symlink_target = None, e_xet_hash = None, e_staging_is_current = False, e_etag = None,
     e_dirty_generation = 0, e_children_loaded_at = None, e_children_from_remote = False,
     e_children = [], e_child_index = Map.empty, e_pending_deletes = [],
     e_last_revalidated = None, e_eviction = eviction_default\<rparr>"

definition new_table :: "bool \<Rightarrow> inode_table" where
  "new_table track_touches =
    \<lparr>t_inodes = [ROOT_INODE \<mapsto> root_entry], t_paths = [[] \<mapsto> ROOT_INODE], t_next_inode = 2,
     t_touch_counter = 0, t_touch_enabled = track_touches\<rparr>"

subsection \<open>Reference counts, recency and deferred eviction\<close>

definition upd_eviction ::
  "nat \<Rightarrow> (eviction_state \<Rightarrow> eviction_state) \<Rightarrow> inode_table \<Rightarrow> inode_table" where
  "upd_eviction i f = upd_inode i (\<lambda>e. e\<lparr>e_eviction := f (e_eviction e)\<rparr>)"

definition bump_nlookup :: "nat \<Rightarrow> inode_table \<Rightarrow> inode_table" where
  "bump_nlookup i t = upd_eviction i ev_bump_nlookup t"

definition drop_nlookup :: "nat \<Rightarrow> nat \<Rightarrow> inode_table \<Rightarrow> bool \<times> inode_table" where
  "drop_nlookup i n t =
    (case t_inodes t i of
      None \<Rightarrow> (False, t)
    | Some e \<Rightarrow> (fst (ev_drop_nlookup n (e_eviction e)),
                upd_eviction i (\<lambda>ev. snd (ev_drop_nlookup n ev)) t))"

definition bump_open_handles :: "nat \<Rightarrow> inode_table \<Rightarrow> inode_table" where
  "bump_open_handles i =
    upd_eviction i (\<lambda>ev. ev\<lparr>ev_open_handles := wrap32 (ev_open_handles ev + 1)\<rparr>)"

definition drop_open_handles :: "nat \<Rightarrow> inode_table \<Rightarrow> inode_table" where
  "drop_open_handles i =
    upd_eviction i (\<lambda>ev. ev\<lparr>ev_open_handles := wrap32 (ev_open_handles ev + (2 ^ 32 - 1))\<rparr>)"

definition has_open_handles :: "inode_table \<Rightarrow> nat \<Rightarrow> bool" where
  "has_open_handles t i =
    (case t_inodes t i of None \<Rightarrow> False | Some e \<Rightarrow> ev_open_handles (e_eviction e) > 0)"

definition touch :: "nat \<Rightarrow> inode_table \<Rightarrow> inode_table" where
  "touch i t =
    (if \<not> t_touch_enabled t then t
     else (case t_inodes t i of
        None \<Rightarrow> t
      | Some e \<Rightarrow>
          upd_eviction i (\<lambda>ev. ev\<lparr>ev_last_touched := t_touch_counter t\<rparr>)
            (t\<lparr>t_touch_counter := wrap64 (t_touch_counter t + 1)\<rparr>)))"

definition enable_touch_tracking :: "inode_table \<Rightarrow> inode_table" where
  "enable_touch_tracking t = t\<lparr>t_touch_enabled := True\<rparr>"

definition mark_evict_pending :: "nat \<Rightarrow> inode_table \<Rightarrow> inode_table" where
  "mark_evict_pending i = upd_eviction i (\<lambda>ev. ev\<lparr>ev_evict_pending := True\<rparr>)"

definition take_evict_pending :: "nat \<Rightarrow> inode_table \<Rightarrow> bool \<times> inode_table" where
  "take_evict_pending i t =
    (case t_inodes t i of
      None \<Rightarrow> (False, t)
    | Some e \<Rightarrow> (ev_evict_pending (e_eviction e),
                upd_eviction i (\<lambda>ev. ev\<lparr>ev_evict_pending := False\<rparr>) t))"

subsection \<open>Eviction candidates\<close>

definition enumerates :: "'a list \<Rightarrow> ('a \<rightharpoonup> 'b) \<Rightarrow> bool" where
  "enumerates ks m \<longleftrightarrow> distinct ks \<and> set ks = dom m"

definition table_values :: "nat list \<Rightarrow> inode_table \<Rightarrow> inode_entry list" where
  "table_values order t = List.map_filter (t_inodes t) order"

definition reclaimable :: "inode_entry \<Rightarrow> bool" where
  "reclaimable e \<longleftrightarrow> e_kind e = File \<and> e_nlink e \<noteq> 0 \<and> \<not> is_dirty e \<and> e_pending_deletes e = [] \<and>
     \<not> ev_open_handles (e_eviction e) > 0"

text \<open>A max-heap of (timestamp, inode) pairs as an ascending list: \<open>pop\<close> drops the last one.\<close>

fun lru_heap :: "nat \<Rightarrow> inode_entry list \<Rightarrow> (nat \<times> nat) list \<Rightarrow> (nat \<times> nat) list" where
  "lru_heap cap [] heap = heap"
| "lru_heap cap (e # es) heap =
    (if \<not> reclaimable e then lru_heap cap es heap
     else (let heap' = insort (ev_last_touched (e_eviction e), e_inode e) heap
           in lru_heap cap es (if length heap' > cap then butlast heap' else heap')))"

definition lru_candidates ::
  "nat list \<Rightarrow> ((nat \<times> nat) list \<Rightarrow> (nat \<times> nat) list) \<Rightarrow> inode_table \<Rightarrow> nat \<Rightarrow>
   (nat \<times> nat \<times> string) list" where
  "lru_candidates order into_vec t cap =
    (if cap = 0 then []
     else (let picks = sort_key fst (into_vec (lru_heap cap (table_values order t) []))
           in List.map_filter (\<lambda>(ts, ino). map_option (\<lambda>e. (ino, e_parent e, e_name e)) (t_inodes t ino))
                picks))"

definition staging_gc_candidates :: "nat list \<Rightarrow> inode_table \<Rightarrow> nat list" where
  "staging_gc_candidates order t =
    map snd (sort_key fst (map (\<lambda>e. (ev_last_touched (e_eviction e), e_inode e))
      (filter (\<lambda>e. e_kind e = File \<and> e_nlink e > 0 \<and> \<not> is_dirty e \<and> e_pending_deletes e = [] \<and>
          ev_open_handles (e_eviction e) = 0) (table_values order t))))"

subsection \<open>Eviction\<close>

definition evictable :: "inode_entry \<Rightarrow> bool" where
  "evictable e \<longleftrightarrow> e_kind e = File \<and> ev_nlookup (e_eviction e) = 0 \<and> \<not> is_dirty e \<and>
     e_pending_deletes e = [] \<and> e_nlink e > 0"

definition evict_if_safe :: "nat \<Rightarrow> inode_table \<Rightarrow> bool \<times> inode_table" where
  "evict_if_safe ino t =
    (case t_inodes t ino of
      None \<Rightarrow> (False, t)
    | Some e \<Rightarrow>
        if \<not> evictable e then (False, t)
        else (True, upd_inode (e_parent e)
               (\<lambda>p. (remove_child_by_ino ino p)\<lparr>e_children_loaded_at := None\<rparr>)
               (remove_path (e_full_path e) (del_inode ino t))))"

definition batch_eligible :: "inode_entry \<Rightarrow> bool" where
  "batch_eligible e \<longleftrightarrow> e_kind e = File \<and> ev_nlookup (e_eviction e) = 0 \<and>
     ev_open_handles (e_eviction e) = 0 \<and> \<not> is_dirty e \<and> e_pending_deletes e = [] \<and> e_nlink e > 0"

definition group_by_parent :: "inode_table \<Rightarrow> nat list \<Rightarrow> (nat \<rightharpoonup> nat set)" where
  "group_by_parent t inos =
    fold (\<lambda>ino by_parent. case t_inodes t ino of
        None \<Rightarrow> by_parent
      | Some e \<Rightarrow>
          if batch_eligible e
          then by_parent(e_parent e \<mapsto>
            (case by_parent (e_parent e) of None \<Rightarrow> {ino} | Some s \<Rightarrow> insert ino s))
          else by_parent) inos Map.empty"

definition evict_one :: "nat \<Rightarrow> nat \<Rightarrow> nat list \<times> inode_table \<Rightarrow> nat list \<times> inode_table" where
  "evict_one parent_ino ino st =
    (case t_inodes (snd st) ino of
      None \<Rightarrow> st
    | Some e \<Rightarrow>
        (fst st @ [ino],
         upd_inode parent_ino (\<lambda>p. p\<lparr>e_child_index := (e_child_index p)(e_name e := None)\<rparr>)
           (remove_path (e_full_path e) (del_inode ino (snd st)))))"

definition retain_children :: "nat \<Rightarrow> nat set \<Rightarrow> inode_table \<Rightarrow> inode_table" where
  "retain_children parent_ino evicted =
    upd_inode parent_ino (\<lambda>p. p\<lparr>e_children := filter (\<lambda>c. c_ino c \<notin> evicted) (e_children p),
      e_children_loaded_at := None\<rparr>)"

text \<open>\<open>parents\<close> enumerates the keys of the parent map and \<open>members p\<close> the set stored at \<open>p\<close>.\<close>

definition evict_batch_if_safe ::
  "nat list \<Rightarrow> (nat \<Rightarrow> nat list) \<Rightarrow> nat list \<Rightarrow> inode_table \<Rightarrow> nat list \<times> inode_table" where
  "evict_batch_if_safe parents members inos t =
    (let by_parent = group_by_parent t inos;
         (evicted, t1) = fold (\<lambda>p st. fold (evict_one p) (members p) st) parents ([], t);
         t2 = fold (\<lambda>p. case by_parent p of None \<Rightarrow> id | Some s \<Rightarrow> retain_children p s) parents t1
     in (evicted, t2))"

subsection \<open>Lookup and insertion\<close>

definition get_by_path :: "inode_table \<Rightarrow> string \<Rightarrow> inode_entry option" where
  "get_by_path t p = Option.bind (t_paths t p) (t_inodes t)"

definition lookup_child :: "inode_table \<Rightarrow> nat \<Rightarrow> string \<Rightarrow> inode_entry option" where
  "lookup_child t par name =
    Option.bind (t_inodes t par) (\<lambda>pe. Option.bind (e_child_index pe name) (t_inodes t))"

definition fresh_entry ::
  "inode_table \<Rightarrow> nat \<Rightarrow> string \<Rightarrow> string \<Rightarrow> inode_kind \<Rightarrow> nat \<Rightarrow> nat \<Rightarrow> string option \<Rightarrow> nat \<Rightarrow> nat \<Rightarrow>
   nat \<Rightarrow> nat \<Rightarrow> inode_entry" where
  "fresh_entry t par name path k sz mt hash md u g now =
    \<lparr>e_inode = t_next_inode t, e_parent = par, e_name = name, e_full_path = path, e_kind = k,
     e_size = sz, e_cipher_size = None, e_needs_size_probe = False, e_mtime = mt, e_mode = md,
     e_uid = u, e_gid = g, e_atime = mt, e_ctime = now,
     e_nlink = (case k of Directory \<Rightarrow> 2 | _ \<Rightarrow> 1), e_symlink_target = None, e_xet_hash = hash,
     e_staging_is_current = False, e_etag = None, e_dirty_generation = 0,
     e_children_loaded_at = None, e_children_from_remote = False, e_children = [],
     e_child_index = Map.empty, e_pending_deletes = [], e_last_revalidated = Some now,
     e_eviction = eviction_default\<lparr>ev_last_touched := t_touch_counter t\<rparr>\<rparr>"

definition insert_inode ::
  "nat \<Rightarrow> string \<Rightarrow> string \<Rightarrow> inode_kind \<Rightarrow> nat \<Rightarrow> nat \<Rightarrow> string option \<Rightarrow> nat \<Rightarrow> nat \<Rightarrow> nat \<Rightarrow> nat \<Rightarrow>
   inode_table \<Rightarrow> nat \<times> inode_table" where
  "insert_inode par name path k sz mt hash md u g now t =
    (case t_paths t path of
      Some existing \<Rightarrow> (existing, upd_inode existing (\<lambda>e. e\<lparr>e_last_revalidated := Some now\<rparr>) t)
    | None \<Rightarrow>
        (let ino = t_next_inode t;
             e = fresh_entry t par name path k sz mt hash md u g now;
             t1 = t\<lparr>t_inodes := (t_inodes t)(ino \<mapsto> e), t_paths := (t_paths t)(path \<mapsto> ino),
                    t_next_inode := wrap64 (t_next_inode t + 1),
                    t_touch_counter := wrap64 (t_touch_counter t + 1)\<rparr>
         in (ino, upd_inode par (\<lambda>pe. let pe' = add_child ino name pe
                in if k = Directory then pe'\<lparr>e_nlink := wrap32 (e_nlink pe' + 1)\<rparr> else pe') t1)))"

subsection \<open>Snapshots and remote metadata\<close>

definition dirty_inos :: "nat list \<Rightarrow> inode_table \<Rightarrow> nat list" where
  "dirty_inos order t =
    map e_inode (filter (\<lambda>e. e_kind e = File \<and> is_dirty e \<and> e_nlink e > 0) (table_values order t))"

definition pending_size_probes :: "nat list \<Rightarrow> inode_table \<Rightarrow> (nat \<times> string \<times> nat) list" where
  "pending_size_probes order t =
    List.map_filter (\<lambda>e. case (e_xet_hash e, e_cipher_size e) of
        (Some h, Some c) \<Rightarrow> Some (e_inode e, h, c) | _ \<Rightarrow> None)
      (filter e_needs_size_probe (table_values order t))"

record snapshot_row =
  s_ino :: nat
  s_path :: string
  s_hash :: "string option"
  s_etag :: "string option"
  s_size :: nat
  s_dirty :: bool
  s_cipher_size :: "nat option"

definition snapshot_of :: "inode_entry \<Rightarrow> snapshot_row" where
  "snapshot_of e = \<lparr>s_ino = e_inode e, s_path = e_full_path e, s_hash = e_xet_hash e,
     s_etag = e_etag e, s_size = e_size e, s_dirty = is_dirty e, s_cipher_size = e_cipher_size e\<rparr>"

definition file_snapshot :: "nat list \<Rightarrow> inode_table \<Rightarrow> snapshot_row list" where
  "file_snapshot order t = map snapshot_of (filter (\<lambda>e. e_kind e = File) (table_values order t))"

definition update_remote_file ::
  "nat \<Rightarrow> string option \<Rightarrow> string option \<Rightarrow> nat \<Rightarrow> nat \<Rightarrow> nat option \<Rightarrow> inode_table \<Rightarrow>
   bool \<times> inode_table" where
  "update_remote_file ino hash etag sz mt csz t =
    (case t_inodes t ino of
      None \<Rightarrow> (False, t)
    | Some e \<Rightarrow>
        if is_dirty e then (False, t)
        else (True, upd_inode ino (\<lambda>e. e\<lparr>e_xet_hash := hash, e_etag := etag, e_size := sz,
               e_cipher_size := csz, e_mtime := mt, e_staging_is_current := False\<rparr>) t))"

definition invalidate_children :: "nat \<Rightarrow> inode_table \<Rightarrow> inode_table" where
  "invalidate_children ino = upd_inode ino (\<lambda>e. e\<lparr>e_children_loaded_at := None\<rparr>)"

definition is_children_loaded :: "inode_table \<Rightarrow> nat \<Rightarrow> bool" where
  "is_children_loaded t ino = (case t_inodes t ino of None \<Rightarrow> False | Some e \<Rightarrow> children_loaded e)"

definition merge_remote_file ::
  "nat \<Rightarrow> string option \<Rightarrow> nat option \<Rightarrow> nat option \<Rightarrow> inode_table \<Rightarrow> bool \<times> inode_table" where
  "merge_remote_file ino hash sz mt t =
    (case t_inodes t ino of
      None \<Rightarrow> (False, t)
    | Some e \<Rightarrow>
        if is_dirty e then (False, t)
        else (True, upd_inode ino (\<lambda>e.
               let e1 = (case hash of Some h \<Rightarrow> e\<lparr>e_xet_hash := Some h\<rparr> | None \<Rightarrow> e);
                   e2 = (case sz of Some s \<Rightarrow> e1\<lparr>e_size := s\<rparr> | None \<Rightarrow> e1);
                   e3 = (case mt of Some m \<Rightarrow> e2\<lparr>e_mtime := m\<rparr> | None \<Rightarrow> e2)
               in e3\<lparr>e_staging_is_current := False\<rparr>) t))"

definition get_dir_ino :: "inode_table \<Rightarrow> string \<Rightarrow> nat option" where
  "get_dir_ino t p =
    Option.bind (t_paths t p) (\<lambda>ino. Option.bind (t_inodes t ino)
      (\<lambda>e. if e_kind e = Directory then Some (e_inode e) else None))"

definition loaded_dir_prefixes :: "nat list \<Rightarrow> inode_table \<Rightarrow> string list" where
  "loaded_dir_prefixes order t =
    map e_full_path (filter (\<lambda>e. e_kind e = Directory \<and> children_loaded e) (table_values order t))"

subsection \<open>Walks over the tree\<close>

text \<open>
  The stack of \<open>has_dirty_or_open_descendants\<close> and \<open>has_clean_descendants\<close>, its top at the
  head: children are pushed in order, so the last one is visited first.
\<close>

partial_function (option) walk_any ::
  "(inode_entry \<Rightarrow> bool) \<Rightarrow> inode_table \<Rightarrow> nat list \<Rightarrow> bool option" where
  "walk_any hit t stack =
    (case stack of
      [] \<Rightarrow> Some False
    | current # rest \<Rightarrow>
        (case t_inodes t current of
          None \<Rightarrow> walk_any hit t rest
        | Some e \<Rightarrow>
            if hit e then Some True
            else walk_any hit t (rev (map c_ino (e_children e)) @ rest)))"

definition has_dirty_or_open_descendants :: "inode_table \<Rightarrow> nat \<Rightarrow> bool option" where
  "has_dirty_or_open_descendants t ino =
    walk_any (\<lambda>e. is_dirty e \<or> ev_open_handles (e_eviction e) > 0) t [ino]"

definition has_clean_descendants :: "inode_table \<Rightarrow> nat \<Rightarrow> bool option" where
  "has_clean_descendants t ino =
    walk_any (\<lambda>e. \<not> is_dirty e) t
      (case t_inodes t ino of None \<Rightarrow> [] | Some e \<Rightarrow> rev (map c_ino (e_children e)))"

text \<open>The loop of \<open>nearest_dir_ancestor\<close>; each round shortens the path.\<close>

definition parent_path :: "string \<Rightarrow> string" where
  "parent_path p = (case rsplit_once CHR ''/'' p of None \<Rightarrow> [] | Some (par, _) \<Rightarrow> par)"

lemma parent_path_shorter: "parent_path p \<noteq> [] \<Longrightarrow> length (parent_path p) < length p"
  by (auto simp: parent_path_def rsplit_once_Some split: option.splits)

function nearest_dir_ancestor :: "inode_table \<Rightarrow> string \<Rightarrow> nat \<times> string" where
  "nearest_dir_ancestor t path =
    (let ancestor = parent_path path
     in case get_dir_ino t ancestor of
          Some dir_ino \<Rightarrow> (dir_ino, ancestor)
        | None \<Rightarrow> if ancestor = [] then (ROOT_INODE, []) else nearest_dir_ancestor t ancestor)"
  by pat_completeness auto
termination
  by (relation "measure (\<lambda>(t, p). length p)") (auto intro: parent_path_shorter)

text \<open>
  \<open>update_subtree_paths\<close> recurses into the children in order; the work list holds the calls still
  to make, the next one at its head.
\<close>

partial_function (option) update_paths ::
  "(nat \<times> string) list \<Rightarrow> inode_table \<Rightarrow> inode_table option" where
  "update_paths work t =
    (case work of
      [] \<Rightarrow> Some t
    | call # rest \<Rightarrow>
        (case t_inodes t (fst call) of
          None \<Rightarrow> update_paths rest t
        | Some e \<Rightarrow>
            update_paths
              (map (\<lambda>c. (c_ino c, child_path (snd call) (c_name c))) (e_children e) @ rest)
              (insert_path (snd call) (fst call)
                (upd_inode (fst call) (\<lambda>e. e\<lparr>e_full_path := snd call\<rparr>)
                  (remove_path (e_full_path e) t)))))"

definition update_subtree_paths :: "nat \<Rightarrow> string \<Rightarrow> inode_table \<Rightarrow> inode_table option" where
  "update_subtree_paths ino new_full_path t = update_paths [(ino, new_full_path)] t"

definition detach_from_parent ::
  "nat \<Rightarrow> nat \<Rightarrow> inode_kind \<Rightarrow> bool \<Rightarrow> inode_table \<Rightarrow> inode_table" where
  "detach_from_parent parent_ino child_ino child_kind invalidate =
    upd_inode parent_ino (\<lambda>p.
      let p1 = remove_child_by_ino child_ino p;
          p2 = (if invalidate then p1\<lparr>e_children_loaded_at := None\<rparr> else p1)
      in if child_kind = Directory then p2\<lparr>e_nlink := e_nlink p2 - 1\<rparr> else p2)"

partial_function (option) remove_sweep :: "nat list \<Rightarrow> inode_table \<Rightarrow> inode_table option" where
  "remove_sweep stack t =
    (case stack of
      [] \<Rightarrow> Some t
    | child_ino # rest \<Rightarrow>
        (case t_inodes t child_ino of
          None \<Rightarrow> remove_sweep rest t
        | Some child \<Rightarrow>
            remove_sweep (rev (map c_ino (e_children child)) @ rest)
              (remove_path (e_full_path child) (del_inode child_ino t))))"

definition remove_inode :: "nat \<Rightarrow> inode_table \<Rightarrow> (inode_entry option \<times> inode_table) option" where
  "remove_inode ino t =
    (case t_inodes t ino of
      None \<Rightarrow> Some (None, t)
    | Some e \<Rightarrow>
        map_option (Pair (Some e))
          (remove_sweep (rev (map c_ino (e_children e)))
            (detach_from_parent (e_parent e) ino (e_kind e) False
              (remove_path (e_full_path e) (del_inode ino t)))))"

definition unlink_one ::
  "nat \<Rightarrow> string \<Rightarrow> nat \<Rightarrow> inode_table \<Rightarrow> (bool \<times> inode_entry) option \<times> inode_table" where
  "unlink_one par name now t =
    (case t_inodes t par of
      None \<Rightarrow> (None, t)
    | Some pe \<Rightarrow>
        (case e_child_index pe name of
          None \<Rightarrow> (None, t)
        | Some ino \<Rightarrow>
            (let path = child_path (e_full_path pe) name;
                 t1 = remove_path path (upd_inode par (remove_child_by_name name) t)
             in case t_inodes t1 ino of
                  None \<Rightarrow> (None, t1)
                | Some e \<Rightarrow>
                    (let e' = e\<lparr>e_nlink := e_nlink e - 1, e_ctime := now\<rparr>
                     in (Some (e_nlink e' = 0, e'), upd_inode ino (\<lambda>_. e') t1)))))"

definition move_child ::
  "nat \<Rightarrow> nat \<Rightarrow> string \<Rightarrow> nat \<Rightarrow> string \<Rightarrow> inode_table \<Rightarrow> inode_table" where
  "move_child ino old_parent old_name new_parent new_name t =
    (let is_dir = (case t_inodes t ino of None \<Rightarrow> False | Some e \<Rightarrow> e_kind e = Directory);
         t1 = upd_inode old_parent (remove_child_by_name old_name) t;
         t2 = upd_inode new_parent (add_child ino new_name) t1;
         t3 = (if is_dir \<and> old_parent \<noteq> new_parent
               then upd_inode new_parent (\<lambda>p. p\<lparr>e_nlink := wrap32 (e_nlink p + 1)\<rparr>)
                      (upd_inode old_parent (\<lambda>p. p\<lparr>e_nlink := e_nlink p - 1\<rparr>) t2)
               else t2)
     in upd_inode ino (\<lambda>e. e\<lparr>e_parent := new_parent, e_name := new_name\<rparr>) t3)"

definition touch_parent :: "nat \<Rightarrow> nat \<Rightarrow> inode_table \<Rightarrow> inode_table" where
  "touch_parent par now = upd_inode par (\<lambda>p. p\<lparr>e_mtime := now, e_ctime := now\<rparr>)"

definition remove_orphan :: "nat \<Rightarrow> inode_table \<Rightarrow> bool \<times> inode_table" where
  "remove_orphan ino t =
    (case t_inodes t ino of
      None \<Rightarrow> (False, t)
    | Some e \<Rightarrow>
        if e_nlink e = 0
        then (True, (let t1 = del_inode ino t
                     in if t_paths t1 (e_full_path e) = Some ino
                        then remove_path (e_full_path e) t1 else t1))
        else (False, t))"

section \<open>How the operations read\<close>

lemma upd_inode_simps [simp]:
  "t_inodes (upd_inode i f t) = (t_inodes t)(i := map_option f (t_inodes t i))"
  "t_paths (upd_inode i f t) = t_paths t"
  "t_next_inode (upd_inode i f t) = t_next_inode t"
  "t_touch_counter (upd_inode i f t) = t_touch_counter t"
  "t_touch_enabled (upd_inode i f t) = t_touch_enabled t"
  by (simp_all add: upd_inode_def)

lemma table_maps_simps [simp]:
  "t_inodes (del_inode i t) = (t_inodes t)(i := None)" "t_paths (del_inode i t) = t_paths t"
  "t_next_inode (del_inode i t) = t_next_inode t"
  "t_inodes (remove_path p t) = t_inodes t" "t_paths (remove_path p t) = (t_paths t)(p := None)"
  "t_next_inode (remove_path p t) = t_next_inode t"
  "t_inodes (insert_path p i t) = t_inodes t" "t_paths (insert_path p i t) = (t_paths t)(p \<mapsto> i)"
  "t_next_inode (insert_path p i t) = t_next_inode t"
  by (simp_all add: del_inode_def remove_path_def insert_path_def)

lemma walk_any_simps [simp]:
  "walk_any hit t [] = Some False"
  "t_inodes t i = None \<Longrightarrow> walk_any hit t (i # st) = walk_any hit t st"
  "t_inodes t i = Some e \<Longrightarrow> walk_any hit t (i # st) =
    (if hit e then Some True else walk_any hit t (rev (map c_ino (e_children e)) @ st))"
  by (subst walk_any.simps; simp)+

lemma remove_sweep_simps [simp]:
  "remove_sweep [] t = Some t"
  "t_inodes t i = None \<Longrightarrow> remove_sweep (i # st) t = remove_sweep st t"
  "t_inodes t i = Some e \<Longrightarrow> remove_sweep (i # st) t =
    remove_sweep (rev (map c_ino (e_children e)) @ st) (remove_path (e_full_path e) (del_inode i t))"
  by (subst remove_sweep.simps; simp)+

lemma update_paths_simps [simp]:
  "update_paths [] t = Some t"
  "t_inodes t i = None \<Longrightarrow> update_paths ((i, p) # work) t = update_paths work t"
  "t_inodes t i = Some e \<Longrightarrow> update_paths ((i, p) # work) t =
    update_paths (map (\<lambda>c. (c_ino c, child_path p (c_name c))) (e_children e) @ work)
      (insert_path p i (upd_inode i (\<lambda>e. e\<lparr>e_full_path := p\<rparr>) (remove_path (e_full_path e) t)))"
  by (subst update_paths.simps; simp)+

end
