(* ===== verification/Inode_Inv.thy ===== *)
theory Inode_Inv
  imports Inode
begin

text \<open>
  The invariant of the inode table and its preservation.  \<open>wf_table\<close> says that the table is a
  tree: every directory lists its children once, with a name index that agrees with the list; a
  child knows its parent, its name and its full path; the path map is exactly the full paths of the
  linked entries; an entry whose last link is gone is in no listing and owns no path.
\<close>

section \<open>The invariant\<close>

definition linked :: "inode_entry \<Rightarrow> bool" where
  "linked e \<longleftrightarrow> e_kind e = Directory \<or> e_nlink e > 0"

definition name_ok :: "string \<Rightarrow> bool" where
  "name_ok n \<longleftrightarrow> n \<noteq> [] \<and> CHR ''/'' \<notin> set n"

definition index_of :: "dir_child list \<Rightarrow> (string \<rightharpoonup> nat)" where
  "index_of cs = map_of (map (\<lambda>c. (c_name c, c_ino c)) cs)"

definition listing_ok :: "inode_entry \<Rightarrow> bool" where
  "listing_ok e \<longleftrightarrow> distinct (map c_name (e_children e)) \<and> distinct (map c_ino (e_children e)) \<and>
     e_child_index e = index_of (e_children e) \<and>
     (e_kind e \<noteq> Directory \<longrightarrow> e_children e = [] \<and> e_nlink e \<le> 1)"

definition child_ok :: "inode_table \<Rightarrow> nat \<Rightarrow> inode_entry \<Rightarrow> dir_child \<Rightarrow> bool" where
  "child_ok t p pe c \<longleftrightarrow> c_ino c \<noteq> ROOT_INODE \<and>
     (\<exists>ce. t_inodes t (c_ino c) = Some ce \<and> e_parent ce = p \<and> e_name ce = c_name c \<and>
       e_full_path ce = child_path (e_full_path pe) (c_name c) \<and> linked ce)"

definition attached :: "inode_table \<Rightarrow> inode_entry \<Rightarrow> bool" where
  "attached t e \<longleftrightarrow> (\<exists>pe. t_inodes t (e_parent e) = Some pe \<and> e_kind pe = Directory \<and>
     \<lparr>c_ino = e_inode e, c_name = e_name e\<rparr> \<in> set (e_children pe))"

definition wf_entry :: "inode_table \<Rightarrow> nat \<Rightarrow> inode_entry \<Rightarrow> bool" where
  "wf_entry t i e \<longleftrightarrow> e_inode e = i \<and> i < t_next_inode t \<and> listing_ok e \<and>
     (\<forall>c \<in> set (e_children e). child_ok t i e c) \<and>
     (i \<noteq> ROOT_INODE \<longrightarrow> name_ok (e_name e) \<and> (linked e \<longrightarrow> attached t e)) \<and>
     (linked e \<longrightarrow> t_paths t (e_full_path e) = Some i)"

definition wf_root :: "inode_table \<Rightarrow> bool" where
  "wf_root t \<longleftrightarrow> (\<exists>e. t_inodes t ROOT_INODE = Some e \<and> e_kind e = Directory \<and>
     e_parent e = ROOT_INODE \<and> e_name e = [] \<and> e_full_path e = [])"

definition paths_ok :: "inode_table \<Rightarrow> bool" where
  "paths_ok t \<longleftrightarrow> (\<forall>p i. t_paths t p = Some i \<longrightarrow>
     (\<exists>e. t_inodes t i = Some e \<and> e_full_path e = p \<and> linked e))"

definition wf_table :: "inode_table \<Rightarrow> bool" where
  "wf_table t \<longleftrightarrow> finite (dom (t_inodes t)) \<and> wf_root t \<and> paths_ok t \<and>
     (\<forall>i e. t_inodes t i = Some e \<longrightarrow> wf_entry t i e)"

lemma wf_tableD:
  assumes "wf_table t"
  shows wf_finite: "finite (dom (t_inodes t))" and wf_wf_root: "wf_root t"
    and wf_paths_ok: "paths_ok t"
    and wf_tableE: "t_inodes t i = Some e \<Longrightarrow> wf_entry t i e"
  using assms by (auto simp: wf_table_def)

lemma wf_entryD:
  assumes "wf_entry t i e"
  shows we_inode: "e_inode e = i" and we_bound: "i < t_next_inode t" and we_listing: "listing_ok e"
    and we_child: "c \<in> set (e_children e) \<Longrightarrow> child_ok t i e c"
    and we_name: "i \<noteq> ROOT_INODE \<Longrightarrow> name_ok (e_name e)"
    and we_attached: "i \<noteq> ROOT_INODE \<Longrightarrow> linked e \<Longrightarrow> attached t e"
    and we_path: "linked e \<Longrightarrow> t_paths t (e_full_path e) = Some i"
  using assms by (auto simp: wf_entry_def)

lemma wf_entryI:
  assumes "e_inode e = i" "i < t_next_inode t" "listing_ok e"
    "\<And>c. c \<in> set (e_children e) \<Longrightarrow> child_ok t i e c"
    "i \<noteq> ROOT_INODE \<Longrightarrow> name_ok (e_name e)"
    "i \<noteq> ROOT_INODE \<Longrightarrow> linked e \<Longrightarrow> attached t e"
    "linked e \<Longrightarrow> t_paths t (e_full_path e) = Some i"
  shows "wf_entry t i e"
  using assms by (auto simp: wf_entry_def)

lemma wf_tableI:
  assumes "finite (dom (t_inodes t))" "wf_root t" "paths_ok t"
    "\<And>i e. t_inodes t i = Some e \<Longrightarrow> wf_entry t i e"
  shows "wf_table t"
  using assms by (auto simp: wf_table_def)

text \<open>Projections that are total on inode numbers.\<close>

definition name_in :: "inode_table \<Rightarrow> nat \<Rightarrow> string" where
  "name_in t i = (case t_inodes t i of None \<Rightarrow> [] | Some e \<Rightarrow> e_name e)"

definition path_in :: "inode_table \<Rightarrow> nat \<Rightarrow> string" where
  "path_in t i = (case t_inodes t i of None \<Rightarrow> [] | Some e \<Rightarrow> e_full_path e)"

definition parent_of :: "inode_table \<Rightarrow> nat \<Rightarrow> nat" where
  "parent_of t i = (case t_inodes t i of None \<Rightarrow> 0 | Some e \<Rightarrow> e_parent e)"

section \<open>Listings\<close>

lemma remove_first_filter:
  assumes "distinct (map f xs)"
  shows "remove_first (\<lambda>c. f c = v) xs = filter (\<lambda>c. f c \<noteq> v) xs"
  using assms
proof (induction xs)
  case (Cons x xs)
  then show ?case
    by (cases "f x = v") (auto simp: filter_id_conv [THEN iffD2, symmetric] image_iff intro!: filter_id_conv [THEN iffD2, symmetric])
qed simp

lemma dir_child_eta [simp]: "\<lparr>c_ino = c_ino c, c_name = c_name c\<rparr> = c"
  by (cases c) simp

lemma index_of_Some:
  assumes "distinct (map c_name cs)"
  shows "index_of cs n = Some i \<longleftrightarrow> \<lparr>c_ino = i, c_name = n\<rparr> \<in> set cs"
proof -
  have "index_of cs n = Some i \<longleftrightarrow> (n, i) \<in> set (map (\<lambda>c. (c_name c, c_ino c)) cs)"
    using assms by (simp add: index_of_def map_of_eq_Some_iff comp_def)
  also have "\<dots> \<longleftrightarrow> \<lparr>c_ino = i, c_name = n\<rparr> \<in> set cs"
    by (auto simp: image_iff) (auto intro: bexI [of _ "\<lparr>c_ino = i, c_name = n\<rparr>"])
  finally show ?thesis .
qed

lemma index_of_None: "index_of cs n = None \<longleftrightarrow> n \<notin> c_name ` set cs"
  by (auto simp: index_of_def map_of_eq_None_iff image_iff)

lemma index_of_filter:
  assumes "distinct (map c_name cs)"
  shows "index_of (filter P cs) n =
    (case index_of cs n of None \<Rightarrow> None
     | Some i \<Rightarrow> if P \<lparr>c_ino = i, c_name = n\<rparr> then Some i else None)"
proof -
  have d: "distinct (map c_name (filter P cs))" using assms by (simp add: distinct_map_filter)
  show ?thesis
  proof (cases "index_of cs n")
    case None
    then have "index_of (filter P cs) n = None" by (auto simp: index_of_None)
    with None show ?thesis by simp
  next
    case (Some i)
    have "index_of (filter P cs) n = Some j \<longleftrightarrow> index_of cs n = Some j \<and> P \<lparr>c_ino = j, c_name = n\<rparr>" for j
      by (simp add: index_of_Some [OF d] index_of_Some [OF assms])
    then have "index_of (filter P cs) n = Some j \<longleftrightarrow> j = i \<and> P \<lparr>c_ino = i, c_name = n\<rparr>" for j
      using Some by auto
    with Some show ?thesis by (cases "index_of (filter P cs) n") auto
  qed
qed

lemma child_eqI: "c_ino c = c_ino d \<Longrightarrow> c_name c = c_name d \<Longrightarrow> (c :: dir_child) = d"
  by simp

lemma listing_unique:
  assumes "listing_ok e" "c \<in> set (e_children e)" "d \<in> set (e_children e)"
  shows "c_name c = c_name d \<longleftrightarrow> c_ino c = c_ino d"
  using assms by (auto simp: listing_ok_def distinct_map inj_on_def)

lemma remove_by_ino_children:
  assumes "listing_ok e"
  shows "e_children (remove_child_by_ino i e) = filter (\<lambda>c. c_ino c \<noteq> i) (e_children e)"
    and "e_child_index (remove_child_by_ino i e)
      = index_of (filter (\<lambda>c. c_ino c \<noteq> i) (e_children e))"
proof -
  have dn: "distinct (map c_name (e_children e))" and di: "distinct (map c_ino (e_children e))"
    and ix: "e_child_index e = index_of (e_children e)"
    using assms by (auto simp: listing_ok_def)
  have "e_children (remove_child_by_ino i e) = filter (\<lambda>c. c_ino c \<noteq> i) (e_children e) \<and>
    e_child_index (remove_child_by_ino i e) = index_of (filter (\<lambda>c. c_ino c \<noteq> i) (e_children e))"
  proof (cases "find (\<lambda>c. c_ino c = i) (e_children e)")
    case None
    then have "filter (\<lambda>c. c_ino c \<noteq> i) (e_children e) = e_children e"
      by (auto simp: find_None_iff filter_id_conv)
    with None show ?thesis by (simp add: remove_child_by_ino_def ix)
  next
    case (Some c)
    then have c: "c \<in> set (e_children e)" "c_ino c = i" by (auto simp: find_Some_iff)
    have "(index_of (e_children e))(c_name c := None)
        = index_of (filter (\<lambda>c. c_ino c \<noteq> i) (e_children e))"
    proof
      fix n
      show "((index_of (e_children e))(c_name c := None)) n
          = index_of (filter (\<lambda>c. c_ino c \<noteq> i) (e_children e)) n"
        using listing_unique [OF assms c(1), of "\<lparr>c_ino = _, c_name = n\<rparr>"] c(2)
        by (auto simp: index_of_filter [OF dn] index_of_Some [OF dn] split: option.split)
    qed
    with Some show ?thesis
      by (simp add: remove_child_by_ino_def ix remove_first_filter [OF di])
  qed
  then show "e_children (remove_child_by_ino i e) = filter (\<lambda>c. c_ino c \<noteq> i) (e_children e)"
    and "e_child_index (remove_child_by_ino i e)
      = index_of (filter (\<lambda>c. c_ino c \<noteq> i) (e_children e))" by auto
qed

lemma remove_by_name_ino:
  assumes "listing_ok e" and "e_child_index e n = Some i"
  shows "remove_child_by_name n e = remove_child_by_ino i e"
proof -
  have ix: "e_child_index e = index_of (e_children e)" and dn: "distinct (map c_name (e_children e))"
    using assms(1) by (auto simp: listing_ok_def)
  have c: "\<lparr>c_ino = i, c_name = n\<rparr> \<in> set (e_children e)"
    using assms(2) by (simp add: ix index_of_Some [OF dn])
  then obtain d where d: "find (\<lambda>c. c_ino c = i) (e_children e) = Some d"
    by (cases "find (\<lambda>c. c_ino c = i) (e_children e)") (auto simp: find_None_iff)
  then have "d \<in> set (e_children e)" "c_ino d = i" by (auto simp: find_Some_iff)
  then have "c_name d = n" using listing_unique [OF assms(1) _ c] by auto
  then show ?thesis using d assms(2)
    by (simp add: remove_child_by_name_def remove_child_by_ino_def)
qed

lemma remove_child_by_ino_frame [simp]:
  "e_inode (remove_child_by_ino i e) = e_inode e" "e_parent (remove_child_by_ino i e) = e_parent e"
  "e_name (remove_child_by_ino i e) = e_name e" "e_full_path (remove_child_by_ino i e) = e_full_path e"
  "e_kind (remove_child_by_ino i e) = e_kind e" "e_nlink (remove_child_by_ino i e) = e_nlink e"
  "e_dirty_generation (remove_child_by_ino i e) = e_dirty_generation e"
  "e_xet_hash (remove_child_by_ino i e) = e_xet_hash e"
  "e_pending_deletes (remove_child_by_ino i e) = e_pending_deletes e"
  "e_size (remove_child_by_ino i e) = e_size e" "e_eviction (remove_child_by_ino i e) = e_eviction e"
  by (simp_all add: remove_child_by_ino_def split: option.split)

section \<open>Updates that keep the shape of the tree\<close>

definition same_shape :: "inode_entry \<Rightarrow> inode_entry \<Rightarrow> bool" where
  "same_shape e f \<longleftrightarrow> e_inode f = e_inode e \<and> e_parent f = e_parent e \<and> e_name f = e_name e \<and>
     e_full_path f = e_full_path e \<and> e_kind f = e_kind e \<and>
     (e_kind e \<noteq> Directory \<longrightarrow> e_nlink f = e_nlink e) \<and>
     e_children f = e_children e \<and> e_child_index f = e_child_index e"

lemma same_shape_refl [simp, intro]: "same_shape e e"
  by (simp add: same_shape_def)

lemma same_shape_linked: "same_shape e f \<Longrightarrow> linked f \<longleftrightarrow> linked e"
  by (auto simp: same_shape_def linked_def)

lemma wf_same_shape:
  assumes wf: "wf_table t" and paths: "t_paths t' = t_paths t" and nxt: "t_next_inode t' = t_next_inode t"
    and rel: "\<And>i. rel_option same_shape (t_inodes t i) (t_inodes t' i)"
  shows "wf_table t'"
proof -
  have fwd: "\<exists>f. t_inodes t' i = Some f \<and> same_shape e f" if "t_inodes t i = Some e" for i e
    using rel [of i] that by (auto simp: option_rel_Some1)
  have bwd: "\<exists>e. t_inodes t i = Some e \<and> same_shape e f" if "t_inodes t' i = Some f" for i f
    using rel [of i] that by (auto simp: option_rel_Some2)
  show ?thesis
  proof (rule wf_tableI)
    have "dom (t_inodes t') = dom (t_inodes t)" using fwd bwd by blast
    then show "finite (dom (t_inodes t'))" using wf_finite [OF wf] by simp
    show "wf_root t'" using wf_wf_root [OF wf] fwd by (fastforce simp: wf_root_def same_shape_def)
    show "paths_ok t'"
      using wf_paths_ok [OF wf] fwd by (fastforce simp: paths_ok_def paths same_shape_def linked_def)
    fix i f assume "t_inodes t' i = Some f"
    then obtain e where e: "t_inodes t i = Some e" and s: "same_shape e f" using bwd by blast
    note we = wf_tableE [OF wf e]
    show "wf_entry t' i f"
    proof (rule wf_entryI)
      show "e_inode f = i" using s we_inode [OF we] by (simp add: same_shape_def)
      show "i < t_next_inode t'" using we_bound [OF we] nxt by simp
      show "listing_ok f" using s we_listing [OF we] by (auto simp: listing_ok_def same_shape_def)
      show "child_ok t' i f c" if c: "c \<in> set (e_children f)" for c
        using s we_child [OF we, of c] c fwd
        by (fastforce simp: child_ok_def same_shape_def linked_def)
      show "i \<noteq> ROOT_INODE \<Longrightarrow> name_ok (e_name f)"
        using s we_name [OF we] by (simp add: same_shape_def)
      show "attached t' f" if "i \<noteq> ROOT_INODE" "linked f"
        using s we_attached [OF we that(1)] that(2) fwd
        by (fastforce simp: attached_def same_shape_def linked_def)
      show "linked f \<Longrightarrow> t_paths t' (e_full_path f) = Some i"
        using s we_path [OF we] same_shape_linked [OF s] by (simp add: paths same_shape_def)
    qed
  qed
qed

lemma wf_upd_same_shape:
  assumes "wf_table t" and "\<And>e. t_inodes t i = Some e \<Longrightarrow> same_shape e (f e)"
  shows "wf_table (upd_inode i f t)"
proof (rule wf_same_shape [OF assms(1)])
  fix j show "rel_option same_shape (t_inodes t j) (t_inodes (upd_inode i f t) j)"
    using assms(2) by (cases "t_inodes t j") auto
qed simp_all

lemma wf_upd_eviction: "wf_table t \<Longrightarrow> wf_table (upd_eviction i f t)"
  unfolding upd_eviction_def by (rule wf_upd_same_shape) (auto simp: same_shape_def)

lemma wf_counters: "wf_table (t\<lparr>t_touch_counter := k\<rparr>) = wf_table t"
    "wf_table (t\<lparr>t_touch_enabled := b\<rparr>) = wf_table t"
  by (simp_all add: wf_table_def wf_root_def paths_ok_def wf_entry_def child_ok_def attached_def)

section \<open>Removing a closed set of entries\<close>

definition prune :: "nat set \<Rightarrow> dir_child list \<Rightarrow> dir_child list" where
  "prune S cs = filter (\<lambda>c. c_ino c \<notin> S) cs"

definition pruned_entry :: "nat set \<Rightarrow> inode_entry \<Rightarrow> inode_entry \<Rightarrow> bool" where
  "pruned_entry S e f \<longleftrightarrow> e_inode f = e_inode e \<and> e_parent f = e_parent e \<and> e_name f = e_name e \<and>
     e_full_path f = e_full_path e \<and> e_kind f = e_kind e \<and>
     (e_kind e \<noteq> Directory \<longrightarrow> e_nlink f = e_nlink e) \<and>
     e_dirty_generation f = e_dirty_generation e \<and> e_xet_hash f = e_xet_hash e \<and>
     e_pending_deletes f = e_pending_deletes e \<and> e_size f = e_size e \<and> e_eviction f = e_eviction e \<and>
     e_children f = prune S (e_children e) \<and> e_child_index f = index_of (prune S (e_children e))"

definition removes :: "nat set \<Rightarrow> inode_table \<Rightarrow> inode_table \<Rightarrow> bool" where
  "removes S t t' \<longleftrightarrow> t_next_inode t' = t_next_inode t \<and>
     (\<forall>i \<in> S. t_inodes t' i = None) \<and>
     (\<forall>i. i \<notin> S \<longrightarrow> rel_option (pruned_entry S) (t_inodes t i) (t_inodes t' i)) \<and>
     (\<forall>p. t_paths t' p = (case t_paths t p of None \<Rightarrow> None | Some i \<Rightarrow> if i \<in> S then None else Some i))"

definition closed_set :: "inode_table \<Rightarrow> nat set \<Rightarrow> bool" where
  "closed_set t S \<longleftrightarrow> (\<forall>i e c. i \<in> S \<longrightarrow> t_inodes t i = Some e \<longrightarrow> c \<in> set (e_children e) \<longrightarrow> c_ino c \<in> S)"

lemma wf_removes:
  assumes wf: "wf_table t" and rm: "removes S t t'" and cl: "closed_set t S" and root: "ROOT_INODE \<notin> S"
  shows "wf_table t'"
proof -
  have gone: "t_inodes t' i = None" if "i \<in> S" for i using rm that by (simp add: removes_def)
  have fwd: "\<exists>f. t_inodes t' i = Some f \<and> pruned_entry S e f" if "i \<notin> S" "t_inodes t i = Some e" for i e
    using rm that by (fastforce simp: removes_def option_rel_Some1)
  have bwd: "i \<notin> S \<and> (\<exists>e. t_inodes t i = Some e \<and> pruned_entry S e f)" if "t_inodes t' i = Some f" for i f
  proof -
    have "i \<notin> S" using gone that by auto
    then have "rel_option (pruned_entry S) (t_inodes t i) (Some f)" using rm that by (auto simp: removes_def)
    then show ?thesis using \<open>i \<notin> S\<close> by (auto simp: option_rel_Some2)
  qed
  show ?thesis
  proof (rule wf_tableI)
    have "dom (t_inodes t') \<subseteq> dom (t_inodes t)" using bwd by blast
    then show "finite (dom (t_inodes t'))" using wf_finite [OF wf] finite_subset by blast
    show "wf_root t'"
      using wf_wf_root [OF wf] fwd root by (fastforce simp: wf_root_def pruned_entry_def)
    show "paths_ok t'"
      unfolding paths_ok_def
    proof (intro allI impI)
      fix p i assume "t_paths t' p = Some i"
      then have "t_paths t p = Some i" "i \<notin> S"
        using rm by (auto simp: removes_def split: option.splits if_splits)
      then show "\<exists>e. t_inodes t' i = Some e \<and> e_full_path e = p \<and> linked e"
        using wf_paths_ok [OF wf] fwd by (fastforce simp: paths_ok_def pruned_entry_def linked_def)
    qed
    fix i f assume "t_inodes t' i = Some f"
    then obtain e where e: "t_inodes t i = Some e" and s: "pruned_entry S e f" and i: "i \<notin> S"
      using bwd by blast
    note we = wf_tableE [OF wf e]
    have l: "linked f \<longleftrightarrow> linked e" using s by (auto simp: pruned_entry_def linked_def)
    show "wf_entry t' i f"
    proof (rule wf_entryI)
      show "e_inode f = i" using s we_inode [OF we] by (simp add: pruned_entry_def)
      show "i < t_next_inode t'" using we_bound [OF we] rm by (simp add: removes_def)
      show "listing_ok f"
        using s we_listing [OF we]
        by (auto simp: listing_ok_def pruned_entry_def prune_def distinct_map_filter)
      show "child_ok t' i f c" if c: "c \<in> set (e_children f)" for c
      proof -
        have c': "c \<in> set (e_children e)" "c_ino c \<notin> S" using s c by (auto simp: pruned_entry_def prune_def)
        then obtain ce where ce: "t_inodes t (c_ino c) = Some ce" "e_parent ce = i" "e_name ce = c_name c"
          "e_full_path ce = child_path (e_full_path e) (c_name c)" "linked ce" "c_ino c \<noteq> ROOT_INODE"
          using we_child [OF we] by (auto simp: child_ok_def)
        obtain cf where "t_inodes t' (c_ino c) = Some cf" "pruned_entry S ce cf"
          using fwd [OF c'(2) ce(1)] by blast
        then show ?thesis
          using s ce by (auto simp: child_ok_def pruned_entry_def linked_def)
      qed
      show "i \<noteq> ROOT_INODE \<Longrightarrow> name_ok (e_name f)"
        using s we_name [OF we] by (simp add: pruned_entry_def)
      show "attached t' f" if r: "i \<noteq> ROOT_INODE" "linked f"
      proof -
        obtain pe where pe: "t_inodes t (e_parent e) = Some pe" "e_kind pe = Directory"
          "\<lparr>c_ino = e_inode e, c_name = e_name e\<rparr> \<in> set (e_children pe)"
          using we_attached [OF we r(1)] r(2) l by (auto simp: attached_def)
        have "e_inode e = i" by (rule we_inode [OF we])
        then have "e_parent e \<notin> S" using cl pe i by (fastforce simp: closed_set_def)
        then obtain pf where "t_inodes t' (e_parent e) = Some pf" "pruned_entry S pe pf"
          using fwd pe(1) by blast
        then show ?thesis
          using s pe i \<open>e_inode e = i\<close> by (auto simp: attached_def pruned_entry_def prune_def)
      qed
      show "t_paths t' (e_full_path f) = Some i" if "linked f"
        using s we_path [OF we] l that rm i by (simp add: removes_def pruned_entry_def)
    qed
  qed
qed

section \<open>Preservation by each operation\<close>

lemma wf_new_table: "wf_table (new_table b)"
  by (simp add: wf_table_def new_table_def wf_root_def root_entry_def paths_ok_def wf_entry_def
      listing_ok_def index_of_def linked_def ROOT_INODE_def)

lemma wf_bump_nlookup: "wf_table t \<Longrightarrow> wf_table (bump_nlookup i t)"
  by (simp add: bump_nlookup_def wf_upd_eviction)

lemma wf_drop_nlookup: "wf_table t \<Longrightarrow> wf_table (snd (drop_nlookup i n t))"
  by (simp add: drop_nlookup_def wf_upd_eviction split: option.split)

lemma wf_bump_open_handles: "wf_table t \<Longrightarrow> wf_table (bump_open_handles i t)"
  by (simp add: bump_open_handles_def wf_upd_eviction)

lemma wf_drop_open_handles: "wf_table t \<Longrightarrow> wf_table (drop_open_handles i t)"
  by (simp add: drop_open_handles_def wf_upd_eviction)

lemma wf_touch: "wf_table t \<Longrightarrow> wf_table (touch i t)"
  by (simp add: touch_def wf_upd_eviction wf_counters split: option.split)

lemma wf_mark_evict_pending: "wf_table t \<Longrightarrow> wf_table (mark_evict_pending i t)"
  by (simp add: mark_evict_pending_def wf_upd_eviction)

lemma wf_take_evict_pending: "wf_table t \<Longrightarrow> wf_table (snd (take_evict_pending i t))"
  by (simp add: take_evict_pending_def wf_upd_eviction split: option.split)

lemma wf_update_remote_file: "wf_table t \<Longrightarrow> wf_table (snd (update_remote_file i h g s m c t))"
  by (auto simp: update_remote_file_def same_shape_def split: option.split intro!: wf_upd_same_shape)

lemma wf_merge_remote_file: "wf_table t \<Longrightarrow> wf_table (snd (merge_remote_file i h s m t))"
  by (auto simp: merge_remote_file_def same_shape_def Let_def split: option.split
      intro!: wf_upd_same_shape)

lemma wf_invalidate_children: "wf_table t \<Longrightarrow> wf_table (invalidate_children i t)"
  by (auto simp: invalidate_children_def same_shape_def intro!: wf_upd_same_shape)

lemma wf_touch_parent: "wf_table t \<Longrightarrow> wf_table (touch_parent i now t)"
  by (auto simp: touch_parent_def same_shape_def intro!: wf_upd_same_shape)

lemma same_shape_set_dirty: "same_shape e (set_dirty e)"
  by (simp add: set_dirty_def same_shape_def)

lemma same_shape_apply_commit: "same_shape e (apply_commit h s g now e)"
  by (simp add: apply_commit_def clear_dirty_if_def same_shape_def Let_def split: prod.split)

lemma prune_none:
  assumes "\<And>c. c \<in> set cs \<Longrightarrow> c_ino c \<notin> S" shows "prune S cs = cs"
  using assms by (auto simp: prune_def filter_id_conv)

lemma pruned_refl:
  assumes "listing_ok e" "\<And>c. c \<in> set (e_children e) \<Longrightarrow> c_ino c \<notin> S"
  shows "pruned_entry S e e"
  using assms prune_none [of "e_children e" S] by (auto simp: pruned_entry_def listing_ok_def)

lemma child_of_parent:
  assumes "wf_table t" "t_inodes t p = Some pe" "c \<in> set (e_children pe)" "t_inodes t (c_ino c) = Some e"
  shows "e_parent e = p" "e_name e = c_name c" "linked e" "c_ino c \<noteq> ROOT_INODE"
    "e_full_path e = child_path (e_full_path pe) (c_name c)"
  using we_child [OF wf_tableE [OF assms(1,2)] assms(3)] assms(4) by (auto simp: child_ok_def)

lemma path_owner:
  assumes "wf_table t" "t_inodes t i = Some e" "t_paths t (e_full_path e) = Some j" "linked e"
  shows "j = i"
  using we_path [OF wf_tableE [OF assms(1,2)] assms(4)] assms(3) by simp

lemma path_entry:
  assumes "wf_table t" "t_paths t p = Some i"
  obtains e where "t_inodes t i = Some e" "e_full_path e = p" "linked e"
  using wf_paths_ok [OF assms(1)] assms(2) by (auto simp: paths_ok_def)

lemma removes_detach:
  assumes wf: "wf_table t" and e: "t_inodes t i = Some e" and l: "linked e" and ir: "i \<noteq> ROOT_INODE"
    and g: "\<And>p. t_inodes t (e_parent e) = Some p \<Longrightarrow> pruned_entry {i} p (g p)"
  shows "removes {i} t (upd_inode (e_parent e) g (remove_path (e_full_path e) (del_inode i t)))"
proof -
  note we = wf_tableE [OF wf e]
  have par: "e_parent e \<noteq> i"
  proof
    assume eq: "e_parent e = i"
    obtain pe where "t_inodes t (e_parent e) = Some pe" "\<lparr>c_ino = e_inode e, c_name = e_name e\<rparr> \<in> set (e_children pe)"
      using we_attached [OF we ir l] by (auto simp: attached_def)
    then have "child_ok t i e \<lparr>c_ino = i, c_name = e_name e\<rparr>"
      using we_child [OF we] e eq we_inode [OF we] by auto
    then have "e_full_path e = child_path (e_full_path e) (e_name e)" using e by (auto simp: child_ok_def)
    then show False using we_name [OF we ir] by (auto simp: child_path_def name_ok_def split: if_splits)
  qed
  have other: "pruned_entry {i} x x" if x: "t_inodes t j = Some x" "j \<noteq> e_parent e" for j x
  proof (rule pruned_refl)
    show "listing_ok x" by (rule we_listing [OF wf_tableE [OF wf x(1)]])
    show "c_ino c \<notin> {i}" if "c \<in> set (e_children x)" for c
      using child_of_parent(1) [OF wf x(1) that] e x(2) by auto
  qed
  have "rel_option (pruned_entry {i}) (t_inodes t j)
     (t_inodes (upd_inode (e_parent e) g (remove_path (e_full_path e) (del_inode i t))) j)" if "j \<noteq> i" for j
    using that par g other by (cases "t_inodes t j") auto
  moreover have "((t_paths t)(e_full_path e := None)) p =
      (case t_paths t p of None \<Rightarrow> None | Some j \<Rightarrow> if j \<in> {i} then None else Some j)" for p
    using we_path [OF we l] e by (auto split: option.split elim: path_entry [OF wf])
  ultimately show ?thesis
    using par by (simp add: removes_def)
qed

lemma closed_leaf:
  assumes "wf_table t" "t_inodes t i = Some e" "e_kind e \<noteq> Directory"
  shows "closed_set t {i}"
  using we_listing [OF wf_tableE [OF assms(1,2)]] assms(2,3) by (auto simp: closed_set_def listing_ok_def)

lemma linked_file: "e_kind e = File \<Longrightarrow> 0 < e_nlink e \<Longrightarrow> linked e"
  by (simp add: linked_def)

lemma nondir_not_root:
  assumes "wf_table t" "t_inodes t i = Some e" "e_kind e \<noteq> Directory" shows "i \<noteq> ROOT_INODE"
  using wf_wf_root [OF assms(1)] assms(2,3) by (auto simp: wf_root_def)

lemma pruned_remove_child:
  assumes "listing_ok p"
  shows "pruned_entry {i} p (remove_child_by_ino i p)"
    "pruned_entry {i} p ((remove_child_by_ino i p)\<lparr>e_children_loaded_at := la\<rparr>)"
    "e_kind p = Directory \<Longrightarrow> pruned_entry {i} p ((remove_child_by_ino i p)\<lparr>e_nlink := n\<rparr>)"
    "e_kind p = Directory \<Longrightarrow>
      pruned_entry {i} p ((remove_child_by_ino i p)\<lparr>e_children_loaded_at := la, e_nlink := n\<rparr>)"
  using remove_by_ino_children [OF assms, of i] by (simp_all add: pruned_entry_def prune_def)

lemma evict_if_safe_removes:
  assumes "wf_table t" and "fst (evict_if_safe i t)"
  shows "removes {i} t (snd (evict_if_safe i t))" "closed_set t {i}" "i \<noteq> ROOT_INODE"
proof -
  from assms(2) obtain e where e: "t_inodes t i = Some e" and ev: "evictable e"
    by (auto simp: evict_if_safe_def split: option.splits if_splits)
  then have k: "e_kind e = File" and l: "linked e" by (auto simp: evictable_def linked_def)
  show ir: "i \<noteq> ROOT_INODE" using nondir_not_root [OF assms(1) e] k by simp
  show "closed_set t {i}" using closed_leaf [OF assms(1) e] k by simp
  show "removes {i} t (snd (evict_if_safe i t))"
    using removes_detach [OF assms(1) e l ir] pruned_remove_child(2) we_listing [OF wf_tableE [OF assms(1)]]
    by (simp add: evict_if_safe_def e ev)
qed

lemma wf_evict_if_safe:
  assumes "wf_table t" shows "wf_table (snd (evict_if_safe i t))"
proof (cases "fst (evict_if_safe i t)")
  case True
  then show ?thesis using evict_if_safe_removes [OF assms True] by (auto intro: wf_removes [OF assms])
next
  case False
  then show ?thesis using assms by (auto simp: evict_if_safe_def split: option.splits if_splits)
qed

lemma wf_add_orphan:
  assumes wf: "wf_table t" and fresh: "t_inodes t i = None" and bound: "i < t_next_inode t"
    and e: "e_inode e = i" "e_kind e \<noteq> Directory" "e_nlink e = 0" "e_children e = []"
      "e_child_index e = Map.empty" "name_ok (e_name e)"
  shows "wf_table (t\<lparr>t_inodes := (t_inodes t)(i \<mapsto> e)\<rparr>)" (is "wf_table ?t")
proof (rule wf_tableI)
  have keep: "t_inodes ?t j = Some x" if "t_inodes t j = Some x" for j x using that fresh by auto
  show "finite (dom (t_inodes ?t))" using wf_finite [OF wf] by simp
  show "wf_root ?t" using wf_wf_root [OF wf] keep by (fastforce simp: wf_root_def)
  show "paths_ok ?t" using wf_paths_ok [OF wf] keep by (fastforce simp: paths_ok_def)
  have ir: "i \<noteq> ROOT_INODE" using wf_wf_root [OF wf] fresh by (auto simp: wf_root_def)
  fix j x assume j: "t_inodes ?t j = Some x"
  show "wf_entry ?t j x"
  proof (cases "j = i")
    case True
    then show ?thesis
      using j e bound by (auto simp: wf_entry_def listing_ok_def linked_def index_of_def)
  next
    case False
    then have jt: "t_inodes t j = Some x" using j by simp
    note we = wf_tableE [OF wf jt]
    show ?thesis
    proof (rule wf_entryI)
      show "child_ok ?t j x c" if "c \<in> set (e_children x)" for c
        using we_child [OF we that] keep by (fastforce simp: child_ok_def)
      show "attached ?t x" if "j \<noteq> ROOT_INODE" "linked x"
        using we_attached [OF we that] keep by (fastforce simp: attached_def)
    qed (use we in \<open>auto simp: wf_entry_def\<close>)
  qed
qed

lemma lookup_child_entry:
  assumes wf: "wf_table t" and pe: "t_inodes t p = Some pe" and ix: "e_child_index pe n = Some i"
  obtains e where "t_inodes t i = Some e" "e_parent e = p" "e_name e = n" "linked e" "i \<noteq> ROOT_INODE"
    "e_full_path e = child_path (e_full_path pe) n" "e_kind pe = Directory"
proof -
  note we = wf_tableE [OF wf pe]
  have "\<lparr>c_ino = i, c_name = n\<rparr> \<in> set (e_children pe)"
    using ix we_listing [OF we] by (auto simp: listing_ok_def index_of_Some)
  moreover from this have "e_kind pe = Directory" using we_listing [OF we] by (auto simp: listing_ok_def)
  ultimately show ?thesis using we_child [OF we] that by (fastforce simp: child_ok_def)
qed

lemma lookup_childE:
  assumes wf: "wf_table t" and l: "lookup_child t p n = Some e"
  obtains pe where "t_inodes t p = Some pe" "e_kind pe = Directory" "e_child_index pe n = Some (e_inode e)"
    "t_inodes t (e_inode e) = Some e" "e_parent e = p" "e_name e = n" "linked e" "e_inode e \<noteq> ROOT_INODE"
    "e_full_path e = child_path (e_full_path pe) n"
proof -
  obtain pe i where h: "t_inodes t p = Some pe" "e_child_index pe n = Some i" "t_inodes t i = Some e"
    using l by (auto simp: lookup_child_def bind_eq_Some_conv)
  moreover have "e_inode e = i" using we_inode [OF wf_tableE [OF wf h(3)]] .
  ultimately show ?thesis using that lookup_child_entry [OF wf h(1,2)] by (metis option.inject)
qed

lemma unlink_one_form:
  assumes wf: "wf_table t" and pe: "t_inodes t p = Some pe" and ix: "e_child_index pe n = Some i"
    and e: "t_inodes t i = Some e" and k: "e_kind e \<noteq> Directory"
  shows "unlink_one p n now t = (Some (True, e\<lparr>e_nlink := 0, e_ctime := now\<rparr>),
    (upd_inode p (remove_child_by_ino i) (remove_path (e_full_path e) (del_inode i t)))
      \<lparr>t_inodes := (t_inodes (upd_inode p (remove_child_by_ino i)
          (remove_path (e_full_path e) (del_inode i t))))(i \<mapsto> e\<lparr>e_nlink := 0, e_ctime := now\<rparr>)\<rparr>)"
proof -
  have lk: "e_full_path e = child_path (e_full_path pe) n" "linked e" "e_kind pe = Directory"
    using lookup_child_entry [OF wf pe ix] e by auto
  have "p \<noteq> i" using lk(3) k e pe by auto
  have "e_nlink e = 1"
    using lk(2) k we_listing [OF wf_tableE [OF wf e]] by (auto simp: linked_def listing_ok_def)
  moreover have "remove_child_by_name n pe = remove_child_by_ino i pe"
    using remove_by_name_ino we_listing [OF wf_tableE [OF wf pe]] ix by blast
  ultimately show ?thesis
    using \<open>p \<noteq> i\<close> pe ix e
    by (simp add: unlink_one_def lk(1) [symmetric] Let_def upd_inode_def remove_path_def del_inode_def
        fun_upd_twist)
qed

lemma wf_unlink_one:
  assumes wf: "wf_table t"
    and k: "\<And>pe i e. t_inodes t p = Some pe \<Longrightarrow> e_child_index pe n = Some i \<Longrightarrow>
      t_inodes t i = Some e \<Longrightarrow> e_kind e \<noteq> Directory"
  shows "wf_table (snd (unlink_one p n now t))"
proof (cases "Option.bind (t_inodes t p) (\<lambda>pe. e_child_index pe n)")
  case None
  then show ?thesis using wf by (auto simp: unlink_one_def split: option.split)
next
  case (Some i)
  then obtain pe where pe: "t_inodes t p = Some pe" and ix: "e_child_index pe n = Some i"
    by (auto simp: bind_eq_Some_conv)
  obtain e where e: "t_inodes t i = Some e" "e_parent e = p" "linked e" "i \<noteq> ROOT_INODE"
    using lookup_child_entry [OF wf pe ix] by blast
  note kk = k [OF pe ix e(1)] and we = wf_tableE [OF wf e(1)]
  let ?t = "upd_inode p (remove_child_by_ino i) (remove_path (e_full_path e) (del_inode i t))"
  have rm: "removes {i} t ?t"
    using removes_detach [OF wf e(1,3,4)] pruned_remove_child(1) we_listing [OF wf_tableE [OF wf]] e(2)
    by auto
  then have wf': "wf_table ?t"
    by (rule wf_removes [OF wf]) (use closed_leaf [OF wf e(1) kk] e(4) in auto)
  have "wf_table (?t\<lparr>t_inodes := (t_inodes ?t)(i \<mapsto> e\<lparr>e_nlink := 0, e_ctime := now\<rparr>)\<rparr>)"
    by (rule wf_add_orphan [OF wf'])
      (use rm kk we_inode [OF we] we_bound [OF we] we_name [OF we e(4)] we_listing [OF we] in
        \<open>auto simp: removes_def listing_ok_def index_of_def\<close>)
  then show ?thesis by (simp add: unlink_one_form [OF wf pe ix e(1) kk])
qed

lemma wf_remove_orphan:
  assumes wf: "wf_table t" and k: "\<And>e. t_inodes t i = Some e \<Longrightarrow> e_nlink e = 0 \<Longrightarrow> e_kind e \<noteq> Directory"
  shows "wf_table (snd (remove_orphan i t))"
proof (cases "\<exists>e. t_inodes t i = Some e \<and> e_nlink e = 0")
  case True
  then obtain e where e: "t_inodes t i = Some e" "e_nlink e = 0" by blast
  then have nl: "\<not> linked e" using k by (auto simp: linked_def)
  have "t_paths t p \<noteq> Some i" for p using nl e by (auto elim: path_entry [OF wf])
  then have "removes {i} t (snd (remove_orphan i t))"
    using e child_of_parent(3) [OF wf] nl we_listing [OF wf_tableE [OF wf]]
    by (auto simp: removes_def remove_orphan_def Let_def rel_option_iff split: option.split intro!: pruned_refl)
  then show ?thesis
    by (rule wf_removes [OF wf])
      (use closed_leaf [OF wf e(1)] k [OF e] nondir_not_root [OF wf e(1)] in auto)
qed (use wf in \<open>auto simp: remove_orphan_def split: option.split\<close>)

lemma index_of_snoc:
  assumes "n \<notin> c_name ` set cs"
  shows "index_of (cs @ [\<lparr>c_ino = i, c_name = n\<rparr>]) = (index_of cs)(n \<mapsto> i)"
proof -
  have "index_of cs n = None" using assms by (simp add: index_of_None)
  then show ?thesis by (auto simp: index_of_def fun_eq_iff map_add_def split: option.split)
qed

lemma fresh_ino:
  assumes "wf_table t" shows "t_inodes t (t_next_inode t) = None"
  using we_bound [OF wf_tableE [OF assms]] by (cases "t_inodes t (t_next_inode t)") auto

lemma path_name_free:
  assumes wf: "wf_table t" and pe: "t_inodes t p = Some pe"
    and free: "t_paths t (child_path (e_full_path pe) n) = None"
  shows "n \<notin> c_name ` set (e_children pe)"
proof
  assume "n \<in> c_name ` set (e_children pe)"
  then obtain c where c: "c \<in> set (e_children pe)" "c_name c = n" by auto
  then obtain ce where "t_inodes t (c_ino c) = Some ce" "linked ce"
    "e_full_path ce = child_path (e_full_path pe) n"
    using we_child [OF wf_tableE [OF wf pe]] by (auto simp: child_ok_def)
  then show False using we_path [OF wf_tableE [OF wf]] free by fastforce
qed

lemma wf_insert_fresh:
  assumes wf: "wf_table t" and pe: "t_inodes t p = Some pe" "e_kind pe = Directory"
    and e: "e_inode e = t_next_inode t" "e_parent e = p" "e_name e = n" "name_ok n"
      "e_full_path e = child_path (e_full_path pe) n" "e_children e = []" "e_child_index e = Map.empty"
      "e_kind e \<noteq> Directory \<Longrightarrow> e_nlink e = 1"
    and free: "t_paths t (child_path (e_full_path pe) n) = None"
    and t': "t_inodes t' = (t_inodes t)(t_next_inode t \<mapsto> e, p \<mapsto> pf)"
      "t_paths t' = (t_paths t)(e_full_path e \<mapsto> t_next_inode t)" "t_next_inode t < t_next_inode t'"
    and pf: "e_inode pf = e_inode pe" "e_parent pf = e_parent pe" "e_name pf = e_name pe"
      "e_full_path pf = e_full_path pe" "e_kind pf = e_kind pe"
      "e_children pf = e_children pe @ [\<lparr>c_ino = t_next_inode t, c_name = n\<rparr>]"
      "e_child_index pf = (e_child_index pe)(n \<mapsto> t_next_inode t)"
  shows "wf_table t'"
proof -
  let ?i = "t_next_inode t"
  have nf: "n \<notin> c_name ` set (e_children pe)" using path_name_free [OF wf pe(1) free] .
  have ip: "p \<noteq> ?i" using fresh_ino [OF wf] pe by auto
  have ir: "?i \<noteq> ROOT_INODE" using fresh_ino [OF wf] wf_wf_root [OF wf] by (auto simp: wf_root_def)
  have le: "linked e" using e(8) by (cases "e_kind e") (auto simp: linked_def)
  define ext where "ext x y \<longleftrightarrow> e_parent y = e_parent x \<and> e_name y = e_name x \<and>
      e_full_path y = e_full_path x \<and> e_kind y = e_kind x \<and> e_inode y = e_inode x \<and>
      linked y = linked x \<and> set (e_children x) \<subseteq> set (e_children y)" for x y
  have keep: "\<exists>y. t_inodes t' j = Some y \<and> ext x y" if x: "t_inodes t j = Some x" for j x
  proof (cases "j = p")
    case True
    then have "x = pe" using x pe by simp
    have "ext pe pf" using pf pe(2) by (auto simp: ext_def linked_def)
    then show ?thesis using True \<open>x = pe\<close> t'(1) by simp
  next
    case False
    then have "t_inodes t' j = Some x" using x t'(1) fresh_ino [OF wf] by auto
    moreover have "ext x x" by (simp add: ext_def)
    ultimately show ?thesis by blast
  qed
  have paths: "t_paths t' (e_full_path x) = t_paths t (e_full_path x)"
    if "t_inodes t j = Some x" "linked x" for j x
    using t'(2) free e(5) we_path [OF wf_tableE [OF wf that(1)] that(2)] by auto
  show ?thesis
  proof (rule wf_tableI)
    show "finite (dom (t_inodes t'))" using wf_finite [OF wf] t'(1) by simp
    show "wf_root t'" using wf_wf_root [OF wf] keep by (fastforce simp: wf_root_def ext_def)
    show "paths_ok t'"
      unfolding paths_ok_def
    proof (intro allI impI)
      fix q j assume "t_paths t' q = Some j"
      then consider "q = e_full_path e" "j = ?i" | "t_paths t q = Some j"
        unfolding t'(2) by (metis fun_upd_apply option.inject)
      then show "\<exists>x. t_inodes t' j = Some x \<and> e_full_path x = q \<and> linked x"
      proof cases
        case 1 then show ?thesis using t'(1) ip le by auto
      next
        case 2
        then obtain x where "t_inodes t j = Some x" "e_full_path x = q" "linked x"
          by (rule path_entry [OF wf])
        then show ?thesis using keep by (fastforce simp: ext_def)
      qed
    qed
    have childk: "child_ok t' j y c" if ck: "child_ok t j x c" and fp: "e_full_path y = e_full_path x" for j x y c
    proof -
      obtain ce where ce: "c_ino c \<noteq> ROOT_INODE" "t_inodes t (c_ino c) = Some ce" "e_parent ce = j"
        "e_name ce = c_name c" "e_full_path ce = child_path (e_full_path x) (c_name c)" "linked ce"
        using ck by (auto simp: child_ok_def)
      obtain cf where "t_inodes t' (c_ino c) = Some cf" "ext ce cf" using keep [OF ce(2)] by blast
      then show ?thesis using ce fp by (simp add: child_ok_def ext_def)
    qed
    have att: "attached t' y" if a: "attached t x" and eq: "e_parent y = e_parent x" "e_inode y = e_inode x"
      "e_name y = e_name x" for x y
    proof -
      obtain qe where "t_inodes t (e_parent x) = Some qe" "e_kind qe = Directory"
        "\<lparr>c_ino = e_inode x, c_name = e_name x\<rparr> \<in> set (e_children qe)"
        using a by (auto simp: attached_def)
      then show ?thesis using keep [of "e_parent x" qe] eq by (auto simp: attached_def ext_def)
    qed
    fix j y assume y: "t_inodes t' j = Some y"
    consider "j = ?i" "y = e" | "j = p" "y = pf" | "t_inodes t j = Some y" "j \<noteq> p"
      using y ip unfolding t'(1) by (metis fun_upd_apply option.inject)
    then show "wf_entry t' j y"
    proof cases
      case 1
      have "attached t' e"
        using t'(1) pf(5,6) pe(2) e(1,2,3) by (simp add: attached_def)
      then show ?thesis
        using 1 e t'(2,3) by (auto simp: wf_entry_def listing_ok_def index_of_def)
    next
      case 2
      note we = wf_tableE [OF wf pe(1)]
      have lst: "distinct (map c_name (e_children pe))" "distinct (map c_ino (e_children pe))"
        "e_child_index pe = index_of (e_children pe)"
        using we_listing [OF we] by (auto simp: listing_ok_def)
      have "?i \<notin> c_ino ` set (e_children pe)"
        using we_child [OF we] fresh_ino [OF wf] by (force simp: child_ok_def)
      then have lok: "listing_ok pf"
        using lst nf by (simp add: listing_ok_def pf pe(2) index_of_snoc)
      have new: "child_ok t' p pf \<lparr>c_ino = ?i, c_name = n\<rparr>"
        using t'(1) ip ir e le by (simp add: child_ok_def pf)
      show ?thesis unfolding 2
      proof (rule wf_entryI)
        show "e_inode pf = p" using we_inode [OF we] pf by simp
        show "p < t_next_inode t'" using we_bound [OF we] t'(3) by simp
        show "listing_ok pf" by (rule lok)
        show "child_ok t' p pf c" if "c \<in> set (e_children pf)" for c
          using that new childk [OF we_child [OF we] pf(4)] by (auto simp: pf(6))
        show "p \<noteq> ROOT_INODE \<Longrightarrow> name_ok (e_name pf)" using we_name [OF we] pf by simp
        show "attached t' pf" if "p \<noteq> ROOT_INODE" "linked pf"
          using we_attached [OF we that(1)] pe(2) att [of pe pf] pf by (simp add: linked_def)
        show "t_paths t' (e_full_path pf) = Some p"
          using we_path [OF we] paths [OF pe(1)] pe(2) pf by (simp add: linked_def)
      qed
    next
      case 3
      note we = wf_tableE [OF wf 3(1)]
      show ?thesis
      proof (rule wf_entryI)
        show "child_ok t' j y c" if "c \<in> set (e_children y)" for c
          using childk [OF we_child [OF we that]] by simp
        show "attached t' y" if "j \<noteq> ROOT_INODE" "linked y"
          using att [OF we_attached [OF we that]] by simp
        show "t_paths t' (e_full_path y) = Some j" if "linked y"
          using paths [OF 3(1) that] we_path [OF we that] by simp
      qed (use we t'(3) in \<open>auto simp: wf_entry_def\<close>)
    qed
  qed
qed

definition insert_ok :: "inode_table \<Rightarrow> nat \<Rightarrow> string \<Rightarrow> string \<Rightarrow> bool" where
  "insert_ok t par name path \<longleftrightarrow> name_ok name \<and> t_next_inode t < u64_max \<and>
     (\<exists>pe. t_inodes t par = Some pe \<and> e_kind pe = Directory \<and> path = child_path (e_full_path pe) name)"

lemma wf_insert_inode:
  assumes wf: "wf_table t" and ok: "insert_ok t par name path"
  shows "wf_table (snd (insert_inode par name path k sz mt hash md u g now t))"
proof (cases "t_paths t path")
  case (Some i)
  then show ?thesis
    using wf by (auto simp: insert_inode_def same_shape_def intro!: wf_upd_same_shape)
next
  case None
  from ok obtain pe where pe: "t_inodes t par = Some pe" "e_kind pe = Directory"
    and p: "path = child_path (e_full_path pe) name" and n: "name_ok name" "t_next_inode t < u64_max"
    by (auto simp: insert_ok_def)
  have ip: "par \<noteq> t_next_inode t" using fresh_ino [OF wf] pe by auto
  have "wrap64 (t_next_inode t + 1) = t_next_inode t + 1"
    using n(2) by simp
  then show ?thesis
    using None pe ip n
    by (intro wf_insert_fresh [OF wf pe, where e = "fresh_entry t par name path k sz mt hash md u g now"
          and n = name and pf = "(let pe' = add_child (t_next_inode t) name pe
            in if k = Directory then pe'\<lparr>e_nlink := wrap32 (e_nlink pe' + 1)\<rparr> else pe')"])
      (auto simp: insert_inode_def fresh_entry_def add_child_def p Let_def fun_upd_twist split: inode_kind.split)
qed

end
