(* ===== verification/Inode_Evict.thy ===== *)
theory Inode_Evict
  imports Inode_Inv
begin

text \<open>
  Eviction from the inode table: the batched eviction removes exactly the eligible entries among the
  requested ones and keeps the tree invariant; the LRU scan returns the oldest reclaimable files.
\<close>

section \<open>Batched eviction\<close>

definition eligible_inos :: "inode_table \<Rightarrow> nat list \<Rightarrow> nat set" where
  "eligible_inos t inos = {i \<in> set inos. \<exists>e. t_inodes t i = Some e \<and> batch_eligible e}"

lemma group_by_parent_eq:
  "group_by_parent t inos p =
    (if \<exists>i \<in> eligible_inos t inos. parent_of t i = p
     then Some {i \<in> eligible_inos t inos. parent_of t i = p} else None)"
proof (induction inos arbitrary: p rule: rev_induct)
  case Nil
  then show ?case by (simp add: group_by_parent_def eligible_inos_def)
next
  case (snoc x xs)
  show ?case
  proof (cases "\<exists>e. t_inodes t x = Some e \<and> batch_eligible e")
    case True
    then obtain e where e: "t_inodes t x = Some e" "batch_eligible e" by blast
    have el: "eligible_inos t (xs @ [x]) = insert x (eligible_inos t xs)"
      using e by (auto simp: eligible_inos_def)
    have px: "parent_of t x = e_parent e" using e by (simp add: parent_of_def)
    have "group_by_parent t (xs @ [x]) = (group_by_parent t xs)(e_parent e \<mapsto>
        (case group_by_parent t xs (e_parent e) of None \<Rightarrow> {x} | Some s \<Rightarrow> insert x s))"
      using e by (simp add: group_by_parent_def)
    moreover have "{i \<in> insert x (eligible_inos t xs). parent_of t i = e_parent e}
        = insert x {i \<in> eligible_inos t xs. parent_of t i = e_parent e}" using px by auto
    moreover have "{i \<in> insert x (eligible_inos t xs). parent_of t i = p}
        = {i \<in> eligible_inos t xs. parent_of t i = p}" if "p \<noteq> e_parent e" using px that by auto
    ultimately show ?thesis
      using px by (cases "p = e_parent e") (auto simp: el snoc)
  next
    case False
    then have "eligible_inos t (xs @ [x]) = eligible_inos t xs" by (auto simp: eligible_inos_def)
    moreover have "group_by_parent t (xs @ [x]) = group_by_parent t xs"
      using False by (auto simp: group_by_parent_def split: option.split)
    ultimately show ?thesis using snoc by simp
  qed
qed

text \<open>The state half way through a batch, when the pairs of parent and inode in \<open>D\<close> are gone.\<close>

definition drop_names :: "inode_table \<Rightarrow> (nat \<times> nat) set \<Rightarrow> nat \<Rightarrow> inode_entry \<Rightarrow> inode_entry" where
  "drop_names t D j e =
    e\<lparr>e_child_index := (\<lambda>n. if \<exists>i. (j, i) \<in> D \<and> name_in t i = n then None else e_child_index e n)\<rparr>"

definition half_evicted :: "(nat \<times> nat) set \<Rightarrow> inode_table \<Rightarrow> inode_table \<Rightarrow> bool" where
  "half_evicted D t s \<longleftrightarrow> t_next_inode s = t_next_inode t \<and>
     (\<forall>j. t_inodes s j = (if j \<in> snd ` D then None else map_option (drop_names t D j) (t_inodes t j))) \<and>
     (\<forall>q. t_paths s q = (if q \<in> path_in t ` snd ` D then None else t_paths t q))"

lemma half_evicted_step:
  assumes h: "half_evicted D t s" and i: "t_inodes t i = Some e" "i \<notin> snd ` D" and p: "p \<noteq> i"
  shows "fst (evict_one p i (ev, s)) = ev @ [i]"
    and "half_evicted (insert (p, i) D) t (snd (evict_one p i (ev, s)))"
proof -
  let ?e = "drop_names t D i e"
  have si: "t_inodes s i = Some ?e" using h i by (simp add: half_evicted_def)
  have nm: "e_name ?e = name_in t i" "e_full_path ?e = path_in t i"
    using i by (simp_all add: drop_names_def name_in_def path_in_def)
  then show "fst (evict_one p i (ev, s)) = ev @ [i]" by (simp add: evict_one_def si)
  have upd: "map_option (\<lambda>x. x\<lparr>e_child_index := (e_child_index x)(name_in t i := None)\<rparr>)
      (map_option (drop_names t D p) o') = map_option (drop_names t (insert (p, i) D) p) o'" for o'
  proof -
    have "(\<lambda>n. if \<exists>j. (p, j) \<in> D \<and> name_in t j = n then None else e_child_index x n)(name_in t i := None)
      = (\<lambda>n. if \<exists>j. (p, j) \<in> insert (p, i) D \<and> name_in t j = n then None else e_child_index x n)"
      for x :: inode_entry
      by (auto simp: fun_eq_iff)
    then show ?thesis by (cases o') (simp_all add: drop_names_def)
  qed
  have oth: "drop_names t (insert (p, i) D) j = drop_names t D j" if "j \<noteq> p" for j
    using that by (auto simp: drop_names_def fun_eq_iff)
  show "half_evicted (insert (p, i) D) t (snd (evict_one p i (ev, s)))"
  proof -
    have r: "snd (evict_one p i (ev, s)) = upd_inode p
        (\<lambda>x. x\<lparr>e_child_index := (e_child_index x)(name_in t i := None)\<rparr>)
        (remove_path (path_in t i) (del_inode i s))" by (simp add: evict_one_def si nm)
    have hi: "t_inodes s j = (if j \<in> snd ` D then None else map_option (drop_names t D j) (t_inodes t j))"
      and hp: "t_paths s q = (if q \<in> path_in t ` snd ` D then None else t_paths t q)" for j q
      using h by (auto simp: half_evicted_def)
    have "t_inodes (snd (evict_one p i (ev, s))) j = (if j \<in> snd ` insert (p, i) D then None
        else map_option (drop_names t (insert (p, i) D) j) (t_inodes t j))" for j
      using p upd [of "t_inodes t p"] oth by (cases "j = p"; cases "j = i") (simp_all add: r hi)
    then show ?thesis using h by (simp add: half_evicted_def r hp)
  qed
qed

lemma half_evicted_fold:
  assumes "half_evicted D t s" "distinct (map snd ps)" "snd ` set ps \<inter> snd ` D = {}"
    and "\<And>p i. (p, i) \<in> set ps \<Longrightarrow> p \<noteq> i \<and> t_inodes t i \<noteq> None"
  shows "fst (fold (\<lambda>(p, i). evict_one p i) ps (ev, s)) = ev @ map snd ps \<and>
    half_evicted (D \<union> set ps) t (snd (fold (\<lambda>(p, i). evict_one p i) ps (ev, s)))"
  using assms
proof (induction ps arbitrary: D s ev)
  case (Cons pi ps)
  obtain p i where pi: "pi = (p, i)" by (cases pi)
  obtain e where "t_inodes t i = Some e" "p \<noteq> i" "i \<notin> snd ` D"
    using Cons.prems(3,4) pi by force
  note st = half_evicted_step [OF Cons.prems(1) this(1,3,2)]
  obtain ev' s' where o: "evict_one p i (ev, s) = (ev', s')" by fastforce
  have "fst (fold (\<lambda>(p, i). evict_one p i) ps (ev', s')) = ev' @ map snd ps \<and>
    half_evicted (insert (p, i) D \<union> set ps) t (snd (fold (\<lambda>(p, i). evict_one p i) ps (ev', s')))"
    by (rule Cons.IH) (use Cons.prems st(2) [of ev] o pi in auto)
  then show ?case using st(1) [of ev] o pi by simp
qed simp

lemma fold_pairs:
  "fold (\<lambda>p st. fold (g p) (m p) st) ps st = fold (\<lambda>(p, i). g p i) (concat (map (\<lambda>p. map (Pair p) (m p)) ps)) st"
proof (induction ps arbitrary: st)
  case (Cons p ps)
  have "fold (g p) xs st = fold (\<lambda>(p, i). g p i) (map (Pair p) xs) st" for xs st
    by (induction xs arbitrary: st) auto
  with Cons show ?case by simp
qed simp

lemma fold_upd_distinct:
  assumes "distinct ps"
  shows "t_inodes (fold (\<lambda>p. upd_inode p (f p)) ps t) j =
      (if j \<in> set ps then map_option (f j) (t_inodes t j) else t_inodes t j)"
    and "t_paths (fold (\<lambda>p. upd_inode p (f p)) ps t) = t_paths t"
    and "t_next_inode (fold (\<lambda>p. upd_inode p (f p)) ps t) = t_next_inode t"
  using assms by (induction ps arbitrary: t) auto

definition batch_order :: "inode_table \<Rightarrow> nat list \<Rightarrow> nat list \<Rightarrow> (nat \<Rightarrow> nat list) \<Rightarrow> bool" where
  "batch_order t inos parents members \<longleftrightarrow> enumerates parents (group_by_parent t inos) \<and>
     (\<forall>p s. group_by_parent t inos p = Some s \<longrightarrow> distinct (members p) \<and> set (members p) = s)"

lemma batch_pairs:
  assumes "batch_order t inos parents members"
  defines "ps \<equiv> concat (map (\<lambda>p. map (Pair p) (members p)) parents)"
  shows "set ps = {(parent_of t i, i) | i. i \<in> eligible_inos t inos}" and "distinct (map snd ps)"
    and "set parents = parent_of t ` eligible_inos t inos"
proof -
  have par: "set parents = parent_of t ` eligible_inos t inos" "distinct parents"
    using assms(1) by (auto simp: batch_order_def enumerates_def dom_def group_by_parent_eq split: if_splits)
  have mem: "distinct (members p) \<and> set (members p) = {i \<in> eligible_inos t inos. parent_of t i = p}"
    if "p \<in> set parents" for p
  proof -
    have "group_by_parent t inos p = Some {i \<in> eligible_inos t inos. parent_of t i = p}"
      using that par by (auto simp: group_by_parent_eq)
    then show ?thesis using assms(1) by (auto simp: batch_order_def)
  qed
  show "set parents = parent_of t ` eligible_inos t inos" by (rule par)
  show "set ps = {(parent_of t i, i) | i. i \<in> eligible_inos t inos}"
    using par mem by (auto simp: ps_def)
  have "map snd ps = concat (map members parents)"
    by (simp add: ps_def map_concat comp_def)
  moreover have "distinct (concat (map members parents))"
    using par(2) mem
  proof (induction parents)
    case (Cons q qs)
    then have "set (members q) \<inter> set (concat (map members qs)) = {}" by auto
    with Cons show ?case by auto
  qed simp
  ultimately show "distinct (map snd ps)" by simp
qed

lemma eligible_entry:
  assumes wf: "wf_table t" and i: "i \<in> eligible_inos t inos"
  obtains e pe where "t_inodes t i = Some e" "e_kind e = File" "linked e" "e_parent e = parent_of t i"
    "t_inodes t (parent_of t i) = Some pe" "e_kind pe = Directory" "i \<noteq> ROOT_INODE"
    "e_child_index pe (name_in t i) = Some i" "e_full_path e = path_in t i" "parent_of t i \<noteq> i"
proof -
  from i obtain e where e: "t_inodes t i = Some e" "batch_eligible e" by (auto simp: eligible_inos_def)
  then have k: "e_kind e = File" "linked e" by (auto simp: batch_eligible_def linked_def)
  have ir: "i \<noteq> ROOT_INODE" using nondir_not_root [OF wf e(1)] k by simp
  note we = wf_tableE [OF wf e(1)]
  obtain pe where pe: "t_inodes t (e_parent e) = Some pe" "e_kind pe = Directory"
    "\<lparr>c_ino = i, c_name = e_name e\<rparr> \<in> set (e_children pe)"
    using we_attached [OF we ir k(2)] we_inode [OF we] by (auto simp: attached_def)
  have "e_child_index pe (e_name e) = Some i"
    using we_listing [OF wf_tableE [OF wf pe(1)]] pe(3) by (auto simp: listing_ok_def index_of_Some)
  moreover have "e_parent e \<noteq> i" using pe k e by auto
  ultimately show ?thesis
    using that e k pe ir by (simp add: parent_of_def name_in_def path_in_def)
qed

lemma half_to_removes:
  assumes wf: "wf_table t" and h: "half_evicted {(parent_of t i, i) | i. i \<in> eligible_inos t inos} t s"
  defines "S \<equiv> eligible_inos t inos"
  defines "f \<equiv> \<lambda>p e. e\<lparr>e_children := filter (\<lambda>c. c_ino c \<notin> {i \<in> S. parent_of t i = p}) (e_children e),
      e_children_loaded_at := None\<rparr>"
  assumes t': "\<And>j. t_inodes t' j = (if j \<in> parent_of t ` S then map_option (f j) (t_inodes s j) else t_inodes s j)"
    "t_paths t' = t_paths s" "t_next_inode t' = t_next_inode s"
  shows "removes S t t'"
proof -
  let ?D = "{(parent_of t i, i) | i. i \<in> S}"
  have D: "snd ` ?D = S" by force
  note h = h [folded S_def]
  have nodir: "j \<notin> parent_of t ` S" if "j \<in> S" for j
    using that S_def by (auto elim!: eligible_entry [OF wf])
  have kids: "c_ino c \<in> S \<longleftrightarrow> c_ino c \<in> {i \<in> S. parent_of t i = j}"
    if "t_inodes t j = Some e" "c \<in> set (e_children e)" for j e c
    using we_child [OF wf_tableE [OF wf that(1)] that(2)] by (auto simp: child_ok_def parent_of_def)
  have idx: "(\<lambda>n. if \<exists>i. (j, i) \<in> ?D \<and> name_in t i = n then None else e_child_index e n)
      = index_of (prune S (e_children e))" if e: "t_inodes t j = Some e" for j e
  proof
    fix n
    have lst: "distinct (map c_name (e_children e))" "e_child_index e = index_of (e_children e)"
      using we_listing [OF wf_tableE [OF wf e]] by (auto simp: listing_ok_def)
    have gone: "(\<exists>i \<in> S. parent_of t i = j \<and> name_in t i = n) \<longleftrightarrow> (\<exists>i \<in> S. e_child_index e n = Some i)"
    proof
      assume "\<exists>i \<in> S. parent_of t i = j \<and> name_in t i = n"
      then show "\<exists>i \<in> S. e_child_index e n = Some i"
        using e S_def by (metis eligible_entry [OF wf] option.inject)
    next
      assume "\<exists>i \<in> S. e_child_index e n = Some i"
      then obtain i where i: "i \<in> S" "e_child_index e n = Some i" by blast
      obtain x where "t_inodes t i = Some x" "e_parent x = j" "e_name x = n"
        using lookup_child_entry [OF wf e i(2)] by blast
      then show "\<exists>i \<in> S. parent_of t i = j \<and> name_in t i = n"
        using i by (intro bexI [of _ i]) (simp_all add: parent_of_def name_in_def)
    qed
    have "(\<exists>i. (j, i) \<in> ?D \<and> name_in t i = n) \<longleftrightarrow> (\<exists>i \<in> S. e_child_index e n = Some i)"
      using gone by auto
    then show "(if \<exists>i. (j, i) \<in> ?D \<and> name_in t i = n then None else e_child_index e n)
        = index_of (prune S (e_children e)) n"
      by (auto simp: prune_def index_of_filter [OF lst(1)] lst(2) split: option.split)
  qed
  have keep: "rel_option (pruned_entry S) (t_inodes t j) (t_inodes t' j)" if j: "j \<notin> S" for j
  proof (cases "t_inodes t j")
    case None
    then show ?thesis using h j t'(1) by (simp add: half_evicted_def D)
  next
    case (Some e)
    have sj: "t_inodes s j = Some (drop_names t ?D j e)" using h j Some by (simp add: half_evicted_def D)
    have ch: "filter (\<lambda>c. c_ino c \<notin> {i \<in> S. parent_of t i = j}) (e_children e) = prune S (e_children e)"
      unfolding prune_def using kids [OF Some] by (intro filter_cong) auto
    have "prune S (e_children e) = e_children e" if "j \<notin> parent_of t ` S"
      using kids [OF Some] that by (intro prune_none) auto
    then show ?thesis
      using sj t'(1) [of j] idx [OF Some] ch Some
      by (auto simp: pruned_entry_def drop_names_def f_def)
  qed
  have "t_paths t' q = (case t_paths t q of None \<Rightarrow> None | Some i \<Rightarrow> if i \<in> S then None else Some i)" for q
  proof -
    have "q \<in> path_in t ` S \<longleftrightarrow> (\<exists>i \<in> S. t_paths t q = Some i)"
    proof
      assume "q \<in> path_in t ` S"
      then show "\<exists>i \<in> S. t_paths t q = Some i"
        using S_def we_path [OF wf_tableE [OF wf]] by (metis eligible_entry [OF wf] imageE)
    next
      assume "\<exists>i \<in> S. t_paths t q = Some i"
      then obtain i where i: "i \<in> S" "t_paths t q = Some i" by blast
      then show "q \<in> path_in t ` S"
        by (metis path_entry [OF wf i(2)] path_in_def image_eqI option.simps(5))
    qed
    then show ?thesis using h t'(2) by (auto simp: half_evicted_def D split: option.split)
  qed
  moreover have "t_inodes t' i = None" if "i \<in> S" for i
    using h t'(1) [of i] that nodir by (simp add: half_evicted_def D)
  ultimately show ?thesis using keep h t'(3) by (simp add: removes_def half_evicted_def)
qed

lemma evict_batch_removes:
  assumes wf: "wf_table t" and ord: "batch_order t inos parents members"
  shows "removes (eligible_inos t inos) t (snd (evict_batch_if_safe parents members inos t))"
    and "set (fst (evict_batch_if_safe parents members inos t)) = eligible_inos t inos"
    and "distinct (fst (evict_batch_if_safe parents members inos t))"
proof -
  let ?S = "eligible_inos t inos"
  define ps where "ps = concat (map (\<lambda>p. map (Pair p) (members p)) parents)"
  note bp = batch_pairs [OF ord, folded ps_def]
  obtain ev s where r: "fold (\<lambda>p st. fold (evict_one p) (members p) st) parents ([], t) = (ev, s)"
    by fastforce
  have "drop_names t {} j = (\<lambda>e. e)" for j by (simp add: drop_names_def fun_eq_iff)
  then have D: "half_evicted {} t t" by (simp add: half_evicted_def option.map_ident)
  have side: "p \<noteq> i \<and> t_inodes t i \<noteq> None" if "(p, i) \<in> set ps" for p i
    using that bp(1) by (auto elim!: eligible_entry [OF wf])
  have h: "ev = map snd ps \<and> half_evicted (set ps) t s"
    using half_evicted_fold [OF D bp(2) _ side, of "[]"] r by (simp add: fold_pairs ps_def)
  define f where "f = (\<lambda>p (e :: inode_entry). e\<lparr>e_children := filter (\<lambda>c. c_ino c \<notin> {i \<in> ?S. parent_of t i = p}) (e_children e),
      e_children_loaded_at := None\<rparr>)"
  have dp: "distinct parents" using ord by (simp add: batch_order_def enumerates_def)
  have "fold (\<lambda>p. case group_by_parent t inos p of None \<Rightarrow> id | Some s \<Rightarrow> retain_children p s) parents s
      = fold (\<lambda>p. upd_inode p (f p)) parents s"
    using bp(3) by (intro fold_cong)
      (auto simp: group_by_parent_eq retain_children_def f_def)
  then have e: "evict_batch_if_safe parents members inos t = (ev, fold (\<lambda>p. upd_inode p (f p)) parents s)"
    by (simp add: evict_batch_if_safe_def r)
  show "removes ?S t (snd (evict_batch_if_safe parents members inos t))"
    unfolding e snd_conv
    by (rule half_to_removes [OF wf, of inos s])
      (use h bp(1,3) in \<open>auto simp: fold_upd_distinct [OF dp] f_def\<close>)
  show "set (fst (evict_batch_if_safe parents members inos t)) = ?S"
    using h bp(1) by (force simp: e)
  show "distinct (fst (evict_batch_if_safe parents members inos t))" using h bp(2) by (simp add: e)
qed

lemma closed_eligible:
  assumes "wf_table t" shows "closed_set t (eligible_inos t inos)" "ROOT_INODE \<notin> eligible_inos t inos"
proof -
  show "closed_set t (eligible_inos t inos)"
    unfolding closed_set_def
  proof (intro allI impI)
    fix i e c assume i: "i \<in> eligible_inos t inos" and e: "t_inodes t i = Some e" and c: "c \<in> set (e_children e)"
    have "e_kind e = File" using i e by (auto simp: eligible_inos_def batch_eligible_def)
    then show "c_ino c \<in> eligible_inos t inos"
      using we_listing [OF wf_tableE [OF assms e]] c by (auto simp: listing_ok_def)
  qed
  show "ROOT_INODE \<notin> eligible_inos t inos" by (auto elim: eligible_entry [OF assms])
qed

lemma wf_evict_batch_if_safe:
  assumes "wf_table t" "batch_order t inos parents members"
  shows "wf_table (snd (evict_batch_if_safe parents members inos t))"
  by (rule wf_removes [OF assms(1) evict_batch_removes(1) [OF assms] closed_eligible [OF assms(1)]])

section \<open>The LRU scan\<close>

definition lru_key :: "inode_entry \<Rightarrow> nat \<times> nat" where
  "lru_key e = (ev_last_touched (e_eviction e), e_inode e)"

lemma take_insort:
  assumes "sorted xs"
  shows "take k (insort x (take k xs)) = take k (insort x xs)"
  using assms
proof (induction xs arbitrary: k)
  case (Cons y ys)
  then show ?case by (cases k) (auto simp: take_Cons')
qed simp

lemma lru_heap_take:
  assumes "0 < cap" "sorted heap" "length heap \<le> cap"
  shows "lru_heap cap es heap = take cap (foldl (\<lambda>h e. insort (lru_key e) h) heap (filter reclaimable es))"
  using assms
proof (induction es arbitrary: heap)
  case (Cons e es)
  show ?case
  proof (cases "reclaimable e")
    case True
    let ?h = "insort (lru_key e) heap"
    have len: "length ?h \<le> Suc cap" using Cons.prems by simp
    then have cut: "(if length ?h > cap then butlast ?h else ?h) = take cap ?h"
      by (auto simp: butlast_conv_take le_Suc_eq simp del: length_insort)
    have "take cap (foldl (\<lambda>h e. insort (lru_key e) h) (take cap hh) xs)
        = take cap (foldl (\<lambda>h e. insort (lru_key e) h) hh xs)" if "sorted hh" for hh xs
      using that
    proof (induction xs arbitrary: hh)
      case (Cons x xs)
      have "take cap (foldl (\<lambda>h e. insort (lru_key e) h) (take cap hh) (x # xs))
        = take cap (foldl (\<lambda>h e. insort (lru_key e) h) (take cap (insort (lru_key x) (take cap hh))) xs)"
        using Cons.IH [of "insort (lru_key x) (take cap hh)"] Cons.prems
        by (simp add: sorted_insort sorted_wrt_take)
      also have "\<dots> = take cap (foldl (\<lambda>h e. insort (lru_key e) h) (insort (lru_key x) hh) xs)"
        using Cons by (simp add: take_insort sorted_insort)
      finally show ?case by simp
    qed simp
    then have "lru_heap cap es (take cap ?h)
        = take cap (foldl (\<lambda>h e. insort (lru_key e) h) ?h (filter reclaimable es))"
      using Cons.IH [of "take cap ?h"] Cons.prems by (simp add: sorted_insort sorted_wrt_take)
    moreover have "lru_heap cap (e # es) heap = lru_heap cap es (take cap ?h)"
      unfolding cut [symmetric] using True by (simp add: lru_key_def Let_def)
    ultimately show ?thesis using True by simp
  qed (use Cons in simp)
qed simp

lemma foldl_insort: "sorted h \<Longrightarrow> foldl (\<lambda>h e. insort (f e) h) h es = sort (h @ map f es)"
proof (induction es arbitrary: h)
  case Nil
  then show ?case by (simp add: sorted_sort_id)
next
  case (Cons e es)
  then have "foldl (\<lambda>h e. insort (f e) h) h (e # es) = sort (insort (f e) h @ map f es)"
    by (simp add: sorted_insort)
  also have "\<dots> = sort (h @ map f (e # es))"
    by (rule properties_for_sort) (simp_all add: ac_simps)
  finally show ?case .
qed

lemma lru_heap_oldest:
  assumes "0 < cap" shows "lru_heap cap es [] = take cap (sort (map lru_key (filter reclaimable es)))"
  using assms by (simp add: lru_heap_take foldl_insort)

lemma set_table_values:
  assumes "enumerates order (t_inodes t)"
  shows "set (table_values order t) = ran (t_inodes t)"
  using assms by (force simp: table_values_def enumerates_def List.map_filter_def ran_def dom_def)

lemma distinct_table_values:
  assumes "wf_table t" "enumerates order (t_inodes t)"
  shows "distinct (map e_inode (table_values order t))"
proof -
  have "map e_inode (table_values order t) = order" if "set order \<subseteq> dom (t_inodes t)" for order
    using that
  proof (induction order)
    case (Cons i js)
    then obtain e where e: "t_inodes t i = Some e" by auto
    then have "e_inode e = i" using we_inode [OF wf_tableE [OF assms(1)]] by simp
    then show ?case using Cons e by (simp add: table_values_def List.map_filter_simps)
  qed (simp add: table_values_def List.map_filter_simps)
  then show ?thesis using assms(2) by (simp add: enumerates_def)
qed

section \<open>Properties\<close>

lemma evict_batch_exact_parts:
  assumes "wf_table t" and "batch_order t inos parents members"
  shows "set (fst (evict_batch_if_safe parents members inos t)) =
      {i \<in> set inos. \<exists>e. t_inodes t i = Some e \<and> batch_eligible e}"
    and "wf_table (snd (evict_batch_if_safe parents members inos t))"
    and "removes (eligible_inos t inos) t (snd (evict_batch_if_safe parents members inos t))"
  using evict_batch_removes [OF assms] wf_evict_batch_if_safe [OF assms]
  by (simp_all add: eligible_inos_def)

text \<open>
  Batched eviction.  On a well-formed table, whatever the iteration order of the hash maps, the
  inodes returned are exactly the requested ones that are clean, unpinned, unreferenced, linked files
  with no pending rename; they are gone from both maps, every other entry keeps its identity, path,
  kind and its other children, and the table stays well-formed.
\<close>

theorem evict_batch_exact:
  assumes "wf_table t" and "batch_order t inos parents members"
  shows "(set (fst (evict_batch_if_safe parents members inos t)) =
      {i \<in> set inos. \<exists>e. t_inodes t i = Some e \<and> batch_eligible e}) \<and>
    (wf_table (snd (evict_batch_if_safe parents members inos t))) \<and>
    (removes (eligible_inos t inos) t (snd (evict_batch_if_safe parents members inos t)))"
  using evict_batch_exact_parts [OF assms] by blast

text \<open>A two-entry table with one clean unreferenced file under the root.\<close>

definition one_file :: inode_table where
  "one_file = snd (insert_inode 1 ''a'' ''a'' File 3 0 (Some ''h'') 420 0 0 7 (new_table True))"

lemma wf_one_file: "wf_table one_file"
  unfolding one_file_def
  by (rule wf_insert_inode [OF wf_new_table])
    (simp add: insert_ok_def name_ok_def new_table_def root_entry_def ROOT_INODE_def child_path_def u64_max_def)

lemma one_file_2: "\<exists>e. t_inodes one_file 2 = Some e \<and> batch_eligible e \<and> e_parent e = 1"
  by (simp add: one_file_def insert_inode_def new_table_def fresh_entry_def ROOT_INODE_def
      batch_eligible_def is_dirty_def eviction_default_def Let_def)

theorem evict_batch_exact_witness:
  "set (fst (evict_batch_if_safe [1] (\<lambda>p. [2]) [2, 9] one_file)) = {2}"
proof -
  have n9: "t_inodes one_file 9 = None"
    by (simp add: one_file_def insert_inode_def new_table_def ROOT_INODE_def Let_def)
  then have el: "eligible_inos one_file [2, 9] = {2}" using one_file_2 by (auto simp: eligible_inos_def)
  have "batch_order one_file [2, 9] [1] (\<lambda>p. [2])"
    using one_file_2
    by (auto simp: batch_order_def enumerates_def group_by_parent_eq el parent_of_def split: if_splits)
  then show ?thesis
    using evict_batch_exact [OF wf_one_file, of "[2, 9]" "[1]" "\<lambda>p. [2]"] el
    by (simp add: eligible_inos_def)
qed

lemma lru_candidates_oldest_parts:
  assumes "wf_table t" and "enumerates order (t_inodes t)" and "\<And>xs. mset (into_vec xs) = mset xs"
  defines "keys \<equiv> sort (map lru_key (filter reclaimable (table_values order t)))"
  shows "set (map fst (lru_candidates order into_vec t cap)) = set (map snd (take cap keys))"
    and "length (lru_candidates order into_vec t cap) = min cap (length keys)"
    and "\<forall>(i, p, n) \<in> set (lru_candidates order into_vec t cap).
      \<exists>e. t_inodes t i = Some e \<and> reclaimable e \<and> p = e_parent e \<and> n = e_name e"
    and "sorted (map (\<lambda>(i, p, n). ev_last_touched (e_eviction (the (t_inodes t i))))
      (lru_candidates order into_vec t cap))"
proof -
  let ?v = "table_values order t"
  define picks where "picks = sort_key fst (into_vec (take cap keys))"
  have key: "\<exists>e. t_inodes t i = Some e \<and> reclaimable e \<and> ts = ev_last_touched (e_eviction e)"
    if "(ts, i) \<in> set (take cap keys)" for ts i
  proof -
    have "(ts, i) \<in> lru_key ` {e \<in> set ?v. reclaimable e}"
      using in_set_takeD [OF that] by (simp add: keys_def)
    then obtain e where e: "e \<in> ran (t_inodes t)" "reclaimable e" "(ts, i) = lru_key e"
      using set_table_values [OF assms(2)] by auto
    then show ?thesis
      using we_inode [OF wf_tableE [OF assms(1)]] by (auto simp: ran_def lru_key_def)
  qed
  have mp: "mset picks = mset (take cap keys)" by (simp add: picks_def assms(3))
  then have sp: "set picks = set (take cap keys)" by (metis set_mset_mset)
  have total: "List.map_filter (\<lambda>(ts, i). map_option (\<lambda>e. (i, e_parent e, e_name e)) (t_inodes t i)) ps
      = map (\<lambda>(ts, i). (i, e_parent (the (t_inodes t i)), e_name (the (t_inodes t i)))) ps"
    if "set ps \<subseteq> set (take cap keys)" for ps
    using that
  proof (induction ps)
    case (Cons q ps)
    then obtain ts i where q: "q = (ts, i)" "(ts, i) \<in> set (take cap keys)" by (cases q) auto
    then obtain e where "t_inodes t i = Some e" using key by blast
    then show ?case using Cons q by (simp add: List.map_filter_simps)
  qed (simp add: List.map_filter_simps)
  have c: "lru_candidates order into_vec t cap
      = map (\<lambda>(ts, i). (i, e_parent (the (t_inodes t i)), e_name (the (t_inodes t i)))) picks"
  proof (cases "cap = 0")
    case True
    then show ?thesis using mp by (simp add: lru_candidates_def)
  next
    case False
    then show ?thesis
      using total [of picks] sp
      by (simp add: lru_candidates_def lru_heap_oldest keys_def picks_def)
  qed
  show "set (map fst (lru_candidates order into_vec t cap)) = set (map snd (take cap keys))"
    using sp by (auto simp: c image_image split_beta)
  show "length (lru_candidates order into_vec t cap) = min cap (length keys)"
  proof -
    have "length picks = length (take cap keys)" using mp by (rule mset_eq_length)
    then show ?thesis by (simp add: c min.commute)
  qed
  have pk: "\<exists>e. t_inodes t (snd q) = Some e \<and> reclaimable e \<and> fst q = ev_last_touched (e_eviction e)"
    if "q \<in> set picks" for q
    using key [of "fst q" "snd q"] that sp by simp
  show "\<forall>(i, p, n) \<in> set (lru_candidates order into_vec t cap).
      \<exists>e. t_inodes t i = Some e \<and> reclaimable e \<and> p = e_parent e \<and> n = e_name e"
  proof
    fix x assume "x \<in> set (lru_candidates order into_vec t cap)"
    then obtain q where q: "q \<in> set picks"
      and x: "x = (snd q, e_parent (the (t_inodes t (snd q))), e_name (the (t_inodes t (snd q))))"
      by (auto simp: c)
    obtain e where "t_inodes t (snd q) = Some e" "reclaimable e" using pk [OF q] by blast
    then show "case x of (i, p, n) \<Rightarrow> \<exists>e. t_inodes t i = Some e \<and> reclaimable e \<and> p = e_parent e \<and> n = e_name e"
      by (simp add: x)
  qed
  have "sorted (map fst picks)" by (simp add: picks_def)
  also have "map fst picks = map (\<lambda>(i, p, n). ev_last_touched (e_eviction (the (t_inodes t i))))
      (lru_candidates order into_vec t cap)"
  proof -
    have "fst q = ev_last_touched (e_eviction (the (t_inodes t (snd q))))" if "q \<in> set picks" for q
      using pk [OF that] by auto
    then show ?thesis by (simp add: c split_beta comp_def)
  qed
  finally show "sorted (map (\<lambda>(i, p, n). ev_last_touched (e_eviction (the (t_inodes t i))))
      (lru_candidates order into_vec t cap))" .
qed

text \<open>
  The LRU scan returns the oldest reclaimable files: never more than \<open>cap\<close>, exactly the
  \<open>cap\<close> smallest (recency, inode) keys among the clean, unpinned, linked files, in order of
  recency, each with the parent and name the kernel needs to drop its dentry.
\<close>

theorem lru_candidates_oldest:
  assumes "wf_table t" and "enumerates order (t_inodes t)" and "\<And>xs. mset (into_vec xs) = mset xs"
  defines "keys \<equiv> sort (map lru_key (filter reclaimable (table_values order t)))"
  shows "(set (map fst (lru_candidates order into_vec t cap)) = set (map snd (take cap keys))) \<and>
    (length (lru_candidates order into_vec t cap) = min cap (length keys)) \<and>
    (\<forall>(i, p, n) \<in> set (lru_candidates order into_vec t cap).
      \<exists>e. t_inodes t i = Some e \<and> reclaimable e \<and> p = e_parent e \<and> n = e_name e) \<and>
    (sorted (map (\<lambda>(i, p, n). ev_last_touched (e_eviction (the (t_inodes t i))))
      (lru_candidates order into_vec t cap)))"
  unfolding keys_def using lru_candidates_oldest_parts [OF assms(1-3)] by blast

theorem lru_candidates_oldest_witness:
  "length (lru_candidates [2, 1] rev one_file 4) = 1"
proof -
  have en: "enumerates [2, 1] (t_inodes one_file)"
    by (auto simp: enumerates_def one_file_def insert_inode_def new_table_def ROOT_INODE_def Let_def)
  have "filter reclaimable (table_values [2, 1] one_file) = [the (t_inodes one_file 2)]"
    by (simp add: one_file_def insert_inode_def new_table_def root_entry_def fresh_entry_def ROOT_INODE_def
        Let_def table_values_def List.map_filter_simps reclaimable_def is_dirty_def eviction_default_def
        add_child_def)
  then show ?thesis
    using lru_candidates_oldest [OF wf_one_file en, of rev 4] by simp
qed

end
