(* ===== verification/Inode_Tree.thy ===== *)
theory Inode_Tree
  imports Inode_Inv
begin

text \<open>
  Walks over the inode tree.  The contract of a worklist loop over a forest is the locale
  \<open>tree_loop\<close>: a loop that takes the head of its list, may stop there with a result, and otherwise
  pushes the children; \<open>forest_walk\<close> is the part of it that only follows the
  pushes.  It is interpreted on the searches, on the recursive removal and on the path rewriting of a
  rename, so that termination and the visited set are proved once.
\<close>

section \<open>Worklist loops over a forest\<close>

locale forest_walk =
  fixes good :: "'t \<Rightarrow> bool"
    and nodes :: "'t \<Rightarrow> nat set"
    and push :: "'t \<Rightarrow> nat \<Rightarrow> nat list"
    and rank :: "'t \<Rightarrow> nat \<Rightarrow> nat"
    and edges :: "'t \<Rightarrow> (nat \<times> nat) set"
  assumes finite_nodes: "good t \<Longrightarrow> finite (nodes t)"
    and push_nodes: "good t \<Longrightarrow> d \<in> nodes t \<Longrightarrow> set (push t d) \<subseteq> nodes t"
    and push_distinct: "good t \<Longrightarrow> d \<in> nodes t \<Longrightarrow> distinct (push t d)"
    and push_rank: "good t \<Longrightarrow> d \<in> nodes t \<Longrightarrow> c \<in> set (push t d) \<Longrightarrow> rank t d < rank t c"
    and push_parent: "good t \<Longrightarrow> a \<in> nodes t \<Longrightarrow> b \<in> nodes t \<Longrightarrow> c \<in> set (push t a) \<Longrightarrow>
      c \<in> set (push t b) \<Longrightarrow> a = b"
    and edges_iff: "good t \<Longrightarrow> (a, b) \<in> edges t \<longleftrightarrow> a \<in> nodes t \<and> b \<in> set (push t a)"
begin

lemma edge_rank: "good t \<Longrightarrow> (a, b) \<in> edges t \<Longrightarrow> rank t a < rank t b"
  using edges_iff push_rank by blast

lemma reach_rank: "good t \<Longrightarrow> (a, b) \<in> (edges t)\<^sup>* \<Longrightarrow> a = b \<or> rank t a < rank t b"
  by (erule rtrancl_induct) (auto dest: edge_rank)

lemma reach_nodes: "good t \<Longrightarrow> a \<in> nodes t \<Longrightarrow> (a, b) \<in> (edges t)\<^sup>* \<Longrightarrow> b \<in> nodes t"
  by (erule rtrancl_induct) (use edges_iff push_nodes in blast)+

lemma reach_up:
  assumes "good t" "(a, c) \<in> (edges t)\<^sup>*" "a \<noteq> c" "(d, c) \<in> edges t"
  shows "(a, d) \<in> (edges t)\<^sup>*"
proof -
  from assms(2,3) obtain b where "(a, b) \<in> (edges t)\<^sup>*" "(b, c) \<in> edges t" by (metis rtrancl.cases)
  moreover have "b = d" using push_parent edges_iff assms(1,4) \<open>(b, c) \<in> edges t\<close> by metis
  ultimately show ?thesis by simp
qed

definition reach :: "'t \<Rightarrow> nat list \<Rightarrow> nat set" where
  "reach t js = (edges t)\<^sup>* `` set js"

definition antichain :: "'t \<Rightarrow> nat list \<Rightarrow> bool" where
  "antichain t js \<longleftrightarrow> set js \<subseteq> nodes t \<and> distinct js \<and>
     (\<forall>a \<in> set js. \<forall>b \<in> set js. (a, b) \<in> (edges t)\<^sup>* \<longrightarrow> a = b)"

lemma antichain_single: "i \<in> nodes t \<Longrightarrow> antichain t [i]"
  by (simp add: antichain_def)

lemma antichain_step:
  assumes g: "good t" and a: "antichain t (d # js)"
  shows "antichain t (push t d @ js)"
proof -
  have d: "d \<in> nodes t" and js: "set js \<subseteq> nodes t" using a by (auto simp: antichain_def)
  have ed: "(d, c) \<in> edges t" if "c \<in> set (push t d)" for c using that d edges_iff [OF g] by blast
  have sib: "c = c'" if "c \<in> set (push t d)" "c' \<in> set (push t d)" "(c, c') \<in> (edges t)\<^sup>*" for c c'
  proof (rule ccontr)
    assume "c \<noteq> c'"
    then have "(c, d) \<in> (edges t)\<^sup>*" using reach_up [OF g that(3)] ed [OF that(2)] by blast
    then have "rank t c \<le> rank t d" using reach_rank [OF g] by fastforce
    then show False using edge_rank [OF g ed [OF that(1)]] by simp
  qed
  have down: "(d, b) \<in> (edges t)\<^sup>*" if "c \<in> set (push t d)" "(c, b) \<in> (edges t)\<^sup>*" for c b
    using ed [OF that(1)] that(2) by (rule converse_rtrancl_into_rtrancl)
  have nd: "d \<notin> set js" "distinct js" using a by (auto simp: antichain_def)
  have anti: "a = b" if "(a, b) \<in> (edges t)\<^sup>*" "a \<in> insert d (set js)" "b \<in> insert d (set js)" for a b
    using a that by (auto simp: antichain_def)
  have disj: "c \<notin> set js" if "c \<in> set (push t d)" for c
    using anti [of d c] down [OF that] nd(1) by auto
  have up: False if "c \<in> set (push t d)" "b \<in> set js" "(b, c) \<in> (edges t)\<^sup>*" for b c
  proof -
    have "b \<noteq> c" using disj that by blast
    then have "(b, d) \<in> (edges t)\<^sup>*" using reach_up [OF g that(3) _ ed [OF that(1)]] by blast
    then show False using anti [of b d] that(2) nd(1) by auto
  qed
  have dn: False if "c \<in> set (push t d)" "b \<in> set js" "(c, b) \<in> (edges t)\<^sup>*" for b c
    using anti [OF down [OF that(1,3)]] that(2) nd(1) by auto
  show ?thesis
    unfolding antichain_def
    using push_nodes [OF g d] js push_distinct [OF g d] nd(2) disj
    by (auto dest: sib up dn anti)
qed

lemma reach_step:
  assumes g: "good t" and a: "antichain t (d # js)"
  shows "reach t (d # js) = insert d (reach t (push t d @ js))" "d \<notin> reach t (push t d @ js)"
proof -
  have d: "d \<in> nodes t" using a by (simp add: antichain_def)
  have "(edges t)\<^sup>* `` {d} = insert d ((edges t)\<^sup>* `` set (push t d))"
  proof
    show "(edges t)\<^sup>* `` {d} \<subseteq> insert d ((edges t)\<^sup>* `` set (push t d))"
    proof
      fix x assume "x \<in> (edges t)\<^sup>* `` {d}"
      then have "(d, x) \<in> (edges t)\<^sup>*" by simp
      then show "x \<in> insert d ((edges t)\<^sup>* `` set (push t d))"
        using edges_iff [OF g] by (cases rule: converse_rtranclE) auto
    qed
    show "insert d ((edges t)\<^sup>* `` set (push t d)) \<subseteq> (edges t)\<^sup>* `` {d}"
      using edges_iff [OF g] d by (auto intro: converse_rtrancl_into_rtrancl)
  qed
  then show "reach t (d # js) = insert d (reach t (push t d @ js))"
    by (auto simp: reach_def)
  show "d \<notin> reach t (push t d @ js)"
  proof
    assume "d \<in> reach t (push t d @ js)"
    then obtain c where c: "c \<in> set (push t d) \<union> set js" "(c, d) \<in> (edges t)\<^sup>*" by (auto simp: reach_def)
    then consider "c \<in> set js" | "c \<in> set (push t d)" by auto
    then show False
    proof cases
      case 1
      then show False using a c(2) by (auto simp: antichain_def)
    next
      case 2
      then show False using reach_rank [OF g c(2)] push_rank [OF g d 2] by auto
    qed
  qed
qed

lemma finite_reach: "good t \<Longrightarrow> set js \<subseteq> nodes t \<Longrightarrow> finite (reach t js)"
  using reach_nodes finite_nodes by (metis (no_types, lifting) Image_singleton_iff ImageE finite_subset reach_def subsetD subsetI)

text \<open>Induction along the run of a work list.\<close>

lemma work_induct [consumes 2, case_names nil step]:
  assumes "good t" "antichain t js" "P []"
    and step: "\<And>d js. antichain t (d # js) \<Longrightarrow> P (push t d @ js) \<Longrightarrow> P (d # js)"
  shows "P js"
  using assms(2)
proof (induction "card (reach t js)" arbitrary: js rule: less_induct)
  case less
  show ?case
  proof (cases js)
    case Nil
    then show ?thesis using assms(3) by simp
  next
    case (Cons d js')
    have a: "antichain t (d # js')" using less.prems Cons by simp
    note rs = reach_step [OF assms(1) a] and a' = antichain_step [OF assms(1) a]
    have "finite (reach t (push t d @ js'))"
      using finite_reach [OF assms(1)] a' by (auto simp: antichain_def)
    then have "card (reach t (push t d @ js')) < card (reach t js)" using rs Cons by simp
    then show ?thesis using less.hyps [OF _ a'] step [OF a] Cons by simp
  qed
qed

end

locale tree_loop = forest_walk good nodes push rank edges
  for good :: "'t \<Rightarrow> bool" and nodes push rank edges +
  fixes halt :: "'t \<Rightarrow> nat \<Rightarrow> 's option"
    and loop :: "'t \<Rightarrow> nat list \<Rightarrow> nat set \<Rightarrow> 's option"
    and fin :: "'t \<Rightarrow> nat set \<Rightarrow> 's"
  assumes loop_nil: "good t \<Longrightarrow> D \<subseteq> nodes t \<Longrightarrow> loop t [] D = Some (fin t D)"
    and loop_step: "good t \<Longrightarrow> d \<in> nodes t \<Longrightarrow> D \<subseteq> nodes t \<Longrightarrow> d \<notin> D \<Longrightarrow>
      loop t (d # js) D =
        (case halt t d of Some r \<Rightarrow> Some r | None \<Rightarrow> loop t (push t d @ js) (insert d D))"
begin

theorem loop_result:
  assumes "good t" "antichain t js" "D \<subseteq> nodes t" "D \<inter> reach t js = {}"
  shows "(\<forall>x \<in> reach t js. halt t x = None) \<and> loop t js D = Some (fin t (D \<union> reach t js)) \<or>
    (\<exists>x \<in> reach t js. \<exists>r. halt t x = Some r \<and> loop t js D = Some r)"
  using assms
proof (induction "card (reach t js)" arbitrary: js D rule: less_induct)
  case less
  show ?case
  proof (cases js)
    case Nil
    then show ?thesis using loop_nil less.prems by (simp add: reach_def)
  next
    case (Cons d js')
    have g: "good t" and a: "antichain t (d # js')" using less.prems Cons by auto
    have d: "d \<in> nodes t" using a by (simp add: antichain_def)
    note rs = reach_step [OF g a]
    have dD: "d \<notin> D" using rs(1) less.prems(4) Cons by auto
    note st = loop_step [OF g d less.prems(3) dD, of js']
    show ?thesis
    proof (cases "halt t d")
      case (Some r)
      then show ?thesis using st rs(1) Cons by auto
    next
      case None
      have f: "finite (reach t (push t d @ js'))"
        using finite_reach [OF g] antichain_step [OF g a] by (auto simp: antichain_def)
      have "card (reach t (push t d @ js')) < card (reach t js)" using rs f Cons by simp
      moreover have "insert d D \<inter> reach t (push t d @ js') = {}" using rs less.prems(4) Cons by auto
      ultimately have "(\<forall>x \<in> reach t (push t d @ js'). halt t x = None) \<and>
          loop t (push t d @ js') (insert d D) = Some (fin t (insert d D \<union> reach t (push t d @ js'))) \<or>
        (\<exists>x \<in> reach t (push t d @ js'). \<exists>r. halt t x = Some r \<and>
          loop t (push t d @ js') (insert d D) = Some r)"
        by (intro less.hyps) (use antichain_step [OF g a] g d less.prems(3) in auto)
      moreover have "insert d D \<union> reach t (push t d @ js') = D \<union> reach t js" using rs(1) Cons by auto
      moreover have "loop t js D = loop t (push t d @ js') (insert d D)" using st None Cons by simp
      moreover have "reach t js = insert d (reach t (push t d @ js'))" using rs(1) Cons by simp
      ultimately show ?thesis using None by auto
    qed
  qed
qed

end

section \<open>The forest below an inode\<close>

definition child_edges :: "inode_table \<Rightarrow> (nat \<times> nat) set" where
  "child_edges t = {(p, c_ino c) | p pe c. t_inodes t p = Some pe \<and> c \<in> set (e_children pe)}"

definition subtree :: "inode_table \<Rightarrow> nat \<Rightarrow> nat set" where
  "subtree t i = (child_edges t)\<^sup>* `` {i}"

definition kids :: "inode_table \<Rightarrow> nat \<Rightarrow> nat list" where
  "kids t d = (case t_inodes t d of None \<Rightarrow> [] | Some e \<Rightarrow> map c_ino (e_children e))"

definition forest_on :: "nat set \<Rightarrow> inode_table \<Rightarrow> bool" where
  "forest_on R t \<longleftrightarrow> finite R \<and>
     (\<forall>p \<in> R. \<exists>pe. t_inodes t p = Some pe \<and> distinct (map c_ino (e_children pe)) \<and>
       (\<forall>c \<in> set (e_children pe). c_ino c \<in> R \<and> parent_of t (c_ino c) = p \<and>
         length (e_full_path pe) < length (path_in t (c_ino c))))"

definition edges_on :: "nat set \<Rightarrow> inode_table \<Rightarrow> (nat \<times> nat) set" where
  "edges_on R t = {(a, b). a \<in> R \<and> b \<in> set (kids t a)}"

lemma child_edges_kids: "(a, b) \<in> child_edges t \<longleftrightarrow> b \<in> set (kids t a)"
  by (cases "t_inodes t a") (auto simp: child_edges_def kids_def)

lemma kidsE:
  assumes "c \<in> set (kids t p)"
  obtains pe d where "t_inodes t p = Some pe" "d \<in> set (e_children pe)" "c_ino d = c"
  using assms by (cases "t_inodes t p") (auto simp: kids_def)

lemma kids_dom: "c \<in> set (kids t p) \<Longrightarrow> p \<in> dom (t_inodes t)"
  by (elim kidsE) auto

lemma forest_kids:
  assumes "forest_on R t" "d \<in> R"
  shows "set (kids t d) \<subseteq> R" "distinct (kids t d)"
    "c \<in> set (kids t d) \<Longrightarrow> length (path_in t d) < length (path_in t c)"
    "c \<in> set (kids t d) \<Longrightarrow> parent_of t c = d"
  using assms by (fastforce simp: forest_on_def kids_def path_in_def)+

lemma forest_node:
  assumes "forest_on R t" "d \<in> R" obtains e where "t_inodes t d = Some e"
  using assms by (auto simp: forest_on_def)

lemma forest_finite: "forest_on R t \<Longrightarrow> finite R"
  by (simp add: forest_on_def)

lemma reach_edges_on:
  assumes "forest_on R t" "js \<subseteq> R"
  shows "(edges_on R t)\<^sup>* `` js = (child_edges t)\<^sup>* `` js"
proof
  have "edges_on R t \<subseteq> child_edges t" by (auto simp: edges_on_def child_edges_kids)
  then show "(edges_on R t)\<^sup>* `` js \<subseteq> (child_edges t)\<^sup>* `` js" using rtrancl_mono by blast
  show "(child_edges t)\<^sup>* `` js \<subseteq> (edges_on R t)\<^sup>* `` js"
  proof
    fix x assume "x \<in> (child_edges t)\<^sup>* `` js"
    then obtain j where j: "j \<in> js" "(j, x) \<in> (child_edges t)\<^sup>*" by blast
    from j(2) have "(j, x) \<in> (edges_on R t)\<^sup>* \<and> x \<in> R"
    proof (induction rule: rtrancl_induct)
      case base
      then show ?case using j(1) assms(2) by auto
    next
      case (step y z)
      then have "(y, z) \<in> edges_on R t" by (auto simp: edges_on_def child_edges_kids)
      moreover have "z \<in> R" using step forest_kids(1) [OF assms(1)] by (auto simp: child_edges_kids)
      ultimately show ?case using step by (auto intro: rtrancl_into_rtrancl)
    qed
    then show "x \<in> (edges_on R t)\<^sup>* `` js" using j(1) by blast
  qed
qed

lemma child_path_longer: "name_ok n \<Longrightarrow> length p < length (child_path p n)"
  by (auto simp: child_path_def name_ok_def)

lemma wf_child_entry:
  assumes wf: "wf_table t" and p: "t_inodes t p = Some pe" and c: "c \<in> set (e_children pe)"
  obtains ce where "t_inodes t (c_ino c) = Some ce" "e_parent ce = p" "e_name ce = c_name c"
    "e_full_path ce = child_path (e_full_path pe) (c_name c)" "linked ce" "c_ino c \<noteq> ROOT_INODE"
    "name_ok (c_name c)"
proof -
  obtain ce where ce: "t_inodes t (c_ino c) = Some ce" "e_parent ce = p" "e_name ce = c_name c"
    "e_full_path ce = child_path (e_full_path pe) (c_name c)" "linked ce" "c_ino c \<noteq> ROOT_INODE"
    using we_child [OF wf_tableE [OF wf p] c] by (auto simp: child_ok_def)
  then show ?thesis using that we_name [OF wf_tableE [OF wf ce(1)]] by simp
qed

lemma wf_forest:
  assumes wf: "wf_table t" shows "forest_on (dom (t_inodes t)) t"
  unfolding forest_on_def
proof (intro conjI ballI)
  show "finite (dom (t_inodes t))" by (rule wf_finite [OF wf])
  fix p assume "p \<in> dom (t_inodes t)"
  then obtain pe where pe: "t_inodes t p = Some pe" by auto
  have "c_ino c \<in> dom (t_inodes t) \<and> parent_of t (c_ino c) = p \<and>
      length (e_full_path pe) < length (path_in t (c_ino c))" if c: "c \<in> set (e_children pe)" for c
    by (rule wf_child_entry [OF wf pe c]) (auto simp: parent_of_def path_in_def child_path_longer)
  then show "\<exists>pe. t_inodes t p = Some pe \<and> distinct (map c_ino (e_children pe)) \<and>
      (\<forall>c \<in> set (e_children pe). c_ino c \<in> dom (t_inodes t) \<and> parent_of t (c_ino c) = p \<and>
        length (e_full_path pe) < length (path_in t (c_ino c)))"
    using pe we_listing [OF wf_tableE [OF wf pe]] by (auto simp: listing_ok_def)
qed

section \<open>The searches end and are complete\<close>

lemma walk_step:
  assumes "forest_on R t" "d \<in> R"
  shows "walk_any hit t (d # js) =
    (case (if hit (the (t_inodes t d)) then Some True else None) of
      Some r \<Rightarrow> Some r | None \<Rightarrow> walk_any hit t (rev (kids t d) @ js))"
  by (rule forest_node [OF assms]) (simp add: kids_def)

interpretation walk: tree_loop
  "\<lambda>(R, t, hit). forest_on R t" "\<lambda>(R, t, hit). R" "\<lambda>(R, t, hit) d. rev (kids t d)"
  "\<lambda>(R, t, hit) d. length (path_in t d)" "\<lambda>(R, t, hit). edges_on R t"
  "\<lambda>(R, t, hit) d. if hit (the (t_inodes t d)) then Some True else None"
  "\<lambda>(R, t, hit) js D. walk_any hit t js" "\<lambda>_ _. False"
proof (unfold_locales, goal_cases)
  case (1 t) then show ?case by (cases t) (auto simp: forest_finite)
next
  case (2 t d) then show ?case by (cases t) (auto dest: forest_kids(1))
next
  case (3 t d) then show ?case by (cases t) (simp add: forest_kids(2))
next
  case (4 t d c) then show ?case by (cases t) (simp add: forest_kids(3))
next
  case (5 t a b c) then show ?case by (cases t) (auto dest: forest_kids(4))
next
  case (6 t a b) then show ?case by (cases t) (simp add: edges_on_def)
next
  case (7 t D) then show ?case by (cases t) simp
next
  case (8 t d D js) then show ?case by (cases t) (simp only: split_conv walk_step)
qed

lemma walk_any_reach:
  assumes f: "forest_on R t" and a: "walk.antichain (R, t, hit) js"
  shows "walk_any hit t js = Some (\<exists>d \<in> (child_edges t)\<^sup>* `` set js. hit (the (t_inodes t d)))"
proof -
  have sub: "set js \<subseteq> R" using a by (simp add: walk.antichain_def)
  have r: "walk.reach (R, t, hit) js = (child_edges t)\<^sup>* `` set js"
    using reach_edges_on [OF f sub] by (simp add: walk.reach_def)
  show ?thesis
  proof (cases "\<exists>d \<in> (child_edges t)\<^sup>* `` set js. hit (the (t_inodes t d))")
    case True
    then show ?thesis
      using walk.loop_result [of "(R, t, hit)" js "{}"] f a by (simp add: r) (metis option.distinct(1) option.inject)
  next
    case False
    then show ?thesis
      using walk.loop_result [of "(R, t, hit)" js "{}"] f a by (simp add: r)
  qed
qed

lemma subtree_self [simp]: "i \<in> subtree t i"
  by (simp add: subtree_def)

lemma wf_kids_reach:
  assumes wf: "wf_table t" and i: "t_inodes t i = Some e"
  shows "walk.antichain (dom (t_inodes t), t, hit) (rev (kids t i))"
    and "(child_edges t)\<^sup>* `` set (kids t i) = subtree t i - {i}"
proof -
  let ?T = "(dom (t_inodes t), t, hit)"
  have g: "case ?T of (R, t, hit) \<Rightarrow> forest_on R t" using wf_forest [OF wf] by simp
  have a: "walk.antichain ?T [i]" using i by (intro walk.antichain_single) auto
  show "walk.antichain ?T (rev (kids t i))" using walk.antichain_step [OF g a] by simp
  have sub: "set (kids t i) \<subseteq> dom (t_inodes t)"
    using forest_kids(1) [OF wf_forest [OF wf]] i by blast
  have r: "walk.reach ?T js = (child_edges t)\<^sup>* `` set js" if "set js \<subseteq> dom (t_inodes t)" for js
    using reach_edges_on [OF wf_forest [OF wf] that] by (simp add: walk.reach_def)
  show "(child_edges t)\<^sup>* `` set (kids t i) = subtree t i - {i}"
    using walk.reach_step [OF g a] r [of "[i]"] r [of "rev (kids t i)"] sub i
    by (auto simp: subtree_def)
qed

lemma subtree_dom:
  assumes "wf_table t" "t_inodes t i = Some e" shows "subtree t i \<subseteq> dom (t_inodes t)"
proof -
  have "walk.reach (dom (t_inodes t), t, \<lambda>_. False) [i] = subtree t i"
    using reach_edges_on [OF wf_forest [OF assms(1)], of "{i}"] assms(2)
    by (auto simp: walk.reach_def subtree_def)
  then show ?thesis
    using walk.reach_nodes [of "(dom (t_inodes t), t, \<lambda>_. False)" i] wf_forest [OF assms(1)] assms(2)
    by (auto simp: walk.reach_def)
qed

lemma subtree_ex:
  assumes "wf_table t" "t_inodes t i = Some e0" "S \<subseteq> subtree t i"
  shows "(\<exists>d \<in> S. P (the (t_inodes t d))) \<longleftrightarrow> (\<exists>d e. d \<in> S \<and> t_inodes t d = Some e \<and> P e)"
proof
  assume "\<exists>d \<in> S. P (the (t_inodes t d))"
  then obtain d where d: "d \<in> S" "P (the (t_inodes t d))" by blast
  then obtain e where "t_inodes t d = Some e" using subtree_dom [OF assms(1,2)] assms(3) by blast
  then show "\<exists>d e. d \<in> S \<and> t_inodes t d = Some e \<and> P e" using d by auto
next
  assume "\<exists>d e. d \<in> S \<and> t_inodes t d = Some e \<and> P e"
  then show "\<exists>d \<in> S. P (the (t_inodes t d))" by force
qed

lemma has_dirty_or_open_correct:
  assumes "wf_table t"
  shows "has_dirty_or_open_descendants t i =
    Some (\<exists>d e. d \<in> subtree t i \<and> t_inodes t d = Some e \<and> (is_dirty e \<or> ev_open_handles (e_eviction e) > 0))"
proof (cases "t_inodes t i")
  case None
  then have "subtree t i = {i}"
    by (auto simp: subtree_def child_edges_kids kids_def elim: converse_rtranclE)
  then show ?thesis using None by (simp add: has_dirty_or_open_descendants_def)
next
  case (Some e)
  have "walk.antichain (dom (t_inodes t), t, hit) [i]" for hit
    using Some by (intro walk.antichain_single) auto
  then have "has_dirty_or_open_descendants t i = Some (\<exists>d \<in> subtree t i.
      is_dirty (the (t_inodes t d)) \<or> ev_open_handles (e_eviction (the (t_inodes t d))) > 0)"
    using walk_any_reach [OF wf_forest [OF assms]]
    by (simp add: has_dirty_or_open_descendants_def subtree_def)
  also have "\<dots> = Some (\<exists>d e. d \<in> subtree t i \<and> t_inodes t d = Some e \<and>
      (is_dirty e \<or> ev_open_handles (e_eviction e) > 0))"
    by (subst subtree_ex [OF assms Some]) auto
  finally show ?thesis .
qed

lemma has_clean_correct:
  assumes "wf_table t"
  shows "has_clean_descendants t i =
    Some (\<exists>d e. d \<in> subtree t i \<and> d \<noteq> i \<and> t_inodes t d = Some e \<and> \<not> is_dirty e)"
proof (cases "t_inodes t i")
  case None
  then have "subtree t i = {i}"
    by (auto simp: subtree_def child_edges_kids kids_def elim: converse_rtranclE)
  then show ?thesis using None by (auto simp: has_clean_descendants_def)
next
  case (Some e)
  have "has_clean_descendants t i = walk_any (\<lambda>e. \<not> is_dirty e) t (rev (kids t i))"
    using Some by (simp add: has_clean_descendants_def kids_def)
  also have "\<dots> = Some (\<exists>d \<in> subtree t i - {i}. \<not> is_dirty (the (t_inodes t d)))"
    using walk_any_reach [OF wf_forest [OF assms] wf_kids_reach(1) [OF assms Some]]
      wf_kids_reach(2) [OF assms Some] by simp
  finally show ?thesis by (subst (asm) subtree_ex [OF assms Some]) auto
qed

section \<open>Removing a subtree\<close>

definition erase :: "nat set \<Rightarrow> inode_table \<Rightarrow> inode_table" where
  "erase D t = t\<lparr>t_inodes := (\<lambda>i. if i \<in> D then None else t_inodes t i),
     t_paths := (\<lambda>p. if p \<in> path_in t ` D then None else t_paths t p)\<rparr>"

lemma erase_simps [simp]:
  "t_inodes (erase D t) i = (if i \<in> D then None else t_inodes t i)"
  "t_paths (erase D t) p = (if p \<in> path_in t ` D then None else t_paths t p)"
  "t_next_inode (erase D t) = t_next_inode t"
  by (simp_all add: erase_def)

lemma erase_insert:
  assumes "t_inodes t d = Some e"
  shows "remove_path (e_full_path e) (del_inode d (erase D t)) = erase (insert d D) t"
  using assms
  by (auto simp: erase_def remove_path_def del_inode_def path_in_def fun_eq_iff)

lemma sweep_step:
  assumes "forest_on R t" "d \<in> R" "d \<notin> D"
  shows "remove_sweep (d # js) (erase D t) = remove_sweep (rev (kids t d) @ js) (erase (insert d D) t)"
proof -
  obtain e where e: "t_inodes t d = Some e" using assms by (auto elim: forest_node)
  then have "t_inodes (erase D t) d = Some e" using assms by simp
  then show ?thesis using e by (simp add: erase_insert kids_def)
qed

interpretation sweep: tree_loop
  "\<lambda>(R, t). forest_on R t" "\<lambda>(R, t). R" "\<lambda>(R, t) d. rev (kids t d)"
  "\<lambda>(R, t) d. length (path_in t d)" "\<lambda>(R, t). edges_on R t"
  "\<lambda>_ _. None" "\<lambda>(R, t) js D. remove_sweep js (erase D t)" "\<lambda>(R, t) D. erase D t"
proof (unfold_locales, goal_cases)
  case (1 t) then show ?case by (cases t) (auto simp: forest_finite)
next
  case (2 t d) then show ?case by (cases t) (auto dest: forest_kids(1))
next
  case (3 t d) then show ?case by (cases t) (simp add: forest_kids(2))
next
  case (4 t d c) then show ?case by (cases t) (simp add: forest_kids(3))
next
  case (5 t a b c) then show ?case by (cases t) (auto dest: forest_kids(4))
next
  case (6 t a b) then show ?case by (cases t) (simp add: edges_on_def)
next
  case (7 t D) then show ?case by (cases t) simp
next
  case (8 t d D js) then show ?case by (cases t) (simp add: sweep_step)
qed

lemma remove_sweep_reach:
  assumes f: "forest_on R t" and a: "sweep.antichain (R, t) js"
  shows "remove_sweep js t = Some (erase ((child_edges t)\<^sup>* `` set js) t)"
proof -
  have sub: "set js \<subseteq> R" using a by (simp add: sweep.antichain_def)
  have "sweep.reach (R, t) js = (child_edges t)\<^sup>* `` set js"
    using reach_edges_on [OF f sub] by (simp add: sweep.reach_def)
  moreover have "erase {} t = t" by (simp add: erase_def)
  ultimately show ?thesis using sweep.loop_result [of "(R, t)" js "{}"] f a by simp
qed

lemma forest_on_cong:
  assumes "forest_on R t" "\<And>d. d \<in> R \<Longrightarrow> t_inodes t' d = t_inodes t d"
  shows "forest_on R t'"
proof -
  have "parent_of t' d = parent_of t d" "path_in t' d = path_in t d" if "d \<in> R" for d
    using assms(2) that by (simp_all add: parent_of_def path_in_def)
  then show ?thesis using assms unfolding forest_on_def by (metis (no_types, lifting))
qed

lemma forest_on_subset:
  assumes f: "forest_on R t" and S: "S \<subseteq> R" and cl: "\<And>d. d \<in> S \<Longrightarrow> set (kids t d) \<subseteq> S"
  shows "forest_on S t"
  unfolding forest_on_def
proof (intro conjI ballI)
  show "finite S" using forest_finite [OF f] S finite_subset by blast
  fix p assume p: "p \<in> S"
  then obtain pe where pe: "t_inodes t p = Some pe" "distinct (map c_ino (e_children pe))"
    "\<forall>c \<in> set (e_children pe). parent_of t (c_ino c) = p \<and> length (e_full_path pe) < length (path_in t (c_ino c))"
    using f S unfolding forest_on_def by blast
  moreover have "c_ino c \<in> S" if "c \<in> set (e_children pe)" for c
    using cl [OF p] pe(1) that by (auto simp: kids_def)
  ultimately show "\<exists>pe. t_inodes t p = Some pe \<and> distinct (map c_ino (e_children pe)) \<and>
      (\<forall>c \<in> set (e_children pe). c_ino c \<in> S \<and> parent_of t (c_ino c) = p \<and>
        length (e_full_path pe) < length (path_in t (c_ino c)))" by blast
qed

lemma kid_parent: "wf_table t \<Longrightarrow> c \<in> set (kids t p) \<Longrightarrow> parent_of t c = p"
  using forest_kids(4) [OF wf_forest] kids_dom by blast

lemma subtree_closed: "d \<in> subtree t i \<Longrightarrow> set (kids t d) \<subseteq> subtree t i"
  by (auto simp: subtree_def child_edges_kids [symmetric] intro: rtrancl_into_rtrancl)

lemma subtree_up:
  assumes wf: "wf_table t" and d: "d \<in> subtree t i" "d \<noteq> i" and p: "d \<in> set (kids t p)"
  shows "p \<in> subtree t i"
proof -
  from d obtain b where b: "(i, b) \<in> (child_edges t)\<^sup>*" "(b, d) \<in> child_edges t"
    by (auto simp: subtree_def elim: rtranclE)
  have "b \<in> dom (t_inodes t)" "p \<in> dom (t_inodes t)"
    using b(2) p by (auto simp: child_edges_kids dest: kids_dom)
  then have "b = p"
    using forest_kids(4) [OF wf_forest [OF wf]] b(2) p by (metis child_edges_kids)
  then show ?thesis using b by (simp add: subtree_def)
qed

lemma subtree_path_le:
  assumes wf: "wf_table t" and "t_inodes t i \<noteq> None" and d: "d \<in> subtree t i" "d \<noteq> i"
  shows "length (path_in t i) < length (path_in t d)"
proof -
  have "walk.reach (dom (t_inodes t), t, \<lambda>_. False) [i] = subtree t i"
    using reach_edges_on [OF wf_forest [OF wf], of "{i}"] assms(2) by (auto simp: walk.reach_def subtree_def)
  then have "(i, d) \<in> (edges_on (dom (t_inodes t)) t)\<^sup>*" using d by (auto simp: walk.reach_def)
  then show ?thesis
    using walk.reach_rank [of "(dom (t_inodes t), t, \<lambda>_. False)" i d] wf_forest [OF wf] d by auto
qed

lemma subtree_linked:
  assumes wf: "wf_table t" and i: "t_inodes t i = Some e" "linked e" and d: "d \<in> subtree t i"
  obtains de where "t_inodes t d = Some de" "linked de" "e_full_path de = path_in t d"
proof -
  obtain de where de: "t_inodes t d = Some de" using subtree_dom [OF wf i(1)] d by blast
  have "linked de"
  proof (cases "d = i")
    case False
    then obtain b where "d \<in> set (kids t b)" using d by (auto simp: subtree_def child_edges_kids elim: rtranclE)
    then obtain be c where c: "t_inodes t b = Some be" "c \<in> set (e_children be)" "c_ino c = d"
      by (rule kidsE)
    show ?thesis using wf_child_entry [OF wf c(1,2)] c(3) de by (metis option.inject)
  qed (use i de in simp)
  then show ?thesis using that de by (simp add: path_in_def)
qed

lemma parent_outside:
  assumes wf: "wf_table t" and i: "t_inodes t i = Some e" "linked e" "i \<noteq> ROOT_INODE"
  obtains pe where "t_inodes t (e_parent e) = Some pe" "e_kind pe = Directory"
    "\<lparr>c_ino = i, c_name = e_name e\<rparr> \<in> set (e_children pe)" "i \<in> set (kids t (e_parent e))"
    "e_parent e \<notin> subtree t i" "e_full_path e = child_path (e_full_path pe) (e_name e)"
proof -
  note we = wf_tableE [OF wf i(1)]
  obtain pe where pe: "t_inodes t (e_parent e) = Some pe" "e_kind pe = Directory"
    "\<lparr>c_ino = i, c_name = e_name e\<rparr> \<in> set (e_children pe)"
    using we_attached [OF we i(3,2)] we_inode [OF we] by (auto simp: attached_def)
  then have k: "i \<in> set (kids t (e_parent e))" by (force simp: kids_def)
  have lt: "length (path_in t (e_parent e)) < length (path_in t i)"
    using forest_kids(3) [OF wf_forest [OF wf] _ k] pe(1) by blast
  have "e_parent e \<notin> subtree t i"
  proof
    assume a: "e_parent e \<in> subtree t i"
    have "t_inodes t i \<noteq> None" using i by simp
    then show False using subtree_path_le [OF wf _ a] lt by (cases "e_parent e = i") fastforce+
  qed
  moreover have "e_full_path e = child_path (e_full_path pe) (e_name e)"
    using child_of_parent(5) [OF wf pe(1,3)] i(1) by simp
  ultimately show ?thesis using that pe k by blast
qed

lemma remove_inode_removes:
  assumes wf: "wf_table t" and i: "t_inodes t i = Some e" "linked e" "i \<noteq> ROOT_INODE"
  obtains t' where "remove_inode i t = Some (Some e, t')" "removes (subtree t i) t t'"
proof -
  let ?S = "subtree t i" and ?p = "e_parent e"
  let ?t1 = "detach_from_parent ?p i (e_kind e) False (remove_path (e_full_path e) (del_inode i t))"
  obtain pe where pe: "t_inodes t ?p = Some pe" "e_kind pe = Directory" "i \<in> set (kids t ?p)" "?p \<notin> ?S"
    using parent_outside [OF wf i] by metis
  define pf where "pf = (if e_kind e = Directory then (remove_child_by_ino i pe)\<lparr>e_nlink := e_nlink pe - 1\<rparr>
      else remove_child_by_ino i pe)"
  have ip: "i \<noteq> ?p" using pe(4) by auto
  have t1: "t_inodes ?t1 = (t_inodes t)(i := None, ?p \<mapsto> pf)"
    "t_paths ?t1 = (t_paths t)(e_full_path e := None)" "t_next_inode ?t1 = t_next_inode t"
    using pe(1) ip by (simp_all add: detach_from_parent_def Let_def pf_def fun_upd_twist)
  have same: "t_inodes ?t1 d = t_inodes t d" if "d \<in> ?S - {i}" for d using that pe(4) t1(1) by auto
  have f: "forest_on (?S - {i}) t"
  proof (rule forest_on_subset [OF wf_forest [OF wf]])
    show "?S - {i} \<subseteq> dom (t_inodes t)" using subtree_dom [OF wf i(1)] by blast
    show "set (kids t d) \<subseteq> ?S - {i}" if "d \<in> ?S - {i}" for d
    proof -
      have "i \<notin> set (kids t d)"
      proof
        assume "i \<in> set (kids t d)"
        then have "d = ?p"
          using kid_parent [OF wf] i(1) by (fastforce simp: parent_of_def)
        then show False using that pe(4) by blast
      qed
      then show ?thesis using subtree_closed that by blast
    qed
  qed
  have f1: "forest_on (?S - {i}) ?t1" using forest_on_cong [OF f same] .
  have ks: "set (kids t i) \<subseteq> ?S - {i}" using wf_kids_reach(2) [OF wf i(1)] by auto
  have eq: "edges_on (?S - {i}) ?t1 = edges_on (?S - {i}) t"
    using same by (auto simp: edges_on_def kids_def)
  have anti: "sweep.antichain (?S - {i}, ?t1) (rev (kids t i))"
  proof -
    have w: "walk.antichain (dom (t_inodes t), t, \<lambda>_. False) (rev (kids t i))"
      by (rule wf_kids_reach(1) [OF wf i(1)])
    have "(edges_on (?S - {i}) t)\<^sup>* \<subseteq> (edges_on (dom (t_inodes t)) t)\<^sup>*"
      using subtree_dom [OF wf i(1)] by (intro rtrancl_mono) (auto simp: edges_on_def)
    then show ?thesis using w ks by (auto simp: walk.antichain_def sweep.antichain_def eq)
  qed
  have "(child_edges ?t1)\<^sup>* `` set (kids t i) = (child_edges t)\<^sup>* `` set (kids t i)"
    using reach_edges_on [OF f ks] reach_edges_on [OF f1 ks] eq by simp
  also have "\<dots> = ?S - {i}" by (rule wf_kids_reach(2) [OF wf i(1)])
  finally have "remove_sweep (rev (kids t i)) ?t1 = Some (erase (?S - {i}) ?t1)"
    using remove_sweep_reach [OF f1 anti] by simp
  then have res: "remove_inode i t = Some (Some e, erase (?S - {i}) ?t1)"
    using i(1) by (simp add: remove_inode_def kids_def)
  have lp: "listing_ok pe" using we_listing [OF wf_tableE [OF wf pe(1)]] .
  have inS: "c \<in> ?S \<longleftrightarrow> c = i \<and> j = ?p" if "c \<in> set (kids t j)" "j \<notin> ?S" for c j
  proof
    assume c: "c \<in> ?S"
    then have "c = i" using subtree_up [OF wf c _ that(1)] that(2) by blast
    moreover have "j \<in> dom (t_inodes t)" using that(1) by (rule kids_dom)
    ultimately show "c = i \<and> j = ?p"
      using forest_kids(4) [OF wf_forest [OF wf], of j i] that(1) i(1) by (simp add: parent_of_def)
  qed (simp add: pe)
  have keep: "rel_option (pruned_entry ?S) (t_inodes t j) (t_inodes (erase (?S - {i}) ?t1) j)" if j: "j \<notin> ?S" for j
  proof -
    have ji: "j \<noteq> i" using j by auto
    consider "t_inodes t j = None" | "j = ?p" | x where "t_inodes t j = Some x" "j \<noteq> ?p" by fastforce
    then show ?thesis
    proof cases
      case 1
      then show ?thesis using j ji t1(1) pe(1) by auto
    next
      case 2
      have "prune ?S (e_children pe) = prune {i} (e_children pe)"
        unfolding prune_def using inS [of _ ?p] pe(1,4)
        by (intro filter_cong refl) (auto simp: kids_def)
      then have "pruned_entry ?S pe pf"
        using pruned_remove_child(1,3) [OF lp, of i] pe(2) by (auto simp: pruned_entry_def pf_def)
      then show ?thesis using 2 j t1(1) pe(1) by simp
    next
      case (3 x)
      have "pruned_entry ?S x x"
        using inS [of _ j] j 3 we_listing [OF wf_tableE [OF wf 3(1)]]
        by (intro pruned_refl) (auto simp: kids_def)
      then show ?thesis using 3 j ji t1(1) by simp
    qed
  qed
  have own: "x \<in> path_in t ` ?S \<longleftrightarrow> (\<exists>k \<in> ?S. t_paths t x = Some k)" for x
  proof
    assume "x \<in> path_in t ` ?S"
    then obtain d where d: "d \<in> ?S" "x = path_in t d" by blast
    then show "\<exists>k \<in> ?S. t_paths t x = Some k"
      using we_path [OF wf_tableE [OF wf]] by (metis subtree_linked [OF wf i(1,2) d(1)])
  next
    assume "\<exists>k \<in> ?S. t_paths t x = Some k"
    then obtain k where k: "k \<in> ?S" "t_paths t x = Some k" by blast
    have "path_in t k = x" by (rule path_entry [OF wf k(2)]) (simp add: path_in_def)
    then show "x \<in> path_in t ` ?S" using k by blast
  qed
  have "path_in ?t1 ` (?S - {i}) = path_in t ` (?S - {i})"
    using same by (intro image_cong) (auto simp: path_in_def)
  moreover have "path_in t ` ?S = insert (e_full_path e) (path_in t ` (?S - {i}))"
  proof -
    have "?S = insert i (?S - {i})" by auto
    moreover have "path_in t i = e_full_path e" using i(1) by (simp add: path_in_def)
    ultimately show ?thesis by (metis image_insert)
  qed
  ultimately have "t_paths (erase (?S - {i}) ?t1) x = (if x \<in> path_in t ` ?S then None else t_paths t x)" for x
    by (simp add: t1(2))
  then have "t_paths (erase (?S - {i}) ?t1) x =
      (case t_paths t x of None \<Rightarrow> None | Some k \<Rightarrow> if k \<in> ?S then None else Some k)" for x
    using own by (auto split: option.split)
  moreover have "\<forall>k \<in> ?S. t_inodes (erase (?S - {i}) ?t1) k = None" using t1(1) pe(4) by auto
  ultimately have "removes ?S t (erase (?S - {i}) ?t1)"
    using keep t1(3) by (simp add: removes_def)
  then show ?thesis using res that by blast
qed

lemma closed_subtree: "closed_set t (subtree t i)"
  unfolding closed_set_def using subtree_closed by (fastforce simp: kids_def)

lemma root_not_below:
  assumes wf: "wf_table t" and i: "t_inodes t i = Some e" "i \<noteq> ROOT_INODE"
  shows "ROOT_INODE \<notin> subtree t i"
proof
  assume "ROOT_INODE \<in> subtree t i"
  then have "length (path_in t i) < length (path_in t ROOT_INODE)"
    using subtree_path_le [OF wf] i by fastforce
  then show False using wf_wf_root [OF wf] by (auto simp: wf_root_def path_in_def)
qed

lemma remove_inode_wf:
  assumes wf: "wf_table t" and i: "t_inodes t i = Some e" "linked e" "i \<noteq> ROOT_INODE"
  obtains t' where "remove_inode i t = Some (Some e, t')" "removes (subtree t i) t t'" "wf_table t'"
  using remove_inode_removes [OF assms] wf_removes [OF wf] closed_subtree root_not_below [OF wf i(1,3)]
  by metis

lemma removes_dom:
  assumes "removes S t t'" shows "dom (t_inodes t') = dom (t_inodes t) - S"
proof -
  have "t_inodes t' j = None \<longleftrightarrow> j \<in> S \<or> t_inodes t j = None" for j
  proof (cases "j \<in> S")
    case False
    then have "rel_option (pruned_entry S) (t_inodes t j) (t_inodes t' j)"
      using assms by (simp add: removes_def)
    then show ?thesis using False by (cases "t_inodes t j"; cases "t_inodes t' j") auto
  qed (use assms in \<open>simp add: removes_def\<close>)
  then show ?thesis by (simp add: dom_def set_eq_iff) blast
qed

section \<open>Properties\<close>

text \<open>
  C20: The recursive removal ends and removes exactly the subtree: every inode below the removed one is
  gone from both maps, every other entry keeps its identity, path and kind and loses exactly the
  removed children, and the table stays well-formed.
\<close>

theorem remove_exact_subtree:
  assumes "wf_table t" and "t_inodes t i = Some e" and "linked e" and "i \<noteq> ROOT_INODE"
  shows "\<exists>t'. remove_inode i t = Some (Some e, t') \<and> wf_table t' \<and> removes (subtree t i) t t' \<and>
    dom (t_inodes t') = dom (t_inodes t) - subtree t i"
proof -
  obtain t' where t': "remove_inode i t = Some (Some e, t')" "removes (subtree t i) t t'" "wf_table t'"
    by (rule remove_inode_wf [OF assms])
  then show ?thesis using removes_dom by blast
qed

text \<open>A directory with a file in it, under the root.\<close>

definition dir_with_file :: inode_table where
  "dir_with_file = snd (insert_inode 2 ''f'' ''d/f'' File 3 0 (Some ''h'') 420 0 0 7
     (snd (insert_inode 1 ''d'' ''d'' Directory 0 0 None 493 0 0 7 (new_table True))))"

lemmas sample_defs = insert_inode_def fresh_entry_def new_table_def root_entry_def ROOT_INODE_def Let_def
  add_child_def child_path_def eviction_default_def

lemma wf_dir_with_file: "wf_table dir_with_file"
  unfolding dir_with_file_def
  by (intro wf_insert_inode wf_new_table)
    (simp_all add: insert_ok_def name_ok_def sample_defs u64_max_def wrap64_def)

theorem remove_exact_subtree_witness:
  "\<exists>e t'. remove_inode 2 dir_with_file = Some (Some e, t') \<and> wf_table t' \<and> e_full_path e = ''d''"
proof -
  obtain e where e: "t_inodes dir_with_file 2 = Some e" "e_kind e = Directory" "e_full_path e = ''d''"
    by (auto simp: dir_with_file_def sample_defs wrap64_def)
  then show ?thesis
    using remove_exact_subtree [OF wf_dir_with_file e(1)] by (auto simp: linked_def ROOT_INODE_def)
qed

lemma descendant_searches_complete_parts:
  assumes "wf_table t"
  shows "has_dirty_or_open_descendants t i = Some (\<exists>d e. d \<in> subtree t i \<and> t_inodes t d = Some e \<and>
      (is_dirty e \<or> ev_open_handles (e_eviction e) > 0))"
    and "has_clean_descendants t i = Some (\<exists>d e. d \<in> subtree t i \<and> d \<noteq> i \<and> t_inodes t d = Some e \<and>
      \<not> is_dirty e)"
  by (rule has_dirty_or_open_correct [OF assms], rule has_clean_correct [OF assms])

text \<open>
  The two searches end and are complete: \<open>has_dirty_or_open_descendants\<close> answers whether the inode
  or any entry below it is dirty or open, \<open>has_clean_descendants\<close> whether some entry strictly below
  it is clean.
\<close>

theorem descendant_searches_complete:
  assumes "wf_table t"
  shows "(has_dirty_or_open_descendants t i = Some (\<exists>d e. d \<in> subtree t i \<and> t_inodes t d = Some e \<and>
      (is_dirty e \<or> ev_open_handles (e_eviction e) > 0))) \<and>
    (has_clean_descendants t i = Some (\<exists>d e. d \<in> subtree t i \<and> d \<noteq> i \<and> t_inodes t d = Some e \<and>
      \<not> is_dirty e))"
  using descendant_searches_complete_parts [OF assms] by blast

theorem descendant_searches_complete_witness:
  "has_clean_descendants dir_with_file 1 = Some True"
proof -
  obtain e r where e: "t_inodes dir_with_file 2 = Some e" "\<not> is_dirty e" "t_inodes dir_with_file 1 = Some r"
    "\<lparr>c_ino = 2, c_name = ''d''\<rparr> \<in> set (e_children r)"
    by (auto simp: dir_with_file_def sample_defs wrap64_def is_dirty_def)
  then have "(1, 2) \<in> child_edges dir_with_file" by (force simp: child_edges_def)
  then have "2 \<in> subtree dir_with_file 1" by (auto simp: subtree_def)
  then show ?thesis
    using descendant_searches_complete [OF wf_dir_with_file, of 1] e by auto
qed

end
