(* ===== verification/Inode_Rename.thy ===== *)
theory Inode_Rename
  imports Inode_Tree
begin

text \<open>
  The table side of a rename: \<open>move_child\<close> followed by \<open>update_subtree_paths\<close> gives a
  well-formed tree in which exactly the moved subtree has its path prefix replaced.
\<close>

section \<open>Rewriting the paths of a subtree\<close>

definition newpath :: "string \<Rightarrow> string \<Rightarrow> string \<Rightarrow> string" where
  "newpath P Q x = Q @ drop (length P) x"

definition relocate :: "string \<Rightarrow> string \<Rightarrow> nat set \<Rightarrow> inode_table \<Rightarrow> inode_table" where
  "relocate P Q D t = t\<lparr>
     t_inodes := (\<lambda>i. if i \<in> D
       then map_option (\<lambda>e. e\<lparr>e_full_path := newpath P Q (path_in t i)\<rparr>) (t_inodes t i) else t_inodes t i),
     t_paths := (\<lambda>x. if \<exists>d \<in> D. newpath P Q (path_in t d) = x
       then Some (THE d. d \<in> D \<and> newpath P Q (path_in t d) = x)
       else if x \<in> path_in t ` D then None else t_paths t x)\<rparr>"

definition relocatable :: "nat set \<Rightarrow> inode_table \<Rightarrow> string \<Rightarrow> string \<Rightarrow> bool" where
  "relocatable R t P Q \<longleftrightarrow> forest_on R t \<and> inj_on (\<lambda>d. newpath P Q (path_in t d)) R \<and>
     (\<forall>d \<in> R. \<forall>d' \<in> R. newpath P Q (path_in t d) \<noteq> path_in t d') \<and>
     (\<forall>d e c. d \<in> R \<longrightarrow> t_inodes t d = Some e \<longrightarrow> c \<in> set (e_children e) \<longrightarrow>
       child_path (newpath P Q (path_in t d)) (c_name c) = newpath P Q (path_in t (c_ino c)))"

lemma relocatableD:
  assumes "relocatable R t P Q"
  shows rl_forest: "forest_on R t"
    and rl_inj: "d \<in> R \<Longrightarrow> d' \<in> R \<Longrightarrow> newpath P Q (path_in t d) = newpath P Q (path_in t d') \<Longrightarrow> d = d'"
    and rl_new: "d \<in> R \<Longrightarrow> d' \<in> R \<Longrightarrow> newpath P Q (path_in t d) \<noteq> path_in t d'"
    and rl_child: "d \<in> R \<Longrightarrow> t_inodes t d = Some e \<Longrightarrow> c \<in> set (e_children e) \<Longrightarrow>
      child_path (newpath P Q (path_in t d)) (c_name c) = newpath P Q (path_in t (c_ino c))"
  using assms by (auto simp: relocatable_def inj_on_def)

lemma relocate_empty [simp]: "relocate P Q {} t = t"
  by (simp add: relocate_def)

lemma relocate_the:
  assumes "relocatable R t P Q" "D \<subseteq> R" "d \<in> D"
  shows "(THE d'. d' \<in> D \<and> newpath P Q (path_in t d') = newpath P Q (path_in t d)) = d"
  using assms(2,3) by (intro the_equality) (auto dest: rl_inj [OF assms(1)])

lemma relocate_paths:
  assumes "relocatable R t P Q" "D \<subseteq> R"
  shows "d \<in> D \<Longrightarrow> t_paths (relocate P Q D t) (newpath P Q (path_in t d)) = Some d"
    and "(\<And>d. d \<in> D \<Longrightarrow> newpath P Q (path_in t d) \<noteq> x) \<Longrightarrow>
      t_paths (relocate P Q D t) x = (if x \<in> path_in t ` D then None else t_paths t x)"
  using relocate_the [OF assms] by (auto simp: relocate_def)

lemma relocate_insert:
  assumes rl: "relocatable R t P Q" and D: "D \<subseteq> R" and d: "d \<in> R" "d \<notin> D" and e: "t_inodes t d = Some e"
  shows "insert_path (newpath P Q (path_in t d)) d
      (upd_inode d (\<lambda>e. e\<lparr>e_full_path := newpath P Q (path_in t d)\<rparr>)
        (remove_path (e_full_path e) (relocate P Q D t))) = relocate P Q (insert d D) t" (is "?l = ?r")
proof -
  have ins: "insert d D \<subseteq> R" using D d by simp
  have pe: "path_in t d = e_full_path e" using e by (simp add: path_in_def)
  have "t_inodes ?l j = t_inodes ?r j" for j
    using d(2) e by (auto simp: relocate_def)
  then have "t_inodes ?l = t_inodes ?r" by blast
  moreover have "t_paths ?l x = t_paths ?r x" for x
  proof (cases "\<exists>d' \<in> insert d D. newpath P Q (path_in t d') = x")
    case True
    then obtain d' where d': "d' \<in> insert d D" "newpath P Q (path_in t d') = x" by blast
    have r: "t_paths ?r x = Some d'" using relocate_paths(1) [OF rl ins d'(1)] d'(2) by simp
    show ?thesis
    proof (cases "d' = d")
      case True
      then show ?thesis using r d'(2) by simp
    next
      case False
      then have dD: "d' \<in> D" using d'(1) by simp
      have "x \<noteq> newpath P Q (path_in t d)"
        using rl_inj [OF rl, of d' d] d'(2) dD D d(1) False by auto
      moreover have "x \<noteq> e_full_path e"
        using rl_new [OF rl, of d' d] d'(2) dD D d(1) pe by auto
      ultimately show ?thesis using relocate_paths(1) [OF rl D dD] d'(2) r by simp
    qed
  next
    case False
    then have n: "\<And>d'. d' \<in> insert d D \<Longrightarrow> newpath P Q (path_in t d') \<noteq> x" by blast
    then have "x \<noteq> newpath P Q (path_in t d)" by blast
    then show ?thesis
      using relocate_paths(2) [OF rl ins n] relocate_paths(2) [OF rl D, of x] n pe by auto
  qed
  then have "t_paths ?l = t_paths ?r" by blast
  ultimately show ?thesis
    by (simp add: relocate_def insert_path_def upd_inode_def remove_path_def)
qed

lemma update_step:
  assumes rl: "relocatable R t P Q" and d: "d \<in> R" "d \<notin> D" and D: "D \<subseteq> R"
  shows "update_paths (map (\<lambda>i. (i, newpath P Q (path_in t i))) (d # js)) (relocate P Q D t) =
    update_paths (map (\<lambda>i. (i, newpath P Q (path_in t i))) (kids t d @ js)) (relocate P Q (insert d D) t)"
proof -
  obtain e where e: "t_inodes t d = Some e" using rl_forest [OF rl] d(1) by (rule forest_node)
  have re: "t_inodes (relocate P Q D t) d = Some e" using d(2) e by (simp add: relocate_def)
  have "map (\<lambda>c. (c_ino c, child_path (newpath P Q (path_in t d)) (c_name c))) (e_children e)
      = map (\<lambda>i. (i, newpath P Q (path_in t i))) (kids t d)"
    using rl_child [OF rl d(1) e] e by (simp add: kids_def)
  then show ?thesis using update_paths_simps(3) [OF re] relocate_insert [OF rl D d e] by simp
qed

interpretation rewrite: tree_loop
  "\<lambda>(R, t, P, Q). relocatable R t P Q" "\<lambda>(R, t, P, Q). R" "\<lambda>(R, t, P, Q) d. kids t d"
  "\<lambda>(R, t, P, Q) d. length (path_in t d)" "\<lambda>(R, t, P, Q). edges_on R t" "\<lambda>_ _. None"
  "\<lambda>(R, t, P, Q) js D. update_paths (map (\<lambda>i. (i, newpath P Q (path_in t i))) js) (relocate P Q D t)"
  "\<lambda>(R, t, P, Q) D. relocate P Q D t"
proof (unfold_locales, goal_cases)
  case (1 t) then show ?case by (cases t) (auto dest: rl_forest simp: forest_finite)
next
  case (2 t d) then show ?case by (cases t) (auto dest: rl_forest forest_kids(1))
next
  case (3 t d) then show ?case by (cases t) (auto dest: rl_forest forest_kids(2))
next
  case (4 t d c) then show ?case by (cases t) (auto dest: rl_forest forest_kids(3))
next
  case (5 t a b c) then show ?case by (cases t) (auto dest!: rl_forest dest: forest_kids(4))
next
  case (6 t a b) then show ?case by (cases t) (simp add: edges_on_def)
next
  case (7 t D) then show ?case by (cases t) simp
next
  case (8 t d D js)
  obtain R s P Q where t: "t = (R, s, P, Q)" by (cases t)
  show ?case using 8 update_step [of R s P Q d D js] by (simp add: t)
qed

lemma update_subtree_relocates:
  assumes rl: "relocatable (subtree t i) t (path_in t i) Q" and i: "t_inodes t i = Some e"
  shows "update_subtree_paths i Q t = Some (relocate (path_in t i) Q (subtree t i) t)"
proof -
  let ?T = "(subtree t i, t, path_in t i, Q)"
  have f: "forest_on (subtree t i) t" using rl by (simp add: relocatable_def)
  have r: "rewrite.reach ?T [i] = subtree t i"
    using reach_edges_on [OF f, of "{i}"] by (simp add: rewrite.reach_def subtree_def)
  have "rewrite.antichain ?T [i]" by (intro rewrite.antichain_single) simp
  then show ?thesis
    using rewrite.loop_result [of ?T "[i]" "{}"] rl r
    by (simp add: update_subtree_paths_def newpath_def)
qed

section \<open>Paths\<close>

lemma slash_split:
  assumes "xs @ CHR ''/'' # ys = us @ CHR ''/'' # vs" and "CHR ''/'' \<notin> set vs"
  shows "(xs = us \<and> ys = vs) \<or> (\<exists>r. us = xs @ CHR ''/'' # r)"
proof -
  from assms(1) obtain zs where "(xs = us @ zs \<and> zs @ CHR ''/'' # ys = CHR ''/'' # vs) \<or>
      (xs @ zs = us \<and> CHR ''/'' # ys = zs @ CHR ''/'' # vs)"
    by (auto simp: append_eq_append_conv2)
  then show ?thesis
  proof
    assume a: "xs = us @ zs \<and> zs @ CHR ''/'' # ys = CHR ''/'' # vs"
    then have "zs = []" using assms(2) by (cases zs) auto
    then show ?thesis using a by simp
  next
    assume a: "xs @ zs = us \<and> CHR ''/'' # ys = zs @ CHR ''/'' # vs"
    then show ?thesis by (cases zs) auto
  qed
qed

lemma prefix_closed:
  assumes wf: "wf_table t" and "t_paths t (Q @ CHR ''/'' # r) = Some j" and Q: "Q \<noteq> []"
  shows "\<exists>k. t_paths t Q = Some k"
  using assms(2)
proof (induction "length r" arbitrary: r j rule: less_induct)
  case less
  obtain e where e: "t_inodes t j = Some e" "e_full_path e = Q @ CHR ''/'' # r" "linked e"
    by (rule path_entry [OF wf less.prems])
  have jr: "j \<noteq> ROOT_INODE" using wf_wf_root [OF wf] e by (auto simp: wf_root_def)
  obtain pe where pe: "t_inodes t (e_parent e) = Some pe" "e_kind pe = Directory"
    and fp: "e_full_path e = child_path (e_full_path pe) (e_name e)"
    using parent_outside [OF wf e(1,3) jr] by metis
  have n: "CHR ''/'' \<notin> set (e_name e)" using we_name [OF wf_tableE [OF wf e(1)] jr] by (simp add: name_ok_def)
  have ne: "e_full_path pe \<noteq> []"
  proof
    assume "e_full_path pe = []"
    then have "e_name e = Q @ CHR ''/'' # r" using fp e(2) by (simp add: child_path_def)
    then have "CHR ''/'' \<in> set (e_name e)" by simp
    then show False using n by contradiction
  qed
  have own: "t_paths t (e_full_path pe) = Some (e_parent e)"
    using we_path [OF wf_tableE [OF wf pe(1)]] pe(2) by (simp add: linked_def)
  have "Q @ CHR ''/'' # r = e_full_path pe @ CHR ''/'' # e_name e"
    using fp e(2) ne by (simp add: child_path_def)
  from slash_split [OF this n] show ?case
  proof
    assume "Q = e_full_path pe \<and> r = e_name e"
    then show ?thesis using own by auto
  next
    assume "\<exists>r'. e_full_path pe = Q @ CHR ''/'' # r'"
    then obtain r' where r': "e_full_path pe = Q @ CHR ''/'' # r'" by blast
    then have "r = r' @ CHR ''/'' # e_name e"
      using \<open>Q @ CHR ''/'' # r = e_full_path pe @ CHR ''/'' # e_name e\<close> by simp
    then have "length r' < length r" by simp
    then show ?thesis using less.hyps [of r' "e_parent e"] own r' by simp
  qed
qed

lemma subtree_suffix:
  assumes wf: "wf_table t" and P: "path_in t i \<noteq> []" and d: "d \<in> subtree t i"
  shows "path_in t d = path_in t i \<or> (\<exists>r. path_in t d = path_in t i @ CHR ''/'' # r)"
proof -
  from d have "(i, d) \<in> (child_edges t)\<^sup>*" by (simp add: subtree_def)
  then show ?thesis
  proof (induction rule: rtrancl_induct)
    case (step y z)
    then have "z \<in> set (kids t y)" by (simp add: child_edges_kids)
    then obtain ye c where ye: "t_inodes t y = Some ye" "c \<in> set (e_children ye)" "c_ino c = z"
      by (rule kidsE)
    have "path_in t z = child_path (path_in t y) (c_name c)"
      using ye by (rule_tac wf_child_entry [OF wf ye(1,2)]) (auto simp: path_in_def)
    then show ?case using step.IH P by (auto simp: child_path_def)
  qed simp
qed

section \<open>Moving an entry\<close>

text \<open>The precondition that \<open>rename_validate\<close> establishes before the table is changed.\<close>

definition can_move :: "inode_table \<Rightarrow> nat \<Rightarrow> nat \<Rightarrow> string \<Rightarrow> nat \<Rightarrow> string \<Rightarrow> bool" where
  "can_move t i p n q m \<longleftrightarrow> name_ok m \<and>
     (\<exists>e pe qe. t_inodes t i = Some e \<and> linked e \<and> i \<noteq> ROOT_INODE \<and> e_parent e = p \<and> e_name e = n \<and>
       t_inodes t p = Some pe \<and> t_inodes t q = Some qe \<and> e_kind qe = Directory \<and> q \<notin> subtree t i \<and>
       t_paths t (child_path (e_full_path qe) m) = None)"

definition moved_table :: "nat \<Rightarrow> nat \<Rightarrow> string \<Rightarrow> nat \<Rightarrow> string \<Rightarrow> inode_table \<Rightarrow> inode_table" where
  "moved_table i p n q m t = move_child i p n q m (remove_path (path_in t i) t)"

text \<open>What \<open>move_child\<close> leaves of each entry.\<close>

definition moved_entry :: "inode_table \<Rightarrow> nat \<Rightarrow> nat \<Rightarrow> nat \<Rightarrow> string \<Rightarrow> nat \<Rightarrow> inode_entry \<Rightarrow> inode_entry \<Rightarrow> bool" where
  "moved_entry t i p q m j x y \<longleftrightarrow> e_inode y = e_inode x \<and> e_kind y = e_kind x \<and>
     e_full_path y = e_full_path x \<and> (e_kind x \<noteq> Directory \<longrightarrow> e_nlink y = e_nlink x) \<and>
     e_parent y = (if j = i then q else e_parent x) \<and> e_name y = (if j = i then m else e_name x) \<and>
     e_children y = filter (\<lambda>c. c_ino c \<noteq> i) (e_children x) @
       (if j = q then [\<lparr>c_ino = i, c_name = m\<rparr>] else []) \<and>
     e_child_index y = (if j = q then (index_of (filter (\<lambda>c. c_ino c \<noteq> i) (e_children x)))(m \<mapsto> i)
       else index_of (filter (\<lambda>c. c_ino c \<noteq> i) (e_children x)))"

lemma moved_table_entries:
  assumes wf: "wf_table t" and cm: "can_move t i p n q m"
  shows "rel_option (moved_entry t i p q m j) (t_inodes t j) (t_inodes (moved_table i p n q m t) j)"
    and "t_paths (moved_table i p n q m t) = (t_paths t)(path_in t i := None)"
    and "t_next_inode (moved_table i p n q m t) = t_next_inode t"
proof -
  show "t_paths (moved_table i p n q m t) = (t_paths t)(path_in t i := None)"
    and "t_next_inode (moved_table i p n q m t) = t_next_inode t"
    by (simp_all add: moved_table_def move_child_def Let_def)
  from cm obtain e pe qe where e: "t_inodes t i = Some e" "linked e" "i \<noteq> ROOT_INODE" "e_parent e = p" "e_name e = n"
    and pe: "t_inodes t p = Some pe" and qe: "t_inodes t q = Some qe" "e_kind qe = Directory" "q \<notin> subtree t i"
    by (auto simp: can_move_def)
  have c: "\<lparr>c_ino = i, c_name = n\<rparr> \<in> set (e_children pe)" "e_kind pe = Directory" "p \<notin> subtree t i"
    using parent_outside [OF wf e(1,2,3)] e(4,5) pe by (metis option.inject)+
  have ne: "p \<noteq> i" "q \<noteq> i" using c(3) qe(3) by auto
  have lok: "listing_ok x" if "t_inodes t k = Some x" for k x using we_listing [OF wf_tableE [OF wf that]] .
  have "e_child_index pe n = Some i" using lok [OF pe] c(1) by (auto simp: listing_ok_def index_of_Some)
  then have rm: "remove_child_by_name n pe = remove_child_by_ino i pe"
    using remove_by_name_ino lok [OF pe] by blast
  note rc = remove_by_ino_children [OF lok [OF pe], of i]
  have nokid: "filter (\<lambda>c. c_ino c \<noteq> i) (e_children x) = e_children x" if x: "t_inodes t k = Some x" "k \<noteq> p" for k x
  proof -
    have "c_ino c \<noteq> i" if "c \<in> set (e_children x)" for c
    proof
      assume "c_ino c = i"
      then have "i \<in> set (kids t k)" using x(1) that by (force simp: kids_def)
      then show False using kid_parent [OF wf] e(1,4) x(2) by (fastforce simp: parent_of_def)
    qed
    then show ?thesis by (simp add: filter_id_conv)
  qed
  have ix: "e_child_index x = index_of (e_children x)" if "t_inodes t k = Some x" for k x
    using lok [OF that] by (simp add: listing_ok_def)
  show "rel_option (moved_entry t i p q m j) (t_inodes t j) (t_inodes (moved_table i p n q m t) j)"
  proof (cases "t_inodes t j")
    case None
    then have "j \<noteq> i" "j \<noteq> p" "j \<noteq> q" using e(1) pe qe(1) by auto
    then show ?thesis using None by (simp add: moved_table_def move_child_def Let_def)
  next
    case (Some x)
    consider "j = i" | "j = p" "p = q" | "j = p" "p \<noteq> q" | "j = q" "p \<noteq> q" | "j \<noteq> i" "j \<noteq> p" "j \<noteq> q" by blast
    then show ?thesis
    proof cases
      case 1
      then show ?thesis
        using Some ne nokid [OF Some] ix [OF Some]
        by (simp add: moved_table_def move_child_def Let_def moved_entry_def)
    next
      case 2
      then have "x = pe" using pe Some by simp
      then show ?thesis
        using 2 Some ne rm rc
        by (simp add: moved_table_def move_child_def Let_def moved_entry_def add_child_def)
    next
      case 3
      then have "x = pe" using pe Some by simp
      then show ?thesis
        using 3 Some ne rm rc c(2)
        by (simp add: moved_table_def move_child_def Let_def moved_entry_def)
    next
      case 4
      then have "x = qe" using qe(1) Some by simp
      then show ?thesis
        using 4 Some ne nokid [OF Some] ix [OF Some] qe(2)
        by (simp add: moved_table_def move_child_def Let_def moved_entry_def add_child_def)
    next
      case 5
      then show ?thesis
        using Some ne nokid [OF Some] ix [OF Some]
        by (simp add: moved_table_def move_child_def Let_def moved_entry_def)
    qed
  qed
qed

lemma can_moveD:
  assumes wf: "wf_table t" and cm: "can_move t i p n q m"
  obtains e pe qe where "t_inodes t i = Some e" "linked e" "i \<noteq> ROOT_INODE" "e_parent e = p" "e_name e = n"
    "t_inodes t p = Some pe" "\<lparr>c_ino = i, c_name = n\<rparr> \<in> set (e_children pe)" "e_kind pe = Directory"
    "p \<notin> subtree t i" "t_inodes t q = Some qe" "e_kind qe = Directory" "q \<notin> subtree t i"
    "t_paths t (child_path (e_full_path qe) m) = None" "name_ok m" "path_in t i \<noteq> []"
    "\<And>d. d \<in> subtree t i \<Longrightarrow> i \<notin> set (kids t d)"
proof -
  from cm obtain e pe qe where e: "t_inodes t i = Some e" "linked e" "i \<noteq> ROOT_INODE" "e_parent e = p" "e_name e = n"
    and pe: "t_inodes t p = Some pe" and qe: "t_inodes t q = Some qe" "e_kind qe = Directory" "q \<notin> subtree t i"
      "t_paths t (child_path (e_full_path qe) m) = None" and m: "name_ok m"
    by (auto simp: can_move_def)
  have c: "\<lparr>c_ino = i, c_name = n\<rparr> \<in> set (e_children pe)" "e_kind pe = Directory" "p \<notin> subtree t i"
    "e_full_path e = child_path (e_full_path pe) n"
    using parent_outside [OF wf e(1,2,3)] e(4,5) pe by (metis option.inject)+
  have "path_in t i \<noteq> []"
    using c(4) we_name [OF wf_tableE [OF wf e(1)] e(3)] e(1,5)
    by (auto simp: path_in_def child_path_def name_ok_def split: if_splits)
  moreover have "i \<notin> set (kids t d)" if "d \<in> subtree t i" for d
  proof
    assume "i \<in> set (kids t d)"
    then have "d = p" using kid_parent [OF wf] e(1,4) by (fastforce simp: parent_of_def)
    then show False using that c(3) by simp
  qed
  ultimately show ?thesis using that e pe c qe m by blast
qed

lemma moved_lookup:
  assumes "wf_table t" "can_move t i p n q m"
  shows "t_inodes t j = Some x \<Longrightarrow> \<exists>y. t_inodes (moved_table i p n q m t) j = Some y \<and> moved_entry t i p q m j x y"
    and "t_inodes (moved_table i p n q m t) j = Some y \<Longrightarrow> \<exists>x. t_inodes t j = Some x \<and> moved_entry t i p q m j x y"
    and "path_in (moved_table i p n q m t) = path_in t"
    and "j \<noteq> i \<Longrightarrow> parent_of (moved_table i p n q m t) j = parent_of t j"
proof -
  note r = moved_table_entries(1) [OF assms]
  show "t_inodes t j = Some x \<Longrightarrow> \<exists>y. t_inodes (moved_table i p n q m t) j = Some y \<and> moved_entry t i p q m j x y"
    using r [of j] by (auto simp: option_rel_Some1)
  show "t_inodes (moved_table i p n q m t) j = Some y \<Longrightarrow> \<exists>x. t_inodes t j = Some x \<and> moved_entry t i p q m j x y"
    using r [of j] by (auto simp: option_rel_Some2)
  show "path_in (moved_table i p n q m t) = path_in t"
  proof
    fix k show "path_in (moved_table i p n q m t) k = path_in t k"
      using r [of k] by (cases rule: option.rel_cases) (auto simp: path_in_def moved_entry_def)
  qed
  show "j \<noteq> i \<Longrightarrow> parent_of (moved_table i p n q m t) j = parent_of t j"
    using r [of j] by (cases rule: option.rel_cases) (auto simp: parent_of_def moved_entry_def)
qed

lemma moved_children_in:
  assumes wf: "wf_table t" and cm: "can_move t i p n q m" and d: "d \<in> subtree t i"
    and x: "t_inodes t d = Some x" and y: "moved_entry t i p q m d x y"
  shows "e_children y = e_children x"
proof -
  have "q \<notin> subtree t i" "i \<notin> set (kids t d)" using can_moveD [OF wf cm] d by metis+
  then have "filter (\<lambda>c. c_ino c \<noteq> i) (e_children x) = e_children x" "d \<noteq> q"
    using x d by (auto simp: kids_def filter_id_conv)
  then show ?thesis using y by (simp add: moved_entry_def)
qed

lemma newpath_free:
  assumes wf: "wf_table t" and cm: "can_move t i p n q m" and d: "d \<in> subtree t i"
  shows "t_paths t (newpath (path_in t i) (child_path (path_in t q) m) (path_in t d)) = None"
proof (rule ccontr)
  let ?Q = "child_path (path_in t q) m"
  obtain qe where q: "t_inodes t q = Some qe" "t_paths t (child_path (e_full_path qe) m) = None" "name_ok m"
    "path_in t i \<noteq> []" using can_moveD [OF wf cm] by metis
  then have Q: "t_paths t ?Q = None" "?Q \<noteq> []" by (auto simp: path_in_def child_path_def name_ok_def)
  assume a: "t_paths t (newpath (path_in t i) ?Q (path_in t d)) \<noteq> None"
  then obtain k where k: "t_paths t (newpath (path_in t i) ?Q (path_in t d)) = Some k" by blast
  from subtree_suffix [OF wf q(4) d] show False
  proof
    assume "path_in t d = path_in t i"
    then show False using k Q(1) by (simp add: newpath_def)
  next
    assume "\<exists>r. path_in t d = path_in t i @ CHR ''/'' # r"
    then obtain r where "path_in t d = path_in t i @ CHR ''/'' # r" by blast
    then have "t_paths t (?Q @ CHR ''/'' # r) = Some k" using k by (simp add: newpath_def)
    then show False using prefix_closed [OF wf _ Q(2)] Q(1) by fastforce
  qed
qed

lemma moved_relocatable:
  assumes wf: "wf_table t" and cm: "can_move t i p n q m"
  defines "s \<equiv> moved_table i p n q m t" and "Q \<equiv> child_path (path_in t q) m"
  shows "forest_on (subtree t i) s" and "relocatable (subtree t i) s (path_in t i) Q" and "subtree s i = subtree t i"
proof -
  let ?S = "subtree t i"
  obtain e where e: "t_inodes t i = Some e" "linked e" and P: "path_in t i \<noteq> []"
    and nokid: "\<And>d. d \<in> ?S \<Longrightarrow> i \<notin> set (kids t d)" and m: "name_ok m" using can_moveD [OF wf cm] by metis
  note ml = moved_lookup [OF wf cm, folded s_def]
  have ft: "forest_on ?S t"
    by (rule forest_on_subset [OF wf_forest [OF wf]]) (use subtree_dom [OF wf e(1)] subtree_closed in auto)
  have ks: "kids s d = kids t d" if d: "d \<in> ?S" for d
  proof -
    obtain x where x: "t_inodes t d = Some x" using subtree_dom [OF wf e(1)] d by blast
    then obtain y where "t_inodes s d = Some y" "moved_entry t i p q m d x y" using ml(1) by blast
    then show ?thesis using moved_children_in [OF wf cm d x] x by (simp add: kids_def)
  qed
  show fs: "forest_on ?S s"
    unfolding forest_on_def
  proof (intro conjI ballI)
    show "finite ?S" by (rule forest_finite [OF ft])
    fix d assume d: "d \<in> ?S"
    then obtain x where x: "t_inodes t d = Some x" using subtree_dom [OF wf e(1)] by blast
    then obtain y where y: "t_inodes s d = Some y" "moved_entry t i p q m d x y" using ml(1) by blast
    have ch: "e_children y = e_children x" by (rule moved_children_in [OF wf cm d x y(2)])
    have "c_ino c \<in> ?S \<and> parent_of s (c_ino c) = d \<and> length (e_full_path y) < length (path_in s (c_ino c))"
      if c: "c \<in> set (e_children x)" for c
    proof -
      have k: "c_ino c \<in> set (kids t d)" using x c by (auto simp: kids_def)
      then have "c_ino c \<noteq> i" using nokid [OF d] by auto
      then show ?thesis
        using forest_kids [OF ft d] k ml(4) y(2) x by (auto simp: ml(3) moved_entry_def path_in_def)
    qed
    moreover have "distinct (map c_ino (e_children x))" using forest_kids(2) [OF ft d] x by (simp add: kids_def)
    ultimately show "\<exists>pe. t_inodes s d = Some pe \<and> distinct (map c_ino (e_children pe)) \<and>
        (\<forall>c \<in> set (e_children pe). c_ino c \<in> ?S \<and> parent_of s (c_ino c) = d \<and>
          length (e_full_path pe) < length (path_in s (c_ino c)))"
      using y(1) ch by simp
  qed
  have "edges_on ?S s = edges_on ?S t" using ks by (auto simp: edges_on_def)
  then have "(child_edges s)\<^sup>* `` {i} = (child_edges t)\<^sup>* `` {i}"
    using reach_edges_on [OF fs, of "{i}"] reach_edges_on [OF ft, of "{i}"] by simp
  then show "subtree s i = ?S" by (simp add: subtree_def)
  have pre: "\<exists>r. path_in t d = path_in t i @ r" if "d \<in> ?S" for d
    using subtree_suffix [OF wf P that] by auto
  show "relocatable ?S s (path_in t i) Q"
    unfolding relocatable_def ml(3)
  proof (intro conjI allI ballI impI inj_onI)
    show "forest_on ?S s" by (rule fs)
    fix d d' assume d: "d \<in> ?S" "d' \<in> ?S"
    obtain x where x: "t_inodes t d = Some x" "linked x" "e_full_path x = path_in t d"
      by (rule subtree_linked [OF wf e d(1)])
    obtain x' where x': "t_inodes t d' = Some x'" "linked x'" "e_full_path x' = path_in t d'"
      by (rule subtree_linked [OF wf e d(2)])
    have own: "t_paths t (path_in t d) = Some d" "t_paths t (path_in t d') = Some d'"
      using we_path [OF wf_tableE [OF wf x(1)] x(2)] we_path [OF wf_tableE [OF wf x'(1)] x'(2)] x(3) x'(3) by auto
    show "newpath (path_in t i) Q (path_in t d) \<noteq> path_in t d'"
      using newpath_free [OF wf cm d(1)] own(2) by (auto simp: Q_def)
    assume "newpath (path_in t i) Q (path_in t d) = newpath (path_in t i) Q (path_in t d')"
    then have "path_in t d = path_in t d'" using pre [OF d(1)] pre [OF d(2)] by (auto simp: newpath_def)
    then show "d = d'" using own by (metis option.inject)
  next
    fix d y c assume d: "d \<in> ?S" and y: "t_inodes s d = Some y" and c: "c \<in> set (e_children y)"
    obtain x where x: "t_inodes t d = Some x" "moved_entry t i p q m d x y" using ml(2) [OF y] by blast
    have c': "c \<in> set (e_children x)" using c moved_children_in [OF wf cm d x] by simp
    have "path_in t (c_ino c) = child_path (path_in t d) (c_name c)"
      by (rule wf_child_entry [OF wf x(1) c']) (simp add: path_in_def x(1))
    moreover have "Q \<noteq> []" using m by (auto simp: Q_def child_path_def name_ok_def)
    ultimately show "child_path (newpath (path_in t i) Q (path_in t d)) (c_name c)
        = newpath (path_in t i) Q (path_in t (c_ino c))"
      using pre [OF d] P by (auto simp: child_path_def newpath_def)
  qed
qed

text \<open>The table after the rename, entry by entry.\<close>

definition renamed_entry :: "inode_table \<Rightarrow> nat \<Rightarrow> nat \<Rightarrow> nat \<Rightarrow> string \<Rightarrow> nat \<Rightarrow> inode_entry \<Rightarrow> inode_entry \<Rightarrow> bool" where
  "renamed_entry t i p q m j x z \<longleftrightarrow> (\<exists>y. moved_entry t i p q m j x y \<and>
     z = (if j \<in> subtree t i
          then y\<lparr>e_full_path := newpath (path_in t i) (child_path (path_in t q) m) (path_in t j)\<rparr> else y))"

definition renames :: "inode_table \<Rightarrow> nat \<Rightarrow> nat \<Rightarrow> nat \<Rightarrow> string \<Rightarrow> inode_table \<Rightarrow> bool" where
  "renames t i p q m t' \<longleftrightarrow> t_next_inode t' = t_next_inode t \<and>
     (\<forall>j. rel_option (renamed_entry t i p q m j) (t_inodes t j) (t_inodes t' j)) \<and>
     (\<forall>d \<in> subtree t i. t_paths t' (newpath (path_in t i) (child_path (path_in t q) m) (path_in t d)) = Some d) \<and>
     (\<forall>x k. t_paths t' x = Some k \<and> k \<notin> subtree t i \<longleftrightarrow> t_paths t x = Some k \<and> k \<notin> subtree t i) \<and>
     (\<forall>x k. t_paths t' x = Some k \<and> k \<in> subtree t i \<longrightarrow>
       x = newpath (path_in t i) (child_path (path_in t q) m) (path_in t k))"

text \<open>What an entry knows of its content; no step of a rename of the table changes it.\<close>

definition e_data :: "inode_entry \<Rightarrow> inode_kind \<times> nat \<times> string option \<times> string list" where
  "e_data e = (e_kind e, e_dirty_generation e, e_xet_hash e, e_pending_deletes e)"

definition same_data :: "inode_table \<Rightarrow> inode_table \<Rightarrow> bool" where
  "same_data t t' \<longleftrightarrow> (\<forall>j. map_option e_data (t_inodes t' j) = map_option e_data (t_inodes t j))"

lemma same_data_trans: "same_data t t' \<Longrightarrow> same_data t' t'' \<Longrightarrow> same_data t t''"
  by (simp add: same_data_def)

lemma same_data_refl [simp]: "same_data t t"
  by (simp add: same_data_def)

lemma same_data_upd: "same_data t s \<Longrightarrow> (\<And>e. e_data (f e) = e_data e) \<Longrightarrow> same_data t (upd_inode i f s)"
  by (simp add: same_data_def option.map_comp comp_def)

lemma e_data_updates [simp]:
  "e_data (e\<lparr>e_full_path := x\<rparr>) = e_data e" "e_data (e\<lparr>e_parent := k, e_name := x\<rparr>) = e_data e"
  "e_data (e\<lparr>e_nlink := k\<rparr>) = e_data e" "e_data (remove_child_by_name x e) = e_data e" "e_data (add_child k x e) = e_data e"
  "e_data (e\<lparr>e_ctime := k\<rparr>) = e_data e" "e_data (e\<lparr>e_mtime := k, e_ctime := k'\<rparr>) = e_data e"
  by (simp_all add: e_data_def remove_child_by_name_def add_child_def Let_def split: option.split)

lemma same_data_moved: "same_data t (moved_table i p n q m t)"
proof -
  have "same_data t (remove_path x t)" for x t by (simp add: same_data_def)
  moreover have "same_data t (move_child i p n q m t)" for t
    unfolding move_child_def Let_def
    by (auto intro!: same_data_upd)
  ultimately show ?thesis unfolding moved_table_def by (blast intro: same_data_trans)
qed

lemma same_data_relocate: "same_data t (relocate P Q D t)"
  by (auto simp: same_data_def relocate_def option.map_comp comp_def)

lemma update_after_move:
  assumes wf: "wf_table t" and cm: "can_move t i p n q m"
  obtains t' where "update_subtree_paths i (child_path (path_in t q) m) (moved_table i p n q m t) = Some t'"
    and "renames t i p q m t'" and "same_data t t'"
proof -
  let ?S = "subtree t i" and ?P = "path_in t i" and ?Q = "child_path (path_in t q) m"
  define s where "s = moved_table i p n q m t"
  define t' where "t' = relocate ?P ?Q ?S s"
  note mr = moved_relocatable [OF wf cm, folded s_def] and ml = moved_lookup [OF wf cm, folded s_def]
    and mt = moved_table_entries [OF wf cm, folded s_def]
  obtain e where e: "t_inodes t i = Some e" "linked e" using can_moveD [OF wf cm] by metis
  obtain f where f: "t_inodes s i = Some f" using ml(1) [OF e(1)] by blast
  have up: "update_subtree_paths i ?Q s = Some t'"
    using update_subtree_relocates [of s i ?Q f] mr(2,3) f by (simp add: ml(3) t'_def)
  have ent: "rel_option (renamed_entry t i p q m j) (t_inodes t j) (t_inodes t' j)" for j
    using mt(1) [of j]
    by (cases rule: option.rel_cases) (auto simp: t'_def relocate_def renamed_entry_def ml(3))
  have own: "t_paths t (path_in t d) = Some d" if d: "d \<in> ?S" for d
    by (rule subtree_linked [OF wf e d]) (metis we_path wf wf_tableE)
  have new: "t_paths t' (newpath ?P ?Q (path_in t d)) = Some d" if "d \<in> ?S" for d
    using relocate_paths(1) [OF mr(2) order_refl that] by (simp add: t'_def ml(3))
  have old: "t_paths t' x = (if x \<in> path_in t ` ?S then None else t_paths t x)"
    if "\<And>d. d \<in> ?S \<Longrightarrow> newpath ?P ?Q (path_in t d) \<noteq> x" for x
    using relocate_paths(2) [OF mr(2) order_refl, of x] that mt(2) by (auto simp: t'_def ml(3))
  have pathof: "path_in t k = x" if "t_paths t x = Some k" for x k
    by (rule path_entry [OF wf that]) (simp add: path_in_def)
  have out: "t_paths t' x = Some k \<and> k \<notin> ?S \<longleftrightarrow> t_paths t x = Some k \<and> k \<notin> ?S" for x k
  proof (cases "\<exists>d \<in> ?S. newpath ?P ?Q (path_in t d) = x")
    case True
    then obtain d where d: "d \<in> ?S" "newpath ?P ?Q (path_in t d) = x" by blast
    then show ?thesis using new [OF d(1)] newpath_free [OF wf cm d(1)] by auto
  next
    case False
    then have "t_paths t' x = (if x \<in> path_in t ` ?S then None else t_paths t x)" by (intro old) blast
    moreover have "k \<in> ?S" if "x \<in> path_in t ` ?S" "t_paths t x = Some k" using that own by auto
    ultimately show ?thesis by auto
  qed
  have inn: "x = newpath ?P ?Q (path_in t k)" if "t_paths t' x = Some k" "k \<in> ?S" for x k
  proof (cases "\<exists>d \<in> ?S. newpath ?P ?Q (path_in t d) = x")
    case True
    then show ?thesis using new that(1) by auto
  next
    case False
    then have "t_paths t' x = (if x \<in> path_in t ` ?S then None else t_paths t x)" by (intro old) blast
    then have "t_paths t x = Some k" "x \<notin> path_in t ` ?S" using that(1) by (auto split: if_splits)
    then show ?thesis using pathof that(2) by blast
  qed
  have "t_next_inode t' = t_next_inode t" by (simp add: t'_def relocate_def mt(3))
  then have "renames t i p q m t'" using ent new out inn by (simp add: renames_def)
  moreover have "same_data t t'"
    unfolding t'_def s_def by (rule same_data_trans [OF same_data_moved same_data_relocate])
  ultimately show ?thesis using that up by (simp add: s_def)
qed

lemma renamed_entryI:
  assumes "e_inode z = e_inode x" "e_kind z = e_kind x" "e_kind x \<noteq> Directory \<Longrightarrow> e_nlink z = e_nlink x"
    "e_parent z = (if j = i then q else e_parent x)" "e_name z = (if j = i then m else e_name x)"
    "e_full_path z = (if j \<in> subtree t i then newpath (path_in t i) (child_path (path_in t q) m) (path_in t j)
       else e_full_path x)"
    "e_children z = filter (\<lambda>c. c_ino c \<noteq> i) (e_children x) @ (if j = q then [\<lparr>c_ino = i, c_name = m\<rparr>] else [])"
    "e_child_index z = (if j = q then (index_of (filter (\<lambda>c. c_ino c \<noteq> i) (e_children x)))(m \<mapsto> i)
       else index_of (filter (\<lambda>c. c_ino c \<noteq> i) (e_children x)))"
  shows "renamed_entry t i p q m j x z"
  unfolding renamed_entry_def
proof (intro exI conjI)
  show "moved_entry t i p q m j x (z\<lparr>e_full_path := e_full_path x\<rparr>)"
    using assms by (auto simp: moved_entry_def)
  show "z = (if j \<in> subtree t i
      then (z\<lparr>e_full_path := e_full_path x\<rparr>)\<lparr>e_full_path := newpath (path_in t i) (child_path (path_in t q) m) (path_in t j)\<rparr>
      else z\<lparr>e_full_path := e_full_path x\<rparr>)"
    using assms(6) by (cases "j \<in> subtree t i") (auto intro: inode_entry.equality)
qed

lemma renamed_fields:
  assumes "renamed_entry t i p q m j x z"
  shows "e_inode z = e_inode x" "e_kind z = e_kind x" "linked z = linked x"
    "e_parent z = (if j = i then q else e_parent x)" "e_name z = (if j = i then m else e_name x)"
    "e_full_path z = (if j \<in> subtree t i then newpath (path_in t i) (child_path (path_in t q) m) (path_in t j)
       else e_full_path x)"
    "e_children z = filter (\<lambda>c. c_ino c \<noteq> i) (e_children x) @ (if j = q then [\<lparr>c_ino = i, c_name = m\<rparr>] else [])"
    "e_child_index z = (if j = q then (index_of (filter (\<lambda>c. c_ino c \<noteq> i) (e_children x)))(m \<mapsto> i)
       else index_of (filter (\<lambda>c. c_ino c \<noteq> i) (e_children x)))"
    "e_kind x \<noteq> Directory \<Longrightarrow> e_nlink z = e_nlink x"
proof -
  from assms obtain y where y: "moved_entry t i p q m j x y"
    and z: "z = (if j \<in> subtree t i
      then y\<lparr>e_full_path := newpath (path_in t i) (child_path (path_in t q) m) (path_in t j)\<rparr> else y)"
    unfolding renamed_entry_def by blast
  show "linked z = linked x"
    using y by (cases "e_kind x = Directory"; cases "j \<in> subtree t i") (simp_all add: z moved_entry_def linked_def)
qed (use assms in \<open>cases "j \<in> subtree t i"; force simp: renamed_entry_def moved_entry_def\<close>)+

lemma renamed_listing:
  assumes wf: "wf_table t" and cm: "can_move t i p n q m" and x: "t_inodes t j = Some x"
    and z: "renamed_entry t i p q m j x z"
  shows "listing_ok z"
proof -
  note rf = renamed_fields [OF z]
  let ?cs = "filter (\<lambda>c. c_ino c \<noteq> i) (e_children x)"
  have l: "listing_ok x" by (rule we_listing [OF wf_tableE [OF wf x]])
  then have d: "distinct (map c_name ?cs)" "distinct (map c_ino ?cs)"
    by (auto simp: listing_ok_def distinct_map_filter)
  show ?thesis
  proof (cases "j = q")
    case True
    obtain qe where qe: "t_inodes t q = Some qe" "e_kind qe = Directory"
      "t_paths t (child_path (e_full_path qe) m) = None"
      using can_moveD [OF wf cm] by metis
    then have "x = qe" using x True by simp
    then have "m \<notin> c_name ` set (e_children x)" using path_name_free [OF wf qe(1,3)] by simp
    then have "m \<notin> c_name ` set ?cs" by auto
    then show ?thesis
      using rf d True l \<open>x = qe\<close> qe(2) by (auto simp: listing_ok_def index_of_snoc)
  next
    case False
    then show ?thesis using rf d l by (auto simp: listing_ok_def)
  qed
qed

lemma renamed_child:
  assumes wf: "wf_table t" and cm: "can_move t i p n q m" and rn: "renames t i p q m t'"
    and x: "t_inodes t j = Some x" and z: "renamed_entry t i p q m j x z" and c: "c \<in> set (e_children z)"
  shows "child_ok t' j z c"
proof -
  let ?S = "subtree t i" and ?N = "\<lambda>d. newpath (path_in t i) (child_path (path_in t q) m) (path_in t d)"
  note rf = renamed_fields [OF z]
  obtain e where e: "t_inodes t i = Some e" "linked e" "i \<noteq> ROOT_INODE" and qS: "q \<notin> ?S"
    and P: "path_in t i \<noteq> []" and m: "name_ok m" using can_moveD [OF wf cm] by metis
  have fwd: "\<exists>y'. t_inodes t' k = Some y' \<and> renamed_entry t i p q m k y y'" if "t_inodes t k = Some y" for k y
  proof -
    have "rel_option (renamed_entry t i p q m k) (t_inodes t k) (t_inodes t' k)" using rn by (simp add: renames_def)
    then show ?thesis using that by (auto simp: option_rel_Some1)
  qed
  consider (new) "c = \<lparr>c_ino = i, c_name = m\<rparr>" "j = q" | (old) "c \<in> set (e_children x)" "c_ino c \<noteq> i"
    using c rf(7) by (auto split: if_splits)
  then show ?thesis
  proof cases
    case new
    obtain y' where y': "t_inodes t' i = Some y'" "renamed_entry t i p q m i e y'" using fwd [OF e(1)] by blast
    have "e_full_path z = path_in t q" using rf(6) qS new x by (simp add: path_in_def)
    then show ?thesis
      using renamed_fields [OF y'(2)] y'(1) new e(2,3) by (simp add: child_ok_def newpath_def)
  next
    case old
    obtain y where y: "t_inodes t (c_ino c) = Some y" "e_parent y = j" "e_name y = c_name c"
      "e_full_path y = child_path (e_full_path x) (c_name c)" "linked y" "c_ino c \<noteq> ROOT_INODE"
      by (rule wf_child_entry [OF wf x old(1)])
    obtain y' where y': "t_inodes t' (c_ino c) = Some y'" "renamed_entry t i p q m (c_ino c) y y'"
      using fwd [OF y(1)] by blast
    have k: "c_ino c \<in> set (kids t j)" using x old(1) by (auto simp: kids_def)
    have iff: "c_ino c \<in> ?S \<longleftrightarrow> j \<in> ?S"
      using subtree_up [OF wf _ old(2) k] subtree_closed k by blast
    have "e_full_path y' = child_path (e_full_path z) (c_name c)"
    proof (cases "j \<in> ?S")
      case True
      have "?N (c_ino c) = child_path (?N j) (c_name c)"
        using rl_child [OF moved_relocatable(2) [OF wf cm] True] moved_lookup [OF wf cm] x old(1)
          moved_children_in [OF wf cm True x] by (metis (no_types, lifting))
      then show ?thesis using True iff renamed_fields(6) [OF y'(2)] rf(6) by simp
    next
      case False
      then show ?thesis using iff renamed_fields(6) [OF y'(2)] rf(6) y(4) by simp
    qed
    then show ?thesis
      using renamed_fields [OF y'(2)] y'(1) y old(2) by (simp add: child_ok_def)
  qed
qed

lemma wf_renames:
  assumes wf: "wf_table t" and cm: "can_move t i p n q m" and rn: "renames t i p q m t'"
  shows "wf_table t'"
proof -
  let ?S = "subtree t i" and ?N = "\<lambda>d. newpath (path_in t i) (child_path (path_in t q) m) (path_in t d)"
  obtain e qe where e: "t_inodes t i = Some e" "linked e" "i \<noteq> ROOT_INODE" and qS: "q \<notin> ?S" and m: "name_ok m"
    and qe: "t_inodes t q = Some qe" "e_kind qe = Directory" using can_moveD [OF wf cm] by metis
  have rel: "rel_option (renamed_entry t i p q m k) (t_inodes t k) (t_inodes t' k)" for k
    using rn by (simp add: renames_def)
  have fwd: "\<exists>y'. t_inodes t' k = Some y' \<and> renamed_entry t i p q m k y y'" if "t_inodes t k = Some y" for k y
    using rel [of k] that by (auto simp: option_rel_Some1)
  have bwd: "\<exists>y. t_inodes t k = Some y \<and> renamed_entry t i p q m k y y'" if "t_inodes t' k = Some y'" for k y'
    using rel [of k] that by (auto simp: option_rel_Some2)
  have rootS: "ROOT_INODE \<notin> ?S" by (rule root_not_below [OF wf e(1,3)])
  show ?thesis
  proof (rule wf_tableI)
    have "dom (t_inodes t') = dom (t_inodes t)" using fwd bwd by blast
    then show "finite (dom (t_inodes t'))" using wf_finite [OF wf] by simp
    obtain r where r: "t_inodes t ROOT_INODE = Some r" "e_kind r = Directory" "e_parent r = ROOT_INODE"
      "e_name r = []" "e_full_path r = []" using wf_wf_root [OF wf] by (auto simp: wf_root_def)
    obtain r' where "t_inodes t' ROOT_INODE = Some r'" "renamed_entry t i p q m ROOT_INODE r r'" using fwd [OF r(1)] by blast
    then show "wf_root t'" using renamed_fields [of t i p q m ROOT_INODE r r'] r rootS e(3) by (auto simp: wf_root_def)
    show "paths_ok t'"
      unfolding paths_ok_def
    proof (intro allI impI)
      fix x k assume xk: "t_paths t' x = Some k"
      show "\<exists>y. t_inodes t' k = Some y \<and> e_full_path y = x \<and> linked y"
      proof (cases "k \<in> ?S")
        case True
        obtain y where y: "t_inodes t k = Some y" "linked y" by (rule subtree_linked [OF wf e(1,2) True])
        obtain y' where "t_inodes t' k = Some y'" "renamed_entry t i p q m k y y'" using fwd [OF y(1)] by blast
        moreover have "x = ?N k" using rn xk True by (simp add: renames_def)
        ultimately show ?thesis using renamed_fields(3,6) True y(2) by metis
      next
        case False
        then have "t_paths t x = Some k" using rn xk by (auto simp: renames_def)
        then obtain y where y: "t_inodes t k = Some y" "e_full_path y = x" "linked y" by (rule path_entry [OF wf])
        obtain y' where "t_inodes t' k = Some y'" "renamed_entry t i p q m k y y'" using fwd [OF y(1)] by blast
        then show ?thesis using renamed_fields(3,6) False y by metis
      qed
    qed
    fix j z assume z: "t_inodes t' j = Some z"
    obtain x where x: "t_inodes t j = Some x" and xz: "renamed_entry t i p q m j x z" using bwd [OF z] by blast
    note rf = renamed_fields [OF xz] and we = wf_tableE [OF wf x]
    show "wf_entry t' j z"
    proof (rule wf_entryI)
      show "e_inode z = j" using rf(1) we_inode [OF we] by simp
      show "j < t_next_inode t'" using we_bound [OF we] rn by (simp add: renames_def)
      show "listing_ok z" by (rule renamed_listing [OF wf cm x xz])
      show "child_ok t' j z c" if "c \<in> set (e_children z)" for c
        by (rule renamed_child [OF wf cm rn x xz that])
      show "j \<noteq> ROOT_INODE \<Longrightarrow> name_ok (e_name z)" using we_name [OF we] rf(5) m by simp
      show "attached t' z" if a: "j \<noteq> ROOT_INODE" "linked z"
      proof (cases "j = i")
        case True
        obtain q' where "t_inodes t' q = Some q'" "renamed_entry t i p q m q qe q'" using fwd [OF qe(1)] by blast
        then show ?thesis
          using rf(1,4,5) True qe(2) we_inode [OF we] renamed_fields(2,7) by (fastforce simp: attached_def)
      next
        case False
        obtain pe where pe: "t_inodes t (e_parent x) = Some pe" "e_kind pe = Directory"
          "\<lparr>c_ino = e_inode x, c_name = e_name x\<rparr> \<in> set (e_children pe)"
          using we_attached [OF we a(1)] a(2) rf(3) by (auto simp: attached_def)
        obtain p' where p': "t_inodes t' (e_parent x) = Some p'" "renamed_entry t i p q m (e_parent x) pe p'"
          using fwd [OF pe(1)] by blast
        have "\<lparr>c_ino = e_inode x, c_name = e_name x\<rparr> \<in> set (e_children p')"
          using renamed_fields(7) [OF p'(2)] pe(3) False we_inode [OF we] by simp
        then show ?thesis
          using rf(1,4,5) False p'(1) renamed_fields(2) [OF p'(2)] pe(2) by (simp add: attached_def)
      qed
      show "t_paths t' (e_full_path z) = Some j" if "linked z"
      proof (cases "j \<in> ?S")
        case True
        then show ?thesis using rn rf(6) by (simp add: renames_def)
      next
        case False
        have "t_paths t (e_full_path x) = Some j" using we_path [OF we] rf(3) that by simp
        then show ?thesis using rn rf(6) False by (auto simp: renames_def)
      qed
    qed
  qed
qed

end
