(* ===== verification/Staging.thy ===== *)
theory Staging
  imports Inode_Evict
begin

text \<open>
  \<open>src/src/xet.rs\<close> (\<open>StagingDir\<close>) and \<open>src/src/virtual_fs/staging.rs\<close>
  (\<open>StagingCoordinator\<close>): the on-disk staging area of advanced writes, its byte accounting and
  the garbage collection that reclaims clean staging files in least-recently-touched order.

  The directory is the map from inode numbers to the size of their staging file; \<open>removable\<close> says
  which files the operating system lets go.  The locale \<open>budget_sweep\<close> is the contract of a loop
  that gives up resources in a fixed order until the usage is within the budget; \<open>gc\<close> here and the
  eviction of \<open>File_Cache\<close> are instances.
\<close>

section \<open>Sweeping until the budget is met\<close>

fun sweep_until :: "('s \<Rightarrow> bool) \<Rightarrow> ('k \<Rightarrow> 's \<Rightarrow> 's) \<Rightarrow> 'k list \<Rightarrow> 's \<Rightarrow> 's" where
  "sweep_until over step [] s = s"
| "sweep_until over step (k # ks) s = (if over s then sweep_until over step ks (step k s) else s)"

locale budget_sweep =
  fixes over :: "'s \<Rightarrow> bool" and step :: "'k \<Rightarrow> 's \<Rightarrow> 's" and usage :: "'s \<Rightarrow> nat"
  assumes step_usage: "usage (step k s) \<le> usage s"
begin

lemma sweep_prefix:
  "\<exists>n \<le> length ks. sweep_until over step ks s = fold step (take n ks) s \<and>
    (n < length ks \<longrightarrow> \<not> over (sweep_until over step ks s)) \<and>
    (\<forall>j < n. over (fold step (take j ks) s))"
proof (induction ks arbitrary: s)
  case (Cons k ks)
  show ?case
  proof (cases "over s")
    case True
    from Cons [of "step k s"] obtain n where n: "n \<le> length ks"
      "sweep_until over step ks (step k s) = fold step (take n ks) (step k s)"
      "n < length ks \<longrightarrow> \<not> over (sweep_until over step ks (step k s))"
      "\<forall>j < n. over (fold step (take j ks) (step k s))" by blast
    have "over (fold step (take j (k # ks)) s)" if "j < Suc n" for j
      using n(4) that True by (cases j) auto
    then show ?thesis using n True by (intro exI [of _ "Suc n"]) auto
  qed (auto intro!: exI [of _ 0])
qed simp

lemma sweep_usage: "usage (sweep_until over step ks s) \<le> usage s"
proof (induction ks arbitrary: s)
  case (Cons k ks)
  show ?case using Cons [of "step k s"] step_usage [of k s] by simp
qed simp

end

section \<open>The staging directory\<close>

record staging_dir =
  sd_files :: "nat \<rightharpoonup> nat"
  sd_bytes_used :: nat
  sd_max_bytes :: nat

definition staging_new :: "nat \<Rightarrow> staging_dir" where
  "staging_new max_bytes = \<lparr>sd_files = Map.empty, sd_bytes_used = 0, sd_max_bytes = max_bytes\<rparr>"

definition sd_file_size :: "staging_dir \<Rightarrow> nat \<Rightarrow> nat" where
  "sd_file_size sd i = (case sd_files sd i of None \<Rightarrow> 0 | Some n \<Rightarrow> n)"

definition is_over_limit :: "staging_dir \<Rightarrow> bool" where
  "is_over_limit sd \<longleftrightarrow> sd_max_bytes sd > 0 \<and> sd_bytes_used sd > sd_max_bytes sd"

definition has_budget :: "staging_dir \<Rightarrow> bool" where
  "has_budget sd \<longleftrightarrow> sd_max_bytes sd > 0"

definition resize_bytes :: "nat \<Rightarrow> nat \<Rightarrow> staging_dir \<Rightarrow> staging_dir" where
  "resize_bytes old new sd = sd\<lparr>sd_bytes_used := sat_add64 (sd_bytes_used sd - old) new\<rparr>"

definition try_remove :: "(nat \<Rightarrow> bool) \<Rightarrow> nat \<Rightarrow> staging_dir \<Rightarrow> bool \<times> staging_dir" where
  "try_remove removable i sd =
    (let sz = sd_file_size sd i
     in case sd_files sd i of
          None \<Rightarrow> (False, sd)
        | Some _ \<Rightarrow>
            if removable i
            then (True, resize_bytes sz 0 (sd\<lparr>sd_files := (sd_files sd)(i := None)\<rparr>))
            else (False, sd))"

section \<open>The coordinator\<close>

text \<open>The per-inode locks, with the number of references to each.\<close>

record staging_coordinator =
  sc_dir :: "staging_dir option"
  sc_locks :: "nat \<rightharpoonup> nat"

definition sc_new :: "staging_dir option \<Rightarrow> staging_coordinator" where
  "sc_new dir = \<lparr>sc_dir = dir, sc_locks = Map.empty\<rparr>"

definition sc_lock :: "nat \<Rightarrow> staging_coordinator \<Rightarrow> staging_coordinator" where
  "sc_lock i sc = sc\<lparr>sc_locks := (sc_locks sc)(i \<mapsto>
     (case sc_locks sc i of None \<Rightarrow> 1 | Some n \<Rightarrow> n) + 1)\<rparr>"

definition sc_unlock :: "nat \<Rightarrow> staging_coordinator \<Rightarrow> staging_coordinator" where
  "sc_unlock i sc = sc\<lparr>sc_locks := (sc_locks sc)(i := map_option (\<lambda>n. n - 1) (sc_locks sc i))\<rparr>"

definition forget_lock_if_unused :: "nat \<Rightarrow> staging_coordinator \<Rightarrow> staging_coordinator" where
  "forget_lock_if_unused i sc =
    (if sc_locks sc i = Some 1 then sc\<lparr>sc_locks := (sc_locks sc)(i := None)\<rparr> else sc)"

definition drop_locked :: "(nat \<Rightarrow> bool) \<Rightarrow> nat \<Rightarrow> staging_coordinator \<Rightarrow> staging_coordinator" where
  "drop_locked removable i sc =
    (case sc_dir sc of
      None \<Rightarrow> sc
    | Some sd \<Rightarrow> sc_unlock i ((sc_lock i sc)\<lparr>sc_dir := Some (snd (try_remove removable i sd))\<rparr>))"

text \<open>
  \<open>gc_one\<close> takes the inode's lock and looks at the table again; \<open>now i\<close> is the table it sees.
\<close>

definition gc_one ::
  "(nat \<Rightarrow> bool) \<Rightarrow> (nat \<Rightarrow> inode_table) \<Rightarrow> nat \<Rightarrow> staging_dir \<Rightarrow> bool \<times> staging_dir" where
  "gc_one removable now i sd =
    (if \<not> is_over_limit sd then (False, sd)
     else (case t_inodes (now i) i of
        None \<Rightarrow> (False, sd)
      | Some e \<Rightarrow> if \<not> is_dirty e then try_remove removable i sd else (False, sd)))"

definition gc_step ::
  "(nat \<Rightarrow> bool) \<Rightarrow> (nat \<Rightarrow> inode_table) \<Rightarrow> nat \<Rightarrow> nat \<times> staging_dir \<Rightarrow> nat \<times> staging_dir" where
  "gc_step removable now i st =
    (if sd_file_size (snd st) i = 0 then st
     else (let (removed, sd) = gc_one removable now i (snd st)
           in (if removed then fst st + 1 else fst st, sd)))"

definition gc ::
  "(nat \<Rightarrow> bool) \<Rightarrow> (nat \<Rightarrow> inode_table) \<Rightarrow> nat list \<Rightarrow> inode_table \<Rightarrow> staging_dir option \<Rightarrow>
   nat \<times> staging_dir option" where
  "gc removable now order t dir =
    (case dir of
      None \<Rightarrow> (0, None)
    | Some sd \<Rightarrow>
        if \<not> is_over_limit sd then (0, Some sd)
        else (let (count, sd') = sweep_until (\<lambda>st. is_over_limit (snd st)) (gc_step removable now)
                (staging_gc_candidates order t) (0, sd)
              in (count, Some sd')))"

section \<open>Accounting\<close>

text \<open>\<open>bytes_used\<close> is the sum of the sizes of the files present.\<close>

definition staged_total :: "(nat \<rightharpoonup> nat) \<Rightarrow> nat" where
  "staged_total m = (\<Sum>i \<in> dom m. the (m i))"

definition staging_ok :: "staging_dir \<Rightarrow> bool" where
  "staging_ok sd \<longleftrightarrow> finite (dom (sd_files sd)) \<and> sd_bytes_used sd = staged_total (sd_files sd) \<and>
     sd_bytes_used sd \<le> u64_max"

lemma staged_total_remove:
  assumes "finite (dom m)" "m i = Some n"
  shows "staged_total m = n + staged_total (m(i := None))"
proof -
  have "staged_total m = the (m i) + (\<Sum>j \<in> dom m - {i}. the (m j))"
    unfolding staged_total_def using assms by (intro sum.remove) auto
  also have "(\<Sum>j \<in> dom m - {i}. the (m j)) = staged_total (m(i := None))"
    unfolding staged_total_def by (intro sum.cong) auto
  finally show ?thesis using assms by simp
qed

lemma try_remove_ok:
  assumes "staging_ok sd" shows "staging_ok (snd (try_remove removable i sd))"
proof (cases "sd_files sd i")
  case None
  then show ?thesis using assms by (simp add: try_remove_def Let_def)
next
  case (Some n)
  have "staged_total (sd_files sd) = n + staged_total ((sd_files sd)(i := None))"
    using assms Some by (intro staged_total_remove) (auto simp: staging_ok_def)
  then show ?thesis
    using assms Some
    by (auto simp: try_remove_def Let_def staging_ok_def resize_bytes_def sd_file_size_def sat_add64_def)
qed

lemma try_remove_used: "sd_bytes_used (snd (try_remove removable i sd)) \<le> sd_bytes_used sd"
  by (auto simp: try_remove_def Let_def resize_bytes_def sat_add64_def split: option.split)

lemma gc_one_used: "sd_bytes_used (snd (gc_one removable now i sd)) \<le> sd_bytes_used sd"
  using try_remove_used by (auto simp: gc_one_def split: option.split)

lemma gc_step_used:
  "sd_bytes_used (snd (gc_step removable now i st)) \<le> sd_bytes_used (snd st)"
  using gc_one_used [of removable now i "snd st"] by (auto simp: gc_step_def split: prod.splits)

interpretation gc_sweep: budget_sweep
  "\<lambda>st. is_over_limit (snd st)" "gc_step removable now" "\<lambda>st. sd_bytes_used (snd st)"
  for removable now
  by unfold_locales (rule gc_step_used)

definition clean_now :: "(nat \<Rightarrow> inode_table) \<Rightarrow> nat \<Rightarrow> bool" where
  "clean_now now i \<longleftrightarrow> (\<exists>e. t_inodes (now i) i = Some e \<and> \<not> is_dirty e)"

lemma gc_step_files:
  "sd_files (snd (gc_step removable now i st)) j =
    (if j = i \<and> sd_file_size (snd st) i \<noteq> 0 \<and> is_over_limit (snd st) \<and> removable i \<and> clean_now now i
     then None else sd_files (snd st) j)"
  by (auto simp: gc_step_def gc_one_def try_remove_def Let_def resize_bytes_def sd_file_size_def
      clean_now_def split: option.splits prod.splits)

lemma gc_step_ok: "staging_ok (snd st) \<Longrightarrow> staging_ok (snd (gc_step removable now i st))"
  using try_remove_ok by (auto simp: gc_step_def gc_one_def split: option.splits prod.splits) (metis snd_conv)+

lemma gc_step_max: "sd_max_bytes (snd (gc_step removable now i st)) = sd_max_bytes (snd st)"
  by (auto simp: gc_step_def gc_one_def try_remove_def Let_def resize_bytes_def split: option.splits prod.splits)

lemma gc_fold_ok:
  "staging_ok (snd st) \<Longrightarrow> staging_ok (snd (fold (gc_step removable now) ks st))"
  by (induction ks arbitrary: st) (auto simp: gc_step_ok)

lemma gc_step_other: "j \<noteq> i \<Longrightarrow> sd_files (snd (gc_step removable now i st)) j = sd_files (snd st) j"
  by (simp add: gc_step_files)

lemma gc_fold_files:
  assumes "distinct ks" "\<And>j. j < length ks \<Longrightarrow> is_over_limit (snd (fold (gc_step removable now) (take j ks) st))"
  shows "sd_files (snd (fold (gc_step removable now) ks st)) j =
    (if j \<in> set ks \<and> sd_file_size (snd st) j \<noteq> 0 \<and> removable j \<and> clean_now now j then None
     else sd_files (snd st) j)"
  using assms
proof (induction ks arbitrary: j rule: rev_induct)
  case (snoc k ks)
  let ?m = "fold (gc_step removable now) ks st"
  have o: "is_over_limit (snd ?m)" using snoc.prems(2) [of "length ks"] by simp
  have "is_over_limit (snd (fold (gc_step removable now) (take j ks) st))" if "j < length ks" for j
    using snoc.prems(2) [of j] that by simp
  then have ih: "sd_files (snd ?m) j = (if j \<in> set ks \<and> sd_file_size (snd st) j \<noteq> 0 \<and> removable j \<and>
      clean_now now j then None else sd_files (snd st) j)" for j
    using snoc.IH snoc.prems(1) by simp
  have "k \<notin> set ks" using snoc.prems(1) by simp
  then have "sd_file_size (snd ?m) k = sd_file_size (snd st) k" by (simp add: sd_file_size_def ih)
  then show ?case
    using o \<open>k \<notin> set ks\<close> by (cases "j = k") (simp_all add: gc_step_files ih)
qed simp

lemma candidates_sorted:
  assumes wf: "wf_table t" and en: "enumerates order (t_inodes t)"
  shows "distinct (staging_gc_candidates order t)"
    and "set (staging_gc_candidates order t) = {i. \<exists>e. t_inodes t i = Some e \<and> reclaimable e}"
    and "sorted (map (\<lambda>i. ev_last_touched (e_eviction (the (t_inodes t i)))) (staging_gc_candidates order t))"
proof -
  let ?es = "filter reclaimable (table_values order t)"
  let ?f = "\<lambda>e. (ev_last_touched (e_eviction e), e_inode e)"
  have c: "staging_gc_candidates order t = map snd (sort_key fst (map ?f ?es))"
    by (simp add: staging_gc_candidates_def reclaimable_def [abs_def] neq0_conv)
  have "mset (map snd (sort_key fst (map ?f ?es))) = mset (map e_inode ?es)"
    by (simp only: mset_map mset_sort) (simp add: image_mset.compositionality comp_def)
  then have m: "mset (staging_gc_candidates order t) = mset (map e_inode ?es)" by (simp only: c)
  have "distinct (map e_inode ?es)" using distinct_table_values [OF wf en] by (rule distinct_map_filter)
  then show "distinct (staging_gc_candidates order t)" using m by (metis mset_eq_imp_distinct_iff)
  have es: "set ?es = {e. e \<in> ran (t_inodes t) \<and> reclaimable e}"
    using set_table_values [OF en] by auto
  have ino: "e_inode e = i" if "t_inodes t i = Some e" for i e using we_inode [OF wf_tableE [OF wf that]] .
  have "set (staging_gc_candidates order t) = e_inode ` set ?es" using m by (metis set_map set_mset_mset)
  also have "\<dots> = {i. \<exists>e. t_inodes t i = Some e \<and> reclaimable e}"
    unfolding es ran_def using ino by (auto simp: image_iff)
  finally show "set (staging_gc_candidates order t) = {i. \<exists>e. t_inodes t i = Some e \<and> reclaimable e}" .
  have "fst q = ev_last_touched (e_eviction (the (t_inodes t (snd q))))" if "q \<in> set (sort_key fst (map ?f ?es))" for q
  proof -
    from that obtain e where "e \<in> ran (t_inodes t)" "q = ?f e" using es by auto
    then show ?thesis using ino by (auto simp: ran_def)
  qed
  then have "map (\<lambda>i. ev_last_touched (e_eviction (the (t_inodes t i)))) (staging_gc_candidates order t)
      = map fst (sort_key fst (map ?f ?es))" by (simp add: c)
  then show "sorted (map (\<lambda>i. ev_last_touched (e_eviction (the (t_inodes t i)))) (staging_gc_candidates order t))"
    by simp
qed

section \<open>Properties\<close>

text \<open>
  The files that are left when the listed ones have been swept: of those, a file goes when it is not empty,
  the operating system lets it go and its inode is known and clean when the sweep comes to it.
\<close>

definition swept_files ::
  "(nat \<Rightarrow> bool) \<Rightarrow> (nat \<Rightarrow> inode_table) \<Rightarrow> nat list \<Rightarrow> staging_dir \<Rightarrow> nat \<rightharpoonup> nat" where
  "swept_files removable now ks sd j =
    (if j \<in> set ks \<and> sd_files sd j \<noteq> None \<and> sd_files sd j \<noteq> Some 0 \<and> removable j \<and>
        (\<exists>e. t_inodes (now j) j = Some e \<and> \<not> is_dirty e)
     then None else sd_files sd j)"

lemma gc_fold_max: "sd_max_bytes (snd (fold (gc_step removable now) ks st)) = sd_max_bytes (snd st)"
  by (induction ks arbitrary: st) (simp_all add: gc_step_max)

lemma gc_fold_swept:
  assumes "distinct ks" "\<And>j. j < length ks \<Longrightarrow> is_over_limit (snd (fold (gc_step removable now) (take j ks) (n, sd)))"
  shows "sd_files (snd (fold (gc_step removable now) ks (n, sd))) = swept_files removable now ks sd"
  by (rule ext, subst gc_fold_files [OF assms])
    (auto simp: swept_files_def sd_file_size_def clean_now_def split: option.splits)

lemma gc_fold_over:
  assumes "distinct ks" "\<And>j. j < length ks \<Longrightarrow> is_over_limit (snd (fold (gc_step removable now) (take j ks) (n, sd)))"
    and "staging_ok sd" and "is_over_limit sd"
  shows "is_over_limit (snd (fold (gc_step removable now) ks (n, sd))) \<longleftrightarrow>
    sd_max_bytes sd < staged_total (swept_files removable now ks sd)"
proof -
  let ?r = "snd (fold (gc_step removable now) ks (n, sd))"
  have "sd_bytes_used ?r = staged_total (sd_files ?r)"
    using gc_fold_ok [of "(n, sd)" removable now ks] assms(3) by (simp add: staging_ok_def)
  then have "sd_bytes_used ?r = staged_total (swept_files removable now ks sd)" by (simp only: gc_fold_swept [OF assms(1,2)])
  moreover have "sd_max_bytes ?r = sd_max_bytes sd" using gc_fold_max [of removable now ks "(n, sd)"] by simp
  ultimately show ?thesis using assms(4) by (simp add: is_over_limit_def)
qed

text \<open>
  C21: Staging garbage collection.  The candidates are the clean, closed, linked files with no delete
  pending, least recently touched first.  The collection sweeps a prefix of them: of these files exactly
  those go that are not empty, that the operating system lets go and whose inode is still clean when its lock is
  taken, and no other file is touched.  The prefix is the shortest that does: after every shorter one the files
  left still exceed the budget, and after it they do not, unless there is no candidate left.  The byte counter
  stays equal to the sum of the sizes.
\<close>

theorem staging_gc_exact:
  assumes "wf_table t" and "enumerates order (t_inodes t)" and "staging_ok sd" and "is_over_limit sd"
  shows "\<exists>sd' n ks. snd (gc removable now order t (Some sd)) = Some sd' \<and> staging_ok sd' \<and>
    distinct ks \<and>
    set ks = {i. \<exists>e. t_inodes t i = Some e \<and> e_kind e = File \<and> e_nlink e > 0 \<and> \<not> is_dirty e \<and>
      e_pending_deletes e = [] \<and> ev_open_handles (e_eviction e) = 0} \<and>
    sorted (map (\<lambda>i. ev_last_touched (e_eviction (the (t_inodes t i)))) ks) \<and>
    n \<le> length ks \<and> sd_files sd' = swept_files removable now (take n ks) sd \<and>
    (\<forall>k < n. sd_max_bytes sd < staged_total (swept_files removable now (take k ks) sd)) \<and>
    (n < length ks \<longrightarrow> staged_total (sd_files sd') \<le> sd_max_bytes sd)"
proof -
  define ks where "ks = staging_gc_candidates order t"
  let ?step = "gc_step removable now"
  define r where "r = sweep_until (\<lambda>st. is_over_limit (snd st)) ?step ks (0, sd)"
  obtain n where n: "n \<le> length ks" "r = fold ?step (take n ks) (0, sd)"
    "n < length ks \<longrightarrow> \<not> is_over_limit (snd r)" "\<forall>j < n. is_over_limit (snd (fold ?step (take j ks) (0, sd)))"
    unfolding r_def using gc_sweep.sweep_prefix [of ks removable now "(0, sd)"] by blast
  have c: "distinct ks" "sorted (map (\<lambda>i. ev_last_touched (e_eviction (the (t_inodes t i)))) ks)"
    unfolding ks_def by (rule candidates_sorted [OF assms(1,2)])+
  have cs: "set ks = {i. \<exists>e. t_inodes t i = Some e \<and> e_kind e = File \<and> e_nlink e > 0 \<and> \<not> is_dirty e \<and>
      e_pending_deletes e = [] \<and> ev_open_handles (e_eviction e) = 0}"
    using candidates_sorted(2) [OF assms(1,2)] by (simp add: ks_def reclaimable_def)
  have pre: "is_over_limit (snd (fold ?step (take j (take k ks)) (0, sd)))" if "k \<le> n" "j < length (take k ks)" for j k
    using that n(4) by (simp add: min_absorb1)
  have d: "distinct (take k ks)" for k using c(1) by simp
  note over = gc_fold_over [OF d pre assms(3,4)]
  have "snd (gc removable now order t (Some sd)) = Some (snd r)"
    using assms(4) by (simp add: gc_def r_def ks_def split: prod.splits)
  moreover have "staging_ok (snd r)" unfolding n(2) using gc_fold_ok [of "(0, sd)"] assms(3) by simp
  moreover have files: "sd_files (snd r) = swept_files removable now (take n ks) sd"
    unfolding n(2) by (rule gc_fold_swept [OF d pre]) simp_all
  moreover have "sd_max_bytes sd < staged_total (swept_files removable now (take k ks) sd)" if "k < n" for k
    using over [of k] n(4) that by simp
  moreover have "staged_total (sd_files (snd r)) \<le> sd_max_bytes sd" if "n < length ks"
    using over [of n, folded n(2)] n(3) that by (simp add: files)
  ultimately show ?thesis using n(1) c cs by (intro exI [of _ "snd r"] exI [of _ n] exI [of _ ks]) simp
qed

theorem staging_gc_exact_witness:
  "\<exists>sd'. snd (gc (\<lambda>_. True) (\<lambda>_. one_file) [1, 2] one_file
      (Some \<lparr>sd_files = [2 \<mapsto> 50, 7 \<mapsto> 5], sd_bytes_used = 55, sd_max_bytes = 10\<rparr>)) = Some sd' \<and> staging_ok sd' \<and>
    sd_files sd' 7 = Some 5"
proof -
  let ?sd = "\<lparr>sd_files = [2 \<mapsto> 50, 7 \<mapsto> 5], sd_bytes_used = 55, sd_max_bytes = 10\<rparr> :: staging_dir"
  have en: "enumerates [1, 2] (t_inodes one_file)"
    by (auto simp: enumerates_def one_file_def insert_inode_def new_table_def ROOT_INODE_def Let_def)
  have ok: "staging_ok ?sd" and over: "is_over_limit ?sd"
    by (simp_all add: staging_ok_def staged_total_def u64_max_def is_over_limit_def)
  have "t_inodes one_file 7 = None"
    by (simp add: one_file_def insert_inode_def new_table_def ROOT_INODE_def Let_def upd_inode_def)
  then show ?thesis
    using staging_gc_exact [OF wf_one_file en ok over, of "\<lambda>_. True" "\<lambda>_. one_file"]
    by (auto simp: swept_files_def)
qed

text \<open>
  The lock map cannot leak a lock that is in use: forgetting an inode's lock removes it exactly when
  the map holds the only reference, and a lock and unlock pair leaves it forgettable.
\<close>

lemma forget_lock_safe:
  "sc_locks (forget_lock_if_unused i sc) i = None \<longleftrightarrow> sc_locks sc i = None \<or> sc_locks sc i = Some 1"
  by (simp add: forget_lock_if_unused_def)

lemma forget_lock_after_use:
  "sc_locks sc i = None \<Longrightarrow> sc_locks (forget_lock_if_unused i (sc_unlock i (sc_lock i sc))) i = None"
  by (simp add: forget_lock_if_unused_def sc_lock_def sc_unlock_def)

end
