(* ===== verification/File_Cache.thy ===== *)
theory File_Cache
  imports Staging
begin

text \<open>
  \<open>src/src/file_cache.rs\<close>: the whole-file content cache, its byte accounting, LRU eviction and the
  single-flight population of an entry.

  The files on disk are a map from hashes to sizes.  A population is split where the code awaits: the
  decision to lead or to follow, the download (its outcome is an argument) with publication and
  eviction, and the wake-up of the followers; \<open>cache_step\<close> interleaves any number of them.
\<close>

section \<open>State\<close>

record cache_item =
  ci_size :: nat
  ci_last_access :: nat

record file_cache =
  fc_capacity :: nat
  fc_items :: "string \<rightharpoonup> cache_item"
  fc_total_bytes :: nat
  fc_clock :: nat
  fc_inflight :: "string set"
  fc_disk :: "string \<rightharpoonup> nat"

datatype cache_error = FetchFailed | SizeMismatch | CacheIo | PopulateFailed

text \<open>One file found by the start-up scan: name, size and modification time in seconds.\<close>

definition scan_entry ::
  "string \<times> nat \<times> nat \<Rightarrow> (string \<rightharpoonup> cache_item) \<times> nat \<times> nat \<Rightarrow> (string \<rightharpoonup> cache_item) \<times> nat \<times> nat" where
  "scan_entry f st =
    (case f of (hash, sz, tick) \<Rightarrow> case st of (items, tot, max_tick) \<Rightarrow>
      (items(hash \<mapsto> \<lparr>ci_size = sz, ci_last_access = tick\<rparr>), wrap64 (tot + sz),
       if tick > max_tick then tick else max_tick))"

definition scan_existing :: "(string \<times> nat \<times> nat) list \<Rightarrow> (string \<rightharpoonup> cache_item) \<times> nat \<times> nat" where
  "scan_existing files = fold scan_entry files (Map.empty, 0, 0)"

definition fc_new :: "nat \<Rightarrow> (string \<times> nat \<times> nat) list \<Rightarrow> file_cache" where
  "fc_new capacity files =
    (case scan_existing files of (items, tot, max_tick) \<Rightarrow>
      \<lparr>fc_capacity = capacity, fc_items = items, fc_total_bytes = tot,
       fc_clock = sat_add64 max_tick 1, fc_inflight = {},
       fc_disk = map_of (rev (map (\<lambda>(h, sz, _). (h, sz)) files))\<rparr>)"

definition item_path :: "string \<Rightarrow> string \<Rightarrow> string" where
  "item_path root hash = root @ ''/'' @ (if length hash \<ge> 2 then take 2 hash else ''_'') @ ''/'' @ hash"

definition next_tick :: "file_cache \<Rightarrow> nat \<times> file_cache" where
  "next_tick fc = (fc_clock fc, fc\<lparr>fc_clock := wrap64 (fc_clock fc + 1)\<rparr>)"

definition fc_contains :: "file_cache \<Rightarrow> string \<Rightarrow> bool" where
  "fc_contains fc hash \<longleftrightarrow> hash \<noteq> [] \<and> fc_items fc hash \<noteq> None"

definition fc_forget :: "string \<Rightarrow> file_cache \<Rightarrow> file_cache" where
  "fc_forget hash fc =
    (let fc1 = (case fc_items fc hash of
                  None \<Rightarrow> fc
                | Some item \<Rightarrow> fc\<lparr>fc_items := (fc_items fc)(hash := None),
                                 fc_total_bytes := fc_total_bytes fc - ci_size item\<rparr>)
     in fc1\<lparr>fc_disk := (fc_disk fc1)(hash := None)\<rparr>)"

definition try_open :: "string \<Rightarrow> file_cache \<Rightarrow> nat option \<times> file_cache" where
  "try_open hash fc =
    (if hash = [] then (None, fc)
     else (case fc_items fc hash of
        None \<Rightarrow> (None, fc)
      | Some item \<Rightarrow>
          (let (tick, fc1) = next_tick fc;
               fc2 = fc1\<lparr>fc_items := (fc_items fc1)(hash \<mapsto> item\<lparr>ci_last_access := tick\<rparr>)\<rparr>
           in case fc_disk fc2 hash of
                Some sz \<Rightarrow> (Some sz, fc2)
              | None \<Rightarrow> (None, fc_forget hash fc2))))"

section \<open>Eviction\<close>

definition victim_step :: "string \<times> nat \<times> nat \<Rightarrow> string list \<times> nat \<Rightarrow> string list \<times> nat" where
  "victim_step entry st = (fst st @ [fst entry], snd st + snd (snd entry))"

definition evict_one_item :: "string \<Rightarrow> file_cache \<Rightarrow> file_cache" where
  "evict_one_item hash fc =
    (case fc_items fc hash of
      None \<Rightarrow> fc
    | Some item \<Rightarrow> fc\<lparr>fc_items := (fc_items fc)(hash := None),
                     fc_total_bytes := fc_total_bytes fc - ci_size item\<rparr>)"

definition lru_entries :: "string list \<Rightarrow> file_cache \<Rightarrow> (string \<times> nat \<times> nat) list" where
  "lru_entries order fc =
    sort_key (\<lambda>(_, t, _). t)
      (List.map_filter (\<lambda>h. map_option (\<lambda>v. (h, ci_last_access v, ci_size v)) (fc_items fc h)) order)"

text \<open>\<open>order\<close> enumerates the hash map.  The result is the hashes whose files are to be removed.\<close>

definition evict_locked :: "string list \<Rightarrow> file_cache \<Rightarrow> string list \<times> file_cache" where
  "evict_locked order fc =
    (if fc_total_bytes fc \<le> fc_capacity fc then ([], fc)
     else (let (victims, freed) =
                 sweep_until (\<lambda>st. \<not> fc_total_bytes fc - snd st \<le> fc_capacity fc) victim_step
                   (lru_entries order fc) ([], 0)
           in (victims, fold evict_one_item victims fc)))"

section \<open>Population\<close>

datatype populate_start = Skip | Leader | Follower

definition populate_fast :: "string \<Rightarrow> nat option \<Rightarrow> file_cache \<Rightarrow> bool" where
  "populate_fast hash expected fc \<longleftrightarrow>
    hash = [] \<or> (case expected of Some s \<Rightarrow> s > fc_capacity fc | None \<Rightarrow> False) \<or> fc_contains fc hash"

text \<open>
  The decision taken under the in-flight lock, on the state of that moment; \<open>try_read_ok\<close> says whether
  the read lock on the items could be had at once.
\<close>

definition populate_begin :: "string \<Rightarrow> bool \<Rightarrow> file_cache \<Rightarrow> populate_start \<times> file_cache" where
  "populate_begin hash try_read_ok fc =
    (if try_read_ok \<and> fc_items fc hash \<noteq> None then (Skip, fc)
     else if hash \<in> fc_inflight fc then (Follower, fc)
     else (Leader, fc\<lparr>fc_inflight := insert hash (fc_inflight fc)\<rparr>))"

record populate_io =
  pi_mkdir :: bool
  pi_fetch :: bool
  pi_stat :: "nat option"
  pi_rename :: bool

definition publish :: "string list \<Rightarrow> string \<Rightarrow> nat \<Rightarrow> file_cache \<Rightarrow> string list \<times> file_cache" where
  "publish order hash actual fc =
    (let (tick, fc1) = next_tick fc;
         prev = fc_items fc1 hash;
         fc2 = fc1\<lparr>fc_items := (fc_items fc1)(hash \<mapsto> \<lparr>ci_size = actual, ci_last_access = tick\<rparr>)\<rparr>;
         fc3 = (case prev of None \<Rightarrow> fc2
                | Some p \<Rightarrow> fc2\<lparr>fc_total_bytes := fc_total_bytes fc2 - ci_size p\<rparr>);
         fc4 = fc3\<lparr>fc_total_bytes := wrap64 (fc_total_bytes fc3 + actual)\<rparr>
     in evict_locked order fc4)"

definition populate_inner ::
  "string list \<Rightarrow> populate_io \<Rightarrow> string \<Rightarrow> nat option \<Rightarrow> file_cache \<Rightarrow>
   (cache_error + unit) \<times> file_cache" where
  "populate_inner order io hash expected fc =
    (if \<not> pi_mkdir io then (Inl CacheIo, fc)
     else if \<not> pi_fetch io then (Inl FetchFailed, fc)
     else (case pi_stat io of
        None \<Rightarrow> (Inl CacheIo, fc)
      | Some actual \<Rightarrow>
          if (case expected of Some s \<Rightarrow> actual \<noteq> s | None \<Rightarrow> False) then (Inl SizeMismatch, fc)
          else if actual > fc_capacity fc then (Inr (), fc)
          else if \<not> pi_rename io then (Inl CacheIo, fc)
          else (let fc1 = fc\<lparr>fc_disk := (fc_disk fc)(hash \<mapsto> actual)\<rparr>;
                    (to_remove, fc2) = publish order hash actual fc1
                in (Inr (), fc2\<lparr>fc_disk := fc_disk fc2 |` (- set to_remove)\<rparr>))))"

definition inflight_guard_drop :: "string \<Rightarrow> file_cache \<Rightarrow> file_cache" where
  "inflight_guard_drop hash fc = fc\<lparr>fc_inflight := fc_inflight fc - {hash}\<rparr>"

definition populate_leader ::
  "string list \<Rightarrow> populate_io \<Rightarrow> string \<Rightarrow> nat option \<Rightarrow> file_cache \<Rightarrow>
   (cache_error + unit) \<times> file_cache" where
  "populate_leader order io hash expected fc =
    (let (r, fc1) = populate_inner order io hash expected fc in (r, inflight_guard_drop hash fc1))"

definition populate_follower :: "string \<Rightarrow> file_cache \<Rightarrow> cache_error + unit" where
  "populate_follower hash fc = (if fc_contains fc hash then Inr () else Inl PopulateFailed)"

section \<open>Accounting\<close>

definition items_total :: "(string \<rightharpoonup> cache_item) \<Rightarrow> nat" where
  "items_total m = (\<Sum>h \<in> dom m. ci_size (the (m h)))"

definition cache_ok :: "file_cache \<Rightarrow> bool" where
  "cache_ok fc \<longleftrightarrow> finite (dom (fc_items fc)) \<and> fc_total_bytes fc = items_total (fc_items fc) \<and>
     (\<forall>h v. fc_items fc h = Some v \<longrightarrow> ci_last_access v < fc_clock fc)"

lemma items_total_remove:
  assumes "finite (dom m)" "m h = Some v"
  shows "items_total m = ci_size v + items_total (m(h := None))"
proof -
  have "items_total m = ci_size (the (m h)) + (\<Sum>j \<in> dom m - {h}. ci_size (the (m j)))"
    unfolding items_total_def using assms by (intro sum.remove) auto
  also have "(\<Sum>j \<in> dom m - {h}. ci_size (the (m j))) = items_total (m(h := None))"
    unfolding items_total_def by (intro sum.cong) auto
  finally show ?thesis using assms by simp
qed

lemma items_total_upd:
  assumes "finite (dom m)"
  shows "items_total (m(h \<mapsto> v)) = ci_size v + items_total (m(h := None))"
  using items_total_remove [of "m(h \<mapsto> v)" h v] assms by simp

lemma evict_one_item_ok: "cache_ok fc \<Longrightarrow> cache_ok (evict_one_item h fc)"
  using items_total_remove
  by (fastforce simp: cache_ok_def evict_one_item_def split: option.split if_splits)

lemma evict_fold_ok: "cache_ok fc \<Longrightarrow> cache_ok (fold evict_one_item hs fc)"
  by (induction hs arbitrary: fc) (auto simp: evict_one_item_ok)

lemma evict_one_item_frame [simp]:
  "fc_items (evict_one_item h fc) = (fc_items fc)(h := None)"
  "fc_clock (evict_one_item h fc) = fc_clock fc" "fc_capacity (evict_one_item h fc) = fc_capacity fc"
  "fc_inflight (evict_one_item h fc) = fc_inflight fc" "fc_disk (evict_one_item h fc) = fc_disk fc"
  by (auto simp: evict_one_item_def split: option.split)

lemma evict_fold_frame [simp]:
  "fc_items (fold evict_one_item hs fc) = fc_items fc |` (- set hs)"
  "fc_clock (fold evict_one_item hs fc) = fc_clock fc" "fc_capacity (fold evict_one_item hs fc) = fc_capacity fc"
  "fc_inflight (fold evict_one_item hs fc) = fc_inflight fc" "fc_disk (fold evict_one_item hs fc) = fc_disk fc"
  by (induction hs arbitrary: fc) (auto simp: restrict_map_def fun_eq_iff)

interpretation victims: budget_sweep
  "\<lambda>st. \<not> tot - snd st \<le> capacity" victim_step "\<lambda>st. tot - snd st" for tot capacity :: nat
  by unfold_locales (simp add: victim_step_def)

lemma fold_victims:
  "fold victim_step es (vs, f) = (vs @ map fst es, f + sum_list (map (snd \<circ> snd) es))"
  by (induction es arbitrary: vs f) (auto simp: victim_step_def)

lemma items_list:
  assumes "set ks \<subseteq> dom m" "distinct ks"
  shows "map fst (List.map_filter (\<lambda>h. map_option (\<lambda>v. (h, ci_last_access v, ci_size v)) (m h)) ks) = ks"
    and "sum_list (map (snd \<circ> snd) (List.map_filter (\<lambda>h. map_option (\<lambda>v. (h, ci_last_access v, ci_size v)) (m h)) ks))
      = (\<Sum>h \<in> set ks. ci_size (the (m h)))"
  using assms by (induction ks) (auto simp: List.map_filter_simps)

lemma lru_entries_facts:
  assumes en: "enumerates order (fc_items fc)"
  shows "distinct (map fst (lru_entries order fc))" and "set (map fst (lru_entries order fc)) = dom (fc_items fc)"
    and "(h, t, sz) \<in> set (lru_entries order fc) \<longleftrightarrow> fc_items fc h = Some \<lparr>ci_size = sz, ci_last_access = t\<rparr>"
    and "sorted (map (fst \<circ> snd) (lru_entries order fc))"
    and "sum_list (map (snd \<circ> snd) (lru_entries order fc)) = items_total (fc_items fc)"
proof -
  let ?l = "List.map_filter (\<lambda>h. map_option (\<lambda>v. (h, ci_last_access v, ci_size v)) (fc_items fc h)) order"
  have ms: "mset (lru_entries order fc) = mset ?l" by (simp add: lru_entries_def)
  have o: "distinct order" "set order = dom (fc_items fc)" using en by (auto simp: enumerates_def)
  have f: "map fst ?l = order" "sum_list (map (snd \<circ> snd) ?l) = items_total (fc_items fc)"
    using items_list [of order "fc_items fc"] o by (auto simp: items_total_def)
  have m: "mset (map g (lru_entries order fc)) = mset (map g ?l)" for g :: "string \<times> nat \<times> nat \<Rightarrow> 'b"
    using ms by simp
  show "distinct (map fst (lru_entries order fc))" using m [of fst] f(1) o(1) by (metis mset_eq_imp_distinct_iff)
  show "set (map fst (lru_entries order fc)) = dom (fc_items fc)" using mset_eq_setD [OF m [of fst]] f(1) o(2) by simp
  have "set (lru_entries order fc) = set ?l" using ms by (rule mset_eq_setD)
  also have "(h, t, sz) \<in> set ?l \<longleftrightarrow> fc_items fc h = Some \<lparr>ci_size = sz, ci_last_access = t\<rparr>"
  proof -
    have "(h, t, sz) \<in> set ?l \<longleftrightarrow> (\<exists>v. h \<in> set order \<and> fc_items fc h = Some v \<and> t = ci_last_access v \<and> sz = ci_size v)"
      by (force simp: List.map_filter_def)
    also have "\<dots> \<longleftrightarrow> fc_items fc h = Some \<lparr>ci_size = sz, ci_last_access = t\<rparr>" using o(2) by auto
    finally show ?thesis .
  qed
  finally show "(h, t, sz) \<in> set (lru_entries order fc) \<longleftrightarrow> fc_items fc h = Some \<lparr>ci_size = sz, ci_last_access = t\<rparr>" .
  have "(\<lambda>(_, t, _). t) = (fst \<circ> snd :: string \<times> nat \<times> nat \<Rightarrow> nat)" by auto
  then show "sorted (map (fst \<circ> snd) (lru_entries order fc))" by (simp add: lru_entries_def)
  show "sum_list (map (snd \<circ> snd) (lru_entries order fc)) = items_total (fc_items fc)"
    using arg_cong [OF m [of "snd \<circ> snd"], of sum_mset] f(2) by (simp only: sum_mset_sum_list)
qed

lemma lru_entry:
  assumes en: "enumerates order (fc_items fc)" and e: "e \<in> set (lru_entries order fc)"
  shows "fc_items fc (fst e) = Some \<lparr>ci_size = snd (snd e), ci_last_access = fst (snd e)\<rparr>"
  using lru_entries_facts(3) [OF en, of "fst e" "fst (snd e)" "snd (snd e)"] e by simp

lemma items_total_restrict:
  assumes "finite (dom m)" "distinct es" "\<And>h. h \<in> set es \<Longrightarrow> h \<in> dom m"
  shows "items_total m = (\<Sum>h \<leftarrow> es. ci_size (the (m h))) + items_total (m |` (- set es))"
proof -
  have "items_total m = (\<Sum>h \<in> set es. ci_size (the (m h))) + (\<Sum>h \<in> dom m - set es. ci_size (the (m h)))"
    unfolding items_total_def using assms by (subst add.commute, intro sum.subset_diff) auto
  also have "(\<Sum>h \<in> dom m - set es. ci_size (the (m h))) = items_total (m |` (- set es))"
    unfolding items_total_def by (intro sum.cong) (auto simp: restrict_map_def split: if_splits)
  also have "(\<Sum>h \<in> set es. ci_size (the (m h))) = (\<Sum>h \<leftarrow> es. ci_size (the (m h)))"
    using assms(2) by (simp add: sum_list_distinct_conv_sum_set)
  finally show ?thesis .
qed

lemma evict_locked_spec:
  assumes ok: "cache_ok fc" and en: "enumerates order (fc_items fc)"
  obtains vs where "fst (evict_locked order fc) = vs" and "snd (evict_locked order fc) = fold evict_one_item vs fc"
    and "set vs \<subseteq> dom (fc_items fc)" and "fc_total_bytes (fold evict_one_item vs fc) \<le> fc_capacity fc"
    and "\<forall>h v h' v'. h \<in> set vs \<longrightarrow> fc_items fc h = Some v \<longrightarrow> h' \<notin> set vs \<longrightarrow> fc_items fc h' = Some v' \<longrightarrow>
      ci_last_access v \<le> ci_last_access v'"
    and "\<forall>h v. fc_items fc h = Some v \<longrightarrow> ci_size v \<le> fc_capacity fc \<longrightarrow>
      (\<forall>h' v'. fc_items fc h' = Some v' \<longrightarrow> h' \<noteq> h \<longrightarrow> ci_last_access v' < ci_last_access v) \<longrightarrow> h \<notin> set vs"
proof (cases "fc_total_bytes fc \<le> fc_capacity fc")
  case True
  then show ?thesis using that [of "[]"] by (simp add: evict_locked_def)
next
  case False
  let ?es = "lru_entries order fc" and ?T = "fc_total_bytes fc" and ?C = "fc_capacity fc"
  note lf = lru_entries_facts [OF en]
  define sz where "sz e = snd (snd e)" for e :: "string \<times> nat \<times> nat"
  have szeq: "snd \<circ> snd = sz" by (auto simp: sz_def)
  obtain n where n: "n \<le> length ?es"
    "sweep_until (\<lambda>st. \<not> ?T - snd st \<le> ?C) victim_step ?es ([], 0) = fold victim_step (take n ?es) ([], 0)"
    "n < length ?es \<longrightarrow> ?T - snd (fold victim_step (take n ?es) ([], 0)) \<le> ?C"
    "\<forall>j < n. \<not> ?T - snd (fold victim_step (take j ?es) ([], 0)) \<le> ?C"
    using victims.sweep_prefix [of ?es ?T ?C "([], 0)"] by fastforce
  let ?vs = "map fst (take n ?es)"
  have freed: "snd (fold victim_step (take j ?es) ([], 0)) = sum_list (map sz (take j ?es))" for j
    by (simp add: fold_victims szeq)
  have ev: "evict_locked order fc = (?vs, fold evict_one_item ?vs fc)"
    using False by (simp add: evict_locked_def n(2) fold_victims)
  have fin: "finite (dom (fc_items fc))" and tot: "?T = items_total (fc_items fc)" using ok by (auto simp: cache_ok_def)
  have all: "sum_list (map sz ?es) = ?T" using lf(5) by (simp add: tot szeq)
  have dv: "distinct ?vs" using lf(1) by (simp add: take_map [symmetric])
  have ent: "fc_items fc (fst e) = Some \<lparr>ci_size = sz e, ci_last_access = fst (snd e)\<rparr>" if "e \<in> set ?es" for e
    unfolding sz_def by (rule lru_entry [OF en that])
  have "set ?vs \<subseteq> set (map fst ?es)" unfolding take_map [symmetric] by (rule set_take_subset)
  then have sub: "set ?vs \<subseteq> dom (fc_items fc)" unfolding lf(2) .
  have "(\<Sum>h \<leftarrow> ?vs. ci_size (the (fc_items fc h))) = sum_list (map sz (take n ?es))"
  proof -
    have "ci_size (the (fc_items fc (fst e))) = sz e" if "e \<in> set (take n ?es)" for e
      using ent [OF in_set_takeD [OF that]] by simp
    then show ?thesis by (simp add: comp_def cong: map_cong)
  qed
  then have acct: "?T = sum_list (map sz (take n ?es)) + fc_total_bytes (fold evict_one_item ?vs fc)"
    using items_total_restrict [OF fin dv] sub evict_fold_ok [OF ok, of ?vs] tot by (auto simp: cache_ok_def)
  have le: "fc_total_bytes (fold evict_one_item ?vs fc) \<le> ?C"
  proof (cases "n < length ?es")
    case True
    then show ?thesis using n(3) acct freed by simp
  next
    case False
    then show ?thesis using n(1) acct all by simp
  qed
  have old: "ci_last_access v \<le> ci_last_access v'"
    if h: "h \<in> set ?vs" "fc_items fc h = Some v" "h' \<notin> set ?vs" "fc_items fc h' = Some v'" for h v h' v'
  proof -
    obtain a where a: "a < n" "a < length ?es" "fst (?es ! a) = h" using h(1) by (auto simp: in_set_conv_nth)
    have "h' \<in> set (map fst ?es)" using h(4) lf(2) by auto
    then obtain b where b: "b < length ?es" "fst (?es ! b) = h'" by (auto simp: in_set_conv_nth)
    have "n \<le> b"
    proof (rule ccontr)
      assume "\<not> n \<le> b"
      then have "?es ! b \<in> set (take n ?es)" using b(1) by (auto simp: in_set_conv_nth intro!: exI [of _ b])
      then show False using h(3) b(2) by force
    qed
    then have "fst (snd (?es ! a)) \<le> fst (snd (?es ! b))"
      using sorted_nth_mono [OF lf(4), of a b] a b by simp
    then show ?thesis using ent [OF nth_mem [OF a(2)]] ent [OF nth_mem [OF b(1)]] a(3) b(2) h(2,4) by simp
  qed
  have keep: "h \<notin> set ?vs" if h: "fc_items fc h = Some v" "ci_size v \<le> ?C"
    and newest: "\<And>h' v'. fc_items fc h' = Some v' \<Longrightarrow> h' \<noteq> h \<Longrightarrow> ci_last_access v' < ci_last_access v" for h v
  proof
    assume hv: "h \<in> set ?vs"
    have every: "h' \<in> set ?vs" if "fc_items fc h' = Some v'" for h' v'
      using old [OF hv h(1) _ that] newest [OF that] hv by (metis not_le)
    then have "dom (fc_items fc) \<subseteq> set ?vs" by auto
    then have "length ?es \<le> n"
    proof -
      have "length ?es = card (dom (fc_items fc))" using lf(1,2) by (metis distinct_card length_map)
      also have "\<dots> \<le> card (set ?vs)" using \<open>dom (fc_items fc) \<subseteq> set ?vs\<close> by (intro card_mono) auto
      also have "\<dots> \<le> n" using card_length [of ?vs] by simp
      finally show ?thesis .
    qed
    then have nl: "n = length ?es" using n(1) by simp
    obtain a where a: "a < length ?es" "fst (?es ! a) = h" using hv nl by (auto simp: in_set_conv_nth)
    have la: "sz (?es ! a) = ci_size v" "fst (snd (?es ! a)) = ci_last_access v"
      using ent [OF nth_mem [OF a(1)]] a(2) h(1) by auto
    have last: "a = length ?es - 1"
    proof (rule ccontr)
      assume "a \<noteq> length ?es - 1"
      then have b: "Suc a < length ?es" using a(1) by simp
      have hb: "fst (?es ! Suc a) \<noteq> h"
        using lf(1) a b by (metis Suc_lessD length_map n_not_Suc_n nth_eq_iff_index_eq nth_map)
      have "ci_last_access v \<le> fst (snd (?es ! Suc a))"
        using sorted_nth_mono [OF lf(4), of a "Suc a"] b la by simp
      then show False using newest [OF ent [OF nth_mem [OF b]] hb] by simp
    qed
    have "?T - sum_list (map sz (take a ?es)) > ?C" using n(4) nl a(1) freed by fastforce
    moreover have "sum_list (map sz ?es) = sum_list (map sz (take a ?es)) + sz (?es ! a)"
    proof -
      have "?es = take a ?es @ [?es ! a]" using a(1) last by (metis Suc_diff_1 length_greater_0_conv take_Suc_conv_app_nth take_all_iff order_refl list.size(3) not_less_zero)
      then show ?thesis by (metis (no_types, lifting) list.simps(8,9) map_append sum_list.Cons sum_list.Nil sum_list.append add.right_neutral)
    qed
    ultimately show False using all la h(2) by simp
  qed
  show ?thesis by (rule that [of ?vs]) (use ev sub le old keep in auto)
qed

section \<open>Publication\<close>

lemma publish_state:
  assumes "cache_ok fc" "fc_total_bytes fc + actual \<le> u64_max" "fc_clock fc < u64_max"
  obtains fc4 where "publish order h actual fc = evict_locked order fc4" and "cache_ok fc4"
    and "fc_items fc4 = (fc_items fc)(h \<mapsto> \<lparr>ci_size = actual, ci_last_access = fc_clock fc\<rparr>)"
    and "fc_clock fc4 = fc_clock fc + 1" and "fc_capacity fc4 = fc_capacity fc"
    and "fc_inflight fc4 = fc_inflight fc" and "fc_disk fc4 = fc_disk fc"
proof -
  define k where "k = fc_total_bytes fc - (case fc_items fc h of None \<Rightarrow> 0 | Some p \<Rightarrow> ci_size p)"
  define fc4 where "fc4 = fc\<lparr>fc_clock := fc_clock fc + 1,
    fc_items := (fc_items fc)(h \<mapsto> \<lparr>ci_size = actual, ci_last_access = fc_clock fc\<rparr>), fc_total_bytes := k + actual\<rparr>"
  have fin: "finite (dom (fc_items fc))" and tot: "fc_total_bytes fc = items_total (fc_items fc)"
    and age: "\<And>j v. fc_items fc j = Some v \<Longrightarrow> ci_last_access v < fc_clock fc"
    using assms(1) by (auto simp: cache_ok_def)
  have k: "k = items_total ((fc_items fc)(h := None))"
    using tot items_total_remove [OF fin, of h] by (cases "fc_items fc h") (auto simp: k_def fun_upd_idem)
  have "publish order h actual fc = evict_locked order fc4"
    using assms by (simp add: publish_def next_tick_def fc4_def k_def Let_def split: option.split)
  moreover have "cache_ok fc4"
    using fin k age by (auto simp: cache_ok_def fc4_def items_total_upd less_Suc_eq)
  ultimately show ?thesis using that [of fc4] by (simp add: fc4_def)
qed

lemma publish_spec:
  assumes ok: "cache_ok fc" and fits: "fc_total_bytes fc + actual \<le> u64_max" "fc_clock fc < u64_max"
    and cap: "actual \<le> fc_capacity fc" and en: "distinct order" "set order = insert h (dom (fc_items fc))"
    and r: "publish order h actual fc = (vs, fc')"
  shows "cache_ok fc'" and "fc_total_bytes fc' \<le> fc_capacity fc'" and "h \<notin> set vs" and "set vs \<subseteq> dom (fc_items fc)"
    and "fc_items fc' = (fc_items fc)(h \<mapsto> \<lparr>ci_size = actual, ci_last_access = fc_clock fc\<rparr>) |` (- set vs)"
    and "fc_disk fc' = fc_disk fc" "fc_inflight fc' = fc_inflight fc" "fc_capacity fc' = fc_capacity fc"
    and "\<And>j v j' v'. j \<in> set vs \<Longrightarrow> fc_items fc j = Some v \<Longrightarrow> fc_items fc' j' = Some v' \<Longrightarrow>
      ci_last_access v \<le> ci_last_access v'"
proof -
  obtain fc4 where p: "publish order h actual fc = evict_locked order fc4" and ok4: "cache_ok fc4"
    and it: "fc_items fc4 = (fc_items fc)(h \<mapsto> \<lparr>ci_size = actual, ci_last_access = fc_clock fc\<rparr>)"
    and fr: "fc_clock fc4 = fc_clock fc + 1" "fc_capacity fc4 = fc_capacity fc"
      "fc_inflight fc4 = fc_inflight fc" "fc_disk fc4 = fc_disk fc"
    by (rule publish_state [OF ok fits])
  have en4: "enumerates order (fc_items fc4)" using en by (auto simp: enumerates_def it)
  have age: "fc_items fc j = Some v \<Longrightarrow> ci_last_access v < fc_clock fc" for j v using ok by (auto simp: cache_ok_def)
  obtain ws where w: "fst (evict_locked order fc4) = ws" "snd (evict_locked order fc4) = fold evict_one_item ws fc4"
      "set ws \<subseteq> dom (fc_items fc4)" "fc_total_bytes (fold evict_one_item ws fc4) \<le> fc_capacity fc4"
    and old: "\<forall>h v h' v'. h \<in> set ws \<longrightarrow> fc_items fc4 h = Some v \<longrightarrow> h' \<notin> set ws \<longrightarrow>
        fc_items fc4 h' = Some v' \<longrightarrow> ci_last_access v \<le> ci_last_access v'"
    and newest: "\<forall>h v. fc_items fc4 h = Some v \<longrightarrow> ci_size v \<le> fc_capacity fc4 \<longrightarrow>
        (\<forall>h' v'. fc_items fc4 h' = Some v' \<longrightarrow> h' \<noteq> h \<longrightarrow> ci_last_access v' < ci_last_access v) \<longrightarrow> h \<notin> set ws"
    by (rule evict_locked_spec [OF ok4 en4])
  have vs: "vs = ws" and fc': "fc' = fold evict_one_item ws fc4" using p r w(1,2) by (metis fst_conv, metis snd_conv)
  show "cache_ok fc'" unfolding fc' by (rule evict_fold_ok [OF ok4])
  show "fc_total_bytes fc' \<le> fc_capacity fc'" using w(4) by (simp add: fc')
  show hn: "h \<notin> set vs" unfolding vs using cap fr(2) age by (intro newest [rule_format, of h]) (auto simp: it split: if_splits)
  show "set vs \<subseteq> dom (fc_items fc)" using w(3) hn by (auto simp: vs it split: if_splits)
  show it': "fc_items fc' = (fc_items fc)(h \<mapsto> \<lparr>ci_size = actual, ci_last_access = fc_clock fc\<rparr>) |` (- set vs)"
    by (simp add: fc' vs it)
  show "fc_disk fc' = fc_disk fc" "fc_inflight fc' = fc_inflight fc" "fc_capacity fc' = fc_capacity fc"
    by (simp_all add: fc' fr)
  show "ci_last_access v \<le> ci_last_access v'"
    if "j \<in> set vs" "fc_items fc j = Some v" "fc_items fc' j' = Some v'" for j v j' v'
  proof -
    have "j \<noteq> h" using that(1) hn by blast
    then have "fc_items fc4 j = Some v" using that(2) by (simp add: it)
    moreover have "j' \<notin> set ws" "fc_items fc4 j' = Some v'"
      using that(3) by (auto simp: it' it vs restrict_map_def split: if_splits)
    ultimately show ?thesis using old that(1) vs by blast
  qed
qed

lemma evict_locked_capacity [simp]: "fc_capacity (snd (evict_locked order fc)) = fc_capacity fc"
  by (simp add: evict_locked_def case_prod_beta)

lemma populate_leader_capacity: "fc_capacity (snd (populate_leader order io h expected fc)) = fc_capacity fc"
  by (simp add: populate_leader_def populate_inner_def publish_def next_tick_def inflight_guard_drop_def
      case_prod_beta Let_def split: option.split)

text \<open>
  C22: a download that succeeds with the expected size and fits the capacity is published: the
  population returns success, the entry and its file are there and were not themselves evicted, the
  cache is within its capacity with its accounting exact, every entry evicted to make room had been
  used no later than every entry kept, files go only with their entries, and the hash is no longer
  in flight.
\<close>

theorem populate_publishes:
  assumes ok: "cache_ok fc" and fits: "fc_total_bytes fc + actual \<le> u64_max" "fc_clock fc < u64_max"
    and cap: "actual \<le> fc_capacity fc" and sz: "expected = None \<or> expected = Some actual"
    and en: "distinct order" "set order = insert h (dom (fc_items fc))"
    and io: "pi_mkdir io" "pi_fetch io" "pi_stat io = Some actual" "pi_rename io"
  shows "\<exists>fc' evicted. populate_leader order io h expected fc = (Inr (), fc') \<and> cache_ok fc' \<and>
    fc_total_bytes fc' \<le> fc_capacity fc' \<and> h \<notin> evicted \<and> h \<notin> fc_inflight fc' \<and>
    fc_items fc' = (fc_items fc)(h \<mapsto> \<lparr>ci_size = actual, ci_last_access = fc_clock fc\<rparr>) |` (- evicted) \<and>
    fc_disk fc' = (fc_disk fc)(h \<mapsto> actual) |` (- evicted) \<and>
    (\<forall>j v j' v'. j \<in> evicted \<longrightarrow> fc_items fc j = Some v \<longrightarrow> fc_items fc' j' = Some v' \<longrightarrow>
      ci_last_access v \<le> ci_last_access v')"
proof -
  let ?d = "fc\<lparr>fc_disk := (fc_disk fc)(h \<mapsto> actual)\<rparr>"
  have ok': "cache_ok ?d" using ok by (simp add: cache_ok_def)
  obtain vs f where p: "publish order h actual ?d = (vs, f)" by fastforce
  note ps = publish_spec [OF ok' _ _ _ en(1) _ p, simplified, OF fits cap en(2)]
  let ?g = "inflight_guard_drop h (f\<lparr>fc_disk := fc_disk f |` (- set vs)\<rparr>)"
  have "populate_leader order io h expected fc = (Inr (), ?g)"
    using io cap sz p by (auto simp: populate_leader_def populate_inner_def Let_def)
  moreover have "cache_ok ?g" using ps(1) by (simp add: cache_ok_def inflight_guard_drop_def)
  ultimately show ?thesis using ps by (intro exI [of _ ?g] exI [of _ "set vs"]) (auto simp: inflight_guard_drop_def)
qed

theorem populate_publishes_witness:
  "\<exists>fc' evicted. populate_leader [''ab'', ''cd''] \<lparr>pi_mkdir = True, pi_fetch = True, pi_stat = Some 7, pi_rename = True\<rparr>
      ''cd'' (Some 7) (fc_new 10 [(''ab'', 5, 100)]) = (Inr (), fc') \<and> fc_total_bytes fc' \<le> 10 \<and>
    fc_items fc' ''cd'' = Some \<lparr>ci_size = 7, ci_last_access = 101\<rparr> \<and> ''cd'' \<notin> evicted"
proof -
  let ?c = "fc_new 10 [(''ab'', 5, 100)]"
  have it: "fc_items ?c = [''ab'' \<mapsto> \<lparr>ci_size = 5, ci_last_access = 100\<rparr>]" "fc_total_bytes ?c = 5"
    "fc_clock ?c = 101" "fc_capacity ?c = 10"
    by (simp_all add: fc_new_def scan_existing_def scan_entry_def u64_max_def)
  have ok: "cache_ok ?c" using it by (simp add: cache_ok_def items_total_def)
  let ?io = "\<lparr>pi_mkdir = True, pi_fetch = True, pi_stat = Some 7, pi_rename = True\<rparr> :: populate_io"
  have hyps: "fc_total_bytes ?c + 7 \<le> u64_max" "fc_clock ?c < u64_max" "7 \<le> fc_capacity ?c"
    "distinct [''ab'', ''cd'']" "set [''ab'', ''cd''] = insert ''cd'' (dom (fc_items ?c))"
    "pi_mkdir ?io" "pi_fetch ?io" "pi_stat ?io = Some 7" "pi_rename ?io"
    using it by (auto simp: u64_max_def)
  obtain fc' ev where r: "populate_leader [''ab'', ''cd''] \<lparr>pi_mkdir = True, pi_fetch = True, pi_stat = Some 7, pi_rename = True\<rparr>
      ''cd'' (Some 7) ?c = (Inr (), fc')" "fc_total_bytes fc' \<le> fc_capacity fc'" "''cd'' \<notin> ev"
    "fc_items fc' = (fc_items ?c)(''cd'' \<mapsto> \<lparr>ci_size = 7, ci_last_access = fc_clock ?c\<rparr>) |` (- ev)"
    using populate_publishes [OF ok, of 7 "Some 7" "[''ab'', ''cd'']" "''cd''" ?io] hyps by blast
  have "fc_capacity fc' = 10" using arg_cong [OF r(1), of "fc_capacity \<circ> snd"] populate_leader_capacity it(4) by simp
  then show ?thesis using r it(3) by (intro exI [of _ fc'] exI [of _ ev]) (simp add: restrict_map_def)
qed

section \<open>Interleaved populations\<close>

text \<open>
  A state of the running cache is the cache with the list of the hashes whose population has a
  leader.  Tasks interleave at their suspension points; the file system may lose a file at any time.
  The clock and the byte count stay below \<open>2 ^ 64\<close>.
\<close>

inductive cache_step :: "file_cache \<times> string list \<Rightarrow> file_cache \<times> string list \<Rightarrow> bool" where
  step_open: "fc_clock fc < u64_max \<Longrightarrow> cache_step (fc, ls) (snd (try_open h fc), ls)"
| step_forget: "cache_step (fc, ls) (fc_forget h fc, ls)"
| step_vanish: "cache_step (fc, ls) (fc\<lparr>fc_disk := (fc_disk fc)(h := None)\<rparr>, ls)"
| step_begin: "populate_begin h ok fc = (st, fc') \<Longrightarrow>
    cache_step (fc, ls) (fc', if st = Leader then h # ls else ls)"
| step_finish: "h \<in> set ls \<Longrightarrow> fc_clock fc < u64_max \<Longrightarrow> fc_total_bytes fc + fc_capacity fc \<le> u64_max \<Longrightarrow>
    distinct order \<Longrightarrow> set order = insert h (dom (fc_items fc)) \<Longrightarrow>
    cache_step (fc, ls) (snd (populate_leader order io h expected fc), remove1 h ls)"

definition cache_inv :: "file_cache \<times> string list \<Rightarrow> bool" where
  "cache_inv s \<longleftrightarrow> cache_ok (fst s) \<and> distinct (snd s) \<and> set (snd s) = fc_inflight (fst s) \<and>
     fc_total_bytes (fst s) \<le> fc_capacity (fst s)"

lemma fc_forget_ok:
  assumes "cache_ok fc"
  shows "cache_ok (fc_forget h fc)" "fc_total_bytes (fc_forget h fc) \<le> fc_total_bytes fc"
    and "fc_inflight (fc_forget h fc) = fc_inflight fc" "fc_capacity (fc_forget h fc) = fc_capacity fc"
proof -
  have "fc_forget h fc = (evict_one_item h fc)\<lparr>fc_disk := (fc_disk fc)(h := None)\<rparr>"
    by (simp add: fc_forget_def evict_one_item_def Let_def split: option.split)
  then show "cache_ok (fc_forget h fc)" "fc_inflight (fc_forget h fc) = fc_inflight fc"
      "fc_capacity (fc_forget h fc) = fc_capacity fc"
    using evict_one_item_ok [OF assms, of h] by (simp_all add: cache_ok_def)
  show "fc_total_bytes (fc_forget h fc) \<le> fc_total_bytes fc"
    by (simp add: fc_forget_def Let_def split: option.split)
qed

lemma items_total_touch:
  "m h = Some v \<Longrightarrow> items_total (m(h \<mapsto> v\<lparr>ci_last_access := t\<rparr>)) = items_total m"
  unfolding items_total_def by (intro sum.cong) auto

lemma try_open_ok:
  assumes "cache_ok fc" "fc_clock fc < u64_max"
  shows "cache_ok (snd (try_open h fc)) \<and> fc_total_bytes (snd (try_open h fc)) \<le> fc_total_bytes fc \<and>
    fc_inflight (snd (try_open h fc)) = fc_inflight fc \<and> fc_capacity (snd (try_open h fc)) = fc_capacity fc"
proof (cases "h = [] \<or> fc_items fc h = None")
  case True
  then show ?thesis using assms by (auto simp: try_open_def)
next
  case False
  then obtain v where v: "fc_items fc h = Some v" "h \<noteq> []" by auto
  let ?f = "fc\<lparr>fc_clock := fc_clock fc + 1, fc_items := (fc_items fc)(h \<mapsto> v\<lparr>ci_last_access := fc_clock fc\<rparr>)\<rparr>"
  have ok: "cache_ok ?f"
    using assms v by (auto simp: cache_ok_def items_total_touch less_Suc_eq)
  have "snd (try_open h fc) = (case fc_disk fc h of Some sz \<Rightarrow> ?f | None \<Rightarrow> fc_forget h ?f)"
    using v assms(2) by (simp add: try_open_def next_tick_def split: option.split)
  then show ?thesis using ok fc_forget_ok [OF ok, of h] by (auto split: option.split)
qed

lemma populate_leader_ok:
  assumes ok: "cache_ok fc" and bd: "fc_total_bytes fc \<le> fc_capacity fc" "fc_clock fc < u64_max"
      "fc_total_bytes fc + fc_capacity fc \<le> u64_max"
    and en: "distinct order" "set order = insert h (dom (fc_items fc))"
    and r: "populate_leader order io h expected fc = (r, fc')"
  shows "cache_ok fc' \<and> fc_total_bytes fc' \<le> fc_capacity fc' \<and> fc_inflight fc' = fc_inflight fc - {h}"
proof (cases "\<exists>actual. pi_mkdir io \<and> pi_fetch io \<and> pi_stat io = Some actual \<and> pi_rename io \<and>
    (expected = None \<or> expected = Some actual) \<and> actual \<le> fc_capacity fc")
  case True
  then obtain a where a: "pi_mkdir io" "pi_fetch io" "pi_stat io = Some a" "pi_rename io"
    "expected = None \<or> expected = Some a" "a \<le> fc_capacity fc" by blast
  let ?d = "fc\<lparr>fc_disk := (fc_disk fc)(h \<mapsto> a)\<rparr>"
  have ok': "cache_ok ?d" using ok by (simp add: cache_ok_def)
  obtain vs f where p: "publish order h a ?d = (vs, f)" by fastforce
  have fits: "fc_total_bytes fc + a \<le> u64_max" using bd(3) a(6) by simp
  note ps = publish_spec [OF ok' _ _ _ en(1) _ p, simplified, OF fits bd(2) a(6) en(2)]
  have "fc' = inflight_guard_drop h (f\<lparr>fc_disk := fc_disk f |` (- set vs)\<rparr>)"
    using r a p by (auto simp: populate_leader_def populate_inner_def Let_def)
  then show ?thesis using ps by (simp add: cache_ok_def inflight_guard_drop_def)
next
  case False
  then have "snd (populate_inner order io h expected fc) = fc"
    by (auto simp: populate_inner_def split: option.split)
  then have "fc' = inflight_guard_drop h fc"
    using r by (metis (mono_tags, lifting) populate_leader_def case_prod_beta prod.inject)
  then show ?thesis using ok bd by (simp add: inflight_guard_drop_def cache_ok_def)
qed

lemma cache_inv_step: "cache_step s s' \<Longrightarrow> cache_inv s \<Longrightarrow> cache_inv s'"
proof (induction rule: cache_step.induct)
  case (step_open fc ls h)
  then show ?case using try_open_ok [of fc h] by (auto simp: cache_inv_def)
next
  case (step_forget fc ls h)
  then show ?case using fc_forget_ok [of fc h] by (auto simp: cache_inv_def)
next
  case (step_vanish fc ls h)
  then show ?case by (simp add: cache_inv_def cache_ok_def)
next
  case (step_begin h ok fc st fc' ls)
  then show ?case by (auto simp: cache_inv_def cache_ok_def populate_begin_def split: if_splits)
next
  case (step_finish h ls fc order io expected)
  obtain r fc' where "populate_leader order io h expected fc = (r, fc')" by fastforce
  then show ?case
    using step_finish populate_leader_ok [of fc order h io expected r fc'] by (simp add: cache_inv_def)
qed

lemma cache_inv_reach: "cache_step\<^sup>*\<^sup>* s s' \<Longrightarrow> cache_inv s \<Longrightarrow> cache_inv s'"
  by (induction rule: rtranclp_induct) (auto intro: cache_inv_step)

lemma scan_fold:
  assumes "distinct (map fst files)" "\<forall>(_, _, t) \<in> set files. t < u64_max"
    and "sum_list (map (\<lambda>(_, sz, _). sz) files) + tot \<le> u64_max" "fst ` set files \<inter> dom m = {}"
    and "finite (dom m)" "tot = items_total m" "\<forall>h v. m h = Some v \<longrightarrow> ci_last_access v \<le> mt" "mt < u64_max"
    and "fold scan_entry files (m, tot, mt) = (m', tot', mt')"
  shows "finite (dom m') \<and> tot' = items_total m' \<and> tot' = sum_list (map (\<lambda>(_, sz, _). sz) files) + tot \<and>
    (\<forall>h v. m' h = Some v \<longrightarrow> ci_last_access v \<le> mt') \<and> mt' < u64_max"
  using assms
proof (induction files arbitrary: m tot mt)
  case Nil
  then show ?case by auto
next
  case (Cons f files)
  obtain h sz t where f: "f = (h, sz, t)" by (cases f)
  let ?m = "m(h \<mapsto> \<lparr>ci_size = sz, ci_last_access = t\<rparr>)" and ?mt = "if t > mt then t else mt"
  have h: "m h = None" using Cons.prems(4) f by auto
  have it: "tot + sz = items_total ?m"
    using items_total_upd [OF Cons.prems(5)] h Cons.prems(6) by (simp add: fun_upd_idem)
  have w: "wrap64 (tot + sz) = tot + sz" using Cons.prems(3) f by simp
  have scan: "scan_entry f (m, tot, mt) = (?m, tot + sz, ?mt)" using w by (simp add: f scan_entry_def)
  have r: "fold scan_entry files (?m, tot + sz, ?mt) = (m', tot', mt')"
    using Cons.prems(9) scan unfolding fold.simps comp_apply by simp
  have "finite (dom m') \<and> tot' = items_total m' \<and> tot' = sum_list (map (\<lambda>(_, sz, _). sz) files) + (tot + sz) \<and>
    (\<forall>h v. m' h = Some v \<longrightarrow> ci_last_access v \<le> mt') \<and> mt' < u64_max"
  proof (rule Cons.IH [OF _ _ _ _ _ it _ _ r])
    show "distinct (map fst files)" using Cons.prems(1) by simp
    show "\<forall>(_, _, t) \<in> set files. t < u64_max" using Cons.prems(2) by simp
    show "sum_list (map (\<lambda>(_, sz, _). sz) files) + (tot + sz) \<le> u64_max" using Cons.prems(3) f by simp
    show "fst ` set files \<inter> dom ?m = {}" using Cons.prems(1,4) f by auto
    show "finite (dom ?m)" using Cons.prems(5) by simp
    show "\<forall>h v. ?m h = Some v \<longrightarrow> ci_last_access v \<le> ?mt" using Cons.prems(7) by (auto split: if_splits) (meson le_trans less_imp_le)
    show "?mt < u64_max" using Cons.prems(2,8) f by simp
  qed
  then show ?case by (simp add: f ac_simps)
qed

lemma fc_new_inv:
  assumes "distinct (map fst files)" and "sum_list (map (\<lambda>(_, sz, _). sz) files) \<le> capacity" "capacity \<le> u64_max"
    and "\<forall>(_, _, t) \<in> set files. t < u64_max"
  shows "cache_inv (fc_new capacity files, [])"
proof -
  obtain m tot mt where r: "fold scan_entry files (Map.empty, 0, 0) = (m, tot, mt)" by (metis prod_cases3)
  have "finite (dom m) \<and> tot = items_total m \<and> tot = sum_list (map (\<lambda>(_, sz, _). sz) files) + 0 \<and>
    (\<forall>h v. m h = Some v \<longrightarrow> ci_last_access v \<le> mt) \<and> mt < u64_max"
    by (rule scan_fold [OF assms(1,4) _ _ _ _ _ _ r]) (use assms in \<open>auto simp: items_total_def u64_max_def\<close>)
  moreover have "sat_add64 mt 1 = mt + 1" using calculation by (intro sat_add64_id) simp
  ultimately show ?thesis
    using assms(2) r by (auto simp: cache_inv_def cache_ok_def fc_new_def scan_existing_def less_Suc_eq_le)
qed

text \<open>
  C23: from a freshly opened cache within its capacity, whatever opens, invalidations, losses of
  files, populations and failures interleave, at most one population per hash has a leader, exactly
  the hashes with a leader are in flight, the byte count is the sum of the sizes of the entries and
  never exceeds the capacity, and every entry is older than the clock.
\<close>

theorem cache_reachable_inv:
  assumes "distinct (map fst files)" and "sum_list (map (\<lambda>(_, sz, _). sz) files) \<le> capacity" "capacity \<le> u64_max"
    and "\<forall>(_, _, t) \<in> set files. t < u64_max"
    and "cache_step\<^sup>*\<^sup>* (fc_new capacity files, []) (fc, leaders)"
  shows "cache_ok fc \<and> distinct leaders \<and> set leaders = fc_inflight fc \<and> fc_total_bytes fc \<le> fc_capacity fc"
proof -
  have "cache_inv (fc_new capacity files, [])" using fc_new_inv [OF assms(1-4)] .
  then have "cache_inv (fc, leaders)" by (rule cache_inv_reach [OF assms(5)])
  then show ?thesis by (simp add: cache_inv_def)
qed

theorem cache_reachable_inv_witness:
  "\<exists>fc. cache_step\<^sup>*\<^sup>* (fc_new 10 [(''ab'', 5, 100)], []) (fc, [''cd'']) \<and> cache_ok fc \<and> fc_inflight fc = {''cd''} \<and>
    fc_total_bytes fc \<le> fc_capacity fc"
proof -
  let ?c = "fc_new 10 [(''ab'', 5, 100)]"
  have "populate_begin ''cd'' True ?c = (Leader, ?c\<lparr>fc_inflight := {''cd''}\<rparr>)"
    by (simp add: populate_begin_def fc_new_def scan_existing_def scan_entry_def)
  from step_begin [OF this, of "[]"] have "cache_step (?c, []) (?c\<lparr>fc_inflight := {''cd''}\<rparr>, [''cd''])" by simp
  then have r: "cache_step\<^sup>*\<^sup>* (?c, []) (?c\<lparr>fc_inflight := {''cd''}\<rparr>, [''cd''])" by (rule r_into_rtranclp)
  then show ?thesis
    using cache_reachable_inv [OF _ _ _ _ r] by (auto simp: u64_max_def intro!: exI [of _ "?c\<lparr>fc_inflight := {''cd''}\<rparr>"])
qed

end
