(* ===== verification/Flush.thy ===== *)
theory Flush
  imports Staging
begin

text \<open>
  \<open>src/src/virtual_fs/flush.rs\<close>: the write-back queue.  Dirty inodes and remote deletes are queued;
  a background loop collects signals for a bounded window, drains the delete queue and flushes the
  dirty inodes in one batch: snapshot, upload in chunks, one Hub commit, commit applied to the table
  under the generation check.

  The uploads, the Hub and the file system are arguments; so is what other tasks do to the table and
  to the queue while the batch waits (\<open>en_during_upload\<close>, \<open>en_during_commit\<close>, \<open>meanwhile\<close>).
\<close>

section \<open>The queue\<close>

datatype batch_op =
  is_AddFile: AddFile (bo_path: string) (bo_xet_hash: string) (bo_mtime: nat) (bo_content_type: "string option")
| is_DeleteFile: DeleteFile (bo_path: string)

datatype flush_signal = Dirty nat | WakeDeletes

record flush_manager =
  fm_tx_open :: bool
  fm_channel :: "flush_signal list"
  fm_errors :: "nat \<rightharpoonup> string"
  fm_pending_deletes :: "string list"

definition fm_new :: flush_manager where
  "fm_new = \<lparr>fm_tx_open = True, fm_channel = [], fm_errors = Map.empty, fm_pending_deletes = []\<rparr>"

definition fm_send :: "flush_signal \<Rightarrow> flush_manager \<Rightarrow> flush_manager" where
  "fm_send sig fm = (if fm_tx_open fm then fm\<lparr>fm_channel := fm_channel fm @ [sig]\<rparr> else fm)"

definition fm_enqueue :: "nat \<Rightarrow> flush_manager \<Rightarrow> flush_manager" where
  "fm_enqueue ino = fm_send (Dirty ino)"

definition check_error :: "nat \<Rightarrow> flush_manager \<Rightarrow> string option \<times> flush_manager" where
  "check_error ino fm = (fm_errors fm ino, fm\<lparr>fm_errors := (fm_errors fm)(ino := None)\<rparr>)"

definition enqueue_delete :: "string \<Rightarrow> flush_manager \<Rightarrow> flush_manager" where
  "enqueue_delete path fm =
    fm_send WakeDeletes (fm\<lparr>fm_pending_deletes := fm_pending_deletes fm @ [path]\<rparr>)"

definition cancel_delete :: "string \<Rightarrow> flush_manager \<Rightarrow> flush_manager" where
  "cancel_delete path fm =
    fm\<lparr>fm_pending_deletes := filter (\<lambda>p. p \<noteq> path) (fm_pending_deletes fm)\<rparr>"

definition cancel_delete_prefix :: "string \<Rightarrow> flush_manager \<Rightarrow> flush_manager" where
  "cancel_delete_prefix pre fm =
    fm\<lparr>fm_pending_deletes := filter (\<lambda>p. \<not> starts_with p pre) (fm_pending_deletes fm)\<rparr>"

text \<open>
  \<open>hub\<close> answers a batch (\<open>Some\<close> is an error); \<open>meanwhile\<close> is what other tasks do to the queue,
  empty after the \<open>take\<close>, until the answer comes.  The first component is the batch sent.
\<close>

definition flush_pending_deletes ::
  "(batch_op list \<Rightarrow> string option) \<Rightarrow> (string list \<Rightarrow> string list) \<Rightarrow> string list \<Rightarrow>
   batch_op list \<times> string list" where
  "flush_pending_deletes hub meanwhile queue =
    (if queue = [] then ([], queue)
     else (let ops = map DeleteFile queue;
               queue' = meanwhile []
           in case hub ops of
                None \<Rightarrow> (ops, queue')
              | Some _ \<Rightarrow> (ops, fold (\<lambda>op q. case op of DeleteFile p \<Rightarrow> q @ [p] | AddFile _ _ _ _ \<Rightarrow> q) ops queue')))"

definition flush_deletes ::
  "(batch_op list \<Rightarrow> string option) \<Rightarrow> (string list \<Rightarrow> string list) \<Rightarrow> flush_manager \<Rightarrow> flush_manager" where
  "flush_deletes hub meanwhile fm =
    fm\<lparr>fm_pending_deletes := snd (flush_pending_deletes hub meanwhile (fm_pending_deletes fm))\<rparr>"

text \<open>The part of \<open>shutdown\<close> that changes the queue: the last dirty inodes, then no more signals.\<close>

definition shutdown_enqueue :: "nat list \<Rightarrow> flush_manager \<Rightarrow> flush_manager" where
  "shutdown_enqueue dirty fm = (fold (\<lambda>ino. fm_send (Dirty ino)) dirty fm)\<lparr>fm_tx_open := False\<rparr>"

section \<open>Collecting a batch\<close>

text \<open>
  The channel as the list of its signals with their arrival times.  \<open>collect_signals\<close> is the inner
  loop of \<open>flush_loop\<close>; it returns the signals collected, the time at which it stops and what is left.
\<close>

fun collect_signals ::
  "nat \<Rightarrow> nat \<Rightarrow> nat \<Rightarrow> (nat \<times> flush_signal) list \<Rightarrow> flush_signal list \<times> nat \<times> (nat \<times> flush_signal) list" where
  "collect_signals debounce deadline now [] =
    ([], if deadline - now = 0 then now else now + min debounce (deadline - now), [])"
| "collect_signals debounce deadline now ((at, sig) # rest) =
    (if deadline - now = 0 then ([], now, (at, sig) # rest)
     else (let timeout = min debounce (deadline - now)
           in if at > now + timeout then ([], now + timeout, (at, sig) # rest)
              else (case collect_signals debounce deadline (max now at) rest of
                     (sigs, stop, left) \<Rightarrow> (sig # sigs, stop, left))))"

lemma collect_signals_prefix:
  "collect_signals d dl now arr = (sigs, stop, left) \<Longrightarrow> map snd arr = sigs @ map snd left \<and> length left \<le> length arr"
proof (induction d dl now arr arbitrary: sigs stop left rule: collect_signals.induct)
  case (2 d dl now at sig rest)
  show ?case
  proof (cases "dl - now = 0 \<or> at > now + min d (dl - now)")
    case True
    then show ?thesis using "2.prems" by (cases "dl - now = 0") (auto simp: Let_def)
  next
    case False
    obtain s' e' l' where r: "collect_signals d dl (max now at) rest = (s', e', l')" by (metis prod_cases3)
    then show ?thesis using "2.IH" [OF _ refl _ r] "2.prems" False by (auto simp: Let_def)
  qed
qed (auto split: if_splits)

text \<open>
  \<open>flush_loop\<close> on a channel that has been closed after the given arrivals: the batches it handles
  with the times of its first signal and of its completion.  \<open>busy\<close> is how long a batch takes.
\<close>

function flush_loop ::
  "nat \<Rightarrow> nat \<Rightarrow> (flush_signal list \<Rightarrow> nat) \<Rightarrow> nat \<Rightarrow> (nat \<times> flush_signal) list \<Rightarrow>
   (nat \<times> nat \<times> flush_signal list) list" where
  "flush_loop debounce window busy now arrivals =
    (case arrivals of
      [] \<Rightarrow> []
    | (at, first) # rest \<Rightarrow>
        (let start = max now at;
             (sigs, stop, left) = collect_signals debounce (start + window) start rest;
             batch = first # sigs
         in (start, stop, batch) # flush_loop debounce window busy (stop + busy batch) left))"
  by pat_completeness auto
termination
  by (relation "measure (\<lambda>(_, _, _, _, a). length a)")
    (auto dest!: collect_signals_prefix [OF sym] simp: less_Suc_eq_le)

definition signal_inos :: "flush_signal list \<Rightarrow> nat list" where
  "signal_inos sigs = List.map_filter (\<lambda>s. case s of Dirty ino \<Rightarrow> Some ino | WakeDeletes \<Rightarrow> None) sigs"

section \<open>Flushing a batch\<close>

record flush_item =
  fi_ino :: nat
  fi_full_path :: string
  fi_pending_deletes :: "string list"
  fi_dirty_generation :: nat
  fi_prev_xet_hash :: "string option"

text \<open>\<open>filter(|ino| seen.insert(*ino))\<close>.\<close>

fun first_seen :: "nat set \<Rightarrow> nat list \<Rightarrow> nat list" where
  "first_seen seen [] = []"
| "first_seen seen (x # xs) = (if x \<in> seen then first_seen seen xs else x # first_seen (insert x seen) xs)"

definition dedup_last :: "nat list \<Rightarrow> nat list" where
  "dedup_last pending = rev (first_seen {} (rev pending))"

definition MISSING :: "string \<Rightarrow> string" where
  "MISSING path = ''staging file missing for '' @ path"

definition snapshot_one ::
  "(nat \<Rightarrow> bool) \<Rightarrow> inode_table \<Rightarrow> nat \<Rightarrow> flush_item list \<times> (nat \<rightharpoonup> string) \<Rightarrow> flush_item list \<times> (nat \<rightharpoonup> string)" where
  "snapshot_one staged t ino st =
    (case t_inodes t ino of
      None \<Rightarrow> st
    | Some e \<Rightarrow>
        if e_nlink e = 0 then st
        else if \<not> is_dirty e then st
        else if \<not> staged ino then (fst st, (snd st)(ino \<mapsto> MISSING (e_full_path e)))
        else (fst st @ [\<lparr>fi_ino = ino, fi_full_path = e_full_path e, fi_pending_deletes = e_pending_deletes e,
                fi_dirty_generation = e_dirty_generation e, fi_prev_xet_hash = e_xet_hash e\<rparr>], snd st))"

definition flush_snapshot ::
  "(nat \<Rightarrow> bool) \<Rightarrow> inode_table \<Rightarrow> nat list \<Rightarrow> (nat \<rightharpoonup> string) \<Rightarrow> flush_item list \<times> (nat \<rightharpoonup> string)" where
  "flush_snapshot staged t inos errs = fold (snapshot_one staged t) inos ([], errs)"

definition UPLOAD_CHUNK_SIZE :: nat where "UPLOAD_CHUNK_SIZE = 500"

text \<open>
  \<open>upload\<close> uploads the staging files of the inodes and gives the hash and size of each; a list of
  results of the wrong length fails the assertion.
\<close>

datatype upload_outcome = Uploaded "(string \<times> nat) list" | UploadFailed string | UploadPanic

function upload_chunks :: "(nat list \<Rightarrow> string + (string \<times> nat) list) \<Rightarrow> flush_item list \<Rightarrow> upload_outcome" where
  "upload_chunks upload items =
    (if items = [] then Uploaded []
     else (let chunk = take UPLOAD_CHUNK_SIZE items
           in case upload (map fi_ino chunk) of
        Inl e \<Rightarrow> UploadFailed e
      | Inr results \<Rightarrow>
          if length results \<noteq> length chunk then UploadPanic
          else (case upload_chunks upload (drop UPLOAD_CHUNK_SIZE items) of
             Uploaded others \<Rightarrow> Uploaded (results @ others)
           | failure \<Rightarrow> failure)))"
  by pat_completeness auto
termination
  by (relation "measure (\<lambda>(_, items). length items)") (auto simp: UPLOAD_CHUNK_SIZE_def)

declare upload_chunks.simps [simp del]

definition item_unchanged :: "flush_item \<times> string \<times> nat \<Rightarrow> bool" where
  "item_unchanged r = (case r of (item, hash, _) \<Rightarrow>
     fi_pending_deletes item = [] \<and> fi_prev_xet_hash item = Some hash)"

definition item_adds :: "nat \<Rightarrow> flush_item \<times> string \<times> nat \<Rightarrow> batch_op list" where
  "item_adds mtime r = (case r of (item, hash, _) \<Rightarrow> [AddFile (fi_full_path item) hash mtime None])"

definition item_deletes :: "flush_item \<times> string \<times> nat \<Rightarrow> batch_op list" where
  "item_deletes r = map DeleteFile (fi_pending_deletes (fst r))"

definition flush_ops :: "nat \<Rightarrow> (flush_item \<times> string \<times> nat) list \<Rightarrow> batch_op list" where
  "flush_ops mtime rs =
    (let changed = filter (\<lambda>r. \<not> item_unchanged r) rs
     in concat (map (item_adds mtime) changed) @ concat (map item_deletes changed))"

definition commit_item :: "nat \<Rightarrow> flush_item \<times> string \<times> nat \<Rightarrow> inode_table \<Rightarrow> inode_table" where
  "commit_item now r = (case r of (item, hash, sz) \<Rightarrow>
     upd_inode (fi_ino item) (apply_commit hash sz (fi_dirty_generation item) now))"

definition commit_items ::
  "nat \<Rightarrow> (flush_item \<times> string \<times> nat \<Rightarrow> bool) \<Rightarrow> (flush_item \<times> string \<times> nat) list \<Rightarrow> inode_table \<Rightarrow> inode_table" where
  "commit_items now sel rs = fold (commit_item now) (filter sel rs)"

definition record_errors :: "string \<Rightarrow> flush_item list \<Rightarrow> (nat \<rightharpoonup> string) \<Rightarrow> (nat \<rightharpoonup> string)" where
  "record_errors msg items errs = fold (\<lambda>item m. m(fi_ino item \<mapsto> msg)) items errs"

record flush_env =
  en_staged :: "nat \<Rightarrow> bool"
  en_upload :: "nat list \<Rightarrow> string + (string \<times> nat) list"
  en_hub :: "batch_op list \<Rightarrow> string option"
  en_mtime_ms :: nat
  en_now :: nat
  en_during_upload :: "inode_table \<Rightarrow> inode_table"
  en_during_commit :: "inode_table \<Rightarrow> inode_table"
  en_removable :: "nat \<Rightarrow> bool"
  en_seen :: "nat \<Rightarrow> inode_table"
  en_order :: "inode_table \<Rightarrow> nat list"

record flush_result =
  fr_table :: inode_table
  fr_errors :: "nat \<rightharpoonup> string"
  fr_ops :: "batch_op list option"
  fr_dir :: "staging_dir option"

definition flush_gc :: "flush_env \<Rightarrow> inode_table \<Rightarrow> staging_dir option \<Rightarrow> staging_dir option" where
  "flush_gc en t dir = snd (gc (en_removable en) (en_seen en) (en_order en t) t dir)"

text \<open>
  \<open>fr_ops\<close> is the batch sent to the Hub, if one was sent; the result is \<open>None\<close> when the assertion
  on the upload's results fails.
\<close>

definition flush_batch ::
  "flush_env \<Rightarrow> nat list \<Rightarrow> inode_table \<Rightarrow> (nat \<rightharpoonup> string) \<Rightarrow> staging_dir option \<Rightarrow> flush_result option" where
  "flush_batch en pending t errs dir =
    (let (to_flush, errs1) = flush_snapshot (en_staged en) t (dedup_last pending) errs
     in if to_flush = []
        then Some \<lparr>fr_table = t, fr_errors = errs1, fr_ops = None, fr_dir = flush_gc en t dir\<rparr>
        else (case upload_chunks (en_upload en) to_flush of
          UploadPanic \<Rightarrow> None
        | UploadFailed e \<Rightarrow> Some \<lparr>fr_table = en_during_upload en t,
              fr_errors = record_errors (''upload failed: '' @ e) to_flush errs1, fr_ops = None, fr_dir = dir\<rparr>
        | Uploaded results \<Rightarrow>
            if results = []
            then Some \<lparr>fr_table = en_during_upload en t, fr_errors = errs1, fr_ops = None, fr_dir = dir\<rparr>
            else (let rs = zip to_flush results;
                      ops = flush_ops (en_mtime_ms en) rs;
                      t1 = commit_items (en_now en) item_unchanged rs (en_during_upload en t)
                  in if ops = []
                     then Some \<lparr>fr_table = t1, fr_errors = errs1, fr_ops = None, fr_dir = flush_gc en t1 dir\<rparr>
                     else (let t2 = en_during_commit en t1
                           in case en_hub en ops of
                              Some e \<Rightarrow> Some \<lparr>fr_table = t2,
                                 fr_errors = record_errors (''commit failed: '' @ e)
                                   (map fst (filter (\<lambda>r. \<not> item_unchanged r) rs)) errs1,
                                 fr_ops = Some ops, fr_dir = dir\<rparr>
                            | None \<Rightarrow> (let t3 = commit_items (en_now en) (\<lambda>r. \<not> item_unchanged r) rs t2
                                in Some \<lparr>fr_table = t3, fr_errors = errs1, fr_ops = Some ops,
                                    fr_dir = flush_gc en t3 dir\<rparr>)))))"

section \<open>The batch, step by step\<close>

lemma first_seen_spec:
  "distinct (first_seen seen xs)" "set (first_seen seen xs) = set xs - seen"
  by (induction xs arbitrary: seen) auto

lemma first_seen_rev: "first_seen seen (rev xs) = rev (filter (\<lambda>x. x \<notin> seen) (remdups xs))"
proof (induction xs arbitrary: seen rule: rev_induct)
  case (snoc x xs)
  have "remdups (xs @ [x]) = filter (\<lambda>y. y \<noteq> x) (remdups xs) @ [x]"
    by (induction xs) auto
  then show ?case using snoc.IH by (auto intro: arg_cong [where f = rev] filter_cong)
qed simp

lemma dedup_last_remdups: "dedup_last pending = remdups pending"
  by (simp add: dedup_last_def first_seen_rev)

text \<open>What the snapshot takes of one inode, and what it records instead.\<close>

definition flushable :: "(nat \<Rightarrow> bool) \<Rightarrow> inode_table \<Rightarrow> nat \<Rightarrow> flush_item option" where
  "flushable staged t ino =
    (case t_inodes t ino of
      None \<Rightarrow> None
    | Some e \<Rightarrow> if 0 < e_nlink e \<and> is_dirty e \<and> staged ino
        then Some \<lparr>fi_ino = ino, fi_full_path = e_full_path e, fi_pending_deletes = e_pending_deletes e,
          fi_dirty_generation = e_dirty_generation e, fi_prev_xet_hash = e_xet_hash e\<rparr> else None)"

definition unstaged :: "(nat \<Rightarrow> bool) \<Rightarrow> inode_table \<Rightarrow> nat \<Rightarrow> bool" where
  "unstaged staged t ino \<longleftrightarrow>
    (case t_inodes t ino of None \<Rightarrow> False | Some e \<Rightarrow> 0 < e_nlink e \<and> is_dirty e \<and> \<not> staged ino)"

lemma flush_snapshot_spec:
  "fst (flush_snapshot staged t inos errs) = List.map_filter (flushable staged t) inos"
  "snd (flush_snapshot staged t inos errs) i =
    (if i \<in> set inos \<and> unstaged staged t i then Some (MISSING (path_in t i)) else errs i)"
proof -
  have *: "fold (snapshot_one staged t) inos (xs, m) =
    (xs @ List.map_filter (flushable staged t) inos,
     \<lambda>i. if i \<in> set inos \<and> unstaged staged t i then Some (MISSING (path_in t i)) else m i)" for xs m
    by (induction inos arbitrary: xs m)
      (auto simp: snapshot_one_def flushable_def unstaged_def path_in_def List.map_filter_simps fun_eq_iff
        split: option.splits)
  show "fst (flush_snapshot staged t inos errs) = List.map_filter (flushable staged t) inos"
    "snd (flush_snapshot staged t inos errs) i =
      (if i \<in> set inos \<and> unstaged staged t i then Some (MISSING (path_in t i)) else errs i)"
    by (auto simp: flush_snapshot_def *)
qed

lemma flushable_ino: "flushable staged t i = Some item \<Longrightarrow> fi_ino item = i"
  by (auto simp: flushable_def split: option.splits if_splits)

lemma snapshot_inos:
  "map fi_ino (List.map_filter (flushable staged t) inos) = filter (\<lambda>i. flushable staged t i \<noteq> None) inos"
  by (induction inos) (auto simp: List.map_filter_simps flushable_ino)

lemma upload_chunks_length: "upload_chunks upload items = Uploaded results \<Longrightarrow> length results = length items"
proof (induction upload items arbitrary: results rule: upload_chunks.induct)
  case (1 upload items)
  show ?case
  proof (cases "items = []")
    case True
    then show ?thesis using "1.prems" by (simp add: upload_chunks.simps)
  next
    case False
    then obtain rs others where r: "upload (map fi_ino (take UPLOAD_CHUNK_SIZE items)) = Inr rs"
      "length rs = length (take UPLOAD_CHUNK_SIZE items)"
      "upload_chunks upload (drop UPLOAD_CHUNK_SIZE items) = Uploaded others" "results = rs @ others"
      using "1.prems" by (subst (asm) upload_chunks.simps) (auto simp: Let_def split: sum.splits if_splits upload_outcome.splits)
    have "length others = length (drop UPLOAD_CHUNK_SIZE items)"
      by (rule "1.IH" [OF False refl r(1) _ r(3)]) (use r(2) in simp)
    then show ?thesis using r(2,4) by (simp add: min_def)
  qed
qed

text \<open>Applying a commit to distinct inodes acts on each of them once.\<close>

lemma commit_fold:
  assumes "distinct (map (fi_ino \<circ> fst) rs)"
  shows "t_inodes (fold (commit_item now) rs t) i =
    (case find (\<lambda>r. fi_ino (fst r) = i) rs of
       None \<Rightarrow> t_inodes t i
     | Some (item, hash, sz) \<Rightarrow> map_option (apply_commit hash sz (fi_dirty_generation item) now) (t_inodes t i))"
  using assms
proof (induction rs arbitrary: t)
  case (Cons r rs)
  obtain item hash sz where r: "r = (item, hash, sz)" by (cases r)
  have "find (\<lambda>r. fi_ino (fst r) = fi_ino item) rs = None"
    using Cons.prems by (force simp: find_None_iff r image_iff)
  moreover have "t_inodes (commit_item now r t) i =
      (if i = fi_ino item then map_option (apply_commit hash sz (fi_dirty_generation item) now) (t_inodes t i)
       else t_inodes t i)"
    by (simp add: commit_item_def r)
  ultimately show ?case
    using Cons.IH [of "commit_item now r t"] Cons.prems
    by (cases "i = fi_ino item") (auto simp: r split: option.split prod.split)
qed simp

lemma commit_fold_paths [simp]: "t_paths (fold (commit_item now) rs t) = t_paths t"
  by (induction rs arbitrary: t) (auto simp: commit_item_def split: prod.split)

lemma wf_commit_items: "wf_table t \<Longrightarrow> wf_table (commit_items now sel rs t)"
proof -
  have "wf_table t \<Longrightarrow> wf_table (fold (commit_item now) xs t)" for xs
    by (induction xs arbitrary: t)
      (auto simp: commit_item_def split: prod.split intro!: wf_upd_same_shape same_shape_apply_commit)
  then show "wf_table t \<Longrightarrow> wf_table (commit_items now sel rs t)" by (simp add: commit_items_def)
qed

lemma commit_items_entry:
  assumes d: "distinct (map (fi_ino \<circ> fst) rs)" and e: "t_inodes t i = Some e"
  shows "(\<And>r. r \<in> set rs \<Longrightarrow> fi_ino (fst r) = i \<Longrightarrow> \<not> sel r) \<Longrightarrow> t_inodes (commit_items now sel rs t) i = Some e"
    and "(item, hash, sz) \<in> set rs \<Longrightarrow> fi_ino item = i \<Longrightarrow> sel (item, hash, sz) \<Longrightarrow>
      t_inodes (commit_items now sel rs t) i = Some (apply_commit hash sz (fi_dirty_generation item) now e)"
proof -
  have d': "distinct (map (fi_ino \<circ> fst) (filter sel rs))" using d by (simp add: distinct_map_filter)
  note cf = commit_fold [OF d', of now t i, folded commit_items_def [of now sel rs, THEN fun_cong]]
  show "t_inodes (commit_items now sel rs t) i = Some e"
    if "\<And>r. r \<in> set rs \<Longrightarrow> fi_ino (fst r) = i \<Longrightarrow> \<not> sel r"
  proof -
    have "find (\<lambda>r. fi_ino (fst r) = i) (filter sel rs) = None" using that by (auto simp: find_None_iff)
    then show ?thesis using cf e by simp
  qed
  assume r: "(item, hash, sz) \<in> set rs" "fi_ino item = i" "sel (item, hash, sz)"
  then have m: "(item, hash, sz) \<in> set (filter sel rs)" by simp
  then have "find (\<lambda>r. fi_ino (fst r) = i) (filter sel rs) \<noteq> None" using r(2)
    by (metis (mono_tags, lifting) find_None_iff fst_conv)
  then obtain r' where r': "find (\<lambda>r. fi_ino (fst r) = i) (filter sel rs) = Some r'" by blast
  then have "r' \<in> set (filter sel rs)" "fi_ino (fst r') = i" by (metis (mono_tags, lifting) find_Some_iff nth_mem)+
  then have "r' = (item, hash, sz)" using m r(2) d' by (auto simp: distinct_map dest: inj_onD [of _ _ r' "(item, hash, sz)"])
  then show "t_inodes (commit_items now sel rs t) i = Some (apply_commit hash sz (fi_dirty_generation item) now e)"
    using cf e r' by simp
qed


text \<open>The outcomes of a batch.\<close>

definition flush_items :: "flush_env \<Rightarrow> nat list \<Rightarrow> inode_table \<Rightarrow> flush_item list" where
  "flush_items en pending t = List.map_filter (flushable (en_staged en) t) (remdups pending)"

lemma flush_items_inos: "distinct (map fi_ino (flush_items en pending t))"
  by (simp add: flush_items_def snapshot_inos)

lemma flush_items_iff:
  "item \<in> set (flush_items en pending t) \<longleftrightarrow>
    fi_ino item \<in> set pending \<and> flushable (en_staged en) t (fi_ino item) = Some item"
proof -
  have "item \<in> set (flush_items en pending t) \<longleftrightarrow> (\<exists>i \<in> set pending. flushable (en_staged en) t i = Some item)"
    by (force simp: flush_items_def List.map_filter_def)
  then show ?thesis using flushable_ino by blast
qed

lemma flush_batch_cases [consumes 1, case_names idle upload_failed unchanged rejected committed]:
  assumes run: "flush_batch en pending t errs dir = Some r"
  obtains
    "flush_items en pending t = []" "fr_table r = t" "fr_ops r = None"
      "fr_errors r = snd (flush_snapshot (en_staged en) t (remdups pending) errs)"
  | e where "upload_chunks (en_upload en) (flush_items en pending t) = UploadFailed e"
      "fr_table r = en_during_upload en t" "fr_ops r = None" "flush_items en pending t \<noteq> []"
      "fr_errors r = record_errors (''upload failed: '' @ e) (flush_items en pending t)
        (snd (flush_snapshot (en_staged en) t (remdups pending) errs))"
  | results rs where "upload_chunks (en_upload en) (flush_items en pending t) = Uploaded results"
      "rs = zip (flush_items en pending t) results" "length results = length (flush_items en pending t)"
      "flush_ops (en_mtime_ms en) rs = []" "fr_ops r = None"
      "fr_table r = commit_items (en_now en) item_unchanged rs (en_during_upload en t)"
      "fr_errors r = snd (flush_snapshot (en_staged en) t (remdups pending) errs)"
  | results rs e where "upload_chunks (en_upload en) (flush_items en pending t) = Uploaded results"
      "rs = zip (flush_items en pending t) results" "length results = length (flush_items en pending t)"
      "fr_ops r = Some (flush_ops (en_mtime_ms en) rs)" "en_hub en (flush_ops (en_mtime_ms en) rs) = Some e"
      "fr_table r = en_during_commit en (commit_items (en_now en) item_unchanged rs (en_during_upload en t))"
      "fr_errors r = record_errors (''commit failed: '' @ e) (map fst (filter (\<lambda>r. \<not> item_unchanged r) rs))
        (snd (flush_snapshot (en_staged en) t (remdups pending) errs))"
  | results rs where "upload_chunks (en_upload en) (flush_items en pending t) = Uploaded results"
      "rs = zip (flush_items en pending t) results" "length results = length (flush_items en pending t)"
      "fr_ops r = Some (flush_ops (en_mtime_ms en) rs)" "en_hub en (flush_ops (en_mtime_ms en) rs) = None"
      "fr_table r = commit_items (en_now en) (\<lambda>r. \<not> item_unchanged r) rs
        (en_during_commit en (commit_items (en_now en) item_unchanged rs (en_during_upload en t)))"
      "fr_errors r = snd (flush_snapshot (en_staged en) t (remdups pending) errs)"
proof -
  let ?E = "snd (flush_snapshot (en_staged en) t (remdups pending) errs)"
  have snap: "flush_snapshot (en_staged en) t (dedup_last pending) errs = (flush_items en pending t, ?E)"
    using flush_snapshot_spec(1) [of "en_staged en" t "remdups pending" errs]
    by (simp add: flush_items_def dedup_last_remdups prod_eq_iff)
  note fb = run [unfolded flush_batch_def snap Let_def prod.case]
  show thesis
  proof (cases "flush_items en pending t = []")
    case True
    then show thesis using fb that(1) by auto
  next
    case items: False
    show thesis
    proof (cases "upload_chunks (en_upload en) (flush_items en pending t)")
      case (UploadFailed e)
      then show thesis using fb items that(2) by auto
    next
      case UploadPanic
      then show thesis using fb items by simp
    next
      case (Uploaded results)
      note len = upload_chunks_length [OF Uploaded]
      then have ne: "results \<noteq> []" using items by auto
      define rs where "rs = zip (flush_items en pending t) results"
      note fb = fb [unfolded Uploaded upload_outcome.case if_not_P [OF items] if_not_P [OF ne], folded rs_def]
      show thesis
      proof (cases "flush_ops (en_mtime_ms en) rs = []")
        case True
        then show thesis using fb that(3) [OF Uploaded rs_def len] by auto
      next
        case False
        then show thesis
          using fb that(4) [OF Uploaded rs_def len] that(5) [OF Uploaded rs_def len]
          by (cases "en_hub en (flush_ops (en_mtime_ms en) rs)") auto
      qed
    qed
  qed
qed

lemma flush_batch_sends: "flush_batch en pending t errs dir = Some r \<Longrightarrow> fr_ops r \<noteq> Some []"
  by (auto simp: flush_batch_def Let_def split: prod.splits if_splits upload_outcome.splits option.splits)

lemma zip_items:
  assumes "rs = zip (flush_items en pending t) results" "length results = length (flush_items en pending t)"
  shows "distinct (map (fi_ino \<circ> fst) rs)" "map fst rs = flush_items en pending t"
proof -
  show m: "map fst rs = flush_items en pending t" using assms by simp
  show "distinct (map (fi_ino \<circ> fst) rs)" using flush_items_inos [of en pending t] by (simp flip: m)
qed

lemma zip_item_gen:
  assumes "map fst rs = flush_items en pending t" "(item, hash, sz) \<in> set rs" "fi_ino item = i" "t_inodes t i = Some e"
  shows "fi_dirty_generation item = e_dirty_generation e" "fi_full_path item = e_full_path e"
    "fi_prev_xet_hash item = e_xet_hash e" "fi_pending_deletes item = e_pending_deletes e" "is_dirty e"
proof -
  have "item \<in> set (map fst rs)" using assms(2) by force
  then have "flushable (en_staged en) t i = Some item" using assms(1,3) by (simp add: flush_items_iff)
  then show "fi_dirty_generation item = e_dirty_generation e" "fi_full_path item = e_full_path e"
    "fi_prev_xet_hash item = e_xet_hash e" "fi_pending_deletes item = e_pending_deletes e" "is_dirty e"
    using assms(4) by (auto simp: flushable_def split: if_splits)
qed

section \<open>What a batch guarantees\<close>





text \<open>What one inode's entry can be after each phase: still dirty, or clean with the committed hash.\<close>

definition settled :: "(flush_item \<times> string \<times> nat) list \<Rightarrow> (flush_item \<times> string \<times> nat \<Rightarrow> bool) \<Rightarrow> nat \<Rightarrow>
  inode_entry \<Rightarrow> inode_entry \<Rightarrow> bool" where
  "settled rs sel i e e' \<longleftrightarrow>
    (\<exists>item hash sz. (item, hash, sz) \<in> set rs \<and> fi_ino item = i \<and> sel (item, hash, sz) \<and>
       fi_dirty_generation item = e_dirty_generation e \<and> e_dirty_generation e' = 0 \<and> e_xet_hash e' = Some hash)"



lemma settled_clean:
  assumes "settled rs sel i e1 e'" "map fst rs = flush_items en pending t" "t_inodes t i = Some e"
  shows settled_gen: "e_dirty_generation e1 = e_dirty_generation e" "e_dirty_generation e' = 0"
    and settled_hash: "\<exists>hash. e_xet_hash e' = Some hash \<and> (e_xet_hash e = Some hash \<and> e_pending_deletes e = [] \<or>
      AddFile (e_full_path e) hash mt None \<in> set (flush_ops mt rs))"
proof -
  obtain item hash sz where r: "(item, hash, sz) \<in> set rs" "fi_ino item = i"
    "fi_dirty_generation item = e_dirty_generation e1" "e_dirty_generation e' = 0" "e_xet_hash e' = Some hash"
    using assms(1) by (auto simp: settled_def)
  note g = zip_item_gen [OF assms(2) r(1,2) assms(3)]
  show "e_dirty_generation e1 = e_dirty_generation e" "e_dirty_generation e' = 0" using g r by auto
  show "\<exists>hash. e_xet_hash e' = Some hash \<and> (e_xet_hash e = Some hash \<and> e_pending_deletes e = [] \<or>
      AddFile (e_full_path e) hash mt None \<in> set (flush_ops mt rs))"
  proof (cases "item_unchanged (item, hash, sz)")
    case True
    then show ?thesis using r g by (auto simp: item_unchanged_def)
  next
    case False
    then have "AddFile (e_full_path e) hash mt None \<in> set (flush_ops mt rs)"
      using r(1) g by (force simp: flush_ops_def item_adds_def Let_def)
    then show ?thesis using r(5) by blast
  qed
qed


text \<open>A table with one dirty file, staged, for the examples.\<close>

definition dirty_table :: inode_table where
  "dirty_table = upd_inode 2 set_dirty one_file"

definition quiet_env :: flush_env where
  "quiet_env = \<lparr>en_staged = (\<lambda>_. True), en_upload = (\<lambda>inos. Inr (map (\<lambda>_. (''h1'', 7)) inos)),
     en_hub = (\<lambda>_. None), en_mtime_ms = 1000, en_now = 9, en_during_upload = id, en_during_commit = id,
     en_removable = (\<lambda>_. True), en_seen = (\<lambda>_. dirty_table), en_order = (\<lambda>_. [1, 2])\<rparr>"

lemma dirty_table_entry:
  "\<exists>e. t_inodes dirty_table 2 = Some e \<and> is_dirty e \<and> e_dirty_generation e = 1 \<and> e_full_path e = ''a'' \<and>
    e_nlink e = 1 \<and> e_pending_deletes e = [] \<and> e_xet_hash e = Some ''h''"
  by (simp add: dirty_table_def one_file_def insert_inode_def new_table_def set_dirty_def is_dirty_def fresh_entry_def
      ROOT_INODE_def Let_def u64_max_def)

lemma upload_chunks_total:
  assumes "\<And>inos. \<exists>rs. upload inos = Inr rs \<and> length rs = length inos"
  shows "\<exists>results. upload_chunks upload items = Uploaded results"
proof (induction items rule: length_induct)
  case (1 items)
  obtain rs where rs: "upload (map fi_ino (take UPLOAD_CHUNK_SIZE items)) = Inr rs"
    "length rs = length (map fi_ino (take UPLOAD_CHUNK_SIZE items))" using assms by blast
  have "items \<noteq> [] \<Longrightarrow> \<exists>others. upload_chunks upload (drop UPLOAD_CHUNK_SIZE items) = Uploaded others"
    using 1 by (simp add: UPLOAD_CHUNK_SIZE_def)
  then show ?case using rs by (subst upload_chunks.simps) (auto simp: Let_def)
qed

lemma flush_batch_total:
  assumes "\<And>inos. \<exists>rs. en_upload en inos = Inr rs \<and> length rs = length inos"
  shows "\<exists>r. flush_batch en pending t errs dir = Some r"
proof -
  obtain items errs1 where s: "flush_snapshot (en_staged en) t (dedup_last pending) errs = (items, errs1)" by fastforce
  obtain results where "upload_chunks (en_upload en) items = Uploaded results"
    using upload_chunks_total [OF assms] by blast
  then show ?thesis by (simp add: flush_batch_def s Let_def split: option.split)
qed



lemma flush_ops_shape:
  "flush_ops mt rs = concat (map (item_adds mt) (filter (\<lambda>r. \<not> item_unchanged r) rs)) @
    concat (map item_deletes (filter (\<lambda>r. \<not> item_unchanged r) rs))"
  by (simp add: flush_ops_def Let_def)

lemma upload_chunks_each:
  assumes "\<And>inos. upload inos = Inr (map up inos)"
  shows "upload_chunks upload items = Uploaded (map (up \<circ> fi_ino) items)"
proof (induction items rule: length_induct)
  case (1 items)
  have "items \<noteq> [] \<Longrightarrow> upload_chunks upload (drop UPLOAD_CHUNK_SIZE items) = Uploaded (map (up \<circ> fi_ino) (drop UPLOAD_CHUNK_SIZE items))"
    using 1 by (simp add: UPLOAD_CHUNK_SIZE_def)
  moreover have "map up (map fi_ino (take UPLOAD_CHUNK_SIZE items)) @ map (up \<circ> fi_ino) (drop UPLOAD_CHUNK_SIZE items) = map (up \<circ> fi_ino) items"
    by (simp flip: map_append)
  ultimately show ?case by (subst upload_chunks.simps) (simp add: assms Let_def)
qed

text \<open>
  What a batch has to do: the requested inodes that are linked, dirty and staged, in the order of their last
  request; of these, the ones with something to tell the Hub; and what the entry of a committed inode is.
\<close>

definition due_inos :: "(nat \<Rightarrow> bool) \<Rightarrow> inode_table \<Rightarrow> nat list \<Rightarrow> nat list" where
  "due_inos staged t pending =
    filter (\<lambda>i. \<exists>e. t_inodes t i = Some e \<and> 0 < e_nlink e \<and> is_dirty e \<and> staged i) (remdups pending)"

definition news_inos :: "(nat \<Rightarrow> string \<times> nat) \<Rightarrow> inode_table \<Rightarrow> nat list \<Rightarrow> nat list" where
  "news_inos up t = filter (\<lambda>i. e_xet_hash (the (t_inodes t i)) \<noteq> Some (fst (up i)) \<or>
     e_pending_deletes (the (t_inodes t i)) \<noteq> [])"

definition committed_entry :: "string \<times> nat \<Rightarrow> nat \<Rightarrow> inode_entry \<Rightarrow> inode_entry" where
  "committed_entry u now e =
    (if e_cipher_size e = None then e\<lparr>e_size := snd u\<rparr> else e\<lparr>e_cipher_size := Some (snd u)\<rparr>)
      \<lparr>e_dirty_generation := 0, e_xet_hash := Some (fst u), e_pending_deletes := [], e_staging_is_current := True,
       e_mtime := now, e_ctime := now, e_last_revalidated := Some now\<rparr>"

lemma committed_entry_apply: "apply_commit (fst u) (snd u) (e_dirty_generation e) now e = committed_entry u now e"
  by (simp add: apply_commit_def clear_dirty_if_def committed_entry_def)

lemma due_flushable: "i \<in> set (due_inos staged t pending) \<longleftrightarrow> i \<in> set pending \<and> flushable staged t i \<noteq> None"
  by (auto simp: due_inos_def flushable_def split: option.split)

lemma flush_items_due: "flush_items en pending t = map (the \<circ> flushable (en_staged en) t) (due_inos (en_staged en) t pending)"
proof -
  have "due_inos (en_staged en) t pending = filter (\<lambda>i. flushable (en_staged en) t i \<noteq> None) (remdups pending)"
    unfolding due_inos_def by (rule filter_cong) (auto simp: flushable_def split: option.split)
  then show ?thesis by (simp add: flush_items_def List.map_filter_def comp_def)
qed

lemma flush_results_due:
  fixes up :: "nat \<Rightarrow> string \<times> nat" and en :: flush_env and t :: inode_table and pending :: "nat list"
  defines "due \<equiv> due_inos (en_staged en) t pending" and "res \<equiv> \<lambda>i. (the (flushable (en_staged en) t i), up i)"
  shows "zip (flush_items en pending t) (map (up \<circ> fi_ino) (flush_items en pending t)) = map res due"
    and "i \<in> set due \<Longrightarrow> item_unchanged (res i) \<longleftrightarrow> i \<notin> set (news_inos up t due)"
    and "filter (\<lambda>r. \<not> item_unchanged r) (map res due) = map res (news_inos up t due)"
proof -
  have ino: "fi_ino (the (flushable (en_staged en) t i)) = i" if "i \<in> set due" for i
    using that flushable_ino by (auto simp: due_def due_flushable)
  have z: "zip (map f xs) (map (up \<circ> fi_ino) (map f xs)) = map (\<lambda>i. (f i, up i)) xs" if "\<And>i. i \<in> set xs \<Longrightarrow> fi_ino (f i) = i"
    for f and xs :: "nat list" using that by (induction xs) simp_all
  show "zip (flush_items en pending t) (map (up \<circ> fi_ino) (flush_items en pending t)) = map res due"
    unfolding flush_items_due due_def [symmetric] res_def
    using z [of due "the \<circ> flushable (en_staged en) t"] ino by simp
  have one: "item_unchanged (res i) \<longleftrightarrow> \<not> (e_xet_hash (the (t_inodes t i)) \<noteq> Some (fst (up i)) \<or> e_pending_deletes (the (t_inodes t i)) \<noteq> [])"
    if "i \<in> set due" for i
    using that by (auto simp: due_def due_inos_def res_def flushable_def item_unchanged_def split: prod.split)
  then show "item_unchanged (res i) \<longleftrightarrow> i \<notin> set (news_inos up t due)" if "i \<in> set due"
    using that by (simp add: news_inos_def)
  show "filter (\<lambda>r. \<not> item_unchanged r) (map res due) = map res (news_inos up t due)"
    unfolding filter_map news_inos_def comp_def by (rule arg_cong [where f = "map res"], rule filter_cong) (auto simp: one)
qed

lemma flush_ops_due:
  fixes up :: "nat \<Rightarrow> string \<times> nat" and en :: flush_env and t :: inode_table and pending :: "nat list"
  defines "due \<equiv> due_inos (en_staged en) t pending" and "res \<equiv> \<lambda>i. (the (flushable (en_staged en) t i), up i)"
  shows "flush_ops mt (map res due) =
    map (\<lambda>i. AddFile (e_full_path (the (t_inodes t i))) (fst (up i)) mt None) (news_inos up t due) @
    map DeleteFile (concat (map (\<lambda>i. e_pending_deletes (the (t_inodes t i))) (news_inos up t due)))"
proof -
  have sub: "set (news_inos up t due) \<subseteq> set due" by (auto simp: news_inos_def)
  have f: "fi_full_path (the (flushable (en_staged en) t i)) = e_full_path (the (t_inodes t i)) \<and>
      fi_pending_deletes (the (flushable (en_staged en) t i)) = e_pending_deletes (the (t_inodes t i))" if "i \<in> set due" for i
    using that by (auto simp: due_def due_inos_def flushable_def)
  have "concat (map (item_adds mt) (map res xs)) = map (\<lambda>i. AddFile (e_full_path (the (t_inodes t i))) (fst (up i)) mt None) xs"
    and "concat (map item_deletes (map res xs)) = map DeleteFile (concat (map (\<lambda>i. e_pending_deletes (the (t_inodes t i))) xs))"
    if "set xs \<subseteq> set due" for xs
    using that f by (induction xs) (simp_all add: res_def item_adds_def item_deletes_def split: prod.split)
  from this [OF sub] show ?thesis
    unfolding flush_ops_shape flush_results_due(3) [where en = en and t = t and pending = pending and up = up, folded due_def res_def] by simp
qed

lemma settle_due:
  fixes up :: "nat \<Rightarrow> string \<times> nat" and en :: flush_env and t :: inode_table and pending :: "nat list"
  defines "due \<equiv> due_inos (en_staged en) t pending" and "res \<equiv> \<lambda>i. (the (flushable (en_staged en) t i), up i)"
  assumes i: "i \<in> set due" and e: "t_inodes t i = Some e"
    and e1: "t_inodes t1 i = Some e1" and g1: "e_dirty_generation e1 = e_dirty_generation e"
  shows "t_inodes (commit_items now (\<lambda>r. \<not> item_unchanged r) (map res due) (commit_items now item_unchanged (map res due) t1)) i =
    Some (committed_entry (up i) now e1)"
proof -
  let ?rs = "map res due"
  have ino: "fi_ino (fst (res j)) = j" if "j \<in> set due" for j
    using that flushable_ino by (auto simp: due_def due_flushable res_def)
  have d: "distinct (map (fi_ino \<circ> fst) ?rs)"
  proof -
    have "map (fi_ino \<circ> fst) ?rs = due" unfolding map_map by (rule map_idI) (simp add: ino)
    then show ?thesis by (simp add: due_def due_inos_def)
  qed
  obtain item where f: "flushable (en_staged en) t i = Some item" using i by (auto simp: due_def due_flushable)
  have m: "(item, fst (up i), snd (up i)) \<in> set ?rs"
  proof -
    have "res i = (item, fst (up i), snd (up i))" by (simp add: res_def f)
    then show ?thesis using imageI [OF i, of res] by simp
  qed
  have it: "fi_ino item = i" and g: "fi_dirty_generation item = e_dirty_generation e1"
    using f e g1 by (auto simp: flushable_def split: if_splits)
  have uniq: "r = (item, fst (up i), snd (up i))" if r: "r \<in> set ?rs" "fi_ino (fst r) = i" for r
  proof -
    obtain j where j: "j \<in> set due" "r = res j" using r(1) by auto
    then have "j = i" using ino r(2) by simp
    then show ?thesis using j(2) f by (simp add: res_def)
  qed
  let ?c = "apply_commit (fst (up i)) (snd (up i)) (fi_dirty_generation item) now e1"
  have c: "?c = committed_entry (up i) now e1" by (simp add: g committed_entry_apply)
  show ?thesis
  proof (cases "item_unchanged (item, fst (up i), snd (up i))")
    case True
    have "t_inodes (commit_items now item_unchanged ?rs t1) i = Some ?c"
      by (rule commit_items_entry(2) [where sel = item_unchanged, OF d e1 m it True])
    then show ?thesis unfolding c by (rule commit_items_entry(1) [OF d]) (drule (1) uniq, simp only: True simp_thms)
  next
    case False
    have "t_inodes (commit_items now item_unchanged ?rs t1) i = Some e1"
      by (rule commit_items_entry(1) [OF d e1]) (drule (1) uniq, simp only: False simp_thms)
    then show ?thesis unfolding c [symmetric]
      by (rule commit_items_entry(2) [where sel = "\<lambda>r. \<not> item_unchanged r", OF d _ m it False])
  qed
qed

lemma settle_other:
  assumes z: "distinct (map (fi_ino \<circ> fst) rs)" "map fst rs = flush_items en pending t"
    and i: "i \<notin> set pending \<or> flushable (en_staged en) t i = None"
  shows "t_inodes (commit_items now (\<lambda>r. \<not> item_unchanged r) rs (commit_items now item_unchanged rs t)) i = t_inodes t i"
proof -
  have none: "find (\<lambda>r. fi_ino (fst r) = i) (filter sel rs) = None" for sel
  proof -
    have "fi_ino (fst r) \<noteq> i" if "r \<in> set rs" for r
    proof -
      have "fst r \<in> set (flush_items en pending t)" unfolding z(2) [symmetric] using that by simp
      then show ?thesis using i by (auto simp: flush_items_iff)
    qed
    then show ?thesis unfolding find_None_iff by (metis (no_types, lifting) filter_is_subset subsetD)
  qed
  have d: "distinct (map (fi_ino \<circ> fst) (filter sel rs))" for sel using z(1) by (simp add: distinct_map_filter)
  show ?thesis unfolding commit_items_def commit_fold [OF d] none by simp
qed

text \<open>The commit of a batch with news, whatever the other tasks do while it waits.\<close>

lemma flush_batch_commits:
  fixes up :: "nat \<Rightarrow> string \<times> nat" and en :: flush_env and t :: inode_table and pending :: "nat list"
  defines "due \<equiv> due_inos (en_staged en) t pending" and "res \<equiv> \<lambda>i. (the (flushable (en_staged en) t i), up i)"
  assumes up: "\<And>inos. en_upload en inos = Inr (map up inos)" and hub: "\<And>ops. en_hub en ops = None"
    and news: "news_inos up t due \<noteq> []"
  shows "\<exists>r. flush_batch en pending t errs dir = Some r \<and>
    fr_ops r = Some (map (\<lambda>i. AddFile (e_full_path (the (t_inodes t i))) (fst (up i)) (en_mtime_ms en) None) (news_inos up t due) @
      map DeleteFile (concat (map (\<lambda>i. e_pending_deletes (the (t_inodes t i))) (news_inos up t due)))) \<and>
    fr_table r = commit_items (en_now en) (\<lambda>r. \<not> item_unchanged r) (map res due)
      (en_during_commit en (commit_items (en_now en) item_unchanged (map res due) (en_during_upload en t)))"
proof -
  have tot: "\<exists>rs. en_upload en inos = Inr rs \<and> length rs = length inos" for inos by (simp add: up)
  obtain r where r: "flush_batch en pending t errs dir = Some r" using flush_batch_total [OF tot] by blast
  note results = upload_chunks_each [of "en_upload en" up, OF up]
  note zip = flush_results_due(1) [where en = en and t = t and pending = pending and up = up, folded due_def res_def]
  note ops = flush_ops_due [where mt = "en_mtime_ms en" and en = en and t = t and pending = pending and up = up, folded due_def res_def]
  have ne: "flush_ops (en_mtime_ms en) (map res due) \<noteq> []" using news unfolding ops by simp
  from r have "fr_ops r = Some (flush_ops (en_mtime_ms en) (map res due)) \<and>
    fr_table r = commit_items (en_now en) (\<lambda>r. \<not> item_unchanged r) (map res due)
      (en_during_commit en (commit_items (en_now en) item_unchanged (map res due) (en_during_upload en t)))"
  proof (cases rule: flush_batch_cases)
    case idle
    then have "map res due = []" using zip by simp
    then show ?thesis using ne by (simp add: flush_ops_shape)
  next
    case (unchanged results' rs')
    then have "rs' = map res due" using results zip by simp
    then show ?thesis using unchanged(4) ne by simp
  next
    case (committed results' rs')
    then have "rs' = map res due" using results zip by simp
    then show ?thesis using committed by simp
  qed (simp_all add: results hub)
  then show ?thesis using r unfolding ops by blast
qed

text \<open>
  C6: a batch that nothing disturbs settles exactly what it can.  Let every upload answer, with the hash and size
  of each inode's own content, and the Hub accept.  Then the batch ends, and it sends one commit, of exactly the due
  inodes with a new hash or a delete pending: an addition of each at its path with its hash, then the deletions of
  all their old paths; it sends none when there are no such inodes.  Every due inode ends clean, with the hash and
  size of its upload, no delete pending and nothing else changed but the times; every other entry is untouched, and
  an error is recorded exactly for the linked, dirty inodes whose staging file is missing.
\<close>

theorem flush_batch_settles:
  assumes up: "\<And>inos. en_upload en inos = Inr (map up inos)"
    and hub: "\<And>ops. en_hub en ops = None"
    and quiet: "en_during_upload en = id" "en_during_commit en = id"
    and due: "due = due_inos (en_staged en) t pending"
  shows "\<exists>r. flush_batch en pending t errs dir = Some r \<and>
    fr_ops r = (if news_inos up t due = [] then None
      else Some (map (\<lambda>i. AddFile (e_full_path (the (t_inodes t i))) (fst (up i)) (en_mtime_ms en) None) (news_inos up t due) @
        map DeleteFile (concat (map (\<lambda>i. e_pending_deletes (the (t_inodes t i))) (news_inos up t due))))) \<and>
    t_paths (fr_table r) = t_paths t \<and>
    (\<forall>i. t_inodes (fr_table r) i =
      (if i \<in> set due then map_option (committed_entry (up i) (en_now en)) (t_inodes t i) else t_inodes t i)) \<and>
    (\<forall>i. fr_errors r i =
      (if i \<in> set pending \<and> (\<exists>e. t_inodes t i = Some e \<and> 0 < e_nlink e \<and> is_dirty e \<and> \<not> en_staged en i)
       then Some (''staging file missing for '' @ e_full_path (the (t_inodes t i))) else errs i))"
proof -
  have tot: "\<exists>rs. en_upload en inos = Inr rs \<and> length rs = length inos" for inos by (simp add: up)
  obtain r where r: "flush_batch en pending t errs dir = Some r" using flush_batch_total [OF tot] by blast
  note results = upload_chunks_each [of "en_upload en" up, OF up]
  let ?res = "\<lambda>i. (the (flushable (en_staged en) t i), up i)"
  define rs where "rs = map ?res due"
  note zip = flush_results_due(1) [where en = en and t = t and pending = pending and up = up, folded due, folded rs_def]
  let ?mt = "en_mtime_ms en"
  note ops = flush_ops_due [where mt = ?mt and en = en and t = t and pending = pending and up = up, folded due, folded rs_def]
  note z = zip_items [OF refl, where en = en and pending = pending and t = t and results = "map (up \<circ> fi_ino) (flush_items en pending t)", unfolded zip, OF length_map]
  let ?C = "\<lambda>sel. commit_items (en_now en) sel rs"
  have empty: "flush_ops ?mt rs = [] \<longleftrightarrow> news_inos up t due = []" unfolding ops by auto
  have none: "?C (\<lambda>r. \<not> item_unchanged r) T = T" if "flush_ops ?mt rs = []" for T
    using that unfolding empty by (simp add: commit_items_def rs_def due flush_results_due(3))
  have "fr_table r = ?C (\<lambda>r. \<not> item_unchanged r) (?C item_unchanged t) \<and>
    fr_ops r = (if flush_ops ?mt rs = [] then None else Some (flush_ops ?mt rs)) \<and>
    fr_errors r = snd (flush_snapshot (en_staged en) t (remdups pending) errs)"
    using r
  proof (cases rule: flush_batch_cases)
    case idle
    then have "rs = []" using zip by simp
    then show ?thesis using idle by (simp add: commit_items_def flush_ops_shape)
  next
    case (unchanged results rs')
    then have "rs' = rs" using results zip by simp
    then show ?thesis using unchanged none quiet by simp
  next
    case (committed results rs')
    then have "rs' = rs" using results zip by simp
    moreover have "flush_ops ?mt rs \<noteq> []" using committed(4) flush_batch_sends [OF r] \<open>rs' = rs\<close> by simp
    ultimately show ?thesis using committed quiet by simp
  qed (simp_all add: results hub)
  then have tab: "fr_table r = ?C (\<lambda>r. \<not> item_unchanged r) (?C item_unchanged t)"
    and op: "fr_ops r = (if flush_ops ?mt rs = [] then None else Some (flush_ops ?mt rs))"
    and er: "fr_errors r = snd (flush_snapshot (en_staged en) t (remdups pending) errs)" by simp_all
  have "t_inodes (fr_table r) i = map_option (committed_entry (up i) (en_now en)) (t_inodes t i)" if i: "i \<in> set due" for i
  proof -
    obtain e where e: "t_inodes t i = Some e" using i by (auto simp: due due_inos_def)
    show ?thesis
      using settle_due [where i = i and en = en and t = t and pending = pending and e = e and now = "en_now en" and up = up, folded due, OF i e e refl] e by (simp add: tab rs_def)
  qed
  moreover have "t_inodes (fr_table r) i = t_inodes t i" if "i \<notin> set due" for i
  proof (rule settle_other [OF z, where now = "en_now en", folded tab])
    show "i \<notin> set pending \<or> flushable (en_staged en) t i = None" using that by (auto simp: due due_flushable)
  qed
  moreover have "t_paths (fr_table r) = t_paths t" by (simp add: tab commit_items_def)
  moreover have "fr_errors r i = (if i \<in> set pending \<and> (\<exists>e. t_inodes t i = Some e \<and> 0 < e_nlink e \<and> is_dirty e \<and> \<not> en_staged en i)
       then Some (''staging file missing for '' @ e_full_path (the (t_inodes t i))) else errs i)" for i
    unfolding er flush_snapshot_spec(2) by (auto simp: unstaged_def MISSING_def path_in_def split: option.splits)
  ultimately show ?thesis using r op unfolding empty unfolding ops by (intro exI [of _ r]) simp
qed

theorem flush_batch_settles_witness:
  "\<exists>r e'. flush_batch quiet_env [2] dirty_table Map.empty None = Some r \<and>
    fr_ops r = Some [AddFile ''a'' ''h1'' 1000 None] \<and>
    t_inodes (fr_table r) 2 = Some e' \<and> \<not> is_dirty e' \<and> e_xet_hash e' = Some ''h1''"
proof -
  obtain e where e: "t_inodes dirty_table 2 = Some e" "is_dirty e" "e_nlink e = 1" "e_full_path e = ''a''"
    "e_pending_deletes e = []" "e_xet_hash e = Some ''h''" using dirty_table_entry by blast
  have q: "en_during_upload quiet_env = id" "en_during_commit quiet_env = id" "\<And>ops. en_hub quiet_env ops = None"
    "\<And>inos. en_upload quiet_env inos = Inr (map (\<lambda>_. (''h1'', 7)) inos)" "en_mtime_ms quiet_env = 1000"
    by (simp_all add: quiet_env_def)
  have d: "[2] = due_inos (en_staged quiet_env) dirty_table [2]" using e by (simp add: due_inos_def quiet_env_def)
  have n: "news_inos (\<lambda>_. (''h1'', 7)) dirty_table [2] = [2]" using e by (simp add: news_inos_def)
  show ?thesis
    using flush_batch_settles [OF q(4,3,1,2) d, of Map.empty None] e
    by (auto simp: n q(5) committed_entry_def is_dirty_def)
qed

text \<open>
  C33: a failure loses nothing.  When an upload fails, nothing is sent, the table is what the other
  tasks made of it and the failure is recorded for every inode of the batch; when the Hub refuses the
  commit, no inode with a change to commit is marked clean, and the failure is recorded for exactly
  those.  In both cases the next \<open>check_error\<close> on such an inode reports it once.
\<close>

theorem flush_batch_failure:
  assumes run: "flush_batch en pending t errs dir = Some r"
    and i: "i \<in> set pending" "flushable (en_staged en) t i = Some item"
    and quiet: "en_during_upload en = id" "en_during_commit en = id"
  shows "(\<forall>e. upload_chunks (en_upload en) (flush_items en pending t) = UploadFailed e \<longrightarrow>
      fr_table r = t \<and> fr_ops r = None \<and> fr_errors r i = Some (''upload failed: '' @ e) \<and>
      fst (check_error i \<lparr>fm_tx_open = True, fm_channel = [], fm_errors = fr_errors r, fm_pending_deletes = []\<rparr>)
        = Some (''upload failed: '' @ e)) \<and>
    (\<forall>ops e results. fr_ops r = Some ops \<longrightarrow> en_hub en ops = Some e \<longrightarrow>
      upload_chunks (en_upload en) (flush_items en pending t) = Uploaded results \<longrightarrow>
      (\<exists>hash sz. (item, hash, sz) \<in> set (zip (flush_items en pending t) results) \<and>
        (if item_unchanged (item, hash, sz)
         then fr_errors r i = errs i
         else t_inodes (fr_table r) i = t_inodes t i \<and> fr_errors r i = Some (''commit failed: '' @ e))))"
proof -
  have it: "fi_ino item = i" by (rule flushable_ino [OF i(2)])
  have mem: "item \<in> set (flush_items en pending t)" using i it by (simp add: flush_items_iff)
  have rec: "record_errors msg items m j = (if j \<in> fi_ino ` set items then Some msg else m j)" for msg items m j
    unfolding record_errors_def by (induction items arbitrary: m) auto
  obtain e where e: "t_inodes t i = Some e" "\<not> unstaged (en_staged en) t i"
    using i(2) by (auto simp: flushable_def unstaged_def split: option.splits if_splits)
  have er: "snd (flush_snapshot (en_staged en) t (remdups pending) errs) i = errs i"
    using flush_snapshot_spec(2) [of "en_staged en" t "remdups pending" errs i] e(2) by simp
  show ?thesis
    using run
  proof (cases rule: flush_batch_cases)
    case idle
    then show ?thesis using idle(1) mem by simp
  next
    case (upload_failed m)
    have "i \<in> fi_ino ` set (flush_items en pending t)" using mem it by blast
    then have "fr_errors r i = Some (''upload failed: '' @ m)" unfolding upload_failed(5) rec by simp
    then show ?thesis using upload_failed(1,2,3) quiet(1) by (simp add: check_error_def)
  next
    case (unchanged results rs)
    then show ?thesis using unchanged(1,5) by simp
  next
    case (committed results rs)
    then show ?thesis using committed(1,4,5) by simp
  next
    case (rejected results rs m)
    note z = zip_items [OF rejected(2,3)]
    obtain hash sz where hs: "(item, hash, sz) \<in> set rs" using mem unfolding z(2) [symmetric] by auto
    have uniq: "q = (item, hash, sz)" if "q \<in> set rs" "fi_ino (fst q) = i" for q
      using that hs it z(1) by (auto simp: distinct_map dest: inj_onD [of _ _ q "(item, hash, sz)"])
    let ?ch = "filter (\<lambda>r. \<not> item_unchanged r) rs"
    have "i \<in> fi_ino ` set (map fst ?ch) \<longleftrightarrow> \<not> item_unchanged (item, hash, sz)"
    proof
      assume "i \<in> fi_ino ` set (map fst ?ch)"
      then obtain q where "q \<in> set rs" "\<not> item_unchanged q" "fi_ino (fst q) = i" by auto
      then show "\<not> item_unchanged (item, hash, sz)" using uniq by blast
    next
      assume "\<not> item_unchanged (item, hash, sz)"
      then have "(item, hash, sz) \<in> set ?ch" using hs by simp
      then have "fi_ino (fst (item, hash, sz)) \<in> fi_ino ` set (map fst ?ch)" by (intro imageI) (metis image_eqI image_set)
      then show "i \<in> fi_ino ` set (map fst ?ch)" using it by simp
    qed
    then have "fr_errors r i = (if item_unchanged (item, hash, sz) then errs i else Some (''commit failed: '' @ m))"
      unfolding rejected(7) rec er by simp
    moreover have "t_inodes (fr_table r) i = Some e" if "\<not> item_unchanged (item, hash, sz)"
      unfolding rejected(6) quiet id_apply
      by (rule commit_items_entry(1) [OF z(1) e(1)]) (use uniq that in blast)
    ultimately show ?thesis using rejected(1,4,5) hs [unfolded rejected(2)] e(1) by auto
  qed
qed

theorem flush_batch_failure_witness:
  "\<exists>r. flush_batch (quiet_env\<lparr>en_upload := \<lambda>_. Inl ''down''\<rparr>) [2] dirty_table Map.empty None = Some r \<and>
    fr_table r = dirty_table \<and> fr_errors r 2 = Some ''upload failed: down''"
proof -
  let ?en = "quiet_env\<lparr>en_upload := \<lambda>_. Inl ''down''\<rparr>"
  obtain e where e: "t_inodes dirty_table 2 = Some e" "is_dirty e" "e_nlink e = 1" using dirty_table_entry by blast
  then obtain item where f: "flushable (en_staged ?en) dirty_table 2 = Some item"
    by (simp add: flushable_def quiet_env_def)
  have q: "en_during_upload ?en = id" "en_during_commit ?en = id" by (simp_all add: quiet_env_def)
  have items: "flush_items ?en [2] dirty_table = [item]"
    using f by (simp add: flush_items_def List.map_filter_simps)
  then have u: "upload_chunks (en_upload ?en) (flush_items ?en [2] dirty_table) = UploadFailed ''down''"
    by (simp add: upload_chunks.simps UPLOAD_CHUNK_SIZE_def)
  have "fst (flush_snapshot (en_staged ?en) dirty_table (dedup_last [2]) Map.empty) = [item]"
    using items by (simp add: flush_snapshot_spec(1) dedup_last_remdups flush_items_def)
  then obtain r where r: "flush_batch ?en [2] dirty_table Map.empty None = Some r"
    using u items by (cases "flush_snapshot (en_staged ?en) dirty_table (dedup_last [2]) Map.empty") (simp add: flush_batch_def)
  have "2 \<in> set [2 :: nat]" by simp
  from flush_batch_failure [OF r this f q] u r show ?thesis by auto
qed

lemma collect_signals_stop:
  "collect_signals d dl now arr = (sigs, stop, left) \<Longrightarrow> now \<le> dl \<Longrightarrow> now \<le> stop \<and> stop \<le> dl"
proof (induction d dl now arr arbitrary: sigs stop left rule: collect_signals.induct)
  case (2 d dl now at sig rest)
  show ?case
  proof (cases "dl - now = 0 \<or> at > now + min d (dl - now)")
    case True
    then show ?thesis using "2.prems" by (cases "dl - now = 0") (auto simp: Let_def)
  next
    case False
    obtain s' e' l' where r: "collect_signals d dl (max now at) rest = (s', e', l')" by (metis prod_cases3)
    then show ?thesis using "2.IH" [OF _ refl _ r] "2.prems" False by (auto simp: Let_def)
  qed
qed (auto split: if_splits)

declare flush_loop.simps [simp del]

lemma flush_loop_Nil [simp]: "flush_loop d w busy now [] = []"
  by (simp add: flush_loop.simps)

lemma flush_loop_spec:
  "concat (map (snd \<circ> snd) (flush_loop d w busy now arr)) = map snd arr \<and>
   (\<forall>b \<in> set (flush_loop d w busy now arr). snd (snd b) \<noteq> [] \<and> fst b \<le> fst (snd b) \<and> fst (snd b) \<le> fst b + w)"
proof (induction arr arbitrary: now rule: length_induct)
  case (1 arr)
  show ?case
  proof (cases arr)
    case Nil
    then show ?thesis by simp
  next
    case (Cons a rest)
    obtain at first where a: "a = (at, first)" by (cases a)
    let ?start = "max now at"
    obtain sigs stop left where c: "collect_signals d (?start + w) ?start rest = (sigs, stop, left)" by (metis prod_cases3)
    note p = collect_signals_prefix [OF c] and b = collect_signals_stop [OF c le_add1]
    have fl: "flush_loop d w busy now arr =
        (?start, stop, first # sigs) # flush_loop d w busy (stop + busy (first # sigs)) left"
      by (subst flush_loop.simps) (simp add: Cons a c Let_def)
    have "length left < length arr" using p Cons by simp
    then show ?thesis
      unfolding fl using "1.IH" [rule_format, of left "stop + busy (first # sigs)"] p b by (simp add: Cons a comp_def)
  qed
qed

lemma signal_inos_append [simp]: "signal_inos (a @ b) = signal_inos a @ signal_inos b"
  by (simp add: signal_inos_def List.map_filter_def)

lemma signal_inos_concat: "concat (map signal_inos xs) = signal_inos (concat xs)"
  by (induction xs) (auto simp: signal_inos_def List.map_filter_def)

text \<open>
  C32: the loop loses no signal and delays none for long.  On any arrivals the batches, in order, are
  exactly the signals in the order they were sent, so every inode queued is handed to a flush as
  often as it was queued; no batch is empty, and every batch is complete within the batch window of
  its first signal's being received, however many signals keep coming.
\<close>

theorem flush_loop_complete:
  "concat (map (snd \<circ> snd) (flush_loop debounce window busy now arrivals)) = map snd arrivals \<and>
   concat (map (signal_inos \<circ> snd \<circ> snd) (flush_loop debounce window busy now arrivals)) =
     signal_inos (map snd arrivals) \<and>
   list_all (\<lambda>(start, stop, batch). batch \<noteq> [] \<and> start \<le> stop \<and> stop \<le> start + window)
     (flush_loop debounce window busy now arrivals)"
proof -
  let ?l = "flush_loop debounce window busy now arrivals"
  have "concat (map (signal_inos \<circ> snd \<circ> snd) ?l) = signal_inos (concat (map (snd \<circ> snd) ?l))"
    using signal_inos_concat [of "map (snd \<circ> snd) ?l"] by (simp add: comp_def)
  then show ?thesis
    using flush_loop_spec [of debounce window busy now arrivals] by (auto simp: list_all_iff)
qed

text \<open>
  The delete queue.  A drain sends exactly the queued paths, in order, and leaves what was queued
  meanwhile; when the Hub refuses, every path sent is queued again behind those; a path cancelled
  before the drain is not deleted, nor is any path below a cancelled directory prefix; and nothing
  else is dropped.
\<close>

theorem delete_queue_exact:
  "fst (flush_pending_deletes hub meanwhile queue) = map DeleteFile queue \<and>
   snd (flush_pending_deletes hub meanwhile queue) =
     (if queue = [] then [] else meanwhile [] @ (if hub (map DeleteFile queue) = None then [] else queue)) \<and>
   (let fm' = cancel_delete_prefix (path @ ''/'') (cancel_delete path fm)
    in fm_pending_deletes fm' = filter (\<lambda>p. p \<noteq> path \<and> \<not> (\<exists>r. p = path @ ''/'' @ r)) (fm_pending_deletes fm)) \<and>
   fm_pending_deletes (enqueue_delete path fm) = fm_pending_deletes fm @ [path] \<and>
   fm_channel (enqueue_delete path fm) = fm_channel fm @ (if fm_tx_open fm then [WakeDeletes] else [])"
proof -
  have requeue: "fold (\<lambda>op q. case op of DeleteFile p \<Rightarrow> q @ [p] | AddFile _ _ _ _ \<Rightarrow> q) (map DeleteFile ps) q = q @ ps" for ps q
    by (induction ps arbitrary: q) auto
  have "snd (flush_pending_deletes hub meanwhile queue) =
     (if queue = [] then [] else meanwhile [] @ (if hub (map DeleteFile queue) = None then [] else queue))"
    by (simp add: flush_pending_deletes_def requeue Let_def split: option.split)
  moreover have "fst (flush_pending_deletes hub meanwhile queue) = map DeleteFile queue"
    by (simp add: flush_pending_deletes_def Let_def split: option.split)
  ultimately show ?thesis
    by (simp add: cancel_delete_prefix_def cancel_delete_def enqueue_delete_def fm_send_def starts_with_iff
        conj_commute)
qed

end
