(* ===== verification/Vfs.thy ===== *)
theory Vfs
  imports Path_Cipher Content Inode_Rename Flush
begin

text \<open>
  \<open>src/src/virtual_fs/mod.rs\<close>: the state of the virtual file system and the operations of its name
  space.

  An operation takes the state and returns a result, \<open>Inl\<close> an errno, with the new state.  It is
  written in the phases the code has: what is done without releasing a lock is one function of the
  table, and where the code awaits (the listing of a directory, a Hub batch), the environment gives
  the answer together with the state in which the operation goes on, so that whatever other tasks did
  in between is covered.  Operations that run one of the tree walks return \<open>None\<close> if the walk does
  not end.
\<close>

section \<open>State\<close>

record vfs =
  v_read_only :: bool
  v_advanced_writes :: bool
  v_overlay :: bool
  v_filter_os_files :: bool
  v_encrypting :: bool
  v_negative_ttl :: nat
  v_table :: inode_table
  v_negative :: "string \<rightharpoonup> nat"
  v_flush :: "flush_manager option"
  v_staging :: staging_coordinator

definition is_os_junk :: "string \<Rightarrow> bool" where
  "is_os_junk name \<longleftrightarrow>
    name \<in> set [''.DS_Store'', ''.Spotlight-V100'', ''.Trashes'', ''.fseventsd'', ''__MACOSX'', ''Thumbs.db'', ''desktop.ini''] \<or>
    starts_with name ''._''"

definition is_overlay_immutable :: "vfs \<Rightarrow> inode_entry \<Rightarrow> bool" where
  "is_overlay_immutable s e \<longleftrightarrow> v_overlay s \<and> \<not> is_dirty e"

definition check_encrypted_name :: "vfs \<Rightarrow> string \<Rightarrow> int + unit" where
  "check_encrypted_name s name =
    (if v_encrypting s
     then (case check_name_len name of
        Inr _ \<Rightarrow> Inr ()
      | Inl NameTooLong \<Rightarrow> Inl ENAMETOOLONG
      | Inl InvalidName \<Rightarrow> Inl EINVAL)
     else Inr ())"

subsection \<open>Attributes\<close>

definition BLOCK_SIZE :: nat where "BLOCK_SIZE = 512"

record vfs_attr =
  a_ino :: nat
  a_size :: nat
  a_blocks :: nat
  a_mtime :: nat
  a_atime :: nat
  a_ctime :: nat
  a_kind :: inode_kind
  a_perm :: nat
  a_nlink :: nat
  a_uid :: nat
  a_gid :: nat

definition make_vfs_attr :: "vfs \<Rightarrow> inode_entry \<Rightarrow> vfs_attr" where
  "make_vfs_attr s e =
    \<lparr>a_ino = e_inode e, a_size = e_size e, a_blocks = div_ceil (e_size e) BLOCK_SIZE, a_mtime = e_mtime e,
     a_atime = e_atime e, a_ctime = e_ctime e, a_kind = e_kind e,
     a_perm = (if v_read_only s
       then (case e_kind e of File \<Rightarrow> 292 | Directory \<Rightarrow> 365 | Symlink \<Rightarrow> 511)
       else (case e_kind e of Symlink \<Rightarrow> 511 | _ \<Rightarrow> e_mode e)),
     a_nlink = e_nlink e, a_uid = e_uid e, a_gid = e_gid e\<rparr>"

definition attr_of :: "vfs \<Rightarrow> nat \<Rightarrow> int \<Rightarrow> int + vfs_attr" where
  "attr_of s ino errno = (case t_inodes (v_table s) ino of None \<Rightarrow> Inl errno | Some e \<Rightarrow> Inr (make_vfs_attr s e))"

definition getattr :: "nat \<Rightarrow> vfs \<Rightarrow> (int + vfs_attr) \<times> vfs" where
  "getattr ino s =
    (case t_inodes (v_table s) ino of
      None \<Rightarrow> (Inl ENOENT, s)
    | Some e \<Rightarrow> (Inr (make_vfs_attr s e), s\<lparr>v_table := touch ino (v_table s)\<rparr>))"

subsection \<open>The negative cache\<close>

definition NEG_CACHE_CAPACITY :: nat where "NEG_CACHE_CAPACITY = 1000"

definition negative_cache_check :: "nat \<Rightarrow> vfs \<Rightarrow> string \<Rightarrow> bool" where
  "negative_cache_check now s path =
    (case v_negative s path of Some inserted \<Rightarrow> now - inserted < v_negative_ttl s | None \<Rightarrow> False)"

definition negative_cache_remove :: "string \<Rightarrow> vfs \<Rightarrow> vfs" where
  "negative_cache_remove path s = s\<lparr>v_negative := (v_negative s)(path := None)\<rparr>"

text \<open>\<open>min_by_key\<close> over the sampled keys: the first of the smallest.\<close>

fun oldest_key :: "(string \<rightharpoonup> nat) \<Rightarrow> string list \<Rightarrow> string option" where
  "oldest_key m [] = None"
| "oldest_key m (k # ks) =
    (case oldest_key m ks of
      None \<Rightarrow> Some k
    | Some j \<Rightarrow> if the (m j) < the (m k) then Some j else Some k)"

text \<open>\<open>order\<close> enumerates the map in its iteration order, which removals keep.\<close>

definition negative_cache_insert :: "string list \<Rightarrow> nat \<Rightarrow> string \<Rightarrow> vfs \<Rightarrow> vfs" where
  "negative_cache_insert order now path s =
    (let m = v_negative s;
         m2 = (if length order \<ge> NEG_CACHE_CAPACITY
           then (let expired = take 128 (filter (\<lambda>k. now - the (m k) \<ge> v_negative_ttl s) order);
                     m1 = m |` (- set expired);
                     order1 = filter (\<lambda>k. k \<notin> set expired) order
                 in if length order1 \<ge> NEG_CACHE_CAPACITY
                    then (case oldest_key m1 (take 128 order1) of None \<Rightarrow> m1 | Some k \<Rightarrow> m1(k := None))
                    else m1)
           else m)
     in s\<lparr>v_negative := m2(path \<mapsto> now)\<rparr>)"

section \<open>The environment\<close>

text \<open>
  \<open>w_load\<close> is \<open>ensure_children_loaded\<close> with the state in which it leaves the file system,
  \<open>w_hub\<close> the answer to a batch (an errno when refused) with the state when it comes, \<open>w_lock\<close>
  the state in which an inode's staging lock is obtained, \<open>w_now\<close> the clock, \<open>w_neg_order\<close> the iteration order of the negative cache, \<open>w_removable\<close> which staging files can be removed; the overlay
  directory's answers are \<open>w_overlay_parents\<close> and \<open>w_overlay_op\<close> (an errno when refused).
\<close>

record vfs_env =
  w_load :: "nat \<Rightarrow> vfs \<Rightarrow> (int + bool) \<times> vfs"
  w_hub :: "batch_op list \<Rightarrow> vfs \<Rightarrow> int option \<times> vfs"
  w_lock :: "nat \<Rightarrow> vfs \<Rightarrow> vfs"
  w_now :: nat
  w_mtime_ms :: nat
  w_neg_order :: "vfs \<Rightarrow> string list"
  w_removable :: "nat \<Rightarrow> bool"
  w_overlay_exists :: "int + bool"
  w_overlay_parents :: "int option"
  w_overlay_op :: "int option"

definition neg_insert :: "vfs_env \<Rightarrow> string \<Rightarrow> vfs \<Rightarrow> vfs" where
  "neg_insert en path s = negative_cache_insert (w_neg_order en s) (w_now en) path s"

definition upd_table :: "(inode_table \<Rightarrow> inode_table) \<Rightarrow> vfs \<Rightarrow> vfs" where
  "upd_table f s = s\<lparr>v_table := f (v_table s)\<rparr>"

definition upd_flush :: "(flush_manager \<Rightarrow> flush_manager) \<Rightarrow> vfs \<Rightarrow> vfs" where
  "upd_flush f s = s\<lparr>v_flush := map_option f (v_flush s)\<rparr>"

definition stage_drop_locked :: "vfs_env \<Rightarrow> nat \<Rightarrow> vfs \<Rightarrow> vfs" where
  "stage_drop_locked en ino s = s\<lparr>v_staging := drop_locked (w_removable en) ino (v_staging s)\<rparr>"

definition drop_staging :: "vfs_env \<Rightarrow> nat \<Rightarrow> vfs \<Rightarrow> vfs" where
  "drop_staging en ino s =
    s\<lparr>v_staging := (v_staging s)\<lparr>sc_dir := map_option (\<lambda>sd. snd (try_remove (w_removable en) ino sd)) (sc_dir (v_staging s))\<rparr>\<rparr>"

section \<open>Reference counts\<close>

definition vfs_bump_nlookup :: "nat \<Rightarrow> vfs \<Rightarrow> vfs" where
  "vfs_bump_nlookup ino = upd_table (\<lambda>t. touch ino (bump_nlookup ino t))"

definition forget :: "vfs_env \<Rightarrow> nat \<Rightarrow> nat \<Rightarrow> vfs \<Rightarrow> vfs" where
  "forget en ino nlookup s =
    (let (reached_zero, t1) = drop_nlookup ino nlookup (v_table s);
         s1 = s\<lparr>v_table := t1\<rparr>
     in if \<not> reached_zero then s1
        else if has_open_handles t1 ino then upd_table (mark_evict_pending ino) s1
        else (let (evicted, t2) = evict_if_safe ino t1;
                  s2 = s1\<lparr>v_table := t2\<rparr>
              in if evicted then drop_staging en ino s2 else s2))"

section \<open>Reading the name space\<close>

record dir_entry =
  d_ino :: nat
  d_kind :: inode_kind
  d_name :: string

definition dir_entries :: "inode_table \<Rightarrow> nat \<Rightarrow> int + dir_entry list" where
  "dir_entries t ino =
    (case t_inodes t ino of
      None \<Rightarrow> Inl ENOENT
    | Some e \<Rightarrow> Inr
        ([\<lparr>d_ino = ino, d_kind = Directory, d_name = ''.''\<rparr>,
          \<lparr>d_ino = e_parent e, d_kind = Directory, d_name = ''..''\<rparr>] @
         List.map_filter (\<lambda>c. map_option (\<lambda>ce. \<lparr>d_ino = e_inode ce, d_kind = e_kind ce, d_name = c_name c\<rparr>)
           (t_inodes t (c_ino c))) (e_children e)))"

definition readdir :: "vfs_env \<Rightarrow> nat \<Rightarrow> vfs \<Rightarrow> (int + dir_entry list) \<times> vfs" where
  "readdir en ino s =
    (case w_load en ino s of
      (Inl e, s1) \<Rightarrow> (Inl e, s1)
    | (Inr _, s1) \<Rightarrow> (dir_entries (v_table s1) ino, s1))"

definition readlink :: "nat \<Rightarrow> vfs \<Rightarrow> int + string" where
  "readlink ino s =
    (case t_inodes (v_table s) ino of
      None \<Rightarrow> Inl ENOENT
    | Some e \<Rightarrow> if e_kind e = Symlink
        then (case e_symlink_target e of None \<Rightarrow> Inl EINVAL | Some target \<Rightarrow> Inr target)
        else Inl EINVAL)"

section \<open>Creating entries\<close>

text \<open>
  The part of \<open>mkdir\<close>, \<open>symlink\<close> and \<open>link\<close> under the write lock: the parent and the name are
  checked again, the entry inserted and finished by \<open>fin\<close>.
\<close>

definition insert_locked ::
  "nat \<Rightarrow> string \<Rightarrow> inode_kind \<Rightarrow> nat \<Rightarrow> string option \<Rightarrow> nat \<Rightarrow> nat \<Rightarrow> nat \<Rightarrow> nat \<Rightarrow>
   (inode_entry \<Rightarrow> inode_entry) \<Rightarrow> inode_table \<Rightarrow> (int + nat \<times> string) \<times> inode_table" where
  "insert_locked parent name kind sz hash mode uid gid now fin t =
    (case t_inodes t parent of
      None \<Rightarrow> (Inl ENOENT, t)
    | Some pe \<Rightarrow>
        if e_kind pe \<noteq> Directory then (Inl ENOTDIR, t)
        else (let full_path = child_path (e_full_path pe) name
              in if lookup_child t parent name \<noteq> None then (Inl EEXIST, t)
                 else (let (ino, t1) = insert_inode parent name full_path kind sz now hash mode uid gid now t;
                           t2 = upd_inode ino fin t1
                       in (Inr (ino, full_path), touch_parent parent now t2))))"

definition mkdir_fin :: "bool \<Rightarrow> nat \<Rightarrow> inode_entry \<Rightarrow> inode_entry" where
  "mkdir_fin overlay now e =
    (let e1 = e\<lparr>e_children_loaded_at := Some now\<rparr> in if overlay then set_dirty e1 else e1)"

definition new_name_guard :: "vfs \<Rightarrow> string \<Rightarrow> int + unit" where
  "new_name_guard s name =
    (if v_read_only s then Inl EROFS
     else if v_filter_os_files s \<and> is_os_junk name then Inl EACCES
     else check_encrypted_name s name)"

text \<open>Undoing an insertion whose overlay directory could not be made.\<close>

definition remove_from :: "nat \<Rightarrow> vfs \<Rightarrow> vfs option" where
  "remove_from ino s = map_option (\<lambda>r. s\<lparr>v_table := snd r\<rparr>) (remove_inode ino (v_table s))"

definition mkdir ::
  "vfs_env \<Rightarrow> nat \<Rightarrow> string \<Rightarrow> nat \<Rightarrow> nat \<Rightarrow> nat \<Rightarrow> vfs \<Rightarrow> ((int + vfs_attr) \<times> vfs) option" where
  "mkdir en parent name mode uid gid s =
    (case new_name_guard s name of
      Inl e \<Rightarrow> Some (Inl e, s)
    | Inr _ \<Rightarrow>
        (case w_load en parent s of
          (Inl e, s1) \<Rightarrow> Some (Inl e, s1)
        | (Inr _, s1) \<Rightarrow>
            (case insert_locked parent name Directory 0 None mode uid gid (w_now en)
                    (mkdir_fin (v_overlay s1) (w_now en)) (v_table s1) of
              (Inl e, t2) \<Rightarrow> Some (Inl e, s1\<lparr>v_table := t2\<rparr>)
            | (Inr (ino, full_path), t2) \<Rightarrow>
                (let s2 = negative_cache_remove full_path (s1\<lparr>v_table := t2\<rparr>)
                 in if v_overlay s2 \<and> w_overlay_parents en \<noteq> None
                    then map_option (Pair (Inl EIO)) (remove_from ino s2)
                    else if v_overlay s2 \<and> w_overlay_op en \<noteq> None
                    then map_option (Pair (Inl (the (w_overlay_op en)))) (remove_from ino s2)
                    else Some (attr_of s2 ino ENOENT, s2)))))"

definition symlink ::
  "vfs_env \<Rightarrow> nat \<Rightarrow> string \<Rightarrow> string \<Rightarrow> nat \<Rightarrow> nat \<Rightarrow> nat \<Rightarrow> vfs \<Rightarrow> (int + vfs_attr) \<times> vfs" where
  "symlink en parent name target mode uid gid s =
    (if v_read_only s then (Inl EROFS, s)
     else (case w_load en parent s of
        (Inl e, s1) \<Rightarrow> (Inl e, s1)
      | (Inr _, s1) \<Rightarrow>
          (case insert_locked parent name Symlink (length target) None mode uid gid (w_now en)
                  (\<lambda>e. e\<lparr>e_symlink_target := Some target\<rparr>) (v_table s1) of
            (Inl e, t2) \<Rightarrow> (Inl e, s1\<lparr>v_table := t2\<rparr>)
          | (Inr (ino, full_path), t2) \<Rightarrow>
              (let s2 = negative_cache_remove full_path (s1\<lparr>v_table := t2\<rparr>)
               in (attr_of s2 ino ENOENT, s2)))))"

section \<open>Removing entries\<close>

text \<open>The end of \<open>rmdir\<close>, under the write lock.\<close>

definition rmdir_locked :: "nat \<Rightarrow> nat \<Rightarrow> nat \<Rightarrow> inode_table \<Rightarrow> ((int + unit) \<times> inode_table) option" where
  "rmdir_locked parent ino now t =
    (case t_inodes t ino of
      None \<Rightarrow> Some (Inl ENOENT, t)
    | Some e \<Rightarrow>
        if e_children e \<noteq> [] then Some (Inl ENOTEMPTY, t)
        else map_option (\<lambda>r. (Inr (), touch_parent parent now (snd r))) (remove_inode ino t))"

definition vfs_flush_deletes :: "vfs_env \<Rightarrow> vfs \<Rightarrow> vfs" where
  "vfs_flush_deletes en s =
    (case v_flush s of
      None \<Rightarrow> s
    | Some fm \<Rightarrow>
        if fm_pending_deletes fm = [] then s
        else (let queue = fm_pending_deletes fm;
                  (answer, s1) = w_hub en (map DeleteFile queue) (s\<lparr>v_flush := Some (fm\<lparr>fm_pending_deletes := []\<rparr>)\<rparr>)
              in if answer = None then s1
                 else upd_flush (\<lambda>f. f\<lparr>fm_pending_deletes := fm_pending_deletes f @ queue\<rparr>) s1))"

definition rmdir :: "vfs_env \<Rightarrow> nat \<Rightarrow> string \<Rightarrow> vfs \<Rightarrow> ((int + unit) \<times> vfs) option" where
  "rmdir en parent name s =
    (if v_read_only s then Some (Inl EROFS, s)
     else (case w_load en parent (vfs_flush_deletes en s) of
        (Inl e, s1) \<Rightarrow> Some (Inl e, s1)
      | (Inr _, s1) \<Rightarrow>
          (case lookup_child (v_table s1) parent name of
            None \<Rightarrow> Some (Inl ENOENT, s1)
          | Some e \<Rightarrow>
              if e_kind e \<noteq> Directory then Some (Inl ENOTDIR, s1)
              else if is_overlay_immutable s1 e then Some (Inl EPERM, s1)
              else if e_children e \<noteq> [] then Some (Inl ENOTEMPTY, s1)
              else (case w_load en (e_inode e) s1 of
                (Inl er, s2) \<Rightarrow> Some (Inl er, s2)
              | (Inr _, s2) \<Rightarrow>
                  if v_overlay s2 \<and> w_overlay_op en \<noteq> None \<and> w_overlay_op en \<noteq> Some ENOENT
                  then Some (Inl (the (w_overlay_op en)), s2)
                  else (case rmdir_locked parent (e_inode e) (w_now en) (v_table s2) of
                      None \<Rightarrow> None
                    | Some (Inl er, t3) \<Rightarrow> Some (Inl er, s2\<lparr>v_table := t3\<rparr>)
                    | Some (Inr _, t3) \<Rightarrow>
                        Some (Inr (), neg_insert en (e_full_path e) (s2\<lparr>v_table := t3\<rparr>)))))))"

text \<open>What \<open>unlink\<close> knows of its target once the inode's lock is held.\<close>

record unlink_info =
  u_ino :: nat
  u_full_path :: string
  u_needs_remote :: bool
  u_dirty :: bool
  u_locked :: bool

definition lock_staging :: "vfs_env \<Rightarrow> nat \<Rightarrow> vfs \<Rightarrow> vfs" where
  "lock_staging en ino s = w_lock en ino (s\<lparr>v_staging := sc_lock ino (v_staging s)\<rparr>)"

definition unlock_staging :: "nat option \<Rightarrow> vfs \<Rightarrow> vfs" where
  "unlock_staging locked s =
    (case locked of None \<Rightarrow> s | Some ino \<Rightarrow> s\<lparr>v_staging := sc_unlock ino (v_staging s)\<rparr>)"

definition unlink_lookup :: "vfs \<Rightarrow> nat \<Rightarrow> string \<Rightarrow> int + inode_entry" where
  "unlink_lookup s parent name =
    (case lookup_child (v_table s) parent name of
      None \<Rightarrow> Inl ENOENT
    | Some e \<Rightarrow> if e_kind e = Directory then Inl EISDIR else Inr e)"

text \<open>The lock-then-revalidate loop.\<close>

partial_function (option) unlink_target ::
  "vfs_env \<Rightarrow> nat \<Rightarrow> string \<Rightarrow> vfs \<Rightarrow> ((int + unlink_info) \<times> vfs) option" where
  "unlink_target en parent name s =
    (case (if v_advanced_writes s then Inr None else map_sum id (Some \<circ> e_inode) (unlink_lookup s parent name)) of
      Inl er \<Rightarrow> Some (Inl er, s)
    | Inr locked \<Rightarrow>
        (let s1 = (case locked of None \<Rightarrow> s | Some ino \<Rightarrow> lock_staging en ino s)
         in case unlink_lookup s1 parent name of
              Inl er \<Rightarrow> Some (Inl er, unlock_staging locked s1)
            | Inr e \<Rightarrow>
                if locked \<noteq> None \<and> locked \<noteq> Some (e_inode e)
                then unlink_target en parent name (unlock_staging locked s1)
                else if is_overlay_immutable s1 e then Some (Inl EPERM, unlock_staging locked s1)
                else Some (Inr \<lparr>u_ino = e_inode e, u_full_path = e_full_path e,
                       u_needs_remote = (\<not> v_overlay s1 \<and> e_xet_hash e \<noteq> None \<and> e_nlink e \<le> 1),
                       u_dirty = is_dirty e, u_locked = (locked \<noteq> None)\<rparr>, s1)))"

definition unlink_remote :: "vfs_env \<Rightarrow> unlink_info \<Rightarrow> vfs \<Rightarrow> int option \<times> vfs" where
  "unlink_remote en u s =
    (if u_needs_remote u
     then (case v_flush s of
        Some fm \<Rightarrow> (None, s\<lparr>v_flush := Some (enqueue_delete (u_full_path u) fm)\<rparr>)
      | None \<Rightarrow> w_hub en [DeleteFile (u_full_path u)] s)
     else (None, s))"

text \<open>The local part, under the write lock: whether the inode is gone, and the table.\<close>

definition unlink_locked :: "nat \<Rightarrow> string \<Rightarrow> nat \<Rightarrow> nat \<Rightarrow> inode_table \<Rightarrow> bool \<times> inode_table" where
  "unlink_locked parent name ino now t =
    (let (res, t1) = unlink_one parent name now t;
         last_link = (case res of None \<Rightarrow> False | Some (removed, _) \<Rightarrow> removed);
         t2 = touch_parent parent now t1;
         no_handles = (\<not> has_open_handles t2 ino)
     in (last_link \<and> no_handles, if last_link \<and> no_handles then snd (remove_orphan ino t2) else t2))"

definition unlink_local :: "vfs_env \<Rightarrow> nat \<Rightarrow> string \<Rightarrow> unlink_info \<Rightarrow> vfs \<Rightarrow> vfs" where
  "unlink_local en parent name u s =
    (let (gone, t1) = unlink_locked parent name (u_ino u) (w_now en) (v_table s);
         s1 = neg_insert en (u_full_path u) (s\<lparr>v_table := t1\<rparr>);
         s2 = (if u_locked u
               then s1\<lparr>v_staging := forget_lock_if_unused (u_ino u) (sc_unlock (u_ino u) (v_staging s1))\<rparr>
               else s1)
     in if gone \<and> \<not> v_overlay s2 then stage_drop_locked en (u_ino u) s2 else s2)"

definition unlink :: "vfs_env \<Rightarrow> nat \<Rightarrow> string \<Rightarrow> vfs \<Rightarrow> ((int + unit) \<times> vfs) option" where
  "unlink en parent name s =
    (if v_read_only s then Some (Inl EROFS, s)
     else (case w_load en parent s of
        (Inl e, s1) \<Rightarrow> Some (Inl e, s1)
      | (Inr _, s1) \<Rightarrow>
          (case unlink_target en parent name s1 of
            None \<Rightarrow> None
          | Some (Inl e, s2) \<Rightarrow> Some (Inl e, s2)
          | Some (Inr u, s2) \<Rightarrow>
              (let locked = (if u_locked u then Some (u_ino u) else None)
               in if \<not> v_advanced_writes s2 \<and> u_dirty u \<and> has_open_handles (v_table s2) (u_ino u)
                  then Some (Inl EPERM, unlock_staging locked s2)
                  else (case unlink_remote en u s2 of
                      (Some e, s3) \<Rightarrow> Some (Inl e, unlock_staging locked s3)
                    | (None, s3) \<Rightarrow> Some (Inr (), unlink_local en parent name u s3))))))"

text \<open>\<open>reap_on_last_release\<close>: what the last close of a file does.\<close>

definition reap_on_last_release :: "vfs_env \<Rightarrow> nat \<Rightarrow> vfs \<Rightarrow> vfs" where
  "reap_on_last_release en ino s =
    (let (orphan, t1) = remove_orphan ino (v_table s);
         (pending, t2) = take_evict_pending ino t1;
         (evicted, t3) = (if pending then evict_if_safe ino t2 else (False, t2));
         removed = (orphan \<or> evicted);
         is_clean = (\<not> removed \<and> (case t_inodes t3 ino of None \<Rightarrow> False | Some e \<Rightarrow> \<not> is_dirty e));
         s1 = s\<lparr>v_table := t3\<rparr>
     in if removed
        then (if v_overlay s then s1 else drop_staging en ino s1)
        else if is_clean
        then s1\<lparr>v_staging := (v_staging s1)\<lparr>sc_dir :=
               map_option (\<lambda>sd. snd (gc_one (w_removable en) (\<lambda>_. t3) ino sd)) (sc_dir (v_staging s1))\<rparr>\<rparr>
        else s1)"

end
