(* ===== verification/Vfs_Rename.thy ===== *)
theory Vfs_Rename
  imports Vfs
begin

text \<open>
  \<open>VirtualFs::rename\<close> (\<open>src/src/virtual_fs/mod.rs\<close>): validation under the read lock, the batch sent to
  the Hub, and the change of the inode table under the write lock.
\<close>

section \<open>Loading a subtree\<close>

text \<open>The recursion of \<open>ensure_subtree_loaded\<close>; the work list holds the directories still to load.\<close>

definition child_dirs :: "inode_table \<Rightarrow> nat \<Rightarrow> nat list" where
  "child_dirs t ino =
    (case t_inodes t ino of
      None \<Rightarrow> []
    | Some e \<Rightarrow> filter (\<lambda>c. case t_inodes t c of None \<Rightarrow> False | Some ce \<Rightarrow> e_kind ce = Directory)
        (map c_ino (e_children e)))"

partial_function (option) load_dirs :: "vfs_env \<Rightarrow> nat list \<Rightarrow> vfs \<Rightarrow> ((int + unit) \<times> vfs) option" where
  "load_dirs en work s =
    (case work of
      [] \<Rightarrow> Some (Inr (), s)
    | dir # rest \<Rightarrow>
        (case w_load en dir s of
          (Inl e, s1) \<Rightarrow> Some (Inl e, s1)
        | (Inr _, s1) \<Rightarrow> load_dirs en (child_dirs (v_table s1) dir @ rest) s1))"

definition ensure_subtree_loaded :: "vfs_env \<Rightarrow> nat \<Rightarrow> vfs \<Rightarrow> ((int + unit) \<times> vfs) option" where
  "ensure_subtree_loaded en ino s = load_dirs en [ino] s"

section \<open>Validation\<close>

record rename_info =
  r_ino :: nat
  r_old_path :: string
  r_kind :: inode_kind
  r_xet_hash :: "string option"
  r_is_dirty :: bool
  r_new_full_path :: string
  r_descendant_files :: "(string \<times> string) list"

text \<open>The walk up from the destination that looks for the source among its ancestors.\<close>

partial_function (option) climbs :: "inode_table \<Rightarrow> nat \<Rightarrow> nat \<Rightarrow> bool option" where
  "climbs t src ancestor =
    (if ancestor = ROOT_INODE then Some False
     else if ancestor = src then Some True
     else (case t_inodes t ancestor of
        None \<Rightarrow> Some False
      | Some e \<Rightarrow> climbs t src (e_parent e)))"

text \<open>The check of the destination, in \<open>rename_validate\<close> and again in \<open>rename_apply_local\<close>.\<close>

definition dest_conflict :: "inode_kind \<Rightarrow> inode_entry \<Rightarrow> int option" where
  "dest_conflict kind existing =
    (case (kind, e_kind existing) of
      (File, Directory) \<Rightarrow> Some EISDIR
    | (Symlink, Directory) \<Rightarrow> Some EISDIR
    | (Directory, File) \<Rightarrow> Some ENOTDIR
    | (Directory, Symlink) \<Rightarrow> Some ENOTDIR
    | (Directory, Directory) \<Rightarrow> if e_children existing \<noteq> [] then Some ENOTEMPTY else None
    | _ \<Rightarrow> None)"

text \<open>One directory of the walk that collects the clean files, and the walk.\<close>

definition clean_file :: "inode_table \<Rightarrow> nat \<Rightarrow> (string \<times> string) option" where
  "clean_file t ino =
    (case t_inodes t ino of
      None \<Rightarrow> None
    | Some e \<Rightarrow> if e_kind e = File \<and> \<not> is_dirty e
        then map_option (Pair (e_full_path e)) (e_xet_hash e) else None)"

partial_function (option) collect_files ::
  "inode_table \<Rightarrow> nat list \<Rightarrow> (string \<times> string) list \<Rightarrow> (string \<times> string) list option" where
  "collect_files t stack files =
    (case stack of
      [] \<Rightarrow> Some files
    | dir_ino # rest \<Rightarrow>
        (case t_inodes t dir_ino of
          None \<Rightarrow> collect_files t rest files
        | Some e \<Rightarrow>
            collect_files t (rev (child_dirs t dir_ino) @ rest)
              (files @ List.map_filter (clean_file t) (map c_ino (e_children e)))))"

definition rename_validate ::
  "nat \<Rightarrow> string \<Rightarrow> nat \<Rightarrow> string \<Rightarrow> bool \<Rightarrow> inode_table \<Rightarrow> (int + rename_info) option" where
  "rename_validate parent name newparent newname no_replace t =
    (case lookup_child t parent name of
      None \<Rightarrow> Some (Inl ENOENT)
    | Some src \<Rightarrow>
        (case t_inodes t newparent of
          None \<Rightarrow> Some (Inl ENOENT)
        | Some pe \<Rightarrow>
            (case (if e_kind src = Directory then climbs t (e_inode src) newparent else Some False) of
              None \<Rightarrow> None
            | Some True \<Rightarrow> Some (Inl EINVAL)
            | Some False \<Rightarrow>
                (let conflict = (case lookup_child t newparent newname of
                       None \<Rightarrow> None
                     | Some existing \<Rightarrow> if no_replace then Some EEXIST else dest_conflict (e_kind src) existing)
                 in case conflict of
                      Some er \<Rightarrow> Some (Inl er)
                    | None \<Rightarrow>
                        map_option (\<lambda>files. Inr \<lparr>r_ino = e_inode src, r_old_path = e_full_path src, r_kind = e_kind src,
                            r_xet_hash = e_xet_hash src, r_is_dirty = is_dirty src,
                            r_new_full_path = child_path (e_full_path pe) newname, r_descendant_files = files\<rparr>)
                          (if e_kind src = Directory then collect_files t [e_inode src] [] else Some [])))))"

section \<open>The Hub\<close>

definition child_new_path :: "rename_info \<Rightarrow> string \<Rightarrow> string" where
  "child_new_path info old =
    r_new_full_path info @ (case strip_prefix old (r_old_path info) of None \<Rightarrow> old | Some sfx \<Rightarrow> sfx)"

definition rename_ops :: "nat \<Rightarrow> rename_info \<Rightarrow> batch_op list option" where
  "rename_ops mtime info =
    (case (r_kind info, r_is_dirty info, r_xet_hash info) of
      (File, False, Some hash) \<Rightarrow>
        Some [AddFile (r_new_full_path info) hash mtime None, DeleteFile (r_old_path info)]
    | _ \<Rightarrow>
        if r_kind info = Directory \<and> r_descendant_files info \<noteq> []
        then Some (map (\<lambda>(old, hash). AddFile (child_new_path info old) hash mtime None) (r_descendant_files info) @
                   map (\<lambda>(old, hash). DeleteFile old) (r_descendant_files info))
        else None)"

definition rename_remote :: "vfs_env \<Rightarrow> rename_info \<Rightarrow> vfs \<Rightarrow> (int + bool) \<times> vfs" where
  "rename_remote en info s =
    (case rename_ops (w_mtime_ms en) info of
      None \<Rightarrow> (Inr False, s)
    | Some ops \<Rightarrow> (case w_hub en ops s of (Some e, s1) \<Rightarrow> (Inl e, s1) | (None, s1) \<Rightarrow> (Inr True, s1)))"

section \<open>The table\<close>

text \<open>The walk that records the old remote paths of the dirty files below a renamed directory.\<close>

definition mark_delete :: "nat \<Rightarrow> inode_table \<Rightarrow> inode_table" where
  "mark_delete ino t =
    (case t_inodes t ino of
      None \<Rightarrow> t
    | Some e \<Rightarrow> if e_kind e = File \<and> is_dirty e \<and> e_xet_hash e \<noteq> None
        then upd_inode ino (\<lambda>e. e\<lparr>e_pending_deletes := e_pending_deletes e @ [e_full_path e]\<rparr>) t else t)"

partial_function (option) mark_deletes :: "nat list \<Rightarrow> inode_table \<Rightarrow> inode_table option" where
  "mark_deletes stack t =
    (case stack of
      [] \<Rightarrow> Some t
    | dir_ino # rest \<Rightarrow>
        (case t_inodes t dir_ino of
          None \<Rightarrow> mark_deletes rest t
        | Some e \<Rightarrow>
            mark_deletes (rev (child_dirs t dir_ino) @ rest) (fold mark_delete (map c_ino (e_children e)) t)))"

text \<open>Taking the replaced entry away: the inode whose staging file is to go, and the table.\<close>

definition replace_target ::
  "nat \<Rightarrow> string \<Rightarrow> nat \<Rightarrow> inode_entry \<Rightarrow> inode_table \<Rightarrow> (nat option \<times> inode_table) option" where
  "replace_target newparent newname now existing t =
    (if e_kind existing = Directory
     then map_option (\<lambda>r. (None, snd r)) (remove_inode (e_inode existing) t)
     else (let t1 = snd (unlink_one newparent newname now t)
           in if \<not> has_open_handles t1 (e_inode existing)
              then (let (gone, t2) = remove_orphan (e_inode existing) t1
                    in Some (if gone then Some (e_inode existing) else None, t2))
              else Some (None, t1)))"

definition move_entry ::
  "rename_info \<Rightarrow> nat \<Rightarrow> string \<Rightarrow> nat \<Rightarrow> string \<Rightarrow> nat \<Rightarrow> inode_table \<Rightarrow> inode_table option" where
  "move_entry info parent oldname newparent newname now t =
    (let t1 = (if r_is_dirty info \<and> r_kind info = File \<and> r_xet_hash info \<noteq> None
               then upd_inode (r_ino info) (\<lambda>e. e\<lparr>e_pending_deletes := e_pending_deletes e @ [r_old_path info]\<rparr>) t
               else t)
     in case (if r_kind info = Directory then mark_deletes [r_ino info] t1 else Some t1) of
          None \<Rightarrow> None
        | Some t2 \<Rightarrow>
            (case update_subtree_paths (r_ino info) (r_new_full_path info)
                    (move_child (r_ino info) parent oldname newparent newname (remove_path (r_old_path info) t2)) of
               None \<Rightarrow> None
             | Some t3 \<Rightarrow>
                 (let t4 = touch_parent parent now t3;
                      t5 = (if parent \<noteq> newparent then touch_parent newparent now t4 else t4)
                  in Some (upd_inode (r_ino info) (\<lambda>e. e\<lparr>e_ctime := now\<rparr>) t5))))"

definition rename_locked ::
  "rename_info \<Rightarrow> nat \<Rightarrow> string \<Rightarrow> nat \<Rightarrow> string \<Rightarrow> bool \<Rightarrow> nat \<Rightarrow> inode_table \<Rightarrow>
   ((int + nat option) \<times> inode_table) option" where
  "rename_locked info parent oldname newparent newname no_replace now t =
    (if t_inodes t (r_ino info) = None then Some (Inl ENOENT, t)
     else (case lookup_child t newparent newname of
        None \<Rightarrow> map_option (Pair (Inr None)) (move_entry info parent oldname newparent newname now t)
      | Some existing \<Rightarrow>
          if e_inode existing = r_ino info then Some (Inr None, t)
          else if no_replace then Some (Inl EEXIST, t)
          else (case dest_conflict (r_kind info) existing of
             Some er \<Rightarrow> Some (Inl er, t)
           | None \<Rightarrow>
               (case replace_target newparent newname now existing t of
                  None \<Rightarrow> None
                | Some (staged, t1) \<Rightarrow>
                    map_option (Pair (Inr staged)) (move_entry info parent oldname newparent newname now t1)))))"

definition rename_apply_local ::
  "vfs_env \<Rightarrow> rename_info \<Rightarrow> nat \<Rightarrow> string \<Rightarrow> nat \<Rightarrow> string \<Rightarrow> bool \<Rightarrow> vfs \<Rightarrow>
   ((int + nat option) \<times> vfs) option" where
  "rename_apply_local en info parent oldname newparent newname no_replace s =
    (let s1 = negative_cache_remove (r_new_full_path info) s;
         s2 = upd_flush (\<lambda>fm. let fm1 = cancel_delete (r_new_full_path info) fm
                in if r_kind info = Directory then cancel_delete_prefix (r_new_full_path info @ ''/'') fm1 else fm1) s1
     in map_option (\<lambda>(r, t). (r, s2\<lparr>v_table := t\<rparr>))
          (rename_locked info parent oldname newparent newname no_replace (w_now en) (v_table s2)))"

section \<open>The operation\<close>

definition dir_ino_at :: "inode_table \<Rightarrow> nat \<Rightarrow> string \<Rightarrow> nat option" where
  "dir_ino_at t parent name =
    (case lookup_child t parent name of
      None \<Rightarrow> None
    | Some e \<Rightarrow> if e_kind e = Directory then Some (e_inode e) else None)"

text \<open>The preparation of \<open>rename\<close>: guards, and the directories it needs loaded.\<close>

definition rename_prepare ::
  "vfs_env \<Rightarrow> nat \<Rightarrow> string \<Rightarrow> nat \<Rightarrow> string \<Rightarrow> vfs \<Rightarrow> ((int + unit) \<times> vfs) option" where
  "rename_prepare en parent name newparent newname s =
    (case w_load en parent s of
      (Inl e, s1) \<Rightarrow> Some (Inl e, s1)
    | (Inr _, s1) \<Rightarrow>
        (case (if parent \<noteq> newparent then w_load en newparent s1 else (Inr True, s1)) of
          (Inl e, s2) \<Rightarrow> Some (Inl e, s2)
        | (Inr _, s2) \<Rightarrow>
            if (case lookup_child (v_table s2) parent name of
                  None \<Rightarrow> False | Some src \<Rightarrow> is_overlay_immutable s2 src)
            then Some (Inl EPERM, s2)
            else (let src_dir = dir_ino_at (v_table s2) parent name;
                      dst_dir = dir_ino_at (v_table s2) newparent newname
                  in case (case src_dir of
                      None \<Rightarrow> Some (Inr (), s2)
                    | Some src \<Rightarrow>
                        (case ensure_subtree_loaded en src s2 of
                          None \<Rightarrow> None
                        | Some (Inl e, s3) \<Rightarrow> Some (Inl e, s3)
                        | Some (Inr _, s3) \<Rightarrow>
                            if v_overlay s3
                            then map_option (\<lambda>clean. (if clean then Inl EPERM else Inr (), s3))
                                   (has_clean_descendants (v_table s3) src)
                            else Some (Inr (), s3))) of
                    None \<Rightarrow> None
                  | Some (Inl e, s3) \<Rightarrow> Some (Inl e, s3)
                  | Some (Inr _, s3) \<Rightarrow>
                      (case dst_dir of
                        None \<Rightarrow> Some (Inr (), s3)
                      | Some dst \<Rightarrow> Some (map_sum id (\<lambda>_. ()) (fst (w_load en dst s3)), snd (w_load en dst s3))))))"

text \<open>The on-disk move of an overlay mount.\<close>

definition rename_overlay :: "vfs_env \<Rightarrow> vfs \<Rightarrow> int option" where
  "rename_overlay en s =
    (if \<not> v_overlay s then None
     else (case w_overlay_exists en of
        Inl _ \<Rightarrow> Some EIO
      | Inr False \<Rightarrow> Some EPERM
      | Inr True \<Rightarrow> (case w_overlay_parents en of Some e \<Rightarrow> Some e | None \<Rightarrow> w_overlay_op en)))"

definition rename_finish ::
  "vfs_env \<Rightarrow> rename_info \<Rightarrow> nat \<Rightarrow> string \<Rightarrow> nat \<Rightarrow> string \<Rightarrow> bool \<Rightarrow> bool \<Rightarrow> vfs \<Rightarrow>
   ((int + unit) \<times> vfs) option" where
  "rename_finish en info parent name newparent newname no_replace remote_mutated s =
    (case rename_apply_local en info parent name newparent newname no_replace s of
      None \<Rightarrow> None
    | Some (Inr staged, s1) \<Rightarrow>
        (let s2 = neg_insert en (r_old_path info) s1
         in Some (Inr (), case staged of None \<Rightarrow> s2 | Some ino \<Rightarrow> stage_drop_locked en ino s2))
    | Some (Inl e, s1) \<Rightarrow>
        if e = ENOENT \<and> (remote_mutated \<or> v_overlay s1)
        then (let t1 = invalidate_children parent (v_table s1);
                  t2 = (if parent \<noteq> newparent then invalidate_children newparent t1 else t1)
              in Some (Inr (), s1\<lparr>v_table := t2\<rparr>))
        else Some (Inl e, s1))"

definition rename ::
  "vfs_env \<Rightarrow> nat \<Rightarrow> string \<Rightarrow> nat \<Rightarrow> string \<Rightarrow> bool \<Rightarrow> vfs \<Rightarrow> ((int + unit) \<times> vfs) option" where
  "rename en parent name newparent newname no_replace s =
    (case new_name_guard s newname of
      Inl e \<Rightarrow> Some (Inl e, s)
    | Inr _ \<Rightarrow>
        if parent = newparent \<and> name = newname then Some (Inr (), s)
        else (case rename_prepare en parent name newparent newname s of
            None \<Rightarrow> None
          | Some (Inl e, s1) \<Rightarrow> Some (Inl e, s1)
          | Some (Inr _, s1) \<Rightarrow>
              (case rename_validate parent name newparent newname no_replace (v_table s1) of
                None \<Rightarrow> None
              | Some (Inl e) \<Rightarrow> Some (Inl e, s1)
              | Some (Inr info) \<Rightarrow>
                  if (case lookup_child (v_table s1) newparent newname of
                        None \<Rightarrow> False | Some e \<Rightarrow> e_inode e = r_ino info)
                  then Some (Inr (), s1)
                  else (case (if v_overlay s1 then (Inr False, s1) else rename_remote en info s1) of
                      (Inl e, s2) \<Rightarrow> Some (Inl e, s2)
                    | (Inr remote_mutated, s2) \<Rightarrow>
                        (case rename_overlay en s2 of
                          Some e \<Rightarrow> Some (Inl e, s2)
                        | None \<Rightarrow> rename_finish en info parent name newparent newname no_replace remote_mutated s2)))))"

section \<open>The walks end\<close>

lemma climbs_simps [simp]:
  "climbs t src ROOT_INODE = Some False"
  "a \<noteq> ROOT_INODE \<Longrightarrow> a = src \<Longrightarrow> climbs t src a = Some True"
  "a \<noteq> ROOT_INODE \<Longrightarrow> a \<noteq> src \<Longrightarrow> t_inodes t a = None \<Longrightarrow> climbs t src a = Some False"
  "a \<noteq> ROOT_INODE \<Longrightarrow> a \<noteq> src \<Longrightarrow> t_inodes t a = Some e \<Longrightarrow> climbs t src a = climbs t src (e_parent e)"
  by (subst climbs.simps; simp)+

lemma climbs_subtree:
  assumes wf: "wf_table t" and src: "t_inodes t src = Some se" "src \<noteq> ROOT_INODE"
    and a: "t_inodes t a = Some ae" "e_kind ae = Directory"
  shows "climbs t src a = Some (a \<in> subtree t src)"
  using a
proof (induction "length (e_full_path ae)" arbitrary: a ae rule: less_induct)
  case less
  show ?case
  proof (cases "a = ROOT_INODE \<or> a = src")
    case True
    then show ?thesis using root_not_below [OF wf src] src(2) by auto
  next
    case False
    have l: "linked ae" using less.prems(2) by (simp add: linked_def)
    obtain pe where pe: "t_inodes t (e_parent ae) = Some pe" "e_kind pe = Directory" "a \<in> set (kids t (e_parent ae))"
      "e_full_path ae = child_path (e_full_path pe) (e_name ae)"
      using parent_outside [OF wf less.prems(1) l] False by metis
    have "name_ok (e_name ae)" using we_name [OF wf_tableE [OF wf less.prems(1)]] False by simp
    then have "climbs t src (e_parent ae) = Some (e_parent ae \<in> subtree t src)"
      using less.hyps [OF _ pe(1,2)] pe(4) by (simp add: child_path_longer)
    moreover have "a \<in> subtree t src \<longleftrightarrow> e_parent ae \<in> subtree t src"
      using subtree_up [OF wf _ _ pe(3)] subtree_closed pe(3) False by blast
    ultimately show ?thesis using False less.prems by simp
  qed
qed

definition dir_edges :: "nat set \<Rightarrow> inode_table \<Rightarrow> (nat \<times> nat) set" where
  "dir_edges R t = {(a, b). a \<in> R \<and> b \<in> set (child_dirs t a)}"

lemma child_dirs_filter:
  "child_dirs t d = filter (\<lambda>c. case t_inodes t c of None \<Rightarrow> False | Some ce \<Rightarrow> e_kind ce = Directory) (kids t d)"
  by (simp add: child_dirs_def kids_def split: option.split)

lemma child_dirs_kids: "c \<in> set (child_dirs t d) \<Longrightarrow> c \<in> set (kids t d)" "distinct (kids t d) \<Longrightarrow> distinct (child_dirs t d)"
  by (auto simp: child_dirs_filter)

interpretation dirs: forest_walk
  "\<lambda>(R, t). forest_on R t" "\<lambda>(R, t). R" "\<lambda>(R, t) d. rev (child_dirs t d)"
  "\<lambda>(R, t) d. length (path_in t d)" "\<lambda>(R, t). dir_edges R t"
proof (unfold_locales, goal_cases)
  case (1 t) then show ?case by (cases t) (auto simp: forest_finite)
next
  case (2 t d) then show ?case by (cases t) (auto dest!: child_dirs_kids(1) dest: forest_kids(1) [THEN subsetD])
next
  case (3 t d) then show ?case by (cases t) (simp add: forest_kids(2) child_dirs_kids(2))
next
  case (4 t d c) then show ?case by (cases t) (auto dest!: child_dirs_kids(1) intro: forest_kids(3))
next
  case (5 t a b c) then show ?case by (cases t) (auto dest!: child_dirs_kids(1) dest: forest_kids(4))
next
  case (6 t a b) then show ?case by (cases t) (simp add: dir_edges_def)
qed

lemma collect_files_simps [simp]:
  "collect_files t [] files = Some files"
  "t_inodes t d = Some e \<Longrightarrow> collect_files t (d # js) files =
    collect_files t (rev (child_dirs t d) @ js) (files @ List.map_filter (clean_file t) (kids t d))"
  by (subst collect_files.simps; simp add: kids_def)+

lemma collect_files_reach:
  assumes f: "forest_on R t" and a: "dirs.antichain (R, t) js"
  shows "\<exists>l. (\<forall>files. collect_files t js files = Some (files @ l)) \<and>
    set l = (\<Union>d \<in> dirs.reach (R, t) js. set (List.map_filter (clean_file t) (kids t d)))"
proof -
  have g: "case (R, t) of (R, t) \<Rightarrow> forest_on R t" using f by simp
  from g a show ?thesis
  proof (induction js rule: dirs.work_induct)
    case nil
    then show ?case by (simp add: dirs.reach_def)
  next
    case (step d js)
    obtain e where e: "t_inodes t d = Some e" using step(1) f by (auto simp: dirs.antichain_def elim: forest_node)
    note rs = dirs.reach_step [OF g step(1), unfolded prod.case]
    from step(2) obtain l where l: "\<And>files. collect_files t (rev (child_dirs t d) @ js) files = Some (files @ l)"
      "set l = (\<Union>d \<in> dirs.reach (R, t) (rev (child_dirs t d) @ js). set (List.map_filter (clean_file t) (kids t d)))"
      by auto
    show ?case
      by (rule exI [of _ "List.map_filter (clean_file t) (kids t d) @ l"]) (simp add: e l rs)
  qed
qed

text \<open>The directories below a directory are what the walks visit.\<close>

lemma dirs_reach:
  assumes wf: "wf_table t" and i: "t_inodes t i = Some e" "e_kind e = Directory"
  shows "dirs.reach (dom (t_inodes t), t) [i] =
    {d \<in> subtree t i. case t_inodes t d of None \<Rightarrow> False | Some de \<Rightarrow> e_kind de = Directory}" (is "?l = ?r")
proof
  have "(i, d) \<in> (child_edges t)\<^sup>* \<and> (\<exists>de. t_inodes t d = Some de \<and> e_kind de = Directory)"
    if "(i, d) \<in> (dir_edges (dom (t_inodes t)) t)\<^sup>*" for d
    using that
  proof (induction rule: rtrancl_induct)
    case (step a b)
    then have "b \<in> set (child_dirs t a)" by (simp add: dir_edges_def)
    then have "(a, b) \<in> child_edges t" "\<exists>de. t_inodes t b = Some de \<and> e_kind de = Directory"
      by (auto simp: child_dirs_filter child_edges_kids split: option.splits)
    then show ?case using step.IH by (auto intro: rtrancl_into_rtrancl)
  qed (use i in simp)
  then show "?l \<subseteq> ?r" by (fastforce simp: dirs.reach_def subtree_def)
  have "d \<in> ?l" if "(i, d) \<in> (child_edges t)\<^sup>*" "t_inodes t d = Some de" "e_kind de = Directory" for d de
    using that
  proof (induction arbitrary: de rule: rtrancl_induct)
    case (step a b)
    then have b: "b \<in> set (kids t a)" by (simp add: child_edges_kids)
    then obtain ae c where ae: "t_inodes t a = Some ae" "c \<in> set (e_children ae)" by (auto elim: kidsE)
    then have "e_kind ae = Directory" using we_listing [OF wf_tableE [OF wf ae(1)]] by (auto simp: listing_ok_def)
    then have "a \<in> ?l" using step.IH [OF ae(1)] by simp
    moreover have "(a, b) \<in> dir_edges (dom (t_inodes t)) t"
      using b ae(1) step.prems by (auto simp: dir_edges_def child_dirs_filter)
    ultimately show ?case by (auto simp: dirs.reach_def intro: rtrancl_into_rtrancl)
  qed (simp add: dirs.reach_def)
  then show "?r \<subseteq> ?l" by (auto simp: subtree_def split: option.splits)
qed

lemma dirs_kids:
  assumes wf: "wf_table t" and i: "t_inodes t i = Some e" "e_kind e = Directory"
  shows "(\<Union>d \<in> dirs.reach (dom (t_inodes t), t) [i]. set (kids t d)) = subtree t i - {i}"
proof -
  have "c \<in> subtree t i - {i}" if d: "d \<in> subtree t i" "c \<in> set (kids t d)" for c d
  proof -
    have "c \<noteq> i"
    proof
      assume "c = i"
      have d': "t_inodes t d \<noteq> None" using kids_dom [OF d(2)] by blast
      have "length (path_in t d) < length (path_in t i)"
        using forest_kids(3) [OF wf_forest [OF wf] kids_dom [OF d(2)] d(2)] \<open>c = i\<close> by simp
      then show False using subtree_path_le [OF wf _ d(1)] i(1) by (cases "d = i") auto
    qed
    then show ?thesis using subtree_closed [OF d(1)] d(2) by blast
  qed
  moreover have "\<exists>d \<in> dirs.reach (dom (t_inodes t), t) [i]. c \<in> set (kids t d)" if c: "c \<in> subtree t i" "c \<noteq> i" for c
  proof -
    have "(i, c) \<in> (child_edges t)\<^sup>*" using c(1) by (simp add: subtree_def)
    then obtain d where d: "d \<in> subtree t i" "c \<in> set (kids t d)"
      using c(2) by (cases rule: rtrancl.cases) (auto simp: child_edges_kids subtree_def)
    then obtain de x where "t_inodes t d = Some de" "x \<in> set (e_children de)" by (auto elim: kidsE)
    then have "d \<in> dirs.reach (dom (t_inodes t), t) [i]"
      using we_listing [OF wf_tableE [OF wf]] d(1) by (force simp: dirs_reach [OF wf i] listing_ok_def)
    then show ?thesis using d(2) by blast
  qed
  ultimately show ?thesis by (auto simp: dirs_reach [OF wf i])
qed

lemma collect_files_subtree:
  assumes wf: "wf_table t" and i: "t_inodes t i = Some e" "e_kind e = Directory"
  obtains l where "collect_files t [i] [] = Some l" "set l = {f. \<exists>d \<in> subtree t i. clean_file t d = Some f}"
proof -
  have a: "dirs.antichain (dom (t_inodes t), t) [i]" using i by (auto simp: dirs.antichain_def)
  obtain l where l: "collect_files t [i] [] = Some l"
    "set l = (\<Union>d \<in> dirs.reach (dom (t_inodes t), t) [i]. set (List.map_filter (clean_file t) (kids t d)))"
    using collect_files_reach [OF wf_forest [OF wf] a] by auto
  have mf: "set (List.map_filter (clean_file t) (kids t d)) = {f. \<exists>c \<in> set (kids t d). clean_file t c = Some f}" for d
    by (force simp: List.map_filter_def)
  have "set l = {f. \<exists>d \<in> (\<Union>d \<in> dirs.reach (dom (t_inodes t), t) [i]. set (kids t d)). clean_file t d = Some f}"
    unfolding l(2) mf by blast
  also have "\<dots> = {f. \<exists>d \<in> subtree t i. clean_file t d = Some f}"
    unfolding dirs_kids [OF wf i] using i by (auto simp: clean_file_def)
  finally show ?thesis using that l(1) by blast
qed

section \<open>Marking the dirty files\<close>

definition marked :: "inode_entry \<Rightarrow> inode_entry" where
  "marked e = (if e_kind e = File \<and> is_dirty e \<and> e_xet_hash e \<noteq> None
     then e\<lparr>e_pending_deletes := e_pending_deletes e @ [e_full_path e]\<rparr> else e)"

definition mark_set :: "nat set \<Rightarrow> inode_table \<Rightarrow> inode_table" where
  "mark_set S t = t\<lparr>t_inodes := (\<lambda>i. if i \<in> S then map_option marked (t_inodes t i) else t_inodes t i)\<rparr>"

lemma mark_set_simps [simp]:
  "t_inodes (mark_set S t) i = (if i \<in> S then map_option marked (t_inodes t i) else t_inodes t i)"
  "t_paths (mark_set S t) = t_paths t" "t_next_inode (mark_set S t) = t_next_inode t" "mark_set {} t = t"
  by (simp_all add: mark_set_def)

lemma same_shape_marked: "same_shape e (marked e)"
  by (simp add: marked_def same_shape_def)

lemma mark_delete_upd: "mark_delete c t = upd_inode c marked t"
  by (cases "t_inodes t c") (auto simp: mark_delete_def upd_inode_def marked_def fun_upd_idem)

lemma mark_delete_set:
  assumes "c \<notin> S" shows "mark_delete c (mark_set S t) = mark_set (insert c S) t"
proof -
  have "(t_inodes (mark_set S t))(c := map_option marked (t_inodes (mark_set S t) c)) = t_inodes (mark_set (insert c S) t)"
    by (rule ext) (simp add: assms)
  then show ?thesis unfolding mark_delete_upd upd_inode_def by (simp add: mark_set_def)
qed

lemma fold_mark_delete:
  "distinct cs \<Longrightarrow> set cs \<inter> S = {} \<Longrightarrow> fold mark_delete cs (mark_set S t) = mark_set (S \<union> set cs) t"
  by (induction cs arbitrary: S) (auto simp: mark_delete_set)

lemma marked_tree [simp]:
  "kids (mark_set S t) d = kids t d" "child_dirs (mark_set S t) d = child_dirs t d"
proof -
  have "e_children (marked e) = e_children e" "e_kind (marked e) = e_kind e" for e by (simp_all add: marked_def)
  then show k: "kids (mark_set S t) d = kids t d" by (simp add: kids_def split: option.split)
  show "child_dirs (mark_set S t) d = child_dirs t d"
    unfolding child_dirs_filter k by (rule filter_cong) (auto simp: marked_def split: option.split)
qed

lemma mark_deletes_simps [simp]:
  "mark_deletes [] t = Some t"
  "t_inodes t d = Some e \<Longrightarrow> mark_deletes (d # js) t =
    mark_deletes (rev (child_dirs t d) @ js) (fold mark_delete (kids t d) t)"
  by (subst mark_deletes.simps; simp add: kids_def)+

lemma mark_deletes_reach:
  assumes f: "forest_on R t" and a: "dirs.antichain (R, t) js"
  shows "(\<Union>d \<in> dirs.reach (R, t) js. set (kids t d)) \<inter> S = {} \<Longrightarrow>
    mark_deletes js (mark_set S t) = Some (mark_set (S \<union> (\<Union>d \<in> dirs.reach (R, t) js. set (kids t d))) t)"
proof -
  have g: "case (R, t) of (R, t) \<Rightarrow> forest_on R t" using f by simp
  from g a show "(\<Union>d \<in> dirs.reach (R, t) js. set (kids t d)) \<inter> S = {} \<Longrightarrow> ?thesis"
  proof (induction js arbitrary: S rule: dirs.work_induct)
    case nil
    then show ?case by (simp add: dirs.reach_def)
  next
    case (step d js)
    have dR: "d \<in> R" using step(1) by (simp add: dirs.antichain_def)
    obtain e where e: "t_inodes t d = Some e" by (rule forest_node [OF f dR])
    let ?js = "rev (child_dirs t d) @ js"
    note rs = dirs.reach_step [OF g step(1), unfolded prod.case]
    have R': "dirs.reach (R, t) ?js \<subseteq> R"
      using dirs.reach_nodes [OF g] dirs.antichain_step [OF g step(1), unfolded prod.case]
      by (auto simp: dirs.antichain_def dirs.reach_def)
    have dis: "set (kids t d) \<inter> (\<Union>d' \<in> dirs.reach (R, t) ?js. set (kids t d')) = {}"
    proof (rule equals0I)
      fix c assume "c \<in> set (kids t d) \<inter> (\<Union>d' \<in> dirs.reach (R, t) ?js. set (kids t d'))"
      then obtain d' where c: "c \<in> set (kids t d)" "d' \<in> dirs.reach (R, t) ?js" "c \<in> set (kids t d')" by blast
      then have "d = d'" using forest_kids(4) [OF f dR c(1)] forest_kids(4) [OF f _ c(3)] R' by blast
      then show False using rs(2) c(2) by simp
    qed
    have "mark_deletes (d # js) (mark_set S t) = mark_deletes ?js (mark_set (S \<union> set (kids t d)) t)"
    proof -
      have "t_inodes (mark_set S t) d \<noteq> None" using e by simp
      then obtain e' where "t_inodes (mark_set S t) d = Some e'" by blast
      from mark_deletes_simps(2) [OF this, of js]
      have "mark_deletes (d # js) (mark_set S t) = mark_deletes ?js (fold mark_delete (kids t d) (mark_set S t))"
        unfolding marked_tree .
      also have "fold mark_delete (kids t d) (mark_set S t) = mark_set (S \<union> set (kids t d)) t"
      proof (rule fold_mark_delete [OF forest_kids(2) [OF f dR]])
        show "set (kids t d) \<inter> S = {}" using step.prems unfolding rs(1) by blast
      qed
      finally show ?thesis .
    qed
    also have "\<dots> = Some (mark_set (S \<union> set (kids t d) \<union> (\<Union>d \<in> dirs.reach (R, t) ?js. set (kids t d))) t)"
    proof (rule step.IH [unfolded prod.case])
      show "(\<Union>d \<in> dirs.reach (R, t) ?js. set (kids t d)) \<inter> (S \<union> set (kids t d)) = {}"
        using step.prems dis unfolding rs(1) by blast
    qed
    finally show ?case unfolding rs(1) by (simp add: Un_assoc)
  qed
qed

lemma mark_deletes_subtree:
  assumes wf: "wf_table t" and i: "t_inodes t i = Some e" "e_kind e = Directory"
  shows "mark_deletes [i] t = Some (mark_set (subtree t i - {i}) t)"
proof -
  have a: "dirs.antichain (dom (t_inodes t), t) [i]" using i by (auto simp: dirs.antichain_def)
  show ?thesis
    using mark_deletes_reach [OF wf_forest [OF wf] a, of "{}"] by (simp add: dirs_kids [OF wf i])
qed

section \<open>Tables of the same shape\<close>

definition shape_eq :: "inode_table \<Rightarrow> inode_table \<Rightarrow> bool" where
  "shape_eq t t' \<longleftrightarrow> (\<forall>j. rel_option same_shape (t_inodes t j) (t_inodes t' j)) \<and> t_paths t' = t_paths t \<and>
     t_next_inode t' = t_next_inode t"

lemma shape_eq_refl [simp]: "shape_eq t t"
  by (simp add: shape_eq_def option.rel_refl)

lemma same_shape_trans: "same_shape e f \<Longrightarrow> same_shape f g \<Longrightarrow> same_shape e g"
  by (simp add: same_shape_def)

lemma shape_eq_upd: "shape_eq t s \<Longrightarrow> (\<And>e. same_shape e (f e)) \<Longrightarrow> shape_eq t (upd_inode i f s)"
  unfolding shape_eq_def
proof (elim conjE, intro conjI allI)
  fix j assume "\<forall>j. rel_option same_shape (t_inodes t j) (t_inodes s j)" and f: "\<And>e. same_shape e (f e)"
  then have "rel_option same_shape (t_inodes t j) (t_inodes s j)" by blast
  then show "rel_option same_shape (t_inodes t j) (t_inodes (upd_inode i f s) j)"
    by (cases rule: option.rel_cases) (auto intro: same_shape_trans [OF _ f])
qed auto

lemma shape_eq_mark: "shape_eq t s \<Longrightarrow> shape_eq t (mark_set S s)"
  unfolding shape_eq_def
proof (elim conjE, intro conjI allI)
  fix j assume "\<forall>j. rel_option same_shape (t_inodes t j) (t_inodes s j)"
  then have "rel_option same_shape (t_inodes t j) (t_inodes s j)" by blast
  then show "rel_option same_shape (t_inodes t j) (t_inodes (mark_set S s) j)"
    by (cases rule: option.rel_cases) (auto intro: same_shape_trans [OF _ same_shape_marked])
qed auto

lemma shape_eq_entry:
  assumes "shape_eq t t'"
  shows "t_inodes t j = Some e \<Longrightarrow> \<exists>e'. t_inodes t' j = Some e' \<and> same_shape e e'"
    and "t_inodes t' j = Some e' \<Longrightarrow> \<exists>e. t_inodes t j = Some e \<and> same_shape e e'"
  using assms by (metis shape_eq_def option_rel_Some1, metis shape_eq_def option_rel_Some2)

lemma shape_eq_facts:
  assumes "shape_eq t t'"
  shows "wf_table t \<Longrightarrow> wf_table t'" and "path_in t' j = path_in t j" and "kids t' j = kids t j"
    and "subtree t' j = subtree t j" and "can_move t i p n q m \<Longrightarrow> can_move t' i p n q m"
proof -
  have r: "rel_option same_shape (t_inodes t j) (t_inodes t' j)" for j using assms by (simp add: shape_eq_def)
  show "wf_table t'" if "wf_table t" using wf_same_shape [OF that _ _ r] assms by (simp add: shape_eq_def)
  show p: "path_in t' j = path_in t j" for j
    using r [of j] by (cases rule: option.rel_cases) (auto simp: path_in_def same_shape_def)
  show k: "kids t' j = kids t j" for j
    using r [of j] by (cases rule: option.rel_cases) (auto simp: kids_def same_shape_def)
  have "child_edges t' = child_edges t" using k by (auto simp: child_edges_kids)
  then show sb: "subtree t' j = subtree t j" for j by (simp add: subtree_def)
  show "can_move t' i p n q m" if cm: "can_move t i p n q m"
  proof -
    obtain e pe qe where h: "t_inodes t i = Some e" "linked e" "i \<noteq> ROOT_INODE" "e_parent e = p" "e_name e = n"
      "t_inodes t p = Some pe" "t_inodes t q = Some qe" "e_kind qe = Directory" "q \<notin> subtree t i"
      "t_paths t (child_path (e_full_path qe) m) = None" and m: "name_ok m" using cm by (auto simp: can_move_def)
    obtain e' pe' qe' where h': "t_inodes t' i = Some e'" "same_shape e e'" "t_inodes t' p = Some pe'"
      "t_inodes t' q = Some qe'" "same_shape qe qe'"
      using shape_eq_entry(1) [OF assms] h(1,6,7) by metis
    have "e_parent e' = p" "e_name e' = n" "e_kind qe' = Directory" "e_full_path qe' = e_full_path qe"
      using h h' by (auto simp: same_shape_def)
    moreover have "linked e'" using h(2) h'(2) by (simp add: same_shape_linked)
    moreover have "t_paths t' (child_path (e_full_path qe) m) = None" using h(10) assms by (simp add: shape_eq_def)
    ultimately show ?thesis using h(3,9) h' m sb by (auto simp: can_move_def)
  qed
qed

lemma renames_shape:
  assumes "shape_eq t t2" and rn: "renames t2 i p q m t3" and "shape_eq t3 t'"
  shows "renames t i p q m t'"
proof -
  note f2 = shape_eq_facts [OF assms(1)]
  have ent: "rel_option (renamed_entry t i p q m j) (t_inodes t j) (t_inodes t' j)" for j
  proof -
    have a: "rel_option same_shape (t_inodes t j) (t_inodes t2 j)" and c: "rel_option same_shape (t_inodes t3 j) (t_inodes t' j)"
      using assms(1,3) by (simp_all add: shape_eq_def)
    have b: "rel_option (renamed_entry t2 i p q m j) (t_inodes t2 j) (t_inodes t3 j)" using rn by (simp add: renames_def)
    show ?thesis
    proof (cases "t_inodes t j")
      case None
      then have "t_inodes t2 j = None" using a by simp
      then have "t_inodes t3 j = None" using b by simp
      then show ?thesis using c None by simp
    next
      case (Some x)
      obtain x2 where x2: "t_inodes t2 j = Some x2" "same_shape x x2" using a Some by (auto simp: option_rel_Some1)
      obtain z where z: "t_inodes t3 j = Some z" "renamed_entry t2 i p q m j x2 z" using b x2(1) by (auto simp: option_rel_Some1)
      obtain z' where z': "t_inodes t' j = Some z'" "same_shape z z'" using c z(1) by (auto simp: option_rel_Some1)
      note rf = renamed_fields [OF z(2)]
      have "renamed_entry t i p q m j x z'"
        using rf x2(2) z'(2) f2(2,4) by (intro renamed_entryI) (auto simp: same_shape_def)
      then show ?thesis using Some z'(1) by simp
    qed
  qed
  have "t_paths t' = t_paths t3" "t_next_inode t' = t_next_inode t3" "t_paths t2 = t_paths t" "t_next_inode t2 = t_next_inode t"
    using assms by (simp_all add: shape_eq_def)
  then show ?thesis using rn ent f2(2,4) by (simp add: renames_def)
qed

section \<open>Taking the replaced entry away\<close>

text \<open>\<open>x\<close> has no name any more; the rest of the tree is as it was.\<close>

definition cleared :: "nat \<Rightarrow> inode_table \<Rightarrow> inode_table \<Rightarrow> bool" where
  "cleared x t t' \<longleftrightarrow> wf_table t' \<and> t_next_inode t' = t_next_inode t \<and>
     (\<forall>j. j \<noteq> x \<longrightarrow> rel_option (pruned_entry {x}) (t_inodes t j) (t_inodes t' j)) \<and>
     (\<forall>f. t_inodes t' x = Some f \<longrightarrow> \<not> linked f) \<and>
     (\<forall>p. t_paths t' p = (case t_paths t p of None \<Rightarrow> None | Some i \<Rightarrow> if i \<in> {x} then None else Some i))"

lemma removes_cleared: "removes {x} t t' \<Longrightarrow> wf_table t' \<Longrightarrow> cleared x t t'"
  by (simp add: removes_def cleared_def)

lemma unlink_one_cleared:
  assumes wf: "wf_table t" and l: "lookup_child t p n = Some x" and k: "e_kind x \<noteq> Directory"
  shows "cleared (e_inode x) t (snd (unlink_one p n now t))"
    and "cleared (e_inode x) t (snd (remove_orphan (e_inode x) (snd (unlink_one p n now t))))"
proof -
  obtain pe where h: "t_inodes t p = Some pe" "e_child_index pe n = Some (e_inode x)" "t_inodes t (e_inode x) = Some x"
    "e_parent x = p" "linked x" "e_inode x \<noteq> ROOT_INODE" by (rule lookup_childE [OF wf l]) blast
  let ?x = "e_inode x"
  let ?t = "upd_inode p (remove_child_by_ino ?x) (remove_path (e_full_path x) (del_inode ?x t))"
  define u where "u = snd (unlink_one p n now t)"
  have u: "u = ?t\<lparr>t_inodes := (t_inodes ?t)(?x \<mapsto> x\<lparr>e_nlink := 0, e_ctime := now\<rparr>)\<rparr>"
    by (simp add: u_def unlink_one_form [OF wf h(1,2,3) k])
  have rm: "removes {?x} t ?t"
    using removes_detach [OF wf h(3,5,6)] pruned_remove_child(1) we_listing [OF wf_tableE [OF wf]] h(4) by auto
  have wfu: "wf_table u" unfolding u_def by (rule wf_unlink_one [OF wf]) (use h k in auto)
  have orphan: "\<not> linked (x\<lparr>e_nlink := 0, e_ctime := now\<rparr>)" using k by (simp add: linked_def)
  have rest: "t_next_inode u = t_next_inode t"
    "\<And>j. j \<noteq> ?x \<Longrightarrow> rel_option (pruned_entry {?x}) (t_inodes t j) (t_inodes u j)"
    "\<And>q. t_paths u q = (case t_paths t q of None \<Rightarrow> None | Some i \<Rightarrow> if i \<in> {?x} then None else Some i)"
    using rm unfolding removes_def u by auto
  then show "cleared ?x t (snd (unlink_one p n now t))"
    using wfu orphan unfolding u_def [symmetric] by (auto simp: cleared_def u)
  have np: "t_paths u q \<noteq> Some ?x" for q using rest(3) [of q] by (auto split: option.splits if_splits)
  have wfo: "wf_table (snd (remove_orphan ?x u))"
    by (rule wf_remove_orphan [OF wfu]) (use k in \<open>auto simp: u\<close>)
  have ux: "t_inodes u ?x = Some (x\<lparr>e_nlink := 0, e_ctime := now\<rparr>)" by (simp add: u)
  have "snd (remove_orphan ?x u) = del_inode ?x u"
    using np by (simp add: remove_orphan_def ux Let_def)
  then show "cleared ?x t (snd (remove_orphan ?x (snd (unlink_one p n now t))))"
    using wfo rest unfolding u_def [symmetric] by (auto simp: cleared_def)
qed

lemma leaf_subtree: "t_inodes t i = Some e \<Longrightarrow> e_children e = [] \<Longrightarrow> subtree t i = {i}"
proof -
  assume "t_inodes t i = Some e" "e_children e = []"
  then have k: "kids t i = []" by (simp add: kids_def)
  have "d = i" if "(i, d) \<in> (child_edges t)\<^sup>*" for d
    using that k by (cases rule: converse_rtranclE) (auto simp: child_edges_kids)
  then show ?thesis by (auto simp: subtree_def)
qed

lemma replace_target_clears:
  assumes wf: "wf_table t" and l: "lookup_child t q m = Some x" and dc: "dest_conflict k x = None"
  obtains staged t1 where "replace_target q m now x t = Some (staged, t1)" "cleared (e_inode x) t t1"
proof (cases "e_kind x = Directory")
  case True
  obtain pe where h: "t_inodes t (e_inode x) = Some x" "linked x" "e_inode x \<noteq> ROOT_INODE" by (rule lookup_childE [OF wf l]) blast
  have "e_children x = []" using dc True by (auto simp: dest_conflict_def split: inode_kind.splits if_splits)
  then have sb: "subtree t (e_inode x) = {e_inode x}" by (rule leaf_subtree [OF h(1)])
  obtain t1 where "remove_inode (e_inode x) t = Some (Some x, t1)" "removes (subtree t (e_inode x)) t t1" "wf_table t1"
    by (rule remove_inode_wf [OF wf h])
  then show ?thesis using that True removes_cleared by (simp add: replace_target_def sb)
next
  case False
  note c = unlink_one_cleared [OF wf l False, of now]
  show ?thesis
  proof (cases "has_open_handles (snd (unlink_one q m now t)) (e_inode x)")
    case True
    then show ?thesis using that c(1) False by (simp add: replace_target_def Let_def)
  next
    case nh: False
    then show ?thesis
      using that [of _ "snd (remove_orphan (e_inode x) (snd (unlink_one q m now t)))"] c(2) False
      by (auto simp: replace_target_def Let_def case_prod_beta)
  qed
qed

lemma cleared_entry:
  assumes "cleared x t t'" "j \<noteq> x"
  shows "t_inodes t j = Some e \<Longrightarrow> \<exists>e'. t_inodes t' j = Some e' \<and> pruned_entry {x} e e'"
    and "t_inodes t' j = Some e' \<Longrightarrow> \<exists>e. t_inodes t j = Some e \<and> pruned_entry {x} e e'"
    and "path_in t' j = path_in t j" and "kids t' j = filter (\<lambda>c. c \<noteq> x) (kids t j)"
proof -
  have r: "rel_option (pruned_entry {x}) (t_inodes t j) (t_inodes t' j)" using assms by (simp add: cleared_def)
  show "t_inodes t j = Some e \<Longrightarrow> \<exists>e'. t_inodes t' j = Some e' \<and> pruned_entry {x} e e'"
    "t_inodes t' j = Some e' \<Longrightarrow> \<exists>e. t_inodes t j = Some e \<and> pruned_entry {x} e e'"
    using r by (auto simp: option_rel_Some1 option_rel_Some2)
  show "path_in t' j = path_in t j"
    using r by (cases rule: option.rel_cases) (auto simp: path_in_def pruned_entry_def)
  show "kids t' j = filter (\<lambda>c. c \<noteq> x) (kids t j)"
    using r by (cases rule: option.rel_cases) (auto simp: kids_def pruned_entry_def prune_def filter_map comp_def)
qed

lemma cleared_can_move:
  assumes wf: "wf_table t" and cl: "cleared x t t1" and e: "t_inodes t i = Some e" "linked e" "i \<noteq> ROOT_INODE"
    and q: "t_inodes t q = Some qe" "e_kind qe = Directory" "q \<notin> subtree t i" and m: "name_ok m"
    and x: "t_paths t (child_path (e_full_path qe) m) = Some x" "x \<noteq> i" "x \<in> set (kids t q)"
    and leaf: "kids t x = []"
  shows "can_move t1 i (e_parent e) (e_name e) q m" and "subtree t1 i = subtree t i"
    and "path_in t1 i = e_full_path e" "path_in t1 q = e_full_path qe"
proof -
  obtain pe where pe: "t_inodes t (e_parent e) = Some pe" "i \<in> set (kids t (e_parent e))"
    using parent_outside [OF wf e] by metis
  have px: "e_parent e \<noteq> x" using pe(2) leaf by auto
  have qx: "q \<noteq> x" using x(3) leaf by auto
  have ix: "i \<noteq> x" using x(2) by simp
  obtain e1 where e1: "t_inodes t1 i = Some e1" "pruned_entry {x} e e1" using cleared_entry(1) [OF cl ix e(1)] by blast
  obtain q1 where q1: "t_inodes t1 q = Some q1" "pruned_entry {x} qe q1" using cleared_entry(1) [OF cl qx q(1)] by blast
  obtain p1 where p1: "t_inodes t1 (e_parent e) = Some p1" using cleared_entry(1) [OF cl px pe(1)] by blast
  have xs: "x \<notin> subtree t i" using subtree_up [OF wf _ x(2) x(3)] q(3) by blast
  have "d \<in> subtree t1 i \<longleftrightarrow> d \<in> subtree t i" for d
  proof
    assume "d \<in> subtree t1 i"
    then have "(i, d) \<in> (child_edges t1)\<^sup>*" by (simp add: subtree_def)
    then show "d \<in> subtree t i"
    proof (induction rule: rtrancl_induct)
      case (step a b)
      then have "a \<noteq> x" using xs by blast
      then have "b \<in> set (kids t a)" using step.hyps(2) cleared_entry(4) [OF cl] by (simp add: child_edges_kids)
      then show ?case using subtree_closed [OF step.IH] by blast
    qed simp
  next
    assume "d \<in> subtree t i"
    then have "(i, d) \<in> (child_edges t)\<^sup>*" by (simp add: subtree_def)
    then show "d \<in> subtree t1 i"
    proof (induction rule: rtrancl_induct)
      case (step a b)
      have "a \<in> subtree t i" "b \<in> subtree t i"
        using step.hyps by (auto simp: subtree_def intro: rtrancl_into_rtrancl)
      then have "a \<noteq> x" "b \<noteq> x" using xs by blast+
      then have "b \<in> set (kids t1 a)" using step.hyps(2) cleared_entry(4) [OF cl] by (simp add: child_edges_kids)
      then show ?case using subtree_closed [OF step.IH] by blast
    qed simp
  qed
  then show sb: "subtree t1 i = subtree t i" by blast
  show "path_in t1 i = e_full_path e" "path_in t1 q = e_full_path qe"
    using e1 q1 by (simp_all add: path_in_def pruned_entry_def)
  have "t_paths t1 (child_path (e_full_path qe) m) = None" using cl x(1) by (simp add: cleared_def)
  moreover have "linked e1" using e1(2) e(2) by (simp add: pruned_entry_def linked_def) auto
  ultimately show "can_move t1 i (e_parent e) (e_name e) q m"
    using e1 q1 p1 e(3) q(2,3) m sb by (auto simp: can_move_def pruned_entry_def)
qed

section \<open>The move\<close>

lemma move_entry_renames:
  assumes wf: "wf_table t" and cm: "can_move t i p n q m" and e: "t_inodes t i = Some e"
    and info: "r_ino info = i" "r_old_path info = e_full_path e" "r_new_full_path info = child_path (path_in t q) m"
      "r_kind info = e_kind e" "r_is_dirty info = is_dirty e" "r_xet_hash info = e_xet_hash e"
  obtains t' where "move_entry info p n q m now t = Some t'" "renames t i p q m t'" "wf_table t'"
    "same_data (mark_set (subtree t i) t) t'"
proof -
  let ?S = "subtree t i"
  define t1 where "t1 = (if is_dirty e \<and> e_kind e = File \<and> e_xet_hash e \<noteq> None
      then upd_inode i (\<lambda>x. x\<lparr>e_pending_deletes := e_pending_deletes x @ [e_full_path e]\<rparr>) t else t)"
  have t1: "t1 = mark_set {i} t"
  proof -
    have "mark_set {i} t = upd_inode i marked t"
      using mark_delete_set [of i "{}" t] by (simp add: mark_delete_upd)
    then show ?thesis using e by (simp add: t1_def marked_def upd_inode_def fun_upd_idem)
  qed
  have sh1: "shape_eq t t1" unfolding t1 by (rule shape_eq_mark [OF shape_eq_refl])
  obtain e' where e': "t_inodes t1 i = Some e'" "same_shape e e'" using shape_eq_entry(1) [OF sh1 e] by blast
  have mark: "(if e_kind e = Directory then mark_deletes [i] t1 else Some t1) = Some (mark_set ?S t)"
  proof (cases "e_kind e = Directory")
    case True
    then have "e_kind e' = Directory" using e'(2) by (simp add: same_shape_def)
    then have "mark_deletes [i] t1 = Some (mark_set (?S - {i}) t1)"
      using mark_deletes_subtree [OF shape_eq_facts(1) [OF sh1 wf] e'(1)] shape_eq_facts(4) [OF sh1] by simp
    also have "mark_set (?S - {i}) t1 = mark_set ?S t"
    proof -
      have "t_inodes (mark_set (?S - {i}) t1) = t_inodes (mark_set ?S t)" by (rule ext) (simp add: t1)
      then show ?thesis unfolding t1 by (simp add: mark_set_def)
    qed
    finally show ?thesis using True by simp
  next
    case False
    have "e_children e = []" using we_listing [OF wf_tableE [OF wf e]] False by (simp add: listing_ok_def)
    then show ?thesis using False t1 leaf_subtree [OF e] by simp
  qed
  define t2 where "t2 = mark_set ?S t"
  have sh2: "shape_eq t t2" unfolding t2_def by (rule shape_eq_mark [OF shape_eq_refl])
  note f2 = shape_eq_facts [OF sh2]
  have pi: "path_in t2 i = e_full_path e" "path_in t2 q = path_in t q" using f2(2) e by (simp_all add: path_in_def)
  obtain t3 where t3: "update_subtree_paths i (child_path (path_in t q) m) (moved_table i p n q m t2) = Some t3"
    "renames t2 i p q m t3" "same_data t2 t3"
    using update_after_move [OF f2(1) [OF wf] f2(5) [OF cm]] pi(2) by metis
  define t' where "t' = upd_inode i (\<lambda>e. e\<lparr>e_ctime := now\<rparr>)
    (if p \<noteq> q then touch_parent q now (touch_parent p now t3) else touch_parent p now t3)"
  have "move_entry info p n q m now t = Some t'"
    unfolding move_entry_def info Let_def t1_def [symmetric] mark [folded t2_def] option.case
      t3(1) [unfolded moved_table_def pi(1)]
    by (simp add: t'_def)
  moreover have "shape_eq t3 t'"
    unfolding t'_def touch_parent_def by (auto intro!: shape_eq_upd simp: same_shape_def)
  then have "renames t i p q m t'" by (rule renames_shape [OF sh2 t3(2)])
  moreover have "same_data t2 t'"
    unfolding t'_def touch_parent_def using t3(3) by (auto intro!: same_data_upd simp: e_data_def)
  ultimately show ?thesis using that wf_renames [OF wf cm] unfolding t2_def by blast
qed

section \<open>What a rename does\<close>

lemma validated:
  assumes wf: "wf_table t" and v: "rename_validate parent name newparent newname nr t = Some (Inr info)"
    and q: "t_inodes t newparent = Some qe" "e_kind qe = Directory"
  obtains src where "lookup_child t parent name = Some src" "t_inodes t (r_ino info) = Some src" "linked src"
    "r_ino info \<noteq> ROOT_INODE" "r_ino info = e_inode src" "r_old_path info = e_full_path src" "r_kind info = e_kind src"
    "r_xet_hash info = e_xet_hash src" "r_is_dirty info = is_dirty src" "e_parent src = parent" "e_name src = name"
    "r_new_full_path info = child_path (e_full_path qe) newname" "newparent \<notin> subtree t (r_ino info)"
    "\<And>x. lookup_child t newparent newname = Some x \<Longrightarrow> \<not> nr \<and> dest_conflict (e_kind src) x = None"
    "e_kind src = Directory \<Longrightarrow> set (r_descendant_files info) = {f. \<exists>d \<in> subtree t (r_ino info). clean_file t d = Some f}"
proof -
  obtain src where l: "lookup_child t parent name = Some src"
    using v by (auto simp: rename_validate_def split: option.splits)
  obtain pe where s: "t_inodes t (e_inode src) = Some src" "linked src" "e_inode src \<noteq> ROOT_INODE"
    "e_parent src = parent" "e_name src = name" by (rule lookup_childE [OF wf l]) blast
  note v' = v [unfolded rename_validate_def l q(1) option.case Let_def]
  have cl: "(if e_kind src = Directory then climbs t (e_inode src) newparent else Some False) =
      Some (e_kind src = Directory \<and> newparent \<in> subtree t (e_inode src))"
    using climbs_subtree [OF wf s(1,3) q] by simp
  have nd: "newparent \<notin> subtree t (e_inode src)" if "e_kind src \<noteq> Directory"
  proof -
    have "e_children src = []" using we_listing [OF wf_tableE [OF wf s(1)]] that by (simp add: listing_ok_def)
    then have "subtree t (e_inode src) = {e_inode src}" by (rule leaf_subtree [OF s(1)])
    then show ?thesis using q s(1) that by auto
  qed
  have ns: "newparent \<notin> subtree t (e_inode src)"
    using v' [unfolded cl] nd by (auto split: bool.splits)
  note v'' = v' [unfolded cl, simplified ns]
  define conflict where "conflict = (case lookup_child t newparent newname of
      None \<Rightarrow> None | Some x \<Rightarrow> if nr then Some EEXIST else dest_conflict (e_kind src) x)"
  have cf: "conflict = None" using v'' by (auto simp: conflict_def [symmetric] ns split: option.splits)
  obtain files where files: "(if e_kind src = Directory then collect_files t [e_inode src] [] else Some []) = Some files"
    and info: "info = \<lparr>r_ino = e_inode src, r_old_path = e_full_path src, r_kind = e_kind src, r_xet_hash = e_xet_hash src,
      r_is_dirty = is_dirty src, r_new_full_path = child_path (e_full_path qe) newname, r_descendant_files = files\<rparr>"
    using v'' cf by (auto simp: conflict_def [symmetric] ns)
  have "set files = {f. \<exists>d \<in> subtree t (e_inode src). clean_file t d = Some f}" if "e_kind src = Directory"
    by (rule collect_files_subtree [OF wf s(1) that]) (use files that in simp)
  moreover have "\<not> nr \<and> dest_conflict (e_kind src) x = None" if "lookup_child t newparent newname = Some x" for x
    using cf that by (auto simp: conflict_def split: if_splits)
  ultimately show ?thesis using that [of src] l s ns by (simp add: info)
qed

lemma child_path_inj:
  assumes "name_ok n" "name_ok m" "child_path p n = child_path q m" shows "p = q \<and> n = m"
proof -
  have r: "rsplit_once CHR ''/'' (child_path x k) = (if x = [] then None else Some (x, k))" if "name_ok k" for x k
    using that by (auto simp: child_path_def name_ok_def rsplit_once_Some rsplit_once_None)
  have "(if p = [] then None else Some (p, n)) = (if q = [] then None else Some (q, m))"
    using r [OF assms(1), of p] r [OF assms(2), of q] assms(3) by metis
  then show ?thesis using assms(3) by (cases "p = []"; cases "q = []") (simp_all add: child_path_def)
qed

lemma lookup_None_path:
  assumes wf: "wf_table t" and q: "t_inodes t q = Some qe" "e_kind qe = Directory"
    and l: "lookup_child t q m = None" and m: "name_ok m"
  shows "t_paths t (child_path (e_full_path qe) m) = None"
proof (rule ccontr)
  assume "t_paths t (child_path (e_full_path qe) m) \<noteq> None"
  then obtain k where k: "t_paths t (child_path (e_full_path qe) m) = Some k" by blast
  obtain y where y: "t_inodes t k = Some y" "e_full_path y = child_path (e_full_path qe) m" "linked y"
    by (rule path_entry [OF wf k])
  have kr: "k \<noteq> ROOT_INODE" using y(1,2) wf_wf_root [OF wf] m by (auto simp: wf_root_def child_path_def name_ok_def split: if_splits)
  obtain pe where pe: "t_inodes t (e_parent y) = Some pe" "e_kind pe = Directory"
    "\<lparr>c_ino = k, c_name = e_name y\<rparr> \<in> set (e_children pe)" "e_full_path y = child_path (e_full_path pe) (e_name y)"
    using parent_outside [OF wf y(1,3) kr] by metis
  have "name_ok (e_name y)" using we_name [OF wf_tableE [OF wf y(1)] kr] .
  then have eq: "e_full_path pe = e_full_path qe" "e_name y = m"
    using child_path_inj [of "e_name y" m] m y(2) pe(4) by auto
  have "t_paths t (e_full_path pe) = Some (e_parent y)" "t_paths t (e_full_path qe) = Some q"
    using we_path [OF wf_tableE [OF wf pe(1)]] we_path [OF wf_tableE [OF wf q(1)]] pe(2) q(2) by (simp_all add: linked_def)
  then have "e_parent y = q" using eq(1) by simp
  then have "\<lparr>c_ino = k, c_name = m\<rparr> \<in> set (e_children qe)" using pe q(1) eq(2) by auto
  then have "e_child_index qe m = Some k"
    using we_listing [OF wf_tableE [OF wf q(1)]] by (auto simp: listing_ok_def index_of_Some)
  then show False using l q(1) y(1) by (simp add: lookup_child_def)
qed

text \<open>
  The destination, once the entry found there is out of the way: the table in which the move is
  made.
\<close>

lemma rename_locked_moves:
  assumes wf: "wf_table t" and v: "rename_validate parent name newparent newname nr t = Some (Inr info)"
    and q: "t_inodes t newparent = Some qe" "e_kind qe = Directory" and m: "name_ok newname"
    and other: "\<And>x. lookup_child t newparent newname = Some x \<Longrightarrow> e_inode x \<noteq> r_ino info"
  obtains t1 t' staged where "rename_locked info parent name newparent newname nr now t = Some (Inr staged, t')"
    "wf_table t1" "wf_table t'" "can_move t1 (r_ino info) parent name newparent newname"
    "renames t1 (r_ino info) parent newparent newname t'" "subtree t1 (r_ino info) = subtree t (r_ino info)"
    "same_data (mark_set (subtree t (r_ino info)) t1) t'"
    "case lookup_child t newparent newname of None \<Rightarrow> t1 = t | Some x \<Rightarrow> cleared (e_inode x) t t1 \<and> e_inode x \<notin> subtree t (r_ino info)"
    "path_in t1 newparent = e_full_path qe"
proof -
  let ?i = "r_ino info"
  obtain src where h: "t_inodes t ?i = Some src" "linked src" "?i \<noteq> ROOT_INODE" "r_old_path info = e_full_path src"
    "r_kind info = e_kind src" "r_xet_hash info = e_xet_hash src" "r_is_dirty info = is_dirty src"
    "e_parent src = parent" "e_name src = name" "r_new_full_path info = child_path (e_full_path qe) newname"
    "newparent \<notin> subtree t ?i"
    and dc: "\<And>x. lookup_child t newparent newname = Some x \<Longrightarrow> \<not> nr \<and> dest_conflict (e_kind src) x = None"
    by (rule validated [OF wf v q]) blast
  obtain pe where pe: "t_inodes t parent = Some pe" using parent_outside [OF wf h(1,2,3)] h(8) by metis
  show ?thesis
  proof (cases "lookup_child t newparent newname")
    case None
    have free: "t_paths t (child_path (e_full_path qe) newname) = None"
      by (rule lookup_None_path [OF wf q None m])
    then have cm: "can_move t ?i parent name newparent newname"
      using h pe q m by (auto simp: can_move_def)
    have pq: "path_in t newparent = e_full_path qe" using q(1) by (simp add: path_in_def)
    obtain t' where t': "move_entry info parent name newparent newname now t = Some t'"
      "renames t ?i parent newparent newname t'" "wf_table t'" "same_data (mark_set (subtree t ?i) t) t'"
      by (rule move_entry_renames [where info = info and now = now, OF wf cm h(1) refl h(4) _ h(5,7,6)]) (simp_all add: h(10) pq)
    show ?thesis
      by (rule that [of None t' t]) (use t' cm wf None h pq in \<open>auto simp: rename_locked_def\<close>)
  next
    case (Some x)
    obtain qe' where x: "t_inodes t newparent = Some qe'" "e_child_index qe' newname = Some (e_inode x)" "t_inodes t (e_inode x) = Some x"
      "linked x" "e_full_path x = child_path (e_full_path qe') newname"
      by (rule lookup_childE [OF wf Some]) blast
    then have qe': "qe' = qe" using q(1) by simp
    have ne: "e_inode x \<noteq> ?i" using other [OF Some] .
    obtain staged t1 where t1: "replace_target newparent newname now x t = Some (staged, t1)" "cleared (e_inode x) t t1"
      using replace_target_clears [OF wf Some] dc [OF Some] by metis
    have leaf: "kids t (e_inode x) = []"
    proof (cases "e_kind x = Directory")
      case True
      then have "e_children x = []" using dc [OF Some] by (auto simp: dest_conflict_def split: inode_kind.splits if_splits)
      then show ?thesis using x(3) by (simp add: kids_def)
    next
      case False
      then show ?thesis using we_listing [OF wf_tableE [OF wf x(3)]] x(3) by (simp add: kids_def listing_ok_def)
    qed
    have kid: "e_inode x \<in> set (kids t newparent)"
      using x(2) q(1) we_listing [OF wf_tableE [OF wf q(1)]] qe'
      by (force simp: kids_def listing_ok_def index_of_Some)
    have own: "t_paths t (child_path (e_full_path qe) newname) = Some (e_inode x)"
      using we_path [OF wf_tableE [OF wf x(3)] x(4)] x(5) qe' by simp
    note cm = cleared_can_move [OF wf t1(2) h(1,2,3) q h(11) m own ne kid leaf]
    have wf1: "wf_table t1" using t1(2) by (simp add: cleared_def)
    obtain s1 where s1: "t_inodes t1 ?i = Some s1" "pruned_entry {e_inode x} src s1"
      using cleared_entry(1) [OF t1(2) _ h(1)] ne by metis
    have data: "e_kind s1 = e_kind src" "is_dirty s1 = is_dirty src" "e_xet_hash s1 = e_xet_hash src"
      "e_full_path s1 = e_full_path src"
      using s1(2) by (simp_all add: pruned_entry_def is_dirty_def)
    obtain t' where t': "move_entry info parent name newparent newname now t1 = Some t'"
      "renames t1 ?i parent newparent newname t'" "wf_table t'" "same_data (mark_set (subtree t1 ?i) t1) t'"
      by (rule move_entry_renames [where info = info and now = now, OF wf1 cm(1) [unfolded h(8,9)] s1(1) refl])
        (simp_all add: h data cm)
    have xs: "e_inode x \<notin> subtree t ?i" using subtree_up [OF wf _ ne kid] h(11) by blast
    show ?thesis
      by (rule that [of staged t' t1])
        (use t' cm wf1 Some ne t1 dc [OF Some] xs in \<open>auto simp: rename_locked_def h(1,5,8,9)\<close>)
  qed
qed

lemma renames_lookup:
  assumes wf1: "wf_table t1" and wf': "wf_table t'" and cm: "can_move t1 i p n q m" and rn: "renames t1 i p q m t'"
    and ne: "(p, n) \<noteq> (q, m)"
  shows "map_option e_inode (lookup_child t' q m) = Some i" and "lookup_child t' p n = None"
proof -
  have rel: "rel_option (renamed_entry t1 i p q m k) (t_inodes t1 k) (t_inodes t' k)" for k
    using rn by (simp add: renames_def)
  obtain e pe qe where h: "t_inodes t1 i = Some e" "linked e" "i \<noteq> ROOT_INODE" "e_parent e = p" "e_name e = n"
    "t_inodes t1 q = Some qe" using cm by (auto simp: can_move_def)
  obtain z where z: "t_inodes t' q = Some z" "renamed_entry t1 i p q m q qe z" using rel [of q] h(6) by (auto simp: option_rel_Some1)
  obtain w where w: "t_inodes t' i = Some w" "renamed_entry t1 i p q m i e w" using rel [of i] h(1) by (auto simp: option_rel_Some1)
  have "e_inode w = i" using we_inode [OF wf_tableE [OF wf' w(1)]] .
  then show "map_option e_inode (lookup_child t' q m) = Some i"
    using z(1) w(1) renamed_fields(8) [OF z(2)] by (simp add: lookup_child_def)
  show "lookup_child t' p n = None"
  proof (rule ccontr)
    assume "lookup_child t' p n \<noteq> None"
    then obtain y where "lookup_child t' p n = Some y" by blast
    then obtain pe where y: "t_inodes t' (e_inode y) = Some y" "e_parent y = p" "e_name y = n" "linked y" "e_inode y \<noteq> ROOT_INODE"
      by (rule lookup_childE [OF wf']) blast
    obtain x where x: "t_inodes t1 (e_inode y) = Some x" "renamed_entry t1 i p q m (e_inode y) x y"
      using rel [of "e_inode y"] y(1) by (auto simp: option_rel_Some2)
    note rf = renamed_fields [OF x(2)]
    have yi: "e_inode y \<noteq> i" using rf(4,5) y(2,3) ne by auto
    then have "e_parent x = p" "e_name x = n" "linked x" using rf y by auto
    then obtain pe where pe: "t_inodes t1 p = Some pe" "\<lparr>c_ino = e_inode y, c_name = n\<rparr> \<in> set (e_children pe)"
      using we_attached [OF wf_tableE [OF wf1 x(1)] y(5)] we_inode [OF wf_tableE [OF wf1 x(1)]] by (auto simp: attached_def)
    have "\<lparr>c_ino = i, c_name = n\<rparr> \<in> set (e_children pe)"
      using we_attached [OF wf_tableE [OF wf1 h(1)] h(3,2)] we_inode [OF wf_tableE [OF wf1 h(1)]] h(4,5) pe(1)
      by (auto simp: attached_def)
    moreover have "distinct (map c_name (e_children pe))"
      using we_listing [OF wf_tableE [OF wf1 pe(1)]] by (simp add: listing_ok_def)
    ultimately show False using pe(2) yi
      by (auto simp: distinct_map dest: inj_onD [of c_name _ "\<lparr>c_ino = e_inode y, c_name = n\<rparr>" "\<lparr>c_ino = i, c_name = n\<rparr>"])
  qed
qed

lemma rename_locked_effect:
  assumes wf: "wf_table t" and v: "rename_validate parent name newparent newname no_replace t = Some (Inr info)"
    and q: "t_inodes t newparent = Some qe" "e_kind qe = Directory" and m: "name_ok newname"
    and other: "map_option e_inode (lookup_child t newparent newname) \<noteq> Some (r_ino info)"
  shows "\<exists>staged t'. rename_locked info parent name newparent newname no_replace now t = Some (Inr staged, t') \<and>
    wf_table t' \<and>
    map_option e_inode (lookup_child t' newparent newname) = Some (r_ino info) \<and> lookup_child t' parent name = None \<and>
    (\<forall>d. d \<in> subtree t (r_ino info) \<longrightarrow>
       path_in t' d = newpath (r_old_path info) (r_new_full_path info) (path_in t d) \<and> t_paths t' (path_in t' d) = Some d) \<and>
    (\<forall>k x. k \<notin> subtree t (r_ino info) \<longrightarrow> map_option e_inode (lookup_child t newparent newname) \<noteq> Some k \<longrightarrow>
       t_paths t' x = Some k \<longleftrightarrow> t_paths t x = Some k) \<and>
    (\<forall>d e. d \<in> subtree t (r_ino info) \<longrightarrow> t_inodes t d = Some e \<longrightarrow> e_kind e = File \<longrightarrow> is_dirty e \<longrightarrow>
       e_xet_hash e \<noteq> None \<longrightarrow> (\<exists>e'. t_inodes t' d = Some e' \<and> e_full_path e \<in> set (e_pending_deletes e')))"
proof -
  let ?i = "r_ino info" and ?S = "subtree t (r_ino info)"
  obtain src where src: "lookup_child t parent name = Some src" "?i = e_inode src" "t_inodes t ?i = Some src"
    "r_old_path info = e_full_path src" "r_new_full_path info = child_path (e_full_path qe) newname"
    by (rule validated [OF wf v q]) blast
  obtain t1 t' staged where r: "rename_locked info parent name newparent newname no_replace now t = Some (Inr staged, t')"
    and wf1: "wf_table t1" and wf': "wf_table t'" and cm: "can_move t1 ?i parent name newparent newname"
    and rn: "renames t1 ?i parent newparent newname t'" and sb: "subtree t1 ?i = ?S"
    and sd: "same_data (mark_set ?S t1) t'"
    and cl: "case lookup_child t newparent newname of None \<Rightarrow> t1 = t
      | Some x \<Rightarrow> cleared (e_inode x) t t1 \<and> e_inode x \<notin> ?S"
    and pq: "path_in t1 newparent = e_full_path qe"
    by (rule rename_locked_moves [OF wf v q m, of now]) (use other in auto)
  have ne: "(parent, name) \<noteq> (newparent, newname)" using src(1,2) other by auto
  have same: "path_in t1 d = path_in t d" "rel_option (\<lambda>e f. e_data f = e_data e \<and> e_full_path f = e_full_path e) (t_inodes t d) (t_inodes t1 d)"
    if "d \<in> ?S" for d
  proof -
    have "path_in t1 d = path_in t d \<and> rel_option (\<lambda>e f. e_data f = e_data e \<and> e_full_path f = e_full_path e) (t_inodes t d) (t_inodes t1 d)"
    proof (cases "lookup_child t newparent newname")
      case None
      then show ?thesis using cl by (simp add: option.rel_refl)
    next
      case (Some x)
      then have c: "cleared (e_inode x) t t1" "d \<noteq> e_inode x" using cl that by auto
      then have "rel_option (pruned_entry {e_inode x}) (t_inodes t d) (t_inodes t1 d)" by (simp add: cleared_def)
      then have "rel_option (\<lambda>e f. e_data f = e_data e \<and> e_full_path f = e_full_path e) (t_inodes t d) (t_inodes t1 d)"
        by (rule option.rel_mono_strong) (auto simp: pruned_entry_def e_data_def)
      then show ?thesis using cleared_entry(3) [OF c] by simp
    qed
    then show "path_in t1 d = path_in t d"
      "rel_option (\<lambda>e f. e_data f = e_data e \<and> e_full_path f = e_full_path e) (t_inodes t d) (t_inodes t1 d)" by auto
  qed
  have pi: "path_in t1 ?i = r_old_path info" using same(1) [of ?i] src by (simp add: path_in_def)
  have "\<forall>d \<in> ?S. t_paths t' (newpath (r_old_path info) (r_new_full_path info) (path_in t1 d)) = Some d"
    using rn by (simp add: renames_def sb pi pq src(5))
  then have np: "t_paths t' (newpath (r_old_path info) (r_new_full_path info) (path_in t d)) = Some d" if "d \<in> ?S" for d
    using that same(1) [OF that] by auto
  have moved: "path_in t' d = newpath (r_old_path info) (r_new_full_path info) (path_in t d) \<and> t_paths t' (path_in t' d) = Some d"
    if d: "d \<in> ?S" for d
  proof -
    obtain y where "t_inodes t' d = Some y" "e_full_path y = newpath (r_old_path info) (r_new_full_path info) (path_in t d)"
      by (rule path_entry [OF wf' np [OF d]])
    then show ?thesis using np [OF d] by (simp add: path_in_def)
  qed
  have out: "t_paths t' x = Some k \<longleftrightarrow> t_paths t x = Some k"
    if k: "k \<notin> ?S" "map_option e_inode (lookup_child t newparent newname) \<noteq> Some k" for k x
  proof -
    have "t_paths t' x = Some k \<longleftrightarrow> t_paths t1 x = Some k" using rn k(1) by (auto simp: renames_def sb)
    also have "\<dots> \<longleftrightarrow> t_paths t x = Some k"
      using cl k(2) by (cases "lookup_child t newparent newname") (auto simp: cleared_def split: option.split)
    finally show ?thesis .
  qed
  have pend: "\<exists>e'. t_inodes t' d = Some e' \<and> e_full_path e \<in> set (e_pending_deletes e')"
    if d: "d \<in> ?S" "t_inodes t d = Some e" "e_kind e = File" "is_dirty e" "e_xet_hash e \<noteq> None" for d e
  proof -
    obtain f where f: "t_inodes t1 d = Some f" "e_data f = e_data e" "e_full_path f = e_full_path e"
      using same(2) [OF d(1)] d(2) by (auto simp: option_rel_Some1)
    have mk: "t_inodes (mark_set ?S t1) d = Some (marked f)" using d(1) f(1) by simp
    have "map_option e_data (t_inodes t' d) = Some (e_data (marked f))" using sd mk by (simp add: same_data_def)
    then obtain e' where e': "t_inodes t' d = Some e'" "e_data e' = e_data (marked f)" by auto
    have "e_kind f = File" "is_dirty f" "e_xet_hash f \<noteq> None" using f(2) d by (auto simp: e_data_def is_dirty_def)
    then have "e_pending_deletes e' = e_pending_deletes f @ [e_full_path e]"
      using e'(2) f(3) by (simp add: e_data_def marked_def)
    then show ?thesis using e'(1) by simp
  qed
  show ?thesis
    using r wf' renames_lookup [OF wf1 wf' cm rn ne] moved out pend by (intro exI [of _ staged] exI [of _ t']) blast
qed

lemma rename_moved_paths:
  assumes wf: "wf_table t" and v: "rename_validate parent name newparent newname no_replace t = Some (Inr info)"
    and q: "t_inodes t newparent = Some qe" "e_kind qe = Directory" and m: "name_ok newname"
    and other: "map_option e_inode (lookup_child t newparent newname) \<noteq> Some (r_ino info)"
    and r: "rename_locked info parent name newparent newname no_replace now t = Some (Inr staged, t')"
    and d: "d \<in> subtree t (r_ino info)"
  shows "path_in t' d = newpath (r_old_path info) (r_new_full_path info) (path_in t d)"
proof -
  obtain st t2 where e: "rename_locked info parent name newparent newname no_replace now t = Some (Inr st, t2)"
    "path_in t2 d = newpath (r_old_path info) (r_new_full_path info) (path_in t d)"
    using rename_locked_effect [OF wf v q m other, of now] d by blast
  then have "t2 = t'" using r by simp
  then show ?thesis using e(2) by simp
qed

text \<open>
  C4: a rename does exactly what it says.  In a well-formed tree, for a rename the validation
  accepts, the change of the table ends and leaves a well-formed tree; the new name is the source,
  the old name is gone; every entry of the moved subtree is found at its old path with the prefix
  replaced; every other entry, but the one replaced, keeps exactly its paths; and every dirty file
  in the subtree that exists on the Hub remembers its old path for deletion.
\<close>

theorem rename_moves_subtree:
  assumes wf: "wf_table t" and v: "rename_validate parent name newparent newname no_replace t = Some (Inr info)"
    and q: "t_inodes t newparent = Some qe" "e_kind qe = Directory" and m: "name_ok newname"
    and other: "map_option e_inode (lookup_child t newparent newname) \<noteq> Some (r_ino info)"
  shows "\<exists>staged t'. rename_locked info parent name newparent newname no_replace now t = Some (Inr staged, t') \<and>
    wf_table t' \<and>
    map_option e_inode (lookup_child t' newparent newname) = Some (r_ino info) \<and> lookup_child t' parent name = None \<and>
    (\<forall>d. d \<in> subtree t (r_ino info) \<longrightarrow>
       path_in t' d = newpath (r_old_path info) (r_new_full_path info) (path_in t d) \<and> t_paths t' (path_in t' d) = Some d) \<and>
    (\<forall>k x. k \<notin> subtree t (r_ino info) \<longrightarrow> map_option e_inode (lookup_child t newparent newname) \<noteq> Some k \<longrightarrow>
       t_paths t' x = Some k \<longleftrightarrow> t_paths t x = Some k) \<and>
    (\<forall>d e. d \<in> subtree t (r_ino info) \<longrightarrow> t_inodes t d = Some e \<longrightarrow> e_kind e = File \<longrightarrow> is_dirty e \<longrightarrow>
       e_xet_hash e \<noteq> None \<longrightarrow> (\<exists>e'. t_inodes t' d = Some e' \<and> e_full_path e \<in> set (e_pending_deletes e')))"
  by (rule rename_locked_effect [OF assms])

text \<open>A rename of a directory with a file in it, for the examples.\<close>

definition sample_info :: rename_info where
  "sample_info = \<lparr>r_ino = 2, r_old_path = ''d'', r_kind = Directory, r_xet_hash = None, r_is_dirty = False,
     r_new_full_path = ''e'', r_descendant_files = [(''d/f'', ''h'')]\<rparr>"

lemma sample_validate: "rename_validate 1 ''d'' 1 ''e'' False dir_with_file = Some (Inr sample_info)"
  by (simp add: rename_validate_def lookup_child_def dir_with_file_def sample_defs sample_info_def wrap64_def
      climbs.simps collect_files.simps child_dirs_def clean_file_def List.map_filter_simps is_dirty_def)

theorem rename_moves_subtree_witness:
  "\<exists>staged t'. rename_locked sample_info 1 ''d'' 1 ''e'' False 5 dir_with_file = Some (Inr staged, t') \<and>
    wf_table t' \<and> lookup_child t' 1 ''d'' = None"
proof -
  obtain r where r: "t_inodes dir_with_file 1 = Some r" "e_kind r = Directory"
    by (simp add: dir_with_file_def sample_defs wrap64_def)
  have n: "name_ok ''e''" by (simp add: name_ok_def)
  have "lookup_child dir_with_file 1 ''e'' = None"
    by (simp add: lookup_child_def dir_with_file_def sample_defs wrap64_def)
  then show ?thesis
    using rename_moves_subtree [OF wf_dir_with_file sample_validate r n, of 5] by simp blast
qed

text \<open>The batch sent to the Hub, in terms of the tree.\<close>

lemma rename_ops_files:
  assumes wf: "wf_table t" and v: "rename_validate parent name newparent newname nr t = Some (Inr info)"
    and q: "t_inodes t newparent = Some qe" "e_kind qe = Directory"
  obtains files where "set files = {f. \<exists>d \<in> subtree t (r_ino info). clean_file t d = Some f}"
    "rename_ops mt info = (if files = [] then None
       else Some (map (\<lambda>(old, hash). AddFile (child_new_path info old) hash mt None) files @ map (\<lambda>(old, hash). DeleteFile old) files))"
proof -
  obtain src where h: "t_inodes t (r_ino info) = Some src" "r_ino info = e_inode src" "r_old_path info = e_full_path src"
    "r_kind info = e_kind src" "r_xet_hash info = e_xet_hash src" "r_is_dirty info = is_dirty src"
    and fs: "e_kind src = Directory \<Longrightarrow> set (r_descendant_files info) = {f. \<exists>d \<in> subtree t (r_ino info). clean_file t d = Some f}"
    by (rule validated [OF wf v q]) blast
  show ?thesis
  proof (cases "e_kind src = Directory")
    case True
    then show ?thesis using that [of "r_descendant_files info"] fs by (simp add: rename_ops_def h)
  next
    case False
    have "e_children src = []" using we_listing [OF wf_tableE [OF wf h(1)]] False by (simp add: listing_ok_def)
    then have sb: "subtree t (r_ino info) = {r_ino info}" by (rule leaf_subtree [OF h(1)])
    have cn: "child_new_path info (e_full_path src) = r_new_full_path info"
      by (simp add: child_new_path_def h(3) strip_prefix_Some [of _ _ "[]", THEN iffD2])
    define files where "files = (case clean_file t (r_ino info) of None \<Rightarrow> [] | Some f \<Rightarrow> [f])"
    have "set files = {f. \<exists>d \<in> subtree t (r_ino info). clean_file t d = Some f}"
      by (auto simp: files_def sb split: option.splits)
    moreover have "rename_ops mt info = (if files = [] then None
       else Some (map (\<lambda>(old, hash). AddFile (child_new_path info old) hash mt None) files @ map (\<lambda>(old, hash). DeleteFile old) files))"
      using False cn
      by (cases "e_kind src"; cases "e_xet_hash src"; cases "is_dirty src")
        (simp_all add: rename_ops_def files_def clean_file_def h(1,3-6))
    ultimately show ?thesis by (rule that)
  qed
qed

lemma child_new_path_newpath:
  assumes "x = r_old_path info @ r"
  shows "child_new_path info x = newpath (r_old_path info) (r_new_full_path info) x"
proof -
  have "strip_prefix x (r_old_path info) = Some r" using assms by (simp add: strip_prefix_Some)
  then show ?thesis using assms by (simp add: child_new_path_def newpath_def)
qed

text \<open>
  C7: the Hub and the table agree on a rename.  The batch is empty exactly when no clean file of the
  moved subtree is on the Hub; otherwise it adds, for each such file and for nothing else, its hash at the very path the
  table gives it after the rename, deletes its old path, and has all additions before all deletions.
\<close>

theorem rename_batch_matches_table:
  assumes wf: "wf_table t" and v: "rename_validate parent name newparent newname no_replace t = Some (Inr info)"
    and q: "t_inodes t newparent = Some qe" "e_kind qe = Directory" and m: "name_ok newname"
    and other: "map_option e_inode (lookup_child t newparent newname) \<noteq> Some (r_ino info)"
    and r: "rename_locked info parent name newparent newname no_replace now t = Some (Inr staged, t')"
  shows "\<exists>adds dels. (rename_ops mt info = Some (adds @ dels) \<and> adds \<noteq> [] \<or> rename_ops mt info = None \<and> adds = [] \<and> dels = []) \<and>
    list_all is_AddFile adds \<and> list_all is_DeleteFile dels \<and>
    set adds = {AddFile (path_in t' d) hash mt None | d old hash. d \<in> subtree t (r_ino info) \<and> clean_file t d = Some (old, hash)} \<and>
    set dels = {DeleteFile (path_in t d) | d old hash. d \<in> subtree t (r_ino info) \<and> clean_file t d = Some (old, hash)}"
proof -
  let ?S = "subtree t (r_ino info)"
  obtain src where src: "t_inodes t (r_ino info) = Some src" "linked src" "r_ino info \<noteq> ROOT_INODE" "r_old_path info = e_full_path src"
    by (rule validated [OF wf v q]) blast
  have moved: "path_in t' d = newpath (r_old_path info) (r_new_full_path info) (path_in t d)" if "d \<in> ?S" for d
    using rename_moved_paths [OF wf v q m other r that] .
  have P: "path_in t (r_ino info) \<noteq> []"
  proof -
    have "name_ok (e_name src)" using we_name [OF wf_tableE [OF wf src(1)] src(3)] .
    then show ?thesis using parent_outside [OF wf src(1,2,3)] src(1) by (metis child_path_longer length_0_conv not_less_zero option.simps(5) path_in_def)
  qed
  have cnp: "child_new_path info (path_in t d) = path_in t' d" if d: "d \<in> ?S" for d
  proof -
    obtain sfx where "path_in t d = r_old_path info @ sfx"
      using subtree_suffix [OF wf P d] src(1,4) by (auto simp: path_in_def)
    then show ?thesis using child_new_path_newpath moved [OF d] by metis
  qed
  have old: "old = path_in t d" if "clean_file t d = Some (old, hash)" for d old hash
    using that by (auto simp: clean_file_def path_in_def split: option.splits if_splits)
  obtain files where files: "set files = {f. \<exists>d \<in> ?S. clean_file t d = Some f}"
    "rename_ops mt info = (if files = [] then None
       else Some (map (\<lambda>(old, hash). AddFile (child_new_path info old) hash mt None) files @ map (\<lambda>(old, hash). DeleteFile old) files))"
    by (rule rename_ops_files [OF wf v q])
  let ?A = "map (\<lambda>(old, hash). AddFile (child_new_path info old) hash mt None) files" and ?D = "map (\<lambda>(old, hash). DeleteFile old) files"
  have "set ?A = {AddFile (path_in t' d) hash mt None | d old hash. d \<in> ?S \<and> clean_file t d = Some (old, hash)}"
  proof -
    have "set ?A = {AddFile (child_new_path info old) hash mt None | d old hash. d \<in> ?S \<and> clean_file t d = Some (old, hash)}"
      by (auto simp: files(1) image_iff)
    also have "\<dots> = {AddFile (path_in t' d) hash mt None | d old hash. d \<in> ?S \<and> clean_file t d = Some (old, hash)}"
      using old cnp by (intro Collect_cong ex_cong1) metis
    finally show ?thesis .
  qed
  moreover have "set ?D = {DeleteFile (path_in t d) | d old hash. d \<in> ?S \<and> clean_file t d = Some (old, hash)}"
  proof -
    have "set ?D = {DeleteFile old | d old hash. d \<in> ?S \<and> clean_file t d = Some (old, hash)}"
      by (auto simp: files(1) image_iff)
    also have "\<dots> = {DeleteFile (path_in t d) | d old hash. d \<in> ?S \<and> clean_file t d = Some (old, hash)}"
      using old by (intro Collect_cong ex_cong1) metis
    finally show ?thesis .
  qed
  ultimately show ?thesis
    using files(2) by (intro exI [of _ ?A] exI [of _ ?D]) (auto simp: list_all_iff)
qed

theorem rename_batch_matches_table_witness:
  "\<exists>adds dels. rename_ops 7 sample_info = Some (adds @ dels) \<and> list_all is_AddFile adds \<and> list_all is_DeleteFile dels"
proof -
  obtain r where r: "t_inodes dir_with_file 1 = Some r" "e_kind r = Directory"
    by (simp add: dir_with_file_def sample_defs wrap64_def)
  have n: "name_ok ''e''" by (simp add: name_ok_def)
  have free: "map_option e_inode (lookup_child dir_with_file 1 ''e'') \<noteq> Some (r_ino sample_info)"
    by (simp add: lookup_child_def dir_with_file_def sample_defs wrap64_def)
  obtain st t' where l: "rename_locked sample_info 1 ''d'' 1 ''e'' False 5 dir_with_file = Some (Inr st, t')"
    using rename_locked_effect [OF wf_dir_with_file sample_validate r n free] by blast
  have "rename_ops 7 sample_info \<noteq> None" by (simp add: rename_ops_def sample_info_def)
  then show ?thesis
    using rename_batch_matches_table [where mt = 7, OF wf_dir_with_file sample_validate r n free l] by auto
qed

text \<open>
  C15: the validation of a rename ends on every well-formed tree, and refuses with \<open>EINVAL\<close> exactly to move a
  directory below itself.  Given a source and a destination directory that exist, it refuses with
  \<open>EEXIST\<close>, \<open>EISDIR\<close>, \<open>ENOTDIR\<close> or \<open>ENOTEMPTY\<close> exactly as the entry found at the new name demands, and
  accepts otherwise; then it tells the later phases the source, its old and its new path, its state, and, for a
  directory, exactly the clean files with content of the subtree, with their paths and hashes.
\<close>

theorem rename_validate_total:
  assumes wf: "wf_table t" and src: "lookup_child t parent name = Some src"
    and q: "t_inodes t newparent = Some qe" "e_kind qe = Directory"
  shows "\<exists>r files. rename_validate parent name newparent newname no_replace t = Some r \<and>
    set files = (if e_kind src = Directory
      then {(e_full_path f, h) | f h. \<exists>d \<in> subtree t (e_inode src). t_inodes t d = Some f \<and> e_kind f = File \<and> \<not> is_dirty f \<and> e_xet_hash f = Some h}
      else {}) \<and>
    (let accepted = Inr \<lparr>r_ino = e_inode src, r_old_path = e_full_path src, r_kind = e_kind src, r_xet_hash = e_xet_hash src,
         r_is_dirty = is_dirty src, r_new_full_path = child_path (e_full_path qe) newname, r_descendant_files = files\<rparr>
     in if e_kind src = Directory \<and> newparent \<in> subtree t (e_inode src) then r = Inl EINVAL
     else (case lookup_child t newparent newname of
        None \<Rightarrow> r = accepted
      | Some x \<Rightarrow>
          if no_replace then r = Inl EEXIST
          else if e_kind src \<noteq> Directory \<and> e_kind x = Directory then r = Inl EISDIR
          else if e_kind src = Directory \<and> e_kind x \<noteq> Directory then r = Inl ENOTDIR
          else if e_kind src = Directory \<and> e_children x \<noteq> [] then r = Inl ENOTEMPTY
          else r = accepted))"
proof -
  obtain pe where s: "t_inodes t (e_inode src) = Some src" "linked src" "e_inode src \<noteq> ROOT_INODE"
    by (rule lookup_childE [OF wf src]) blast
  have cl: "(if e_kind src = Directory then climbs t (e_inode src) newparent else Some False) =
      Some (e_kind src = Directory \<and> newparent \<in> subtree t (e_inode src))"
    using climbs_subtree [OF wf s(1,3) q] by simp
  obtain files where files: "(if e_kind src = Directory then collect_files t [e_inode src] [] else Some []) = Some files"
    "set files = (if e_kind src = Directory then {g. \<exists>d \<in> subtree t (e_inode src). clean_file t d = Some g} else {})"
  proof (cases "e_kind src = Directory")
    case True
    show ?thesis by (rule collect_files_subtree [OF wf s(1) True]) (use that True in simp)
  next
    case False
    then show ?thesis using that by simp
  qed
  have c: "{g. \<exists>d \<in> D. clean_file t d = Some g} =
      {(e_full_path f, h) | f h. \<exists>d \<in> D. t_inodes t d = Some f \<and> e_kind f = File \<and> \<not> is_dirty f \<and> e_xet_hash f = Some h}" for D
    by (auto simp: clean_file_def split: option.splits if_splits)
  have dc: "dest_conflict (e_kind src) x =
      (if e_kind src \<noteq> Directory \<and> e_kind x = Directory then Some EISDIR
       else if e_kind src = Directory \<and> e_kind x \<noteq> Directory then Some ENOTDIR
       else if e_kind src = Directory \<and> e_children x \<noteq> [] then Some ENOTEMPTY else None)" for x
    by (cases "e_kind src"; cases "e_kind x") (simp_all add: dest_conflict_def)
  let ?acc = "Inr \<lparr>r_ino = e_inode src, r_old_path = e_full_path src, r_kind = e_kind src, r_xet_hash = e_xet_hash src,
    r_is_dirty = is_dirty src, r_new_full_path = child_path (e_full_path qe) newname, r_descendant_files = files\<rparr>"
  have "\<exists>r. rename_validate parent name newparent newname no_replace t = Some r \<and>
    (if e_kind src = Directory \<and> newparent \<in> subtree t (e_inode src) then r = Inl EINVAL
     else (case lookup_child t newparent newname of
        None \<Rightarrow> r = ?acc
      | Some x \<Rightarrow>
          if no_replace then r = Inl EEXIST
          else if e_kind src \<noteq> Directory \<and> e_kind x = Directory then r = Inl EISDIR
          else if e_kind src = Directory \<and> e_kind x \<noteq> Directory then r = Inl ENOTDIR
          else if e_kind src = Directory \<and> e_children x \<noteq> [] then r = Inl ENOTEMPTY
          else r = ?acc))"
    unfolding rename_validate_def src q(1) option.case cl files(1) Let_def dc
    by (cases "e_kind src = Directory \<and> newparent \<in> subtree t (e_inode src)";
        cases "lookup_child t newparent newname"; cases "no_replace = True") auto
  then show ?thesis unfolding Let_def using files(2) [unfolded c] by blast
qed

theorem rename_validate_total_witness:
  "rename_validate 1 ''d'' 2 ''x'' False dir_with_file = Some (Inl EINVAL)"
proof -
  obtain s where s: "lookup_child dir_with_file 1 ''d'' = Some s" "t_inodes dir_with_file 2 = Some s" "e_kind s = Directory" "e_inode s = 2"
    by (simp add: lookup_child_def dir_with_file_def sample_defs wrap64_def)
  show ?thesis using rename_validate_total [OF wf_dir_with_file s(1,2,3), of "''x''" False] s(3,4) by simp
qed

end
