(* ===== verification/Flush_Rename.thy ===== *)
theory Flush_Rename
  imports Vfs_Rename
begin

text \<open>
  The flush and the rename together: a rename of a dirty file while a flush of it is uploading.
\<close>

text \<open>A rename to a free name keeps the dirty generation of the file it moves.\<close>

lemma rename_keeps_generation:
  assumes wf: "wf_table t" and v: "rename_validate parent name newparent newname no_replace t = Some (Inr info)"
    and q: "t_inodes t newparent = Some qe" "e_kind qe = Directory" and m: "name_ok newname"
    and free: "lookup_child t newparent newname = None"
    and e: "t_inodes t (r_ino info) = Some e"
    and r: "rename_locked info parent name newparent newname no_replace now t = Some (res, t')"
  obtains e' where "t_inodes t' (r_ino info) = Some e'" "e_dirty_generation e' = e_dirty_generation e"
    "e_full_path e' = r_new_full_path info" "t_paths t (r_new_full_path info) = None"
proof -
  let ?i = "r_ino info"
  have other: "\<And>x. lookup_child t newparent newname = Some x \<Longrightarrow> e_inode x \<noteq> ?i" using free by simp
  have other': "map_option e_inode (lookup_child t newparent newname) \<noteq> Some ?i" using free by simp
  obtain t1 t2 staged where r2: "rename_locked info parent name newparent newname no_replace now t = Some (Inr staged, t2)"
    and sd: "same_data (mark_set (subtree t ?i) t1) t2" and t1: "t1 = t"
    by (rule rename_locked_moves [OF wf v q m other, of now]) (use free in auto)
  obtain src where src: "t_inodes t ?i = Some src" "r_old_path info = e_full_path src"
    "r_new_full_path info = child_path (e_full_path qe) newname"
    by (rule validated [OF wf v q]) blast
  have t2: "t2 = t'" and rr: "rename_locked info parent name newparent newname no_replace now t = Some (Inr staged, t')" using r r2 by simp_all
  have self: "?i \<in> subtree t ?i" by (simp add: subtree_def)
  have "path_in t' ?i = r_new_full_path info"
    unfolding rename_moved_paths [OF wf v q m other' rr self] using src by (simp add: path_in_def newpath_def)
  moreover obtain e' where e': "t_inodes t' ?i = Some e'" "e_data e' = e_data (marked e)"
    using sd self e by (auto simp: same_data_def t1 t2 dest!: spec [of _ ?i])
  ultimately show thesis
    using that [of e'] lookup_None_path [OF wf q free m] src(3) by (auto simp: path_in_def e_data_def marked_def split: if_splits)
qed

text \<open>
  C34: a flush loses the rename of a dirty file that happens while it uploads.  Take a batch in which a linked, dirty,
  staged file is due with new content, all uploads and the commit succeed, and let the file be renamed to a free
  name while the upload runs.  The one commit of the batch adds the file at its old path and nothing at the new
  one, but the file ends clean at the new path with no delete pending: the rename does not advance the dirty
  generation, so the commit is taken for current and the delete the rename queued is forgotten.  Nothing
  is left that would bring the Hub to the new name.
\<close>

theorem flush_loses_dirty_rename:
  assumes wf: "wf_table t" and v: "rename_validate parent name newparent newname no_replace t = Some (Inr info)"
    and q: "t_inodes t newparent = Some qe" "e_kind qe = Directory" and m: "name_ok newname"
    and free: "lookup_child t newparent newname = None"
    and ren: "rename_locked info parent name newparent newname no_replace now t = Some (res, t')"
    and i: "r_ino info \<in> set pending" "t_inodes t (r_ino info) = Some e" "0 < e_nlink e" "is_dirty e" "en_staged en (r_ino info)"
    and up: "\<And>inos. en_upload en inos = Inr (map up inos)" and new: "e_xet_hash e \<noteq> Some (fst (up (r_ino info)))"
    and hub: "\<And>ops. en_hub en ops = None"
    and during: "en_during_upload en t = t'" "en_during_commit en = id"
  shows "\<exists>r ops e'. flush_batch en pending t errs dir = Some r \<and> fr_ops r = Some ops \<and>
    AddFile (e_full_path e) (fst (up (r_ino info))) (en_mtime_ms en) None \<in> set ops \<and>
    (\<forall>hash mtime x. AddFile (r_new_full_path info) hash mtime x \<notin> set ops) \<and>
    t_inodes (fr_table r) (r_ino info) = Some e' \<and> e_full_path e' = r_new_full_path info \<and>
    e_full_path e' \<noteq> e_full_path e \<and> \<not> is_dirty e' \<and> e_pending_deletes e' = []"
proof -
  let ?i = "r_ino info"
  define due where "due = due_inos (en_staged en) t pending"
  have id: "?i \<in> set due" using i by (simp add: due_def due_inos_def)
  then have iN: "?i \<in> set (news_inos up t due)" using i(2) new by (simp add: news_inos_def)
  have ne: "news_inos up t (due_inos (en_staged en) t pending) \<noteq> []" using iN by (auto simp: due_def)
  obtain e1 where e1: "t_inodes t' ?i = Some e1" "e_dirty_generation e1 = e_dirty_generation e"
    "e_full_path e1 = r_new_full_path info" and np: "t_paths t (r_new_full_path info) = None"
    by (rule rename_keeps_generation [OF wf v q m free i(2) ren])
  obtain r where r: "flush_batch en pending t errs dir = Some r"
    and ops: "fr_ops r = Some (map (\<lambda>i. AddFile (e_full_path (the (t_inodes t i))) (fst (up i)) (en_mtime_ms en) None) (news_inos up t due) @
      map DeleteFile (concat (map (\<lambda>i. e_pending_deletes (the (t_inodes t i))) (news_inos up t due))))"
    and tab: "fr_table r = commit_items (en_now en) (\<lambda>r. \<not> item_unchanged r) (map (\<lambda>i. (the (flushable (en_staged en) t i), up i)) due)
      (commit_items (en_now en) item_unchanged (map (\<lambda>i. (the (flushable (en_staged en) t i), up i)) due) t')"
    using flush_batch_commits [where en = en and up = up and t = t and pending = pending and errs = errs and dir = dir, OF up hub ne]
    unfolding due_def during id_apply by blast
  have "t_inodes (fr_table r) ?i = Some (committed_entry (up ?i) (en_now en) e1)"
    unfolding tab due_def by (rule settle_due [OF id [unfolded due_def] i(2) e1(1,2)])
  moreover have path: "t_paths t (e_full_path (the (t_inodes t j))) = Some j" if j: "j \<in> set due" for j
  proof -
    obtain f where f: "t_inodes t j = Some f" "0 < e_nlink f" using j by (auto simp: due_def due_inos_def)
    then show ?thesis using we_path [OF wf_tableE [OF wf f(1)]] we_inode [OF wf_tableE [OF wf f(1)]] by (simp add: linked_def)
  qed
  have "AddFile (r_new_full_path info) hash mtime x \<notin> set (the (fr_ops r))" for hash mtime x
    using path np by (force simp: ops news_inos_def)
  moreover have "e_full_path e1 \<noteq> e_full_path e" using path [OF id] np i(2) e1(3) by auto
  moreover have "AddFile (e_full_path e) (fst (up ?i)) (en_mtime_ms en) None \<in> set (the (fr_ops r))"
    using imageI [OF iN, of "\<lambda>i. AddFile (e_full_path (the (t_inodes t i))) (fst (up i)) (en_mtime_ms en) None"] i(2) by (simp add: ops)
  ultimately show ?thesis
    using r ops e1(3) by (intro exI [of _ r] exI [of _ "the (fr_ops r)"] exI [of _ "committed_entry (up ?i) (en_now en) e1"])
      (simp add: committed_entry_def is_dirty_def)
qed

definition rename_ab :: "inode_table \<Rightarrow> inode_table" where
  "rename_ab t =
    (case rename_validate 1 ''a'' 1 ''b'' False t of
      Some (Inr info) \<Rightarrow>
        (case rename_locked info 1 ''a'' 1 ''b'' False 8 t of Some (_, t') \<Rightarrow> t' | None \<Rightarrow> t)
    | _ \<Rightarrow> t)"

theorem flush_loses_dirty_rename_witness:
  "\<exists>r ops e'. flush_batch (quiet_env\<lparr>en_during_upload := rename_ab\<rparr>) [2] dirty_table Map.empty None = Some r \<and>
    fr_ops r = Some ops \<and> AddFile ''a'' ''h1'' 1000 None \<in> set ops \<and>
    t_inodes (fr_table r) 2 = Some e' \<and> e_full_path e' = ''b'' \<and> \<not> is_dirty e' \<and> e_pending_deletes e' = []"
proof -
  let ?en = "quiet_env\<lparr>en_during_upload := rename_ab\<rparr>"
  let ?info = "\<lparr>r_ino = 2, r_old_path = ''a'', r_kind = File, r_xet_hash = Some ''h'', r_is_dirty = True,
     r_new_full_path = ''b'', r_descendant_files = []\<rparr>"
  obtain e where e: "t_inodes dirty_table 2 = Some e" "is_dirty e" "e_full_path e = ''a''" "e_nlink e = 1" "e_xet_hash e = Some ''h''"
    using dirty_table_entry by blast
  have wf: "wf_table dirty_table" unfolding dirty_table_def by (rule wf_upd_same_shape [OF wf_one_file]) (rule same_shape_set_dirty)
  have v: "rename_validate 1 ''a'' 1 ''b'' False dirty_table = Some (Inr ?info)"
    by (simp add: rename_validate_def lookup_child_def dirty_table_def one_file_def sample_defs set_dirty_def u64_max_def is_dirty_def)
  obtain qe where q: "t_inodes dirty_table 1 = Some qe" "e_kind qe = Directory"
    by (simp add: dirty_table_def one_file_def sample_defs)
  have m: "name_ok ''b''" by (simp add: name_ok_def)
  have free: "lookup_child dirty_table 1 ''b'' = None"
    by (simp add: lookup_child_def dirty_table_def one_file_def sample_defs)
  obtain staged t' where t': "rename_locked ?info 1 ''a'' 1 ''b'' False 8 dirty_table = Some (Inr staged, t')"
    using rename_locked_effect [OF wf v q m, of 8] free by auto
  have up: "en_upload ?en inos = Inr (map (\<lambda>_. (''h1'', 7)) inos)" and hub: "en_hub ?en ops = None" for inos ops
    by (simp_all add: quiet_env_def)
  have d: "en_during_upload ?en dirty_table = t'" "en_during_commit ?en = id" "en_mtime_ms ?en = 1000" "en_staged ?en 2"
    by (simp_all add: rename_ab_def v t' quiet_env_def del: One_nat_def)
  show ?thesis
    using flush_loses_dirty_rename [OF wf v q m free t', of "[2]" e ?en "\<lambda>_. (''h1'', 7)" Map.empty None] e up hub d
    by simp blast
qed

end
