(* ===== verification/Hub_Url.thy ===== *)
theory Hub_Url
  imports Prelude
begin

text \<open>
  \<open>src/src/encryption/url.rs\<close>, \<open>src/src/error.rs\<close> and the free functions of
  \<open>src/src/hub_api.rs\<close>: percent-encoding of stored paths, the error type with its errno, the
  parsing of repository identifiers, path prefixes and response headers, and the retry schedule.
  Durations are in milliseconds.
\<close>

unbundle bit_operations_syntax

section \<open>Percent-encoding\<close>

definition HEX :: string where "HEX = ''0123456789ABCDEF''"

definition unreserved :: "char \<Rightarrow> bool" where
  "unreserved c \<longleftrightarrow>
    c \<in> set ''ABCDEFGHIJKLMNOPQRSTUVWXYZabcdefghijklmnopqrstuvwxyz0123456789'' \<or> c \<in> set ''-._~''"

definition escape_byte :: "char \<Rightarrow> string" where
  "escape_byte c =
    (if unreserved c then [c]
     else [CHR ''%'', HEX ! unat (drop_bit 4 (u8_of_char c)), HEX ! unat (u8_of_char c AND 0x0f)])"

definition encode_segment :: "string \<Rightarrow> string" where
  "encode_segment s = concat (map escape_byte s)"

definition encode_path_segments :: "string \<Rightarrow> string" where
  "encode_path_segments path = join_with (CHR ''/'') (map encode_segment (split_on (CHR ''/'') path))"

text \<open>What a server does with a percent-encoded path: every \<open>%XY\<close> is a byte.\<close>

definition hex_val :: "char \<Rightarrow> nat option" where
  "hex_val c = find_char c HEX"

fun percent_decode :: "string \<Rightarrow> string option" where
  "percent_decode [] = Some []"
| "percent_decode (c # cs) =
    (if c = CHR ''%''
     then (case cs of
        a # b # rest \<Rightarrow>
          (case (hex_val a, hex_val b) of
            (Some x, Some y) \<Rightarrow> map_option ((#) (char_of (16 * x + y))) (percent_decode rest)
          | _ \<Rightarrow> None)
      | _ \<Rightarrow> None)
     else map_option ((#) c) (percent_decode cs))"

lemma find_char_nth:
  "distinct xs \<Longrightarrow> i < length xs \<Longrightarrow> find_char (xs ! i) xs = Some i"
proof (induction xs arbitrary: i)
  case (Cons x xs)
  then show ?case by (cases i) auto
qed simp

lemma hex_val_HEX: "i < 16 \<Longrightarrow> hex_val (HEX ! i) = Some i"
  unfolding hex_val_def by (rule find_char_nth) (simp_all add: HEX_def)

lemma low_nibble_eq: "unat ((b :: u8) AND 0x0f) = unat b mod 16"
proof -
  have "(0x0f :: u8) = mask 4" by (simp add: mask_eq_exp_minus_1)
  then have "b AND 0x0f = take_bit 4 b" by (simp add: take_bit_eq_mask)
  then show ?thesis by (simp only: unsigned_take_bit_eq) (simp add: take_bit_eq_mod)
qed

lemma high_nibble_eq: "unat (drop_bit 4 (b :: u8)) = unat b div 16"
  by (simp only: unat_drop_bit_eq) (simp add: drop_bit_eq_div)

lemma percent_decode_escape: "percent_decode (escape_byte c @ s) = map_option ((#) c) (percent_decode s)"
proof (cases "unreserved c")
  case True
  then have "c \<noteq> CHR ''%''" by (auto simp: unreserved_def)
  with True show ?thesis by (simp add: escape_byte_def)
next
  case False
  let ?n = "of_char c :: nat"
  have n: "?n < 256" by simp
  then have "?n div 16 < 16" "?n mod 16 < 16" by (simp_all add: less_mult_imp_div_less)
  moreover have "16 * (?n div 16) + ?n mod 16 = ?n" by simp
  ultimately show ?thesis
    using False by (simp add: escape_byte_def high_nibble_eq low_nibble_eq hex_val_HEX)
qed

lemma percent_decode_segment: "percent_decode (encode_segment s @ t) = map_option ((@) s) (percent_decode t)"
proof (induction s)
  case (Cons c s)
  then have "percent_decode (encode_segment (c # s) @ t) = map_option ((#) c) (map_option ((@) s) (percent_decode t))"
    by (simp add: encode_segment_def percent_decode_escape)
  then show ?case by (simp add: option.map_comp comp_def)
qed (simp add: encode_segment_def option.map_id0 [unfolded id_def] option.map_ident)

lemma percent_decode_join:
  "percent_decode (join_with (CHR ''/'') (map encode_segment ss)) = Some (join_with (CHR ''/'') ss)"
proof (induction "CHR ''/''" ss rule: join_with.induct)
  case (2 s)
  then show ?case using percent_decode_segment [of s "[]"] by simp
next
  case (3 s t ss)
  then show ?case by (simp add: percent_decode_segment)
qed simp

lemma escape_byte_chars: "set (escape_byte c) \<subseteq> {x. unreserved x} \<union> {CHR ''%''}"
proof -
  have hex: "unreserved (HEX ! i)" if "i < 16" for i
  proof -
    have "HEX ! i \<in> set HEX" using that by (intro nth_mem) (simp add: HEX_def)
    then show ?thesis by (auto simp: HEX_def unreserved_def)
  qed
  have "(of_char c :: nat) < 256" by simp
  then have "(of_char c :: nat) div 16 < 16" by (simp add: less_mult_imp_div_less)
  then show ?thesis using hex by (auto simp: escape_byte_def high_nibble_eq low_nibble_eq)
qed

lemma join_with_set: "set (join_with c ss) \<subseteq> insert c (\<Union> (set ` set ss))"
  by (induction c ss rule: join_with.induct) auto

lemma slash_reserved: "\<not> unreserved (CHR ''/'')"
  by (simp add: unreserved_def)

text \<open>
  Percent-encoding a path loses nothing and is safe to put in a URL: decoding gives the path back,
  the encoding has only unreserved characters, escapes and the separators, and it keeps the segments
  (so a \<open>?\<close>, \<open>#\<close> or \<open>%\<close> of a stored name never ends or splits the path).
\<close>

theorem url_path_roundtrip:
  "percent_decode (encode_path_segments path) = Some path \<and>
   set (encode_path_segments path) \<subseteq> {c. unreserved c} \<union> {CHR ''%'', CHR ''/''} \<and>
   map percent_decode (split_on (CHR ''/'') (encode_path_segments path)) = map Some (split_on (CHR ''/'') path)"
proof (intro conjI)
  let ?segs = "split_on (CHR ''/'') path"
  have seg: "set (encode_segment s) \<subseteq> {c. unreserved c} \<union> {CHR ''%''}" for s
    using escape_byte_chars by (auto simp: encode_segment_def)
  show "percent_decode (encode_path_segments path) = Some path"
    by (simp add: encode_path_segments_def percent_decode_join)
  show "set (encode_path_segments path) \<subseteq> {c. unreserved c} \<union> {CHR ''%'', CHR ''/''}"
    using join_with_set [of "CHR ''/''" "map encode_segment ?segs"] seg
    by (fastforce simp: encode_path_segments_def)
  have "split_on (CHR ''/'') (encode_path_segments path) = map encode_segment ?segs"
    unfolding encode_path_segments_def using seg slash_reserved by (intro split_join) auto
  moreover have "percent_decode (encode_segment s) = Some s" for s
    using percent_decode_segment [of s "[]"] by simp
  ultimately show "map percent_decode (split_on (CHR ''/'') (encode_path_segments path)) = map Some ?segs"
    by simp
qed

end
