(* ===== verification/Hub_Api.thy ===== *)
theory Hub_Api
  imports Path_Cipher Hub_Url Flush
begin

text \<open>
  \<open>src/src/error.rs\<close> and \<open>src/src/hub_api.rs\<close>: the error type with its errno, the client of the
  Hub: identifiers, request paths, retries, paginated listings, batches and downloads.

  A server is a function of its own state \<open>'s\<close> and the request, so it may answer the same request
  differently every time.  The decoding of response bodies and the encoding of batch lines
  (\<open>serde_json\<close>), the escaping of plaintext paths (\<open>percent_encoding\<close>) and HCTR2 are parameters.
  Durations are in milliseconds.  An operation that panics or never returns has the value \<open>None\<close>.
\<close>

section \<open>Errors\<close>

datatype hub_error =
    Hub (err_message: string) (err_status: "nat option") (err_retry_after: "nat option")
  | Xet string
  | Io string
  | Json string
  | Http (http_display: string) (is_timeout: bool) (is_connect: bool)

definition hub :: "string \<Rightarrow> hub_error" where
  "hub msg = Hub msg None None"

definition hub_status :: "nat \<Rightarrow> string \<Rightarrow> hub_error" where
  "hub_status st msg = Hub msg (Some st) None"

definition error_retry_after :: "hub_error \<Rightarrow> nat option" where
  "error_retry_after e = (case e of Hub _ _ r \<Rightarrow> r | _ \<Rightarrow> None)"

definition error_status :: "hub_error \<Rightarrow> nat option" where
  "error_status e = (case e of Hub _ st _ \<Rightarrow> st | _ \<Rightarrow> None)"

definition is_retryable_status :: "nat \<Rightarrow> bool" where
  "is_retryable_status st \<longleftrightarrow> st \<in> set [408, 429, 500, 502, 503, 504]"

definition is_transient_http :: "bool \<Rightarrow> bool \<Rightarrow> bool" where
  "is_transient_http timeout connect \<longleftrightarrow> timeout \<or> connect"

definition is_transient :: "hub_error \<Rightarrow> bool" where
  "is_transient e =
    (case e of
      Http _ timeout connect \<Rightarrow> is_transient_http timeout connect
    | _ \<Rightarrow> (case error_status e of None \<Rightarrow> False | Some st \<Rightarrow> is_retryable_status st))"

definition to_errno :: "hub_error \<Rightarrow> int" where
  "to_errno e =
    (if error_status e = Some 413 \<or> error_status e = Some 507 then ENOSPC
     else if error_status e = Some 403 then EACCES
     else if is_transient e then EAGAIN
     else EIO)"

definition error_display :: "hub_error \<Rightarrow> string" where
  "error_display e =
    (case e of
      Hub msg (Some st) _ \<Rightarrow> ''Hub API error ('' @ show_nat st @ ''): '' @ msg
    | Hub msg None _ \<Rightarrow> ''Hub API error: '' @ msg
    | Xet msg \<Rightarrow> ''Xet error: '' @ msg
    | Io msg \<Rightarrow> ''IO error: '' @ msg
    | Json msg \<Rightarrow> ''JSON error: '' @ msg
    | Http msg _ _ \<Rightarrow> ''HTTP error: '' @ msg)"

section \<open>Identifiers and headers\<close>

definition strict_descendant_rel :: "string \<Rightarrow> string \<Rightarrow> string option" where
  "strict_descendant_rel path pre =
    (case strip_prefix path pre of
      None \<Rightarrow> None
    | Some rest \<Rightarrow>
        (case strip_prefix rest ''/'' of
          None \<Rightarrow> None
        | Some rel \<Rightarrow> if rel \<noteq> [] then Some rel else None))"

datatype repo_type = Model | Dataset | Space

definition api_prefix :: "repo_type \<Rightarrow> string" where
  "api_prefix r = (case r of Model \<Rightarrow> ''models'' | Dataset \<Rightarrow> ''datasets'' | Space \<Rightarrow> ''spaces'')"

definition resolve_prefix :: "repo_type \<Rightarrow> string" where
  "resolve_prefix r = (case r of Model \<Rightarrow> '''' | Dataset \<Rightarrow> ''datasets/'' | Space \<Rightarrow> ''spaces/'')"

definition repo_type_from_str :: "string \<Rightarrow> string + repo_type" where
  "repo_type_from_str s =
    (if s = ''model'' then Inr Model
     else if s = ''dataset'' then Inr Dataset
     else if s = ''space'' then Inr Space
     else Inl (''unknown repo type: '' @ s @ '' (expected model, dataset, or space)''))"

definition repo_type_display :: "repo_type \<Rightarrow> string" where
  "repo_type_display r = (case r of Model \<Rightarrow> ''model'' | Dataset \<Rightarrow> ''dataset'' | Space \<Rightarrow> ''space'')"

datatype source_kind =
    is_Bucket: Bucket (bucket_id: string)
  | is_Repo: Repo (repo_id: string) (repo_type: repo_type) (revision: string)

definition source_display :: "source_kind \<Rightarrow> string" where
  "source_display src =
    (case src of
      Bucket b \<Rightarrow> ''bucket/'' @ b
    | Repo rid ty rv \<Rightarrow> repo_type_display ty @ ''/'' @ rid @ ''/'' @ rv)"

definition parse_repo_id :: "string \<Rightarrow> repo_type \<times> string" where
  "parse_repo_id rid =
    (case strip_prefix rid ''datasets/'' of
      Some rest \<Rightarrow> (Dataset, rest)
    | None \<Rightarrow>
        (case strip_prefix rid ''spaces/'' of
          Some rest \<Rightarrow> (Space, rest)
        | None \<Rightarrow> (Model, rid)))"

text \<open>The scan for the second \<open>/\<close>: how many were seen, and where the second is.\<close>

fun second_slash :: "nat \<Rightarrow> nat \<Rightarrow> string \<Rightarrow> nat \<times> nat" where
  "second_slash seen i [] = (seen, 0)"
| "second_slash seen i (c # cs) =
    (if c = CHR ''/''
     then (if seen + 1 = 2 then (2, i) else second_slash (seen + 1) (i + 1) cs)
     else second_slash seen (i + 1) cs)"

definition quoted :: "string \<Rightarrow> string" where
  "quoted s = [CHR 0x27] @ s @ [CHR 0x27]"

definition split_path_prefix :: "string \<Rightarrow> string + string \<times> string" where
  "split_path_prefix raw0 =
    (let raw = trim_end ((=) (CHR ''/'')) raw0;
         (seen, end) = second_slash 0 0 raw
     in if seen < 2 then Inr (raw, [])
        else (let pre = drop (end + 1) raw
              in if list_ex (\<lambda>s. s = ''.'' \<or> s = ''..'') (split_on (CHR ''/'') pre)
                 then Inl (''path prefix must not contain '' @ quoted ''.'' @ '' or '' @ quoted ''..'' @ '' components'')
                 else Inr (take end raw, pre)))"

definition retry_delay :: "nat \<Rightarrow> nat" where
  "retry_delay attempt = min (500 * min (2 ^ (attempt - 1)) u64_max) u64_max"

definition MAX_RETRY_DELAY :: nat where "MAX_RETRY_DELAY = 30000"

type_synonym headers = "string \<rightharpoonup> string"

fun find_map :: "('a \<Rightarrow> 'b option) \<Rightarrow> 'a list \<Rightarrow> 'b option" where
  "find_map f [] = None"
| "find_map f (x # xs) = (case f x of None \<Rightarrow> find_map f xs | Some y \<Rightarrow> Some y)"

definition parse_retry_delay :: "headers \<Rightarrow> nat option" where
  "parse_retry_delay hs =
    (let ratelimit_secs = Option.bind (hs ''ratelimit'') (\<lambda>value.
           find_map (\<lambda>part. Option.bind (strip_prefix (trim part) ''t='') parse_u64) (split_on (CHR '';'') value));
         secs = (case ratelimit_secs of
             Some n \<Rightarrow> Some n
           | None \<Rightarrow> Option.bind (hs ''retry-after'') (\<lambda>v. parse_u64 (trim v)))
     in case secs of None \<Rightarrow> None | Some n \<Rightarrow> if n > 0 then Some (n * 1000) else None)"

text \<open>\<open>None\<close> is the panic of the slice \<open>part[start + 1..end]\<close> when the \<open>>\<close> comes first.\<close>

fun link_next_parts :: "string list \<Rightarrow> string option option" where
  "link_next_parts [] = Some None"
| "link_next_parts (p # ps) =
    (let part = trim p
     in if contains part ''rel=\"next\"''
        then (case (find_char (CHR ''<'') part, find_char (CHR ''>'') part) of
            (Some start, Some end) \<Rightarrow>
              if start + 1 \<le> end then Some (Some (drop (start + 1) (take end part))) else None
          | _ \<Rightarrow> link_next_parts ps)
        else link_next_parts ps)"

definition parse_link_next :: "string \<Rightarrow> string option option" where
  "parse_link_next header = link_next_parts (split_on (CHR '','') header)"

section \<open>Requests with retries\<close>

record response =
  rs_status :: nat
  rs_headers :: headers
  rs_body :: string

datatype http_reply = is_Response: Response response | is_Transport: Transport string bool bool

definition is_success :: "nat \<Rightarrow> bool" where "is_success st \<longleftrightarrow> 200 \<le> st \<and> st < 300"
definition is_redirection :: "nat \<Rightarrow> bool" where "is_redirection st \<longleftrightarrow> 300 \<le> st \<and> st < 400"

definition MAX_RETRIES :: nat where "MAX_RETRIES = 2"

text \<open>The result, the sleeps it took and the server afterwards; \<open>attempt\<close> requests were sent before.\<close>

function send_loop ::
  "('s \<Rightarrow> http_reply \<times> 's) \<Rightarrow> string \<Rightarrow> bool \<Rightarrow> nat \<Rightarrow> 's \<Rightarrow> (hub_error + response) \<times> nat list \<times> 's" where
  "send_loop send ctx accept_redirects attempt0 s =
    (let attempt = attempt0 + 1; (reply, s1) = send s
     in case reply of
          Response r \<Rightarrow>
            if is_success (rs_status r) \<or> (accept_redirects \<and> is_redirection (rs_status r)) then (Inr r, [], s1)
            else (let hinted_delay = parse_retry_delay (rs_headers r)
                  in if is_retryable_status (rs_status r) \<and> attempt \<le> MAX_RETRIES
                     then (let delay = min (case hinted_delay of Some d \<Rightarrow> d | None \<Rightarrow> retry_delay attempt) MAX_RETRY_DELAY;
                               (res, sleeps, s2) = send_loop send ctx accept_redirects attempt s1
                           in (res, delay # sleeps, s2))
                     else (Inl (Hub (ctx @ '': '' @ show_nat (rs_status r) @ '' '' @ rs_body r) (Some (rs_status r)) hinted_delay),
                           [], s1))
        | Transport d timeout connect \<Rightarrow>
            if is_transient_http timeout connect \<and> attempt \<le> MAX_RETRIES
            then (let (res, sleeps, s2) = send_loop send ctx accept_redirects attempt s1
                  in (res, retry_delay attempt # sleeps, s2))
            else (Inl (Http d timeout connect), [], s1))"
  by pat_completeness auto
termination
  by (relation "measure (\<lambda>(_, _, _, attempt, _). MAX_RETRIES + 1 - attempt)") auto

declare send_loop.simps [simp del]

definition send_with_retry ::
  "('s \<Rightarrow> http_reply \<times> 's) \<Rightarrow> string \<Rightarrow> bool \<Rightarrow> 's \<Rightarrow> (hub_error + response) \<times> nat list \<times> 's" where
  "send_with_retry send ctx accept_redirects = send_loop send ctx accept_redirects 0"

section \<open>The client\<close>

definition TOKEN_FILE_REFRESH :: nat where "TOKEN_FILE_REFRESH = 30000"

record hub_client =
  hc_endpoint :: string
  hc_token :: "string option"
  hc_token_file :: bool
  hc_token_cache :: "(nat \<times> string) option"
  hc_source :: source_kind
  hc_last_modified :: nat
  hc_path_prefix :: string
  hc_path_cipher :: "path_cipher option"

text \<open>
  The token a request carries, and the refreshed cache: \<open>contents\<close> is what reading the token file
  gives, when it can be read.
\<close>

definition auth :: "nat \<Rightarrow> string option \<Rightarrow> hub_client \<Rightarrow> string option \<times> hub_client" where
  "auth now contents hc =
    (if hc_token_file hc
     then (let need_refresh = (case hc_token_cache hc of Some (at, _) \<Rightarrow> now - at \<ge> TOKEN_FILE_REFRESH | None \<Rightarrow> True);
               hc1 = (case contents of
                   Some c \<Rightarrow> if need_refresh \<and> trim c \<noteq> [] then hc\<lparr>hc_token_cache := Some (now, trim c)\<rparr> else hc
                 | None \<Rightarrow> hc)
           in case hc_token_cache hc1 of
                Some (_, token) \<Rightarrow> (Some token, hc1)
              | None \<Rightarrow> (hc_token hc1, hc1))
     else (hc_token hc, hc))"

definition is_repo :: "hub_client \<Rightarrow> bool" where
  "is_repo hc = is_Repo (hc_source hc)"

definition ENC_ROOT :: string where "ENC_ROOT = ''.enc''"

record remote_path =
  rp_path :: string
  rp_encrypted :: bool

definition url_path_escape :: "char \<Rightarrow> bool" where
  "url_path_escape c \<longleftrightarrow>
    (of_char c :: nat) < 32 \<or> (of_char c :: nat) = 127 \<or>
    c \<in> set [CHR '' '', CHR 0x22, CHR ''#'', CHR ''%'', CHR ''?'', CHR ''<'', CHR ''>'', CHR 0x60,
             CHR ''{'', CHR ''}'', CHR ''|'', CHR 0x5C, CHR ''^'']"

definition url_revision_escape :: "char \<Rightarrow> bool" where
  "url_revision_escape c \<longleftrightarrow> url_path_escape c \<or> c = CHR ''/''"

text \<open>\<open>ue escape\<close> is \<open>utf8_percent_encode\<close> for a set of characters.\<close>

definition encode_url_path :: "((char \<Rightarrow> bool) \<Rightarrow> string \<Rightarrow> string) \<Rightarrow> string \<Rightarrow> string" where
  "encode_url_path ue path = ue url_path_escape path"

definition encode_url_revision :: "((char \<Rightarrow> bool) \<Rightarrow> string \<Rightarrow> string) \<Rightarrow> string \<Rightarrow> string" where
  "encode_url_revision ue rv = ue url_revision_escape rv"

definition as_url :: "((char \<Rightarrow> bool) \<Rightarrow> string \<Rightarrow> string) \<Rightarrow> remote_path \<Rightarrow> string" where
  "as_url ue rp = (if rp_encrypted rp then encode_path_segments (rp_path rp) else encode_url_path ue (rp_path rp))"

definition path_failure_display :: "path_failure \<Rightarrow> string" where
  "path_failure_display e =
    (case e of
      PathErr InvalidName \<Rightarrow> ''invalid file name''
    | PathErr NameTooLong \<Rightarrow> ''file name too long once encrypted''
    | Panicked \<Rightarrow> [])"

definition join_prefix :: "string \<Rightarrow> string \<Rightarrow> string" where
  "join_prefix pre path = (if pre = [] then path else if path = [] then pre else pre @ ''/'' @ path)"

definition prefixed_path :: "hctr2 \<Rightarrow> hub_client \<Rightarrow> string \<Rightarrow> hub_error + remote_path" where
  "prefixed_path h hc path =
    (let joined = join_prefix (hc_path_prefix hc) path
     in case hc_path_cipher hc of
          Some pc \<Rightarrow>
            (case encrypt_path h pc joined of
              Inl e \<Rightarrow> Inl (hub (''encrypt path: '' @ path_failure_display e))
            | Inr encrypted \<Rightarrow>
                Inr \<lparr>rp_path = (if encrypted = [] then ENC_ROOT else ENC_ROOT @ ''/'' @ encrypted), rp_encrypted = True\<rparr>)
        | None \<Rightarrow> Inr \<lparr>rp_path = joined, rp_encrypted = False\<rparr>)"

section \<open>Listings\<close>

record tree_entry =
  te_path :: string
  te_type :: string
  te_size :: "nat option"
  te_xet_hash :: "string option"
  te_oid :: "string option"
  te_mtime :: "string option"

record repo_tree_entry =
  rt_path :: string
  rt_type :: string
  rt_size :: "nat option"
  rt_oid :: "string option"
  rt_xet_hash :: "string option"
  rt_lfs_size :: "nat option"
  rt_commit_date :: "string option"

definition decrypt_listing :: "hctr2 \<Rightarrow> hub_client \<Rightarrow> tree_entry list \<Rightarrow> tree_entry list" where
  "decrypt_listing h hc es =
    (case hc_path_cipher hc of
      None \<Rightarrow> es
    | Some pc \<Rightarrow>
        List.map_filter (\<lambda>e.
          case Option.bind (strip_prefix (te_path e) ENC_ROOT) (\<lambda>p. strip_prefix p ''/'') of
            None \<Rightarrow> None
          | Some stored \<Rightarrow> map_option (\<lambda>plain. e\<lparr>te_path := plain\<rparr>) (decrypt_path h pc stored)) es)"

definition strip_path_prefix :: "hub_client \<Rightarrow> string \<Rightarrow> string option" where
  "strip_path_prefix hc full =
    (if hc_path_prefix hc = [] then Some full
     else if full = hc_path_prefix hc then Some []
     else strict_descendant_rel full (hc_path_prefix hc))"

text \<open>The loop over the pages of a listing.\<close>

partial_function (option) list_pages ::
  "('s \<Rightarrow> string \<Rightarrow> http_reply \<times> 's) \<Rightarrow> (string \<Rightarrow> hub_error + 'e list) \<Rightarrow> string \<Rightarrow> string \<Rightarrow> 'e list \<Rightarrow> 's \<Rightarrow>
   ((hub_error + 'e list) \<times> 's) option" where
  "list_pages get parse ctx url all_entries s =
    (case send_with_retry (\<lambda>s. get s url) ctx False s of
      (Inl e, _, s1) \<Rightarrow> Some (Inl e, s1)
    | (Inr resp, _, s1) \<Rightarrow>
        (case (case rs_headers resp ''link'' of None \<Rightarrow> Some None | Some v \<Rightarrow> parse_link_next v) of
          None \<Rightarrow> None
        | Some next_url \<Rightarrow>
            (case parse (rs_body resp) of
              Inl e \<Rightarrow> Some (Inl e, s1)
            | Inr entries \<Rightarrow>
                (case next_url of
                  Some next \<Rightarrow> list_pages get parse ctx next (all_entries @ entries) s1
                | None \<Rightarrow> Some (Inr (all_entries @ entries), s1)))))"

text \<open>How the client talks to the outside: the server, the decoders and the escaping.\<close>

record 's hub_env =
  h_get :: "'s \<Rightarrow> string \<Rightarrow> http_reply \<times> 's"
  h_tree :: "string \<Rightarrow> hub_error + tree_entry list"
  h_repo_tree :: "string \<Rightarrow> hub_error + repo_tree_entry list"
  h_escape :: "(char \<Rightarrow> bool) \<Rightarrow> string \<Rightarrow> string"

definition list_tree_bucket ::
  "'s hub_env \<Rightarrow> hub_client \<Rightarrow> string \<Rightarrow> remote_path \<Rightarrow> 's \<Rightarrow> ((hub_error + tree_entry list) \<times> 's) option" where
  "list_tree_bucket en hc bid pre =
    (let recursive_param = ''?recursive=false&limit=5000'';
         url = (if rp_path pre = []
           then hc_endpoint hc @ ''/api/buckets/'' @ bid @ ''/tree'' @ recursive_param
           else hc_endpoint hc @ ''/api/buckets/'' @ bid @ ''/tree/'' @ as_url (h_escape en) pre @ recursive_param)
     in list_pages (h_get en) (h_tree en) ''tree listing'' url [])"

definition tree_entry_of_repo :: "repo_tree_entry \<Rightarrow> tree_entry" where
  "tree_entry_of_repo raw =
    \<lparr>te_path = rt_path raw, te_type = rt_type raw,
     te_size = (case rt_lfs_size raw of Some sz \<Rightarrow> Some sz | None \<Rightarrow> rt_size raw),
     te_xet_hash = rt_xet_hash raw, te_oid = rt_oid raw, te_mtime = rt_commit_date raw\<rparr>"

definition list_tree_repo ::
  "'s hub_env \<Rightarrow> hub_client \<Rightarrow> string \<Rightarrow> repo_type \<Rightarrow> string \<Rightarrow> remote_path \<Rightarrow> 's \<Rightarrow>
   ((hub_error + tree_entry list) \<times> 's) option" where
  "list_tree_repo en hc rid ty rv pre =
    (let params = ''?limit=1000'';
         base = hc_endpoint hc @ ''/api/'' @ api_prefix ty @ ''/'' @ rid @ ''/tree/'' @ encode_url_revision (h_escape en) rv;
         url = (if rp_path pre = [] then base @ params else base @ ''/'' @ as_url (h_escape en) pre @ params)
     in list_pages (h_get en) (\<lambda>b. map_sum id (map tree_entry_of_repo) (h_repo_tree en b)) ''repo tree listing'' url [])"

definition strip_entries :: "hub_client \<Rightarrow> tree_entry list \<Rightarrow> tree_entry list" where
  "strip_entries hc es =
    (if hc_path_prefix hc = [] then es
     else List.map_filter (\<lambda>e. case strip_path_prefix hc (te_path e) of
         Some stripped \<Rightarrow> if stripped \<noteq> [] then Some (e\<lparr>te_path := stripped\<rparr>) else None
       | None \<Rightarrow> None) es)"

text \<open>What is kept of a listing, and under which names.\<close>

definition scope_listing :: "hctr2 \<Rightarrow> hub_client \<Rightarrow> remote_path \<Rightarrow> tree_entry list \<Rightarrow> tree_entry list" where
  "scope_listing h hc rp es =
    strip_entries hc (decrypt_listing h hc
      (if rp_path rp \<noteq> [] then filter (\<lambda>e. strict_descendant_rel (te_path e) (rp_path rp) \<noteq> None) es else es))"

definition list_tree ::
  "hctr2 \<Rightarrow> 's hub_env \<Rightarrow> hub_client \<Rightarrow> string \<Rightarrow> 's \<Rightarrow> ((hub_error + tree_entry list) \<times> 's) option" where
  "list_tree h en hc pre s =
    (case prefixed_path h hc pre of
      Inl e \<Rightarrow> Some (Inl e, s)
    | Inr rp \<Rightarrow>
        map_option (\<lambda>(res, s1).
          let res1 = (case res of
                Inl e \<Rightarrow> if error_status e = Some 404 \<and> hc_path_cipher hc \<noteq> None \<and> pre = [] \<and> hc_path_prefix hc = []
                  then Inr [] else Inl e
              | Inr es \<Rightarrow> Inr es)
          in (map_sum id (scope_listing h hc rp) res1, s1))
          (case hc_source hc of
            Bucket bid \<Rightarrow> list_tree_bucket en hc bid rp s
          | Repo rid ty rv \<Rightarrow> list_tree_repo en hc rid ty rv rp s))"

definition validate_path_prefix ::
  "hctr2 \<Rightarrow> 's hub_env \<Rightarrow> hub_client \<Rightarrow> 's \<Rightarrow> ((hub_error + unit) \<times> 's) option" where
  "validate_path_prefix h en hc s =
    (if hc_path_prefix hc = [] then Some (Inr (), s)
     else map_option (\<lambda>(res, s1).
       (case res of
         Inl e \<Rightarrow> Inl (hub (''subfolder '' @ quoted (hc_path_prefix hc) @ '' not found in '' @
           source_display (hc_source hc) @ '': '' @ error_display e))
       | Inr es \<Rightarrow> if es = []
           then Inl (hub (''subfolder '' @ quoted (hc_path_prefix hc) @ '' is empty or does not exist in '' @
             source_display (hc_source hc)))
           else Inr (), s1))
       (list_tree h en hc [] s))"

section \<open>Files\<close>

definition resolve_url ::
  "hctr2 \<Rightarrow> ((char \<Rightarrow> bool) \<Rightarrow> string \<Rightarrow> string) \<Rightarrow> hub_client \<Rightarrow> string \<Rightarrow> hub_error + string" where
  "resolve_url h ue hc path =
    map_sum id (\<lambda>rp.
      (case hc_source hc of
        Bucket bid \<Rightarrow> hc_endpoint hc @ ''/buckets/'' @ bid @ ''/resolve/'' @ as_url ue rp
      | Repo rid ty rv \<Rightarrow>
          hc_endpoint hc @ ''/'' @ resolve_prefix ty @ rid @ ''/resolve/'' @ encode_url_revision ue rv @ ''/'' @ as_url ue rp))
      (prefixed_path h hc path)"

record head_file_info =
  hf_xet_hash :: "string option"
  hf_etag :: "string option"
  hf_size :: "nat option"
  hf_last_modified :: "string option"

definition trim_quotes :: "string \<Rightarrow> string" where
  "trim_quotes s = trim_end ((=) (CHR 0x22)) (dropWhile ((=) (CHR 0x22)) s)"

definition or_header :: "headers \<Rightarrow> string \<Rightarrow> string \<Rightarrow> string option" where
  "or_header hs a b = (case hs a of Some v \<Rightarrow> Some v | None \<Rightarrow> hs b)"

definition head_info :: "headers \<Rightarrow> head_file_info" where
  "head_info hs =
    \<lparr>hf_xet_hash = hs ''x-xet-hash'',
     hf_etag = map_option trim_quotes (or_header hs ''x-linked-etag'' ''etag''),
     hf_size = Option.bind (or_header hs ''x-linked-size'' ''content-length'') parse_u64,
     hf_last_modified = hs ''last-modified''\<rparr>"

definition head_file ::
  "hctr2 \<Rightarrow> ((char \<Rightarrow> bool) \<Rightarrow> string \<Rightarrow> string) \<Rightarrow> ('s \<Rightarrow> string \<Rightarrow> http_reply \<times> 's) \<Rightarrow> hub_client \<Rightarrow> string \<Rightarrow> 's \<Rightarrow>
   (hub_error + head_file_info option) \<times> 's" where
  "head_file h ue head hc path s =
    (case resolve_url h ue hc path of
      Inl e \<Rightarrow> (Inl e, s)
    | Inr url \<Rightarrow>
        (case send_with_retry (\<lambda>s. head s url) ''head_file'' True s of
          (Inr r, _, s1) \<Rightarrow> (Inr (Some (head_info (rs_headers r))), s1)
        | (Inl e, _, s1) \<Rightarrow> if error_status e = Some 404 then (Inr None, s1) else (Inl e, s1)))"

definition cas_token_url :: "((char \<Rightarrow> bool) \<Rightarrow> string \<Rightarrow> string) \<Rightarrow> hub_client \<Rightarrow> string" where
  "cas_token_url ue hc =
    (case hc_source hc of
      Bucket bid \<Rightarrow> hc_endpoint hc @ ''/api/buckets/'' @ bid @ ''/xet-read-token''
    | Repo rid ty rv \<Rightarrow>
        hc_endpoint hc @ ''/api/'' @ api_prefix ty @ ''/'' @ rid @ ''/xet-read-token/'' @ encode_url_revision ue rv)"

definition cas_write_token_url :: "hub_client \<Rightarrow> hub_error + string" where
  "cas_write_token_url hc =
    (case hc_source hc of
      Bucket bid \<Rightarrow> Inr (hc_endpoint hc @ ''/api/buckets/'' @ bid @ ''/xet-write-token'')
    | Repo _ _ _ \<Rightarrow> Inl (hub ''write tokens not supported for repos''))"

text \<open>A token request: the URL is asked for and the body decoded.\<close>

definition get_json ::
  "('s \<Rightarrow> string \<Rightarrow> http_reply \<times> 's) \<Rightarrow> (string \<Rightarrow> hub_error + 'a) \<Rightarrow> string \<Rightarrow> string \<Rightarrow> 's \<Rightarrow> (hub_error + 'a) \<times> 's" where
  "get_json get parse ctx url s =
    (case send_with_retry (\<lambda>s. get s url) ctx False s of
      (Inl e, _, s1) \<Rightarrow> (Inl e, s1)
    | (Inr r, _, s1) \<Rightarrow> (parse (rs_body r), s1))"

definition get_cas_token where
  "get_cas_token ue get parse hc = get_json get parse ''CAS token request'' (cas_token_url ue hc)"

definition get_cas_write_token where
  "get_cas_write_token get parse hc s =
    (case cas_write_token_url hc of
      Inl e \<Rightarrow> (Inl e, s)
    | Inr url \<Rightarrow> get_json get parse ''CAS write token request'' url s)"

record revision_probe =
  pr_sha :: "string option"
  pr_last_modified :: "string option"
  pr_updated_at :: "string option"

definition revision_of :: "source_kind \<Rightarrow> revision_probe \<Rightarrow> hub_error + string" where
  "revision_of src probe =
    (case src of
      Repo _ _ _ \<Rightarrow>
        (case pr_sha probe of
          Some v \<Rightarrow> Inr v
        | None \<Rightarrow> (case pr_last_modified probe of
            Some v \<Rightarrow> Inr v
          | None \<Rightarrow> Inl (hub ''revision probe: repo response missing sha and lastModified'')))
    | Bucket _ \<Rightarrow>
        (case pr_updated_at probe of
          Some v \<Rightarrow> Inr v
        | None \<Rightarrow> Inl (hub ''revision probe: bucket response missing updatedAt'')))"

definition probe_revision ::
  "('s \<Rightarrow> string \<Rightarrow> http_reply \<times> 's) \<Rightarrow> (string \<Rightarrow> hub_error + revision_probe) \<Rightarrow> hub_client \<Rightarrow> 's \<Rightarrow>
   (hub_error + string) \<times> 's" where
  "probe_revision get parse hc s =
    (let url = (case hc_source hc of
           Repo rid ty _ \<Rightarrow> hc_endpoint hc @ ''/api/'' @ api_prefix ty @ ''/'' @ rid
         | Bucket bid \<Rightarrow> hc_endpoint hc @ ''/api/buckets/'' @ bid);
         (res, s1) = get_json get parse ''revision probe'' url s
     in (case res of Inl e \<Rightarrow> Inl e | Inr probe \<Rightarrow> revision_of (hc_source hc) probe, s1))"

section \<open>Batches\<close>

definition remote_op :: "hctr2 \<Rightarrow> hub_client \<Rightarrow> batch_op \<Rightarrow> hub_error + batch_op" where
  "remote_op h hc bop =
    (case bop of
      AddFile path hash mtime ctype \<Rightarrow> map_sum id (\<lambda>rp. AddFile (rp_path rp) hash mtime ctype) (prefixed_path h hc path)
    | DeleteFile path \<Rightarrow> map_sum id (\<lambda>rp. DeleteFile (rp_path rp)) (prefixed_path h hc path))"

fun batch_body :: "hctr2 \<Rightarrow> (batch_op \<Rightarrow> hub_error + string) \<Rightarrow> hub_client \<Rightarrow> batch_op list \<Rightarrow> hub_error + string" where
  "batch_body h ser hc [] = Inr []"
| "batch_body h ser hc (bop # ops) =
    (case remote_op h hc bop of
      Inl e \<Rightarrow> Inl e
    | Inr transformed \<Rightarrow>
        (case ser transformed of
          Inl e \<Rightarrow> Inl e
        | Inr line \<Rightarrow> map_sum id (\<lambda>body. line @ [CHR 0x0A] @ body) (batch_body h ser hc ops)))"

text \<open>\<open>post\<close> takes the URL and the body.\<close>

definition batch_operations ::
  "hctr2 \<Rightarrow> (batch_op \<Rightarrow> hub_error + string) \<Rightarrow> ('s \<Rightarrow> string \<Rightarrow> string \<Rightarrow> http_reply \<times> 's) \<Rightarrow> hub_client \<Rightarrow>
   batch_op list \<Rightarrow> 's \<Rightarrow> (hub_error + unit) \<times> 's" where
  "batch_operations h ser post hc ops s =
    (case hc_source hc of
      Repo _ _ _ \<Rightarrow> (Inl (hub ''batch operations not supported for repos''), s)
    | Bucket bid \<Rightarrow>
        (case batch_body h ser hc ops of
          Inl e \<Rightarrow> (Inl e, s)
        | Inr body \<Rightarrow>
            (case send_with_retry (\<lambda>s. post s (hc_endpoint hc @ ''/api/buckets/'' @ bid @ ''/batch'') body) ''batch operation'' False s of
              (Inl e, _, s1) \<Rightarrow> (Inl e, s1)
            | (Inr _, _, s1) \<Rightarrow> (Inr (), s1))))"

section \<open>Downloads over HTTP\<close>

text \<open>
  The destination, its \<open>.etag\<close> sidecar and the temporary file.  \<open>io k\<close> is the error
  of the \<open>k\<close>-th step on the disk, if it fails: making the directory, creating the temporary file,
  closing it, renaming it, writing the sidecar.  The response body arrives in chunks; an error among
  them is a broken stream or a failed write.
\<close>

record download_files =
  df_dest :: "bytes option"
  df_etag :: "string option"
  df_tmp :: "bytes option"

fun stream_body :: "bytes \<Rightarrow> (hub_error + bytes) list \<Rightarrow> hub_error + bytes" where
  "stream_body acc [] = Inr acc"
| "stream_body acc (Inl e # cs) = Inl e"
| "stream_body acc (Inr c # cs) = stream_body (acc @ c) cs"

definition store_download ::
  "(nat \<Rightarrow> string option) \<Rightarrow> string option \<Rightarrow> (hub_error + bytes) list \<Rightarrow> download_files \<Rightarrow>
   (hub_error + unit) \<times> download_files" where
  "store_download io new_etag chunks fs =
    (case io 0 of
      Some e \<Rightarrow> (Inl (Io e), fs)
    | None \<Rightarrow>
        (case (case io 1 of Some e \<Rightarrow> Inl (Io e) | None \<Rightarrow> stream_body [] chunks) of
          Inl e \<Rightarrow> (Inl e, fs\<lparr>df_tmp := None\<rparr>)
        | Inr body \<Rightarrow>
            (case (io 2, io 3) of
              (None, None) \<Rightarrow>
                (Inr (), fs\<lparr>df_tmp := None, df_dest := Some body,
                   df_etag := (if io 4 = None then new_etag else df_etag fs)\<rparr>)
            | (Some e, _) \<Rightarrow> (Inl (Io e), fs\<lparr>df_tmp := None\<rparr>)
            | (None, Some e) \<Rightarrow> (Inl (Io e), fs\<lparr>df_tmp := None\<rparr>))))"

definition download_file_http ::
  "hctr2 \<Rightarrow> ((char \<Rightarrow> bool) \<Rightarrow> string \<Rightarrow> string) \<Rightarrow> ('s \<Rightarrow> string \<Rightarrow> string option \<Rightarrow> http_reply \<times> 's) \<Rightarrow>
   (response \<Rightarrow> (hub_error + bytes) list) \<Rightarrow> (nat \<Rightarrow> string option) \<Rightarrow> hub_client \<Rightarrow> string \<Rightarrow> download_files \<Rightarrow> 's \<Rightarrow>
   (hub_error + unit) \<times> download_files \<times> 's" where
  "download_file_http h ue get chunks io hc path fs s =
    (case resolve_url h ue hc path of
      Inl e \<Rightarrow> (Inl e, fs, s)
    | Inr url \<Rightarrow>
        (let cached_etag = (if df_dest fs \<noteq> None then df_etag fs else None);
             cond = map_option (\<lambda>etag. [CHR 0x22] @ trim etag @ [CHR 0x22]) cached_etag
         in case send_with_retry (\<lambda>s. get s url cond) ''HTTP download'' False s of
              (Inl e, _, s1) \<Rightarrow> if error_status e = Some 304 then (Inr (), fs, s1) else (Inl e, fs, s1)
            | (Inr r, _, s1) \<Rightarrow>
                (let new_etag = map_option trim_quotes (rs_headers r ''etag'');
                     (res, fs1) = store_download io new_etag (chunks r) fs
                 in (res, fs1, s1))))"

section \<open>Opening the live feed\<close>

text \<open>\<open>None\<close>: the feed is not served; the query carries the cursor, else the instant to replay from.\<close>

definition follow_events ::
  "('s \<Rightarrow> string \<Rightarrow> (string \<times> string) option \<Rightarrow> http_reply \<times> 's) \<Rightarrow> hub_client \<Rightarrow> string option \<Rightarrow> string option \<Rightarrow> 's \<Rightarrow>
   (hub_error + (response \<times> string) option) \<times> 's" where
  "follow_events get hc cursor since s =
    (if hc_path_cipher hc \<noteq> None then (Inr None, s)
     else (case hc_source hc of
        Repo _ _ _ \<Rightarrow> (Inr None, s)
      | Bucket bid \<Rightarrow>
          (let url = hc_endpoint hc @ ''/api/buckets/'' @ bid @ ''/events'';
               query = (case cursor of
                   Some c \<Rightarrow> Some (''cursor'', c)
                 | None \<Rightarrow> map_option (Pair ''since'') since);
               (reply, s1) = get s url query
           in case reply of
                Transport d timeout connect \<Rightarrow> (Inl (Http d timeout connect), s1)
              | Response r \<Rightarrow>
                  if rs_status r = 404 then (Inr None, s1)
                  else if \<not> is_success (rs_status r)
                  then (Inl (Hub (''live-follow: '' @ show_nat (rs_status r) @ '' '' @ rs_body r) (Some (rs_status r))
                         (parse_retry_delay (rs_headers r))), s1)
                  else (let content_type = (case rs_headers r ''content-type'' of None \<Rightarrow> [] | Some v \<Rightarrow> v)
                        in if starts_with content_type ''text/event-stream''
                           then (Inr (Some (r, hc_path_prefix hc)), s1)
                           else (Inr None, s1)))))"

end
