(* ===== verification/Hub_Listing.thy ===== *)
theory Hub_Listing
  imports Hub_Api
begin

text \<open>
  Properties of the Hub client: the retry loop, what a listing returns of the paths the client
  stored, and that nothing outside the listed directory comes back.
\<close>

section \<open>The retry loop\<close>

primrec server_after :: "('s \<Rightarrow> http_reply \<times> 's) \<Rightarrow> nat \<Rightarrow> 's \<Rightarrow> 's" where
  "server_after send 0 s = s"
| "server_after send (Suc k) s = server_after send k (snd (send s))"

definition reply_nr :: "('s \<Rightarrow> http_reply \<times> 's) \<Rightarrow> nat \<Rightarrow> 's \<Rightarrow> http_reply" where
  "reply_nr send k s = fst (send (server_after send k s))"

definition accepted :: "bool \<Rightarrow> http_reply \<Rightarrow> bool" where
  "accepted redir r =
    (case r of Response x \<Rightarrow> is_success (rs_status x) \<or> (redir \<and> is_redirection (rs_status x)) | Transport _ _ _ \<Rightarrow> False)"

definition retryable :: "http_reply \<Rightarrow> bool" where
  "retryable r =
    (case r of Response x \<Rightarrow> is_retryable_status (rs_status x) | Transport _ t c \<Rightarrow> is_transient_http t c)"

definition reply_result :: "string \<Rightarrow> bool \<Rightarrow> http_reply \<Rightarrow> hub_error + response" where
  "reply_result ctx redir r =
    (case r of
      Response x \<Rightarrow>
        if accepted redir r then Inr x
        else Inl (Hub (ctx @ '': '' @ show_nat (rs_status x) @ '' '' @ rs_body x) (Some (rs_status x))
               (parse_retry_delay (rs_headers x)))
    | Transport d t c \<Rightarrow> Inl (Http d t c))"

lemma retryable_not_accepted: "retryable r \<Longrightarrow> \<not> accepted redir r"
  by (auto simp: retryable_def accepted_def is_retryable_status_def is_success_def is_redirection_def split: http_reply.splits)

lemma retry_delay_small: "attempt \<le> MAX_RETRIES \<Longrightarrow> retry_delay attempt \<le> MAX_RETRY_DELAY"
proof -
  assume "attempt \<le> MAX_RETRIES"
  then have "attempt - 1 \<le> 1" by (simp add: MAX_RETRIES_def)
  then have "(2::nat) ^ (attempt - 1) \<le> 2 ^ 1" by (rule power_increasing) simp
  then show ?thesis by (simp add: retry_delay_def MAX_RETRY_DELAY_def)
qed

text \<open>One round of the loop.\<close>

lemma send_loop_step:
  "send_loop send ctx redir a s =
    (if retryable (fst (send s)) \<and> a < MAX_RETRIES
     then (case send_loop send ctx redir (Suc a) (snd (send s)) of
        (res, sleeps, s') \<Rightarrow>
          (res,
           (case fst (send s) of
              Response x \<Rightarrow> min (case parse_retry_delay (rs_headers x) of Some d \<Rightarrow> d | None \<Rightarrow> retry_delay (Suc a)) MAX_RETRY_DELAY
            | Transport _ _ _ \<Rightarrow> retry_delay (Suc a)) # sleeps, s'))
     else (reply_result ctx redir (fst (send s)), [], snd (send s)))"
  using retryable_not_accepted [of "fst (send s)" redir]
  by (subst send_loop.simps)
    (auto simp: retryable_def accepted_def reply_result_def Let_def Suc_le_eq split: prod.split http_reply.split)

lemma send_loop_outcome:
  assumes "send_loop send ctx redir a s = (res, sleeps, s')" and "a \<le> MAX_RETRIES"
  shows "a + length sleeps \<le> MAX_RETRIES \<and> (\<forall>d \<in> set sleeps. d \<le> MAX_RETRY_DELAY) \<and>
    s' = server_after send (Suc (length sleeps)) s \<and>
    (\<forall>i < length sleeps. retryable (reply_nr send i s)) \<and>
    res = reply_result ctx redir (reply_nr send (length sleeps) s) \<and>
    (retryable (reply_nr send (length sleeps) s) \<longrightarrow> a + length sleeps = MAX_RETRIES)"
  using assms
proof (induction "MAX_RETRIES - a" arbitrary: a s sleeps)
  case 0
  then show ?case by (auto simp: send_loop_step [of send ctx redir MAX_RETRIES s] reply_nr_def)
next
  case (Suc n)
  show ?case
  proof (cases "retryable (fst (send s))")
    case False
    then show ?thesis using Suc.prems by (auto simp: send_loop_step [of send ctx redir a s] reply_nr_def)
  next
    case True
    have less: "a < MAX_RETRIES" using Suc.hyps(2) by simp
    with True obtain sl where loop: "send_loop send ctx redir (Suc a) (snd (send s)) = (res, sl, s')"
      and sleeps: "tl sleeps = sl" "sleeps \<noteq> []" "hd sleeps \<le> MAX_RETRY_DELAY"
      using Suc.prems(1) retry_delay_small [of "Suc a"]
      by (auto simp: send_loop_step [of send ctx redir a s] split: prod.splits http_reply.splits)
    obtain d where d: "sleeps = d # sl" "d \<le> MAX_RETRY_DELAY" using sleeps by (cases sleeps) auto
    have IH: "Suc a + length sl \<le> MAX_RETRIES \<and> (\<forall>d \<in> set sl. d \<le> MAX_RETRY_DELAY) \<and>
      s' = server_after send (Suc (length sl)) (snd (send s)) \<and>
      (\<forall>i < length sl. retryable (reply_nr send i (snd (send s)))) \<and>
      res = reply_result ctx redir (reply_nr send (length sl) (snd (send s))) \<and>
      (retryable (reply_nr send (length sl) (snd (send s))) \<longrightarrow> Suc a + length sl = MAX_RETRIES)"
      using Suc.hyps Suc.prems(2) loop by (intro Suc.hyps(1)) auto
    have shift: "reply_nr send (Suc i) s = reply_nr send i (snd (send s))" for i by (simp add: reply_nr_def)
    have "retryable (reply_nr send i s)" if "i < length sleeps" for i
      using that True IH shift d by (cases i) (auto simp: reply_nr_def)
    then show ?thesis using IH d shift by auto
  qed
qed

text \<open>
  C29: the retry loop ends after at most three requests, with sleeps of at most 30 seconds between
  them; every request but the last was answered by a retryable failure, the result is that of the
  last reply, and a retryable failure is returned only when the two retries were used up.
\<close>

theorem send_with_retry_bounded:
  assumes "send_with_retry send ctx redir s = (res, sleeps, s')"
  shows "length sleeps \<le> 2 \<and> (\<forall>d \<in> set sleeps. d \<le> 30000) \<and>
    s' = server_after send (Suc (length sleeps)) s \<and>
    (\<forall>i < length sleeps. retryable (reply_nr send i s)) \<and>
    res = reply_result ctx redir (reply_nr send (length sleeps) s) \<and>
    (retryable (reply_nr send (length sleeps) s) \<longrightarrow> length sleeps = 2)"
  using send_loop_outcome [of send ctx redir 0 s res sleeps s'] assms
  by (simp add: send_with_retry_def MAX_RETRIES_def MAX_RETRY_DELAY_def)

definition busy_then_ok :: "nat \<Rightarrow> http_reply \<times> nat" where
  "busy_then_ok n =
    (Response (if n = 0 then \<lparr>rs_status = 429, rs_headers = [''ratelimit'' \<mapsto> ''api;r=0;t=7''], rs_body = []\<rparr>
       else \<lparr>rs_status = 200, rs_headers = Map.empty, rs_body = ''[]''\<rparr>), n + 1)"

lemma busy_then_ok_run:
  "send_with_retry busy_then_ok ''x'' False 0 =
    (Inr \<lparr>rs_status = 200, rs_headers = Map.empty, rs_body = ''[]''\<rparr>, [7000], 2)"
proof -
  have hint: "parse_retry_delay [''ratelimit'' \<mapsto> ''api;r=0;t=7''] = Some 7000"
    by (simp add: parse_retry_delay_def trim_def trim_end_def is_space_def strip_prefix_def starts_with_def
        parse_u64_def digit_val_def u64_max_def of_char_def)
  have one: "send_loop busy_then_ok ''x'' False (Suc 0) 1 =
      (Inr \<lparr>rs_status = 200, rs_headers = Map.empty, rs_body = ''[]''\<rparr>, [], 2)"
    by (simp add: send_loop_step [of _ _ _ "Suc 0" "Suc 0"] busy_then_ok_def retryable_def is_retryable_status_def
        reply_result_def accepted_def is_success_def)
  show ?thesis
    unfolding send_with_retry_def
    by (subst send_loop_step)
      (simp add: busy_then_ok_def [of 0] retryable_def is_retryable_status_def MAX_RETRIES_def one [simplified] hint
        MAX_RETRY_DELAY_def)
qed

theorem send_with_retry_bounded_witness:
  "\<exists>res s'. send_with_retry busy_then_ok ''x'' False 0 = (res, [7000], s') \<and> s' = server_after busy_then_ok 2 0 \<and>
    retryable (reply_nr busy_then_ok 0 0)"
  using send_with_retry_bounded [OF busy_then_ok_run] busy_then_ok_run by (metis One_nat_def Suc_1 length_Cons lessI list.size(3))

section \<open>Paths going out and coming back\<close>

lemma strict_descendant_rel_Some:
  "strict_descendant_rel path pre = Some rel \<longleftrightarrow> path = pre @ ''/'' @ rel \<and> rel \<noteq> []"
  by (auto simp: strict_descendant_rel_def strip_prefix_Some strip_prefix_def starts_with_iff split: option.splits)

lemma split_on_join_append:
  "split_on c (s @ c # t) = split_on c s @ split_on c t"
  by (induction s) (auto split: list.splits)

lemma decrypt_components_append:
  "decrypt_components h pc parent (xs @ ys) =
    (case decrypt_components h pc parent xs of
      None \<Rightarrow> None
    | Some ns \<Rightarrow> map_option ((@) ns) (decrypt_components h pc (foldl push_component parent ns) ys))"
proof (induction xs arbitrary: parent)
  case Nil
  then show ?case by (cases "decrypt_components h pc parent ys") auto
next
  case (Cons x xs)
  then show ?case by (auto split: option.splits simp: option.map_comp comp_def)
qed

lemma encrypt_components_append:
  "encrypt_components h pc parent (xs @ ys) =
    (case encrypt_components h pc parent xs of
      Inl e \<Rightarrow> Inl e
    | Inr ss \<Rightarrow> map_sum id ((@) ss) (encrypt_components h pc (foldl push_component parent xs) ys))"
proof (induction xs arbitrary: parent)
  case (Cons x xs)
  then show ?case
    by (cases "encrypt_components h pc (foldl push_component (push_component parent x) xs) ys") (auto split: sum.splits)
next
  case Nil
  then show ?case by (cases "encrypt_components h pc parent ys") auto
qed

lemma join_with_append:
  "xs \<noteq> [] \<Longrightarrow> ys \<noteq> [] \<Longrightarrow> join_with c (xs @ ys) = join_with c xs @ c # join_with c ys"
  by (induction c xs rule: join_with.induct) (auto simp: neq_Nil_conv)

lemma decrypt_components_valid:
  "decrypt_components h pc parent xs = Some ns \<Longrightarrow> length ns = length xs \<and> (\<forall>n \<in> set ns. valid_name n)"
  by (induction xs arbitrary: parent ns) (auto split: option.splits simp: decrypt_component_def validate_name_cases split: sum.splits if_splits)

lemma encrypt_path_components:
  assumes "hctr2_correct h" and "rust_str p" and "p \<noteq> []" and "encrypt_path h pc p = Inr c"
  obtains ss where "encrypt_components h pc [] (split_on (CHR ''/'') p) = Inr ss" and "split_on (CHR ''/'') c = ss"
    and "decrypt_components h pc [] ss = Some (split_on (CHR ''/'') p)" and "ss \<noteq> []"
proof -
  let ?cs = "split_on (CHR ''/'') p"
  from assms(3,4) obtain ss where ss: "encrypt_components h pc [] ?cs = Inr ss" and c: "c = join_with (CHR ''/'') ss"
    by (auto simp: encrypt_path_def split: sum.splits)
  have "\<forall>x \<in> set ?cs. rust_str x" using rust_str_split [OF _ assms(2), of "CHR ''/''"] by simp
  then have dec: "decrypt_components h pc [] ss = Some ?cs" "set ss \<subseteq> range encode" "length ss = length ?cs"
    using decrypt_encrypt_components [OF assms(1) _ ss] by auto
  then have "ss \<noteq> []" by (metis length_0_conv split_on_nonempty)
  moreover have "split_on (CHR ''/'') c = ss" using b91.split_stored [OF \<open>ss \<noteq> []\<close> dec(2)] c by simp
  ultimately show ?thesis using that ss dec(1) by blast
qed

lemma stored_component_nonempty:
  assumes "hctr2_correct h" and "encrypt_component h pc name parent = Inr st"
  shows "st \<noteq> []"
proof -
  obtain n where "valid_name name" and n: "encrypt_input_len (length name) = Some n"
    using assms(2) by (auto simp: encrypt_component_def validate_name_cases split: if_splits option.splits)
  then obtain ct where ct: "st = encode ct" "length ct = n"
    using encrypt_component_spec [OF assms(1), of name n pc parent] assms(2) by auto
  have "0 < n" using encrypt_input_len_SomeD(2) [OF n] by (simp add: PAD_BLOCK_def)
  then have "encode ct \<noteq> encode []" using ct(2) by (auto simp: b91.enc_inject)
  then show ?thesis using ct(1) by (simp add: encode_def enc_init_def enc_finish_def)
qed

lemma encrypt_components_nonempty:
  assumes "hctr2_correct h"
  shows "encrypt_components h pc parent cs = Inr ss \<Longrightarrow> length ss = length cs \<and> (\<forall>x \<in> set ss. x \<noteq> [])"
proof (induction cs arbitrary: parent ss)
  case (Cons c cs)
  then obtain x xs where x: "encrypt_component h pc c parent = Inr x" and ss: "ss = x # xs"
    and xs: "encrypt_components h pc (push_component parent c) cs = Inr xs"
    by (auto split: sum.splits)
  then show ?case using Cons.IH [OF xs] stored_component_nonempty [OF assms x] by auto
qed simp

lemma encrypt_path_nonempty:
  assumes "hctr2_correct h" and "rust_str p" and "p \<noteq> []" and "encrypt_path h pc p = Inr c"
  shows "c \<noteq> []"
  using encrypt_path_components [OF assms]
  by (metis encrypt_components_nonempty [OF assms(1)] list.set_intros(1) split_on.simps(1))

text \<open>Below an encrypted directory there are only names below that directory, both ways.\<close>

lemma decrypt_below:
  assumes "hctr2_correct h" and "rust_str p" and "p \<noteq> []" and "encrypt_path h pc p = Inr c"
    and "decrypt_path h pc (c @ ''/'' @ rel) = Some plain"
  shows "\<exists>rel'. rel' \<noteq> [] \<and> plain = p @ ''/'' @ rel'"
proof -
  let ?sp = "split_on (CHR ''/'')"
  obtain ss where ss: "?sp c = ss" "decrypt_components h pc [] ss = Some (?sp p)" "ss \<noteq> []"
    using encrypt_path_components [OF assms(1-4)] by blast
  have "?sp (c @ ''/'' @ rel) = ss @ ?sp rel" using ss(1) by (simp add: split_on_join_append)
  then obtain ns where ns: "decrypt_components h pc (foldl push_component [] (?sp p)) (?sp rel) = Some ns"
    and plain: "plain = join_with (CHR ''/'') (?sp p @ ns)"
    using assms(5) ss(2) by (auto simp: decrypt_path_def decrypt_components_append split: option.splits)
  have v: "length ns = length (?sp rel)" "\<forall>n \<in> set ns. valid_name n" using decrypt_components_valid [OF ns] by auto
  then have "ns \<noteq> []" by auto
  moreover have "join_with (CHR ''/'') ns \<noteq> []"
    using v(2) \<open>ns \<noteq> []\<close> by (intro join_nonempty) (auto simp: valid_name_def)
  ultimately show ?thesis using plain by (auto simp: join_with_append)
qed

lemma encrypt_below:
  assumes "hctr2_correct h" and "rust_str p" and "p \<noteq> []" and "encrypt_path h pc p = Inr c"
    and "encrypt_path h pc (p @ ''/'' @ rel) = Inr d"
  shows "\<exists>rel'. rel' \<noteq> [] \<and> d = c @ ''/'' @ rel'"
proof -
  let ?sp = "split_on (CHR ''/'')"
  obtain ss where ss: "encrypt_components h pc [] (?sp p) = Inr ss" "?sp c = ss" "ss \<noteq> []"
    using encrypt_path_components [OF assms(1-4)] by blast
  have "?sp (p @ ''/'' @ rel) = ?sp p @ ?sp rel" by (simp add: split_on_join_append)
  then obtain ts where ts: "encrypt_components h pc (foldl push_component [] (?sp p)) (?sp rel) = Inr ts"
    and d: "d = join_with (CHR ''/'') (ss @ ts)"
    using assms(5) ss(1) by (auto simp: encrypt_path_def encrypt_components_append map_sum_def split: sum.splits)
  have v: "length ts = length (?sp rel)" "\<forall>x \<in> set ts. x \<noteq> []"
    using encrypt_components_nonempty [OF assms(1) ts] by auto
  then have "ts \<noteq> []" by auto
  moreover have "join_with (CHR ''/'') ts \<noteq> []" using v(2) \<open>ts \<noteq> []\<close> by (intro join_nonempty) auto
  moreover have "join_with (CHR ''/'') ss = c" using ss(2) by (metis join_split)
  ultimately show ?thesis using d ss(3) by (auto simp: join_with_append)
qed

lemma map_filter_set: "set (List.map_filter f xs) = {y. \<exists>x \<in> set xs. f x = Some y}"
  by (induction xs) (auto simp: List.map_filter_simps split: option.splits)

lemma decrypt_listing_mem:
  assumes "hc_path_cipher hc = Some pc"
  shows "e \<in> set (decrypt_listing h hc es) \<longleftrightarrow>
    (\<exists>e1 \<in> set es. \<exists>stored plain. te_path e1 = ENC_ROOT @ ''/'' @ stored \<and> decrypt_path h pc stored = Some plain \<and>
      e = e1\<lparr>te_path := plain\<rparr>)"
proof -
  have bind: "Option.bind (strip_prefix x ENC_ROOT) (\<lambda>p. strip_prefix p ''/'') = Some stored \<longleftrightarrow>
      x = ENC_ROOT @ ''/'' @ stored" for x stored
    by (auto simp: bind_eq_Some_conv strip_prefix_Some)
  have "(case Option.bind (strip_prefix x ENC_ROOT) (\<lambda>p. strip_prefix p ''/'') of
        None \<Rightarrow> None | Some stored \<Rightarrow> map_option f (decrypt_path h pc stored)) = Some y \<longleftrightarrow>
      (\<exists>stored plain. x = ENC_ROOT @ ''/'' @ stored \<and> decrypt_path h pc stored = Some plain \<and> y = f plain)"
    for x and f :: "string \<Rightarrow> tree_entry" and y
    unfolding bind [symmetric] by (auto split: option.splits)
  then show ?thesis using assms by (simp add: decrypt_listing_def map_filter_set)
qed

text \<open>The path of a kept entry, before and after the prefix is stripped.\<close>

lemma strip_entries_mem:
  assumes "e \<in> set (strip_entries hc es)"
  shows "\<exists>e0 \<in> set es. te_path e0 = join_prefix (hc_path_prefix hc) (te_path e) \<and>
    (hc_path_prefix hc \<noteq> [] \<longrightarrow> te_path e \<noteq> []) \<and> e = e0\<lparr>te_path := te_path e\<rparr>"
proof (cases "hc_path_prefix hc = []")
  case True
  then show ?thesis using assms by (auto simp: strip_entries_def join_prefix_def)
next
  case False
  then obtain e0 rel where e0: "e0 \<in> set es" "strip_path_prefix hc (te_path e0) = Some rel" "rel \<noteq> []" "e = e0\<lparr>te_path := rel\<rparr>"
    using assms by (auto simp: strip_entries_def map_filter_set split: option.splits if_splits)
  then have "te_path e0 = hc_path_prefix hc @ ''/'' @ rel"
    using False by (auto simp: strip_path_prefix_def strict_descendant_rel_Some split: if_splits)
  then show ?thesis using e0 False by (intro bexI [OF _ e0(1)]) (auto simp: join_prefix_def)
qed

lemma join_prefix_below:
  assumes "pre \<noteq> []" and "join_prefix pp x = join_prefix pp pre @ ''/'' @ rel" and "rel \<noteq> []"
  shows "x = pre @ ''/'' @ rel"
  using assms by (auto simp: join_prefix_def split: if_splits)

lemma scope_listing_below:
  assumes "hctr2_correct h" and "rust_str (join_prefix (hc_path_prefix hc) pre)" and "pre \<noteq> []"
    and "prefixed_path h hc pre = Inr rp" and "e \<in> set (scope_listing h hc rp es)"
  shows "\<exists>rel. rel \<noteq> [] \<and> te_path e = pre @ ''/'' @ rel"
proof -
  let ?j = "join_prefix (hc_path_prefix hc) pre"
  have j: "?j \<noteq> []" using assms(3) by (simp add: join_prefix_def)
  from assms(5) obtain e0 where e0: "te_path e0 = join_prefix (hc_path_prefix hc) (te_path e)"
    and mem: "e0 \<in> set (decrypt_listing h hc
      (if rp_path rp \<noteq> [] then filter (\<lambda>e. strict_descendant_rel (te_path e) (rp_path rp) \<noteq> None) es else es))"
    unfolding scope_listing_def by (metis strip_entries_mem)
  have "\<exists>rel. rel \<noteq> [] \<and> te_path e0 = ?j @ ''/'' @ rel"
  proof (cases "hc_path_cipher hc")
    case None
    then have "rp_path rp = ?j" using assms(4) by (auto simp: prefixed_path_def)
    then show ?thesis using mem None j by (auto simp: decrypt_listing_def strict_descendant_rel_Some split: if_splits)
  next
    case (Some pc)
    then obtain c where c: "encrypt_path h pc ?j = Inr c" using assms(4) by (auto simp: prefixed_path_def split: sum.splits)
    then have "c \<noteq> []" by (rule encrypt_path_nonempty [OF assms(1,2) j])
    then have rp: "rp_path rp = ENC_ROOT @ ''/'' @ c" using assms(4) Some c by (auto simp: prefixed_path_def)
    then have "rp_path rp \<noteq> []" by (simp add: ENC_ROOT_def)
    moreover obtain e1 stored plain where mem1: "e1 \<in> set (if rp_path rp \<noteq> []
        then filter (\<lambda>e. strict_descendant_rel (te_path e) (rp_path rp) \<noteq> None) es else es)"
      and e1: "te_path e1 = ENC_ROOT @ ''/'' @ stored" and plain: "decrypt_path h pc stored = Some plain" "e0 = e1\<lparr>te_path := plain\<rparr>"
      using mem unfolding decrypt_listing_mem [OF Some] by blast
    ultimately have "strict_descendant_rel (te_path e1) (rp_path rp) \<noteq> None" by simp
    then obtain rel where "stored = c @ ''/'' @ rel" using rp e1 by (auto simp: strict_descendant_rel_Some)
    then show ?thesis using decrypt_below [OF assms(1,2) j c] plain by auto
  qed
  then show ?thesis using join_prefix_below [OF assms(3)] e0 by metis
qed

text \<open>
  C27: every entry a listing returns is strictly below the directory asked for, whatever the server
  answered (the tree API matches raw key prefixes), on plaintext and on encrypted mounts, with or
  without a mounted subfolder; on a mounted subfolder no entry has the empty path.
\<close>

theorem list_tree_scoped:
  assumes "hctr2_correct h" and "rust_str (join_prefix (hc_path_prefix hc) pre)"
    and "list_tree h en hc pre s = Some (Inr es, s')" and "e \<in> set es"
  shows "(pre \<noteq> [] \<longrightarrow> (\<exists>rel. strict_descendant_rel (te_path e) pre = Some rel)) \<and>
    (hc_path_prefix hc \<noteq> [] \<longrightarrow> te_path e \<noteq> [])"
proof -
  from assms(3) obtain rp where rp: "prefixed_path h hc pre = Inr rp"
    by (auto simp: list_tree_def split: sum.splits)
  have "\<exists>es0. es = scope_listing h hc rp es0"
    if "map_sum id f r = Inr es" "f = scope_listing h hc rp" for f and r :: "hub_error + tree_entry list"
    using that by (cases r) auto
  with assms(3) rp obtain es0 where es: "es = scope_listing h hc rp es0"
    by (auto simp: list_tree_def Let_def)
  then have "pre \<noteq> [] \<Longrightarrow> \<exists>rel. strict_descendant_rel (te_path e) pre = Some rel"
    using scope_listing_below [OF assms(1,2) _ rp] assms(4) by (simp add: strict_descendant_rel_Some) blast
  moreover have "hc_path_prefix hc \<noteq> [] \<Longrightarrow> te_path e \<noteq> []"
    using assms(4) es strip_entries_mem [of e hc] unfolding scope_listing_def by blast
  ultimately show ?thesis by blast
qed

text \<open>A server with one page.\<close>

definition demo_entry :: "string \<Rightarrow> tree_entry" where
  "demo_entry path = \<lparr>te_path = path, te_type = ''file'', te_size = Some 3, te_xet_hash = Some ''h'', te_oid = None, te_mtime = None\<rparr>"

definition demo_env :: "string list \<Rightarrow> unit hub_env" where
  "demo_env paths =
    \<lparr>h_get = \<lambda>s url. (Response \<lparr>rs_status = 200, rs_headers = Map.empty, rs_body = []\<rparr>, s),
     h_tree = \<lambda>_. Inr (map demo_entry paths), h_repo_tree = \<lambda>_. Inr [], h_escape = \<lambda>_ p. p\<rparr>"

definition demo_client :: "path_cipher option \<Rightarrow> hub_client" where
  "demo_client pc =
    \<lparr>hc_endpoint = ''https://hub'', hc_token = None, hc_token_file = False, hc_token_cache = None, hc_source = Bucket ''u/b'',
     hc_last_modified = 0, hc_path_prefix = [], hc_path_cipher = pc\<rparr>"

lemma demo_listing:
  "list_tree_bucket (demo_env paths) hc bid rq () = Some (Inr (map demo_entry paths), ())"
proof -
  have "send_with_retry (\<lambda>s. h_get (demo_env paths) s url) ctx False () =
      (Inr \<lparr>rs_status = 200, rs_headers = Map.empty, rs_body = []\<rparr>, [], ())" for url ctx
    by (simp add: send_with_retry_def send_loop_step demo_env_def retryable_def is_retryable_status_def
        reply_result_def accepted_def is_success_def)
  then show ?thesis by (simp add: list_tree_bucket_def Let_def list_pages.simps) (simp add: demo_env_def)
qed

theorem list_tree_scoped_witness:
  "list_tree xor_cipher (demo_env [''a/x'', ''ab'']) (demo_client None) ''a'' () = Some (Inr [demo_entry ''a/x''], ()) \<and>
   (\<exists>rel. strict_descendant_rel ''a/x'' ''a'' = Some rel)"
proof -
  have run: "list_tree xor_cipher (demo_env [''a/x'', ''ab'']) (demo_client None) ''a'' () = Some (Inr [demo_entry ''a/x''], ())"
    by (simp add: list_tree_def prefixed_path_def join_prefix_def demo_client_def demo_listing scope_listing_def
        decrypt_listing_def strip_entries_def strict_descendant_rel_def strip_prefix_def starts_with_def demo_entry_def)
  moreover have "rust_str (join_prefix (hc_path_prefix (demo_client None)) ''a'')"
    by (simp add: demo_client_def join_prefix_def rust_str_def utf8_valid.simps utf8_next_def u8_of_char_def)
  ultimately show ?thesis
    using list_tree_scoped [OF xor_cipher_correct _ run] by (auto simp: demo_entry_def)
qed

text \<open>What the client stores comes back: the filters keep it and the names are undone.\<close>

lemma scope_listing_keeps:
  assumes "hctr2_correct h" and "rust_str (join_prefix (hc_path_prefix hc) pre)" and "rust_str (join_prefix (hc_path_prefix hc) path)"
    and path: "path = join_prefix pre rel" "rel \<noteq> []"
    and rp: "prefixed_path h hc path = Inr rp" and rq: "prefixed_path h hc pre = Inr rq"
    and e: "e \<in> set es" "te_path e = rp_path rp"
  shows "e\<lparr>te_path := path\<rparr> \<in> set (scope_listing h hc rq es)"
proof -
  let ?pp = "hc_path_prefix hc" and ?j = "join_prefix (hc_path_prefix hc) pre" and ?q = "join_prefix (hc_path_prefix hc) path"
  have q: "?q = join_prefix ?j rel" "?q \<noteq> []" "path \<noteq> []" using path by (auto simp: join_prefix_def)
  have strip: "e\<lparr>te_path := path\<rparr> \<in> set (strip_entries hc xs)" if "x \<in> set xs" "x = e\<lparr>te_path := ?q\<rparr>" for xs x
  proof (cases "?pp = []")
    case False
    then have "strip_path_prefix hc ?q = Some path"
      using \<open>path \<noteq> []\<close> by (simp add: strip_path_prefix_def join_prefix_def strict_descendant_rel_Some)
    then show ?thesis
      using that False \<open>path \<noteq> []\<close> by (auto simp: strip_entries_def map_filter_set intro!: bexI [of _ x])
  qed (use that in \<open>auto simp: strip_entries_def join_prefix_def\<close>)
  show ?thesis
  proof (cases "hc_path_cipher hc")
    case None
    then have "rp_path rp = ?q" "rp_path rq = ?j" using rp rq by (auto simp: prefixed_path_def)
    moreover have "strict_descendant_rel ?q ?j \<noteq> None" if "?j \<noteq> []"
      using q(1) path(2) that by (simp add: join_prefix_def [of ?j] strict_descendant_rel_Some)
    ultimately show ?thesis
      unfolding scope_listing_def using e None by (intro strip [of e]) (auto simp: decrypt_listing_def)
  next
    case (Some pc)
    then obtain d where d: "encrypt_path h pc ?q = Inr d" using rp by (auto simp: prefixed_path_def split: sum.splits)
    have "d \<noteq> []" by (rule encrypt_path_nonempty [OF assms(1,3) q(2) d])
    have dec: "decrypt_path h pc d = Some ?q"
    proof -
      obtain ss where "split_on (CHR ''/'') d = ss" "decrypt_components h pc [] ss = Some (split_on (CHR ''/'') ?q)"
        using encrypt_path_components [OF assms(1,3) q(2) d] by blast
      then show ?thesis using \<open>d \<noteq> []\<close> by (auto simp: decrypt_path_def)
    qed
    have rpp: "rp_path rp = ENC_ROOT @ ''/'' @ d" using rp Some d \<open>d \<noteq> []\<close> by (auto simp: prefixed_path_def)
    obtain c where c: "encrypt_path h pc ?j = Inr c" and rqq: "rp_path rq = (if c = [] then ENC_ROOT else ENC_ROOT @ ''/'' @ c)"
      using rq Some by (auto simp: prefixed_path_def split: sum.splits)
    have "strict_descendant_rel (rp_path rp) (rp_path rq) \<noteq> None"
    proof (cases "?j = []")
      case True
      then have "c = []" using c by (simp add: encrypt_path_def)
      then show ?thesis using rpp rqq \<open>d \<noteq> []\<close> by (simp add: strict_descendant_rel_Some)
    next
      case False
      then have "encrypt_path h pc (?j @ ''/'' @ rel) = Inr d" using d q(1) path(2) by (simp add: join_prefix_def [of ?j])
      then obtain rel' where "rel' \<noteq> []" "d = c @ ''/'' @ rel'" using encrypt_below [OF assms(1,2) False c] by blast
      moreover have "c \<noteq> []" by (rule encrypt_path_nonempty [OF assms(1,2) False c])
      ultimately show ?thesis using rpp rqq by (simp add: strict_descendant_rel_Some)
    qed
    then have "e \<in> set (if rp_path rq \<noteq> [] then filter (\<lambda>e. strict_descendant_rel (te_path e) (rp_path rq) \<noteq> None) es else es)"
      using e by simp
    then show ?thesis
      unfolding scope_listing_def using e(2) rpp dec
      by (intro strip [of "e\<lparr>te_path := ?q\<rparr>"]) (auto simp: decrypt_listing_mem [OF Some] intro!: bexI [of _ e])
  qed
qed

text \<open>
  C26: what the client stores it sees again under the name it used: when a batch sends the addition of
  a file, and the server lists the stored path below the stored directory, the listing of the
  directory has the entry with the file's own path, plaintext or encrypted, in a subfolder or not.
\<close>

theorem stored_file_is_listed:
  assumes "hctr2_correct h" and "rust_str (join_prefix (hc_path_prefix hc) pre)" and "rust_str (join_prefix (hc_path_prefix hc) path)"
    and "path = join_prefix pre rel" and "rel \<noteq> []"
    and "remote_op h hc (AddFile path hash mtime ctype) = Inr (AddFile stored hash mtime ctype)"
    and "prefixed_path h hc pre = Inr rq" and "hc_source hc = Bucket bid"
    and "list_tree_bucket en hc bid rq s = Some (Inr es, s')" and "e \<in> set es" and "te_path e = stored"
  shows "\<exists>out. list_tree h en hc pre s = Some (Inr out, s') \<and> e\<lparr>te_path := path\<rparr> \<in> set out"
proof -
  obtain rp where rp: "prefixed_path h hc path = Inr rp" "rp_path rp = stored"
    using assms(6) by (cases "prefixed_path h hc path") (auto simp: remote_op_def)
  have "e\<lparr>te_path := path\<rparr> \<in> set (scope_listing h hc rq es)"
    using scope_listing_keeps [OF assms(1-5) rp(1) assms(7,10)] rp(2) assms(11) by simp
  then show ?thesis using assms(7-9) by (simp add: list_tree_def)
qed

theorem stored_file_is_listed_witness:
  "\<exists>stored out. remote_op xor_cipher (demo_client (Some \<lparr>path_key = [1, 2]\<rparr>)) (AddFile ''d/f'' ''h'' 0 None) =
      Inr (AddFile stored ''h'' 0 None) \<and>
    list_tree xor_cipher (demo_env [stored]) (demo_client (Some \<lparr>path_key = [1, 2]\<rparr>)) ''d'' () = Some (Inr out, ()) \<and>
    demo_entry ''d/f'' \<in> set out"
proof -
  let ?pc = "\<lparr>path_key = [1, 2]\<rparr>" and ?hc = "demo_client (Some \<lparr>path_key = [1, 2]\<rparr>)"
  have "\<exists>ss. encrypt_components xor_cipher ?pc [] [''d'', ''f''] = Inr ss"
    by (subst encrypt_components_Inr_iff [OF xor_cipher_correct]) (simp add: valid_name_def u8_of_char_def)
  then obtain rp where rp: "prefixed_path xor_cipher ?hc ''d/f'' = Inr rp"
    by (auto simp: prefixed_path_def demo_client_def join_prefix_def encrypt_path_def)
  then have op: "remote_op xor_cipher ?hc (AddFile ''d/f'' ''h'' 0 None) = Inr (AddFile (rp_path rp) ''h'' 0 None)"
    by (simp add: remote_op_def)
  have "\<exists>ss. encrypt_components xor_cipher ?pc [] [''d''] = Inr ss"
    by (subst encrypt_components_Inr_iff [OF xor_cipher_correct]) (simp add: valid_name_def u8_of_char_def)
  then obtain rq where rq: "prefixed_path xor_cipher ?hc ''d'' = Inr rq"
    by (auto simp: prefixed_path_def demo_client_def join_prefix_def encrypt_path_def)
  have str: "rust_str (join_prefix (hc_path_prefix ?hc) ''d'')" "rust_str (join_prefix (hc_path_prefix ?hc) ''d/f'')"
    by (simp_all add: demo_client_def join_prefix_def rust_str_def utf8_valid.simps utf8_next_def u8_of_char_def)
  have "\<exists>out. list_tree xor_cipher (demo_env [rp_path rp]) ?hc ''d'' () = Some (Inr out, ()) \<and>
      (demo_entry (rp_path rp))\<lparr>te_path := ''d/f''\<rparr> \<in> set out"
    by (rule stored_file_is_listed [OF xor_cipher_correct str _ _ op rq _ demo_listing, where rel = "''f''"])
      (simp_all add: join_prefix_def demo_client_def demo_entry_def)
  then show ?thesis using op by (auto simp: demo_entry_def)
qed

end
