(* ===== verification/Prefetch.thy ===== *)
theory Prefetch
  imports Prelude
begin

text \<open>
  \<open>src/src/virtual_fs/prefetch.rs\<close>: the read-ahead buffer of a lazily read file, with its
  backward seek window, and the two functions of \<open>src/src/virtual_fs/mod.rs\<close> that drive it
  (\<open>fetch_data\<close> and the remote branch of \<open>read\<close>).

  A download stream is the list of what its \<open>next\<close> will answer, its end being the end of the
  stream; \<open>opens n cursor stop\<close> is the answer of the \<open>n\<close>-th attempt to open one.  Subtraction
  below zero, which panics in the code, is the answer \<open>None\<close> of \<open>prepare_fetch\<close>.
\<close>

section \<open>Model\<close>

definition INITIAL_WINDOW :: nat where
  "INITIAL_WINDOW = 8 * 1048576"

definition MAX_WINDOW :: nat where
  "MAX_WINDOW = 128 * 1048576"

definition SEEK_WINDOW :: nat where
  "SEEK_WINDOW = 1048576"

definition FORWARD_SKIP :: nat where
  "FORWARD_SKIP = 16 * 1048576"

datatype fetch_strategy = StartStream | ContinueStream | RangeDownload

definition is_stream :: "fetch_strategy \<Rightarrow> bool" where
  "is_stream s \<longleftrightarrow> s = StartStream \<or> s = ContinueStream"

record fetch_plan =
  fp_strategy :: fetch_strategy
  fp_fetch_size :: nat

datatype stream_item = Chunk bytes | Broken

type_synonym stream = "stream_item list"

record prefetch_state =
  ps_xet_hash :: string
  ps_file_size :: nat
  ps_chunks :: "bytes list"
  ps_chunks_len :: nat
  ps_front_offset :: nat
  ps_buf_start :: nat
  ps_seek_data :: bytes
  ps_seek_start :: nat
  ps_window_size :: nat
  ps_stream :: "stream option"
  ps_forward_only :: bool

definition prefetch_new :: "string \<Rightarrow> nat \<Rightarrow> bool \<Rightarrow> prefetch_state" where
  "prefetch_new hash fsize fwd =
    \<lparr>ps_xet_hash = hash, ps_file_size = fsize, ps_chunks = [], ps_chunks_len = 0, ps_front_offset = 0,
     ps_buf_start = 0, ps_seek_data = [], ps_seek_start = 0, ps_window_size = INITIAL_WINDOW,
     ps_stream = None, ps_forward_only = fwd\<rparr>"

subsection \<open>Reading across chunks\<close>

fun gather :: "nat \<Rightarrow> bytes list \<Rightarrow> bytes" where
  "gather remaining [] = []"
| "gather remaining (c # cs) =
    (let n = min remaining (length c)
     in take n c @ (if remaining - n = 0 then [] else gather (remaining - n) cs))"

fun read_chunks :: "nat \<Rightarrow> nat \<Rightarrow> nat \<Rightarrow> bytes list \<Rightarrow> bytes" where
  "read_chunks start logical_off cnt [] = []"
| "read_chunks start logical_off cnt (c # cs) =
    (let eff = length c - start
     in if logical_off < eff
        then (let chunk_start = start + logical_off; chunk_avail = length c - chunk_start
              in if cnt \<le> chunk_avail then take cnt (drop chunk_start c)
                 else drop chunk_start c @ gather (cnt - chunk_avail) cs)
        else read_chunks 0 (logical_off - eff) cnt cs)"

definition read_chunk_range :: "bytes list \<Rightarrow> nat \<Rightarrow> nat \<Rightarrow> nat \<Rightarrow> bytes" where
  "read_chunk_range chunks front_offset skip cnt = (if cnt = 0 then [] else read_chunks front_offset skip cnt chunks)"

subsection \<open>The seek window\<close>

definition copy_chunks_to_seek :: "nat \<Rightarrow> nat \<Rightarrow> prefetch_state \<Rightarrow> prefetch_state" where
  "copy_chunks_to_seek skip cnt ps =
    ps\<lparr>ps_seek_data := ps_seek_data ps @ read_chunk_range (ps_chunks ps) (ps_front_offset ps) skip cnt\<rparr>"

text \<open>The chunks, their length and the offset into the first one, after some bytes were consumed.\<close>

fun pop_consumed :: "nat \<Rightarrow> bytes list \<Rightarrow> nat \<Rightarrow> nat \<Rightarrow> bytes list \<times> nat \<times> nat" where
  "pop_consumed remaining [] len front = ([], len, front)"
| "pop_consumed remaining (c # cs) len front =
    (if remaining = 0 then (c # cs, len, front)
     else (let eff = length c - front
           in if remaining \<ge> eff then pop_consumed (remaining - eff) cs (len - eff) 0
              else (c # cs, len - remaining, front + remaining)))"

definition fill_seek :: "nat \<Rightarrow> prefetch_state \<Rightarrow> prefetch_state" where
  "fill_seek to_move ps =
    (let seek_end = ps_seek_start ps + length (ps_seek_data ps);
         contiguous = (ps_seek_data ps = [] \<or> seek_end = ps_buf_start ps)
     in if contiguous \<and> to_move \<le> SEEK_WINDOW
        then (let ps1 = copy_chunks_to_seek 0 to_move ps
              in if length (ps_seek_data ps1) > SEEK_WINDOW
                 then (let excess = length (ps_seek_data ps1) - SEEK_WINDOW
                       in ps1\<lparr>ps_seek_data := drop excess (ps_seek_data ps1), ps_seek_start := ps_seek_start ps1 + excess\<rparr>)
                 else ps1)
        else (let keep = min to_move SEEK_WINDOW
              in copy_chunks_to_seek (to_move - keep) keep
                   (ps\<lparr>ps_seek_data := [], ps_seek_start := ps_buf_start ps + (to_move - keep)\<rparr>)))"

definition drain_to_seek :: "nat \<Rightarrow> prefetch_state \<Rightarrow> prefetch_state" where
  "drain_to_seek consumed ps =
    (if consumed = 0 then ps
     else (let to_move = min consumed (ps_chunks_len ps);
               ps1 = (if ps_forward_only ps then ps else fill_seek to_move ps)
           in case pop_consumed to_move (ps_chunks ps1) (ps_chunks_len ps1) (ps_front_offset ps1) of
                (chunks, len, front) \<Rightarrow>
                  ps1\<lparr>ps_chunks := chunks, ps_chunks_len := len, ps_front_offset := front,
                      ps_buf_start := ps_buf_start ps1 + to_move\<rparr>))"

subsection \<open>Planning a fetch and serving reads\<close>

definition prepare_fetch :: "nat \<Rightarrow> nat \<Rightarrow> prefetch_state \<Rightarrow> (fetch_plan \<times> prefetch_state) option" where
  "prepare_fetch offset n ps =
    (let old_buf_end = ps_buf_start ps + ps_chunks_len ps;
         is_first_fetch = (ps_chunks_len ps = 0 \<and> ps_buf_start ps = 0);
         ps1 = (if ps_chunks_len ps > 0
                then drain_to_seek (if offset \<ge> ps_buf_start ps then ps_chunks_len ps else 0) ps else ps);
         near = (offset \<ge> old_buf_end \<and> offset \<le> old_buf_end + FORWARD_SKIP);
         window = (if is_first_fetch then ps_window_size ps1
                   else if near then min (ps_window_size ps1 * 2) MAX_WINDOW
                   else INITIAL_WINDOW);
         is_sequential = (is_first_fetch \<or> near);
         contiguous = (is_sequential \<and> offset = ps_buf_start ps1);
         strategy =
           (if is_sequential
            then (if contiguous
                  then (if ps_stream ps1 = None \<and> is_first_fetch \<and> offset = 0 then StartStream else ContinueStream)
                  else StartStream)
            else RangeDownload);
         stream = (if contiguous then ps_stream ps1 else None);
         ps2 = ps1\<lparr>ps_window_size := window, ps_stream := stream\<rparr>
     in if ps_file_size ps2 < offset then None
        else (let needed = min n (ps_file_size ps2 - offset);
                  fetch_size = min (if strategy = RangeDownload then needed else max needed (ps_window_size ps2))
                                 (ps_file_size ps2 - offset)
              in Some (\<lparr>fp_strategy = strategy, fp_fetch_size = fetch_size\<rparr>, ps2)))"

definition store_fetched :: "nat \<Rightarrow> bytes list \<Rightarrow> nat \<Rightarrow> prefetch_state \<Rightarrow> prefetch_state" where
  "store_fetched offset chunks n ps =
    ps\<lparr>ps_chunks := chunks, ps_chunks_len := n, ps_front_offset := 0, ps_buf_start := offset\<rparr>"

definition try_serve_forward :: "nat \<Rightarrow> nat \<Rightarrow> prefetch_state \<Rightarrow> bytes option \<times> prefetch_state" where
  "try_serve_forward offset n ps =
    (let buf_end = ps_buf_start ps + ps_chunks_len ps
     in if ps_chunks_len ps = 0 \<or> offset < ps_buf_start ps \<or> offset \<ge> buf_end then (None, ps)
        else (let logical_off = offset - ps_buf_start ps;
                  to_read = min n (ps_chunks_len ps - logical_off);
                  data = read_chunk_range (ps_chunks ps) (ps_front_offset ps) logical_off to_read
              in (Some data, if ps_forward_only ps \<and> to_read > 0 then drain_to_seek (logical_off + to_read) ps else ps)))"

definition try_serve_seek :: "nat \<Rightarrow> nat \<Rightarrow> prefetch_state \<Rightarrow> bytes option" where
  "try_serve_seek offset n ps =
    (if ps_forward_only ps \<or> ps_seek_data ps = [] then None
     else if offset \<ge> ps_seek_start ps \<and> offset < ps_seek_start ps + length (ps_seek_data ps)
     then (let local_off = offset - ps_seek_start ps;
               to_read = min n (length (ps_seek_data ps) - local_off)
           in Some (take to_read (drop local_off (ps_seek_data ps))))
     else None)"

subsection \<open>Fetching\<close>

definition PREFETCH_MAX_ATTEMPTS :: nat where
  "PREFETCH_MAX_ATTEMPTS = 3"

text \<open>
  The chunk loop of \<open>fetch_data\<close>: the chunks, their total, whether the stream failed, whether it
  ended, and what is left of it.  A timeout of \<open>next\<close> is a \<open>Broken\<close> like a read error.
\<close>

fun pull :: "nat \<Rightarrow> stream \<Rightarrow> bytes list \<Rightarrow> nat \<Rightarrow> bytes list \<times> nat \<times> bool \<times> bool \<times> stream" where
  "pull fetch_size [] chunks n =
    (if n < fetch_size then (chunks, n, False, True, []) else (chunks, n, False, False, []))"
| "pull fetch_size (it # s) chunks n =
    (if n < fetch_size
     then (case it of
            Chunk c \<Rightarrow> pull fetch_size s (chunks @ [c]) (n + length c)
          | Broken \<Rightarrow> (chunks, n, True, False, s))
     else (chunks, n, False, False, it # s))"

type_synonym opens = "nat \<Rightarrow> nat \<Rightarrow> nat option \<Rightarrow> stream option"

fun prefetch_attempts ::
  "nat \<Rightarrow> opens \<Rightarrow> nat \<Rightarrow> fetch_plan \<Rightarrow> stream option \<Rightarrow> nat \<Rightarrow> prefetch_state \<Rightarrow>
   (int + bytes list \<times> nat) \<times> nat \<times> prefetch_state" where
  "prefetch_attempts 0 opens cursor plan first_stream k ps = (Inl EIO, k, ps)"
| "prefetch_attempts (Suc a) opens cursor plan first_stream k ps =
    (let stop = (if fp_strategy plan = RangeDownload then Some (cursor + fp_fetch_size plan) else None);
         (got, k1) = (case first_stream of Some s \<Rightarrow> (Some s, k) | None \<Rightarrow> (opens k cursor stop, k + 1))
     in case got of
          None \<Rightarrow> prefetch_attempts a opens cursor plan None k1 ps
        | Some s \<Rightarrow>
            (case pull (fp_fetch_size plan) s [] 0 of (chunks, n, failed, eof, rest) \<Rightarrow>
              let ps1 = (if eof \<and> n > 0 then ps
                         else if is_stream (fp_strategy plan) \<and> \<not> failed then ps\<lparr>ps_stream := Some rest\<rparr> else ps)
              in if n > 0 then (Inr (chunks, n), k1, ps1)
                 else prefetch_attempts a opens cursor plan None k1 ps1))"

definition fetch_data ::
  "opens \<Rightarrow> nat \<Rightarrow> fetch_plan \<Rightarrow> nat \<Rightarrow> prefetch_state \<Rightarrow> (int + bytes list \<times> nat) \<times> nat \<times> prefetch_state" where
  "fetch_data opens cursor plan k ps =
    (if is_stream (fp_strategy plan)
     then prefetch_attempts PREFETCH_MAX_ATTEMPTS opens cursor plan (ps_stream ps) k (ps\<lparr>ps_stream := None\<rparr>)
     else prefetch_attempts PREFETCH_MAX_ATTEMPTS opens cursor plan None k ps)"

text \<open>The assembly loop: \<open>None\<close> is a loop that does not end or a panic.\<close>

partial_function (option) assemble ::
  "opens \<Rightarrow> nat \<Rightarrow> bytes \<Rightarrow> nat \<Rightarrow> nat \<Rightarrow> prefetch_state \<Rightarrow> ((int + bytes \<times> nat) \<times> nat \<times> prefetch_state) option" where
  "assemble opens to_read response cursor k ps =
    (if length response < to_read
     then Option.bind (prepare_fetch cursor (to_read - length response) ps) (\<lambda>(plan, ps1).
            case fetch_data opens cursor plan k ps1 of
              (Inl e, k1, ps2) \<Rightarrow> Some (Inl e, k1, ps2)
            | (Inr (chunks, n), k1, ps2) \<Rightarrow>
                (case try_serve_forward cursor (to_read - length response) (store_fetched cursor chunks n ps2) of
                  (Some data, ps3) \<Rightarrow> assemble opens to_read (response @ data) (cursor + length data) k1 ps3
                | (None, ps3) \<Rightarrow> assemble opens to_read response cursor k1 ps3))
     else Some (Inr (response, cursor), k, ps))"

text \<open>The remote branch of \<open>read\<close>: the bytes and the end-of-file flag, or an error number.\<close>

definition prefetch_read ::
  "opens \<Rightarrow> nat \<Rightarrow> nat \<Rightarrow> nat \<times> prefetch_state \<Rightarrow> ((int + bytes \<times> bool) \<times> nat \<times> prefetch_state) option" where
  "prefetch_read opens offset n st =
    (case st of (k, ps) \<Rightarrow>
      let fsize = ps_file_size ps
      in if offset \<ge> fsize then Some (Inr ([], True), k, ps)
         else (let to_read = min n (fsize - offset);
                   (served, ps1) = (case try_serve_forward offset n ps of
                       (Some data, ps') \<Rightarrow> (Some data, ps')
                     | (None, ps') \<Rightarrow> (try_serve_seek offset n ps', ps'));
                   response = (case served of Some data \<Rightarrow> data | None \<Rightarrow> [])
               in if served \<noteq> None \<and> length response = to_read
                  then Some (Inr (response, offset + length response \<ge> fsize), k, ps1)
                  else map_option (\<lambda>(r, k', ps').
                         (case r of Inl e \<Rightarrow> Inl e | Inr (data, cursor) \<Rightarrow> Inr (data, cursor = fsize), k', ps'))
                       (assemble opens to_read response (offset + length response) k ps1)))"

end
