(* ===== verification/Prefetch_Safety.thy ===== *)
theory Prefetch_Safety
  imports Prefetch
begin

text \<open>
  The prefetch buffer refines reading the file: on a handle whose first read was at offset 0, or one
  opened forward-only, every read that does not fail returns exactly the requested bytes, however the
  downloads are cut into chunks, end early or break.  On any other handle it can return wrong bytes.
\<close>

section \<open>Chunks as one byte sequence\<close>

definition front_ok :: "nat \<Rightarrow> bytes list \<Rightarrow> bool" where
  "front_ok front chunks = (case chunks of [] \<Rightarrow> front = 0 | c # _ \<Rightarrow> front \<le> length c)"

lemma front_ok_simps [simp]:
  "front_ok front [] \<longleftrightarrow> front = 0" "front_ok front (c # cs) \<longleftrightarrow> front \<le> length c" "front_ok 0 cs"
  by (simp_all add: front_ok_def split: list.split)

lemma gather_take: "gather n cs = take n (concat cs)"
  by (induction n cs rule: gather.induct) (auto simp: Let_def min_def)

lemma read_chunks_slice:
  "front_ok start cs \<Longrightarrow> read_chunks start off n cs = take n (drop off (drop start (concat cs)))"
proof (induction cs arbitrary: start off)
  case (Cons c cs)
  let ?eff = "length c - start"
  have st: "start \<le> length c" using Cons.prems by simp
  have d: "drop start (concat (c # cs)) = drop start c @ concat cs" using st by simp
  show ?case
  proof (cases "off < ?eff")
    case True
    then have "drop off (drop start (concat (c # cs))) = drop (start + off) c @ concat cs"
      unfolding d by (simp add: add.commute)
    then show ?thesis using True by (auto simp: Let_def gather_take)
  next
    case False
    then have "drop off (drop start (concat (c # cs))) = drop (off - ?eff) (concat cs)"
      unfolding d by simp
    then show ?thesis using False Cons.IH [of 0 "off - ?eff"] by (simp add: Let_def)
  qed
qed simp

lemma read_chunk_range_slice:
  "front_ok start cs \<Longrightarrow> read_chunk_range cs start off n = take n (drop off (drop start (concat cs)))"
  by (simp add: read_chunk_range_def read_chunks_slice)

lemma pop_consumed_drop:
  assumes "front_ok front cs" and "n \<le> length (drop front (concat cs))" and "pop_consumed n cs len front = (cs', len', front')"
  shows "front_ok front' cs' \<and> drop front' (concat cs') = drop n (drop front (concat cs)) \<and> len' = len - n"
  using assms
proof (induction n cs len front rule: pop_consumed.induct)
  case (2 n c cs len front)
  have front: "front \<le> length c" using "2.prems"(1) by simp
  then have d: "drop front (concat (c # cs)) = drop front c @ concat cs" by simp
  show ?case
  proof (cases "n = 0 \<or> n < length c - front")
    case True
    then show ?thesis using "2.prems"(3) front by (auto simp: Let_def add.commute split: if_splits)
  next
    case False
    let ?eff = "length c - front"
    have "pop_consumed (n - ?eff) cs (len - ?eff) 0 = (cs', len', front')"
      using False "2.prems"(3) by (simp add: Let_def)
    moreover have "n - ?eff \<le> length (drop 0 (concat cs))" using False "2.prems"(2) front by simp
    ultimately have "front_ok front' cs' \<and> drop front' (concat cs') = drop (n - ?eff) (drop 0 (concat cs)) \<and>
        len' = (len - ?eff) - (n - ?eff)"
      using "2.IH" [OF _ refl] False by simp
    moreover have "(len - ?eff) - (n - ?eff) = len - n" using False by simp
    moreover have "drop n (drop front c @ concat cs) = drop (n - ?eff) (concat cs)" using False by auto
    ultimately show ?thesis unfolding d by simp
  qed
qed auto

section \<open>Windows of the file\<close>

text \<open>\<open>data\<close> are the bytes of the file from \<open>start\<close> on.\<close>

definition window :: "bytes \<Rightarrow> nat \<Rightarrow> bytes \<Rightarrow> bool" where
  "window content start data \<longleftrightarrow> start + length data \<le> length content \<and> data = take (length data) (drop start content)"

lemma window_Nil [simp]: "window content s [] \<longleftrightarrow> s \<le> length content"
  by (simp add: window_def)

lemma window_bound: "window content s d \<Longrightarrow> s + length d \<le> length content"
  by (simp add: window_def)

lemma window_append [simp]:
  "window content s (a @ b) \<longleftrightarrow> window content s a \<and> window content (s + length a) b"
proof -
  have "take (length a + length b) (drop s content) = take (length a) (drop s content) @ take (length b) (drop (s + length a) content)"
    by (simp add: take_add add.commute)
  then show ?thesis
    unfolding window_def by (auto simp: append_eq_append_conv)
qed

lemma window_take: "window content s d \<Longrightarrow> window content s (take n d)"
  by (metis append_take_drop_id window_append)

lemma window_drop: "window content s d \<Longrightarrow> n \<le> length d \<Longrightarrow> window content (s + n) (drop n d)"
  by (metis append_take_drop_id length_take min.absorb2 window_append)

lemma window_slice:
  assumes "window content s d" and "off \<le> length d"
  shows "take n (drop off d) = take (min n (length d - off)) (drop (s + off) content)"
proof -
  have "window content (s + off) (take n (drop off d))" by (intro window_take window_drop assms)
  moreover have "length (take n (drop off d)) = min n (length d - off)" by (simp add: min.commute)
  ultimately show ?thesis unfolding window_def by metis
qed

section \<open>The invariant\<close>

definition flat :: "prefetch_state \<Rightarrow> bytes" where
  "flat ps = drop (ps_front_offset ps) (concat (ps_chunks ps))"

text \<open>The next answers of a download stream that stands at \<open>pos\<close>.\<close>

fun delivers :: "bytes \<Rightarrow> nat \<Rightarrow> stream \<Rightarrow> bool" where
  "delivers content pos [] = True"
| "delivers content pos (Chunk c # s) = (window content pos c \<and> delivers content (pos + length c) s)"
| "delivers content pos (Broken # s) = True"

definition forward_ok :: "bytes \<Rightarrow> prefetch_state \<Rightarrow> bool" where
  "forward_ok content ps \<longleftrightarrow> front_ok (ps_front_offset ps) (ps_chunks ps) \<and> ps_chunks_len ps = length (flat ps) \<and>
     window content (ps_buf_start ps) (flat ps)"

definition seek_ok :: "bytes \<Rightarrow> prefetch_state \<Rightarrow> bool" where
  "seek_ok content ps \<longleftrightarrow> window content (ps_seek_start ps) (ps_seek_data ps) \<and> length (ps_seek_data ps) \<le> SEEK_WINDOW"

definition prefetch_ok :: "bytes \<Rightarrow> prefetch_state \<Rightarrow> bool" where
  "prefetch_ok content ps \<longleftrightarrow> ps_file_size ps = length content \<and> forward_ok content ps \<and>
     (\<forall>s. ps_stream ps = Some s \<longrightarrow> delivers content (ps_buf_start ps + ps_chunks_len ps) s) \<and>
     (\<not> ps_forward_only ps \<longrightarrow> seek_ok content ps)"

text \<open>The seek window has been filled, or its start is where the buffer starts.\<close>

definition anchored :: "prefetch_state \<Rightarrow> bool" where
  "anchored ps \<longleftrightarrow> ps_forward_only ps \<or> ps_seek_data ps \<noteq> [] \<or> (ps_buf_start ps = 0 \<and> ps_seek_start ps = 0)"

definition opens_ok :: "bytes \<Rightarrow> opens \<Rightarrow> bool" where
  "opens_ok content opens \<longleftrightarrow> (\<forall>k cursor stop s. opens k cursor stop = Some s \<longrightarrow> delivers content cursor s)"

lemma prefetch_new_ok: "prefetch_ok content (prefetch_new hash (length content) fwd)"
  by (simp add: prefetch_ok_def prefetch_new_def forward_ok_def seek_ok_def flat_def)

section \<open>The seek window\<close>

lemma fill_seek_ok:
  assumes f: "forward_ok content ps" and s: "seek_ok content ps" and a: "anchored ps" "\<not> ps_forward_only ps"
    and n: "0 < n" "n \<le> ps_chunks_len ps"
  shows "seek_ok content (fill_seek n ps) \<and> ps_seek_data (fill_seek n ps) \<noteq> [] \<and>
    (\<exists>d k. fill_seek n ps = ps\<lparr>ps_seek_data := d, ps_seek_start := k\<rparr>)"
proof -
  have front: "front_ok (ps_front_offset ps) (ps_chunks ps)" and len: "ps_chunks_len ps = length (flat ps)"
    and w: "window content (ps_buf_start ps) (flat ps)" using f by (auto simp: forward_ok_def)
  have rd: "read_chunk_range (ps_chunks ps) (ps_front_offset ps) k m = take m (drop k (flat ps))" for k m
    using read_chunk_range_slice [OF front] by (simp add: flat_def)
  let ?all = "ps_seek_data ps @ take n (flat ps)" and ?excess = "length (ps_seek_data ps) + n - SEEK_WINDOW"
  show ?thesis
  proof (cases "(ps_seek_data ps = [] \<or> ps_seek_start ps + length (ps_seek_data ps) = ps_buf_start ps) \<and> n \<le> SEEK_WINDOW")
    case True
    then have stop: "ps_seek_start ps + length (ps_seek_data ps) = ps_buf_start ps"
      using a by (auto simp: anchored_def)
    have "window content (ps_seek_start ps) ?all"
      using s window_take [OF w, of n] by (simp add: seek_ok_def stop)
    have l: "length ?all = length (ps_seek_data ps) + n" using n(2) len by simp
    define D where "D = drop ?excess ?all"
    have "window content (ps_seek_start ps + ?excess) D"
      unfolding D_def using \<open>window content (ps_seek_start ps) ?all\<close> l by (intro window_drop) simp_all
    moreover have "fill_seek n ps = ps\<lparr>ps_seek_data := D, ps_seek_start := ps_seek_start ps + ?excess\<rparr>"
      using True l unfolding D_def by (auto simp: fill_seek_def copy_chunks_to_seek_def rd Let_def)
    moreover have "length D = length (ps_seek_data ps) + n - ?excess" unfolding D_def length_drop l ..
    then have "0 < length D" "length D \<le> SEEK_WINDOW" using n(1) by (simp_all add: SEEK_WINDOW_def)
    ultimately show ?thesis by (simp add: seek_ok_def) blast
  next
    case False
    let ?keep = "min n SEEK_WINDOW"
    define D where "D = take ?keep (drop (n - ?keep) (flat ps))"
    have "fill_seek n ps = ps\<lparr>ps_seek_data := D, ps_seek_start := ps_buf_start ps + (n - ?keep)\<rparr>"
      unfolding fill_seek_def Let_def if_not_P [OF False] D_def by (simp add: copy_chunks_to_seek_def rd)
    moreover have "window content (ps_buf_start ps + (n - ?keep)) D"
      unfolding D_def using n(2) len by (intro window_take window_drop [OF w]) simp
    moreover have "length D = ?keep" unfolding D_def using n len by auto
    then have "0 < length D" "length D \<le> SEEK_WINDOW" using n(1) by (simp_all add: SEEK_WINDOW_def)
    ultimately show ?thesis by (simp add: seek_ok_def) blast
  qed
qed

lemma drain_ok:
  assumes f: "forward_ok content ps" and s: "\<not> ps_forward_only ps \<Longrightarrow> seek_ok content ps \<and> anchored ps"
    and n: "0 < n" "n \<le> ps_chunks_len ps"
  shows "forward_ok content (drain_to_seek n ps) \<and>
    (\<not> ps_forward_only ps \<longrightarrow> seek_ok content (drain_to_seek n ps) \<and> ps_seek_data (drain_to_seek n ps) \<noteq> []) \<and>
    (\<exists>cs fr d k. drain_to_seek n ps = ps\<lparr>ps_chunks := cs, ps_chunks_len := ps_chunks_len ps - n, ps_front_offset := fr,
       ps_buf_start := ps_buf_start ps + n, ps_seek_data := d, ps_seek_start := k\<rparr>)"
proof -
  define ps1 where "ps1 = (if ps_forward_only ps then ps else fill_seek n ps)"
  have ps1: "(\<not> ps_forward_only ps \<longrightarrow> seek_ok content ps1 \<and> ps_seek_data ps1 \<noteq> []) \<and>
      (\<exists>d k. ps1 = ps\<lparr>ps_seek_data := d, ps_seek_start := k\<rparr>)"
  proof (cases "ps_forward_only ps")
    case True
    have "ps = ps\<lparr>ps_seek_data := ps_seek_data ps, ps_seek_start := ps_seek_start ps\<rparr>" by simp
    then show ?thesis using True unfolding ps1_def by metis
  next
    case False
    then show ?thesis using fill_seek_ok [OF f _ _ False n] s unfolding ps1_def by simp
  qed
  obtain cs len fr where pop: "pop_consumed n (ps_chunks ps) (ps_chunks_len ps) (ps_front_offset ps) = (cs, len, fr)"
    by (cases "pop_consumed n (ps_chunks ps) (ps_chunks_len ps) (ps_front_offset ps)")
  have w: "window content (ps_buf_start ps) (flat ps)" and len: "ps_chunks_len ps = length (flat ps)" using f by (auto simp: forward_ok_def)
  have pd: "front_ok fr cs \<and> drop fr (concat cs) = drop n (flat ps) \<and> len = ps_chunks_len ps - n"
    using pop_consumed_drop [OF _ _ pop] f n(2) by (simp add: forward_ok_def flat_def)
  have d: "drain_to_seek n ps = ps1\<lparr>ps_chunks := cs, ps_chunks_len := len, ps_front_offset := fr, ps_buf_start := ps_buf_start ps + n\<rparr>"
    using n pop ps1 by (auto simp: drain_to_seek_def ps1_def [symmetric] min_def)
  have "forward_ok content (drain_to_seek n ps)"
    using pd window_drop [OF w, of n] n(2) len unfolding d by (simp add: forward_ok_def flat_def)
  moreover from ps1 obtain e k where "ps1 = ps\<lparr>ps_seek_data := e, ps_seek_start := k\<rparr>" by blast
  then have "drain_to_seek n ps = ps\<lparr>ps_chunks := cs, ps_chunks_len := ps_chunks_len ps - n, ps_front_offset := fr,
       ps_buf_start := ps_buf_start ps + n, ps_seek_data := e, ps_seek_start := k\<rparr>"
    using pd unfolding d by simp
  moreover have "ps_seek_data (drain_to_seek n ps) = ps_seek_data ps1" "ps_seek_start (drain_to_seek n ps) = ps_seek_start ps1"
    unfolding d by simp_all
  ultimately show ?thesis using ps1 by (auto simp: seek_ok_def)
qed

section \<open>Serving and fetching\<close>

lemma drain_anchored:
  assumes ok: "prefetch_ok content ps" and a: "anchored ps" and n: "0 < n" "n \<le> ps_chunks_len ps"
  shows "prefetch_ok content (drain_to_seek n ps)" "anchored (drain_to_seek n ps)"
    "ps_chunks_len (drain_to_seek n ps) = ps_chunks_len ps - n" "ps_buf_start (drain_to_seek n ps) = ps_buf_start ps + n"
    "ps_stream (drain_to_seek n ps) = ps_stream ps" "ps_file_size (drain_to_seek n ps) = ps_file_size ps"
    "ps_window_size (drain_to_seek n ps) = ps_window_size ps" "ps_forward_only (drain_to_seek n ps) = ps_forward_only ps"
    "\<not> ps_forward_only ps \<Longrightarrow> ps_seek_data (drain_to_seek n ps) \<noteq> []"
proof -
  have d: "forward_ok content (drain_to_seek n ps) \<and>
    (\<not> ps_forward_only ps \<longrightarrow> seek_ok content (drain_to_seek n ps) \<and> ps_seek_data (drain_to_seek n ps) \<noteq> []) \<and>
    (\<exists>cs fr d k. drain_to_seek n ps = ps\<lparr>ps_chunks := cs, ps_chunks_len := ps_chunks_len ps - n, ps_front_offset := fr,
       ps_buf_start := ps_buf_start ps + n, ps_seek_data := d, ps_seek_start := k\<rparr>)"
    using ok a n by (intro drain_ok) (auto simp: prefetch_ok_def)
  then obtain cs fr e k where e: "drain_to_seek n ps = ps\<lparr>ps_chunks := cs, ps_chunks_len := ps_chunks_len ps - n,
      ps_front_offset := fr, ps_buf_start := ps_buf_start ps + n, ps_seek_data := e, ps_seek_start := k\<rparr>" by blast
  show f: "ps_chunks_len (drain_to_seek n ps) = ps_chunks_len ps - n" "ps_buf_start (drain_to_seek n ps) = ps_buf_start ps + n"
    "ps_stream (drain_to_seek n ps) = ps_stream ps" "ps_file_size (drain_to_seek n ps) = ps_file_size ps"
    "ps_window_size (drain_to_seek n ps) = ps_window_size ps" "ps_forward_only (drain_to_seek n ps) = ps_forward_only ps"
    by (simp_all add: e)
  show "\<not> ps_forward_only ps \<Longrightarrow> ps_seek_data (drain_to_seek n ps) \<noteq> []" using d by blast
  then show "anchored (drain_to_seek n ps)" using f(6) by (auto simp: anchored_def)
  show "prefetch_ok content (drain_to_seek n ps)" using d ok n(2) f by (simp add: prefetch_ok_def)
qed

lemma forward_slice:
  assumes ok: "prefetch_ok content ps" and r: "ps_buf_start ps \<le> offset" "offset \<le> ps_buf_start ps + ps_chunks_len ps"
  shows "read_chunk_range (ps_chunks ps) (ps_front_offset ps) (offset - ps_buf_start ps) n =
    take (min n (ps_buf_start ps + ps_chunks_len ps - offset)) (drop offset content)"
proof -
  have f: "front_ok (ps_front_offset ps) (ps_chunks ps)" "window content (ps_buf_start ps) (flat ps)" "ps_chunks_len ps = length (flat ps)"
    using ok by (auto simp: prefetch_ok_def forward_ok_def)
  have "take n (drop (offset - ps_buf_start ps) (flat ps)) =
      take (min n (length (flat ps) - (offset - ps_buf_start ps))) (drop (ps_buf_start ps + (offset - ps_buf_start ps)) content)"
    by (rule window_slice [OF f(2)]) (use r f(3) in simp)
  moreover have "read_chunk_range (ps_chunks ps) (ps_front_offset ps) (offset - ps_buf_start ps) n =
      take n (drop (offset - ps_buf_start ps) (flat ps))"
    unfolding flat_def by (rule read_chunk_range_slice [OF f(1)])
  ultimately show ?thesis using r f(3) by (simp add: add.commute)
qed

lemma serve_forward:
  assumes ok: "prefetch_ok content ps" and a: "anchored ps" and r: "try_serve_forward offset n ps = (d, ps')"
  shows "prefetch_ok content ps' \<and> anchored ps' \<and> ps_forward_only ps' = ps_forward_only ps \<and>
    (ps_forward_only ps \<or> ps' = ps) \<and>
    d = (if ps_buf_start ps \<le> offset \<and> offset < ps_buf_start ps + ps_chunks_len ps
      then Some (take (min n (ps_buf_start ps + ps_chunks_len ps - offset)) (drop offset content)) else None)"
proof (cases "ps_chunks_len ps = 0 \<or> offset < ps_buf_start ps \<or> offset \<ge> ps_buf_start ps + ps_chunks_len ps")
  case True
  then show ?thesis using r ok a by (auto simp: try_serve_forward_def)
next
  case False
  let ?off = "offset - ps_buf_start ps" and ?n = "min n (ps_chunks_len ps - (offset - ps_buf_start ps))"
  have n: "?off + ?n \<le> ps_chunks_len ps" using False by auto
  have eq: "ps_chunks_len ps - ?off = ps_buf_start ps + ps_chunks_len ps - offset" using False by simp
  have d: "d = Some (take ?n (drop offset content))"
    using r False forward_slice [OF ok, of offset ?n] by (auto simp: try_serve_forward_def Let_def eq)
  have p: "ps' = (if ps_forward_only ps \<and> ?n > 0 then drain_to_seek (?off + ?n) ps else ps)"
    using r False by (auto simp: try_serve_forward_def Let_def)
  show ?thesis
    using d p False ok a drain_anchored(1,2,8) [OF ok a _ n] by (auto simp: eq)
qed

lemma serve_seek:
  assumes ok: "prefetch_ok content ps" and r: "try_serve_seek offset n ps = Some d"
  shows "\<exists>m \<le> n. d = take m (drop offset content) \<and> (0 < n \<longrightarrow> 0 < m) \<and> offset + m \<le> length content"
proof -
  have s: "window content (ps_seek_start ps) (ps_seek_data ps)" "ps_seek_start ps \<le> offset"
    "offset < ps_seek_start ps + length (ps_seek_data ps)"
    "d = take (min n (length (ps_seek_data ps) - (offset - ps_seek_start ps))) (drop (offset - ps_seek_start ps) (ps_seek_data ps))"
    using ok r by (auto simp: try_serve_seek_def prefetch_ok_def seek_ok_def Let_def split: if_splits)
  let ?m = "min n (length (ps_seek_data ps) - (offset - ps_seek_start ps))"
  have "d = take ?m (drop offset content)"
    using window_slice [OF s(1), of "offset - ps_seek_start ps" ?m] s(2-4) by simp
  moreover have "offset + ?m \<le> length content" using window_bound [OF s(1)] s(2,3) by simp
  ultimately show ?thesis using s(2,3) by (intro exI [of _ ?m]) auto
qed

lemma pull_ok:
  assumes "window content cursor (concat chunks)" and "n = length (concat chunks)" and "delivers content (cursor + n) s"
    and "pull fsize s chunks n = (chunks', n', failed, eof, rest)"
  shows "window content cursor (concat chunks') \<and> n' = length (concat chunks') \<and> n \<le> n' \<and>
    (\<not> failed \<longrightarrow> delivers content (cursor + n') rest) \<and> (eof \<longrightarrow> rest = [] \<and> \<not> failed) \<and> (\<not> failed \<and> \<not> eof \<longrightarrow> fsize \<le> n')"
  using assms
proof (induction fsize s chunks n rule: pull.induct)
  case (2 fsize it s chunks n)
  show ?case
  proof (cases "n < fsize")
    case True
    show ?thesis
    proof (cases it)
      case (Chunk c)
      have "window content cursor (concat chunks') \<and> n' = length (concat chunks') \<and> n + length c \<le> n' \<and>
        (\<not> failed \<longrightarrow> delivers content (cursor + n') rest) \<and> (eof \<longrightarrow> rest = [] \<and> \<not> failed) \<and> (\<not> failed \<and> \<not> eof \<longrightarrow> fsize \<le> n')"
        by (rule "2.IH" [OF True Chunk]) (use "2.prems" True Chunk in \<open>auto simp: add.assoc\<close>)
      then show ?thesis by auto
    next
      case Broken
      then show ?thesis using "2.prems" True by auto
    qed
  next
    case False
    then show ?thesis using "2.prems" by auto
  qed
qed (auto split: if_splits)

text \<open>
  Fetching changes the stream only: what is kept of it stands right behind the fetched chunks, and after
  a failure it is at its end.
\<close>

lemma prefetch_attempts_ok:
  assumes o: "opens_ok content opens" and f: "0 < fp_fetch_size plan" and c: "cursor \<le> length content"
    and first: "\<forall>s. first_stream = Some s \<longrightarrow> delivers content cursor s"
    and st: "ps_stream ps = None \<or> ps_stream ps = Some []"
    and r: "prefetch_attempts a opens cursor plan first_stream k ps = (res, k', ps')"
  shows "ps'\<lparr>ps_stream := None\<rparr> = ps\<lparr>ps_stream := None\<rparr> \<and>
    (case res of Inl e \<Rightarrow> e = EIO \<and> (\<forall>s. ps_stream ps' = Some s \<longrightarrow> s = [])
     | Inr (chunks, n) \<Rightarrow> 0 < n \<and> n = length (concat chunks) \<and> window content cursor (concat chunks) \<and>
         (\<forall>s. ps_stream ps' = Some s \<longrightarrow> delivers content (cursor + n) s))"
  using first st r
proof (induction a arbitrary: first_stream k ps)
  case 0
  then show ?case by auto
next
  case (Suc a)
  let ?stop = "if fp_strategy plan = RangeDownload then Some (cursor + fp_fetch_size plan) else None"
  obtain got k1 where g: "(case first_stream of Some s \<Rightarrow> (Some s, k) | None \<Rightarrow> (opens k cursor ?stop, k + 1)) = (got, k1)"
    by (cases "case first_stream of Some s \<Rightarrow> (Some s, k) | None \<Rightarrow> (opens k cursor ?stop, k + 1)")
  show ?case
  proof (cases got)
    case None
    then have "prefetch_attempts a opens cursor plan None k1 ps = (res, k', ps')" using Suc.prems(3) g by (simp add: Let_def)
    from Suc.IH [OF _ Suc.prems(2) this] show ?thesis by simp
  next
    case (Some s)
    then have del: "delivers content (cursor + 0) s"
      using g Suc.prems(1) o unfolding opens_ok_def by (auto split: option.splits)
    obtain chunks n failed eof rest where pl: "pull (fp_fetch_size plan) s [] 0 = (chunks, n, failed, eof, rest)"
      by (cases "pull (fp_fetch_size plan) s [] 0")
    have p: "window content cursor (concat chunks) \<and> n = length (concat chunks) \<and> 0 \<le> n \<and>
      (\<not> failed \<longrightarrow> delivers content (cursor + n) rest) \<and> (eof \<longrightarrow> rest = [] \<and> \<not> failed) \<and>
      (\<not> failed \<and> \<not> eof \<longrightarrow> fp_fetch_size plan \<le> n)"
      by (rule pull_ok [OF _ _ del pl]) (simp_all add: c)
    let ?ps = "if eof \<and> n > 0 then ps else if is_stream (fp_strategy plan) \<and> \<not> failed then ps\<lparr>ps_stream := Some rest\<rparr> else ps"
    have upd: "?ps\<lparr>ps_stream := None\<rparr> = ps\<lparr>ps_stream := None\<rparr>" by simp
    show ?thesis
    proof (cases "n > 0")
      case True
      then have "res = Inr (chunks, n)" and ps': "ps' = ?ps" using Suc.prems(3) g Some pl by (simp_all add: Let_def)
      moreover have "delivers content (cursor + n) t" if "ps_stream ?ps = Some t" for t
        using that p Suc.prems(2) by (cases "eof \<and> n > 0"; cases "is_stream (fp_strategy plan) \<and> \<not> failed") auto
      ultimately show ?thesis using p True upd unfolding ps' by simp
    next
      case False
      then have 1: "prefetch_attempts a opens cursor plan None k1 ?ps = (res, k', ps')"
        using Suc.prems(3) g Some pl by (simp add: Let_def)
      have "ps_stream ?ps = None \<or> ps_stream ?ps = Some []" using p False f Suc.prems(2) by auto
      from Suc.IH [OF _ this 1] upd show ?thesis by simp
    qed
  qed
qed

lemma fetch_data_ok:
  assumes ok: "prefetch_ok content ps" and o: "opens_ok content opens" and f: "0 < fp_fetch_size plan" and c: "cursor \<le> length content"
    and s: "\<forall>s. ps_stream ps = Some s \<longrightarrow> is_stream (fp_strategy plan) \<and> delivers content cursor s"
    and r: "fetch_data opens cursor plan k ps = (res, k', ps')"
  shows "(\<exists>st. ps' = ps\<lparr>ps_stream := st\<rparr>) \<and>
    (case res of Inl e \<Rightarrow> e = EIO \<and> prefetch_ok content ps'
     | Inr (chunks, m) \<Rightarrow> 0 < m \<and> prefetch_ok content (store_fetched cursor chunks m ps'))"
proof -
  let ?ps = "ps\<lparr>ps_stream := None\<rparr>" and ?first = "if is_stream (fp_strategy plan) then ps_stream ps else None"
  have "prefetch_attempts PREFETCH_MAX_ATTEMPTS opens cursor plan ?first k ?ps = (res, k', ps')"
  proof (cases "is_stream (fp_strategy plan)")
    case False
    then have "ps_stream ps = None" using s by (cases "ps_stream ps") auto
    then have "?ps = ps" by simp
    then show ?thesis using r False by (simp add: fetch_data_def)
  qed (use r in \<open>simp add: fetch_data_def\<close>)
  from prefetch_attempts_ok [OF o f c _ _ this]
  have fa: "ps'\<lparr>ps_stream := None\<rparr> = ?ps\<lparr>ps_stream := None\<rparr> \<and>
    (case res of Inl e \<Rightarrow> e = EIO \<and> (\<forall>s. ps_stream ps' = Some s \<longrightarrow> s = [])
     | Inr (chunks, n) \<Rightarrow> 0 < n \<and> n = length (concat chunks) \<and> window content cursor (concat chunks) \<and>
         (\<forall>s. ps_stream ps' = Some s \<longrightarrow> delivers content (cursor + n) s))"
    using s by (auto split: if_splits)
  have "ps' = (ps'\<lparr>ps_stream := None\<rparr>)\<lparr>ps_stream := ps_stream ps'\<rparr>" by simp
  also have "\<dots> = ps\<lparr>ps_stream := ps_stream ps'\<rparr>" using fa by simp
  finally obtain st where st: "ps' = ps\<lparr>ps_stream := st\<rparr>" by blast
  have "case res of Inl e \<Rightarrow> e = EIO \<and> prefetch_ok content ps'
     | Inr (chunks, m) \<Rightarrow> 0 < m \<and> prefetch_ok content (store_fetched cursor chunks m ps')"
    using fa ok unfolding st
    by (auto simp: prefetch_ok_def forward_ok_def flat_def seek_ok_def store_fetched_def split: sum.splits)
  then show ?thesis using st by blast
qed

text \<open>
  The next fetch at \<open>cursor\<close> anchors the window: it already is, or the fetch is the first and at 0.
\<close>

definition can_fetch :: "nat \<Rightarrow> prefetch_state \<Rightarrow> bool" where
  "can_fetch cursor ps \<longleftrightarrow> ps_forward_only ps \<or> ps_seek_data ps \<noteq> [] \<or>
     (ps_buf_start ps = 0 \<and> ps_seek_start ps = 0 \<and> (0 < ps_chunks_len ps \<or> cursor = 0))"

lemma can_fetch_anchored: "can_fetch cursor ps \<Longrightarrow> anchored ps"
  by (auto simp: can_fetch_def anchored_def)

lemma prefetch_ok_upd:
  assumes "prefetch_ok content ps" and "st = None \<or> st = ps_stream ps"
  shows "prefetch_ok content (ps\<lparr>ps_window_size := w, ps_stream := st\<rparr>)"
  using assms by (auto simp: prefetch_ok_def forward_ok_def seek_ok_def flat_def)

text \<open>The buffer after the drain, and what the plan may change in it.\<close>

definition drained :: "nat \<Rightarrow> prefetch_state \<Rightarrow> prefetch_state" where
  "drained cursor ps = (if ps_chunks_len ps > 0
    then drain_to_seek (if cursor \<ge> ps_buf_start ps then ps_chunks_len ps else 0) ps else ps)"

lemma prepare_fetch_form:
  assumes "cursor < ps_file_size (drained cursor ps)" and "0 < n"
    and "ps_buf_start ps \<le> cursor \<Longrightarrow> ps_chunks_len (drained cursor ps) = 0"
  shows "\<exists>plan w st. prepare_fetch cursor n ps = Some (plan, (drained cursor ps)\<lparr>ps_window_size := w, ps_stream := st\<rparr>) \<and>
    0 < fp_fetch_size plan \<and> min n (ps_file_size (drained cursor ps) - cursor) \<le> fp_fetch_size plan \<and>
    cursor + fp_fetch_size plan \<le> ps_file_size (drained cursor ps) \<and>
    (st = None \<or> st = ps_stream (drained cursor ps) \<and> is_stream (fp_strategy plan) \<and>
      cursor = ps_buf_start (drained cursor ps) \<and> ps_chunks_len (drained cursor ps) = 0)"
proof -
  define d where "d = drained cursor ps"
  define first where "first \<longleftrightarrow> ps_chunks_len ps = 0 \<and> ps_buf_start ps = 0"
  define near where "near \<longleftrightarrow> cursor \<ge> ps_buf_start ps + ps_chunks_len ps \<and> cursor \<le> ps_buf_start ps + ps_chunks_len ps + FORWARD_SKIP"
  define w where "w = (if first then ps_window_size d else if near then min (ps_window_size d * 2) MAX_WINDOW else INITIAL_WINDOW)"
  define strat where "strat = (if first \<or> near then (if (first \<or> near) \<and> cursor = ps_buf_start d
    then (if ps_stream d = None \<and> first \<and> cursor = 0 then StartStream else ContinueStream) else StartStream) else RangeDownload)"
  define st where "st = (if (first \<or> near) \<and> cursor = ps_buf_start d then ps_stream d else None)"
  define fs where "fs = min (if strat = RangeDownload then min n (ps_file_size d - cursor) else max (min n (ps_file_size d - cursor)) w)
    (ps_file_size d - cursor)"
  have "\<not> ps_file_size d < cursor" using assms(1) unfolding d_def by simp
  then have "prepare_fetch cursor n ps = Some (\<lparr>fp_strategy = strat, fp_fetch_size = fs\<rparr>, d\<lparr>ps_window_size := w, ps_stream := st\<rparr>)"
    unfolding prepare_fetch_def drained_def [symmetric] d_def [symmetric] first_def [symmetric] near_def [symmetric] Let_def
      w_def [symmetric] st_def [symmetric] strat_def [symmetric]
    by (simp add: fs_def)
  moreover have "0 < fs" "min n (ps_file_size d - cursor) \<le> fs" "cursor + fs \<le> ps_file_size d" using assms(1,2) by (auto simp: fs_def d_def)
  moreover have "st = None \<or> st = ps_stream d \<and> is_stream strat \<and> cursor = ps_buf_start d \<and> ps_chunks_len d = 0"
    using assms(3) by (auto simp: st_def strat_def is_stream_def d_def first_def near_def)
  ultimately show ?thesis unfolding d_def by auto
qed

lemma prepare_fetch_ok:
  assumes ok: "prefetch_ok content ps" and c: "can_fetch cursor ps" and b: "cursor < length content" and n: "0 < n"
  shows "\<exists>plan ps'. prepare_fetch cursor n ps = Some (plan, ps') \<and> prefetch_ok content ps' \<and> 0 < fp_fetch_size plan \<and>
    (\<forall>s. ps_stream ps' = Some s \<longrightarrow> is_stream (fp_strategy plan) \<and> delivers content cursor s) \<and>
    ps_forward_only ps' = ps_forward_only ps \<and>
    (ps_forward_only ps' \<or> ps_seek_data ps' \<noteq> [] \<or> (cursor = 0 \<and> ps_buf_start ps' = 0 \<and> ps_seek_start ps' = 0))"
proof -
  let ?d = "drained cursor ps"
  have 1: "prefetch_ok content ?d \<and> ps_forward_only ?d = ps_forward_only ps \<and>
    (ps_buf_start ps \<le> cursor \<longrightarrow> ps_chunks_len ?d = 0) \<and>
    (ps_forward_only ?d \<or> ps_seek_data ?d \<noteq> [] \<or> (cursor = 0 \<and> ps_buf_start ?d = 0 \<and> ps_seek_start ?d = 0))"
  proof (cases "0 < ps_chunks_len ps \<and> ps_buf_start ps \<le> cursor")
    case True
    then show ?thesis using drain_anchored [OF ok can_fetch_anchored [OF c], of "ps_chunks_len ps"] by (auto simp: drained_def)
  next
    case False
    then have "?d = ps" by (auto simp: drained_def drain_to_seek_def)
    then show ?thesis using False ok c by (auto simp: can_fetch_def)
  qed
  then have "ps_file_size ?d = length content" and st: "\<forall>s. ps_stream ?d = Some s \<longrightarrow> delivers content (ps_buf_start ?d + ps_chunks_len ?d) s"
    by (simp_all add: prefetch_ok_def)
  then obtain plan w st where "prepare_fetch cursor n ps = Some (plan, ?d\<lparr>ps_window_size := w, ps_stream := st\<rparr>)" "0 < fp_fetch_size plan"
    "st = None \<or> st = ps_stream ?d \<and> is_stream (fp_strategy plan) \<and> cursor = ps_buf_start ?d \<and> ps_chunks_len ?d = 0"
    using prepare_fetch_form [of cursor ps n] b n 1 by auto
  then show ?thesis
    using 1 st prefetch_ok_upd [of content ?d st w] by (intro exI [of _ plan] exI [of _ "?d\<lparr>ps_window_size := w, ps_stream := st\<rparr>"]) auto
qed

section \<open>Reading\<close>

definition fed :: "bytes \<Rightarrow> opens \<Rightarrow> bool" where
  "fed content opens \<longleftrightarrow> (\<forall>k cursor stop. cursor < length content \<longrightarrow> (\<exists>c s. opens k cursor stop = Some (Chunk c # s) \<and> c \<noteq> []))"

lemma pull_first: "0 < fsize \<Longrightarrow> c \<noteq> [] \<Longrightarrow> 0 < fst (snd (pull fsize (Chunk c # s) [] 0))"
proof -
  have "n \<le> fst (snd (pull fsize s chunks n))" for s chunks n
    by (induction fsize s chunks n rule: pull.induct) (auto split: stream_item.split)
  from this [of "length c" s "[c]"] show "0 < fsize \<Longrightarrow> c \<noteq> [] \<Longrightarrow> ?thesis"
    by (cases c) auto
qed

lemma fetch_data_fed:
  assumes "fed content opens" and "0 < fp_fetch_size plan" and "cursor < length content"
  shows "\<exists>x. fst (fetch_data opens cursor plan k ps) = Inr x"
proof -
  have one: "\<exists>x. fst (prefetch_attempts (Suc a) opens cursor plan None k ps) = Inr x" for a k ps
  proof -
    let ?stop = "if fp_strategy plan = RangeDownload then Some (cursor + fp_fetch_size plan) else None"
    obtain c s where "opens k cursor ?stop = Some (Chunk c # s)" "c \<noteq> []" using assms(1,3) unfolding fed_def by blast
    then show ?thesis
      using pull_first [OF assms(2), of c s] by (auto simp: Let_def split: prod.splits)
  qed
  have "\<exists>x. fst (prefetch_attempts (Suc (Suc a)) opens cursor plan (Some s) k ps) = Inr x" for a s k ps
    using one [of a k] by (auto simp: Let_def split: prod.splits)
  then show ?thesis
    using one by (cases "ps_stream ps") (auto simp: fetch_data_def PREFETCH_MAX_ATTEMPTS_def numeral_3_eq_3 simp del: prefetch_attempts.simps)
qed

text \<open>Any later read may fetch.\<close>

definition handle_settled :: "prefetch_state \<Rightarrow> bool" where
  "handle_settled ps \<longleftrightarrow> ps_forward_only ps \<or> ps_seek_data ps \<noteq> [] \<or>
     (ps_buf_start ps = 0 \<and> ps_seek_start ps = 0 \<and> 0 < ps_chunks_len ps)"

lemma settled_can_fetch: "handle_settled ps \<Longrightarrow> can_fetch cursor ps"
  by (auto simp: handle_settled_def can_fetch_def)

text \<open>One round of the assembly loop.\<close>

lemma assemble_round:
  assumes ok: "prefetch_ok content ps" and c: "can_fetch cursor ps" and o: "opens_ok content opens"
    and b: "cursor < length content" and n: "0 < n"
  obtains plan ps1 k1 ps2 where "prepare_fetch cursor n ps = Some (plan, ps1)" "fetch_data opens cursor plan k ps1 = (Inl EIO, k1, ps2)"
      "prefetch_ok content ps2" "\<not> fed content opens" "ps_forward_only ps2 = ps_forward_only ps"
  | plan ps1 chunks m k1 ps2 ps3 where "prepare_fetch cursor n ps = Some (plan, ps1)"
      "fetch_data opens cursor plan k ps1 = (Inr (chunks, m), k1, ps2)" "0 < m"
      "try_serve_forward cursor n (store_fetched cursor chunks m ps2) = (Some (take (min n m) (drop cursor content)), ps3)"
      "prefetch_ok content ps3" "handle_settled ps3" "ps_forward_only ps3 = ps_forward_only ps"
proof -
  obtain plan ps1 where p: "prepare_fetch cursor n ps = Some (plan, ps1)" "prefetch_ok content ps1" "0 < fp_fetch_size plan"
    "\<forall>s. ps_stream ps1 = Some s \<longrightarrow> is_stream (fp_strategy plan) \<and> delivers content cursor s" "ps_forward_only ps1 = ps_forward_only ps"
    "ps_forward_only ps1 \<or> ps_seek_data ps1 \<noteq> [] \<or> (cursor = 0 \<and> ps_buf_start ps1 = 0 \<and> ps_seek_start ps1 = 0)"
    using prepare_fetch_ok [OF ok c b n] by blast
  obtain res k1 ps2 where r: "fetch_data opens cursor plan k ps1 = (res, k1, ps2)" by (cases "fetch_data opens cursor plan k ps1")
  have fd: "(\<exists>st. ps2 = ps1\<lparr>ps_stream := st\<rparr>) \<and>
    (case res of Inl e \<Rightarrow> e = EIO \<and> prefetch_ok content ps2
     | Inr (chunks, m) \<Rightarrow> 0 < m \<and> prefetch_ok content (store_fetched cursor chunks m ps2))"
    by (rule fetch_data_ok [OF p(2) o p(3) _ p(4) r]) (use b in simp)
  then obtain st where ps2: "ps2 = ps1\<lparr>ps_stream := st\<rparr>" by blast
  show ?thesis
  proof (cases res)
    case (Inl e)
    then have "\<not> fed content opens" using fetch_data_fed [OF _ p(3) b, of opens k ps1] r by auto
    then show ?thesis using that(1) [OF p(1)] r Inl fd ps2 p(5) by simp
  next
    case (Inr x)
    obtain chunks m where x: "x = (chunks, m)" by (cases x)
    let ?s = "store_fetched cursor chunks m ps2"
    have s: "prefetch_ok content ?s" "0 < m" using fd Inr x by simp_all
    have "handle_settled ?s" using p(6) s(2) ps2 by (auto simp: handle_settled_def store_fetched_def)
    then have a: "anchored ?s" using can_fetch_anchored settled_can_fetch by blast
    obtain d ps3 where v: "try_serve_forward cursor n ?s = (d, ps3)" by (cases "try_serve_forward cursor n ?s")
    note sf = serve_forward [OF s(1) a v]
    have "d = Some (take (min n m) (drop cursor content))" using sf s(2) by (simp add: store_fetched_def)
    moreover have "ps_forward_only ?s = ps_forward_only ps" using ps2 p(5) by (simp add: store_fetched_def)
    moreover from this have "handle_settled ps3" using sf \<open>handle_settled ?s\<close> by (auto simp: handle_settled_def)
    ultimately show ?thesis using that(2) [OF p(1)] r Inr x s(2) v sf by simp
  qed
qed

lemma assemble_ok:
  assumes "prefetch_ok content ps" and "can_fetch cursor ps" and o: "opens_ok content opens"
    and "window content offset response" and "cursor = offset + length response"
    and b: "offset + to_read \<le> length content" and "length response \<le> to_read"
  shows "\<exists>res k' ps'. assemble opens to_read response cursor k ps = Some (res, k', ps') \<and> prefetch_ok content ps' \<and>
    ps_forward_only ps' = ps_forward_only ps \<and> (fed content opens \<longrightarrow> (\<exists>x. res = Inr x)) \<and>
    (case res of Inl e \<Rightarrow> e = EIO
     | Inr (data, c) \<Rightarrow> data = take to_read (drop offset content) \<and> c = offset + to_read \<and> (length response < to_read \<or> handle_settled ps \<longrightarrow> handle_settled ps'))"
  using assms(1,2,4,5,7)
proof (induction "to_read - length response" arbitrary: response cursor k ps rule: less_induct)
  case less
  show ?case
  proof (cases "length response < to_read")
    case False
    then have "length response = to_read" using less.prems(5) by simp
    then have "response = take to_read (drop offset content)" using less.prems(3) by (simp add: window_def)
    then show ?thesis using False less.prems by (simp add: assemble.simps)
  next
    case True
    let ?n = "to_read - length response"
    have cur: "cursor < length content" "0 < ?n" using True less.prems(4) b by simp_all
    show ?thesis
    proof (rule assemble_round [OF less.prems(1,2) o cur, of k], goal_cases)
      case (1 plan ps1 k1 ps2)
      then show ?thesis using True by (simp add: assemble.simps)
    next
      case (2 plan ps1 chunks m k1 ps2 ps3)
      let ?data = "take (min ?n m) (drop cursor content)"
      have len: "length ?data = min ?n m" using cur b less.prems(4) by simp
      have "window content cursor ?data" using len cur b less.prems(4) by (simp add: window_def)
      then have w: "window content offset (response @ ?data)" using less.prems(3,4) by simp
      have IH: "\<exists>res k' ps'. assemble opens to_read (response @ ?data) (cursor + length ?data) k1 ps3 = Some (res, k', ps') \<and> prefetch_ok content ps' \<and>
        ps_forward_only ps' = ps_forward_only ps3 \<and> (fed content opens \<longrightarrow> (\<exists>x. res = Inr x)) \<and>
        (case res of Inl e \<Rightarrow> e = EIO
         | Inr (data, c) \<Rightarrow> data = take to_read (drop offset content) \<and> c = offset + to_read \<and>
             (length (response @ ?data) < to_read \<or> handle_settled ps3 \<longrightarrow> handle_settled ps'))"
      proof (rule less.hyps)
        have "0 < length ?data" unfolding len using True 2(3) by simp
        then show "to_read - length (response @ ?data) < to_read - length response" using True unfolding length_append by linarith
        show "length (response @ ?data) \<le> to_read" using len True by simp
      qed (use 2 len w less.prems(4) in \<open>auto intro: settled_can_fetch\<close>)
      from IH obtain res k' ps' where r: "assemble opens to_read (response @ ?data) (cursor + length ?data) k1 ps3 = Some (res, k', ps')"
        "prefetch_ok content ps'" "ps_forward_only ps' = ps_forward_only ps3" "fed content opens \<longrightarrow> (\<exists>x. res = Inr x)"
        and c: "case res of Inl e \<Rightarrow> e = EIO
         | Inr (data, c) \<Rightarrow> data = take to_read (drop offset content) \<and> c = offset + to_read \<and>
             (length (response @ ?data) < to_read \<or> handle_settled ps3 \<longrightarrow> handle_settled ps')" by blast
      have "assemble opens to_read response cursor k ps = Some (res, k', ps')"
        using True 2 r(1) by (subst assemble.simps) simp
      moreover have "case res of Inl e \<Rightarrow> e = EIO
         | Inr (data, c) \<Rightarrow> data = take to_read (drop offset content) \<and> c = offset + to_read \<and>
             (length response < to_read \<or> handle_settled ps \<longrightarrow> handle_settled ps')" using c 2(6) by (cases res) auto
      ultimately show ?thesis using r(2-4) 2(7) by metis
    qed
  qed
qed

text \<open>
  C14: a read through the prefetch buffer is a read of the file.  The buffer's invariant holds, download
  streams deliver the file's bytes (in any chunks, ending or breaking at any point), and the handle is
  forward-only, or has filled its seek window, or its buffer starts at 0 or is about to.  Then the read
  ends; it fails with EIO or returns exactly the requested bytes up to the end of the file and the right
  end-of-file flag; the invariant is kept and every later read on the handle is covered too.  It does not
  fail when every freshly opened stream gives at least one byte.
\<close>

theorem prefetch_read_exact:
  assumes "prefetch_ok content ps" and "opens_ok content opens" and "can_fetch offset ps"
  shows "\<exists>r k' ps'. prefetch_read opens offset n (k, ps) = Some (r, k', ps') \<and> prefetch_ok content ps' \<and>
    (r = Inl EIO \<or> r = Inr (take n (drop offset content), length content \<le> offset + n) \<and>
      (handle_settled ps \<or> 0 < n \<and> offset < length content \<longrightarrow> handle_settled ps')) \<and>
    (fed content opens \<longrightarrow> r \<noteq> Inl EIO)"
proof (cases "length content \<le> offset")
  case True
  then show ?thesis using assms(1) by (simp add: prefetch_read_def prefetch_ok_def)
next
  case False
  let ?n = "min n (length content - offset)"
  have size: "ps_file_size ps = length content" using assms(1) by (simp add: prefetch_ok_def)
  obtain d ps1 where f: "try_serve_forward offset n ps = (d, ps1)" by (cases "try_serve_forward offset n ps")
  note sf = serve_forward [OF assms(1) can_fetch_anchored [OF assms(3)] f]
  define served where "served = (case d of Some data \<Rightarrow> Some data | None \<Rightarrow> try_serve_seek offset n ps1)"
  define response where "response = (case served of Some data \<Rightarrow> data | None \<Rightarrow> [])"
  have same: "ps_forward_only ps \<and> ps_forward_only ps1 \<or> ps1 = ps" using sf by auto
  have set1: "handle_settled ps1" if "handle_settled ps" using that same by (auto simp: handle_settled_def)
  have st: "handle_settled ps" if "served \<noteq> None"
    using that sf assms(3) same by (cases d) (auto simp: served_def try_serve_seek_def handle_settled_def can_fetch_def split: if_splits)
  have "\<exists>m \<le> ?n. response = take m (drop offset content)"
  proof (cases d)
    case (Some data)
    then show ?thesis
      using sf False window_bound [of content "ps_buf_start ps" "flat ps"] assms(1)
      by (intro exI [of _ "min n (ps_buf_start ps + ps_chunks_len ps - offset)"])
        (auto simp: served_def response_def prefetch_ok_def forward_ok_def split: if_splits)
  next
    case None
    then show ?thesis
      using serve_seek [of content ps1 offset n] sf False by (cases "try_serve_seek offset n ps1") (auto simp: served_def response_def)
  qed
  then obtain m where m: "m \<le> ?n" "response = take m (drop offset content)" by blast
  then have len: "length response = m" and w: "window content offset response" using False by (auto simp: window_def)
  have run: "prefetch_read opens offset n (k, ps) =
    (if served \<noteq> None \<and> length response = ?n then Some (Inr (response, offset + length response \<ge> length content), k, ps1)
     else map_option (\<lambda>(r, k', ps'). (case r of Inl e \<Rightarrow> Inl e | Inr (data, cursor) \<Rightarrow> Inr (data, cursor = length content), k', ps'))
       (assemble opens ?n response (offset + length response) k ps1))"
    unfolding prefetch_read_def prod.case Let_def size f using False by (cases d) (simp_all add: served_def response_def)
  have t: "take ?n (drop offset content) = take n (drop offset content)" by (simp add: take_all_iff min_def)
  show ?thesis
  proof (cases "served \<noteq> None \<and> length response = ?n")
    case True
    then show ?thesis using run m len sf st set1 False by (auto simp: t)
  next
    case slow: False
    have "can_fetch (offset + length response) ps1"
    proof (cases "served = None")
      case True
      then show ?thesis using same assms(3) by (auto simp: response_def can_fetch_def)
    qed (use st set1 settled_can_fetch in blast)
    moreover have "prefetch_ok content ps1" "offset + ?n \<le> length content" "length response \<le> ?n"
      using sf False m(1) len by auto
    ultimately obtain res k' ps' where
      a: "assemble opens ?n response (offset + length response) k ps1 = Some (res, k', ps')" "prefetch_ok content ps'"
      "fed content opens \<longrightarrow> (\<exists>x. res = Inr x)"
      "case res of Inl e \<Rightarrow> e = EIO
       | Inr (data, c) \<Rightarrow> data = take ?n (drop offset content) \<and> c = offset + ?n \<and> (length response < ?n \<or> handle_settled ps1 \<longrightarrow> handle_settled ps')"
      using assemble_ok [OF _ _ assms(2) w refl, of ps1 ?n k] by blast
    have "length response < ?n \<or> handle_settled ps1" if "handle_settled ps \<or> 0 < n \<and> offset < length content"
      using that slow m(1) len set1 False st by (cases "served = None") (auto simp: response_def)
    then show ?thesis using run slow a False unfolding t by (auto split: sum.splits)
  qed
qed

text \<open>A store that answers every request with one chunk.\<close>

definition direct :: "bytes \<Rightarrow> opens" where
  "direct content k cursor stop =
    Some [Chunk (case stop of None \<Rightarrow> drop cursor content | Some e \<Rightarrow> take (e - cursor) (drop cursor content))]"

theorem prefetch_read_exact_witness:
  "\<exists>k' ps'. prefetch_read (\<lambda>k cursor stop. if cursor \<le> 3 then Some [Chunk (drop cursor [1, 2, 3])] else None) 1 2
     (0, store_fetched 0 [[1, 2, 3]] 3 (prefetch_new ''h'' 3 False)) = Some (Inr ([2, 3], True), k', ps')"
proof -
  let ?o = "\<lambda>k cursor stop. if cursor \<le> 3 then Some [Chunk (drop cursor ([1, 2, 3] :: bytes))] else None"
  let ?ps = "store_fetched 0 [[1, 2, 3]] 3 (prefetch_new ''h'' 3 False)"
  have "prefetch_ok [1, 2, 3] ?ps" "can_fetch 1 ?ps"
    by (simp_all add: prefetch_ok_def store_fetched_def prefetch_new_def forward_ok_def seek_ok_def flat_def window_def can_fetch_def)
  moreover have "opens_ok [1, 2, 3] ?o" "fed [1, 2, 3] ?o"
    by (auto simp: opens_ok_def fed_def window_def numeral_3_eq_3)
  ultimately show ?thesis
    using prefetch_read_exact [of "[1, 2, 3]" ?ps ?o 1 2 0] by auto
qed

section \<open>A window that starts in the wrong place\<close>

fun read_all :: "opens \<Rightarrow> (nat \<times> nat) list \<Rightarrow> nat \<times> prefetch_state \<Rightarrow> (int + bytes \<times> bool) list option" where
  "read_all opens [] st = Some []"
| "read_all opens ((offset, n) # rs) st =
    Option.bind (prefetch_read opens offset n st) (\<lambda>(r, st'). map_option (Cons r) (read_all opens rs st'))"

text \<open>What one fetch from such a store brings.\<close>

definition direct_chunk :: "bytes \<Rightarrow> nat \<Rightarrow> fetch_plan \<Rightarrow> bytes" where
  "direct_chunk content cursor plan =
    (if fp_strategy plan = RangeDownload then take (fp_fetch_size plan) (drop cursor content) else drop cursor content)"

lemma direct_fetch:
  assumes "0 < fp_fetch_size plan" and "cursor + fp_fetch_size plan \<le> length content"
    and "is_stream (fp_strategy plan) \<Longrightarrow> ps_stream ps = None"
  shows "fetch_data (direct content) cursor plan k ps =
    (Inr ([direct_chunk content cursor plan], length (direct_chunk content cursor plan)), k + 1,
     if is_stream (fp_strategy plan) then ps\<lparr>ps_stream := Some []\<rparr> else ps)"
proof -
  have st: "is_stream (fp_strategy plan) \<longleftrightarrow> fp_strategy plan \<noteq> RangeDownload" by (cases "fp_strategy plan") (auto simp: is_stream_def)
  have p: "pull (fp_fetch_size plan) [Chunk c] [] 0 = ([c], length c, False, False, [])" if "fp_fetch_size plan \<le> length c" for c
    using assms(1) that by simp
  show ?thesis
  proof (cases "fp_strategy plan = RangeDownload")
    case True
    then show ?thesis
      using assms st p [of "take (fp_fetch_size plan) (drop cursor content)"]
      by (simp add: fetch_data_def PREFETCH_MAX_ATTEMPTS_def numeral_3_eq_3 direct_def direct_chunk_def)
  next
    case False
    then show ?thesis
      using assms st p [of "drop cursor content"]
      by (simp add: fetch_data_def PREFETCH_MAX_ATTEMPTS_def numeral_3_eq_3 direct_def direct_chunk_def)
  qed
qed

lemma read_one_chunk: "m \<le> length c \<Longrightarrow> read_chunk_range [c] 0 0 m = take m c"
  by (cases c) (auto simp: read_chunk_range_def Let_def)

text \<open>A read that neither window serves, and that one fetch satisfies.\<close>

definition after_fetch :: "bytes \<Rightarrow> nat \<Rightarrow> fetch_plan \<Rightarrow> prefetch_state \<Rightarrow> prefetch_state" where
  "after_fetch content offset plan ps =
    store_fetched offset [direct_chunk content offset plan] (length (direct_chunk content offset plan))
      (if is_stream (fp_strategy plan) then ps\<lparr>ps_stream := Some []\<rparr> else ps)"

lemma direct_read:
  assumes "offset < ps_file_size ps" "ps_file_size ps = length content" "0 < n"
    and "try_serve_forward offset n ps = (None, ps)" and "try_serve_seek offset n ps = None"
    and pf: "prepare_fetch offset (min n (length content - offset)) ps = Some (plan, ps1)"
    and "is_stream (fp_strategy plan) \<Longrightarrow> ps_stream ps1 = None" and "\<not> ps_forward_only ps1"
    and fs: "min n (length content - offset) \<le> fp_fetch_size plan" "offset + fp_fetch_size plan \<le> length content"
  shows "prefetch_read (direct content) offset n (k, ps) =
    Some (Inr (take n (drop offset content), offset + min n (length content - offset) = length content), k + 1,
      after_fetch content offset plan ps1)"
proof -
  let ?m = "min n (length content - offset)" and ?c = "direct_chunk content offset plan"
  let ?ps2 = "if is_stream (fp_strategy plan) then ps1\<lparr>ps_stream := Some []\<rparr> else ps1"
  have m: "0 < ?m" using assms(1,2,3) by simp
  have "take ?m (drop offset content) = take n (drop offset content)" by (simp add: min_def)
  then have len: "?m \<le> length ?c" and tk: "take ?m ?c = take n (drop offset content)"
    using fs by (simp_all add: direct_chunk_def min_absorb1)
  have f: "fetch_data (direct content) offset plan k ps1 = (Inr ([?c], length ?c), k + 1, ?ps2)"
    using m fs by (intro direct_fetch assms(7)) auto
  have "try_serve_forward offset ?m (store_fetched offset [?c] (length ?c) ?ps2) =
      (Some (take ?m ?c), store_fetched offset [?c] (length ?c) ?ps2)"
    using m len assms(8) read_one_chunk [OF len] by (auto simp: try_serve_forward_def store_fetched_def Let_def)
  then have "assemble (direct content) ?m [] offset k ps = Some (Inr (take ?m ?c, offset + ?m), k + 1, store_fetched offset [?c] (length ?c) ?ps2)"
    using m pf f len by (simp add: assemble.simps [of _ ?m "[]"] assemble.simps [of _ ?m "take ?m ?c"] min_absorb2)
  then show ?thesis using assms(1,2,4,5) by (simp add: prefetch_read_def Let_def tk after_fetch_def)
qed

lemma first_read_inside:
  fixes content :: bytes and h :: string
  assumes "0 < p" "p < length content" "0 < n"
  defines "ps0 \<equiv> prefetch_new h (length content) False"
  obtains res ps where "prefetch_read (direct content) p n (0, ps0) = Some (Inr res, 1, ps)"
    "ps_chunks_len ps = length content - p" "ps_buf_start ps = p" "ps_seek_data ps = []" "ps_seek_start ps = 0" "\<not> ps_forward_only ps"
    "ps_file_size ps = length content"
proof -
  let ?N = "length content"
  let ?plan = "\<lparr>fp_strategy = StartStream, fp_fetch_size = min (max (min n (?N - p)) INITIAL_WINDOW) (?N - p)\<rparr>"
  have pf: "prepare_fetch p (min n (?N - p)) ps0 = Some (?plan, ps0)"
    using assms(1,2) by (simp add: prepare_fetch_def ps0_def prefetch_new_def Let_def)
  have "prefetch_read (direct content) p n (0, ps0) = Some (Inr (take n (drop p content), p + min n (?N - p) = ?N), 0 + 1, after_fetch content p ?plan ps0)"
  proof (rule direct_read [OF _ _ assms(3) _ _ pf])
    show "p < ps_file_size ps0" "ps_file_size ps0 = ?N" "ps_stream ps0 = None" "\<not> ps_forward_only ps0" "try_serve_seek p n ps0 = None"
      "try_serve_forward p n ps0 = (None, ps0)"
      using assms(2) by (simp_all add: ps0_def prefetch_new_def try_serve_seek_def try_serve_forward_def)
  qed (use assms(2) in simp_all)
  then show thesis
    by (intro that [of "(take n (drop p content), p + min n (?N - p) = ?N)" "after_fetch content p ?plan ps0"])
      (simp_all add: after_fetch_def store_fetched_def direct_chunk_def is_stream_def ps0_def prefetch_new_def)
qed

lemma read_back:
  fixes content :: bytes
  assumes "0 < q" "q < ps_buf_start ps" "0 < ps_chunks_len ps" "ps_seek_data ps = []" "ps_seek_start ps = 0" "\<not> ps_forward_only ps"
    "ps_file_size ps = length content" "0 < len" "q + len < length content"
  obtains ps' where "prefetch_read (direct content) q len (k, ps) = Some (Inr (take len (drop q content), False), k + 1, ps')"
    "ps_chunks ps' = [take len (drop q content)]" "ps_chunks_len ps' = len" "ps_front_offset ps' = 0" "ps_buf_start ps' = q"
    "ps_seek_data ps' = []" "ps_seek_start ps' = 0" "\<not> ps_forward_only ps'" "ps_file_size ps' = length content" "ps_stream ps' = None"
proof -
  let ?plan = "\<lparr>fp_strategy = RangeDownload, fp_fetch_size = len\<rparr>" and ?ps = "ps\<lparr>ps_window_size := INITIAL_WINDOW, ps_stream := None\<rparr>"
  have m: "min len (length content - q) = len" using assms(9) by simp
  have pf: "prepare_fetch q (min len (length content - q)) ps = Some (?plan, ?ps)"
    using assms by (simp add: prepare_fetch_def drain_to_seek_def Let_def)
  have "prefetch_read (direct content) q len (k, ps) =
      Some (Inr (take len (drop q content), q + min len (length content - q) = length content), k + 1, after_fetch content q ?plan ?ps)"
  proof (rule direct_read [OF _ _ assms(8) _ _ pf])
    show "try_serve_seek q len ps = None" "try_serve_forward q len ps = (None, ps)"
      using assms(2,4) by (simp_all add: try_serve_seek_def try_serve_forward_def Let_def)
  qed (use assms(6,7,9) in simp_all)
  then have "prefetch_read (direct content) q len (k, ps) = Some (Inr (take len (drop q content), False), k + 1, after_fetch content q ?plan ?ps)"
    using m assms(9) by simp
  then show thesis
    by (rule that) (use assms(4-7,9) in \<open>simp_all add: after_fetch_def store_fetched_def direct_chunk_def is_stream_def\<close>)
qed

lemma read_ahead:
  fixes content :: bytes
  assumes ps: "ps_chunks ps = [c]" "ps_chunks_len ps = length c" "ps_front_offset ps = 0" "ps_buf_start ps = q"
      "ps_seek_data ps = []" "ps_seek_start ps = 0" "\<not> ps_forward_only ps" "ps_file_size ps = length content" "ps_stream ps = None"
    and "0 < length c" "length c \<le> SEEK_WINDOW" "q + length c \<le> r" "r < length content" "0 < n"
  obtains res ps' where "prefetch_read (direct content) r n (k, ps) = Some (Inr res, k + 1, ps')"
    "ps_buf_start ps' = r" "ps_seek_data ps' = c" "ps_seek_start ps' = 0" "\<not> ps_forward_only ps'" "ps_file_size ps' = length content"
proof -
  let ?N = "length content"
  let ?s = "ps\<lparr>ps_seek_data := c, ps_chunks := [], ps_chunks_len := 0, ps_buf_start := q + length c\<rparr>"
  have dr: "drain_to_seek (length c) ps = ?s"
  proof -
    have "fill_seek (length c) ps = ps\<lparr>ps_seek_data := c\<rparr>"
      using ps(1,3,5) assms(11) read_one_chunk [of "length c" c] by (simp add: fill_seek_def copy_chunks_to_seek_def Let_def)
    then show ?thesis using ps(1,2,3,4,7) assms(10) by (simp add: drain_to_seek_def Let_def)
  qed
  have d: "drained r ps = ?s" using dr ps(2,4) assms(10,12) by (simp add: drained_def)
  obtain plan w st where pf: "prepare_fetch r (min n (?N - r)) ps = Some (plan, ?s\<lparr>ps_window_size := w, ps_stream := st\<rparr>)"
    and fs: "min n (?N - r) \<le> fp_fetch_size plan" "r + fp_fetch_size plan \<le> ?N" and st: "st = None"
    using prepare_fetch_form [of r ps "min n (?N - r)", unfolded d] ps(8,9) assms(13,14) by auto
  let ?ps = "?s\<lparr>ps_window_size := w, ps_stream := st\<rparr>"
  have "prefetch_read (direct content) r n (k, ps) = Some (Inr (take n (drop r content), r + min n (?N - r) = ?N), k + 1, after_fetch content r plan ?ps)"
  proof (rule direct_read [OF _ _ assms(14) _ _ pf _ _ fs])
    show "try_serve_seek r n ps = None" "try_serve_forward r n ps = (None, ps)"
      using assms(2,4,5,12) by (simp_all add: try_serve_seek_def try_serve_forward_def Let_def)
  qed (use assms(7,8,13) st in simp_all)
  then show thesis
    by (rule that) (use assms(6-8) in \<open>simp_all add: after_fetch_def store_fetched_def\<close>)
qed

text \<open>
  C36: on a handle whose first read is not at offset 0, a later read can return bytes of another place of
  the file.  In every file, read at some place, then \<open>len\<close> bytes at an earlier offset \<open>q\<close> that is not 0, then
  anywhere behind those: a read inside the first \<open>len\<close> bytes of the file now returns the bytes \<open>q\<close> places
  further on, because the first bytes put into the empty seek window are taken to start at offset 0.
  The store answers every request with the bytes asked for.
\<close>

theorem prefetch_serves_wrong_bytes:
  assumes "0 < q" "q < p" "p < length content" "0 < len" "len \<le> SEEK_WINDOW" "q + len \<le> r" "r < length content"
    and "0 < n1" "0 < n2" "0 < m" "i + m \<le> len"
  shows "\<exists>r1 r3. read_all (direct content) [(p, n1), (q, len), (r, n2), (i, m)] (0, prefetch_new h (length content) False) =
    Some [Inr r1, Inr (take len (drop q content), False), Inr r3, Inr (take m (drop (q + i) content), False)]"
proof -
  let ?N = "length content" and ?d = "direct content" and ?c = "take len (drop q content)"
  have p0: "0 < p" and qN: "q + len < ?N" using assms by simp_all
  obtain r1 ps1 where r1: "prefetch_read ?d p n1 (0, prefetch_new h ?N False) = Some (Inr r1, 1, ps1)"
    and ps1: "ps_chunks_len ps1 = ?N - p" "ps_buf_start ps1 = p" "ps_seek_data ps1 = []" "ps_seek_start ps1 = 0" "\<not> ps_forward_only ps1" "ps_file_size ps1 = ?N"
    by (rule first_read_inside [OF p0 assms(3,8)])
  have "q < ps_buf_start ps1" "0 < ps_chunks_len ps1" using ps1(1,2) assms(2,3) by simp_all
  from assms(1) this ps1(3-6) assms(4) qN obtain ps2 where r2: "prefetch_read ?d q len (1, ps1) = Some (Inr (?c, False), 1 + 1, ps2)"
    and ps2: "ps_chunks ps2 = [?c]" "ps_chunks_len ps2 = len" "ps_front_offset ps2 = 0" "ps_buf_start ps2 = q"
      "ps_seek_data ps2 = []" "ps_seek_start ps2 = 0" "\<not> ps_forward_only ps2" "ps_file_size ps2 = ?N" "ps_stream ps2 = None"
    by (rule read_back)
  have c: "length ?c = len" using qN by simp
  have cl: "ps_chunks_len ps2 = length ?c" using ps2(2) c by simp
  obtain r3 ps3 where r3: "prefetch_read ?d r n2 (1 + 1, ps2) = Some (Inr r3, 1 + 1 + 1, ps3)"
    and ps3: "ps_buf_start ps3 = r" "ps_seek_data ps3 = ?c" "ps_seek_start ps3 = 0" "\<not> ps_forward_only ps3" "ps_file_size ps3 = ?N"
    by (rule read_ahead [where k = "1 + 1" and n = n2 and r = r, OF ps2(1) cl ps2(3-9)]) (use assms(4-7,9) c in simp_all)
  have t: "take m (drop i ?c) = take m (drop (q + i) content)"
    using assms(11) by (simp add: drop_take min_absorb1 add.commute)
  have "try_serve_forward i m ps3 = (None, ps3)" using ps3(1) assms(6,10,11) by (simp add: try_serve_forward_def Let_def)
  moreover have "try_serve_seek i m ps3 = Some (take m (drop i ?c))"
    using ps3(2-4) assms(4,10,11) c by (auto simp: try_serve_seek_def Let_def min_absorb1)
  moreover have "length (take m (drop i ?c)) = m" "min m (?N - i) = m" "i < ?N" using c assms(1,11) qN by simp_all
  ultimately have r4: "prefetch_read ?d i m (1 + 1 + 1, ps3) = Some (Inr (take m (drop i ?c), False), 1 + 1 + 1, ps3)"
    using ps3(5) assms(1,11) qN by (simp add: prefetch_read_def Let_def)
  show ?thesis using r1 r2 r3 r4 by (simp add: t)
qed

text \<open>Reading a file of ten bytes at 8, 4, 6 and then 0 gives the byte at offset 4 for the byte at offset 0.\<close>

theorem prefetch_serves_wrong_bytes_witness:
  "\<exists>r1 r2 r3. read_all (direct [10, 11, 12, 13, 14, 15, 16, 17, 18, 19]) [(8, 2), (4, 1), (6, 1), (0, 1)]
    (0, prefetch_new ''h'' 10 False) = Some [r1, r2, r3, Inr ([14], False)]"
proof -
  let ?c = "[10, 11, 12, 13, 14, 15, 16, 17, 18, 19] :: bytes"
  have n: "length ?c = 10" by simp
  have t: "take 1 (drop (4 + 0) ?c) = [14]" by simp
  show ?thesis
    using prefetch_serves_wrong_bytes [of 4 8 ?c 1 6 2 1 1 0 "''h''", unfolded n t]
    by (simp add: SEEK_WINDOW_def del: read_all.simps One_nat_def) blast
qed

end
