(* ===== verification/Vfs_Load.thy ===== *)
theory Vfs_Load
  imports Vfs_Rename Hub_Api
begin

text \<open>
  \<open>src/src/virtual_fs/mod.rs\<close>: how the listing of a directory gets into the inode table
  (\<open>ensure_children_loaded\<close>, \<open>merge_overlay_entries\<close>).

  The directory's path is read before the listing is requested and the table is locked again
  after the answer came, so the two are separate parameters of the installation.
\<close>

section \<open>Model\<close>

record load_config =
  lc_uid :: nat
  lc_gid :: nat
  lc_dir_mode :: nat
  lc_file_mode :: nat
  lc_default_mtime :: nat
  lc_mtime :: "string \<Rightarrow> nat"
  lc_encrypting :: bool
  lc_filter_os_files :: bool

record overlay_entry =
  o_name :: string
  o_is_dir :: bool
  o_is_symlink :: bool
  o_size :: nat
  o_mtime :: nat
  o_mode :: nat

definition overlay_fin :: "overlay_entry \<Rightarrow> inode_entry \<Rightarrow> inode_entry" where
  "overlay_fin oe e =
    (let e1 = e\<lparr>e_size := o_size oe, e_mtime := o_mtime oe, e_mode := o_mode oe, e_xet_hash := None\<rparr>;
         e2 = (if is_dirty e1 then e1 else set_dirty e1)
     in if o_is_dir oe then e2\<lparr>e_children_loaded_at := None\<rparr> else e2)"

definition merge_overlay_one ::
  "load_config \<Rightarrow> nat \<Rightarrow> nat \<Rightarrow> string \<Rightarrow> overlay_entry \<Rightarrow> inode_table \<Rightarrow> inode_table option" where
  "merge_overlay_one lc now parent dir_path oe t =
    (if o_is_symlink oe \<or> (lc_filter_os_files lc \<and> is_os_junk (o_name oe)) then Some t
     else (let kind = (if o_is_dir oe then Directory else File);
               full_path = child_path dir_path (o_name oe);
               conflict = (case lookup_child t parent (o_name oe) of
                   Some e \<Rightarrow> if e_kind e \<noteq> kind then Some (e_inode e) else None
                 | None \<Rightarrow> None)
           in map_option (\<lambda>t1.
                let (ino, t2) = insert_inode parent (o_name oe) full_path kind (o_size oe) (o_mtime oe) None
                      (o_mode oe) (lc_uid lc) (lc_gid lc) now t1
                in upd_inode ino (overlay_fin oe) t2)
              (case conflict of None \<Rightarrow> Some t | Some old_ino \<Rightarrow> map_option snd (remove_inode old_ino t))))"

fun merge_overlay_all ::
  "load_config \<Rightarrow> nat \<Rightarrow> nat \<Rightarrow> string \<Rightarrow> overlay_entry list \<Rightarrow> inode_table \<Rightarrow> inode_table option" where
  "merge_overlay_all lc now parent dir_path [] t = Some t"
| "merge_overlay_all lc now parent dir_path (oe # oes) t =
    Option.bind (merge_overlay_one lc now parent dir_path oe t) (merge_overlay_all lc now parent dir_path oes)"

text \<open>\<open>overlay\<close> is the overlay directory, if there is one: its entries for a path, if it can be read.\<close>

definition merge_overlay_entries ::
  "load_config \<Rightarrow> nat \<Rightarrow> (string \<Rightarrow> overlay_entry list option) option \<Rightarrow> nat \<Rightarrow> inode_table \<Rightarrow> inode_table option" where
  "merge_overlay_entries lc now overlay parent t =
    (case overlay of
      None \<Rightarrow> Some t
    | Some read_dir \<Rightarrow>
        (let dir_path = (case t_inodes t parent of Some e \<Rightarrow> e_full_path e | None \<Rightarrow> [])
         in case read_dir dir_path of
              None \<Rightarrow> Some t
            | Some entries \<Rightarrow> merge_overlay_all lc now parent dir_path entries t))"

text \<open>The path of a listed entry relative to the listed directory.\<close>

definition relative_path :: "string \<Rightarrow> string \<Rightarrow> string option" where
  "relative_path pre path = (if pre = [] then Some path else strict_descendant_rel path pre)"

text \<open>The table, the subdirectories and the names seen so far.\<close>

type_synonym load_state = "inode_table \<times> string list \<times> string list"

definition install_nested :: "load_config \<Rightarrow> nat \<Rightarrow> nat \<Rightarrow> string \<Rightarrow> string \<Rightarrow> load_state \<Rightarrow> load_state" where
  "install_nested lc now parent pre dir_name st =
    (case st of (t, seen_dirs, seen_names) \<Rightarrow>
      if dir_name \<in> set seen_dirs then st
      else (snd (insert_inode parent dir_name (child_path pre dir_name) Directory 0 (lc_default_mtime lc) None
                  (lc_dir_mode lc) (lc_uid lc) (lc_gid lc) now t),
            dir_name # seen_dirs, seen_names))"

definition listed_fin :: "nat option \<Rightarrow> string option \<Rightarrow> inode_entry \<Rightarrow> inode_entry" where
  "listed_fin csz oid e =
    (let e1 = (case csz of Some c \<Rightarrow> e\<lparr>e_cipher_size := Some c\<rparr> | None \<Rightarrow> e)
     in case oid of Some o' \<Rightarrow> e1\<lparr>e_etag := Some o'\<rparr> | None \<Rightarrow> e1)"

definition install_direct ::
  "load_config \<Rightarrow> nat \<Rightarrow> (string \<rightharpoonup> nat) \<Rightarrow> nat \<Rightarrow> string \<Rightarrow> tree_entry \<Rightarrow> load_state \<Rightarrow> load_state" where
  "install_direct lc now sizes parent rel e st =
    (case st of (t, seen_dirs, seen_names) \<Rightarrow>
      let kind = (if te_type e = ''directory'' then Directory else File);
          size0 = (case te_size e of Some v \<Rightarrow> v | None \<Rightarrow> 0);
          mtime = (case te_mtime e of Some v \<Rightarrow> lc_mtime lc v | None \<Rightarrow> lc_default_mtime lc);
          mode = (if kind = Directory then lc_dir_mode lc else lc_file_mode lc);
          sized = (if lc_encrypting lc \<and> kind = File
            then map_option (\<lambda>plaintext. (plaintext, Some size0)) (Option.bind (te_xet_hash e) sizes)
            else Some (size0, None))
      in case sized of
           None \<Rightarrow> st
         | Some (size1, csz) \<Rightarrow>
             (let (ino, t1) = insert_inode parent rel (te_path e) kind size1 mtime (te_xet_hash e) mode
                    (lc_uid lc) (lc_gid lc) now t
              in (upd_inode ino (listed_fin csz (te_oid e)) t1, seen_dirs, rel # seen_names)))"

definition install_entry ::
  "load_config \<Rightarrow> nat \<Rightarrow> (string \<rightharpoonup> nat) \<Rightarrow> nat \<Rightarrow> string \<Rightarrow> tree_entry \<Rightarrow> load_state \<Rightarrow> load_state" where
  "install_entry lc now sizes parent pre e st =
    (case relative_path pre (te_path e) of
      None \<Rightarrow> st
    | Some rel \<Rightarrow>
        (case split_once (CHR ''/'') rel of
          Some (dir_name, _) \<Rightarrow> install_nested lc now parent pre dir_name st
        | None \<Rightarrow> install_direct lc now sizes parent rel e st))"

text \<open>The children that are neither listed nor dirty, and their removal.\<close>

definition stale_children :: "inode_table \<Rightarrow> nat \<Rightarrow> string list \<Rightarrow> nat list" where
  "stale_children t parent seen =
    (case t_inodes t parent of
      None \<Rightarrow> []
    | Some p \<Rightarrow>
        map c_ino (filter (\<lambda>c. c_name c \<notin> set seen \<and>
          (case t_inodes t (c_ino c) of Some e \<Rightarrow> \<not> is_dirty e | None \<Rightarrow> False)) (e_children p)))"

fun remove_stale :: "nat list \<Rightarrow> inode_table \<Rightarrow> inode_table option" where
  "remove_stale [] t = Some t"
| "remove_stale (ino # inos) t =
    (case has_dirty_or_open_descendants t ino of
      None \<Rightarrow> None
    | Some True \<Rightarrow> remove_stale inos t
    | Some False \<Rightarrow> Option.bind (remove_inode ino t) (\<lambda>r. remove_stale inos (snd r)))"

definition mark_loaded :: "nat \<Rightarrow> nat \<Rightarrow> inode_table \<Rightarrow> inode_table" where
  "mark_loaded now parent = upd_inode parent (\<lambda>p. p\<lparr>e_children_loaded_at := Some now, e_children_from_remote := True\<rparr>)"

text \<open>The checks of the fast path and under the directory's lock: an answer, or the path to list.\<close>

definition load_check :: "inode_table \<Rightarrow> nat \<Rightarrow> (int + bool) + string" where
  "load_check t parent =
    (case t_inodes t parent of
      None \<Rightarrow> Inl (Inl ENOENT)
    | Some e \<Rightarrow> if e_kind e \<noteq> Directory then Inl (Inl ENOTDIR)
        else if children_loaded e then Inl (Inr False)
        else Inr (e_full_path e))"

text \<open>The installation under the write lock.\<close>

definition install_listing ::
  "load_config \<Rightarrow> nat \<Rightarrow> (string \<Rightarrow> overlay_entry list option) option \<Rightarrow> (string \<rightharpoonup> nat) \<Rightarrow> nat \<Rightarrow> string \<Rightarrow>
   tree_entry list \<Rightarrow> inode_table \<Rightarrow> ((int + bool) \<times> inode_table) option" where
  "install_listing lc now overlay sizes parent pre entries t =
    (case t_inodes t parent of
      None \<Rightarrow> Some (Inl ENOENT, t)
    | Some pe \<Rightarrow>
        if children_loaded pe then Some (Inr False, t)
        else if e_kind pe \<noteq> Directory then Some (Inl ENOTDIR, t)
        else (case fold (install_entry lc now sizes parent pre) entries (t, [], []) of
          (t1, seen_dirs, seen_names) \<Rightarrow>
            Option.bind (remove_stale (stale_children t1 parent (seen_names @ seen_dirs)) t1) (\<lambda>t2.
              map_option (\<lambda>t3. (Inr True, mark_loaded now parent t3)) (merge_overlay_entries lc now overlay parent t2))))"

text \<open>
  \<open>l_wait\<close> is the state when the directory's lock is obtained, \<open>l_list\<close> the answer of
  \<open>list_tree\<close> and \<open>l_sizes\<close> the probed plaintext sizes, each with the state when it comes.
\<close>

record load_env =
  l_config :: load_config
  l_now :: nat
  l_overlay :: "(string \<Rightarrow> overlay_entry list option) option"
  l_wait :: "vfs \<Rightarrow> vfs"
  l_list :: "string \<Rightarrow> vfs \<Rightarrow> (hub_error + tree_entry list) \<times> vfs"
  l_sizes :: "tree_entry list \<Rightarrow> string \<Rightarrow> vfs \<Rightarrow> (string \<rightharpoonup> nat) \<times> vfs"

definition ensure_children_loaded :: "load_env \<Rightarrow> nat \<Rightarrow> vfs \<Rightarrow> ((int + bool) \<times> vfs) option" where
  "ensure_children_loaded le parent s =
    (case load_check (v_table s) parent of
      Inl answer \<Rightarrow> Some (answer, s)
    | Inr _ \<Rightarrow>
        (let s1 = l_wait le s
         in case load_check (v_table s1) parent of
              Inl answer \<Rightarrow> Some (answer, s1)
            | Inr pre \<Rightarrow>
                (case l_list le pre s1 of
                  (Inl e, s2) \<Rightarrow> Some (Inl (to_errno e), s2)
                | (Inr entries, s2) \<Rightarrow>
                    (let (sizes, s3) = (if lc_encrypting (l_config le) then l_sizes le entries pre s2 else (Map.empty, s2))
                     in map_option (\<lambda>(answer, t). (answer, s3\<lparr>v_table := t\<rparr>))
                          (install_listing (l_config le) (l_now le) (l_overlay le) sizes parent pre entries (v_table s3))))))"

end
