(* ===== verification/Follow.thy ===== *)
theory Follow
  imports Hub_Api
begin

text \<open>
  \<open>src/src/follow.rs\<close>: the incremental parser of the server-sent event stream, the typed events and
  the stream that delivers them.  The decoding of JSON payloads (\<open>serde_json\<close>) is a parameter; the
  stream is the list of what the transport delivers, chunks or an error.
\<close>

section \<open>Events\<close>

datatype follow_op = Add | Update | Delete

record follow_change =
  fc_path :: string
  fc_op :: follow_op
  fc_size :: "nat option"
  fc_xet_hash :: "string option"
  fc_uploaded_at :: "string option"
  fc_mtime :: "string option"

datatype follow_event =
    Ready "string option"
  | Changes string "follow_change list"
  | Reset
  | Reconnect "string option"

record sse_event =
  sse_name :: string
  sse_data :: string

section \<open>Text\<close>

text \<open>
  \<open>String::from_utf8_lossy\<close>: every maximal ill-formed piece becomes U+FFFD; \<open>ill_formed_len\<close> is
  the length of the piece at the head of a string that does not start with a character.
\<close>

definition ill_formed_len :: "bytes \<Rightarrow> nat" where
  "ill_formed_len bs =
    (case bs of
      a # b # rest \<Rightarrow>
        if (a = 0xE0 \<and> 0xA0 \<le> b \<and> b \<le> 0xBF) \<or> (0xE1 \<le> a \<and> a \<le> 0xEC \<and> utf8_cont b) \<or>
           (a = 0xED \<and> 0x80 \<le> b \<and> b \<le> 0x9F) \<or> (0xEE \<le> a \<and> a \<le> 0xEF \<and> utf8_cont b)
        then 2
        else if (a = 0xF0 \<and> 0x90 \<le> b \<and> b \<le> 0xBF) \<or> (0xF1 \<le> a \<and> a \<le> 0xF3 \<and> utf8_cont b) \<or>
           (a = 0xF4 \<and> 0x80 \<le> b \<and> b \<le> 0x8F)
        then (case rest of c # _ \<Rightarrow> if utf8_cont c then 3 else 2 | [] \<Rightarrow> 2)
        else 1
    | _ \<Rightarrow> 1)"

lemma ill_formed_len_pos [simp]: "0 < ill_formed_len bs"
  by (simp add: ill_formed_len_def split: list.split)

function from_utf8_lossy :: "bytes \<Rightarrow> string" where
  "from_utf8_lossy bs =
    (if bs = [] then []
     else (case utf8_next bs of
        Some rest \<Rightarrow> of_bytes (take (length bs - length rest) bs) @ from_utf8_lossy rest
      | None \<Rightarrow> of_bytes [0xEF, 0xBF, 0xBD] @ from_utf8_lossy (drop (ill_formed_len bs) bs)))"
  by pat_completeness auto
termination
  by (relation "measure length") (auto dest: utf8_next_shorter)

declare from_utf8_lossy.simps [simp del]

section \<open>The parser\<close>

record sse_parser =
  p_buf :: bytes
  p_scanned :: nat
  p_event :: string
  p_data :: string

definition sse_new :: sse_parser where
  "sse_new = \<lparr>p_buf = [], p_scanned = 0, p_event = [], p_data = []\<rparr>"

text \<open>What is accumulated: the event name, the data and the events completed so far.\<close>

type_synonym sse_acc = "string \<times> string \<times> sse_event list"

definition sse_line :: "string \<Rightarrow> sse_acc \<Rightarrow> sse_acc" where
  "sse_line line acc =
    (case acc of (event, data, events) \<Rightarrow>
      if line = [] then
        (if event \<noteq> [] \<or> data \<noteq> []
         then ([], [], events @ [\<lparr>sse_name = event, sse_data = data\<rparr>])
         else (event, data, events))
      else if starts_with line '':'' then (event, data, events)
      else (let (field, val) = (case split_once (CHR '':'') line of
                  Some (field, val) \<Rightarrow> (field, case strip_prefix val '' '' of Some v \<Rightarrow> v | None \<Rightarrow> val)
                | None \<Rightarrow> (line, []))
            in if field = ''event'' then (val, data, events)
               else if field = ''data'' then (event, (if data \<noteq> [] then data @ [CHR 0x0A] else data) @ val, events)
               else (event, data, events)))"

definition take_line :: "bytes \<Rightarrow> sse_acc \<Rightarrow> sse_acc" where
  "take_line raw = sse_line (trim_end ((=) (CHR 0x0D)) (from_utf8_lossy raw))"

fun position :: "('a \<Rightarrow> bool) \<Rightarrow> 'a list \<Rightarrow> nat option" where
  "position p [] = None"
| "position p (x # xs) = (if p x then Some 0 else map_option Suc (position p xs))"

lemma position_less: "position p xs = Some i \<Longrightarrow> i < length xs"
  by (induction xs arbitrary: i) (auto split: if_splits)

function push_loop :: "bytes \<Rightarrow> nat \<Rightarrow> nat \<Rightarrow> sse_acc \<Rightarrow> nat \<times> sse_acc" where
  "push_loop buf consumed scanned acc =
    (case position (\<lambda>b. b = 0x0A) (drop scanned buf) of
      None \<Rightarrow> (consumed, acc)
    | Some pos \<Rightarrow>
        (let end = scanned + pos
         in push_loop buf (end + 1) (end + 1) (take_line (drop consumed (take end buf)) acc)))"
  by pat_completeness auto
termination
  by (relation "measure (\<lambda>(buf, _, scanned, _). length buf - scanned)") (auto dest: position_less)

declare push_loop.simps [simp del]

definition sse_push :: "bytes \<Rightarrow> sse_parser \<Rightarrow> sse_event list \<times> sse_parser" where
  "sse_push chunk p =
    (let buf = p_buf p @ chunk;
         (consumed, event, data, events) = push_loop buf 0 (p_scanned p) (p_event p, p_data p, [])
     in (events, \<lparr>p_buf = drop consumed buf, p_scanned = length buf - consumed, p_event = event, p_data = data\<rparr>))"

section \<open>Typed events and the stream\<close>

record follow_codec =
  j_cursor :: "string \<Rightarrow> (string option) option"
  j_changes :: "string \<Rightarrow> (string \<times> follow_change list) option"

definition parse_follow_event :: "follow_codec \<Rightarrow> sse_event \<Rightarrow> follow_event option" where
  "parse_follow_event js raw =
    (let cursor_data = (if sse_data raw = [] then ''{}'' else sse_data raw)
     in if sse_name raw = ''ready'' then map_option Ready (j_cursor js cursor_data)
        else if sse_name raw = ''changes'' then map_option (\<lambda>(c, cs). Changes c cs) (j_changes js (sse_data raw))
        else if sse_name raw = ''reset'' then Some Reset
        else if sse_name raw = ''reconnect'' then map_option Reconnect (j_cursor js cursor_data)
        else None)"

definition rebase :: "string \<Rightarrow> follow_change list \<Rightarrow> follow_change list" where
  "rebase pre changes =
    (if pre = [] then changes
     else List.map_filter (\<lambda>c. map_option (\<lambda>rel. c\<lparr>fc_path := rel\<rparr>) (strict_descendant_rel (fc_path c) pre)) changes)"

definition rebase_event :: "string \<Rightarrow> follow_event \<Rightarrow> follow_event" where
  "rebase_event pre ev = (case ev of Changes c cs \<Rightarrow> Changes c (rebase pre cs) | _ \<Rightarrow> ev)"

record follow_stream =
  f_stream :: "(hub_error + bytes) list"
  f_parser :: sse_parser
  f_queued :: "follow_event list"
  f_prefix :: string

definition queue_chunk :: "follow_codec \<Rightarrow> bytes \<Rightarrow> follow_stream \<Rightarrow> follow_stream" where
  "queue_chunk js chunk fs =
    (let (raws, p) = sse_push chunk (f_parser fs)
     in fs\<lparr>f_parser := p,
           f_queued := f_queued fs @ map (rebase_event (f_prefix fs)) (List.map_filter (parse_follow_event js) raws)\<rparr>)"

function next_event :: "follow_codec \<Rightarrow> follow_stream \<Rightarrow> (hub_error + follow_event option) \<times> follow_stream" where
  "next_event js fs =
    (case f_queued fs of
      ev # rest \<Rightarrow> (Inr (Some ev), fs\<lparr>f_queued := rest\<rparr>)
    | [] \<Rightarrow>
        (case f_stream fs of
          [] \<Rightarrow> (Inr None, fs)
        | Inl e # rest \<Rightarrow> (Inl e, fs\<lparr>f_stream := rest\<rparr>)
        | Inr chunk # rest \<Rightarrow> next_event js (queue_chunk js chunk (fs\<lparr>f_stream := rest\<rparr>))))"
  by pat_completeness auto
termination
  by (relation "measure (\<lambda>(_, fs). length (f_stream fs))") (auto simp: queue_chunk_def Let_def split: prod.split)

declare next_event.simps [simp del]

section \<open>Framing does not matter\<close>

text \<open>The reference: one byte at a time, a line is handled when its end arrives.\<close>

definition byte_step :: "bytes \<times> sse_acc \<Rightarrow> u8 \<Rightarrow> bytes \<times> sse_acc" where
  "byte_step s b = (if b = 0x0A then ([], take_line (fst s) (snd s)) else (fst s @ [b], snd s))"

lemma byte_step_no_newline: "0x0A \<notin> set bs \<Longrightarrow> foldl byte_step (buf, acc) bs = (buf @ bs, acc)"
  by (induction bs arbitrary: buf) (auto simp: byte_step_def)

lemma position_Some: "position p xs = Some i \<Longrightarrow> i < length xs \<and> p (xs ! i) \<and> (\<forall>x \<in> set (take i xs). \<not> p x)"
proof (induction xs arbitrary: i)
  case (Cons x xs)
  then show ?case by (cases i) (auto split: if_splits)
qed simp

lemma position_None: "position p xs = None \<longleftrightarrow> (\<forall>x \<in> set xs. \<not> p x)"
  by (induction xs) auto

lemma push_loop_reference:
  assumes "consumed \<le> scanned" and "scanned \<le> length buf" and "0x0A \<notin> set (drop consumed (take scanned buf))"
    and "push_loop buf consumed scanned acc = (consumed', acc')"
  shows "foldl byte_step (drop consumed (take scanned buf), acc) (drop scanned buf) = (drop consumed' buf, acc') \<and>
    consumed' \<le> length buf \<and> 0x0A \<notin> set (drop consumed' buf)"
  using assms
proof (induction buf consumed scanned acc rule: push_loop.induct)
  case (1 buf consumed scanned acc)
  let ?line = "drop consumed (take scanned buf)" and ?rest = "drop scanned buf"
  have whole: "drop consumed buf = ?line @ ?rest"
  proof -
    have "drop consumed buf = drop consumed (take scanned buf @ drop scanned buf)" by simp
    also have "\<dots> = ?line @ drop (consumed - length (take scanned buf)) (drop scanned buf)" by (rule drop_append)
    finally show ?thesis using "1.prems"(1,2) by simp
  qed
  show ?case
  proof (cases "position (\<lambda>b. b = 0x0A) ?rest")
    case None
    then have "0x0A \<notin> set ?rest" by (auto simp: position_None)
    moreover have "consumed' = consumed" "acc' = acc"
      using "1.prems"(4) None by (simp_all add: push_loop.simps [of buf consumed scanned acc])
    ultimately show ?thesis
      using "1.prems"(1-3) by (auto simp: byte_step_no_newline whole)
  next
    case (Some pos)
    let ?stop = "scanned + pos"
    have pos: "pos < length ?rest" "?rest ! pos = 0x0A" "0x0A \<notin> set (take pos ?rest)"
      using position_Some [OF Some] by auto
    have rest: "?rest = take pos ?rest @ 0x0A # drop (?stop + 1) buf"
      using pos(1,2) id_take_nth_drop [OF pos(1)] by (simp add: add.commute)
    have line: "drop consumed (take ?stop buf) = ?line @ take pos ?rest"
    proof -
      have "take ?stop buf = take scanned buf @ take pos ?rest" by (simp add: take_add)
      then show ?thesis using "1.prems"(1,2) by simp
    qed
    have loop: "push_loop buf (?stop + 1) (?stop + 1) (take_line (drop consumed (take ?stop buf)) acc) = (consumed', acc')"
      using "1.prems"(4) Some by (simp add: push_loop.simps [of buf consumed scanned acc] Let_def)
    have IH: "foldl byte_step (drop (?stop + 1) (take (?stop + 1) buf), take_line (drop consumed (take ?stop buf)) acc)
        (drop (?stop + 1) buf) = (drop consumed' buf, acc') \<and> consumed' \<le> length buf \<and> 0x0A \<notin> set (drop consumed' buf)"
      using pos(1) loop by (intro "1.IH" [OF Some refl]) auto
    have "foldl byte_step (?line, acc) ?rest =
        foldl byte_step (byte_step (foldl byte_step (?line, acc) (take pos ?rest)) 0x0A) (drop (?stop + 1) buf)"
      by (subst rest) simp
    also have "\<dots> = foldl byte_step ([], take_line (drop consumed (take ?stop buf)) acc) (drop (?stop + 1) buf)"
      using pos(3) by (simp add: byte_step_no_newline byte_step_def line)
    finally show ?thesis using IH by simp
  qed
qed

text \<open>Between two chunks nothing of the buffer is a complete line, and all of it was scanned.\<close>

definition parser_ok :: "sse_parser \<Rightarrow> bool" where
  "parser_ok p \<longleftrightarrow> p_scanned p = length (p_buf p) \<and> 0x0A \<notin> set (p_buf p)"

definition add_events :: "sse_event list \<Rightarrow> bytes \<times> sse_acc \<Rightarrow> bytes \<times> sse_acc" where
  "add_events evs s = (case s of (buf, event, data, events) \<Rightarrow> (buf, event, data, evs @ events))"

lemma sse_line_events:
  "sse_line l (event, data, evs @ events) =
    (case sse_line l (event, data, events) of (event', data', events') \<Rightarrow> (event', data', evs @ events'))"
  by (simp add: sse_line_def Let_def split: prod.split option.split)

lemma byte_step_events: "byte_step (add_events evs s) b = add_events evs (byte_step s b)"
  by (cases s) (auto simp: add_events_def byte_step_def take_line_def sse_line_events split: prod.split)

lemma foldl_events: "foldl byte_step (add_events evs s) bs = add_events evs (foldl byte_step s bs)"
  by (induction bs arbitrary: s) (auto simp: byte_step_events)

lemma sse_push_reference:
  assumes "parser_ok p" and "sse_push chunk p = (events, p')"
  shows "foldl byte_step (p_buf p, p_event p, p_data p, evs) chunk = (p_buf p', p_event p', p_data p', evs @ events) \<and>
    parser_ok p'"
proof -
  let ?buf = "p_buf p @ chunk"
  obtain consumed where loop: "push_loop ?buf 0 (p_scanned p) (p_event p, p_data p, []) =
      (consumed, p_event p', p_data p', events)"
    and p': "p_buf p' = drop consumed ?buf" "p_scanned p' = length ?buf - consumed"
    using assms(2) by (auto simp: sse_push_def Let_def split: prod.splits)
  have ok: "p_scanned p = length (p_buf p)" "0x0A \<notin> set (p_buf p)" using assms(1) by (auto simp: parser_ok_def)
  have ref: "foldl byte_step (p_buf p, p_event p, p_data p, []) chunk = (p_buf p', p_event p', p_data p', events) \<and>
      0x0A \<notin> set (p_buf p')"
    using push_loop_reference [OF _ _ _ loop] ok p' by simp
  moreover have "foldl byte_step (p_buf p, p_event p, p_data p, evs) chunk =
      add_events evs (foldl byte_step (p_buf p, p_event p, p_data p, []) chunk)"
    using foldl_events [of evs "(p_buf p, p_event p, p_data p, [])" chunk] by (simp add: add_events_def)
  ultimately show ?thesis using p' by (simp add: add_events_def parser_ok_def)
qed

text \<open>The events of a list of chunks, one \<open>push\<close> each.\<close>

fun push_all :: "bytes list \<Rightarrow> sse_parser \<Rightarrow> sse_event list \<times> sse_parser" where
  "push_all [] p = ([], p)"
| "push_all (c # cs) p =
    (let (events, p1) = sse_push c p; (more_events, p2) = push_all cs p1 in (events @ more_events, p2))"

lemma push_all_reference:
  "parser_ok p \<Longrightarrow> push_all cs p = (events, p') \<Longrightarrow>
    foldl byte_step (p_buf p, p_event p, p_data p, evs) (concat cs) = (p_buf p', p_event p', p_data p', evs @ events) \<and>
    parser_ok p'"
proof (induction cs arbitrary: p events evs)
  case (Cons c cs)
  obtain ev1 p1 where push: "sse_push c p = (ev1, p1)" by (cases "sse_push c p") auto
  obtain ev2 where all: "push_all cs p1 = (ev2, p')" and events: "events = ev1 @ ev2"
    using Cons.prems(2) push by (auto split: prod.splits)
  have "foldl byte_step (p_buf p, p_event p, p_data p, evs) c = (p_buf p1, p_event p1, p_data p1, evs @ ev1) \<and> parser_ok p1"
    by (rule sse_push_reference [OF Cons.prems(1) push])
  then show ?case using Cons.IH [OF _ all, of "evs @ ev1"] events by simp
qed simp

text \<open>
  C28: the parser does not depend on how the transport cut the stream: two ways of cutting the same
  bytes into chunks give the same events and leave the same parser, and both agree with the reference
  that takes one byte at a time.
\<close>

theorem sse_framing_irrelevant:
  assumes "concat cs = concat ds"
  shows "push_all cs sse_new = push_all ds sse_new \<and>
    (case foldl byte_step ([], [], [], []) (concat cs) of (buf, event, data, events) \<Rightarrow>
      push_all cs sse_new = (events, \<lparr>p_buf = buf, p_scanned = length buf, p_event = event, p_data = data\<rparr>))"
proof -
  have new: "parser_ok sse_new" by (simp add: parser_ok_def sse_new_def)
  have "case foldl byte_step ([], [], [], []) (concat xs) of (buf, event, data, events) \<Rightarrow>
      push_all xs sse_new = (events, \<lparr>p_buf = buf, p_scanned = length buf, p_event = event, p_data = data\<rparr>)" for xs
  proof -
    obtain events p' where all: "push_all xs sse_new = (events, p')" by (cases "push_all xs sse_new") auto
    then show ?thesis
      using push_all_reference [OF new all, of "[]"] by (auto simp: sse_new_def parser_ok_def)
  qed
  from this [of cs] this [of ds] assms show ?thesis by (auto split: prod.splits)
qed

theorem sse_framing_irrelevant_witness:
  "push_all [as_bytes ''eve'', as_bytes ''nt: re'', as_bytes ''set''] sse_new = push_all [as_bytes ''event: reset''] sse_new"
  using sse_framing_irrelevant
    [of "[as_bytes ''eve'', as_bytes ''nt: re'', as_bytes ''set'']" "[as_bytes ''event: reset'']"]
  by simp

end
