(* ===== verification/Poll.thy ===== *)
theory Poll
  imports Follow Vfs Inode_Tree
begin

text \<open>
  \<open>src/src/virtual_fs/poll.rs\<close>: how remote changes reach the inode table.  The listing happens
  without the table's lock, the snapshot under the read lock and the changes under the write lock, so
  the diff takes two tables: the one that was snapshotted and the one it is applied to.  Hash maps and
  hash sets are enumerated by explicit lists.  The parsing of timestamps (\<open>chrono\<close>) is the parameter
  \<open>mt\<close>.  Durations are in milliseconds.
\<close>

section \<open>Backoff\<close>

record backoff =
  b_base :: nat
  b_exp :: nat

definition MAX_EXP :: nat where "MAX_EXP = 6"

definition DURATION_MAX :: nat where "DURATION_MAX = u64_max * 1000 + 999"

definition backoff_new :: "nat \<Rightarrow> backoff" where
  "backoff_new base = \<lparr>b_base = base, b_exp = 0\<rparr>"

definition backoff_delay :: "backoff \<Rightarrow> nat" where
  "backoff_delay b = min (b_base b * 2 ^ b_exp b) DURATION_MAX"

definition backoff_next :: "backoff \<Rightarrow> nat \<times> backoff" where
  "backoff_next b = (backoff_delay b, b\<lparr>b_exp := min (b_exp b + 1) MAX_EXP\<rparr>)"

definition max_delay :: "backoff \<Rightarrow> nat" where
  "max_delay b = min (b_base b * 2 ^ MAX_EXP) DURATION_MAX"

definition is_backing_off :: "backoff \<Rightarrow> bool" where
  "is_backing_off b \<longleftrightarrow> b_exp b > 0"

definition backoff_reset :: "backoff \<Rightarrow> backoff" where
  "backoff_reset b = b\<lparr>b_exp := 0\<rparr>"

definition should_back_off :: "hub_error \<Rightarrow> bool" where
  "should_back_off e \<longleftrightarrow> error_status e = Some 401 \<or> is_transient e"

section \<open>Single changes\<close>

datatype inval_kind = AttrOnly | Pages

type_synonym invals = "(nat \<times> inval_kind) list"

definition queue_file_invalidation :: "inode_table \<Rightarrow> nat \<Rightarrow> invals \<Rightarrow> invals" where
  "queue_file_invalidation t ino q = q @ [(ino, if has_open_handles t ino then AttrOnly else Pages)]"

definition remove_remote_file :: "nat \<Rightarrow> nat \<Rightarrow> inode_table \<times> invals \<Rightarrow> (bool \<times> inode_table \<times> invals) option" where
  "remove_remote_file now ino st =
    (let (t, q) = st
     in case t_inodes t ino of
          None \<Rightarrow> Some (False, t, q)
        | Some e \<Rightarrow>
            if is_dirty e then Some (False, t, q)
            else (let q1 = queue_file_invalidation t ino (q @ [(e_parent e, Pages)])
                  in if has_open_handles t ino
                     then Some (True, snd (unlink_one (e_parent e) (e_name e) now t), q1)
                     else map_option (\<lambda>r. (True, snd r, q1)) (remove_inode ino t)))"

section \<open>The diff against a listing\<close>

record poll_update =
  pu_ino :: nat
  pu_hash :: "string option"
  pu_etag :: "string option"
  pu_size :: nat
  pu_mtime :: nat
  pu_cipher_size :: "nat option"
  pu_needs_size_probe :: bool

datatype row_diff = is_Keep: Keep | is_Upd: Upd poll_update | is_Del: Del nat

definition remote_map :: "tree_entry list \<Rightarrow> string \<rightharpoonup> tree_entry" where
  "remote_map es = map_of (rev (map (\<lambda>e. (te_path e, e)) (filter (\<lambda>e. te_type e = ''file'') es)))"

definition row_changed :: "snapshot_row \<Rightarrow> tree_entry \<Rightarrow> bool" where
  "row_changed r remote \<longleftrightarrow>
    (if s_hash r \<noteq> None \<or> te_xet_hash remote \<noteq> None then te_xet_hash remote \<noteq> s_hash r
     else te_oid remote \<noteq> s_etag r)"

definition opt_or :: "'a option \<Rightarrow> 'a \<Rightarrow> 'a" where
  "opt_or x d = (case x of Some v \<Rightarrow> v | None \<Rightarrow> d)"

definition diff_row ::
  "(string \<Rightarrow> nat) \<Rightarrow> nat \<Rightarrow> (string \<rightharpoonup> tree_entry) \<Rightarrow> string list \<Rightarrow> snapshot_row \<Rightarrow> row_diff" where
  "diff_row mt now remotes polled r =
    (if s_dirty r then Keep
     else (case remotes (s_path r) of
        Some remote \<Rightarrow>
          (let remote_size = opt_or (te_size remote) 0;
               local_object_size = opt_or (s_cipher_size r) (s_size r)
           in if row_changed r remote \<or> remote_size \<noteq> local_object_size
              then Upd \<lparr>pu_ino = s_ino r, pu_hash = te_xet_hash remote, pu_etag = te_oid remote,
                     pu_size = (if s_cipher_size r \<noteq> None then s_size r else remote_size),
                     pu_mtime = (case te_mtime remote of Some v \<Rightarrow> mt v | None \<Rightarrow> now),
                     pu_cipher_size = (if s_cipher_size r \<noteq> None then Some remote_size else None),
                     pu_needs_size_probe = (s_cipher_size r \<noteq> None)\<rparr>
              else Keep)
      | None \<Rightarrow> if parent_path (s_path r) \<in> set polled then Del (s_ino r) else Keep))"

definition diff_rows ::
  "(string \<Rightarrow> nat) \<Rightarrow> nat \<Rightarrow> tree_entry list \<Rightarrow> string list \<Rightarrow> snapshot_row list \<Rightarrow> poll_update list \<times> nat list" where
  "diff_rows mt now es polled rows =
    (let ds = map (diff_row mt now (remote_map es) polled) rows
     in (List.map_filter (\<lambda>d. case d of Upd u \<Rightarrow> Some u | _ \<Rightarrow> None) ds,
         List.map_filter (\<lambda>d. case d of Del i \<Rightarrow> Some i | _ \<Rightarrow> None) ds))"

definition apply_update :: "poll_update \<Rightarrow> inode_table \<times> invals \<Rightarrow> inode_table \<times> invals" where
  "apply_update u st =
    (let (t, q) = st;
         (ok, t1) = update_remote_file (pu_ino u) (pu_hash u) (pu_etag u) (pu_size u) (pu_mtime u) (pu_cipher_size u) t;
         t2 = (if ok then upd_inode (pu_ino u) (\<lambda>e. e\<lparr>e_needs_size_probe := pu_needs_size_probe u\<rparr>) t1 else t1)
     in (t2, queue_file_invalidation t2 (pu_ino u) q))"

fun apply_deletions :: "nat \<Rightarrow> nat list \<Rightarrow> inode_table \<times> invals \<Rightarrow> (inode_table \<times> invals) option" where
  "apply_deletions now [] st = Some st"
| "apply_deletions now (ino # inos) st =
    (case remove_remote_file now ino st of
      None \<Rightarrow> None
    | Some (_, st1) \<Rightarrow> apply_deletions now inos st1)"

text \<open>The directories whose cached listing misses a remote path: inodes and paths.\<close>

definition note_new_path :: "inode_table \<Rightarrow> string \<Rightarrow> nat list \<times> string list \<Rightarrow> nat list \<times> string list" where
  "note_new_path t path st =
    (if get_by_path t path \<noteq> None then st
     else (let (dir_ino, dir_path) = nearest_dir_ancestor t path
           in if is_children_loaded t dir_ino \<and> dir_ino \<notin> set (fst st)
              then (fst st @ [dir_ino], snd st @ [dir_path]) else st))"

definition retain_negative :: "string \<Rightarrow> (string \<rightharpoonup> nat) \<Rightarrow> string \<rightharpoonup> nat" where
  "retain_negative dir_path nc =
    (\<lambda>k. if dir_path = [] \<or> starts_with k (dir_path @ ''/'') \<or> k = dir_path then None else nc k)"

record poll_result =
  pl_table :: inode_table
  pl_negative :: "string \<rightharpoonup> nat"
  pl_inos :: invals
  pl_dirs :: "nat list"

text \<open>
  \<open>order\<close> enumerates the snapshotted table and \<open>paths\<close> the set of remote paths.
\<close>

definition apply_poll_diff ::
  "(string \<Rightarrow> nat) \<Rightarrow> nat \<Rightarrow> nat list \<Rightarrow> string list \<Rightarrow> tree_entry list \<Rightarrow> string list \<Rightarrow> inode_table \<Rightarrow> inode_table \<Rightarrow>
   (string \<rightharpoonup> nat) \<Rightarrow> poll_result option" where
  "apply_poll_diff mt now order paths es polled snap t nc =
    (let (updates, deletions) = diff_rows mt now es polled (file_snapshot order snap);
         st1 = fold apply_update updates (t, [])
     in case apply_deletions now deletions st1 of
          None \<Rightarrow> None
        | Some (t2, inos) \<Rightarrow>
            (let (dirs, dir_paths) = fold (note_new_path t2) paths ([], [])
             in Some \<lparr>pl_table = fold invalidate_children dirs t2, pl_negative = fold retain_negative dir_paths nc,
                      pl_inos = inos, pl_dirs = dirs\<rparr>))"

section \<open>A poll round\<close>

definition split_results ::
  "(string \<times> (hub_error + tree_entry list)) list \<Rightarrow> tree_entry list \<times> string list \<times> string list \<times> bool" where
  "split_results results =
    (concat (map (\<lambda>(_, r). case r of Inr es \<Rightarrow> es | Inl _ \<Rightarrow> []) results),
     List.map_filter (\<lambda>(p, r). case r of Inr _ \<Rightarrow> Some p | Inl _ \<Rightarrow> None) results,
     List.map_filter (\<lambda>(p, r). case r of Inl _ \<Rightarrow> Some p | Inr _ \<Rightarrow> None) results,
     list_ex (\<lambda>(_, r). case r of Inl e \<Rightarrow> should_back_off e | Inr _ \<Rightarrow> False) results)"

definition confirm_deleted :: "tree_entry list \<Rightarrow> string \<Rightarrow> string list \<Rightarrow> string list" where
  "confirm_deleted es failed polled =
    (if parent_path failed \<in> set polled \<and> \<not> list_ex (\<lambda>e. te_type e = ''directory'' \<and> te_path e = failed) es
     then polled @ [failed] else polled)"

record poll_round_result =
  rd_saw_backoff_status :: bool
  rd_complete :: bool
  rd_result :: poll_result

definition depth :: "string \<Rightarrow> nat" where
  "depth p = length (filter (\<lambda>c. c = CHR ''/'') p)"

text \<open>
  \<open>results\<close> are the answers in the order they came; \<open>snap\<close> and \<open>t\<close> are the tables when the diff
  takes the read lock and the write lock.
\<close>

definition poll_round ::
  "(string \<Rightarrow> nat) \<Rightarrow> nat \<Rightarrow> nat list \<Rightarrow> string list \<Rightarrow> (string \<times> (hub_error + tree_entry list)) list \<Rightarrow>
   inode_table \<Rightarrow> inode_table \<Rightarrow> (string \<rightharpoonup> nat) \<Rightarrow> poll_round_result option" where
  "poll_round mt now order paths results snap t nc =
    (let (es, polled, failed, saw) = split_results results;
         failed_sorted = sort_key depth failed;
         polled1 = fold (confirm_deleted es) failed_sorted polled
     in map_option (\<lambda>r. \<lparr>rd_saw_backoff_status = saw, rd_complete = list_all (\<lambda>p. p \<in> set polled1) failed_sorted, rd_result = r\<rparr>)
          (apply_poll_diff mt now order paths es polled1 snap t nc))"

definition repair_sizes :: "(nat \<times> nat option) list \<Rightarrow> inode_table \<Rightarrow> inode_table" where
  "repair_sizes probed =
    fold (\<lambda>(ino, plaintext). case plaintext of
        None \<Rightarrow> id
      | Some pt \<Rightarrow> upd_inode ino (\<lambda>e. if is_dirty e then e else e\<lparr>e_size := pt, e_needs_size_probe := False\<rparr>)) probed"

section \<open>Live changes\<close>

type_synonym follow_acc = "inode_table \<times> invals \<times> nat list"

definition follow_one :: "(string \<Rightarrow> nat) \<Rightarrow> nat \<Rightarrow> follow_change \<Rightarrow> follow_acc \<Rightarrow> follow_acc option" where
  "follow_one mt now change st =
    (let (t, q, dirs) = st
     in case Option.bind (get_by_path t (fc_path change)) (\<lambda>e. if e_kind e = File then Some e else None) of
          None \<Rightarrow>
            (let (dir_ino, _) = nearest_dir_ancestor t (fc_path change)
             in Some (t, q, if is_children_loaded t dir_ino then dirs @ [dir_ino] else dirs))
        | Some e \<Rightarrow>
            if is_dirty e then Some st
            else (case fc_op change of
                Delete \<Rightarrow> map_option (\<lambda>(_, t1, q1). (t1, q1, dirs)) (remove_remote_file now (e_inode e) (t, q))
              | _ \<Rightarrow>
                  (let mtime = map_option mt (case fc_mtime change of Some v \<Rightarrow> Some v | None \<Rightarrow> fc_uploaded_at change);
                       (ok, t1) = merge_remote_file (e_inode e) (fc_xet_hash change) (fc_size change) mtime t
                   in Some (t1, if ok then queue_file_invalidation t1 (e_inode e) q else q, dirs))))"

fun follow_all :: "(string \<Rightarrow> nat) \<Rightarrow> nat \<Rightarrow> follow_change list \<Rightarrow> follow_acc \<Rightarrow> follow_acc option" where
  "follow_all mt now [] st = Some st"
| "follow_all mt now (c # cs) st =
    (case follow_one mt now c st of None \<Rightarrow> None | Some st1 \<Rightarrow> follow_all mt now cs st1)"

text \<open>The entries of a path and of all its ancestors.\<close>

function clear_negative :: "string \<Rightarrow> (string \<rightharpoonup> nat) \<Rightarrow> string \<rightharpoonup> nat" where
  "clear_negative path nc =
    (let nc1 = nc(path := None)
     in case rsplit_once (CHR ''/'') path of Some (parent, _) \<Rightarrow> clear_negative parent nc1 | None \<Rightarrow> nc1)"
  by pat_completeness auto
termination
  by (relation "measure (\<lambda>(p, _). length p)") (auto simp: rsplit_once_Some)

declare clear_negative.simps [simp del]

definition apply_follow_changes ::
  "(string \<Rightarrow> nat) \<Rightarrow> nat \<Rightarrow> follow_change list \<Rightarrow> inode_table \<Rightarrow> (string \<rightharpoonup> nat) \<Rightarrow> poll_result option" where
  "apply_follow_changes mt now changes t nc =
    map_option (\<lambda>(t1, q, dirs).
      \<lparr>pl_table = fold invalidate_children (remdups dirs) t1,
       pl_negative = fold (\<lambda>c. clear_negative (fc_path c)) (filter (\<lambda>c. fc_op c \<noteq> Delete) changes) nc,
       pl_inos = q, pl_dirs = remdups dirs\<rparr>)
      (follow_all mt now changes (t, [], []))"

end
