(* ===== verification/Vfs_Lookup.thy ===== *)
theory Vfs_Lookup
  imports Vfs_Load Poll
begin

text \<open>
  \<open>src/src/virtual_fs/mod.rs\<close>: \<open>lookup\<close> with its two miss paths, the revalidation of a cached
  file and the insertion of entries found by a HEAD request or a targeted listing.

  The Hub's answers and the probed plaintext sizes come with the state in which the operation goes
  on; the overlay directory is a parameter.
\<close>

section \<open>Model\<close>

record lookup_env =
  k_load :: load_env
  k_now :: nat
  k_serve_from_cache :: bool
  k_metadata_ttl :: nat
  k_head :: "string \<Rightarrow> vfs \<Rightarrow> (hub_error + head_file_info option) \<times> vfs"
  k_probe :: "string \<Rightarrow> nat \<Rightarrow> vfs \<Rightarrow> nat option \<times> vfs"
  k_http_date :: "string \<Rightarrow> nat"
  k_neg_order :: "vfs \<Rightarrow> string list"
  k_overlay_exists :: "string \<Rightarrow> bool option"

definition inval_of :: "inode_table \<Rightarrow> nat \<Rightarrow> inval_kind" where
  "inval_of t ino = (if has_open_handles t ino then AttrOnly else Pages)"

subsection \<open>Revalidation\<close>

definition recently_validated :: "lookup_env \<Rightarrow> inode_table \<Rightarrow> nat \<Rightarrow> bool" where
  "recently_validated le t ino \<longleftrightarrow> k_serve_from_cache le \<and>
    (case t_inodes t ino of
      Some e \<Rightarrow> (case e_last_revalidated e of Some at \<Rightarrow> k_now le - at < k_metadata_ttl le | None \<Rightarrow> False)
    | None \<Rightarrow> False)"

definition head_changed :: "head_file_info \<Rightarrow> string option \<Rightarrow> string option \<Rightarrow> bool" where
  "head_changed h current_hash current_etag \<longleftrightarrow>
    (if current_hash \<noteq> None \<or> hf_xet_hash h \<noteq> None then hf_xet_hash h \<noteq> current_hash else hf_etag h \<noteq> current_etag)"

text \<open>The new plaintext and stored sizes, resolved without the lock; \<open>None\<close> keeps the cached state.\<close>

definition resolve_sizes :: "lookup_env \<Rightarrow> head_file_info \<Rightarrow> vfs \<Rightarrow> (nat \<times> nat option) option \<times> vfs" where
  "resolve_sizes le h s =
    (case hf_size h of
      None \<Rightarrow> (None, s)
    | Some remote_size \<Rightarrow>
        if v_encrypting s
        then (case k_probe le (case hf_xet_hash h of Some x \<Rightarrow> x | None \<Rightarrow> []) remote_size s of
               (Some plaintext, s1) \<Rightarrow> (Some (plaintext, Some remote_size), s1)
             | (None, s1) \<Rightarrow> (None, s1))
        else (Some (remote_size, None), s))"

definition stamp_revalidated :: "nat \<Rightarrow> nat \<Rightarrow> inode_table \<Rightarrow> inode_table" where
  "stamp_revalidated now ino = upd_inode ino (\<lambda>e. e\<lparr>e_last_revalidated := Some now\<rparr>)"

definition revalidate_file ::
  "lookup_env \<Rightarrow> nat \<Rightarrow> string \<Rightarrow> string option \<Rightarrow> string option \<Rightarrow> vfs \<Rightarrow> (invals \<times> vfs) option" where
  "revalidate_file le ino full_path current_hash current_etag s =
    (if recently_validated le (v_table s) ino then Some ([], s)
     else (case k_head le full_path s of
        (Inl _, s1) \<Rightarrow> Some ([], s1)
      | (Inr None, s1) \<Rightarrow>
          (let t = v_table s1;
               invs = (case t_inodes t ino of None \<Rightarrow> [] | Some e \<Rightarrow> [(e_parent e, Pages), (ino, inval_of t ino)])
           in map_option (\<lambda>r. (invs, s1\<lparr>v_table := snd r\<rparr>)) (remove_inode ino t))
      | (Inr (Some h), s1) \<Rightarrow>
          if head_changed h current_hash current_etag
          then (case resolve_sizes le h s1 of
              (None, s2) \<Rightarrow> Some ([], s2)
            | (Some (visible_size, cipher_size), s2) \<Rightarrow>
                (let remote_mtime = (case hf_last_modified h of Some d \<Rightarrow> k_http_date le d | None \<Rightarrow> k_now le);
                     t1 = snd (update_remote_file ino (hf_xet_hash h) (hf_etag h) visible_size remote_mtime cipher_size (v_table s2))
                 in Some ([(ino, inval_of t1 ino)], s2\<lparr>v_table := stamp_revalidated (k_now le) ino t1\<rparr>)))
          else (let t1 = (if hf_etag h \<noteq> None then upd_inode ino (\<lambda>e. e\<lparr>e_etag := hf_etag h\<rparr>) (v_table s1) else v_table s1)
                in Some ([], s1\<lparr>v_table := stamp_revalidated (k_now le) ino t1\<rparr>))))"

subsection \<open>Inserting what a probe found\<close>

datatype HeadProbe = HeadFile head_file_info | Inconclusive | Transient hub_error

definition head_probe :: "lookup_env \<Rightarrow> string \<Rightarrow> vfs \<Rightarrow> HeadProbe \<times> vfs" where
  "head_probe le full_path s =
    (case k_head le full_path s of
      (Inr (Some h), s1) \<Rightarrow> (if hf_size h \<noteq> None then HeadFile h else Inconclusive, s1)
    | (Inr None, s1) \<Rightarrow> (Inconclusive, s1)
    | (Inl e, s1) \<Rightarrow> (if is_transient e then Transient e else Inconclusive, s1))"

definition head_sizes :: "lookup_env \<Rightarrow> head_file_info \<Rightarrow> vfs \<Rightarrow> (int + nat \<times> nat option) \<times> vfs" where
  "head_sizes le h s =
    (let n = (case hf_size h of Some n \<Rightarrow> n | None \<Rightarrow> 0)
     in if v_encrypting s
        then (case hf_xet_hash h of
               None \<Rightarrow> (Inl ENOENT, s)
             | Some hash \<Rightarrow>
                 (case k_probe le hash n s of
                   (Some plaintext, s1) \<Rightarrow> (Inr (plaintext, Some n), s1)
                 | (None, s1) \<Rightarrow> (Inl ENOENT, s1)))
        else (Inr (n, None), s))"

definition head_fin :: "string option \<Rightarrow> nat option \<Rightarrow> inode_entry \<Rightarrow> inode_entry" where
  "head_fin etag csz e =
    (let e1 = (case etag of Some x \<Rightarrow> e\<lparr>e_etag := Some x\<rparr> | None \<Rightarrow> e)
     in case csz of Some c \<Rightarrow> e1\<lparr>e_cipher_size := Some c\<rparr> | None \<Rightarrow> e1)"

text \<open>Under the write lock: the inode to answer with, and the table.\<close>

definition insert_file_locked ::
  "load_config \<Rightarrow> nat \<Rightarrow> nat \<Rightarrow> string \<Rightarrow> string \<Rightarrow> nat \<Rightarrow> nat \<Rightarrow> string option \<Rightarrow> (inode_entry \<Rightarrow> inode_entry) \<Rightarrow>
   inode_table \<Rightarrow> ((int + nat) \<times> inode_table) option" where
  "insert_file_locked lc now parent name full_path sz mtime hash fin t =
    (let insert = (\<lambda>t. let (ino, t1) = insert_inode parent name full_path File sz mtime hash (lc_file_mode lc)
                         (lc_uid lc) (lc_gid lc) now t
                       in (Inr ino, upd_inode ino fin t1))
     in case t_inodes t parent of
          None \<Rightarrow> Some (Inl ENOENT, t)
        | Some pe \<Rightarrow>
            if e_kind pe \<noteq> Directory then Some (Inl ENOTDIR, t)
            else (case lookup_child t parent name of
                None \<Rightarrow> Some (insert t)
              | Some existing \<Rightarrow>
                  if e_kind existing = File then Some (Inr (e_inode existing), t)
                  else (case has_dirty_or_open_descendants t (e_inode existing) of
                      None \<Rightarrow> None
                    | Some True \<Rightarrow> Some (Inr (e_inode existing), t)
                    | Some False \<Rightarrow> map_option (\<lambda>r. insert (snd r)) (remove_inode (e_inode existing) t))))"

definition insert_file_from_head ::
  "lookup_env \<Rightarrow> nat \<Rightarrow> string \<Rightarrow> string \<Rightarrow> head_file_info \<Rightarrow> vfs \<Rightarrow> ((int + vfs_attr) \<times> vfs) option" where
  "insert_file_from_head le parent name full_path h s =
    (case head_sizes le h s of
      (Inl e, s1) \<Rightarrow> Some (Inl e, s1)
    | (Inr (sz, csz), s1) \<Rightarrow>
        (let lc = l_config (k_load le);
             mtime = (case hf_last_modified h of Some d \<Rightarrow> k_http_date le d | None \<Rightarrow> lc_default_mtime lc)
         in map_option (\<lambda>(r, t). let s2 = s1\<lparr>v_table := t\<rparr>
                in (case r of Inl e \<Rightarrow> Inl e | Inr ino \<Rightarrow> attr_of s2 ino EIO, s2))
              (insert_file_locked lc (k_now le) parent name full_path sz mtime (hf_xet_hash h)
                 (head_fin (hf_etag h) csz) (v_table s1))))"

definition insert_dir :: "lookup_env \<Rightarrow> nat \<Rightarrow> string \<Rightarrow> string \<Rightarrow> vfs \<Rightarrow> (int + vfs_attr) \<times> vfs" where
  "insert_dir le parent name full_path s =
    (case t_inodes (v_table s) parent of
      None \<Rightarrow> (Inl ENOENT, s)
    | Some pe \<Rightarrow>
        if e_kind pe \<noteq> Directory then (Inl ENOTDIR, s)
        else (case lookup_child (v_table s) parent name of
            Some existing \<Rightarrow> (Inr (make_vfs_attr s existing), s)
          | None \<Rightarrow>
              (let lc = l_config (k_load le);
                   (ino, t) = insert_inode parent name full_path Directory 0 (lc_default_mtime lc) None
                     (lc_dir_mode lc) (lc_uid lc) (lc_gid lc) (k_now le) (v_table s);
                   s1 = s\<lparr>v_table := t\<rparr>
               in (attr_of s1 ino EIO, s1))))"

subsection \<open>The overlay\<close>

definition overlay_lookup_takes_precedence ::
  "lookup_env \<Rightarrow> nat \<Rightarrow> string \<Rightarrow> vfs \<Rightarrow> ((int + bool) \<times> vfs) option" where
  "overlay_lookup_takes_precedence le parent full_path s =
    (if l_overlay (k_load le) = None then Some (Inr False, s)
     else (case k_overlay_exists le full_path of
        None \<Rightarrow> Some (Inl EIO, s)
      | Some False \<Rightarrow> Some (Inr False, s)
      | Some True \<Rightarrow>
          map_option (\<lambda>t. (Inr True, s\<lparr>v_table := t\<rparr>))
            (merge_overlay_entries (l_config (k_load le)) (k_now le) (l_overlay (k_load le)) parent (v_table s))))"

definition lookup_answer :: "vfs \<Rightarrow> nat \<Rightarrow> string \<Rightarrow> int + vfs_attr" where
  "lookup_answer s parent name =
    (case lookup_child (v_table s) parent name of Some e \<Rightarrow> Inr (make_vfs_attr s e) | None \<Rightarrow> Inl ENOENT)"

definition lookup_neg_insert :: "lookup_env \<Rightarrow> string \<Rightarrow> vfs \<Rightarrow> vfs" where
  "lookup_neg_insert le path s = negative_cache_insert (k_neg_order le s) (k_now le) path s"

subsection \<open>Lookup\<close>

datatype fast_result =
    Hit vfs_attr
  | NeedsRevalidation nat string "string option" "string option"
  | Miss string bool
  | NotLoaded

definition lookup_fast :: "vfs \<Rightarrow> nat \<Rightarrow> string \<Rightarrow> int + fast_result" where
  "lookup_fast s parent name =
    (case t_inodes (v_table s) parent of
      None \<Rightarrow> Inl ENOENT
    | Some pe \<Rightarrow>
        if e_kind pe \<noteq> Directory then Inl ENOTDIR
        else Inr (case lookup_child (v_table s) parent name of
            Some e \<Rightarrow>
              if e_kind e = File \<and> \<not> is_dirty e
              then NeedsRevalidation (e_inode e) (e_full_path e) (e_xet_hash e) (e_etag e)
              else if e_kind e = File \<or> children_loaded pe then Hit (make_vfs_attr s e)
              else NotLoaded
          | None \<Rightarrow>
              if children_loaded pe then Miss (child_path (e_full_path pe) name) (\<not> e_children_from_remote pe)
              else NotLoaded))"

text \<open>The parent's listing is loaded and lacks the name.\<close>

definition lookup_miss :: "lookup_env \<Rightarrow> nat \<Rightarrow> string \<Rightarrow> string \<Rightarrow> bool \<Rightarrow> vfs \<Rightarrow> ((int + vfs_attr) \<times> vfs) option" where
  "lookup_miss le parent name full_path local_only s =
    (if negative_cache_check (k_now le) s full_path then Some (Inl ENOENT, s)
     else if local_only then Some (Inl ENOENT, s)
     else (case overlay_lookup_takes_precedence le parent full_path s of
        None \<Rightarrow> None
      | Some (Inl e, s1) \<Rightarrow> Some (Inl e, s1)
      | Some (Inr True, s1) \<Rightarrow> Some (lookup_answer s1 parent name, s1)
      | Some (Inr False, s1) \<Rightarrow>
          (case head_probe le full_path s1 of
            (HeadFile h, s2) \<Rightarrow> insert_file_from_head le parent name full_path h s2
          | (Transient e, s2) \<Rightarrow> Some (Inl (to_errno e), s2)
          | (Inconclusive, s2) \<Rightarrow>
              (case l_list (k_load le) full_path s2 of
                (Inl e, s3) \<Rightarrow>
                  if is_transient e then Some (Inl (to_errno e), s3)
                  else Some (Inl ENOENT, lookup_neg_insert le full_path s3)
              | (Inr entries, s3) \<Rightarrow>
                  if entries \<noteq> [] then Some (insert_dir le parent name full_path s3)
                  else Some (Inl ENOENT, lookup_neg_insert le full_path s3)))))"

text \<open>The parent's listing is not loaded.\<close>

definition lookup_slow :: "lookup_env \<Rightarrow> nat \<Rightarrow> string \<Rightarrow> vfs \<Rightarrow> ((int + vfs_attr) \<times> vfs) option" where
  "lookup_slow le parent name s =
    (case t_inodes (v_table s) parent of
      None \<Rightarrow> Some (Inl ENOENT, s)
    | Some pe \<Rightarrow>
        (let full_path = child_path (e_full_path pe) name
         in if negative_cache_check (k_now le) s full_path then Some (Inl ENOENT, s)
            else (case overlay_lookup_takes_precedence le parent full_path s of
                None \<Rightarrow> None
              | Some (Inl e, s1) \<Rightarrow> Some (Inl e, s1)
              | Some (Inr True, s1) \<Rightarrow>
                  map_option (\<lambda>(r, s2). (case r of Inl e \<Rightarrow> Inl e | Inr _ \<Rightarrow> lookup_answer s2 parent name, s2))
                    (ensure_children_loaded (k_load le) parent s1)
              | Some (Inr False, s1) \<Rightarrow>
                  (case head_probe le full_path s1 of
                    (HeadFile h, s2) \<Rightarrow> insert_file_from_head le parent name full_path h s2
                  | (probe, s2) \<Rightarrow>
                      (case ensure_children_loaded (k_load le) parent s2 of
                        None \<Rightarrow> None
                      | Some (Inl e, s3) \<Rightarrow> Some (Inl e, s3)
                      | Some (Inr freshly_listed, s3) \<Rightarrow>
                          (case lookup_child (v_table s3) parent name of
                            Some e \<Rightarrow> Some (Inr (make_vfs_attr s3 e), s3)
                          | None \<Rightarrow>
                              if freshly_listed then Some (Inl ENOENT, lookup_neg_insert le full_path s3)
                              else (case probe of
                                  Transient e \<Rightarrow> Some (Inl (to_errno e), s3)
                                | _ \<Rightarrow> Some (Inl ENOENT, s3))))))))"

definition lookup :: "lookup_env \<Rightarrow> nat \<Rightarrow> string \<Rightarrow> vfs \<Rightarrow> ((int + vfs_attr) \<times> vfs) option" where
  "lookup le parent name s =
    (case lookup_fast s parent name of
      Inl e \<Rightarrow> Some (Inl e, s)
    | Inr (Hit attr) \<Rightarrow> Some (Inr attr, s)
    | Inr (NeedsRevalidation ino full_path hash etag) \<Rightarrow>
        map_option (\<lambda>(_, s1). (attr_of s1 ino ENOENT, s1)) (revalidate_file le ino full_path hash etag s)
    | Inr (Miss full_path local_only) \<Rightarrow> lookup_miss le parent name full_path local_only s
    | Inr NotLoaded \<Rightarrow> lookup_slow le parent name s)"

end
