(* ===== verification/Vfs_Load_Safety.thy ===== *)
theory Vfs_Load_Safety
  imports Vfs_Load
begin

text \<open>
  Installing a listing: the tree invariant is kept, every listed name is found afterwards, stale
  entries go, and nothing that is dirty or open is touched.
\<close>

section \<open>Adding entries below a directory\<close>

definition core_eq :: "inode_entry \<Rightarrow> inode_entry \<Rightarrow> bool" where
  "core_eq x y \<longleftrightarrow> e_inode y = e_inode x \<and> e_parent y = e_parent x \<and> e_name y = e_name x \<and>
     e_full_path y = e_full_path x \<and> e_kind y = e_kind x \<and> e_size y = e_size x \<and> e_xet_hash y = e_xet_hash x \<and>
     e_dirty_generation y = e_dirty_generation x \<and> e_pending_deletes y = e_pending_deletes x \<and>
     e_eviction y = e_eviction x \<and> (e_kind x \<noteq> Directory \<longrightarrow> e_nlink y = e_nlink x)"

lemma core_eq_refl [simp]: "core_eq x x"
  by (simp add: core_eq_def)

lemma core_eq_trans: "core_eq x y \<Longrightarrow> core_eq y z \<Longrightarrow> core_eq x z"
  by (simp add: core_eq_def)

text \<open>\<open>extends p t t'\<close>: entries were added, only below the directory \<open>p\<close>.\<close>

definition extends :: "nat \<Rightarrow> inode_table \<Rightarrow> inode_table \<Rightarrow> bool" where
  "extends p t t' \<longleftrightarrow> wf_table t' \<and>
    (\<forall>j x. t_inodes t j = Some x \<longrightarrow> (\<exists>y. t_inodes t' j = Some y \<and> core_eq x y)) \<and>
    (\<forall>q i. t_paths t q = Some i \<longrightarrow> t_paths t' q = Some i) \<and>
    (\<forall>d. d \<noteq> p \<longrightarrow> kids t' d = kids t d)"

lemma extendsD:
  assumes "extends p t t'"
  shows ex_wf: "wf_table t'" and ex_entry: "t_inodes t j = Some x \<Longrightarrow> \<exists>y. t_inodes t' j = Some y \<and> core_eq x y"
    and ex_path: "t_paths t q = Some i \<Longrightarrow> t_paths t' q = Some i" and ex_kids: "d \<noteq> p \<Longrightarrow> kids t' d = kids t d"
  using assms unfolding extends_def by blast+

lemma extends_refl: "wf_table t \<Longrightarrow> extends p t t"
  by (simp add: extends_def)

lemma extends_trans:
  assumes "extends p t t'" and "extends p t' t''"
  shows "extends p t t''"
  unfolding extends_def
proof (intro conjI allI impI)
  show "wf_table t''" by (rule ex_wf [OF assms(2)])
  fix j x assume "t_inodes t j = Some x"
  then obtain y where y: "t_inodes t' j = Some y" "core_eq x y" using ex_entry [OF assms(1)] by blast
  from ex_entry [OF assms(2) y(1)] obtain z where "t_inodes t'' j = Some z" "core_eq y z" by blast
  then show "\<exists>z. t_inodes t'' j = Some z \<and> core_eq x z" using core_eq_trans [OF y(2)] by blast
next
  fix q i assume "t_paths t q = Some i"
  then show "t_paths t'' q = Some i" using ex_path [OF assms(1)] ex_path [OF assms(2)] by simp
next
  fix d assume "d \<noteq> p"
  then show "kids t'' d = kids t d" using ex_kids [OF assms(1)] ex_kids [OF assms(2)] by simp
qed

lemma extends_upd:
  assumes "wf_table t" and "\<And>e. same_shape e (f e) \<and> core_eq e (f e)"
  shows "extends p t (upd_inode i f t)"
  unfolding extends_def
proof (intro conjI allI impI)
  show "wf_table (upd_inode i f t)" using assms by (intro wf_upd_same_shape) auto
  show "\<exists>y. t_inodes (upd_inode i f t) j = Some y \<and> core_eq x y" if "t_inodes t j = Some x" for j x
    using that assms(2) by auto
  show "t_paths (upd_inode i f t) q = Some k" if "t_paths t q = Some k" for q k using that by simp
  show "kids (upd_inode i f t) d = kids t d" for d
    using assms(2) by (auto simp: kids_def same_shape_def split: option.split)
qed

lemma insert_extends:
  assumes wf: "wf_table t" and ok: "insert_ok t par name path"
  shows "extends par t (snd (insert_inode par name path k sz mt hash md u g now t))"
    and "\<exists>i. t_paths (snd (insert_inode par name path k sz mt hash md u g now t)) path = Some i"
    and "t_next_inode (snd (insert_inode par name path k sz mt hash md u g now t)) \<le> t_next_inode t + 1"
proof -
  let ?t = "snd (insert_inode par name path k sz mt hash md u g now t)"
  have "extends par t ?t \<and> (\<exists>i. t_paths ?t path = Some i) \<and> t_next_inode ?t \<le> t_next_inode t + 1"
  proof (cases "t_paths t path")
    case (Some i)
    have "extends par t (upd_inode i (\<lambda>e. e\<lparr>e_last_revalidated := Some now\<rparr>) t)"
      by (rule extends_upd [OF wf]) (simp add: same_shape_def core_eq_def)
    then show ?thesis using Some by (simp add: insert_inode_def)
  next
    case None
    from ok obtain pe where pe: "t_inodes t par = Some pe" "e_kind pe = Directory" by (auto simp: insert_ok_def)
    let ?i = "t_next_inode t"
    have fresh: "t_inodes t ?i = None" by (rule fresh_ino [OF wf])
    have ne: "par \<noteq> ?i" using pe fresh by auto
    have at: "t_inodes ?t j = (if j = par then Some (let pe' = add_child ?i name pe
          in if k = Directory then pe'\<lparr>e_nlink := wrap32 (e_nlink pe' + 1)\<rparr> else pe')
        else if j = ?i then Some (fresh_entry t par name path k sz mt hash md u g now) else t_inodes t j)" for j
      using None pe ne by (simp add: insert_inode_def Let_def)
    have paths: "t_paths ?t = (t_paths t)(path \<mapsto> ?i)" using None by (simp add: insert_inode_def Let_def)
    have "wf_table ?t" by (rule wf_insert_inode [OF wf ok])
    moreover have "\<exists>y. t_inodes ?t j = Some y \<and> core_eq x y" if "t_inodes t j = Some x" for j x
      using that fresh pe by (auto simp: at core_eq_def add_child_def Let_def)
    moreover have "t_paths ?t q = Some i" if "t_paths t q = Some i" for q i using that None by (auto simp: paths)
    moreover have "kids ?t d = kids t d" if "d \<noteq> par" for d
      using that fresh by (auto simp: kids_def at fresh_entry_def)
    moreover have "t_next_inode ?t \<le> ?i + 1" using None by (simp add: insert_inode_def Let_def wrap64_def)
    ultimately show ?thesis unfolding extends_def using paths by auto
  qed
  then show "extends par t ?t" "\<exists>i. t_paths ?t path = Some i" "t_next_inode ?t \<le> t_next_inode t + 1" by blast+
qed

section \<open>Installing the entries\<close>

definition listed_name :: "load_config \<Rightarrow> (string \<rightharpoonup> nat) \<Rightarrow> string \<Rightarrow> tree_entry \<Rightarrow> string option" where
  "listed_name lc sizes pre e =
    (case relative_path pre (te_path e) of
      None \<Rightarrow> None
    | Some rel \<Rightarrow>
        (case split_once (CHR ''/'') rel of
          Some (dir_name, _) \<Rightarrow> Some dir_name
        | None \<Rightarrow> if lc_encrypting lc \<and> te_type e \<noteq> ''directory'' \<and> Option.bind (te_xet_hash e) sizes = None
            then None else Some rel))"

lemma relative_path_Some:
  "relative_path pre path = Some rel \<Longrightarrow> CHR ''/'' \<notin> set rel \<Longrightarrow> path = child_path pre rel"
  by (auto simp: relative_path_def strict_descendant_rel_def strip_prefix_Some child_path_def
      split: if_splits option.splits)

lemma install_direct_Some:
  assumes "listed_name lc sizes pre e = Some rel" and "relative_path pre (te_path e) = Some rel"
    and "split_once (CHR ''/'') rel = None"
  shows "\<exists>k sz mt md csz. install_direct lc now sizes parent rel e (t, dirs, names) =
    (let r = insert_inode parent rel (te_path e) k sz mt (te_xet_hash e) md (lc_uid lc) (lc_gid lc) now t
     in (upd_inode (fst r) (listed_fin csz (te_oid e)) (snd r), dirs, rel # names))"
proof -
  let ?kind = "if te_type e = ''directory'' then Directory else File"
  let ?size0 = "case te_size e of Some v \<Rightarrow> v | None \<Rightarrow> 0"
  let ?sized = "if lc_encrypting lc \<and> ?kind = File
    then map_option (\<lambda>plaintext. (plaintext, Some ?size0)) (Option.bind (te_xet_hash e) sizes) else Some (?size0, None)"
  have "?sized \<noteq> None" using assms by (auto simp: listed_name_def split: if_splits)
  then obtain size1 csz where "?sized = Some (size1, csz)" by (metis not_None_eq surj_pair)
  then have "install_direct lc now sizes parent rel e (t, dirs, names) =
    (let r = insert_inode parent rel (te_path e) ?kind size1
         (case te_mtime e of Some v \<Rightarrow> lc_mtime lc v | None \<Rightarrow> lc_default_mtime lc) (te_xet_hash e)
         (if ?kind = Directory then lc_dir_mode lc else lc_file_mode lc) (lc_uid lc) (lc_gid lc) now t
     in (upd_inode (fst r) (listed_fin csz (te_oid e)) (snd r), dirs, rel # names))"
    unfolding install_direct_def Let_def case_prod_beta by simp
  then show ?thesis by blast
qed

lemma install_entry_step:
  assumes wf: "wf_table t" and pe: "t_inodes t parent = Some pe" "e_kind pe = Directory" "e_full_path pe = pre"
    and room: "t_next_inode t < u64_max"
    and ok: "\<And>n. listed_name lc sizes pre e = Some n \<Longrightarrow> n \<noteq> []"
    and seen: "\<And>n. n \<in> set dirs \<Longrightarrow> \<exists>i. t_paths t (child_path pre n) = Some i"
    and st': "install_entry lc now sizes parent pre e (t, dirs, names) = (t', dirs', names')"
  shows "extends parent t t' \<and> t_next_inode t' \<le> t_next_inode t + 1 \<and>
    set dirs' \<union> set names' = set dirs \<union> set names \<union> set_option (listed_name lc sizes pre e) \<and>
    set dirs \<subseteq> set dirs' \<and> (\<forall>n \<in> set_option (listed_name lc sizes pre e). \<exists>i. t_paths t' (child_path pre n) = Some i)"
proof (cases "relative_path pre (te_path e)")
  case None
  then show ?thesis using st' extends_refl [OF wf] by (simp add: install_entry_def listed_name_def)
next
  case rel: (Some rel)
  show ?thesis
  proof (cases "split_once (CHR ''/'') rel")
    case nested: (Some dr)
    obtain d r where dr: "dr = (d, r)" by (cases dr)
    then have ln: "listed_name lc sizes pre e = Some d" using rel nested by (simp add: listed_name_def)
    have "CHR ''/'' \<notin> set d" using nested dr by (simp add: split_once_Some)
    then have n: "name_ok d" using ok [OF ln] by (simp add: name_ok_def)
    have io: "insert_ok t parent d (child_path pre d)" using n room pe by (simp add: insert_ok_def)
    show ?thesis
    proof (cases "d \<in> set dirs")
      case True
      then show ?thesis
        using st' rel nested dr ln seen extends_refl [OF wf] by (auto simp: install_entry_def install_nested_def)
    next
      case False
      then show ?thesis
        using st' rel nested dr ln insert_extends [OF wf io]
        by (auto simp: install_entry_def install_nested_def)
    qed
  next
    case direct: None
    then have "CHR ''/'' \<notin> set rel" by (simp add: split_once_None)
    then have path: "te_path e = child_path pre rel" using relative_path_Some [OF rel] by simp
    show ?thesis
    proof (cases "listed_name lc sizes pre e")
      case None
      then show ?thesis
        using st' rel direct extends_refl [OF wf]
        by (auto simp: install_entry_def install_direct_def listed_name_def split: if_splits)
    next
      case (Some n)
      then have n: "n = rel" using rel direct by (auto simp: listed_name_def split: if_splits)
      then have nok: "name_ok rel" using ok [OF Some] \<open>CHR ''/'' \<notin> set rel\<close> by (simp add: name_ok_def)
      have io: "insert_ok t parent rel (te_path e)" using nok room pe path by (simp add: insert_ok_def)
      obtain k sz mt md csz where d: "install_direct lc now sizes parent rel e (t, dirs, names) =
          (let r = insert_inode parent rel (te_path e) k sz mt (te_xet_hash e) md (lc_uid lc) (lc_gid lc) now t
           in (upd_inode (fst r) (listed_fin csz (te_oid e)) (snd r), dirs, rel # names))"
        using install_direct_Some [of lc sizes pre e rel] Some n rel direct by blast
      let ?r = "insert_inode parent rel (te_path e) k sz mt (te_xet_hash e) md (lc_uid lc) (lc_gid lc) now t"
      have t': "t' = upd_inode (fst ?r) (listed_fin csz (te_oid e)) (snd ?r)" and seen': "dirs' = dirs" "names' = rel # names"
        using st' rel direct d by (auto simp: install_entry_def Let_def)
      have fin: "same_shape x (listed_fin csz (te_oid e) x) \<and> core_eq x (listed_fin csz (te_oid e) x)" for x
        by (simp add: listed_fin_def same_shape_def core_eq_def split: option.split)
      have "extends parent t t'"
        unfolding t' by (rule extends_trans [OF insert_extends(1) [OF wf io]])
          (rule extends_upd [OF ex_wf [OF insert_extends(1) [OF wf io]] fin])
      moreover have "\<exists>i. t_paths t' (child_path pre rel) = Some i" "t_next_inode t' \<le> t_next_inode t + 1"
        using insert_extends(2,3) [OF wf io] path unfolding t' by simp_all
      ultimately show ?thesis using Some n seen' by auto
    qed
  qed
qed

lemma install_entries:
  assumes "wf_table t" and "t_inodes t parent = Some pe" "e_kind pe = Directory" "e_full_path pe = pre"
    and "t_next_inode t + length es \<le> u64_max"
    and "\<And>e n. e \<in> set es \<Longrightarrow> listed_name lc sizes pre e = Some n \<Longrightarrow> n \<noteq> []"
    and "\<And>n. n \<in> set dirs \<union> set names \<Longrightarrow> \<exists>i. t_paths t (child_path pre n) = Some i"
    and "fold (install_entry lc now sizes parent pre) es (t, dirs, names) = (t', dirs', names')"
  shows "extends parent t t' \<and>
    set dirs' \<union> set names' = set dirs \<union> set names \<union> (\<Union>e \<in> set es. set_option (listed_name lc sizes pre e)) \<and>
    (\<forall>n \<in> set dirs' \<union> set names'. \<exists>i. t_paths t' (child_path pre n) = Some i)"
  using assms
proof (induction es arbitrary: t pe dirs names)
  case Nil
  then show ?case using extends_refl by auto
next
  case (Cons e es)
  obtain t1 d1 n1 where st: "install_entry lc now sizes parent pre e (t, dirs, names) = (t1, d1, n1)"
    by (cases "install_entry lc now sizes parent pre e (t, dirs, names)") auto
  have step: "extends parent t t1 \<and> t_next_inode t1 \<le> t_next_inode t + 1 \<and>
    set d1 \<union> set n1 = set dirs \<union> set names \<union> set_option (listed_name lc sizes pre e) \<and> set dirs \<subseteq> set d1 \<and>
    (\<forall>n \<in> set_option (listed_name lc sizes pre e). \<exists>i. t_paths t1 (child_path pre n) = Some i)"
    by (rule install_entry_step [OF Cons.prems(1-4) _ _ _ st]) (use Cons.prems(5-7) in auto)
  then have ex: "extends parent t t1" by blast
  obtain pe1 where pe1: "t_inodes t1 parent = Some pe1" "core_eq pe pe1" using ex_entry [OF ex Cons.prems(2)] by blast
  have seen: "\<exists>i. t_paths t1 (child_path pre n) = Some i" if "n \<in> set d1 \<union> set n1" for n
  proof (cases "n \<in> set dirs \<union> set names")
    case True
    then show ?thesis using Cons.prems(7) ex_path [OF ex] by blast
  next
    case False
    then show ?thesis using that step by blast
  qed
  have "extends parent t1 t' \<and>
    set dirs' \<union> set names' = set d1 \<union> set n1 \<union> (\<Union>e \<in> set es. set_option (listed_name lc sizes pre e)) \<and>
    (\<forall>n \<in> set dirs' \<union> set names'. \<exists>i. t_paths t' (child_path pre n) = Some i)"
  proof (rule Cons.IH [of t1 pe1])
    show "wf_table t1" by (rule ex_wf [OF ex])
    show "t_inodes t1 parent = Some pe1" "e_kind pe1 = Directory" "e_full_path pe1 = pre"
      using pe1 Cons.prems(3,4) by (simp_all add: core_eq_def)
    show "t_next_inode t1 + length es \<le> u64_max" using step Cons.prems(5) by simp
    show "n \<noteq> []" if "x \<in> set es" "listed_name lc sizes pre x = Some n" for x n
      using Cons.prems(6) [of x n] that by simp
    show "fold (install_entry lc now sizes parent pre) es (t1, d1, n1) = (t', dirs', names')"
      using Cons.prems(8) st by simp
  qed (rule seen)
  then show ?case using extends_trans [OF ex] step by auto
qed

section \<open>Removing the stale children\<close>

definition busy :: "inode_entry \<Rightarrow> bool" where
  "busy e \<longleftrightarrow> is_dirty e \<or> ev_open_handles (e_eviction e) > 0"

definition busy_below :: "inode_table \<Rightarrow> nat \<Rightarrow> bool" where
  "busy_below t i \<longleftrightarrow> (\<exists>d e. d \<in> subtree t i \<and> t_inodes t d = Some e \<and> busy e)"

lemma removes_fwd:
  "removes S t t' \<Longrightarrow> i \<notin> S \<Longrightarrow> t_inodes t i = Some e \<Longrightarrow> \<exists>f. t_inodes t' i = Some f \<and> pruned_entry S e f"
  by (metis (no_types, lifting) option_rel_Some1 removes_def)

lemma removes_bwd:
  "removes S t t' \<Longrightarrow> t_inodes t' i = Some f \<Longrightarrow> i \<notin> S \<and> (\<exists>e. t_inodes t i = Some e \<and> pruned_entry S e f)"
  by (metis (no_types, lifting) option.distinct(1) option_rel_Some2 removes_def)

lemma prune_prune: "prune S' (prune S cs) = prune (S \<union> S') cs"
  by (simp add: prune_def conj_commute)

lemma pruned_trans: "pruned_entry S e f \<Longrightarrow> pruned_entry S' f g \<Longrightarrow> pruned_entry (S \<union> S') e g"
  by (simp add: pruned_entry_def prune_prune)

lemma removes_trans:
  assumes "removes S t t'" and "removes S' t' t''"
  shows "removes (S \<union> S') t t''"
  unfolding removes_def
proof (intro conjI allI ballI impI)
  show "t_next_inode t'' = t_next_inode t" using assms by (simp add: removes_def)
  show "t_inodes t'' i = None" if "i \<in> S \<union> S'" for i
    using that removes_bwd [OF assms(2), of i] removes_bwd [OF assms(1), of i] by (cases "t_inodes t'' i") auto
  show "rel_option (pruned_entry (S \<union> S')) (t_inodes t i) (t_inodes t'' i)" if "i \<notin> S \<union> S'" for i
  proof (cases "t_inodes t i")
    case None
    then show ?thesis
      using removes_bwd [OF assms(2), of i] removes_bwd [OF assms(1), of i] by (cases "t_inodes t'' i") auto
  next
    case (Some e)
    then obtain f where f: "t_inodes t' i = Some f" "pruned_entry S e f" using removes_fwd [OF assms(1)] \<open>i \<notin> S \<union> S'\<close> by blast
    with removes_fwd [OF assms(2), of i f] obtain g where "t_inodes t'' i = Some g" "pruned_entry S' f g"
      using \<open>i \<notin> S \<union> S'\<close> by blast
    then show ?thesis using Some pruned_trans [OF f(2)] by simp
  qed
  show "t_paths t'' p = (case t_paths t p of None \<Rightarrow> None | Some i \<Rightarrow> if i \<in> S \<union> S' then None else Some i)" for p
    using assms by (simp add: removes_def split: option.split)
qed

lemma removes_kids: "removes S t t' \<Longrightarrow> set (kids t' d) \<subseteq> set (kids t d)"
  using removes_bwd [of S t t' d] by (cases "t_inodes t' d") (auto simp: kids_def pruned_entry_def prune_def)

lemma subtree_mono:
  assumes "\<And>d. d \<in> subtree t' i \<Longrightarrow> set (kids t' d) \<subseteq> set (kids t d)"
  shows "subtree t' i \<subseteq> subtree t i"
proof
  fix d assume "d \<in> subtree t' i"
  then have "(i, d) \<in> (child_edges t')\<^sup>*" by (simp add: subtree_def)
  then show "d \<in> subtree t i"
  proof induction
    case (step a b)
    then have "b \<in> set (kids t a)" using assms [of a] by (auto simp: subtree_def child_edges_kids)
    then show ?case using subtree_closed [OF step.IH] by blast
  qed simp
qed

lemma closed_set_Un:
  assumes "removes S t t'" and "closed_set t S" and "closed_set t' S'"
  shows "closed_set t (S \<union> S')"
  unfolding closed_set_def
proof (intro allI impI)
  fix i e c assume i: "i \<in> S \<union> S'" and e: "t_inodes t i = Some e" and c: "c \<in> set (e_children e)"
  show "c_ino c \<in> S \<union> S'"
  proof (cases "i \<in> S")
    case True
    then show ?thesis using assms(2) e c by (auto simp: closed_set_def)
  next
    case False
    with removes_fwd [OF assms(1) False e] obtain f where f: "t_inodes t' i = Some f" "e_children f = prune S (e_children e)"
      by (auto simp: pruned_entry_def)
    have "c_ino c \<in> S'" if "c_ino c \<notin> S"
    proof -
      have "c \<in> set (e_children f)" using that c f(2) by (simp add: prune_def)
      then show ?thesis using assms(3) i False f(1) unfolding closed_set_def by blast
    qed
    then show ?thesis by blast
  qed
qed

lemma siblings_apart:
  assumes wf: "wf_table t" and i: "i \<in> set (kids t p)" and j: "j \<in> set (kids t p)" "j \<noteq> i"
  shows "j \<notin> subtree t i"
proof
  assume "j \<in> subtree t i"
  then have "p \<in> subtree t i" using subtree_up [OF wf _ j(2,1)] by blast
  moreover from i obtain pe c where c: "t_inodes t p = Some pe" "c \<in> set (e_children pe)" "c_ino c = i" by (rule kidsE)
  from wf_child_entry [OF wf c(1,2)] obtain ce where "t_inodes t i = Some ce" "e_parent ce = p" "linked ce" "i \<noteq> ROOT_INODE"
    using c(3) by metis
  ultimately show False using parent_outside [OF wf, of i ce] by metis
qed

text \<open>What removing some children of \<open>p\<close> may do.\<close>

definition sheds :: "nat set \<Rightarrow> nat list \<Rightarrow> inode_table \<Rightarrow> inode_table \<Rightarrow> bool" where
  "sheds S inos t t' \<longleftrightarrow> wf_table t' \<and> removes S t t' \<and> closed_set t S \<and>
    (\<forall>d \<in> S. \<forall>e. t_inodes t d = Some e \<longrightarrow> \<not> busy e) \<and> (\<forall>d \<in> S. \<exists>i \<in> set inos. d \<in> subtree t i) \<and>
    (\<forall>i \<in> set inos. \<not> busy_below t i \<longrightarrow> i \<in> S)"

lemma kid_entry:
  assumes wf: "wf_table t" and i: "i \<in> set (kids t p)"
  obtains e where "t_inodes t i = Some e" "e_parent e = p" "linked e" "i \<noteq> ROOT_INODE" "p \<notin> subtree t i"
proof -
  from i obtain pe c where c: "t_inodes t p = Some pe" "c \<in> set (e_children pe)" "c_ino c = i" by (rule kidsE)
  from wf_child_entry [OF wf c(1,2)] obtain ce where "t_inodes t i = Some ce" "e_parent ce = p" "linked ce" "i \<noteq> ROOT_INODE"
    using c(3) by metis
  then show ?thesis using that parent_outside [OF wf, of i ce] by metis
qed

lemma remove_one_sheds:
  assumes wf: "wf_table t" and i: "i \<in> set (kids t p)" and b: "\<not> busy_below t i"
  obtains e t' where "remove_inode i t = Some (Some e, t')" "sheds (subtree t i) [i] t t'"
proof -
  from kid_entry [OF wf i] obtain e where e: "t_inodes t i = Some e" "linked e" "i \<noteq> ROOT_INODE" by blast
  from remove_inode_wf [OF wf this] obtain t' where t': "remove_inode i t = Some (Some e, t')" "removes (subtree t i) t t'" "wf_table t'" .
  then have "sheds (subtree t i) [i] t t'"
    using b closed_subtree unfolding sheds_def busy_below_def by auto
  then show ?thesis using that t'(1) by blast
qed

lemma sheds_trans:
  assumes a: "sheds S [i] t t'" and b: "sheds S' inos t' t''"
  shows "sheds (S \<union> S') (i # inos) t t''"
proof -
  have rm: "removes S t t'" "removes S' t' t''" and cl: "closed_set t S" "closed_set t' S'" using a b by (simp_all add: sheds_def)
  have keep: "t_inodes t' d = None \<or> (d \<notin> S \<and> (\<exists>e f. t_inodes t d = Some e \<and> t_inodes t' d = Some f \<and> (busy f \<longleftrightarrow> busy e)))" for d
    using removes_bwd [OF rm(1), of d] by (cases "t_inodes t' d") (auto simp: pruned_entry_def busy_def is_dirty_def)
  have sub: "subtree t' j \<subseteq> subtree t j" for j by (rule subtree_mono) (rule removes_kids [OF rm(1)])
  have cl': "closed_set t (S \<union> S')" by (rule closed_set_Un [OF rm(1) cl])
  have busy': "\<not> busy e" if de: "d \<in> S \<union> S'" "t_inodes t d = Some e" for d e
  proof (cases "d \<in> S")
    case True
    then show ?thesis using a de(2) by (auto simp: sheds_def)
  next
    case False
    then obtain f where "t_inodes t' d = Some f" "pruned_entry S e f" using removes_fwd [OF rm(1) _ de(2)] by blast
    moreover from this have "\<not> busy f" using b de(1) False by (auto simp: sheds_def)
    ultimately show ?thesis by (simp add: pruned_entry_def busy_def is_dirty_def)
  qed
  have below: "\<not> busy_below t' j" if "\<not> busy_below t j" for j
    unfolding busy_below_def
  proof (intro notI, elim exE conjE)
    fix d f assume d: "d \<in> subtree t' j" "t_inodes t' d = Some f" "busy f"
    then obtain e where "t_inodes t d = Some e" "busy e" using keep [of d] by auto
    then show False using that d(1) sub by (auto simp: busy_below_def)
  qed
  show ?thesis
    unfolding sheds_def
  proof (intro conjI ballI allI impI)
    show "wf_table t''" using b by (simp add: sheds_def)
    show "removes (S \<union> S') t t''" by (rule removes_trans [OF rm])
    show "\<exists>j \<in> set (i # inos). d \<in> subtree t j" if "d \<in> S \<union> S'" for d
      using that a b sub by (fastforce simp: sheds_def)
    show "j \<in> S \<union> S'" if "j \<in> set (i # inos)" "\<not> busy_below t j" for j
      using that a b below by (auto simp: sheds_def)
  qed (rule cl', rule busy')
qed

lemma remove_stale_sheds:
  assumes "wf_table t" and "distinct inos" and "set inos \<subseteq> set (kids t p)"
  shows "\<exists>S t'. remove_stale inos t = Some t' \<and> sheds S inos t t'"
  using assms
proof (induction inos arbitrary: t)
  case Nil
  have "pruned_entry {} e e" if "t_inodes t i = Some e" for i e
    using we_listing [OF wf_tableE [OF Nil(1) that]] by (simp add: pruned_entry_def prune_def listing_ok_def)
  then have "removes {} t t"
    unfolding removes_def by (auto simp: option.rel_sel split: option.split)
  then have "sheds {} [] t t" using Nil by (simp add: sheds_def closed_set_def)
  then show ?case by auto
next
  case (Cons i inos)
  have i: "i \<in> set (kids t p)" using Cons.prems by simp
  have h: "has_dirty_or_open_descendants t i = Some (busy_below t i)"
    unfolding has_dirty_or_open_correct [OF Cons.prems(1)] busy_below_def busy_def by simp
  show ?case
  proof (cases "busy_below t i")
    case True
    obtain S t' where "remove_stale inos t = Some t'" "sheds S inos t t'" using Cons.IH [of t] Cons.prems by auto
    then have "remove_stale (i # inos) t = Some t' \<and> sheds S (i # inos) t t'"
      using h True unfolding sheds_def by auto
    then show ?thesis by blast
  next
    case False
    obtain e t1 where t1: "remove_inode i t = Some (Some e, t1)" "sheds (subtree t i) [i] t t1"
      by (rule remove_one_sheds [OF Cons.prems(1) i False])
    have rm: "removes (subtree t i) t t1" using t1(2) by (simp add: sheds_def)
    have "set inos \<subseteq> set (kids t1 p)"
    proof
      fix j assume j: "j \<in> set inos"
      then have jk: "j \<in> set (kids t p)" "j \<noteq> i" using Cons.prems by auto
      have "p \<notin> subtree t i" using kid_entry [OF Cons.prems(1) i] by blast
      moreover from jk(1) obtain pe c where c: "t_inodes t p = Some pe" "c \<in> set (e_children pe)" "c_ino c = j" by (rule kidsE)
      ultimately obtain pe' where "t_inodes t1 p = Some pe'" "pruned_entry (subtree t i) pe pe'"
        using removes_fwd [OF rm, of p pe] by blast
      then show "j \<in> set (kids t1 p)"
        using c siblings_apart [OF Cons.prems(1) i jk] by (auto simp: kids_def prune_def pruned_entry_def)
    qed
    then obtain S' t' where "remove_stale inos t1 = Some t'" "sheds S' inos t1 t'"
      using Cons.IH [of t1] Cons.prems(2) t1(2) by (auto simp: sheds_def)
    then have "remove_stale (i # inos) t = Some t' \<and> sheds (subtree t i \<union> S') (i # inos) t t'"
      using h False t1 sheds_trans [OF t1(2)] by simp
    then show ?thesis by blast
  qed
qed

section \<open>The whole installation\<close>

definition listed_names :: "load_config \<Rightarrow> (string \<rightharpoonup> nat) \<Rightarrow> string \<Rightarrow> tree_entry list \<Rightarrow> string set" where
  "listed_names lc sizes pre es = (\<Union>e \<in> set es. set_option (listed_name lc sizes pre e))"

lemma extends_subtree:
  assumes wf: "wf_table t" and ex: "extends p t t1" and i: "i \<in> set (kids t1 p)"
  shows "subtree t1 i \<subseteq> subtree t i"
proof (rule subtree_mono)
  fix d assume "d \<in> subtree t1 i"
  moreover have "p \<notin> subtree t1 i" using kid_entry [OF ex_wf [OF ex] i] by blast
  ultimately have "d \<noteq> p" by blast
  then show "set (kids t1 d) \<subseteq> set (kids t d)" by (simp add: ex_kids [OF ex])
qed

lemma core_linked: "core_eq x y \<Longrightarrow> linked y = linked x"
  by (auto simp: core_eq_def linked_def)

lemma core_busy: "core_eq x y \<Longrightarrow> busy y = busy x"
  by (auto simp: core_eq_def busy_def is_dirty_def)

lemma pruned_core: "pruned_entry S x y \<Longrightarrow> core_eq x y"
  by (simp add: pruned_entry_def core_eq_def)

lemma child_of:
  assumes wf: "wf_table t" and c: "t_inodes t i = Some e" "linked e" "i \<noteq> ROOT_INODE"
  shows "i \<in> set (kids t (e_parent e))" "lookup_child t (e_parent e) (e_name e) = Some e"
proof -
  from parent_outside [OF wf c] obtain pe where pe: "t_inodes t (e_parent e) = Some pe"
    "\<lparr>c_ino = i, c_name = e_name e\<rparr> \<in> set (e_children pe)" "i \<in> set (kids t (e_parent e))" by metis
  then show "i \<in> set (kids t (e_parent e))" by simp
  have "e_child_index pe (e_name e) = Some i"
    using pe(2) we_listing [OF wf_tableE [OF wf pe(1)]] by (auto simp: listing_ok_def index_of_Some)
  then show "lookup_child t (e_parent e) (e_name e) = Some e" using pe(1) c(1) by (simp add: lookup_child_def)
qed

lemma lookup_child_kid:
  assumes wf: "wf_table t" and l: "lookup_child t p n = Some e"
  shows "e_inode e \<in> set (kids t p)" "e_name e = n" "t_inodes t (e_inode e) = Some e" "e_parent e = p" "linked e" "e_inode e \<noteq> ROOT_INODE"
proof -
  from l obtain pe i where pe: "t_inodes t p = Some pe" "e_child_index pe n = Some i" "t_inodes t i = Some e"
    by (auto simp: lookup_child_def bind_eq_Some_conv)
  have ei: "e_inode e = i" by (rule we_inode [OF wf_tableE [OF wf pe(3)]])
  from lookup_child_entry [OF wf pe(1,2)] pe(3) have e: "e_parent e = p" "e_name e = n" "linked e" "i \<noteq> ROOT_INODE" by auto
  then show "e_name e = n" "t_inodes t (e_inode e) = Some e" "e_parent e = p" "linked e" "e_inode e \<noteq> ROOT_INODE"
    using pe(3) ei by simp_all
  show "e_inode e \<in> set (kids t p)" using child_of(1) [OF wf pe(3) e(3,4)] e(1) ei by simp
qed

lemma stale_children_iff:
  assumes wf: "wf_table t" and p: "t_inodes t p = Some pe"
  shows "distinct (stale_children t p seen)"
    and "i \<in> set (stale_children t p seen) \<longleftrightarrow>
      i \<in> set (kids t p) \<and> (\<exists>e. t_inodes t i = Some e \<and> \<not> is_dirty e \<and> e_name e \<notin> set seen)"
proof -
  have "distinct (map c_ino (e_children pe))" using we_listing [OF wf_tableE [OF wf p]] by (simp add: listing_ok_def)
  then show "distinct (stale_children t p seen)" using p by (simp add: stale_children_def distinct_map_filter)
  have "\<exists>ce. t_inodes t (c_ino c) = Some ce \<and> e_name ce = c_name c" if "c \<in> set (e_children pe)" for c
    using wf_child_entry [OF wf p that] by metis
  then show "i \<in> set (stale_children t p seen) \<longleftrightarrow>
      i \<in> set (kids t p) \<and> (\<exists>e. t_inodes t i = Some e \<and> \<not> is_dirty e \<and> e_name e \<notin> set seen)"
    using p by (fastforce simp: stale_children_def kids_def split: option.splits)
qed

lemma listed_name_no_slash: "listed_name lc sizes pre e = Some n \<Longrightarrow> CHR ''/'' \<notin> set n"
  by (auto simp: listed_name_def split_once_Some split_once_None split: option.splits prod.splits if_splits)

text \<open>The table before, after the entries are in, and after the stale ones are gone.\<close>

lemma load_steps:
  assumes wf: "wf_table t" and ex: "extends p t t1" and p: "t_inodes t1 p = Some pe" "e_kind pe = Directory"
    and sh: "sheds S (stale_children t1 p seen) t1 t2"
    and seen: "\<forall>n \<in> set seen. name_ok n \<and> (\<exists>i. t_paths t1 (child_path (e_full_path pe) n) = Some i)"
  shows ls_listed: "n \<in> set seen \<Longrightarrow> lookup_child t2 p n \<noteq> None"
    and ls_busy: "t_inodes t i = Some e \<Longrightarrow> busy e \<Longrightarrow> \<exists>e'. t_inodes t2 i = Some e' \<and> core_eq e e'"
    and ls_stale: "lookup_child t p n = Some c \<Longrightarrow> n \<notin> set seen \<Longrightarrow> \<not> busy_below t (e_inode c) \<Longrightarrow> t_inodes t2 (e_inode c) = None"
    and ls_only: "t_inodes t i = Some e \<Longrightarrow> t_inodes t2 i = None \<Longrightarrow>
      \<exists>n c. lookup_child t p n = Some c \<and> n \<notin> set seen \<and> i \<in> subtree t (e_inode c)"
proof -
  note wf1 = ex_wf [OF ex]
  note stale = stale_children_iff(2) [OF wf1 p(1), of _ seen]
  have wf2: "wf_table t2" and rm: "removes S t1 t2" using sh by (simp_all add: sheds_def)
  have S: "\<exists>k \<in> set (stale_children t1 p seen). d \<in> subtree t1 k" if "d \<in> S" for d using sh that by (auto simp: sheds_def)
  show "lookup_child t2 p n \<noteq> None" if n: "n \<in> set seen" for n
  proof -
    obtain c where c: "lookup_child t1 p n = Some c"
      using lookup_None_path [OF wf1 p] seen n by fastforce
    note k = lookup_child_kid [OF wf1 c]
    have "e_inode c \<notin> S"
    proof
      assume "e_inode c \<in> S"
      then obtain j where j: "j \<in> set (stale_children t1 p seen)" "e_inode c \<in> subtree t1 j" using S by blast
      then have "j \<in> set (kids t1 p)" "e_inode c \<noteq> j" using stale n k(2,3) by auto
      then show False using siblings_apart [OF wf1 _ k(1)] j(2) by blast
    qed
    then obtain c' where c': "t_inodes t2 (e_inode c) = Some c'" "pruned_entry S c c'" using removes_fwd [OF rm _ k(3)] by blast
    then show ?thesis
      using child_of(2) [OF wf2 c'(1) _ k(6)] core_linked [OF pruned_core [OF c'(2)]] k(2,4,5)
      by (simp add: pruned_entry_def)
  qed
  show "\<exists>e'. t_inodes t2 i = Some e' \<and> core_eq e e'" if e: "t_inodes t i = Some e" "busy e" for i e
  proof -
    obtain e1 where e1: "t_inodes t1 i = Some e1" "core_eq e e1" using ex_entry [OF ex e(1)] by blast
    then have "i \<notin> S" using sh core_busy [OF e1(2)] e(2) by (auto simp: sheds_def)
    then obtain e2 where "t_inodes t2 i = Some e2" "pruned_entry S e1 e2" using removes_fwd [OF rm _ e1(1)] by blast
    then show ?thesis using core_eq_trans [OF e1(2) pruned_core] by blast
  qed
  show "t_inodes t2 (e_inode c) = None" if c: "lookup_child t p n = Some c" "n \<notin> set seen" "\<not> busy_below t (e_inode c)" for n c
  proof -
    note k = lookup_child_kid [OF wf c(1)]
    obtain c1 where c1: "t_inodes t1 (e_inode c) = Some c1" "core_eq c c1" using ex_entry [OF ex k(3)] by blast
    have kid: "e_inode c \<in> set (kids t1 p)"
      using child_of(1) [OF wf1 c1(1) _ k(6)] core_linked [OF c1(2)] k(4,5) c1(2) by (simp add: core_eq_def)
    have "\<not> busy c" using c(3) k(3) unfolding busy_below_def by (metis subtree_self)
    then have "\<not> is_dirty c1" using core_busy [OF c1(2)] by (simp add: busy_def)
    then have "e_inode c \<in> set (stale_children t1 p seen)" using stale kid c1 c(2) k(2) by (auto simp: core_eq_def)
    moreover have "\<not> busy_below t1 (e_inode c)"
      unfolding busy_below_def
    proof (intro notI, elim exE conjE)
      fix d f assume d: "d \<in> subtree t1 (e_inode c)" "t_inodes t1 d = Some f" "busy f"
      then have "d \<in> subtree t (e_inode c)" using extends_subtree [OF wf ex kid] by blast
      moreover from this obtain x where "t_inodes t d = Some x" using subtree_dom [OF wf k(3)] by blast
      ultimately show False using ex_entry [OF ex, of d x] d(2,3) core_busy c(3) by (auto simp: busy_below_def)
    qed
    ultimately have "e_inode c \<in> S" using sh by (auto simp: sheds_def)
    then show ?thesis using rm by (simp add: removes_def)
  qed
  show "\<exists>n c. lookup_child t p n = Some c \<and> n \<notin> set seen \<and> i \<in> subtree t (e_inode c)"
    if e: "t_inodes t i = Some e" "t_inodes t2 i = None" for i e
  proof -
    obtain e1 where e1: "t_inodes t1 i = Some e1" using ex_entry [OF ex e(1)] by blast
    then have "i \<in> S" using removes_fwd [OF rm _ e1] e(2) by auto
    then obtain j where j: "j \<in> set (stale_children t1 p seen)" "i \<in> subtree t1 j" using S by blast
    then obtain f where f: "j \<in> set (kids t1 p)" "t_inodes t1 j = Some f" "e_name f \<notin> set seen" using stale by blast
    from kid_entry [OF wf1 f(1)] f(2) have g: "e_parent f = p" "linked f" "j \<noteq> ROOT_INODE" "p \<notin> subtree t1 j" by auto
    have it: "i \<in> subtree t j" using extends_subtree [OF wf ex f(1)] j(2) by blast
    obtain x where x: "t_inodes t j = Some x"
    proof (cases "t_inodes t j")
      case None
      then have "kids t j = []" by (simp add: kids_def)
      then have "subtree t j = {j}" by (auto simp: subtree_def child_edges_kids elim: converse_rtranclE)
      then show ?thesis using it e(1) None by simp
    qed
    with ex_entry [OF ex x] f(2) have cx: "core_eq x f" by auto
    then have "lookup_child t p (e_name f) = Some x" "e_inode x = j"
      using child_of(2) [OF wf x _ g(3)] core_linked [OF cx] g(1,2) we_inode [OF wf_tableE [OF wf x]] by (auto simp: core_eq_def)
    then show ?thesis using f(3) it by blast
  qed
qed

lemma mark_loaded_extends: "wf_table t \<Longrightarrow> extends q t (mark_loaded now p t)"
  unfolding mark_loaded_def by (rule extends_upd) (simp_all add: same_shape_def core_eq_def)

lemma mark_loaded_lookup: "lookup_child (mark_loaded now p t) q n = None \<longleftrightarrow> lookup_child t q n = None"
  by (auto simp: mark_loaded_def lookup_child_def bind_eq_None_conv upd_inode_def split: option.splits)

lemma install_listing_effect:
  assumes "wf_table t" and "t_inodes t p = Some pe" and "e_kind pe = Directory" and "\<not> children_loaded pe"
    and "t_next_inode t + length entries \<le> u64_max"
    and "[] \<notin> listed_names lc sizes (e_full_path pe) entries"
  shows "\<exists>t' pe'. install_listing lc now None sizes p (e_full_path pe) entries t = Some (Inr True, t') \<and> wf_table t' \<and>
    t_inodes t' p = Some pe' \<and> children_loaded pe' \<and>
    (\<forall>n \<in> listed_names lc sizes (e_full_path pe) entries. lookup_child t' p n \<noteq> None) \<and>
    (\<forall>i e. t_inodes t i = Some e \<and> busy e \<longrightarrow> (\<exists>e'. t_inodes t' i = Some e' \<and> core_eq e e')) \<and>
    (\<forall>n c. lookup_child t p n = Some c \<and> n \<notin> listed_names lc sizes (e_full_path pe) entries \<and> \<not> busy_below t (e_inode c) \<longrightarrow>
      t_inodes t' (e_inode c) = None) \<and>
    (\<forall>i. t_inodes t i \<noteq> None \<and> t_inodes t' i = None \<longrightarrow>
      (\<exists>n c. lookup_child t p n = Some c \<and> n \<notin> listed_names lc sizes (e_full_path pe) entries \<and> i \<in> subtree t (e_inode c)))"
proof -
  let ?pre = "e_full_path pe" and ?L = "listed_names lc sizes (e_full_path pe) entries"
  obtain t1 ds ns where st: "fold (install_entry lc now sizes p ?pre) entries (t, [], []) = (t1, ds, ns)"
    by (cases "fold (install_entry lc now sizes p ?pre) entries (t, [], [])") auto
  have ie: "extends p t t1 \<and>
    set ds \<union> set ns = set [] \<union> set [] \<union> (\<Union>e \<in> set entries. set_option (listed_name lc sizes ?pre e)) \<and>
    (\<forall>n \<in> set ds \<union> set ns. \<exists>i. t_paths t1 (child_path ?pre n) = Some i)"
  proof (rule install_entries [OF assms(1-3) refl assms(5) _ _ st])
    show "n \<noteq> []" if "e \<in> set entries" "listed_name lc sizes ?pre e = Some n" for e n
      using that assms(6) unfolding listed_names_def by force
  qed simp
  then have ex: "extends p t t1" and L: "set (ns @ ds) = ?L" by (auto simp: listed_names_def)
  note wf1 = ex_wf [OF ex]
  obtain pe1 where pe1: "t_inodes t1 p = Some pe1" "core_eq pe pe1" using ex_entry [OF ex assms(2)] by blast
  then have k1: "e_kind pe1 = Directory" "e_full_path pe1 = ?pre" using assms(3) by (simp_all add: core_eq_def)
  have "set (stale_children t1 p (ns @ ds)) \<subseteq> set (kids t1 p)" using stale_children_iff(2) [OF wf1 pe1(1)] by blast
  then obtain S t2 where t2: "remove_stale (stale_children t1 p (ns @ ds)) t1 = Some t2" "sheds S (stale_children t1 p (ns @ ds)) t1 t2"
    using remove_stale_sheds [OF wf1 stale_children_iff(1) [OF wf1 pe1(1)]] by blast
  have "name_ok n" if "n \<in> ?L" for n
    using that assms(6) listed_name_no_slash by (auto simp: name_ok_def listed_names_def)
  then have "\<forall>n \<in> set (ns @ ds). name_ok n \<and> (\<exists>i. t_paths t1 (child_path (e_full_path pe1) n) = Some i)"
    using ie unfolding L k1(2) by (auto simp: listed_names_def)
  note ls = load_steps [OF assms(1) ex pe1(1) k1(1) t2(2) this]
  have wf2: "wf_table t2" and "removes S t1 t2" using t2(2) by (simp_all add: sheds_def)
  let ?t = "mark_loaded now p t2"
  have m: "extends p t2 ?t" by (rule mark_loaded_extends [OF wf2])
  have r: "install_listing lc now None sizes p ?pre entries t = Some (Inr True, ?t)"
    using assms(2-4) st t2(1) by (simp add: install_listing_def merge_overlay_entries_def)
  have none: "t_inodes ?t i = None \<longleftrightarrow> t_inodes t2 i = None" for i by (simp add: mark_loaded_def)
  have "p \<notin> S"
  proof
    assume "p \<in> S"
    then obtain j where "j \<in> set (kids t1 p)" "p \<in> subtree t1 j"
      using t2(2) stale_children_iff(2) [OF wf1 pe1(1)] unfolding sheds_def by blast
    then show False using kid_entry [OF wf1] by blast
  qed
  then obtain pe2 where "t_inodes t2 p = Some pe2" using removes_fwd [OF \<open>removes S t1 t2\<close> _ pe1(1)] by blast
  then have "t_inodes ?t p = Some (pe2\<lparr>e_children_loaded_at := Some now, e_children_from_remote := True\<rparr>)"
    by (simp add: mark_loaded_def)
  moreover have "lookup_child ?t p n \<noteq> None" if "n \<in> ?L" for n
    using ls(1) that by (simp only: L mark_loaded_lookup) simp
  moreover have "\<exists>e'. t_inodes ?t i = Some e' \<and> core_eq e e'" if "t_inodes t i = Some e" "busy e" for i e
    using ls(2) [OF that] ex_entry [OF m] core_eq_trans by blast
  moreover have "t_inodes ?t (e_inode c) = None" if "lookup_child t p n = Some c" "n \<notin> ?L" "\<not> busy_below t (e_inode c)" for n c
    using ls(3) [OF that(1) _ that(3)] that(2) unfolding none L by blast
  moreover have "\<exists>n c. lookup_child t p n = Some c \<and> n \<notin> ?L \<and> i \<in> subtree t (e_inode c)"
    if "t_inodes t i \<noteq> None" "t_inodes ?t i = None" for i
    using ls(4) that unfolding none L by blast
  ultimately show ?thesis using r ex_wf [OF m] by (auto simp: children_loaded_def)
qed

text \<open>
  C13: installing the listing of a directory that is not loaded yet always ends, keeps the tree
  invariant and marks the directory as loaded.  Afterwards every listed name is found (with
  encryption: every listed file whose plaintext size is known); every entry that was dirty or open is
  still there with the same place, content and dirty generation; a child that is not listed and has
  nothing dirty or open below it is gone; and nothing else of the old table is gone.  There is no overlay.
\<close>

theorem load_directory_safe:
  assumes "wf_table t" and "t_inodes t p = Some pe" and "e_kind pe = Directory" and "\<not> children_loaded pe"
    and "t_next_inode t + length entries \<le> u64_max"
    and "[] \<notin> listed_names lc sizes (e_full_path pe) entries"
  shows "\<exists>t' pe'. install_listing lc now None sizes p (e_full_path pe) entries t = Some (Inr True, t') \<and> wf_table t' \<and>
    t_inodes t' p = Some pe' \<and> children_loaded pe' \<and>
    (\<forall>n \<in> listed_names lc sizes (e_full_path pe) entries. lookup_child t' p n \<noteq> None) \<and>
    (\<forall>i e. t_inodes t i = Some e \<and> busy e \<longrightarrow> (\<exists>e'. t_inodes t' i = Some e' \<and> core_eq e e')) \<and>
    (\<forall>n c. lookup_child t p n = Some c \<and> n \<notin> listed_names lc sizes (e_full_path pe) entries \<and> \<not> busy_below t (e_inode c) \<longrightarrow>
      t_inodes t' (e_inode c) = None) \<and>
    (\<forall>i. t_inodes t i \<noteq> None \<and> t_inodes t' i = None \<longrightarrow>
      (\<exists>n c. lookup_child t p n = Some c \<and> n \<notin> listed_names lc sizes (e_full_path pe) entries \<and> i \<in> subtree t (e_inode c)))"
  by (rule install_listing_effect [OF assms])

definition plain_config :: load_config where
  "plain_config = \<lparr>lc_uid = 0, lc_gid = 0, lc_dir_mode = 493, lc_file_mode = 420, lc_default_mtime = 0,
     lc_mtime = (\<lambda>_. 0), lc_encrypting = False, lc_filter_os_files = False\<rparr>"

definition listed_g :: tree_entry where
  "listed_g = \<lparr>te_path = ''d/g'', te_type = ''file'', te_size = Some 5, te_xet_hash = Some ''x'', te_oid = None, te_mtime = None\<rparr>"

lemma listed_g_name: "listed_names plain_config Map.empty ''d'' [listed_g] = {''g''}"
  by (simp add: listed_names_def listed_name_def plain_config_def listed_g_def relative_path_def strict_descendant_rel_def
      strip_prefix_def starts_with_def)

lemma dir_with_file_entries:
  "\<exists>pe c. t_inodes dir_with_file 2 = Some pe \<and> e_kind pe = Directory \<and> \<not> children_loaded pe \<and> e_full_path pe = ''d'' \<and>
    lookup_child dir_with_file 2 ''f'' = Some c \<and> e_inode c = 3 \<and> t_inodes dir_with_file 3 = Some c \<and> \<not> busy c \<and> e_kind c = File"
  by (simp add: dir_with_file_def sample_defs wrap64_def children_loaded_def lookup_child_def busy_def is_dirty_def)

theorem load_directory_safe_witness:
  "\<exists>t'. install_listing plain_config 9 None Map.empty 2 ''d'' [listed_g] dir_with_file = Some (Inr True, t') \<and>
    wf_table t' \<and> lookup_child t' 2 ''g'' \<noteq> None \<and> t_inodes t' 3 = None"
proof -
  obtain pe c where pe: "t_inodes dir_with_file 2 = Some pe" "e_kind pe = Directory" "\<not> children_loaded pe" "e_full_path pe = ''d''"
    and c: "lookup_child dir_with_file 2 ''f'' = Some c" "e_inode c = 3" "t_inodes dir_with_file 3 = Some c" "\<not> busy c" "e_kind c = File"
    using dir_with_file_entries by blast
  have "e_children c = []" using we_listing [OF wf_tableE [OF wf_dir_with_file c(3)]] c(5) by (simp add: listing_ok_def)
  then have "subtree dir_with_file 3 = {3}"
    using c(3) by (auto simp: subtree_def child_edges_kids kids_def elim: converse_rtranclE)
  then have "\<not> busy_below dir_with_file 3" using c(3,4) by (simp add: busy_below_def)
  moreover have "t_next_inode dir_with_file + length [listed_g] \<le> u64_max"
    by (simp add: dir_with_file_def sample_defs wrap64_def u64_max_def)
  ultimately obtain t' where "install_listing plain_config 9 None Map.empty 2 ''d'' [listed_g] dir_with_file = Some (Inr True, t')"
    and "wf_table t'" and "\<forall>n \<in> {''g''}. lookup_child t' 2 n \<noteq> None"
    and "\<forall>n d. lookup_child dir_with_file 2 n = Some d \<and> n \<notin> {''g''} \<and> \<not> busy_below dir_with_file (e_inode d) \<longrightarrow>
      t_inodes t' (e_inode d) = None"
    using load_directory_safe [OF wf_dir_with_file pe(1-3), of "[listed_g]" plain_config Map.empty 9]
    unfolding pe(4) listed_g_name by blast
  moreover from this(4) [rule_format, of "''f''" c] have "t_inodes t' 3 = None"
    using c(1,2) \<open>\<not> busy_below dir_with_file 3\<close> by simp
  ultimately show ?thesis by blast
qed

end
