(* ===== verification/Vfs_Lookup_Safety.thy ===== *)
theory Vfs_Lookup_Safety
  imports Vfs_Lookup Vfs_Load_Safety
begin

text \<open>
  Lookup: a name is remembered as missing only on evidence, a transient failure is reported and never
  remembered, and what a probe inserts keeps the tree; the revalidation of a file can take away a
  file that was written to while the Hub was asked.
\<close>

section \<open>The negative cache\<close>

text \<open>The answers of the Hub leave the negative cache alone.\<close>

definition neg_quiet :: "lookup_env \<Rightarrow> bool" where
  "neg_quiet le \<longleftrightarrow>
    (\<forall>p s. v_negative (snd (k_head le p s)) = v_negative s) \<and> (\<forall>h n s. v_negative (snd (k_probe le h n s)) = v_negative s) \<and>
    (\<forall>s. v_negative (l_wait (k_load le) s) = v_negative s) \<and> (\<forall>p s. v_negative (snd (l_list (k_load le) p s)) = v_negative s) \<and>
    (\<forall>es p s. v_negative (snd (l_sizes (k_load le) es p s)) = v_negative s)"

lemma neg_quietD:
  assumes "neg_quiet le"
  shows nq_head: "k_head le p s = (a, s1) \<Longrightarrow> v_negative s1 = v_negative s"
    and nq_probe: "k_probe le h n s = (b, s1) \<Longrightarrow> v_negative s1 = v_negative s"
    and nq_wait: "v_negative (l_wait (k_load le) s) = v_negative s"
    and nq_list: "l_list (k_load le) p s = (c, s1) \<Longrightarrow> v_negative s1 = v_negative s"
    and nq_sizes: "l_sizes (k_load le) es p s = (d, s1) \<Longrightarrow> v_negative s1 = v_negative s"
  using assms unfolding neg_quiet_def by (metis snd_conv)+














text \<open>A file system with the given table, and an environment in which nothing happens between the steps.\<close>

definition plain_vfs :: "inode_table \<Rightarrow> vfs" where
  "plain_vfs t = \<lparr>v_read_only = False, v_advanced_writes = True, v_overlay = False, v_filter_os_files = False,
     v_encrypting = False, v_negative_ttl = 5, v_table = t, v_negative = Map.empty, v_flush = None,
     v_staging = sc_new None\<rparr>"

definition empty_hub :: lookup_env where
  "empty_hub = \<lparr>k_load = \<lparr>l_config = plain_config, l_now = 9, l_overlay = None, l_wait = id, l_list = (\<lambda>_ s. (Inr [], s)),
       l_sizes = (\<lambda>_ _ s. (Map.empty, s))\<rparr>,
     k_now = 9, k_serve_from_cache = True, k_metadata_ttl = 2, k_head = (\<lambda>_ s. (Inr None, s)), k_probe = (\<lambda>_ _ s. (None, s)),
     k_http_date = (\<lambda>_. 0), k_neg_order = (\<lambda>_. []), k_overlay_exists = (\<lambda>_. Some False)\<rparr>"



section \<open>Revalidation against a writer\<close>

text \<open>
  C37: a lookup can take away a file that is being written.  It finds the file clean and asks the Hub; if
  the answer is that the file is gone, the inode is removed without looking again, so when a writer
  made it dirty in the meantime (or opened it), the new content is no longer in any directory, the
  table does not know the inode, and no flush uploads it.
\<close>

theorem lookup_drops_dirty_file:
  assumes "lookup_child (v_table s) parent name = Some c" and "e_kind c = File" and "\<not> is_dirty c"
    and "t_inodes (v_table s) parent = Some pe" and "e_kind pe = Directory"
    and "\<not> recently_validated le (v_table s) (e_inode c)"
    and "k_head le (e_full_path c) s = (Inr None, s1)" and "wf_table (v_table s1)"
    and "t_inodes (v_table s1) (e_inode c) = Some e" and "is_dirty e" and "linked e" and "e_inode c \<noteq> ROOT_INODE"
  shows "\<exists>s'. lookup le parent name s = Some (Inl ENOENT, s') \<and> t_inodes (v_table s') (e_inode c) = None \<and>
    t_paths (v_table s') (e_full_path e) = None"
proof -
  obtain t' where t': "remove_inode (e_inode c) (v_table s1) = Some (Some e, t')" "removes (subtree (v_table s1) (e_inode c)) (v_table s1) t'"
    using remove_inode_wf [OF assms(8,9,11,12)] by metis
  have "t_inodes t' (e_inode c) = None" using t'(2) by (simp add: removes_def)
  moreover have "t_paths t' (e_full_path e) = None"
    using t'(2) we_path [OF wf_tableE [OF assms(8,9)] assms(11)] by (simp add: removes_def)
  ultimately show ?thesis
    using assms(1-7) t'(1)
    by (simp add: lookup_def lookup_fast_def revalidate_file_def attr_of_def Let_def)
qed

definition racing_hub :: lookup_env where
  "racing_hub = empty_hub\<lparr>k_head := (\<lambda>_ s. (Inr None, s\<lparr>v_table := upd_inode 3 set_dirty (v_table s)\<rparr>))\<rparr>"

theorem lookup_drops_dirty_file_witness:
  "\<exists>s'. lookup racing_hub 2 ''f'' (plain_vfs dir_with_file) = Some (Inl ENOENT, s') \<and> t_inodes (v_table s') 3 = None"
proof -
  let ?s = "plain_vfs dir_with_file"
  obtain pe c where h: "t_inodes dir_with_file 2 = Some pe" "e_kind pe = Directory" "lookup_child dir_with_file 2 ''f'' = Some c"
    "e_inode c = 3" "t_inodes dir_with_file 3 = Some c" "\<not> busy c" "e_kind c = File"
    using dir_with_file_entries by blast
  have "linked c" using lookup_child_kid(5) [OF wf_dir_with_file h(3)] .
  moreover have "wf_table (upd_inode 3 set_dirty dir_with_file)"
    by (rule wf_upd_same_shape [OF wf_dir_with_file]) (rule same_shape_set_dirty)
  moreover have "e_last_revalidated c = Some 7" using h(5) by (auto simp: dir_with_file_def sample_defs wrap64_def)
  ultimately show ?thesis
    using lookup_drops_dirty_file [of ?s 2 "''f''" c pe racing_hub "?s\<lparr>v_table := upd_inode 3 set_dirty dir_with_file\<rparr>" "set_dirty c"] h
    by (auto simp: plain_vfs_def racing_hub_def empty_hub_def recently_validated_def busy_def set_dirty_def is_dirty_def linked_def ROOT_INODE_def
        sat_add64_def u64_max_def)
qed

end
