(* ===== verification/Poll_Safety.thy ===== *)
theory Poll_Safety
  imports Poll
begin

text \<open>
  Applying a poll diff or a batch of live changes: the tables stay well-formed, local writes and open
  files survive, and only files the remote no longer has disappear.
\<close>

section \<open>Removing one file\<close>

text \<open>
  \<open>spares D t t'\<close>: going from \<open>t\<close> to \<open>t'\<close> leaves dirty files exactly as they are, keeps the
  inodes with open handles, adds nothing and removes or unlinks nothing outside \<open>D\<close>.
\<close>

definition spares :: "nat set \<Rightarrow> inode_table \<Rightarrow> inode_table \<Rightarrow> bool" where
  "spares D t t' \<longleftrightarrow> wf_table t' \<and>
    (\<forall>j x. t_inodes t j = Some x \<longrightarrow> is_dirty x \<longrightarrow> e_kind x \<noteq> Directory \<longrightarrow> t_inodes t' j = Some x) \<and>
    (\<forall>j. has_open_handles t j \<longrightarrow> has_open_handles t' j) \<and>
    (\<forall>j x. t_inodes t j = Some x \<longrightarrow> j \<notin> D \<longrightarrow>
      (\<exists>y. t_inodes t' j = Some y \<and> linked y = linked x \<and> e_parent y = e_parent x \<and> e_name y = e_name x)) \<and>
    (\<forall>j y. t_inodes t' j = Some y \<longrightarrow> (\<exists>x. t_inodes t j = Some x \<and> e_kind x = e_kind y \<and> is_dirty x = is_dirty y))"

lemma sparesD:
  assumes "spares D t t'"
  shows sp_wf: "wf_table t'"
    and sp_dirty: "t_inodes t j = Some x \<Longrightarrow> is_dirty x \<Longrightarrow> e_kind x \<noteq> Directory \<Longrightarrow> t_inodes t' j = Some x"
    and sp_open: "has_open_handles t j \<Longrightarrow> has_open_handles t' j"
    and sp_keep: "t_inodes t j = Some x \<Longrightarrow> j \<notin> D \<Longrightarrow>
      \<exists>y. t_inodes t' j = Some y \<and> linked y = linked x \<and> e_parent y = e_parent x \<and> e_name y = e_name x"
    and sp_back: "t_inodes t' j = Some y \<Longrightarrow> \<exists>x. t_inodes t j = Some x \<and> e_kind x = e_kind y \<and> is_dirty x = is_dirty y"
  using assms unfolding spares_def by blast+

lemma spares_refl: "wf_table t \<Longrightarrow> spares D t t"
  by (auto simp: spares_def)

lemma spares_trans:
  assumes "spares D t t'" and "spares E t' t''"
  shows "spares (D \<union> E) t t''"
  unfolding spares_def
proof (intro conjI allI impI)
  show "wf_table t''" by (rule sp_wf [OF assms(2)])
  show "t_inodes t'' j = Some x" if "t_inodes t j = Some x" "is_dirty x" "e_kind x \<noteq> Directory" for j x
    using sp_dirty [OF assms(2) sp_dirty [OF assms(1) that] that(2,3)] .
  show "has_open_handles t'' j" if "has_open_handles t j" for j
    using sp_open [OF assms(2) sp_open [OF assms(1) that]] .
  show "\<exists>y. t_inodes t'' j = Some y \<and> linked y = linked x \<and> e_parent y = e_parent x \<and> e_name y = e_name x" if "t_inodes t j = Some x" "j \<notin> D \<union> E" for j x
    using sp_keep [OF assms(1) that(1)] sp_keep [OF assms(2)] that(2) by (metis UnCI)
  show "\<exists>x. t_inodes t j = Some x \<and> e_kind x = e_kind y \<and> is_dirty x = is_dirty y" if "t_inodes t'' j = Some y" for j y
    using sp_back [OF assms(2) that] sp_back [OF assms(1)] by metis
qed

lemma spares_mono: "spares D t t' \<Longrightarrow> D \<subseteq> E \<Longrightarrow> spares E t t'"
  unfolding spares_def by blast

text \<open>Changes of one entry that leave its place in the tree, its handles and its dirtiness alone.\<close>

lemma spares_upd:
  assumes "wf_table t"
    and "\<And>e. t_inodes t i = Some e \<Longrightarrow> same_shape e (f e) \<and> e_dirty_generation (f e) = e_dirty_generation e \<and>
      e_eviction (f e) = e_eviction e \<and> (is_dirty e \<and> e_kind e \<noteq> Directory \<longrightarrow> f e = e)"
  shows "spares D t (upd_inode i f t)"
  unfolding spares_def
proof (intro conjI allI impI)
  show "wf_table (upd_inode i f t)" using assms by (intro wf_upd_same_shape) auto
  show "t_inodes (upd_inode i f t) j = Some x" if "t_inodes t j = Some x" "is_dirty x" "e_kind x \<noteq> Directory" for j x
    using assms(2) that by auto
  show "has_open_handles (upd_inode i f t) j" if "has_open_handles t j" for j
    using assms(2) that by (auto simp: has_open_handles_def split: option.splits)
  show "\<exists>y. t_inodes (upd_inode i f t) j = Some y \<and> linked y = linked x \<and> e_parent y = e_parent x \<and> e_name y = e_name x"
    if "t_inodes t j = Some x" for j x
    using assms(2) that same_shape_linked by (auto simp: same_shape_def)
  show "\<exists>x. t_inodes t j = Some x \<and> e_kind x = e_kind y \<and> is_dirty x = is_dirty y"
    if "t_inodes (upd_inode i f t) j = Some y" for j y
    using assms(2) that by (auto simp: same_shape_def is_dirty_def split: if_splits)
qed

text \<open>A linked file and its parent.\<close>

lemma linked_file_parent:
  assumes "wf_table t" and "t_inodes t i = Some e" and "e_kind e \<noteq> Directory" and "linked e"
  obtains pe where "t_inodes t (e_parent e) = Some pe" "e_kind pe = Directory" "e_child_index pe (e_name e) = Some i"
    "e_parent e \<noteq> i" "i \<noteq> ROOT_INODE" "e_children e = []"
proof -
  note we = wf_tableE [OF assms(1,2)]
  have ir: "i \<noteq> ROOT_INODE" using nondir_not_root [OF assms(1,2,3)] .
  obtain pe where pe: "t_inodes t (e_parent e) = Some pe" "e_kind pe = Directory"
    "\<lparr>c_ino = e_inode e, c_name = e_name e\<rparr> \<in> set (e_children pe)"
    using we_attached [OF we ir assms(4)] by (auto simp: attached_def)
  have "e_child_index pe (e_name e) = Some i"
    using pe(3) we_listing [OF wf_tableE [OF assms(1) pe(1)]] we_inode [OF we] by (auto simp: listing_ok_def index_of_Some)
  moreover have "e_children e = []" using we_listing [OF we] assms(3) by (simp add: listing_ok_def)
  moreover have "e_parent e \<noteq> i" using pe(1,2) assms(2,3) by (metis option.inject)
  ultimately show ?thesis using that pe(1,2) ir by blast
qed

text \<open>What a removal does to the entries: the parent loses a child, the file goes or is orphaned.\<close>

lemma spares_removed:
  assumes wf: "wf_table t" "wf_table t'" and e: "t_inodes t i = Some e" "\<not> is_dirty e" "e_kind e \<noteq> Directory"
    and pe: "t_inodes t p = Some pe" "e_kind pe = Directory" "p \<noteq> i"
    and t': "t_inodes t' = (t_inodes t)(i := x, p \<mapsto> pe')"
    and pe': "e_kind pe' = Directory" "e_dirty_generation pe' = e_dirty_generation pe" "e_eviction pe' = e_eviction pe"
      "e_parent pe' = e_parent pe" "e_name pe' = e_name pe"
    and x: "\<And>y. x = Some y \<Longrightarrow> e_kind y = e_kind e \<and> e_dirty_generation y = e_dirty_generation e \<and> e_eviction y = e_eviction e"
      "has_open_handles t i \<Longrightarrow> x \<noteq> None"
  shows "spares {i} t t'"
proof -
  have at: "t_inodes t' j = (if j = p then Some pe' else if j = i then x else t_inodes t j)" for j
    using pe(3) t' by simp
  show ?thesis
    unfolding spares_def
  proof (intro conjI allI impI)
    show "wf_table t'" by (rule wf(2))
    show "t_inodes t' j = Some y" if y: "t_inodes t j = Some y" "is_dirty y" "e_kind y \<noteq> Directory" for j y
    proof -
      have "j \<noteq> p" "j \<noteq> i" using y e pe by auto
      then show ?thesis using y(1) by (simp add: at)
    qed
    show "has_open_handles t' j" if j: "has_open_handles t j" for j
    proof (cases "j = i")
      case True
      with j x(2) obtain y where "x = Some y" by blast
      with x(1) j True e(1) pe(3) show ?thesis by (simp add: has_open_handles_def at)
    next
      case False
      with j pe(1) pe'(3) show ?thesis by (cases "j = p") (simp_all add: has_open_handles_def at)
    qed
    show "\<exists>y. t_inodes t' j = Some y \<and> linked y = linked z \<and> e_parent y = e_parent z \<and> e_name y = e_name z" if z: "t_inodes t j = Some z" "j \<notin> {i}" for j z
      using z pe pe' by (cases "j = p") (auto simp: at linked_def)
    show "\<exists>z. t_inodes t j = Some z \<and> e_kind z = e_kind y \<and> is_dirty z = is_dirty y" if y: "t_inodes t' j = Some y" for j y
    proof (cases "j = p")
      case True
      with y pe pe' show ?thesis by (simp add: at is_dirty_def)
    next
      case False
      with y x(1) e(1) show ?thesis by (cases "j = i") (auto simp: at is_dirty_def)
    qed
  qed
qed

lemma remove_remote_file_spares:
  assumes wf: "wf_table t"
    and ok: "\<And>e. t_inodes t i = Some e \<Longrightarrow> \<not> is_dirty e \<Longrightarrow> e_kind e = File \<and> linked e"
  obtains b t' q' where "remove_remote_file now i (t, q) = Some (b, t', q')" "spares {i} t t'"
    "\<And>e y. t_inodes t i = Some e \<Longrightarrow> \<not> is_dirty e \<Longrightarrow> t_inodes t' i = Some y \<Longrightarrow> \<not> linked y"
proof (cases "\<exists>e. t_inodes t i = Some e \<and> \<not> is_dirty e")
  case False
  then show ?thesis
    using that [of False t q] spares_refl [OF wf] by (auto simp: remove_remote_file_def split: option.splits)
next
  case True
  then obtain e where e: "t_inodes t i = Some e" "\<not> is_dirty e" "e_kind e \<noteq> Directory" "linked e" using ok by fastforce
  obtain pe where pe: "t_inodes t (e_parent e) = Some pe" "e_kind pe = Directory" "e_child_index pe (e_name e) = Some i"
    "e_parent e \<noteq> i" "i \<noteq> ROOT_INODE" "e_children e = []"
    using linked_file_parent [OF wf e(1,3,4)] by blast
  show ?thesis
  proof (cases "has_open_handles t i")
    case True
    let ?u = "snd (unlink_one (e_parent e) (e_name e) now t)"
    have "wf_table ?u" by (rule wf_unlink_one [OF wf]) (use pe e in auto)
    moreover have ui: "t_inodes ?u i = Some (e\<lparr>e_nlink := 0, e_ctime := now\<rparr>)"
      using pe(4) by (simp add: unlink_one_form [OF wf pe(1,3) e(1,3)])
    ultimately have "spares {i} t ?u"
    proof (intro spares_removed [OF wf _ e(1,2,3) pe(1,2,4)])
      show "t_inodes ?u = (t_inodes t)(i := Some (e\<lparr>e_nlink := 0, e_ctime := now\<rparr>),
        e_parent e \<mapsto> remove_child_by_ino i pe)"
        using pe(1,4) by (auto simp: unlink_one_form [OF wf pe(1,3) e(1,3)])
    qed (use pe(2) in auto)
    moreover have "remove_remote_file now i (t, q) =
        Some (True, ?u, queue_file_invalidation t i (q @ [(e_parent e, Pages)]))"
      using e True by (simp add: remove_remote_file_def Let_def)
    moreover have "\<not> linked y" if "t_inodes ?u i = Some y" for y
      using that ui e(3) by (auto simp: linked_def)
    ultimately show ?thesis using that by metis
  next
    case False
    obtain t' where t': "remove_inode i t = Some (Some e, t')" "wf_table t'"
      using remove_inode_wf [OF wf e(1,4) pe(5)] by metis
    then have "t' = detach_from_parent (e_parent e) i (e_kind e) False (remove_path (e_full_path e) (del_inode i t))"
      using e(1) pe(6) by (simp add: remove_inode_def)
    then have ti: "t_inodes t' = (t_inodes t)(i := None, e_parent e \<mapsto> remove_child_by_ino i pe)"
      using pe(1,4) e(3) by (auto simp: detach_from_parent_def Let_def)
    have "spares {i} t t'"
      by (rule spares_removed [OF wf t'(2) e(1,2,3) pe(1,2,4) ti]) (use pe(2) False in auto)
    moreover have "remove_remote_file now i (t, q) =
        Some (True, t', queue_file_invalidation t i (q @ [(e_parent e, Pages)]))"
      using e False t'(1) by (simp add: remove_remote_file_def Let_def)
    moreover have "t_inodes t' i = None" using ti pe(4) by simp
    ultimately show ?thesis using that by (metis option.distinct(1))
  qed
qed

section \<open>The phases of the diff\<close>

lemma apply_update_spares:
  assumes "wf_table t"
  shows "spares {} t (fst (apply_update u (t, q)))"
proof (cases "\<exists>e. t_inodes t (pu_ino u) = Some e \<and> \<not> is_dirty e")
  case False
  then show ?thesis
    using spares_refl [OF assms] by (auto simp: apply_update_def update_remote_file_def split: option.splits)
next
  case True
  then obtain e where e: "t_inodes t (pu_ino u) = Some e" "\<not> is_dirty e" by blast
  let ?f = "\<lambda>e. e\<lparr>e_xet_hash := pu_hash u, e_etag := pu_etag u, e_size := pu_size u,
    e_cipher_size := pu_cipher_size u, e_mtime := pu_mtime u, e_staging_is_current := False\<rparr>"
  let ?t1 = "upd_inode (pu_ino u) ?f t"
  have 1: "spares {} t ?t1"
    using e by (intro spares_upd [OF assms]) (auto simp: same_shape_def)
  have 2: "spares {} ?t1 (upd_inode (pu_ino u) (\<lambda>e. e\<lparr>e_needs_size_probe := pu_needs_size_probe u\<rparr>) ?t1)"
    using e by (intro spares_upd [OF sp_wf [OF 1]]) (auto simp: same_shape_def is_dirty_def)
  show ?thesis
    using spares_trans [OF 1 2] e by (simp add: apply_update_def update_remote_file_def Let_def)
qed

lemma apply_updates_spare:
  "wf_table (fst st) \<Longrightarrow> spares {} (fst st) (fst (fold apply_update us st))"
proof (induction us arbitrary: st)
  case (Cons u us)
  obtain t q where st: "st = (t, q)" by (cases st)
  have 1: "spares {} t (fst (apply_update u (t, q)))"
    using Cons.prems st by (intro apply_update_spares) simp
  then have "spares {} (fst (apply_update u (t, q))) (fst (fold apply_update us (apply_update u (t, q))))"
    by (intro Cons.IH sp_wf)
  from spares_trans [OF 1 this] show ?case by (simp add: st)
qed (simp add: spares_refl)

definition deletable :: "inode_table \<Rightarrow> nat \<Rightarrow> bool" where
  "deletable t i \<longleftrightarrow> (\<forall>e. t_inodes t i = Some e \<longrightarrow> \<not> is_dirty e \<longrightarrow> e_kind e = File \<and> linked e)"

lemma spares_deletable:
  assumes "spares D t t'" and "deletable t i" and "i \<notin> D"
  shows "deletable t' i"
  unfolding deletable_def
proof (intro allI impI)
  fix y assume y: "t_inodes t' i = Some y" "\<not> is_dirty y"
  obtain x where x: "t_inodes t i = Some x" "e_kind x = e_kind y" "is_dirty x = is_dirty y"
    using sp_back [OF assms(1) y(1)] by blast
  then have "e_kind x = File" "linked x" using assms(2) y(2) by (auto simp: deletable_def)
  moreover have "linked y = linked x" using sp_keep [OF assms(1) x(1) assms(3)] y(1) by auto
  ultimately show "e_kind y = File \<and> linked y" using x(2) by simp
qed

lemma apply_deletions_spares:
  assumes "wf_table t" and "distinct inos" and "\<forall>i \<in> set inos. deletable t i"
  shows "\<exists>t' q'. apply_deletions now inos (t, q) = Some (t', q') \<and> spares (set inos) t t' \<and>
    (\<forall>i \<in> set inos. \<forall>e y. t_inodes t i = Some e \<longrightarrow> \<not> is_dirty e \<longrightarrow> t_inodes t' i = Some y \<longrightarrow> \<not> linked y)"
  using assms
proof (induction inos arbitrary: t q)
  case (Cons i inos)
  obtain b t1 q1 where r: "remove_remote_file now i (t, q) = Some (b, t1, q1)" and s1: "spares {i} t t1"
    and u1: "\<And>e y. t_inodes t i = Some e \<Longrightarrow> \<not> is_dirty e \<Longrightarrow> t_inodes t1 i = Some y \<Longrightarrow> \<not> linked y"
    by (rule remove_remote_file_spares [OF Cons.prems(1), of i now q]) (use Cons.prems(3) in \<open>auto simp: deletable_def\<close>)
  have "\<forall>j \<in> set inos. deletable t1 j"
    using Cons.prems(2,3) spares_deletable [OF s1] by auto
  then obtain t2 q2 where d: "apply_deletions now inos (t1, q1) = Some (t2, q2)" and s2: "spares (set inos) t1 t2"
    and u2: "\<forall>j \<in> set inos. \<forall>e y. t_inodes t1 j = Some e \<longrightarrow> \<not> is_dirty e \<longrightarrow> t_inodes t2 j = Some y \<longrightarrow> \<not> linked y"
    using Cons.IH [of t1 q1] Cons.prems(2) sp_wf [OF s1] by auto
  have "\<not> linked y" if j: "j \<in> set (i # inos)" and e: "t_inodes t j = Some e" "\<not> is_dirty e" and y: "t_inodes t2 j = Some y" for j e y
  proof -
    obtain x where x: "t_inodes t1 j = Some x" "is_dirty x = is_dirty y" using sp_back [OF s2 y] by blast
    show ?thesis
    proof (cases "j \<in> set inos")
      case True
      have "is_dirty x = is_dirty e" using sp_back [OF s1 x(1)] e(1) by auto
      then show ?thesis using u2 True x(1) e(2) y by blast
    next
      case False
      then have "\<not> linked x" using j u1 e x(1) by auto
      then show ?thesis using sp_keep [OF s2 x(1) False] y by auto
    qed
  qed
  then show ?case using r d spares_trans [OF s1 s2] by auto
qed (auto intro: spares_refl)

definition all_dirs :: "inode_table \<Rightarrow> nat list \<Rightarrow> bool" where
  "all_dirs t dirs \<longleftrightarrow> (\<forall>d \<in> set dirs. \<forall>e. t_inodes t d = Some e \<longrightarrow> e_kind e = Directory)"

lemma invalidate_spares: "wf_table t \<Longrightarrow> all_dirs t dirs \<Longrightarrow> spares {} t (fold invalidate_children dirs t)"
proof (induction dirs arbitrary: t)
  case (Cons d dirs)
  have 1: "spares {} t (invalidate_children d t)"
    unfolding invalidate_children_def
    using Cons.prems by (intro spares_upd) (auto simp: same_shape_def all_dirs_def)
  moreover have "all_dirs (invalidate_children d t) dirs"
    using Cons.prems(2) sp_back [OF 1] unfolding all_dirs_def by (metis list.set_intros(2))
  ultimately show ?case using spares_trans [OF 1 Cons.IH] sp_wf [OF 1] by simp
qed (simp add: spares_refl)

lemma get_dir_ino_dir: "wf_table t \<Longrightarrow> get_dir_ino t p = Some d \<Longrightarrow> \<exists>e. t_inodes t d = Some e \<and> e_kind e = Directory"
  by (auto simp: get_dir_ino_def bind_eq_Some_conv we_inode [OF wf_tableE] split: if_splits)

lemma nearest_dir_ancestor_dir:
  assumes "wf_table t"
  shows "\<exists>e. t_inodes t (fst (nearest_dir_ancestor t p)) = Some e \<and> e_kind e = Directory"
proof (induction p rule: measure_induct_rule [of length])
  case (less p)
  have root: "\<exists>e. t_inodes t ROOT_INODE = Some e \<and> e_kind e = Directory"
    using wf_wf_root [OF assms] by (auto simp: wf_root_def)
  show ?case
  proof (cases "get_dir_ino t (parent_path p)")
    case None
    then show ?thesis
      using less [OF parent_path_shorter] root by (cases "parent_path p = []") (auto simp: nearest_dir_ancestor.simps [of t p])
  next
    case (Some d)
    then show ?thesis
      using get_dir_ino_dir [OF assms Some] by (auto simp: nearest_dir_ancestor.simps [of t p] simp del: nearest_dir_ancestor.simps)
  qed
qed

lemma note_new_paths_dirs:
  assumes "wf_table t"
  shows "all_dirs t (fst st) \<Longrightarrow> all_dirs t (fst (fold (note_new_path t) paths st))"
proof (induction paths arbitrary: st)
  case (Cons p paths)
  have "all_dirs t (fst (note_new_path t p st))"
    using Cons.prems nearest_dir_ancestor_dir [OF assms, of p]
    by (auto simp: note_new_path_def all_dirs_def split: prod.splits if_splits)
  then show ?case using Cons.IH by simp
qed simp

section \<open>Applying a diff\<close>

text \<open>The rows of a snapshot and what the diff makes of them.\<close>

lemma snapshot_rows:
  assumes "wf_table snap" and "enumerates order (t_inodes snap)"
  shows "distinct (map s_ino (file_snapshot order snap))"
    and "r \<in> set (file_snapshot order snap) \<longleftrightarrow> (\<exists>e. t_inodes snap (s_ino r) = Some e \<and> e_kind e = File \<and> r = snapshot_of e)"
proof -
  have "map e_inode (table_values order snap) = order"
  proof -
    have "set order \<subseteq> dom (t_inodes snap)" using assms(2) by (simp add: enumerates_def)
    then show ?thesis
      unfolding table_values_def
      by (induction order) (auto simp: List.map_filter_simps we_inode [OF wf_tableE [OF assms(1)]])
  qed
  then have "distinct (map e_inode (table_values order snap))" using assms(2) by (simp add: enumerates_def)
  then show "distinct (map s_ino (file_snapshot order snap))"
    by (simp add: file_snapshot_def snapshot_of_def comp_def distinct_map_filter)
  have "set (table_values order snap) = ran (t_inodes snap)"
    using assms(2) by (force simp: table_values_def enumerates_def List.map_filter_def ran_def dom_def)
  then show "r \<in> set (file_snapshot order snap) \<longleftrightarrow> (\<exists>e. t_inodes snap (s_ino r) = Some e \<and> e_kind e = File \<and> r = snapshot_of e)"
    using we_inode [OF wf_tableE [OF assms(1)]]
    by (auto simp: file_snapshot_def snapshot_of_def ran_def)
qed

text \<open>A file the diff takes for deleted: it was clean, the listing of its directory came and lacks it.\<close>

definition seen_deleted :: "tree_entry list \<Rightarrow> string list \<Rightarrow> inode_table \<Rightarrow> nat \<Rightarrow> bool" where
  "seen_deleted es polled snap i \<longleftrightarrow>
    (\<exists>e. t_inodes snap i = Some e \<and> e_kind e = File \<and> \<not> is_dirty e \<and>
      (\<forall>x \<in> set es. te_type x = ''file'' \<longrightarrow> te_path x \<noteq> e_full_path e) \<and> parent_path (e_full_path e) \<in> set polled)"

lemma remote_map_None: "remote_map es p = None \<longleftrightarrow> (\<forall>x \<in> set es. te_type x = ''file'' \<longrightarrow> te_path x \<noteq> p)"
  by (auto simp: remote_map_def map_of_eq_None_iff image_iff)

lemma map_filter_map_row:
  assumes "\<And>r. g (f r) = (if P r then Some (h r) else None)"
  shows "List.map_filter g (map f rows) = map h (filter P rows)"
  by (induction rows) (auto simp: List.map_filter_simps assms)

definition row_gone :: "tree_entry list \<Rightarrow> string list \<Rightarrow> snapshot_row \<Rightarrow> bool" where
  "row_gone es polled r \<longleftrightarrow> \<not> s_dirty r \<and> remote_map es (s_path r) = None \<and> parent_path (s_path r) \<in> set polled"

lemma diff_row_Del:
  "(case diff_row mt now (remote_map es) polled r of Del i \<Rightarrow> Some i | _ \<Rightarrow> None) =
    (if row_gone es polled r then Some (s_ino r) else None)"
  by (cases "remote_map es (s_path r)") (simp_all add: diff_row_def row_gone_def Let_def)

lemma diff_deletions:
  assumes "wf_table snap" and "enumerates order (t_inodes snap)"
    and "diff_rows mt now es polled (file_snapshot order snap) = (updates, deletions)"
  shows "distinct deletions" and "i \<in> set deletions \<longleftrightarrow> seen_deleted es polled snap i"
proof -
  let ?rows = "file_snapshot order snap"
  have d: "deletions = map s_ino (filter (row_gone es polled) ?rows)"
    using assms(3) unfolding diff_rows_def Let_def prod.inject
    by (metis (no_types) map_filter_map_row [where g = "\<lambda>d. case d of Del i \<Rightarrow> Some i | _ \<Rightarrow> None"] diff_row_Del)
  show "distinct deletions"
    unfolding d by (rule distinct_map_filter) (rule snapshot_rows(1) [OF assms(1,2)])
  have row: "r \<in> set ?rows \<and> i = s_ino r \<longleftrightarrow> (\<exists>e. t_inodes snap i = Some e \<and> e_kind e = File \<and> r = snapshot_of e)" for r
    unfolding snapshot_rows(2) [OF assms(1,2)] using we_inode [OF wf_tableE [OF assms(1)]]
    by (auto simp: snapshot_of_def)
  have "i \<in> set deletions \<longleftrightarrow> (\<exists>r. (r \<in> set ?rows \<and> i = s_ino r) \<and> row_gone es polled r)" unfolding d by auto
  also have "\<dots> \<longleftrightarrow> (\<exists>e. t_inodes snap i = Some e \<and> e_kind e = File \<and> row_gone es polled (snapshot_of e))"
    unfolding row by blast
  also have "\<dots> \<longleftrightarrow> seen_deleted es polled snap i"
    unfolding seen_deleted_def row_gone_def remote_map_None by (simp add: snapshot_of_def)
  finally show "i \<in> set deletions \<longleftrightarrow> seen_deleted es polled snap i" .
qed

text \<open>
  C8: applying a poll diff is total, keeps the tree invariant and never loses local work, provided that no clean
  orphan is in the way.  The table may have changed since the snapshot, with two exceptions, which are
  assumed: no snapshotted file has become another kind of inode (kinds never change in the code), and none is,
  when the diff is applied, a clean file without a link (unlinked while open; what happens then is shown
  below).  Every dirty file is exactly as it was, every inode with open handles is
  still in the table, an inode disappears only if it was a clean file whose directory was listed
  without it, and every such file that is still clean has lost its name.
\<close>

theorem poll_diff_safe:
  assumes "wf_table snap" and "enumerates order (t_inodes snap)" and "wf_table t"
    and "\<And>i e f. t_inodes snap i = Some e \<Longrightarrow> e_kind e = File \<Longrightarrow> t_inodes t i = Some f \<Longrightarrow> \<not> is_dirty f \<Longrightarrow>
      e_kind f = File \<and> linked f"
  shows "\<exists>r. apply_poll_diff mt now order paths es polled snap t nc = Some r \<and> wf_table (pl_table r) \<and>
    (\<forall>i e. t_inodes t i = Some e \<and> is_dirty e \<and> e_kind e \<noteq> Directory \<longrightarrow> t_inodes (pl_table r) i = Some e) \<and>
    (\<forall>i. has_open_handles t i \<longrightarrow> has_open_handles (pl_table r) i) \<and>
    (\<forall>i. t_inodes t i \<noteq> None \<and> t_inodes (pl_table r) i = None \<longrightarrow> seen_deleted es polled snap i) \<and>
    (\<forall>i e f. seen_deleted es polled snap i \<and> t_inodes t i = Some e \<and> \<not> is_dirty e \<and> t_inodes (pl_table r) i = Some f \<longrightarrow>
      \<not> linked f)"
proof -
  obtain updates deletions where diff: "diff_rows mt now es polled (file_snapshot order snap) = (updates, deletions)"
    by (cases "diff_rows mt now es polled (file_snapshot order snap)")
  note del = diff_deletions [OF assms(1,2) diff]
  let ?st1 = "fold apply_update updates (t, [])"
  have s1: "spares {} t (fst ?st1)" using apply_updates_spare [of "(t, [])" updates] assms(3) by simp
  have "deletable t i" if "i \<in> set deletions" for i
    using that assms(4) unfolding del(2) seen_deleted_def deletable_def by blast
  then have "\<forall>i \<in> set deletions. deletable (fst ?st1) i" using spares_deletable [OF s1] by simp
  then obtain t2 q2 where d: "apply_deletions now deletions ?st1 = Some (t2, q2)" and s2: "spares (set deletions) (fst ?st1) t2"
    and u2: "\<forall>i \<in> set deletions. \<forall>e y. t_inodes (fst ?st1) i = Some e \<longrightarrow> \<not> is_dirty e \<longrightarrow> t_inodes t2 i = Some y \<longrightarrow> \<not> linked y"
    using apply_deletions_spares [OF sp_wf [OF s1] del(1), of now "snd ?st1"] by auto
  obtain dirs dir_paths where new: "fold (note_new_path t2) paths ([], []) = (dirs, dir_paths)"
    by (cases "fold (note_new_path t2) paths ([], [])")
  have "all_dirs t2 dirs"
    using note_new_paths_dirs [OF sp_wf [OF s2], of "([], [])" paths] new by (simp add: all_dirs_def)
  then have s3: "spares {} t2 (fold invalidate_children dirs t2)" by (rule invalidate_spares [OF sp_wf [OF s2]])
  have s: "spares (set deletions) t (fold invalidate_children dirs t2)"
    using spares_trans [OF spares_trans [OF s1 s2] s3] by simp
  have gone: "\<not> linked f" if i: "i \<in> set deletions" "t_inodes t i = Some e" "\<not> is_dirty e"
    "t_inodes (fold invalidate_children dirs t2) i = Some f" for i e f
  proof -
    obtain y where y: "t_inodes t2 i = Some y" "linked f = linked y" using sp_back [OF s3 i(4)] sp_keep [OF s3] i(4) by fastforce
    obtain x where x: "t_inodes (fst ?st1) i = Some x" using sp_back [OF s2 y(1)] by blast
    then have "\<not> is_dirty x" using sp_back [OF s1 x] i(2,3) by auto
    then show ?thesis using u2 i(1) x y by blast
  qed
  have "t_inodes (fold invalidate_children dirs t2) i = None \<Longrightarrow> t_inodes t i \<noteq> None \<Longrightarrow> i \<in> set deletions" for i
    using sp_keep [OF s] by fastforce
  then show ?thesis
    using d new sp_wf [OF s] sp_dirty [OF s] sp_open [OF s] gone del(2)
    by (auto simp: apply_poll_diff_def diff)
qed

theorem poll_diff_safe_witness:
  "\<exists>r. apply_poll_diff (\<lambda>_. 0) 9 [1, 2, 3] [] [] [''d''] dir_with_file dir_with_file Map.empty = Some r \<and>
    wf_table (pl_table r)"
proof -
  have "enumerates [1, 2, 3] (t_inodes dir_with_file)"
    by (auto simp: enumerates_def dir_with_file_def sample_defs wrap64_def split: if_splits)
  moreover have "e_kind f = File \<and> linked f" if "t_inodes dir_with_file i = Some e" "e_kind e = File"
    "t_inodes dir_with_file i = Some f" for i e f
    using that by (auto simp: dir_with_file_def sample_defs wrap64_def linked_def split: if_splits)
  ultimately show ?thesis
    using poll_diff_safe [OF wf_dir_with_file _ wf_dir_with_file, of "[1, 2, 3]" "\<lambda>_. 0" 9 "[]" "[]" "[''d'']" Map.empty]
    by blast
qed

section \<open>A clean orphan and a file created again\<close>

lemma apply_deletions_append:
  "apply_deletions now (xs @ ys) st = Option.bind (apply_deletions now xs st) (apply_deletions now ys)"
  by (induction xs arbitrary: st) (auto split: option.splits)

text \<open>Sparing changes give no name back.\<close>

lemma spares_lookup_None:
  assumes wf: "wf_table t" and s: "spares D t t'" and none: "lookup_child t p n = None"
    and D: "\<And>i e. i \<in> D \<Longrightarrow> t_inodes t i = Some e \<Longrightarrow> e_kind e \<noteq> Directory"
      "\<And>i e y. i \<in> D \<Longrightarrow> t_inodes t i = Some e \<Longrightarrow> \<not> is_dirty e \<Longrightarrow> t_inodes t' i = Some y \<Longrightarrow> \<not> linked y"
  shows "lookup_child t' p n = None"
proof (rule ccontr)
  assume "lookup_child t' p n \<noteq> None"
  then obtain y where "lookup_child t' p n = Some y" by blast
  then obtain pe where y: "t_inodes t' (e_inode y) = Some y" "e_parent y = p" "e_name y = n" "linked y" "e_inode y \<noteq> ROOT_INODE"
    by (rule lookup_childE [OF sp_wf [OF s]]) blast
  obtain x where x: "t_inodes t (e_inode y) = Some x" "is_dirty x = is_dirty y" using sp_back [OF s y(1)] by blast
  have "linked x \<and> e_parent x = p \<and> e_name x = n"
  proof (cases "e_inode y \<in> D")
    case True
    then have "is_dirty x" using D(2) x(1) y(1,4) by blast
    then show ?thesis using sp_dirty [OF s x(1)] D(1) [OF True x(1)] y by auto
  next
    case False
    then show ?thesis using sp_keep [OF s x(1)] y by auto
  qed
  then obtain pe where "t_inodes t p = Some pe" "\<lparr>c_ino = e_inode x, c_name = n\<rparr> \<in> set (e_children pe)"
    using we_attached [OF wf_tableE [OF wf x(1)] y(5)] by (auto simp: attached_def)
  moreover from this have "e_child_index pe n = Some (e_inode x)"
    using we_listing [OF wf_tableE [OF wf]] by (auto simp: listing_ok_def index_of_Some)
  moreover have "e_inode x = e_inode y" by (rule we_inode [OF wf_tableE [OF wf x(1)]])
  ultimately show False using none x(1) by (simp add: lookup_child_def)
qed

text \<open>Unlinking the file that took the name of a clean orphan.\<close>

lemma remove_orphan_unlinks:
  assumes wf: "wf_table t" and x: "t_inodes t i = Some x" "\<not> is_dirty x" "has_open_handles t i"
    and e: "t_inodes t (e_inode e) = Some e" "linked e" "e_kind e = File" "is_dirty e" "e_parent e = e_parent x" "e_name e = e_name x"
  obtains b t' q' where "remove_remote_file now i (t, q) = Some (b, t', q')" "wf_table t'"
    "t_inodes t' (e_inode e) = Some (e\<lparr>e_nlink := 0, e_ctime := now\<rparr>)" "lookup_child t' (e_parent x) (e_name x) = None"
    "\<And>j. deletable t j \<Longrightarrow> deletable t' j" "\<And>j y. t_inodes t' j = Some y \<Longrightarrow> \<exists>z. t_inodes t j = Some z \<and> e_kind z = e_kind y"
proof -
  let ?p = "e_parent x" and ?n = "e_name x" and ?k = "e_inode e"
  let ?u = "snd (unlink_one ?p ?n now t)"
  have nd: "e_kind e \<noteq> Directory" using e(3) by simp
  obtain pe where pe: "t_inodes t ?p = Some pe" "e_kind pe = Directory" "e_child_index pe ?n = Some ?k" "?p \<noteq> ?k"
    using linked_file_parent [OF wf e(1) nd e(2)] e(5,6) by metis
  have wu: "wf_table ?u" by (rule wf_unlink_one [OF wf]) (use pe e nd in auto)
  have u: "t_inodes ?u = (t_inodes t)(?k \<mapsto> e\<lparr>e_nlink := 0, e_ctime := now\<rparr>, ?p \<mapsto> remove_child_by_ino ?k pe)"
    using pe(1,4) by (auto simp: unlink_one_form [OF wf pe(1,3) e(1) nd])
  have "remove_remote_file now i (t, q) = Some (True, ?u, queue_file_invalidation t i (q @ [(?p, Pages)]))"
    using x by (simp add: remove_remote_file_def Let_def)
  moreover have "t_inodes ?u ?k = Some (e\<lparr>e_nlink := 0, e_ctime := now\<rparr>)" using u pe(4) by simp
  moreover have "lookup_child ?u ?p ?n = None"
  proof (rule ccontr)
    assume "lookup_child ?u ?p ?n \<noteq> None"
    then obtain y where "lookup_child ?u ?p ?n = Some y" by blast
    then obtain pe' where y: "t_inodes ?u (e_inode y) = Some y" "e_parent y = ?p" "e_name y = ?n" "linked y" "e_inode y \<noteq> ROOT_INODE"
      by (rule lookup_childE [OF wu]) blast
    have "e_inode y \<noteq> ?k" using y(1,4) u pe(4) e(3) by (auto simp: linked_def)
    moreover have "e_inode y = ?k"
    proof -
      obtain z where z: "t_inodes t (e_inode y) = Some z" "linked z" "e_parent z = ?p" "e_name z = ?n"
        using y \<open>e_inode y \<noteq> ?k\<close> u pe(1,2) by (cases "e_inode y = ?p") (auto simp: linked_def)
      have "\<lparr>c_ino = e_inode z, c_name = ?n\<rparr> \<in> set (e_children pe)"
        using we_attached [OF wf_tableE [OF wf z(1)] y(5) z(2)] z(3,4) pe(1) by (auto simp: attached_def)
      then have "e_child_index pe ?n = Some (e_inode z)"
        using we_listing [OF wf_tableE [OF wf pe(1)]] by (auto simp: listing_ok_def index_of_Some)
      then show ?thesis using pe(3) we_inode [OF wf_tableE [OF wf z(1)]] by simp
    qed
    ultimately show False by simp
  qed
  moreover have "deletable ?u j" if "deletable t j" for j
    using that u pe(1,2,4) e by (cases "j = ?p"; cases "j = ?k") (auto simp: deletable_def is_dirty_def)
  moreover have "\<exists>z. t_inodes t j = Some z \<and> e_kind z = e_kind y" if "t_inodes ?u j = Some y" for j y
    using that u pe(1) e(1) by (cases "j = ?p"; cases "j = ?k") auto
  ultimately show thesis using wu that by blast
qed

text \<open>
  C35: a poll takes away a file that was just written.  Take a clean file that was unlinked while it is
  open, so that its inode is still in the table, and a new, unflushed file with the same name in the same
  directory; let no other clean orphan be in the table.  When the directory is polled and the Hub has no file at that
  path, the diff takes the orphan for a remote deletion and unlinks by parent and name, which hits the new file:
  it loses its name and its link but stays dirty, so that no flush finds it due any more.
\<close>

theorem poll_unlinks_recreated_file:
  assumes wf: "wf_table t" and ord: "enumerates order (t_inodes t)"
    and x: "t_inodes t i = Some x" "e_kind x = File" "\<not> is_dirty x" "e_nlink x = 0" "0 < ev_open_handles (e_eviction x)"
    and gone: "\<forall>f \<in> set es. te_type f = ''file'' \<longrightarrow> te_path f \<noteq> e_full_path x" "parent_path (e_full_path x) \<in> set polled"
    and e: "lookup_child t (e_parent x) (e_name x) = Some e" "e_kind e = File" "is_dirty e"
    and others: "\<And>j f. j \<noteq> i \<Longrightarrow> t_inodes t j = Some f \<Longrightarrow> e_kind f = File \<Longrightarrow> \<not> is_dirty f \<Longrightarrow> 0 < e_nlink f"
  shows "\<exists>r f. apply_poll_diff mt now order paths es polled t t nc = Some r \<and>
    lookup_child (pl_table r) (e_parent x) (e_name x) = None \<and>
    t_inodes (pl_table r) (e_inode e) = Some f \<and> is_dirty f \<and> e_nlink f = 0 \<and>
    (\<forall>staged pending. e_inode e \<notin> set (due_inos staged (pl_table r) pending))"
proof -
  obtain updates deletions where diff: "diff_rows mt now es polled (file_snapshot order t) = (updates, deletions)"
    by (cases "diff_rows mt now es polled (file_snapshot order t)")
  note del = diff_deletions [OF wf ord diff]
  have "i \<in> set deletions" unfolding del(2) seen_deleted_def using x gone by blast
  then obtain ds es' where ds: "deletions = ds @ i # es'" by (auto dest: split_list)
  then have dist: "distinct ds" "distinct es'" "i \<notin> set ds" "i \<notin> set es'" "set ds \<inter> set es' = {}" using del(1) by auto
  have fdel: "\<exists>f. t_inodes t j = Some f \<and> e_kind f = File" if "j \<in> set deletions" for j
    using that unfolding del(2) seen_deleted_def by blast
  have dl: "deletable t j" if "j \<in> set deletions" "j \<noteq> i" for j
    using fdel [OF that(1)] others [OF that(2)] by (auto simp: deletable_def linked_def)
  let ?st1 = "fold apply_update updates (t, [])"
  have s1: "spares {} t (fst ?st1)" using apply_updates_spare [of "(t, [])" updates] wf by simp
  have "\<forall>j \<in> set ds. deletable (fst ?st1) j" using dl ds dist(3) spares_deletable [OF s1] by auto
  then obtain t2 q2 where d2: "apply_deletions now ds ?st1 = Some (t2, q2)" and s2': "spares (set ds) (fst ?st1) t2"
    using apply_deletions_spares [OF sp_wf [OF s1] dist(1), of now "snd ?st1"] by auto
  have s2: "spares (set ds) t t2" using spares_trans [OF s1 s2'] by simp
  obtain pe where e': "t_inodes t (e_inode e) = Some e" "e_parent e = e_parent x" "e_name e = e_name x" "linked e"
    by (rule lookup_childE [OF wf e(1)]) blast
  have e2: "t_inodes t2 (e_inode e) = Some e" by (rule sp_dirty [OF s2 e'(1) e(3)]) (simp add: e(2))
  obtain x2 where x2: "t_inodes t2 i = Some x2" "e_parent x2 = e_parent x" "e_name x2 = e_name x"
    using sp_keep [OF s2 x(1) dist(3)] by blast
  have x2': "\<not> is_dirty x2" "has_open_handles t2 i"
    using sp_back [OF s2 x2(1)] x(1,3) sp_open [OF s2, of i] x(5) by (auto simp: has_open_handles_def)
  obtain b t3 q3 where r3: "remove_remote_file now i (t2, q2) = Some (b, t3, q3)" and wf3: "wf_table t3"
    and e3: "t_inodes t3 (e_inode e) = Some (e\<lparr>e_nlink := 0, e_ctime := now\<rparr>)"
    and l3: "lookup_child t3 (e_parent x) (e_name x) = None"
    and dl3: "\<And>j. deletable t2 j \<Longrightarrow> deletable t3 j"
    and k3: "\<And>j y. t_inodes t3 j = Some y \<Longrightarrow> \<exists>z. t_inodes t2 j = Some z \<and> e_kind z = e_kind y"
    by (rule remove_orphan_unlinks [OF sp_wf [OF s2] x2(1) x2' e2 e'(4) e(2,3), of now q2]) (use x2 e' in auto)
  have "\<forall>j \<in> set es'. deletable t3 j" using dl ds dist spares_deletable [OF s2] dl3 by auto
  then obtain t4 q4 where d4: "apply_deletions now es' (t3, q3) = Some (t4, q4)" and s4: "spares (set es') t3 t4"
    and u4: "\<forall>j \<in> set es'. \<forall>e y. t_inodes t3 j = Some e \<longrightarrow> \<not> is_dirty e \<longrightarrow> t_inodes t4 j = Some y \<longrightarrow> \<not> linked y"
    using apply_deletions_spares [OF wf3 dist(2), of now q3] by blast
  have nd: "e_kind f \<noteq> Directory" if j: "j \<in> set es'" "t_inodes t3 j = Some f" for j f
  proof -
    obtain z where z: "t_inodes t2 j = Some z" "e_kind z = e_kind f" using k3 [OF j(2)] by blast
    moreover obtain w where "t_inodes t j = Some w" "e_kind w = e_kind z" using sp_back [OF s2 z(1)] by blast
    ultimately show ?thesis using fdel [of j] j(1) ds by auto
  qed
  have l4: "lookup_child t4 (e_parent x) (e_name x) = None"
    by (rule spares_lookup_None [OF wf3 s4 l3]) (use nd u4 in blast)+
  obtain dirs dir_paths where new: "fold (note_new_path t4) paths ([], []) = (dirs, dir_paths)"
    by (cases "fold (note_new_path t4) paths ([], [])")
  have "all_dirs t4 dirs"
    using note_new_paths_dirs [OF sp_wf [OF s4], of "([], [])" paths] new by (simp add: all_dirs_def)
  then have s5: "spares {} t4 (fold invalidate_children dirs t4)" by (rule invalidate_spares [OF sp_wf [OF s4]])
  let ?t5 = "fold invalidate_children dirs t4" and ?f = "e\<lparr>e_nlink := 0, e_ctime := now\<rparr>"
  have l5: "lookup_child ?t5 (e_parent x) (e_name x) = None" by (rule spares_lookup_None [OF sp_wf [OF s4] s5 l4]) auto
  have f: "is_dirty ?f" "e_kind ?f \<noteq> Directory" using e by (simp_all add: is_dirty_def)
  have "t_inodes ?t5 (e_inode e) = Some ?f" by (rule sp_dirty [OF s5 sp_dirty [OF s4 e3 f] f])
  then have "e_inode e \<notin> set (due_inos staged ?t5 pending)" for staged pending by (simp add: due_inos_def)
  moreover have "apply_deletions now deletions ?st1 = Some (t4, q4)"
    using d2 r3 d4 by (simp add: ds apply_deletions_append)
  ultimately show ?thesis
    using \<open>t_inodes ?t5 (e_inode e) = Some ?f\<close> l5 f(1) new by (simp add: apply_poll_diff_def diff)
qed

text \<open>An example: the file was opened, unlinked and created again.\<close>

definition opened_file :: inode_table where
  "opened_file = bump_open_handles 2 (snd (insert_inode 1 ''f'' ''f'' File 3 0 (Some ''h'') 420 0 0 7 (new_table True)))"

definition recreated :: inode_table where
  "recreated = upd_inode 3 set_dirty (snd (insert_inode 1 ''f'' ''f'' File 0 0 None 420 0 0 8
     (snd (unlink_one 1 ''f'' 5 opened_file))))"

lemmas poll_sample_defs = opened_file_def recreated_def sample_defs unlink_one_def set_dirty_def
  remove_child_by_name_def remove_child_by_ino_def bump_open_handles_def upd_eviction_def wrap64_def wrap32_def

lemma recreated_entries:
  "\<exists>r x e. t_inodes recreated 1 = Some r \<and> t_inodes recreated 2 = Some x \<and> t_inodes recreated 3 = Some e \<and>
    e_kind r = Directory \<and> e_child_index r = [''f'' \<mapsto> 3] \<and>
    e_inode x = 2 \<and> \<not> is_dirty x \<and> e_full_path x = ''f'' \<and> e_kind x = File \<and> e_parent x = 1 \<and> e_name x = ''f'' \<and> e_nlink x = 0 \<and>
    ev_open_handles (e_eviction x) = 1 \<and> e_inode e = 3 \<and> is_dirty e \<and> e_kind e = File"
  by (simp add: poll_sample_defs is_dirty_def sat_add64_def u64_max_def)

lemma recreated_dom: "t_inodes recreated i \<noteq> None \<longleftrightarrow> i \<in> {1, 2, 3}"
  by (auto simp: poll_sample_defs sat_add64_def u64_max_def)

lemma wf_recreated: "wf_table recreated"
  unfolding recreated_def opened_file_def
proof (intro wf_upd_same_shape same_shape_set_dirty wf_insert_inode wf_unlink_one wf_bump_open_handles wf_new_table)
qed (auto simp: insert_ok_def name_ok_def poll_sample_defs u64_max_def split: if_splits)

theorem poll_unlinks_recreated_file_witness:
  "\<exists>r f. apply_poll_diff (\<lambda>_. 0) 9 [1, 2, 3] [] [] [[]] recreated recreated Map.empty = Some r \<and>
    lookup_child (pl_table r) 1 ''f'' = None \<and> t_inodes (pl_table r) 3 = Some f \<and> is_dirty f \<and> e_nlink f = 0"
proof -
  obtain r x e where t: "t_inodes recreated 1 = Some r" "t_inodes recreated 2 = Some x" "t_inodes recreated 3 = Some e"
    and r: "e_kind r = Directory" "e_child_index r = [''f'' \<mapsto> 3]"
    and x: "e_inode x = 2" "\<not> is_dirty x" "e_full_path x = ''f''" "e_kind x = File" "e_parent x = 1" "e_name x = ''f''" "e_nlink x = 0"
      "ev_open_handles (e_eviction x) = 1"
    and e: "e_inode e = 3" "is_dirty e" "e_kind e = File"
    using recreated_entries by blast
  have ord: "enumerates [1, 2, 3] (t_inodes recreated)" using recreated_dom by (auto simp: enumerates_def)
  have l: "lookup_child recreated (e_parent x) (e_name x) = Some e" using t r x by (simp add: lookup_child_def)
  have others: "0 < e_nlink f" if "j \<noteq> 2" "t_inodes recreated j = Some f" "e_kind f = File" "\<not> is_dirty f" for j f
    using that recreated_dom [of j] t r e by auto
  show ?thesis
    using poll_unlinks_recreated_file [OF wf_recreated ord, of 2 x "[]" "[[]]" e "\<lambda>_. 0" 9 "[]" Map.empty] t x e l others
    by (simp add: parent_path_def rsplit_once_def) blast
qed

end
