(* ===== verification/Interleaving.thy ===== *)
theory Interleaving
  imports Vfs_Lookup_Safety Poll_Safety
begin

text \<open>
  The sections of the file system that run under the table's write lock.  Each rule of \<open>table_step\<close> is one of them,
  run on a table where the conditions listed hold; each of them keeps the tree invariant, so every sequence of
  them does.  The conditions are those of the code, which checks some of them (that a rename is valid, the kind of the file to
  unlink, the parent's path, what a poll may delete) in an earlier section, before it waits: that they
  still hold when the later one runs is assumed here.  \<open>Flush_Rename\<close> and \<open>Poll_Safety\<close> show sections
  that run when they do not.
\<close>

section \<open>The sections\<close>

inductive table_step :: "inode_table \<Rightarrow> inode_table \<Rightarrow> bool" where
  s_mkdir: "name_ok name \<Longrightarrow> t_next_inode t < u64_max \<Longrightarrow>
    table_step t (snd (insert_locked parent name Directory 0 None mode uid gid now (mkdir_fin overlay now) t))"
| s_symlink: "name_ok name \<Longrightarrow> t_next_inode t < u64_max \<Longrightarrow>
    table_step t (snd (insert_locked parent name Symlink sz None mode uid gid now (\<lambda>e. e\<lparr>e_symlink_target := Some target\<rparr>) t))"
| s_rmdir: "(\<And>e. t_inodes t ino = Some e \<Longrightarrow> e_kind e = Directory) \<Longrightarrow> ino \<noteq> ROOT_INODE \<Longrightarrow>
    rmdir_locked parent ino now t = Some (r, t') \<Longrightarrow> table_step t t'"
| s_unlink: "(\<And>e. lookup_child t parent name = Some e \<Longrightarrow> e_kind e \<noteq> Directory) \<Longrightarrow>
    (\<And>e. t_inodes t ino = Some e \<Longrightarrow> e_kind e \<noteq> Directory) \<Longrightarrow>
    table_step t (snd (unlink_locked parent name ino now t))"
| s_rename: "rename_validate parent name newparent newname no_replace t = Some (Inr info) \<Longrightarrow>
    t_inodes t newparent = Some qe \<Longrightarrow> e_kind qe = Directory \<Longrightarrow> name_ok newname \<Longrightarrow>
    map_option e_inode (lookup_child t newparent newname) \<noteq> Some (r_ino info) \<Longrightarrow>
    rename_locked info parent name newparent newname no_replace now t = Some (r, t') \<Longrightarrow> table_step t t'"
| s_load: "t_inodes t p = Some pe \<Longrightarrow> t_next_inode t + length entries \<le> u64_max \<Longrightarrow>
    [] \<notin> listed_names lc sizes (e_full_path pe) entries \<Longrightarrow>
    install_listing lc now None sizes p (e_full_path pe) entries t = Some (r, t') \<Longrightarrow> table_step t t'"
| s_lookup_file: "t_inodes t parent = Some pe \<Longrightarrow> name_ok name \<Longrightarrow> t_next_inode t < u64_max \<Longrightarrow>
    insert_file_locked lc now parent name (child_path (e_full_path pe) name) sz mtime hash (head_fin etag csz) t = Some (r, t') \<Longrightarrow>
    table_step t t'"
| s_revalidated: "table_step t (stamp_revalidated now ino t)"
| s_revalidate_gone: "(\<And>e. t_inodes t ino = Some e \<Longrightarrow> linked e) \<Longrightarrow> ino \<noteq> ROOT_INODE \<Longrightarrow>
    remove_inode ino t = Some (r, t') \<Longrightarrow> table_step t t'"
| s_remote_update: "table_step t (snd (update_remote_file ino hash etag sz mtime csz t))"
| s_remote_merge: "table_step t (snd (merge_remote_file ino hash osz omtime t))"
| s_poll_delete: "deletable t ino \<Longrightarrow> remove_remote_file now ino (t, q) = Some (b, t', q') \<Longrightarrow> table_step t t'"
| s_invalidate: "table_step t (invalidate_children ino t)"
| s_commit: "table_step t (commit_items now sel rs t)"
| s_write: "table_step t (upd_inode ino set_dirty t)"
| s_opened: "table_step t (bump_open_handles ino t)"
| s_closed: "table_step t (drop_open_handles ino t)"
| s_looked_up: "table_step t (touch ino (bump_nlookup ino t))"
| s_forgotten: "table_step t (snd (drop_nlookup ino n t))"
| s_pending: "table_step t (mark_evict_pending ino t)"
| s_taken: "table_step t (snd (take_evict_pending ino t))"
| s_evict: "table_step t (snd (evict_if_safe ino t))"
| s_sweep: "batch_order t inos parents members \<Longrightarrow> table_step t (snd (evict_batch_if_safe parents members inos t))"
| s_reap: "(\<And>e. t_inodes t ino = Some e \<Longrightarrow> e_kind e \<noteq> Directory) \<Longrightarrow> table_step t (snd (remove_orphan ino t))"

inductive table_reach :: "inode_table \<Rightarrow> bool" where
  s_start: "table_reach (new_table touch_enabled)"
| s_step: "table_reach t \<Longrightarrow> table_step t t' \<Longrightarrow> table_reach t'"

section \<open>Each section keeps the tree\<close>

lemma wf_insert_locked:
  assumes "wf_table t" and "name_ok name" and "t_next_inode t < u64_max" and "\<And>e. same_shape e (fin e)"
  shows "wf_table (snd (insert_locked parent name kind sz hash mode uid gid now fin t))"
proof (cases "\<exists>pe. t_inodes t parent = Some pe \<and> e_kind pe = Directory \<and> lookup_child t parent name = None")
  case False
  then show ?thesis using assms(1) by (auto simp: insert_locked_def Let_def split: option.split)
next
  case True
  then obtain pe where pe: "t_inodes t parent = Some pe" "e_kind pe = Directory" "lookup_child t parent name = None" by blast
  let ?r = "insert_inode parent name (child_path (e_full_path pe) name) kind sz now hash mode uid gid now t"
  have "wf_table (snd ?r)" by (rule wf_insert_inode [OF assms(1)]) (use pe assms(2,3) in \<open>auto simp: insert_ok_def\<close>)
  then have "wf_table (touch_parent parent now (upd_inode (fst ?r) fin (snd ?r)))"
    by (intro wf_touch_parent wf_upd_same_shape assms(4))
  then show ?thesis using pe by (simp add: insert_locked_def Let_def case_prod_beta)
qed

lemma wf_remove_linked:
  assumes "wf_table t" and "\<And>e. t_inodes t ino = Some e \<Longrightarrow> linked e" and "ino \<noteq> ROOT_INODE" and "remove_inode ino t = Some (r, t')"
  shows "wf_table t'"
proof (cases "t_inodes t ino")
  case None
  then show ?thesis using assms(1,4) by (simp add: remove_inode_def)
next
  case (Some e)
  from remove_inode_wf [OF assms(1) Some assms(2) [OF Some] assms(3)] show ?thesis using assms(4) by (metis option.inject prod.inject)
qed

lemma wf_rmdir_locked:
  assumes "wf_table t" and "\<And>e. t_inodes t ino = Some e \<Longrightarrow> e_kind e = Directory" and "ino \<noteq> ROOT_INODE"
    and "rmdir_locked parent ino now t = Some (r, t')"
  shows "wf_table t'"
proof (cases "\<exists>e. t_inodes t ino = Some e \<and> e_children e = []")
  case False
  then show ?thesis using assms(1,4) by (auto simp: rmdir_locked_def split: option.splits if_splits)
next
  case True
  then obtain r1 t1 where "remove_inode ino t = Some (r1, t1)" "t' = touch_parent parent now t1"
    using assms(4) by (auto simp: rmdir_locked_def)
  then show ?thesis using wf_remove_linked [OF assms(1) _ assms(3)] assms(2) by (auto simp: linked_def intro!: wf_touch_parent)
qed

lemma wf_unlink_locked:
  assumes wf: "wf_table t" and n: "\<And>e. lookup_child t parent name = Some e \<Longrightarrow> e_kind e \<noteq> Directory"
    and i: "\<And>e. t_inodes t ino = Some e \<Longrightarrow> e_kind e \<noteq> Directory"
  shows "wf_table (snd (unlink_locked parent name ino now t))"
proof -
  let ?t1 = "snd (unlink_one parent name now t)"
  have w1: "wf_table (touch_parent parent now ?t1)"
    by (intro wf_touch_parent wf_unlink_one [OF wf] n) (simp add: lookup_child_def)
  have "e_kind e \<noteq> Directory" if e: "t_inodes (touch_parent parent now ?t1) ino = Some e" for e
  proof -
    have "map_option e_kind (t_inodes ?t1 ino) = map_option e_kind (t_inodes t ino)"
      by (auto simp: unlink_one_def Let_def remove_child_by_name_def split: option.splits)
    moreover have "map_option e_kind (t_inodes (touch_parent parent now ?t1) ino) = map_option e_kind (t_inodes ?t1 ino)"
      by (auto simp: touch_parent_def option.map_comp comp_def)
    ultimately show ?thesis using i e by (metis (no_types, lifting) map_option_eq_Some)
  qed
  then have "wf_table (snd (remove_orphan ino (touch_parent parent now ?t1)))" by (intro wf_remove_orphan [OF w1])
  then show ?thesis using w1 by (simp add: unlink_locked_def Let_def case_prod_beta)
qed

lemma wf_insert_file_locked:
  assumes wf: "wf_table t" and pe: "t_inodes t parent = Some pe" and n: "name_ok name" "t_next_inode t < u64_max"
    and r: "insert_file_locked lc now parent name (child_path (e_full_path pe) name) sz mtime hash (head_fin etag csz) t = Some (r, t')"
  shows "wf_table t'"
proof -
  have ins: "wf_table (upd_inode j (head_fin etag csz) (snd (insert_inode parent name (child_path (e_full_path pe) name) File sz mtime hash
      (lc_file_mode lc) (lc_uid lc) (lc_gid lc) now u)))"
    if "wf_table u" "t_inodes u parent = Some pf" "e_kind pf = Directory" "e_full_path pf = e_full_path pe" "t_next_inode u < u64_max" for u pf j
  proof (rule wf_upd_same_shape)
    show "wf_table (snd (insert_inode parent name (child_path (e_full_path pe) name) File sz mtime hash
      (lc_file_mode lc) (lc_uid lc) (lc_gid lc) now u))"
      by (rule wf_insert_inode [OF that(1)]) (use that n in \<open>auto simp: insert_ok_def\<close>)
    show "same_shape e (head_fin etag csz e)" for e
      by (auto simp: head_fin_def same_shape_def split: option.split)
  qed
  show ?thesis
  proof (cases "e_kind pe = Directory")
    case False
    then show ?thesis using r pe wf by (simp add: insert_file_locked_def Let_def)
  next
    case dir: True
    show ?thesis
    proof (cases "lookup_child t parent name")
      case None
      then show ?thesis using r pe dir ins [OF wf pe dir refl n(2)] by (auto simp: insert_file_locked_def Let_def case_prod_beta)
    next
      case (Some c)
      note k = lookup_child_kid [OF wf Some]
      show ?thesis
      proof (cases "e_kind c \<noteq> File \<and> has_dirty_or_open_descendants t (e_inode c) = Some False")
        case False
        then show ?thesis
          using r pe dir Some wf by (auto simp: insert_file_locked_def Let_def split: option.splits bool.splits if_splits)
      next
        case True
        obtain u where u: "remove_inode (e_inode c) t = Some (Some c, u)" "removes (subtree t (e_inode c)) t u" "wf_table u"
          by (rule remove_inode_wf [OF wf k(3,5,6)])
        have "parent \<notin> subtree t (e_inode c)" using kid_entry [OF wf k(1)] by blast
        then obtain pf where pf: "t_inodes u parent = Some pf" "pruned_entry (subtree t (e_inode c)) pe pf" using removes_fwd [OF u(2) _ pe] by blast
        have "t_next_inode u < u64_max" using u(2) n(2) by (simp add: removes_def)
        then have "wf_table (upd_inode j (head_fin etag csz) (snd (insert_inode parent name (child_path (e_full_path pe) name) File sz mtime hash
            (lc_file_mode lc) (lc_uid lc) (lc_gid lc) now u)))" for j
          using ins [OF u(3) pf(1)] pf(2) dir by (simp add: pruned_entry_def)
        then show ?thesis
          using r pe dir Some True u(1) by (auto simp: insert_file_locked_def Let_def case_prod_beta)
      qed
    qed
  qed
qed

lemma wf_install_listing:
  assumes wf: "wf_table t" and pe: "t_inodes t p = Some pe" and n: "t_next_inode t + length entries \<le> u64_max"
    "[] \<notin> listed_names lc sizes (e_full_path pe) entries"
    and r: "install_listing lc now None sizes p (e_full_path pe) entries t = Some (r, t')"
  shows "wf_table t'"
proof (cases "e_kind pe = Directory \<and> \<not> children_loaded pe")
  case True
  then obtain u pe' where "install_listing lc now None sizes p (e_full_path pe) entries t = Some (Inr True, u)" "wf_table u"
    using install_listing_effect [OF wf pe _ _ n, of now] by blast
  then show ?thesis using r by simp
next
  case False
  then show ?thesis using r pe wf by (auto simp: install_listing_def split: if_splits)
qed

lemma wf_remove_remote_file:
  assumes "wf_table t" and "deletable t ino" and "remove_remote_file now ino (t, q) = Some (b, t', q')"
  shows "wf_table t'"
proof -
  have ok: "e_kind e = File \<and> linked e" if "t_inodes t ino = Some e" "\<not> is_dirty e" for e
    using assms(2) that by (simp add: deletable_def)
  obtain c u p where "remove_remote_file now ino (t, q) = Some (c, u, p)" "spares {ino} t u"
    by (rule remove_remote_file_spares [OF assms(1), of ino now q]) (use ok in blast)+
  then show ?thesis using assms(3) sp_wf by simp
qed

lemma wf_table_step:
  assumes "table_step t t'" and "wf_table t"
  shows "wf_table t'"
  using assms
proof cases
  case (s_rename parent name newparent newname no_replace info qe now r)
  then show ?thesis using rename_locked_effect [OF assms(2), of parent name newparent newname no_replace info qe now] by auto
next
  case (s_mkdir name parent mode uid gid now overlay)
  then show ?thesis using wf_insert_locked [OF assms(2)] by (auto simp: mkdir_fin_def same_shape_def set_dirty_def Let_def)
next
  case (s_symlink name parent sz mode uid gid now target)
  then show ?thesis using wf_insert_locked [OF assms(2)] by (auto simp: same_shape_def)
next
  case (s_revalidated now ino)
  then show ?thesis using assms(2) unfolding stamp_revalidated_def by (auto intro!: wf_upd_same_shape simp: same_shape_def)
next
  case (s_write ino)
  then show ?thesis using wf_upd_same_shape [OF assms(2)] same_shape_set_dirty by blast
next
  case (s_sweep inos parents members)
  then show ?thesis using wf_evict_batch_if_safe [OF assms(2)] by blast
qed (use assms(2) in \<open>auto intro: wf_rmdir_locked wf_unlink_locked wf_install_listing wf_insert_file_locked wf_remove_linked
    wf_update_remote_file wf_merge_remote_file wf_remove_remote_file wf_invalidate_children wf_commit_items wf_bump_open_handles
    wf_drop_open_handles wf_touch wf_bump_nlookup wf_drop_nlookup wf_mark_evict_pending wf_take_evict_pending wf_evict_if_safe
    wf_remove_orphan\<close>)

text \<open>
  Every sequence of the sections, each run where its conditions hold, leaves a tree: every linked entry is
  found both by its full path and by its name in its parent, and is the only one found there.
\<close>

theorem table_reach_wf:
  assumes "table_reach t"
  shows "wf_table t \<and>
    (\<forall>i e. t_inodes t i = Some e \<and> linked e \<longrightarrow>
      get_by_path t (e_full_path e) = Some e \<and> (i \<noteq> ROOT_INODE \<longrightarrow> lookup_child t (e_parent e) (e_name e) = Some e))"
proof -
  have wf: "wf_table t" using assms by induction (auto intro: wf_new_table wf_table_step)
  then show ?thesis
    using child_of(2) [OF wf] we_path [OF wf_tableE [OF wf]] by (auto simp: get_by_path_def)
qed

theorem table_reach_wf_witness:
  "wf_table (upd_inode 2 set_dirty (snd (insert_locked 1 ''d'' Directory 0 None 493 0 0 7 (mkdir_fin False 7) (new_table True))))"
proof -
  have "name_ok ''d''" "t_next_inode (new_table True) < u64_max"
    by (simp_all add: name_ok_def new_table_def u64_max_def)
  then have "table_step (new_table True) (snd (insert_locked 1 ''d'' Directory 0 None 493 0 0 7 (mkdir_fin False 7) (new_table True)))"
    by (rule s_mkdir)
  then have "table_reach (snd (insert_locked 1 ''d'' Directory 0 None 493 0 0 7 (mkdir_fin False 7) (new_table True)))"
    by (rule s_step [OF s_start])
  then have "table_reach (upd_inode 2 set_dirty (snd (insert_locked 1 ''d'' Directory 0 None 493 0 0 7 (mkdir_fin False 7) (new_table True))))"
    by (rule s_step [OF _ s_write])
  from table_reach_wf [OF this] show ?thesis by (rule conjunct1)
qed

end
