(* ===== verification/Streaming.thy ===== *)
theory Streaming
  imports Vfs_Load
begin

text \<open>
  \<open>src/src/virtual_fs/mod.rs\<close>: streaming writes.  A handle opened for writing in the default mode
  is a channel to a background worker that feeds the content store; closing it uploads the rest and
  commits the file to the Hub.

  Channels are shared (\<open>Arc\<close>), so they live in a store indexed by their identity; so do the watch
  hooks on which an \<open>open\<close> waits for a commit in flight.  Each definition named after a part of a
  function is what that function does under one lock; the whole function is composed of its parts
  with, where the code waits, a function of the environment that gives the answer and the state in
  which the operation goes on.
\<close>

section \<open>Channels\<close>

record xet_info =
  xi_hash :: string
  xi_size :: "nat option"

datatype write_msg = is_Data: Data (msg_bytes: bytes) | is_Finish: Finish

record inode_snapshot =
  sn_xet_hash :: "string option"
  sn_size :: nat
  sn_mtime :: nat
  sn_pending_deletes :: "string list"
  sn_existed_before :: bool

datatype commit_state = Writing | Deferred | Committing | Committed | Failed string

text \<open>
  Besides the fields of the code: \<open>ch_queue\<close> and \<open>ch_open\<close> are the bounded message channel and
  whether its receiver exists, \<open>ch_fed\<close>, \<open>ch_failed\<close> and \<open>ch_done\<close> the local state of the worker
  (what the writer has accepted, whether it failed, whether the loop has returned) and \<open>ch_reply\<close> the
  one-shot answer to the last \<open>Finish\<close>.
\<close>

record streaming_channel =
  ch_queue :: "write_msg list"
  ch_open :: bool
  ch_fed :: "bytes list"
  ch_failed :: bool
  ch_done :: bool
  ch_reply :: "(hub_error + xet_info) option"
  ch_bytes_written :: nat
  ch_error :: "hub_error option"
  ch_state :: commit_state
  ch_pending_info :: "xet_info option"
  ch_open_pid :: "nat option"
  ch_snapshot :: inode_snapshot
  ch_gen :: nat
  ch_hook :: "nat option"

definition owns_generation :: "streaming_channel \<Rightarrow> nat \<Rightarrow> bool" where
  "owns_generation ch inode_dirty_generation \<longleftrightarrow> ch_gen ch = inode_dirty_generation"

definition terminal_result :: "streaming_channel \<Rightarrow> (int + unit) option" where
  "terminal_result ch =
    (case ch_state ch of Committed \<Rightarrow> Some (Inr ()) | Failed _ \<Rightarrow> Some (Inl EIO) | _ \<Rightarrow> None)"

definition channel_is_terminal :: "streaming_channel \<Rightarrow> bool" where
  "channel_is_terminal ch \<longleftrightarrow> terminal_result ch \<noteq> None"

definition accepts_writes :: "streaming_channel \<Rightarrow> bool" where
  "accepts_writes ch \<longleftrightarrow> ch_state ch = Writing \<or> ch_state ch = Deferred"

subsection \<open>The worker\<close>

text \<open>
  One turn of \<open>streaming_worker\<close>: \<open>wr fed d\<close> is the error of writing \<open>d\<close> after \<open>fed\<close>, if any, and
  \<open>fin fed\<close> the answer of the writer's \<open>finish\<close>.
\<close>

definition finish_result :: "(bytes list \<Rightarrow> hub_error + xet_info) \<Rightarrow> streaming_channel \<Rightarrow> hub_error + xet_info" where
  "finish_result fin ch =
    (if ch_failed ch
     then Inl (case ch_error ch of Some e \<Rightarrow> e | None \<Rightarrow> hub ''streaming write failed: unknown error'')
     else fin (ch_fed ch))"

definition worker_step ::
  "(bytes list \<Rightarrow> bytes \<Rightarrow> hub_error option) \<Rightarrow> (bytes list \<Rightarrow> hub_error + xet_info) \<Rightarrow>
   streaming_channel \<Rightarrow> streaming_channel" where
  "worker_step wr fin ch =
    (if ch_done ch then ch
     else (case ch_queue ch of
        [] \<Rightarrow> ch
      | Data d # q \<Rightarrow>
          if ch_failed ch then ch\<lparr>ch_queue := q\<rparr>
          else (case wr (ch_fed ch) d of
              None \<Rightarrow> ch\<lparr>ch_queue := q, ch_fed := ch_fed ch @ [d]\<rparr>
            | Some e \<Rightarrow> ch\<lparr>ch_queue := q, ch_error := Some e, ch_failed := True\<rparr>)
      | Finish # q \<Rightarrow>
          ch\<lparr>ch_queue := q, ch_reply := Some (finish_result fin ch),
             ch_error := (if ch_failed ch then None else ch_error ch), ch_done := True\<rparr>))"

text \<open>When the loop has returned its receiver is dropped, with what is still queued.\<close>

definition worker_exit :: "streaming_channel \<Rightarrow> streaming_channel" where
  "worker_exit ch = (if ch_done ch then ch\<lparr>ch_open := False, ch_queue := []\<rparr> else ch)"

section \<open>State\<close>

text \<open>What a local handle reads or writes: a staging file, a file of the overlay directory, a file of
  the whole-file cache, a file downloaded over HTTP.\<close>

datatype backing = StagingFile nat | OverlayFile string | CacheFile string | HttpFile string

datatype open_file =
    Local (of_ino: nat) (of_file: backing) (of_writable: bool) (of_encrypted: bool)
  | Lazy (of_ino: nat) (of_hash: string) (of_size: nat) (of_encrypted: bool)
  | Streaming (of_ino: nat) (of_channel: nat)

text \<open>
  The mount: the file system, the table of open files, the channels, the commit hooks.  \<open>io_held\<close> is not in
  the code; it is there for what the NFS adapter's theorems say of the other requests in progress.  It is the set of
  the handles they hold; no operation reads or changes it, only the environment does.
\<close>

record io_state =
  io_vfs :: vfs
  io_files :: "nat \<rightharpoonup> open_file"
  io_next_fh :: nat
  io_chans :: "nat \<Rightarrow> streaming_channel"
  io_next_chan :: nat
  io_hooks :: "nat \<Rightarrow> (int + unit) option"
  io_next_hook :: nat
  io_pending :: "nat \<rightharpoonup> nat"
  io_held :: "nat set"

definition upd_chan :: "nat \<Rightarrow> (streaming_channel \<Rightarrow> streaming_channel) \<Rightarrow> io_state \<Rightarrow> io_state" where
  "upd_chan c f s = s\<lparr>io_chans := (io_chans s)(c := f (io_chans s c))\<rparr>"

definition upd_vfs :: "(vfs \<Rightarrow> vfs) \<Rightarrow> io_state \<Rightarrow> io_state" where
  "upd_vfs f s = s\<lparr>io_vfs := f (io_vfs s)\<rparr>"

definition io_table :: "io_state \<Rightarrow> inode_table" where
  "io_table s = v_table (io_vfs s)"

definition upd_io_table :: "(inode_table \<Rightarrow> inode_table) \<Rightarrow> io_state \<Rightarrow> io_state" where
  "upd_io_table f = upd_vfs (upd_table f)"

definition set_commit_state :: "nat \<Rightarrow> commit_state \<Rightarrow> io_state \<Rightarrow> io_state" where
  "set_commit_state c st = upd_chan c (\<lambda>ch. ch\<lparr>ch_state := st\<rparr>)"

definition alloc_file_handle :: "io_state \<Rightarrow> nat \<times> io_state" where
  "alloc_file_handle s = (io_next_fh s, s\<lparr>io_next_fh := wrap64 (io_next_fh s + 1)\<rparr>)"

definition insert_handle :: "nat \<Rightarrow> open_file \<Rightarrow> io_state \<Rightarrow> io_state" where
  "insert_handle fh f s = s\<lparr>io_files := (io_files s)(fh \<mapsto> f)\<rparr>"

section \<open>The environment\<close>

text \<open>
  \<open>x_hub\<close> answers a batch, \<open>x_lock\<close> gives the state in which an inode's lock is obtained, \<open>x_await\<close>
  waits on a hook (\<open>False\<close>: its sender is gone), \<open>x_new_writer\<close> creates a writer, \<open>x_slot\<close> waits for
  a slot of a channel, \<open>x_reply\<close> for the answer to \<open>Finish\<close> (\<open>None\<close>: the worker is gone), \<open>x_sleep\<close>
  for a second; \<open>x_order\<close> is the iteration order of the open files, \<open>x_status\<close> a process's status file.
\<close>

record io_env =
  x_vfs :: vfs_env
  x_hub :: "batch_op list \<Rightarrow> io_state \<Rightarrow> hub_error option \<times> io_state"
  x_lock :: "nat \<Rightarrow> io_state \<Rightarrow> io_state"
  x_await :: "nat \<Rightarrow> io_state \<Rightarrow> bool \<times> io_state"
  x_new_writer :: "io_state \<Rightarrow> bool \<times> io_state"
  x_slot :: "nat \<Rightarrow> io_state \<Rightarrow> io_state"
  x_reply :: "nat \<Rightarrow> io_state \<Rightarrow> (hub_error + xet_info) option \<times> io_state"
  x_sleep :: "io_state \<Rightarrow> io_state"
  x_order :: "io_state \<Rightarrow> nat list"
  x_status :: "nat \<Rightarrow> string option"

definition io_lock :: "io_env \<Rightarrow> nat \<Rightarrow> io_state \<Rightarrow> io_state" where
  "io_lock en ino s = x_lock en ino (upd_vfs (\<lambda>v. v\<lparr>v_staging := sc_lock ino (v_staging v)\<rparr>) s)"

definition io_unlock :: "nat \<Rightarrow> io_state \<Rightarrow> io_state" where
  "io_unlock ino = upd_vfs (\<lambda>v. v\<lparr>v_staging := sc_unlock ino (v_staging v)\<rparr>)"

section \<open>Commit hooks\<close>

definition fulfill_commit_hook :: "nat \<Rightarrow> nat \<Rightarrow> int + unit \<Rightarrow> io_state \<Rightarrow> io_state" where
  "fulfill_commit_hook ino c result s =
    (case ch_hook (io_chans s c) of
      None \<Rightarrow> s
    | Some h \<Rightarrow>
        (let s1 = (upd_chan c (\<lambda>ch. ch\<lparr>ch_hook := None\<rparr>) s)\<lparr>io_hooks := (io_hooks s)(h := Some result)\<rparr>
         in if io_pending s1 ino = Some h then s1\<lparr>io_pending := (io_pending s1)(ino := None)\<rparr> else s1))"

definition put_hook :: "nat \<Rightarrow> nat \<Rightarrow> io_state \<Rightarrow> io_state" where
  "put_hook ino c s =
    (if ch_hook (io_chans s c) \<noteq> None then s
     else (let h = io_next_hook s
           in (upd_chan c (\<lambda>ch. ch\<lparr>ch_hook := Some h\<rparr>) s)
                \<lparr>io_hooks := (io_hooks s)(h := None), io_next_hook := h + 1,
                 io_pending := (case io_pending s ino of None \<Rightarrow> (io_pending s)(ino \<mapsto> h) | Some _ \<Rightarrow> io_pending s)\<rparr>))"

definition install_commit_hook :: "nat \<Rightarrow> nat \<Rightarrow> io_state \<Rightarrow> io_state" where
  "install_commit_hook ino c s =
    (case terminal_result (io_chans (put_hook ino c s) c) of
      None \<Rightarrow> put_hook ino c s
    | Some r \<Rightarrow> fulfill_commit_hook ino c r (put_hook ino c s))"

definition await_pending_commit :: "io_env \<Rightarrow> nat \<Rightarrow> io_state \<Rightarrow> (int + unit) \<times> io_state" where
  "await_pending_commit en ino s =
    (case io_pending s ino of
      None \<Rightarrow> (Inr (), s)
    | Some h \<Rightarrow>
        if io_hooks s h \<noteq> None then (Inr (), s)
        else (case x_await en h s of (True, s1) \<Rightarrow> (Inr (), s1) | (False, s1) \<Rightarrow> (Inl EIO, s1)))"

definition defer_commit :: "nat \<Rightarrow> nat \<Rightarrow> io_state \<Rightarrow> io_state" where
  "defer_commit ino c s =
    upd_chan c (\<lambda>ch. if ch_state ch = Writing then ch\<lparr>ch_state := Deferred\<rparr> else ch) (install_commit_hook ino c s)"

text \<open>
  The channel that owns the inode's dirty bytes: open, of the current generation, not terminal.
\<close>

definition streaming_channel_for :: "nat list \<Rightarrow> nat \<Rightarrow> io_state \<Rightarrow> nat option" where
  "streaming_channel_for order ino s =
    (case t_inodes (io_table s) ino of
      None \<Rightarrow> None
    | Some e \<Rightarrow>
        map_option of_channel (find (\<lambda>f. case f of
            Streaming open_ino c \<Rightarrow> open_ino = ino \<and> owns_generation (io_chans s c) (e_dirty_generation e) \<and>
              \<not> channel_is_terminal (io_chans s c)
          | _ \<Rightarrow> False) (List.map_filter (io_files s) order)))"

section \<open>Committing\<close>

definition revert_inode :: "nat \<Rightarrow> inode_snapshot \<Rightarrow> inode_table \<Rightarrow> inode_table option" where
  "revert_inode ino sn t =
    (if \<not> sn_existed_before sn then map_option snd (remove_inode ino t)
     else Some (upd_inode ino (\<lambda>e. e\<lparr>e_xet_hash := sn_xet_hash sn, e_size := sn_size sn, e_mtime := sn_mtime sn,
            e_pending_deletes := sn_pending_deletes sn, e_dirty_generation := 0\<rparr>) t))"

definition commit_skip :: "io_state \<Rightarrow> nat \<Rightarrow> nat \<Rightarrow> bool" where
  "commit_skip s ino c =
    (case t_inodes (io_table s) ino of
      None \<Rightarrow> True
    | Some e \<Rightarrow> e_nlink e = 0 \<or> \<not> owns_generation (io_chans s c) (e_dirty_generation e))"

definition commit_flip :: "nat \<Rightarrow> io_state \<Rightarrow> io_state" where
  "commit_flip c = upd_chan c (\<lambda>ch. if accepts_writes ch then ch\<lparr>ch_state := Committing\<rparr> else ch)"

definition take_pending :: "nat \<Rightarrow> io_state \<Rightarrow> xet_info option \<times> io_state" where
  "take_pending c s = (ch_pending_info (io_chans s c), upd_chan c (\<lambda>ch. ch\<lparr>ch_pending_info := None\<rparr>) s)"

definition send_finish :: "nat \<Rightarrow> io_state \<Rightarrow> io_state" where
  "send_finish c = upd_chan c (\<lambda>ch. ch\<lparr>ch_queue := ch_queue ch @ [Finish], ch_reply := None\<rparr>)"

text \<open>Sending \<open>Finish\<close> and waiting for the upload; \<open>Inr None\<close> when the channel was already committed.\<close>

definition finish_upload :: "io_env \<Rightarrow> nat \<Rightarrow> io_state \<Rightarrow> (int + xet_info option) \<times> io_state" where
  "finish_upload en c s =
    (let s1 = x_slot en c s
     in if \<not> ch_open (io_chans s1 c)
        then ((if ch_state (io_chans s1 c) = Committed then Inr None else Inl EIO), s1)
        else (case x_reply en c (send_finish c s1) of
            (None, s2) \<Rightarrow> (Inl EIO, s2)
          | (Some (Inl e), s2) \<Rightarrow> (Inl (to_errno e), s2)
          | (Some (Inr info), s2) \<Rightarrow> (Inr (Some info), s2)))"

definition commit_ops :: "nat \<Rightarrow> inode_entry \<Rightarrow> xet_info \<Rightarrow> batch_op list" where
  "commit_ops mtime_ms e info =
    AddFile (e_full_path e) (xi_hash info) mtime_ms None # map DeleteFile (e_pending_deletes e)"

definition commit_refused :: "nat \<Rightarrow> xet_info \<Rightarrow> io_state \<Rightarrow> io_state" where
  "commit_refused c info = upd_chan c (\<lambda>ch. ch\<lparr>ch_pending_info := Some info\<rparr>)"

definition commit_apply :: "nat \<Rightarrow> nat \<Rightarrow> xet_info \<Rightarrow> nat \<Rightarrow> nat \<Rightarrow> io_state \<Rightarrow> io_state" where
  "commit_apply ino c info sz now s =
    set_commit_state c Committed
      (upd_io_table (upd_inode ino (apply_commit (xi_hash info) sz (ch_gen (io_chans s c)) now)) s)"

definition commit_to_hub :: "io_env \<Rightarrow> nat \<Rightarrow> nat \<Rightarrow> xet_info \<Rightarrow> io_state \<Rightarrow> ((int + unit) \<times> io_state) option" where
  "commit_to_hub en ino c info s =
    (case t_inodes (io_table s) ino of
      None \<Rightarrow> Some (Inl ENOENT, s)
    | Some e \<Rightarrow>
        (case x_hub en (commit_ops (w_mtime_ms (x_vfs en)) e info) s of
          (Some er, s1) \<Rightarrow> Some (Inl (to_errno er), commit_refused c info s1)
        | (None, s1) \<Rightarrow>
            (case xi_size info of
              None \<Rightarrow> None
            | Some sz \<Rightarrow> Some (Inr (), commit_apply ino c info sz (w_now (x_vfs en)) s1))))"

definition streaming_commit :: "io_env \<Rightarrow> nat \<Rightarrow> nat \<Rightarrow> io_state \<Rightarrow> ((int + unit) \<times> io_state) option" where
  "streaming_commit en ino c s =
    (if v_overlay (io_vfs s) then None
     else if commit_skip s ino c then Some (Inr (), s)
     else (case take_pending c (commit_flip c s) of
        (Some info, s1) \<Rightarrow> commit_to_hub en ino c info s1
      | (None, s1) \<Rightarrow>
          (case finish_upload en c s1 of
            (Inl e, s2) \<Rightarrow> Some (Inl e, s2)
          | (Inr None, s2) \<Rightarrow> Some (Inr (), s2)
          | (Inr (Some info), s2) \<Rightarrow> commit_to_hub en ino c info s2)))"

text \<open>The end of a commit driven by \<open>flush\<close> or \<open>link\<close>, and of one driven by \<open>release\<close>.\<close>

definition settle_flush :: "nat \<Rightarrow> nat \<Rightarrow> int + unit \<Rightarrow> io_state \<Rightarrow> io_state" where
  "settle_flush ino c result s =
    (case result of
      Inl e \<Rightarrow> s
    | Inr _ \<Rightarrow> fulfill_commit_hook ino c (Inr ()) (set_commit_state c Committed s))"

definition commit_streaming_now :: "io_env \<Rightarrow> nat \<Rightarrow> nat \<Rightarrow> io_state \<Rightarrow> ((int + unit) \<times> io_state) option" where
  "commit_streaming_now en ino c s =
    (let s1 = io_lock en ino s; ch = io_chans s1 c
     in case ch_error ch of
          Some er \<Rightarrow> Some (Inl (to_errno er), io_unlock ino s1)
        | None \<Rightarrow>
            (case terminal_result ch of
              Some r \<Rightarrow> Some (r, io_unlock ino s1)
            | None \<Rightarrow>
                map_option (\<lambda>(r, s2). (r, io_unlock ino (settle_flush ino c r s2)))
                  (streaming_commit en ino c (install_commit_hook ino c s1))))"

definition settle_release :: "nat \<Rightarrow> nat \<Rightarrow> int + unit \<Rightarrow> io_state \<Rightarrow> io_state option" where
  "settle_release ino c result s =
    (case result of
      Inr _ \<Rightarrow> Some (fulfill_commit_hook ino c result (set_commit_state c Committed s))
    | Inl e \<Rightarrow>
        map_option (\<lambda>t. fulfill_commit_hook ino c result
            (set_commit_state c (Failed ''commit failed'') (upd_io_table (\<lambda>_. t) s)))
          (revert_inode ino (ch_snapshot (io_chans s c)) (io_table s)))"

definition release_commit :: "io_env \<Rightarrow> nat \<Rightarrow> nat \<Rightarrow> io_state \<Rightarrow> (int option \<times> io_state) option" where
  "release_commit en ino c s =
    (let s1 = io_lock en ino s
     in if channel_is_terminal (io_chans s1 c) then Some (None, io_unlock ino s1)
        else Option.bind (streaming_commit en ino c s1) (\<lambda>(r, s2).
          Option.bind
            (if r \<noteq> Inr () \<and> ch_pending_info (io_chans s2 c) \<noteq> None
             then streaming_commit en ino c (x_sleep en s2) else Some (r, s2))
            (\<lambda>(r', s3). map_option (\<lambda>s4. (case r' of Inl e \<Rightarrow> Some e | Inr _ \<Rightarrow> None, io_unlock ino s4))
               (settle_release ino c r' s3))))"

section \<open>Opening\<close>

definition new_channel :: "nat option \<Rightarrow> inode_snapshot \<Rightarrow> nat \<Rightarrow> streaming_channel" where
  "new_channel pid sn dirty_generation =
    \<lparr>ch_queue = [], ch_open = True, ch_fed = [], ch_failed = False, ch_done = False, ch_reply = None,
     ch_bytes_written = 0, ch_error = None, ch_state = Writing, ch_pending_info = None, ch_open_pid = pid,
     ch_snapshot = sn, ch_gen = dirty_generation, ch_hook = None\<rparr>"

text \<open>The part of \<open>setup_streaming_writer\<close> after the writer exists: handle, channel and state.\<close>

definition alloc_channel :: "nat option \<Rightarrow> inode_snapshot \<Rightarrow> nat \<Rightarrow> io_state \<Rightarrow> nat \<times> nat \<times> io_state" where
  "alloc_channel pid sn dirty_generation s =
    (let c = io_next_chan s;
         (fh, s1) = alloc_file_handle (s\<lparr>io_chans := (io_chans s)(c := new_channel pid sn dirty_generation), io_next_chan := c + 1\<rparr>)
     in (fh, c, s1))"

definition setup_streaming_writer ::
  "io_env \<Rightarrow> nat option \<Rightarrow> inode_snapshot \<Rightarrow> nat \<Rightarrow> io_state \<Rightarrow> (int + nat \<times> nat) \<times> io_state" where
  "setup_streaming_writer en pid sn dirty_generation s =
    (case x_new_writer en s of
      (False, s1) \<Rightarrow> (Inl EIO, s1)
    | (True, s1) \<Rightarrow> (let (fh, c, s2) = alloc_channel pid sn dirty_generation s1 in (Inr (fh, c), s2)))"

definition snapshot_entry :: "inode_entry \<Rightarrow> inode_snapshot" where
  "snapshot_entry e =
    \<lparr>sn_xet_hash = e_xet_hash e, sn_size = e_size e, sn_mtime = e_mtime e,
     sn_pending_deletes = e_pending_deletes e, sn_existed_before = True\<rparr>"

definition open_snapshot :: "nat option \<Rightarrow> nat \<Rightarrow> io_state \<Rightarrow> inode_snapshot option" where
  "open_snapshot active ino s =
    (case active of
      Some old \<Rightarrow> Some (ch_snapshot (io_chans s old))
    | None \<Rightarrow> map_option snapshot_entry (t_inodes (io_table s) ino))"

definition supersede :: "nat \<Rightarrow> nat option \<Rightarrow> io_state \<Rightarrow> io_state" where
  "supersede ino active s =
    (case active of
      None \<Rightarrow> s
    | Some old \<Rightarrow> fulfill_commit_hook ino old (Inl EIO)
        (set_commit_state old (Failed ''superseded by O_TRUNC reopen'') s))"

text \<open>Truncating the inode for the new writer, which takes the generation it made.\<close>

definition start_stream :: "nat \<Rightarrow> nat \<Rightarrow> io_state \<Rightarrow> io_state" where
  "start_stream ino c s =
    (case t_inodes (io_table s) ino of
      None \<Rightarrow> s
    | Some e \<Rightarrow>
        upd_chan c (\<lambda>ch. ch\<lparr>ch_gen := e_dirty_generation (set_dirty e)\<rparr>)
          (upd_io_table (upd_inode ino (\<lambda>e. (set_dirty e)\<lparr>e_size := 0, e_xet_hash := None\<rparr>)) s))"

definition open_streaming_write :: "io_env \<Rightarrow> nat \<Rightarrow> nat option \<Rightarrow> io_state \<Rightarrow> (int + nat) \<times> io_state" where
  "open_streaming_write en ino pid s =
    (case await_pending_commit en ino s of
      (Inl e, s1) \<Rightarrow> (Inl e, s1)
    | (Inr _, s1) \<Rightarrow>
        (let s2 = io_lock en ino s1;
             active = streaming_channel_for (x_order en s2) ino s2
         in case open_snapshot active ino s2 of
              None \<Rightarrow> (Inl ENOENT, io_unlock ino s2)
            | Some sn \<Rightarrow>
                (case setup_streaming_writer en pid sn 0 s2 of
                  (Inl e, s3) \<Rightarrow> (Inl e, io_unlock ino s3)
                | (Inr (fh, c), s3) \<Rightarrow>
                    (let s4 = start_stream ino c (supersede ino active s3);
                         s5 = insert_handle fh (Streaming ino c) (upd_io_table (bump_open_handles ino) s4)
                     in (Inr fh, io_unlock ino s5)))))"

section \<open>Writing and flushing\<close>

definition send_data :: "nat \<Rightarrow> bytes \<Rightarrow> io_state \<Rightarrow> io_state" where
  "send_data c d = upd_chan c (\<lambda>ch. ch\<lparr>ch_queue := ch_queue ch @ [Data d]\<rparr>)"

definition account_write :: "nat \<Rightarrow> nat \<Rightarrow> io_state \<Rightarrow> io_state" where
  "account_write c len = upd_chan c (\<lambda>ch. ch\<lparr>ch_bytes_written := wrap64 (ch_bytes_written ch + len)\<rparr>)"

definition stream_write :: "io_env \<Rightarrow> nat \<Rightarrow> nat \<Rightarrow> nat \<Rightarrow> bytes \<Rightarrow> io_state \<Rightarrow> (int + nat) \<times> io_state" where
  "stream_write en ino c offset data s =
    (case ch_error (io_chans s c) of
      Some er \<Rightarrow> (Inl (to_errno er), s)
    | None \<Rightarrow>
        if offset \<noteq> ch_bytes_written (io_chans s c) then (Inl EINVAL, s)
        else (let s1 = x_slot en c s
              in if \<not> ch_open (io_chans s1 c) then (Inl EIO, s1)
                 else if \<not> accepts_writes (io_chans s1 c) then (Inl EIO, s1)
                 else (let s2 = account_write c (length data) (send_data c data s1)
                       in (Inr (wrap32 (length data)),
                           upd_io_table (upd_inode ino (\<lambda>e. e\<lparr>e_size := wrap64 (offset + length data)\<rparr>)) s2))))"

text \<open>\<open>same_process\<close> on Linux compares the thread groups named in the status files.\<close>

fun find_tgid :: "string list \<Rightarrow> nat option" where
  "find_tgid [] = None"
| "find_tgid (line # rest) =
    (case strip_prefix line (''Tgid:'' @ [CHR 0x09]) of
      Some val \<Rightarrow> (case parse_u64 (trim val) of Some n \<Rightarrow> if n < 2 ^ 32 then Some n else None | None \<Rightarrow> None)
    | None \<Rightarrow> find_tgid rest)"

definition same_process :: "(nat \<Rightarrow> string option) \<Rightarrow> nat \<Rightarrow> nat \<Rightarrow> bool" where
  "same_process status pid_a pid_b =
    (pid_a = pid_b \<or>
     (let read_tgid = (\<lambda>pid. Option.bind (status pid) (\<lambda>txt. find_tgid (split_on (CHR 0x0A) txt)))
      in case (read_tgid pid_a, read_tgid pid_b) of (Some a, Some b) \<Rightarrow> a = b | _ \<Rightarrow> False))"

definition stream_flush :: "io_env \<Rightarrow> nat \<Rightarrow> nat \<Rightarrow> nat option \<Rightarrow> io_state \<Rightarrow> ((int + unit) \<times> io_state) option" where
  "stream_flush en ino c pid s =
    (case ch_error (io_chans s c) of
      Some er \<Rightarrow> Some (Inl (to_errno er), s)
    | None \<Rightarrow>
        (case terminal_result (io_chans s c) of
          Some r \<Rightarrow> Some (r, s)
        | None \<Rightarrow>
            if (case (ch_open_pid (io_chans s c), pid) of
                  (Some open_pid, Some flush_pid) \<Rightarrow> \<not> same_process (x_status en) open_pid flush_pid
                | _ \<Rightarrow> False)
            then Some (Inr (), defer_commit ino c s)
            else if ch_bytes_written (io_chans s c) = 0 then Some (Inr (), defer_commit ino c s)
            else commit_streaming_now en ino c s))"

text \<open>\<open>release\<close> takes the handle out of the table and installs the hook in one section.\<close>

definition release_remove :: "nat \<Rightarrow> io_state \<Rightarrow> open_file option \<times> io_state" where
  "release_remove fh s =
    (let removed = io_files s fh;
         s1 = s\<lparr>io_files := (io_files s)(fh := None)\<rparr>
     in (removed, case removed of
          Some (Streaming ino c) \<Rightarrow> if channel_is_terminal (io_chans s1 c) then s1 else install_commit_hook ino c s1
        | _ \<Rightarrow> s1))"

end
