(* ===== verification/Open_Files.thy ===== *)
theory Open_Files
  imports Streaming
begin

text \<open>
  \<open>src/src/virtual_fs/mod.rs\<close>: the table of open files.  Opening for reading and for the two modes of
  writing, the encrypted staging containers, reading and writing dispatch, flush, release, create, link,
  fsync and setattr.

  A handler gives \<open>None\<close> when the code panics or a tree walk does not end.  \<open>and_then\<close> is the \<open>?\<close>
  operator: the first error is the answer, with the state it was met in.  The operating system's
  answers (opening a file, \<open>pwrite\<close>, creating a container) and the downloads are given by the
  environment; of a staging file the model keeps the size.
\<close>

section \<open>Results\<close>

type_synonym 'a io_result = "((int + 'a) \<times> io_state) option"

definition ok_with :: "'a \<Rightarrow> io_state \<Rightarrow> 'a io_result" where
  "ok_with a s = Some (Inr a, s)"

definition fail_with :: "int \<Rightarrow> io_state \<Rightarrow> 'a io_result" where
  "fail_with e s = Some (Inl e, s)"

definition and_then :: "'a io_result \<Rightarrow> ('a \<Rightarrow> io_state \<Rightarrow> 'b io_result) \<Rightarrow> 'b io_result" where
  "and_then m f = (case m of None \<Rightarrow> None | Some (Inl e, s) \<Rightarrow> Some (Inl e, s) | Some (Inr a, s) \<Rightarrow> f a s)"

definition ensure :: "bool \<Rightarrow> int \<Rightarrow> io_state \<Rightarrow> unit io_result" where
  "ensure b e s = (if b then ok_with () s else fail_with e s)"

definition io_get :: "nat \<Rightarrow> int \<Rightarrow> io_state \<Rightarrow> inode_entry io_result" where
  "io_get ino er s = (case t_inodes (io_table s) ino of None \<Rightarrow> fail_with er s | Some e \<Rightarrow> ok_with e s)"

section \<open>The environment\<close>

text \<open>
  \<open>y_load\<close> is \<open>ensure_children_loaded\<close>; \<open>y_overlay_exists\<close> and \<open>y_overlay_mode\<close> are answers of the
  overlay directory and \<open>y_open\<close> the error of opening a local file (with or without creation), if any.  \<open>y_download\<close> fetches an
  object into an inode's staging file, \<open>y_http\<close> a plain file into the HTTP cache, \<open>y_cached\<close> asks the
  whole-file cache; each gives whether it succeeded and the state afterwards.  \<open>y_pwrite\<close> and
  \<open>y_sync\<close> are system calls; \<open>y_container\<close> creates an empty encrypted container and gives its
  length, \<open>y_raf_write\<close> and \<open>y_raf_truncate\<close> change one and give what they wrote, the plaintext size
  and the length of the file.
\<close>

record file_env =
  y_io :: io_env
  y_load :: "nat \<Rightarrow> io_state \<Rightarrow> (int + bool) \<times> io_state"
  y_overlay_exists :: "string \<Rightarrow> int + bool"
  y_overlay_mode :: "string \<Rightarrow> int option"
  y_open :: "nat \<Rightarrow> string \<Rightarrow> bool \<Rightarrow> int option"
  y_download :: "string \<Rightarrow> nat \<Rightarrow> nat \<Rightarrow> io_state \<Rightarrow> bool \<times> io_state"
  y_http :: "string \<Rightarrow> io_state \<Rightarrow> bool \<times> io_state"
  y_cached :: "string \<Rightarrow> io_state \<Rightarrow> bool \<times> io_state"
  y_has_cache :: bool
  y_pwrite :: "backing \<Rightarrow> nat \<Rightarrow> bytes \<Rightarrow> int + nat"
  y_sync :: "backing \<Rightarrow> int option"
  y_container :: "nat option"
  y_raf_write :: "nat \<Rightarrow> nat \<Rightarrow> bytes \<Rightarrow> (nat \<times> nat \<times> nat) option"
  y_raf_truncate :: "nat \<Rightarrow> nat \<Rightarrow> nat option"

definition y_now :: "file_env \<Rightarrow> nat" where
  "y_now en = w_now (x_vfs (y_io en))"

definition overlay :: "io_state \<Rightarrow> bool" where
  "overlay s = v_overlay (io_vfs s)"

definition is_encrypting :: "io_state \<Rightarrow> bool" where
  "is_encrypting s = v_encrypting (io_vfs s)"

definition io_staging_dir :: "io_state \<Rightarrow> staging_dir option" where
  "io_staging_dir s = sc_dir (v_staging (io_vfs s))"

definition upd_staging_dir :: "(staging_dir \<Rightarrow> staging_dir) \<Rightarrow> io_state \<Rightarrow> io_state" where
  "upd_staging_dir f = upd_vfs (\<lambda>v. v\<lparr>v_staging := (v_staging v)\<lparr>sc_dir := map_option f (sc_dir (v_staging v))\<rparr>\<rparr>)"

definition put_staged :: "nat \<Rightarrow> nat \<Rightarrow> io_state \<Rightarrow> io_state" where
  "put_staged ino n = upd_staging_dir (\<lambda>sd. sd\<lparr>sd_files := (sd_files sd)(ino \<mapsto> n)\<rparr>)"

definition io_file_size :: "nat \<Rightarrow> io_state \<Rightarrow> nat" where
  "io_file_size ino s = (case io_staging_dir s of None \<Rightarrow> 0 | Some sd \<Rightarrow> sd_file_size sd ino)"

definition with_lock :: "file_env \<Rightarrow> nat \<Rightarrow> (io_state \<Rightarrow> 'a io_result) \<Rightarrow> io_state \<Rightarrow> 'a io_result" where
  "with_lock en ino f s = map_option (\<lambda>(r, s'). (r, io_unlock ino s')) (f (io_lock (y_io en) ino s))"

definition enqueue_flush :: "nat \<Rightarrow> io_state \<Rightarrow> io_state" where
  "enqueue_flush ino = upd_vfs (upd_flush (fm_enqueue ino))"

section \<open>Local backing files\<close>

definition local_backing_exists :: "file_env \<Rightarrow> nat \<Rightarrow> string \<Rightarrow> io_state \<Rightarrow> bool io_result" where
  "local_backing_exists en ino path s =
    (if overlay s
     then (case y_overlay_exists en path of Inl e \<Rightarrow> fail_with e s | Inr b \<Rightarrow> ok_with b s)
     else (case io_staging_dir s of None \<Rightarrow> None | Some sd \<Rightarrow> ok_with (sd_files sd ino \<noteq> None) s))"

text \<open>The error of \<open>local_backing_exists\<close> is \<open>EIO\<close> for most callers.\<close>

definition or_eio :: "'a io_result \<Rightarrow> 'a io_result" where
  "or_eio m = map_option (\<lambda>(r, s). (map_sum (\<lambda>_. EIO) id r, s)) m"

definition open_local_backing_file ::
  "file_env \<Rightarrow> nat \<Rightarrow> string \<Rightarrow> bool \<Rightarrow> bool \<Rightarrow> io_state \<Rightarrow> backing io_result" where
  "open_local_backing_file en ino path create trunc s =
    (if overlay s
     then (case y_open en ino path create of Some e \<Rightarrow> fail_with e s | None \<Rightarrow> ok_with (OverlayFile path) s)
     else (case io_staging_dir s of
        None \<Rightarrow> None
      | Some sd \<Rightarrow>
          (case y_open en ino path create of
            Some e \<Rightarrow> fail_with e s
          | None \<Rightarrow>
              (case sd_files sd ino of
                None \<Rightarrow> if create then ok_with (StagingFile ino) (put_staged ino 0 s) else fail_with ENOENT s
              | Some n \<Rightarrow> ok_with (StagingFile ino) (if trunc then put_staged ino 0 s else s)))))"

definition set_local_backing_mode :: "file_env \<Rightarrow> string \<Rightarrow> io_state \<Rightarrow> int option" where
  "set_local_backing_mode en path s = (if overlay s then y_overlay_mode en path else None)"

section \<open>Handles\<close>

definition install_handle :: "nat \<Rightarrow> open_file \<Rightarrow> io_state \<Rightarrow> nat io_result" where
  "install_handle ino f s =
    (let (fh, s1) = alloc_file_handle s
     in ok_with fh (insert_handle fh f (upd_io_table (bump_open_handles ino) s1)))"

definition install_local_handle :: "nat \<Rightarrow> backing \<Rightarrow> bool \<Rightarrow> bool \<Rightarrow> io_state \<Rightarrow> nat io_result" where
  "install_local_handle ino file writable encrypted s =
    (let (fh, s1) = alloc_file_handle s
     in ok_with fh (insert_handle fh (Local ino file writable encrypted)
          (upd_io_table (\<lambda>t. touch ino (bump_open_handles ino t)) s1)))"

definition open_lazy :: "nat \<Rightarrow> string \<Rightarrow> nat \<Rightarrow> bool \<Rightarrow> io_state \<Rightarrow> nat io_result" where
  "open_lazy ino hash sz encrypted = install_handle ino (Lazy ino hash sz encrypted)"

record file_entry =
  fe_xet_hash :: string
  fe_size :: nat
  fe_cipher_size :: "nat option"
  fe_is_dirty :: bool
  fe_full_path :: string

definition get_file_entry :: "nat \<Rightarrow> io_state \<Rightarrow> file_entry io_result" where
  "get_file_entry ino s =
    (case t_inodes (io_table s) ino of
      None \<Rightarrow> fail_with ENOENT s
    | Some e \<Rightarrow>
        if e_kind e = File
        then ok_with \<lparr>fe_xet_hash = (case e_xet_hash e of None \<Rightarrow> [] | Some h \<Rightarrow> h), fe_size = e_size e,
               fe_cipher_size = e_cipher_size e, fe_is_dirty = is_dirty e, fe_full_path = e_full_path e\<rparr> s
        else fail_with ENOENT s)"

section \<open>Opening\<close>

definition upd_entry :: "nat \<Rightarrow> (inode_entry \<Rightarrow> inode_entry) \<Rightarrow> io_state \<Rightarrow> io_state" where
  "upd_entry ino f = upd_io_table (upd_inode ino f)"

text \<open>Filling the staging file of a plain file that cannot be reused.\<close>

definition prepare_staging :: "file_env \<Rightarrow> nat \<Rightarrow> string \<Rightarrow> string \<Rightarrow> nat \<Rightarrow> bool \<Rightarrow> io_state \<Rightarrow> unit io_result" where
  "prepare_staging en ino path hash sz trunc s0 =
    (let s = upd_entry ino (\<lambda>e. e\<lparr>e_staging_is_current := False\<rparr>) s0;
         old_size = io_file_size ino s;
         needs_download = (\<not> overlay s \<and> \<not> trunc \<and> hash \<noteq> [] \<and> sz > 0)
     in and_then
          (if needs_download
           then (case io_staging_dir s of
              None \<Rightarrow> None
            | Some _ \<Rightarrow> (case y_download en hash sz ino s of
                (False, s1) \<Rightarrow> fail_with EIO s1
              | (True, s1) \<Rightarrow> ok_with sz (put_staged ino sz s1)))
           else and_then (or_eio (open_local_backing_file en ino path True True s)) (\<lambda>_ s1. ok_with 0 s1))
          (\<lambda>new_size s2.
            let s3 = (if overlay s2 then s2 else upd_staging_dir (resize_bytes old_size new_size) s2)
            in ok_with ()
                 (if \<not> overlay s3 \<and> (needs_download \<or> hash = [] \<and> sz = 0)
                  then upd_entry ino (\<lambda>e. if (case e_xet_hash e of None \<Rightarrow> [] | Some h \<Rightarrow> h) = hash
                        then e\<lparr>e_staging_is_current := True\<rparr> else e) s3
                  else s3)))"

definition mark_opened :: "nat \<Rightarrow> bool \<Rightarrow> inode_entry \<Rightarrow> inode_entry" where
  "mark_opened now trunc e =
    (let e1 = set_dirty e in if trunc then e1\<lparr>e_size := 0, e_mtime := now, e_ctime := now\<rparr> else e1)"

definition open_advanced_plain :: "file_env \<Rightarrow> nat \<Rightarrow> string \<Rightarrow> string \<Rightarrow> nat \<Rightarrow> bool \<Rightarrow> io_state \<Rightarrow> nat io_result" where
  "open_advanced_plain en ino path hash sz trunc s =
    and_then (io_get ino ENOENT s) (\<lambda>e s.
    and_then (or_eio (local_backing_exists en ino path s)) (\<lambda>local_exists s.
    and_then (ensure (\<not> (overlay s \<and> \<not> is_dirty e \<and> \<not> local_exists)) EPERM s) (\<lambda>_ s.
    and_then (if \<not> trunc \<and> (is_dirty e \<or> e_staging_is_current e) \<and> local_exists then ok_with () s
              else prepare_staging en ino path hash sz trunc s) (\<lambda>_ s.
    and_then (or_eio (open_local_backing_file en ino path False False s)) (\<lambda>file s.
    and_then (io_get ino ENOENT s) (\<lambda>_ s.
    install_local_handle ino file True False (upd_entry ino (mark_opened (y_now en) trunc) s)))))))"

subsection \<open>Encrypted staging\<close>

definition create_container :: "file_env \<Rightarrow> nat \<Rightarrow> io_state \<Rightarrow> unit io_result" where
  "create_container en ino s =
    (case y_container en of None \<Rightarrow> fail_with EIO s | Some n \<Rightarrow> ok_with () (put_staged ino n s))"

definition ensure_encrypted_staging :: "file_env \<Rightarrow> nat \<Rightarrow> bool \<Rightarrow> io_state \<Rightarrow> unit io_result" where
  "ensure_encrypted_staging en ino force_fresh s =
    (if \<not> is_encrypting s then fail_with EIO s
     else (case io_staging_dir s of
        None \<Rightarrow> fail_with ENOTSUP s
      | Some sd \<Rightarrow>
          and_then (io_get ino ENOENT s) (\<lambda>e s.
            let hash = (case e_xet_hash e of None \<Rightarrow> [] | Some h \<Rightarrow> h);
                cipher_size = (case e_cipher_size e of None \<Rightarrow> 0 | Some n \<Rightarrow> n)
            in if \<not> force_fresh \<and> sd_files sd ino \<noteq> None \<and> (is_dirty e \<or> e_staging_is_current e) then ok_with () s
               else (let old = io_file_size ino s
                     in and_then
                          (if force_fresh \<or> hash = [] \<or> cipher_size = 0 then create_container en ino s
                           else (case y_download en hash cipher_size ino s of
                              (False, s1) \<Rightarrow> fail_with EIO s1
                            | (True, s1) \<Rightarrow> ok_with () (upd_entry ino (\<lambda>e. e\<lparr>e_staging_is_current := True\<rparr>)
                                (put_staged ino cipher_size s1))))
                          (\<lambda>_ s2. ok_with () (upd_staging_dir (\<lambda>sd. resize_bytes old (sd_file_size sd ino) sd) s2))))))"

text \<open>\<open>StagingDir::open_local_file\<close> without creation.\<close>

definition open_staged :: "file_env \<Rightarrow> nat \<Rightarrow> string \<Rightarrow> io_state \<Rightarrow> backing io_result" where
  "open_staged en ino path s =
    (if y_open en ino path False \<noteq> None \<or> (case io_staging_dir s of None \<Rightarrow> True | Some sd \<Rightarrow> sd_files sd ino = None)
     then fail_with EIO s else ok_with (StagingFile ino) s)"

definition mark_opened_encrypted :: "nat \<Rightarrow> bool \<Rightarrow> inode_entry \<Rightarrow> inode_entry" where
  "mark_opened_encrypted now trunc e =
    (let e1 = set_dirty e
     in if trunc then e1\<lparr>e_size := 0, e_cipher_size := Some (ciphertext_size 0), e_mtime := now, e_ctime := now\<rparr> else e1)"

definition open_advanced_write_encrypted :: "file_env \<Rightarrow> nat \<Rightarrow> string \<Rightarrow> bool \<Rightarrow> io_state \<Rightarrow> nat io_result" where
  "open_advanced_write_encrypted en ino path trunc s =
    (if io_staging_dir s = None then fail_with ENOTSUP s
     else with_lock en ino (\<lambda>s.
       and_then (ensure_encrypted_staging en ino trunc s) (\<lambda>_ s.
       and_then (open_staged en ino path s) (\<lambda>file s.
       and_then (io_get ino ENOENT s) (\<lambda>_ s.
       install_handle ino (Local ino file True True)
         (upd_entry ino (mark_opened_encrypted (y_now en) trunc) s))))) s)"

definition open_advanced_write :: "file_env \<Rightarrow> nat \<Rightarrow> string \<Rightarrow> string \<Rightarrow> nat \<Rightarrow> bool \<Rightarrow> io_state \<Rightarrow> nat io_result" where
  "open_advanced_write en ino path hash sz trunc s =
    (if is_encrypting s then open_advanced_write_encrypted en ino path trunc s
     else with_lock en ino (open_advanced_plain en ino path hash sz trunc) s)"

subsection \<open>Reading\<close>

definition staged_exists :: "nat \<Rightarrow> io_state \<Rightarrow> bool" where
  "staged_exists ino s = (case io_staging_dir s of None \<Rightarrow> False | Some sd \<Rightarrow> sd_files sd ino \<noteq> None)"

definition open_local_readonly :: "file_env \<Rightarrow> nat \<Rightarrow> string \<Rightarrow> backing \<Rightarrow> bool \<Rightarrow> io_state \<Rightarrow> nat io_result" where
  "open_local_readonly en ino path file encrypted s =
    (if y_open en ino path False \<noteq> None then fail_with EIO s else install_local_handle ino file False encrypted s)"

text \<open>
  A non-Xet file is downloaded under the inode's lock.  \<open>held\<close> says that the caller has it already:
  the lock is not re-entrant, so then the operation waits for itself.
\<close>

definition open_http :: "file_env \<Rightarrow> bool \<Rightarrow> nat \<Rightarrow> string \<Rightarrow> io_state \<Rightarrow> nat io_result" where
  "open_http en held ino path s =
    (if io_staging_dir s = None then fail_with EIO s
     else if held then None
     else and_then (with_lock en ino (\<lambda>s. case y_http en path s of (False, s1) \<Rightarrow> fail_with EIO s1 | (True, s1) \<Rightarrow> ok_with () s1) s)
       (\<lambda>_ s. open_local_readonly en ino path (HttpFile path) False s))"

definition open_remote :: "file_env \<Rightarrow> nat \<Rightarrow> file_entry \<Rightarrow> io_state \<Rightarrow> nat io_result" where
  "open_remote en ino fe s =
    (if is_encrypting s
     then open_lazy ino (fe_xet_hash fe) (case fe_cipher_size fe of None \<Rightarrow> fe_size fe | Some n \<Rightarrow> n) True s
     else if y_has_cache en
     then (case y_cached en (fe_xet_hash fe) s of
        (True, s1) \<Rightarrow> install_local_handle ino (CacheFile (fe_xet_hash fe)) False False s1
      | (False, s1) \<Rightarrow> open_lazy ino (fe_xet_hash fe) (fe_size fe) False s1)
     else open_lazy ino (fe_xet_hash fe) (fe_size fe) False s)"

definition open_dispatch :: "file_env \<Rightarrow> bool \<Rightarrow> bool \<Rightarrow> nat \<Rightarrow> file_entry \<Rightarrow> io_state \<Rightarrow> nat io_result" where
  "open_dispatch en held has_staging ino fe s =
    (if fe_is_dirty fe
     then (if has_staging
           then (if staged_exists ino s
                 then open_local_readonly en ino (fe_full_path fe) (StagingFile ino) (is_encrypting s) s
                 else fail_with EIO s)
           else and_then (get_file_entry ino s) (\<lambda>fe s.
             if fe_xet_hash fe \<noteq> [] then open_lazy ino (fe_xet_hash fe) (fe_size fe) False s
             else open_lazy ino [] 0 False s))
     else if fe_xet_hash fe \<noteq> [] then open_remote en ino fe s
     else if fe_size fe > 0 then open_http en held ino (fe_full_path fe) s
     else open_lazy ino [] 0 False s)"

definition open_overlay_dirty :: "file_env \<Rightarrow> nat \<Rightarrow> file_entry \<Rightarrow> io_state \<Rightarrow> nat io_result" where
  "open_overlay_dirty en ino fe s =
    and_then (or_eio (local_backing_exists en ino (fe_full_path fe) s)) (\<lambda>local_exists s.
      if local_exists
      then and_then (or_eio (open_local_backing_file en ino (fe_full_path fe) False False s))
        (\<lambda>file s. install_local_handle ino file False False s)
      else fail_with EIO s)"

definition open_readonly_body :: "file_env \<Rightarrow> bool \<Rightarrow> bool \<Rightarrow> nat \<Rightarrow> file_entry \<Rightarrow> io_state \<Rightarrow> nat io_result" where
  "open_readonly_body en held has_staging ino fe s =
    (if fe_is_dirty fe \<and> overlay s then open_overlay_dirty en ino fe s
     else and_then
       (if fe_is_dirty fe \<and> has_staging \<and> \<not> staged_exists ino s then get_file_entry ino s else ok_with fe s)
       (open_dispatch en held has_staging ino))"

definition open_readonly :: "file_env \<Rightarrow> bool \<Rightarrow> nat \<Rightarrow> file_entry \<Rightarrow> io_state \<Rightarrow> nat io_result" where
  "open_readonly en has_staging ino fe s =
    (if fe_is_dirty fe \<and> has_staging then with_lock en ino (open_readonly_body en True has_staging ino fe) s
     else open_readonly_body en False has_staging ino fe s)"

definition open_file_op :: "file_env \<Rightarrow> nat \<Rightarrow> bool \<Rightarrow> bool \<Rightarrow> nat option \<Rightarrow> io_state \<Rightarrow> nat io_result" where
  "open_file_op en ino writable trunc pid s =
    (if writable \<and> v_read_only (io_vfs s) then fail_with EROFS s
     else and_then (get_file_entry ino s) (\<lambda>fe s.
       if writable \<and> v_advanced_writes (io_vfs s)
       then open_advanced_write en ino (fe_full_path fe) (fe_xet_hash fe) (fe_size fe) trunc s
       else if writable \<and> trunc then Some (open_streaming_write (y_io en) ino pid s)
       else if writable then fail_with EPERM s
       else open_readonly en (io_staging_dir s \<noteq> None) ino fe s))"

text \<open>What \<open>read\<close> reads from.\<close>

datatype read_target = LocalFd backing | Remote string nat | Encrypted string nat | LocalEncrypted nat

definition read_dispatch :: "nat \<Rightarrow> io_state \<Rightarrow> int + read_target" where
  "read_dispatch fh s =
    (case io_files s fh of
      Some (Local ino file _ encrypted) \<Rightarrow> Inr (if encrypted then LocalEncrypted ino else LocalFd file)
    | Some (Lazy ino hash sz encrypted) \<Rightarrow> Inr (if encrypted then Encrypted hash sz else Remote hash sz)
    | Some (Streaming _ _) \<Rightarrow> Inl EBADF
    | None \<Rightarrow> Inl EBADF)"

section \<open>Writing\<close>

text \<open>After a \<open>pwrite\<close> the size, the staging budget and the dirty mark follow; the file grows on disk.\<close>

definition note_local_write :: "nat \<Rightarrow> nat \<Rightarrow> io_state \<Rightarrow> io_state" where
  "note_local_write ino new_end s =
    upd_io_table (touch ino)
      (case t_inodes (io_table s) ino of
        None \<Rightarrow> s
      | Some e \<Rightarrow>
          upd_entry ino set_dirty
            (if new_end > e_size e
             then upd_entry ino (\<lambda>e. e\<lparr>e_size := new_end\<rparr>) (upd_staging_dir (resize_bytes (e_size e) new_end) s)
             else s))"

definition grow_file :: "backing \<Rightarrow> nat \<Rightarrow> io_state \<Rightarrow> io_state" where
  "grow_file file new_end s =
    (case file of
      StagingFile ino \<Rightarrow> if staged_exists ino s then put_staged ino (max (io_file_size ino s) new_end) s else s
    | _ \<Rightarrow> s)"

definition local_write :: "file_env \<Rightarrow> nat \<Rightarrow> backing \<Rightarrow> nat \<Rightarrow> bytes \<Rightarrow> io_state \<Rightarrow> (int + nat) \<times> io_state" where
  "local_write en ino file offset data s =
    (case y_pwrite en file offset data of
      Inl e \<Rightarrow> (Inl e, s)
    | Inr n \<Rightarrow>
        (let written = wrap32 n; new_end = wrap64 (offset + written)
         in (Inr written, note_local_write ino new_end (grow_file file (offset + n) s))))"

definition encrypted_local_write :: "file_env \<Rightarrow> nat \<Rightarrow> nat \<Rightarrow> bytes \<Rightarrow> io_state \<Rightarrow> (int + nat) \<times> io_state" where
  "encrypted_local_write en ino offset data s =
    (if \<not> is_encrypting s \<or> io_staging_dir s = None then (Inl EIO, s)
     else (let old_plaintext = (case t_inodes (io_table s) ino of None \<Rightarrow> 0 | Some e \<Rightarrow> e_size e)
           in case y_raf_write en ino offset data of
                None \<Rightarrow> (Inl EIO, s)
              | Some (n, new_plaintext, file_len) \<Rightarrow>
                  (let s1 = put_staged ino file_len s;
                       s2 = (case t_inodes (io_table s1) ino of
                          None \<Rightarrow> s1
                        | Some e \<Rightarrow>
                            upd_entry ino set_dirty
                              (if new_plaintext \<noteq> e_size e
                               then upd_entry ino (\<lambda>e. e\<lparr>e_size := new_plaintext\<rparr>)
                                 (upd_staging_dir (resize_bytes (ciphertext_size old_plaintext) (ciphertext_size new_plaintext)) s1)
                               else s1))
                   in (Inr (wrap32 n), upd_io_table (touch ino) s2))))"

definition write_op :: "file_env \<Rightarrow> nat \<Rightarrow> nat \<Rightarrow> bytes \<Rightarrow> io_state \<Rightarrow> (int + nat) \<times> io_state" where
  "write_op en fh offset data s =
    (if v_read_only (io_vfs s) then (Inl EROFS, s)
     else (case io_files s fh of
        Some (Local ino file True True) \<Rightarrow> encrypted_local_write en ino offset data s
      | Some (Local ino file True False) \<Rightarrow> local_write en ino file offset data s
      | Some (Streaming ino c) \<Rightarrow> stream_write (y_io en) ino c offset data s
      | _ \<Rightarrow> (Inl EBADF, s)))"

section \<open>Flushing and closing\<close>

definition flush_op :: "file_env \<Rightarrow> nat \<Rightarrow> nat \<Rightarrow> nat option \<Rightarrow> io_state \<Rightarrow> unit io_result" where
  "flush_op en ino fh pid s =
    (case io_files s fh of
      Some (Streaming _ c) \<Rightarrow> stream_flush (y_io en) ino c pid s
    | _ \<Rightarrow>
        (case v_flush (io_vfs s) of
          None \<Rightarrow> ok_with () s
        | Some fm \<Rightarrow>
            (case check_error ino fm of
              (None, fm1) \<Rightarrow> ok_with () (upd_vfs (\<lambda>v. v\<lparr>v_flush := Some fm1\<rparr>) s)
            | (Some msg, fm1) \<Rightarrow> fail_with EIO (upd_vfs (\<lambda>v. v\<lparr>v_flush := Some fm1\<rparr>) s))))"

definition fsync :: "file_env \<Rightarrow> nat \<Rightarrow> nat \<Rightarrow> io_state \<Rightarrow> unit io_result" where
  "fsync en ino fh s =
    (case io_files s fh of
      Some (Streaming _ _) \<Rightarrow> ok_with () s
    | Some (Local _ file _ _) \<Rightarrow>
        if overlay s then (case y_sync en file of None \<Rightarrow> ok_with () s | Some _ \<Rightarrow> fail_with EIO s)
        else ok_with () (enqueue_flush ino s)
    | _ \<Rightarrow> ok_with () (enqueue_flush ino s))"

definition is_unlinked :: "nat \<Rightarrow> io_state \<Rightarrow> bool" where
  "is_unlinked ino s = (case t_inodes (io_table s) ino of None \<Rightarrow> False | Some e \<Rightarrow> e_nlink e = 0)"

text \<open>The last part of \<open>release\<close>: the handle count, the last-close cleanup, the lock entry.\<close>

definition release_finish :: "file_env \<Rightarrow> nat \<Rightarrow> io_state \<Rightarrow> io_state" where
  "release_finish en ino s =
    (let s1 = upd_io_table (drop_open_handles ino) s;
         s2 = (if has_open_handles (io_table s1) ino then s1 else upd_vfs (reap_on_last_release (x_vfs (y_io en)) ino) s1)
     in upd_vfs (\<lambda>v. v\<lparr>v_staging := forget_lock_if_unused ino (v_staging v)\<rparr>) s2)"

definition release :: "file_env \<Rightarrow> nat \<Rightarrow> io_state \<Rightarrow> unit io_result" where
  "release en fh s =
    (case release_remove fh s of
      (None, s1) \<Rightarrow> ok_with () s1
    | (Some f, s1) \<Rightarrow>
        map_option (\<lambda>(er, s2). (case er of None \<Rightarrow> Inr () | Some e \<Rightarrow> Inl e, release_finish en (of_ino f) s2))
          (case f of
            Local ino _ True _ \<Rightarrow> Some (None, if is_unlinked ino s1 then s1 else enqueue_flush ino s1)
          | Streaming ino c \<Rightarrow> if channel_is_terminal (io_chans s1 c) then Some (None, s1) else release_commit (y_io en) ino c s1
          | _ \<Rightarrow> Some (None, s1)))"

section \<open>Creating and linking\<close>

definition io_attr :: "nat \<Rightarrow> int \<Rightarrow> io_state \<Rightarrow> vfs_attr io_result" where
  "io_attr ino er s = Some (attr_of (io_vfs s) ino er, s)"

definition io_remove :: "nat \<Rightarrow> io_state \<Rightarrow> io_state option" where
  "io_remove ino s = map_option (\<lambda>v. s\<lparr>io_vfs := v\<rparr>) (remove_from ino (io_vfs s))"

definition load_parent :: "file_env \<Rightarrow> nat \<Rightarrow> io_state \<Rightarrow> unit io_result" where
  "load_parent en parent s = (case y_load en parent s of (Inl e, s1) \<Rightarrow> fail_with e s1 | (Inr _, s1) \<Rightarrow> ok_with () s1)"

definition guard_name :: "string \<Rightarrow> io_state \<Rightarrow> unit io_result" where
  "guard_name name s = Some (new_name_guard (io_vfs s) name, s)"

text \<open>Inserting the new file as dirty, under one write lock.\<close>

definition create_locked :: "file_env \<Rightarrow> nat \<Rightarrow> string \<Rightarrow> nat \<Rightarrow> nat \<Rightarrow> nat \<Rightarrow> io_state \<Rightarrow> (nat \<times> string \<times> nat) io_result" where
  "create_locked en parent name mode uid gid s =
    (case insert_locked parent name File 0 None mode uid gid (y_now en) set_dirty (io_table s) of
      (Inl e, t) \<Rightarrow> fail_with e s
    | (Inr (ino, path), t) \<Rightarrow>
        ok_with (ino, path, case t_inodes t ino of None \<Rightarrow> 0 | Some e \<Rightarrow> e_dirty_generation e)
          (upd_io_table (\<lambda>_. touch ino t) s))"

definition forget_missing :: "string \<Rightarrow> io_state \<Rightarrow> io_state" where
  "forget_missing path = upd_vfs (\<lambda>v. upd_flush (cancel_delete path) (negative_cache_remove path v))"

definition undo_create :: "nat \<Rightarrow> int \<Rightarrow> io_state \<Rightarrow> 'a io_result" where
  "undo_create ino e s = Option.bind (io_remove ino s) (fail_with e)"

definition create_encrypted :: "file_env \<Rightarrow> nat \<Rightarrow> string \<Rightarrow> io_state \<Rightarrow> (vfs_attr \<times> nat) io_result" where
  "create_encrypted en ino path s =
    (if io_staging_dir s = None then fail_with EIO s
     else and_then (create_container en ino s) (\<lambda>_ s.
       if set_local_backing_mode en path s \<noteq> None then undo_create ino EIO s
       else and_then (open_staged en ino path s) (\<lambda>file s.
         let (fh, s1) = alloc_file_handle s;
             s2 = upd_io_table (bump_open_handles ino) (upd_entry ino (\<lambda>e. e\<lparr>e_cipher_size := Some (ciphertext_size 0)\<rparr>) s1)
         in and_then (io_attr ino ENOENT s2) (\<lambda>attr s3. ok_with (attr, fh) (insert_handle fh (Local ino file True True) s3)))))"

definition create_plain :: "file_env \<Rightarrow> nat \<Rightarrow> string \<Rightarrow> io_state \<Rightarrow> (vfs_attr \<times> nat) io_result" where
  "create_plain en ino path s =
    (case open_local_backing_file en ino path True True s of
      None \<Rightarrow> None
    | Some (Inl e, s1) \<Rightarrow> undo_create ino EIO s1
    | Some (Inr file, s1) \<Rightarrow>
        if set_local_backing_mode en path s1 \<noteq> None then undo_create ino EIO s1
        else and_then (install_handle ino (Local ino file True False) s1) (\<lambda>fh s2.
          and_then (io_attr ino ENOENT s2) (\<lambda>attr s3. ok_with (attr, fh) s3)))"

definition create_streaming :: "file_env \<Rightarrow> nat \<Rightarrow> nat \<Rightarrow> nat option \<Rightarrow> io_state \<Rightarrow> (vfs_attr \<times> nat) io_result" where
  "create_streaming en ino gen pid s =
    (case setup_streaming_writer (y_io en) pid
        \<lparr>sn_xet_hash = None, sn_size = 0, sn_mtime = y_now en, sn_pending_deletes = [], sn_existed_before = False\<rparr> gen s of
      (Inl e, s1) \<Rightarrow> undo_create ino e s1
    | (Inr (fh, c), s1) \<Rightarrow>
        and_then (io_attr ino ENOENT (insert_handle fh (Streaming ino c) (upd_io_table (bump_open_handles ino) s1)))
          (\<lambda>attr s2. ok_with (attr, fh) s2))"

definition create :: "file_env \<Rightarrow> nat \<Rightarrow> string \<Rightarrow> nat \<Rightarrow> nat \<Rightarrow> nat \<Rightarrow> nat option \<Rightarrow> io_state \<Rightarrow> (vfs_attr \<times> nat) io_result" where
  "create en parent name mode uid gid pid s =
    and_then (guard_name name s) (\<lambda>_ s.
    and_then (load_parent en parent s) (\<lambda>_ s.
    and_then (create_locked en parent name mode uid gid s) (\<lambda>(ino, path, gen) s0.
      let s = forget_missing path s0
      in if v_advanced_writes (io_vfs s)
         then (if is_encrypting s then create_encrypted en ino path s else create_plain en ino path s)
         else create_streaming en ino gen pid s)))"

record link_info =
  ls_path :: string
  ls_xet_hash :: string
  ls_size :: nat
  ls_cipher_size :: "nat option"
  ls_mode :: nat
  ls_uid :: nat
  ls_gid :: nat

definition link_source :: "nat \<Rightarrow> io_state \<Rightarrow> link_info option io_result" where
  "link_source ino s =
    and_then (io_get ino ENOENT s) (\<lambda>e s.
      if e_kind e \<noteq> File then fail_with EPERM s
      else if is_dirty e then ok_with None s
      else (case e_xet_hash e of
          None \<Rightarrow> ok_with None s
        | Some hash \<Rightarrow>
            if hash = [] then ok_with None s
            else ok_with (Some \<lparr>ls_path = e_full_path e, ls_xet_hash = hash, ls_size = e_size e, ls_cipher_size = e_cipher_size e,
                   ls_mode = e_mode e, ls_uid = e_uid e, ls_gid = e_gid e\<rparr>) s))"

definition link_target :: "nat \<Rightarrow> string \<Rightarrow> io_state \<Rightarrow> string io_result" where
  "link_target newparent newname s =
    and_then (io_get newparent ENOENT s) (\<lambda>pe s.
      if e_kind pe \<noteq> Directory then fail_with ENOTDIR s
      else if lookup_child (io_table s) newparent newname \<noteq> None then fail_with EEXIST s
      else ok_with (child_path (e_full_path pe) newname) s)"

definition some_or :: "int \<Rightarrow> 'a option \<Rightarrow> io_state \<Rightarrow> 'a io_result" where
  "some_or er x s = (case x of None \<Rightarrow> fail_with er s | Some a \<Rightarrow> ok_with a s)"

definition link_insert :: "nat \<Rightarrow> nat \<Rightarrow> string \<Rightarrow> string \<Rightarrow> link_info \<Rightarrow> io_state \<Rightarrow> vfs_attr io_result" where
  "link_insert now newparent newname path src s =
    and_then (io_get newparent ENOENT s) (\<lambda>_ s.
    and_then (ensure (lookup_child (io_table s) newparent newname = None) EEXIST s) (\<lambda>_ s.
      let (ino, t1) = insert_inode newparent newname path File (ls_size src) now (Some (ls_xet_hash src)) (ls_mode src) (ls_uid src) (ls_gid src) now (io_table s);
          t2 = (case ls_cipher_size src of None \<Rightarrow> t1 | Some cs \<Rightarrow> upd_inode ino (\<lambda>e. e\<lparr>e_cipher_size := Some cs\<rparr>) t1)
      in io_attr ino EIO (upd_io_table (\<lambda>_. touch ino (touch_parent newparent now t2)) s)))"

definition link_op :: "file_env \<Rightarrow> nat \<Rightarrow> nat \<Rightarrow> string \<Rightarrow> io_state \<Rightarrow> vfs_attr io_result" where
  "link_op en ino newparent newname s =
    (if v_read_only (io_vfs s) then fail_with EROFS s
     else if overlay s then fail_with ENOTSUP s
     else and_then (guard_name newname s) (\<lambda>_ s.
       and_then (link_source ino s) (\<lambda>source s.
       and_then (if source \<noteq> None then ok_with None s
                 else and_then (some_or ENOTSUP (streaming_channel_for (x_order (y_io en) s) ino s) s) (\<lambda>c s. ok_with (Some c) s)) (\<lambda>dirty_channel s.
       and_then (load_parent en newparent s) (\<lambda>_ s.
       and_then (link_target newparent newname s) (\<lambda>path s.
       and_then (case dirty_channel of
            None \<Rightarrow> some_or ENOTSUP source s
          | Some c \<Rightarrow> and_then (commit_streaming_now (y_io en) ino c s) (\<lambda>_ s.
              and_then (link_source ino s) (\<lambda>source s. some_or ENOTSUP source s))) (\<lambda>src s.
       (case x_hub (y_io en) [AddFile path (ls_xet_hash src) (w_mtime_ms (x_vfs (y_io en))) None] s of
          (Some er, s1) \<Rightarrow> fail_with (to_errno er) s1
        | (None, s1) \<Rightarrow> link_insert (y_now en) newparent newname path src (forget_missing path s1)))))))))"

section \<open>Attributes\<close>

definition truncate_mark :: "nat \<Rightarrow> nat \<Rightarrow> inode_entry \<Rightarrow> inode_entry" where
  "truncate_mark now new_size e =
    (let e1 = set_dirty (e\<lparr>e_size := new_size, e_mtime := now, e_ctime := now\<rparr>)
     in if new_size = 0 then e1\<lparr>e_xet_hash := None\<rparr> else e1)"

definition encrypted_setattr_truncate :: "file_env \<Rightarrow> nat \<Rightarrow> nat \<Rightarrow> io_state \<Rightarrow> unit io_result" where
  "encrypted_setattr_truncate en ino new_size s =
    (if io_staging_dir s = None then fail_with ENOTSUP s
     else with_lock en ino (\<lambda>s.
       and_then (ensure_encrypted_staging en ino False s) (\<lambda>_ s.
         let old = io_file_size ino s
         in case y_raf_truncate en ino new_size of
              None \<Rightarrow> fail_with EIO s
            | Some len \<Rightarrow>
                ok_with () (upd_entry ino (\<lambda>e. set_dirty (e\<lparr>e_size := new_size, e_cipher_size := Some (ciphertext_size new_size),
                      e_mtime := y_now en, e_ctime := y_now en\<rparr>))
                  (upd_staging_dir (resize_bytes old len) (put_staged ino len s))))) s)"

text \<open>Making the file to truncate exist: downloaded when bytes of it stay, created empty otherwise.\<close>

definition materialize :: "file_env \<Rightarrow> nat \<Rightarrow> string \<Rightarrow> nat \<Rightarrow> io_state \<Rightarrow> unit io_result" where
  "materialize en ino path new_size s =
    (let fresh = (\<lambda>s. and_then (or_eio (open_local_backing_file en ino path True True s)) (\<lambda>_ s. ok_with () s))
     in if new_size > 0
        then (if io_staging_dir s = None then None
              else and_then (io_get ino ENOENT s) (\<lambda>e s.
                let hash = (case e_xet_hash e of None \<Rightarrow> [] | Some h \<Rightarrow> h)
                in if hash \<noteq> [] \<and> e_size e > 0
                   then (case y_download en hash (e_size e) ino s of
                      (False, s1) \<Rightarrow> fail_with EIO s1
                    | (True, s1) \<Rightarrow> ok_with () (put_staged ino (e_size e) s1))
                   else fresh s))
        else fresh s)"

definition truncate_local :: "file_env \<Rightarrow> nat \<Rightarrow> string \<Rightarrow> nat \<Rightarrow> io_state \<Rightarrow> unit io_result" where
  "truncate_local en ino path new_size s =
    and_then (local_backing_exists en ino path s) (\<lambda>local_exists s.
    and_then (ensure (\<not> (overlay s \<and> \<not> local_exists)) EPERM s) (\<lambda>_ s.
      let old_size = (if overlay s then 0 else io_file_size ino s)
      in and_then (if local_exists then ok_with () s else materialize en ino path new_size s) (\<lambda>_ s.
         and_then (or_eio (if new_size = 0 then open_local_backing_file en ino path True True s
            else open_local_backing_file en ino path False False s)) (\<lambda>file s.
           let s1 = (case file of StagingFile i \<Rightarrow> put_staged i new_size s | _ \<Rightarrow> s);
               s2 = (if overlay s1 then s1 else upd_staging_dir (\<lambda>sd. resize_bytes old_size (sd_file_size sd ino) sd) s1)
           in ok_with () (upd_entry ino (truncate_mark (y_now en) new_size) s2)))))"

definition setattr_size :: "file_env \<Rightarrow> nat \<Rightarrow> nat \<Rightarrow> io_state \<Rightarrow> unit io_result" where
  "setattr_size en ino new_size s =
    and_then (io_get ino ENOENT s) (\<lambda>e s.
    and_then (ensure (e_kind e = File) EISDIR s) (\<lambda>_ s.
      if is_encrypting s
      then and_then (encrypted_setattr_truncate en ino new_size s) (\<lambda>_ s. ok_with () (enqueue_flush ino s))
      else if \<not> v_advanced_writes (io_vfs s) then ok_with () s
      else and_then (with_lock en ino (truncate_local en ino (e_full_path e) new_size) s) (\<lambda>_ s. ok_with () (enqueue_flush ino s))))"

record attr_change =
  a_mode :: "nat option"
  a_uid :: "nat option"
  a_gid :: "nat option"
  a_atime :: "nat option"
  a_mtime :: "nat option"

definition no_change :: attr_change where
  "no_change = \<lparr>a_mode = None, a_uid = None, a_gid = None, a_atime = None, a_mtime = None\<rparr>"

definition or_old :: "nat option \<Rightarrow> nat \<Rightarrow> nat" where
  "or_old x old = (case x of None \<Rightarrow> old | Some new \<Rightarrow> new)"

definition change_entry :: "nat \<Rightarrow> attr_change \<Rightarrow> inode_entry \<Rightarrow> inode_entry" where
  "change_entry now a e =
    e\<lparr>e_mode := or_old (a_mode a) (e_mode e), e_uid := or_old (a_uid a) (e_uid e), e_gid := or_old (a_gid a) (e_gid e),
      e_atime := or_old (a_atime a) (e_atime e), e_mtime := or_old (a_mtime a) (e_mtime e), e_ctime := now\<rparr>"

definition setattr_meta :: "file_env \<Rightarrow> nat \<Rightarrow> attr_change \<Rightarrow> io_state \<Rightarrow> unit io_result" where
  "setattr_meta en ino a s =
    (if a = no_change then ok_with () s
     else and_then
       (if \<not> overlay s then ok_with () s
        else and_then (io_get ino ENOENT s) (\<lambda>e s.
          and_then (local_backing_exists en ino (e_full_path e) s) (\<lambda>local_exists s.
          and_then (ensure local_exists EPERM s) (\<lambda>_ s.
            if a_mode a = None then ok_with () s
            else (case set_local_backing_mode en (e_full_path e) s of None \<Rightarrow> ok_with () s | Some er \<Rightarrow> fail_with er s)))))
       (\<lambda>_ s. ok_with () (upd_entry ino (change_entry (y_now en) a) s)))"

definition setattr :: "file_env \<Rightarrow> nat \<Rightarrow> nat option \<Rightarrow> attr_change \<Rightarrow> io_state \<Rightarrow> vfs_attr io_result" where
  "setattr en ino sz a s =
    (if v_read_only (io_vfs s) then fail_with EROFS s
     else and_then (case sz of None \<Rightarrow> ok_with () s | Some n \<Rightarrow> setattr_size en ino n s) (\<lambda>_ s.
       and_then (setattr_meta en ino a s) (\<lambda>_ s. io_attr ino ENOENT s)))"

end
