(* ===== verification/Streaming_Safety.thy ===== *)
theory Streaming_Safety
  imports Streaming
begin

text \<open>
  Streaming writes under every interleaving: what is committed is exactly what was acknowledged, and
  a channel that reached its final state stays there.

  The configuration adds to the state who holds each inode's lock and how far it is, and, as a record
  of the past, which inode each channel writes, what \<open>write\<close> has put into it, and which commits
  were accepted or skipped.  Between two sections any task may run; the rules leave out only the
  checks that restrict a caller further (the offset of a write, the process of a flush).
\<close>

section \<open>The protocol\<close>

datatype driver_kind = ByFlush | ByRelease

datatype driver =
    Opening
  | Starting driver_kind nat bool
  | Flipped driver_kind nat bool
  | Uploading driver_kind nat bool
  | Ready driver_kind nat bool xet_info
  | Accepted driver_kind nat bool xet_info
  | Returned driver_kind nat bool "int + unit"

datatype commit_event = Added nat xet_info | Skipped nat

record stream_conf =
  k_io :: io_state
  k_lock :: "nat \<rightharpoonup> driver"
  k_home :: "nat \<Rightarrow> nat"
  k_sent :: "nat \<Rightarrow> bytes list"
  k_log :: "commit_event list"

definition run_io :: "(io_state \<Rightarrow> io_state) \<Rightarrow> stream_conf \<Rightarrow> stream_conf" where
  "run_io f k = k\<lparr>k_io := f (k_io k)\<rparr>"

definition hold :: "nat \<Rightarrow> driver \<Rightarrow> stream_conf \<Rightarrow> stream_conf" where
  "hold i d k = k\<lparr>k_lock := (k_lock k)(i \<mapsto> d)\<rparr>"

definition leave :: "nat \<Rightarrow> stream_conf \<Rightarrow> stream_conf" where
  "leave i k = k\<lparr>k_lock := (k_lock k)(i := None)\<rparr>"

definition record_event :: "commit_event \<Rightarrow> stream_conf \<Rightarrow> stream_conf" where
  "record_event ev k = k\<lparr>k_log := ev # k_log k\<rparr>"

abbreviation chan :: "stream_conf \<Rightarrow> nat \<Rightarrow> streaming_channel" where
  "chan k c \<equiv> io_chans (k_io k) c"

definition stream_start :: "vfs \<Rightarrow> stream_conf" where
  "stream_start v =
    \<lparr>k_io = \<lparr>io_vfs = v, io_files = Map.empty, io_next_fh = 1, io_chans = (\<lambda>_. new_channel None (snapshot_entry root_entry) 0),
       io_next_chan = 0, io_hooks = (\<lambda>_. None), io_next_hook = 0, io_pending = Map.empty, io_held = {}\<rparr>,
     k_lock = Map.empty, k_home = (\<lambda>_. 0), k_sent = (\<lambda>_. []), k_log = []\<rparr>"

text \<open>The section of \<open>open_streaming_write\<close> after the writer exists, up to its end.\<close>

definition open_section :: "nat option \<Rightarrow> inode_snapshot \<Rightarrow> nat option \<Rightarrow> nat \<Rightarrow> io_state \<Rightarrow> io_state" where
  "open_section pid sn active ino s =
    (let (fh, c, s1) = alloc_channel pid sn 0 s
     in insert_handle fh (Streaming ino c) (upd_io_table (bump_open_handles ino) (start_stream ino c (supersede ino active s1))))"

text \<open>The section of \<open>create\<close> that makes the handle; the inode is new, no lock is taken.\<close>

definition create_section :: "nat option \<Rightarrow> inode_snapshot \<Rightarrow> nat \<Rightarrow> nat \<Rightarrow> io_state \<Rightarrow> io_state" where
  "create_section pid sn gen ino s =
    (let (fh, c, s1) = alloc_channel pid sn gen s
     in insert_handle fh (Streaming ino c) (upd_io_table (bump_open_handles ino) s1))"

inductive stream_step ::
  "(bytes list \<Rightarrow> bytes \<Rightarrow> hub_error option) \<Rightarrow> (bytes list \<Rightarrow> hub_error + xet_info) \<Rightarrow> stream_conf \<Rightarrow> stream_conf \<Rightarrow> bool"
  for wr fin where
  c_write: "accepts_writes (chan k c) \<Longrightarrow> ch_open (chan k c) \<Longrightarrow> c < io_next_chan (k_io k) \<Longrightarrow>
    stream_step wr fin k ((run_io (send_data c d) k)\<lparr>k_sent := (k_sent k)(c := k_sent k c @ [d])\<rparr>)"
| c_account: "stream_step wr fin k (run_io (account_write c n) k)"
| c_worker: "c < io_next_chan (k_io k) \<Longrightarrow> stream_step wr fin k (run_io (upd_chan c (worker_step wr fin)) k)"
| c_exit: "stream_step wr fin k (run_io (upd_chan c worker_exit) k)"
| c_others: "stream_step wr fin k (run_io (upd_vfs f) k)"
| c_defer: "stream_step wr fin k (run_io (defer_commit i c) k)"
| c_remove: "stream_step wr fin k (run_io (\<lambda>s. snd (release_remove fh s)) k)"
| c_create:
    "stream_step wr fin k ((run_io (create_section pid sn gen i) k)\<lparr>k_home := (k_home k)(io_next_chan (k_io k) := i)\<rparr>)"
| c_open_lock: "k_lock k i = None \<Longrightarrow> stream_step wr fin k (hold i Opening k)"
| c_open_failed: "k_lock k i = Some Opening \<Longrightarrow> stream_step wr fin k (leave i k)"
| c_open: "k_lock k i = Some Opening \<Longrightarrow> active = streaming_channel_for order i (k_io k) \<Longrightarrow>
    stream_step wr fin k (leave i ((run_io (open_section pid sn active i) k)\<lparr>k_home := (k_home k)(io_next_chan (k_io k) := i)\<rparr>))"
| c_lock: "k_lock k i = None \<Longrightarrow> k_home k c = i \<Longrightarrow> c < io_next_chan (k_io k) \<Longrightarrow> \<not> channel_is_terminal (chan k c) \<Longrightarrow>
    stream_step wr fin k (hold i (Starting kind c False) (run_io (install_commit_hook i c) k))"
| c_skip: "k_lock k i = Some (Starting kind c b) \<Longrightarrow> commit_skip (k_io k) i c \<Longrightarrow>
    stream_step wr fin k (record_event (Skipped c) (hold i (Returned kind c b (Inr ())) k))"
| c_flip: "k_lock k i = Some (Starting kind c b) \<Longrightarrow> \<not> commit_skip (k_io k) i c \<Longrightarrow>
    stream_step wr fin k (hold i (Flipped kind c b) (run_io (commit_flip c) k))"
| c_pending: "k_lock k i = Some (Flipped kind c b) \<Longrightarrow> ch_pending_info (chan k c) = Some info \<Longrightarrow>
    stream_step wr fin k (hold i (Ready kind c b info) (run_io (\<lambda>s. snd (take_pending c s)) k))"
| c_finish: "k_lock k i = Some (Flipped kind c b) \<Longrightarrow> ch_pending_info (chan k c) = None \<Longrightarrow> ch_open (chan k c) \<Longrightarrow>
    stream_step wr fin k (hold i (Uploading kind c b) (run_io (send_finish c) k))"
| c_closed: "k_lock k i = Some (Flipped kind c b) \<Longrightarrow> ch_pending_info (chan k c) = None \<Longrightarrow> \<not> ch_open (chan k c) \<Longrightarrow>
    stream_step wr fin k (hold i (Returned kind c b (if ch_state (chan k c) = Committed then Inr () else Inl EIO)) k)"
| c_uploaded: "k_lock k i = Some (Uploading kind c b) \<Longrightarrow> ch_reply (chan k c) = Some (Inr info) \<Longrightarrow>
    stream_step wr fin k (hold i (Ready kind c b info) k)"
| c_upload_failed: "k_lock k i = Some (Uploading kind c b) \<Longrightarrow> ch_reply (chan k c) = Some (Inl e) \<Longrightarrow>
    stream_step wr fin k (hold i (Returned kind c b (Inl (to_errno e))) k)"
| c_dropped: "k_lock k i = Some (Uploading kind c b) \<Longrightarrow> ch_reply (chan k c) = None \<Longrightarrow> \<not> ch_open (chan k c) \<Longrightarrow>
    stream_step wr fin k (hold i (Returned kind c b (Inl EIO)) k)"
| c_gone: "k_lock k i = Some (Ready kind c b info) \<Longrightarrow> t_inodes (io_table (k_io k)) i = None \<Longrightarrow>
    stream_step wr fin k (hold i (Returned kind c b (Inl ENOENT)) k)"
| c_refused: "k_lock k i = Some (Ready kind c b info) \<Longrightarrow>
    stream_step wr fin k (hold i (Returned kind c b (Inl (to_errno e))) (run_io (commit_refused c info) k))"
| c_accepted: "k_lock k i = Some (Ready kind c b info) \<Longrightarrow>
    stream_step wr fin k (record_event (Added c info) (hold i (Accepted kind c b info) k))"
| c_apply: "k_lock k i = Some (Accepted kind c b info) \<Longrightarrow>
    stream_step wr fin k (hold i (Returned kind c b (Inr ())) (run_io (commit_apply i c info sz now) k))"
| c_flushed: "k_lock k i = Some (Returned ByFlush c b r) \<Longrightarrow>
    stream_step wr fin k (leave i (run_io (settle_flush i c r) k))"
| c_retry: "k_lock k i = Some (Returned ByRelease c False (Inl e)) \<Longrightarrow> ch_pending_info (chan k c) \<noteq> None \<Longrightarrow>
    stream_step wr fin k (hold i (Starting ByRelease c True) k)"
| c_released: "k_lock k i = Some (Returned ByRelease c b r) \<Longrightarrow> settle_release i c r (k_io k) = Some s' \<Longrightarrow>
    stream_step wr fin k (leave i (k\<lparr>k_io := s'\<rparr>))"

inductive stream_reach ::
  "(bytes list \<Rightarrow> bytes \<Rightarrow> hub_error option) \<Rightarrow> (bytes list \<Rightarrow> hub_error + xet_info) \<Rightarrow> stream_conf \<Rightarrow> bool"
  for wr fin where
  k_start: "stream_reach wr fin (stream_start v)"
| k_step: "stream_reach wr fin k \<Longrightarrow> stream_step wr fin k k' \<Longrightarrow> stream_reach wr fin k'"

section \<open>The invariant\<close>

text \<open>
  A channel against what was put into it: unless the worker failed, what it fed and what is queued are
  exactly that, in order; nothing is queued behind \<open>Finish\<close>; an upload result is that of all of it.
\<close>

definition chan_ok :: "(bytes list \<Rightarrow> hub_error + xet_info) \<Rightarrow> bytes list \<Rightarrow> streaming_channel \<Rightarrow> bool" where
  "chan_ok fin sent ch \<longleftrightarrow>
    (\<exists>ds n. ch_queue ch = map Data ds @ replicate n Finish \<and> (\<not> ch_done ch \<and> \<not> ch_failed ch \<longrightarrow> ch_fed ch @ ds = sent) \<and>
       (n > 0 \<longrightarrow> \<not> accepts_writes ch)) \<and>
    (ch_done ch \<longrightarrow> \<not> accepts_writes ch) \<and>
    (\<forall>info. ch_reply ch = Some (Inr info) \<or> ch_pending_info ch = Some info \<longrightarrow> fin sent = Inr info \<and> \<not> accepts_writes ch)"

text \<open>Where the holder of an inode's lock is, its channel is in the matching state.\<close>

definition stage_ok :: "(bytes list \<Rightarrow> hub_error + xet_info) \<Rightarrow> stream_conf \<Rightarrow> nat \<Rightarrow> driver \<Rightarrow> bool" where
  "stage_ok fin k i d =
    (case d of
      Opening \<Rightarrow> True
    | Starting kind c b \<Rightarrow> k_home k c = i \<and> c < io_next_chan (k_io k) \<and> \<not> channel_is_terminal (chan k c)
    | Flipped kind c b \<Rightarrow> k_home k c = i \<and> c < io_next_chan (k_io k) \<and> ch_state (chan k c) = Committing
    | Uploading kind c b \<Rightarrow> k_home k c = i \<and> c < io_next_chan (k_io k) \<and> ch_state (chan k c) = Committing
    | Ready kind c b info \<Rightarrow> k_home k c = i \<and> c < io_next_chan (k_io k) \<and> ch_state (chan k c) = Committing \<and>
        fin (k_sent k c) = Inr info
    | Accepted kind c b info \<Rightarrow> k_home k c = i \<and> c < io_next_chan (k_io k) \<and> ch_state (chan k c) = Committing \<and>
        fin (k_sent k c) = Inr info \<and> Added c info \<in> set (k_log k)
    | Returned kind c b r \<Rightarrow> k_home k c = i \<and> c < io_next_chan (k_io k) \<and>
        (ch_state (chan k c) = Committed \<and> r = Inr () \<or>
         \<not> channel_is_terminal (chan k c) \<and> (r = Inr () \<longrightarrow> Skipped c \<in> set (k_log k))))"

definition stream_inv :: "(bytes list \<Rightarrow> hub_error + xet_info) \<Rightarrow> stream_conf \<Rightarrow> bool" where
  "stream_inv fin k \<longleftrightarrow>
    (\<forall>c. chan_ok fin (k_sent k c) (chan k c)) \<and>
    (\<forall>c \<ge> io_next_chan (k_io k). k_sent k c = []) \<and>
    (\<forall>c info. Added c info \<in> set (k_log k) \<longrightarrow> c < io_next_chan (k_io k) \<and> fin (k_sent k c) = Inr info \<and> \<not> accepts_writes (chan k c)) \<and>
    (\<forall>c. ch_state (chan k c) = Committed \<longrightarrow> Skipped c \<in> set (k_log k) \<or> (\<exists>info. Added c info \<in> set (k_log k))) \<and>
    (\<forall>fh i c. io_files (k_io k) fh = Some (Streaming i c) \<longrightarrow> k_home k c = i \<and> c < io_next_chan (k_io k)) \<and>
    (\<forall>i d. k_lock k i = Some d \<longrightarrow> stage_ok fin k i d)"

lemmas conf_defs = run_io_def hold_def leave_def record_event_def

text \<open>What the operations do to the channels, besides their hooks.\<close>

definition chan_core :: "streaming_channel \<Rightarrow> streaming_channel" where
  "chan_core ch = ch\<lparr>ch_hook := None, ch_bytes_written := 0, ch_gen := 0\<rparr>"

definition same_chan :: "streaming_channel \<Rightarrow> streaming_channel \<Rightarrow> bool" where
  "same_chan ch ch' \<longleftrightarrow> chan_core ch' = chan_core ch"

lemma same_chan_refl [simp]: "same_chan ch ch"
  by (simp add: same_chan_def)

lemma same_chan_trans: "same_chan a b \<Longrightarrow> same_chan b c \<Longrightarrow> same_chan a c"
  by (simp add: same_chan_def)

lemma core_fields:
  "ch_state (chan_core ch) = ch_state ch" "accepts_writes (chan_core ch) = accepts_writes ch"
  "terminal_result (chan_core ch) = terminal_result ch" "channel_is_terminal (chan_core ch) = channel_is_terminal ch"
  "chan_ok fin sent (chan_core ch) = chan_ok fin sent ch" "ch_pending_info (chan_core ch) = ch_pending_info ch"
  "ch_reply (chan_core ch) = ch_reply ch" "ch_open (chan_core ch) = ch_open ch"
  by (simp_all add: chan_core_def accepts_writes_def terminal_result_def channel_is_terminal_def chan_ok_def)

lemma same_chanD:
  assumes "same_chan ch ch'"
  shows "ch_state ch' = ch_state ch" "accepts_writes ch' = accepts_writes ch" "terminal_result ch' = terminal_result ch"
    "channel_is_terminal ch' = channel_is_terminal ch" "chan_ok fin sent ch' = chan_ok fin sent ch"
    "ch_pending_info ch' = ch_pending_info ch" "ch_reply ch' = ch_reply ch" "ch_open ch' = ch_open ch"
  using assms core_fields [where ch = ch] core_fields [where ch = ch'] by (simp_all add: same_chan_def)

definition same_chans :: "io_state \<Rightarrow> io_state \<Rightarrow> bool" where
  "same_chans s s' \<longleftrightarrow> (\<forall>c. same_chan (io_chans s c) (io_chans s' c)) \<and> io_next_chan s' = io_next_chan s \<and>
    (\<forall>fh f. io_files s' fh = Some f \<longrightarrow> io_files s fh = Some f)"

lemma same_chans_trans: "same_chans a b \<Longrightarrow> same_chans b c \<Longrightarrow> same_chans a c"
  by (auto simp: same_chans_def intro: same_chan_trans)

lemma same_chans_refl [simp]: "same_chans s s"
  by (simp add: same_chans_def)

lemma same_chans_upd: "(\<And>ch. same_chan ch (f ch)) \<Longrightarrow> same_chans s (upd_chan c f s)"
  by (simp add: same_chans_def upd_chan_def)

lemma same_chans_vfs: "same_chans s (upd_vfs f s)" "same_chans s (upd_io_table g s)"
  by (simp_all add: same_chans_def upd_vfs_def upd_io_table_def)

lemma same_chans_fulfill: "same_chans s (fulfill_commit_hook ino c r s)"
  by (simp add: same_chans_def same_chan_def chan_core_def fulfill_commit_hook_def upd_chan_def Let_def split: option.split)

lemma same_chans_install: "same_chans s (install_commit_hook ino c s)"
proof -
  have p: "same_chans s (put_hook ino c s)"
    by (simp add: same_chans_def put_hook_def upd_chan_def Let_def same_chan_def chan_core_def)
  then show ?thesis
    by (auto simp: install_commit_hook_def intro: same_chans_trans [OF p same_chans_fulfill] split: option.split)
qed

lemma same_chansD:
  assumes "same_chans s s'"
  shows "ch_state (io_chans s' c) = ch_state (io_chans s c)" "accepts_writes (io_chans s' c) = accepts_writes (io_chans s c)"
    "terminal_result (io_chans s' c) = terminal_result (io_chans s c)"
    "channel_is_terminal (io_chans s' c) = channel_is_terminal (io_chans s c)"
    "chan_ok fin sent (io_chans s' c) = chan_ok fin sent (io_chans s c)"
    "io_next_chan s' = io_next_chan s" "io_files s' fh = Some f \<Longrightarrow> io_files s fh = Some f"
  using assms by (auto simp: same_chans_def dest: same_chanD)

text \<open>
  A step that does not hold the lock of \<open>j\<close> moves the channels of \<open>j\<close> at most from writing to
  deferred, so what the holder of that lock relies on stays true.
\<close>

definition drift :: "commit_state \<Rightarrow> commit_state \<Rightarrow> bool" where
  "drift st st' \<longleftrightarrow> st' = st \<or> st = Writing \<and> st' = Deferred"

lemma terminal_by_state: "channel_is_terminal ch \<longleftrightarrow> ch_state ch = Committed \<or> (\<exists>m. ch_state ch = Failed m)"
  by (simp add: channel_is_terminal_def terminal_result_def split: commit_state.split)

lemma driftD:
  assumes "drift (ch_state ch) (ch_state ch')"
  shows "channel_is_terminal ch' = channel_is_terminal ch" "accepts_writes ch' = accepts_writes ch"
    "ch_state ch = Committing \<Longrightarrow> ch_state ch' = Committing" "ch_state ch = Committed \<Longrightarrow> ch_state ch' = Committed"
  using assms unfolding drift_def by (elim disjE; simp add: terminal_by_state accepts_writes_def)+

lemma stage_ok_mono:
  assumes ok: "stage_ok fin k j d"
    and ch: "\<And>c. k_home k c = j \<Longrightarrow> c < io_next_chan (k_io k) \<Longrightarrow>
      k_home k' c = j \<and> drift (ch_state (chan k c)) (ch_state (chan k' c)) \<and> (accepts_writes (chan k c) \<or> k_sent k' c = k_sent k c)"
    and "io_next_chan (k_io k) \<le> io_next_chan (k_io k')" and "set (k_log k) \<subseteq> set (k_log k')"
  shows "stage_ok fin k' j d"
proof (cases "d = Opening")
  case False
  then obtain c where c: "k_home k c = j" "c < io_next_chan (k_io k)"
    and d: "(\<exists>kd b. d = Starting kd c b) \<or> (\<exists>kd b. d = Flipped kd c b) \<or> (\<exists>kd b. d = Uploading kd c b) \<or>
      (\<exists>kd b i. d = Ready kd c b i) \<or> (\<exists>kd b i. d = Accepted kd c b i) \<or> (\<exists>kd b r. d = Returned kd c b r)"
    using ok by (cases d) (auto simp: stage_ok_def)
  note h = ch [OF c]
  then have dr: "drift (ch_state (chan k c)) (ch_state (chan k' c))" by blast
  have "ch_state (chan k c) = Committing \<Longrightarrow> k_sent k' c = k_sent k c" using h by (auto simp: accepts_writes_def)
  then show ?thesis using ok d c h assms(3,4) driftD [OF dr] unfolding stage_ok_def by (elim disjE exE) auto
qed (simp add: stage_ok_def)

lemma stream_inv_step:
  assumes inv: "stream_inv fin k"
    and "\<And>c. chan_ok fin (k_sent k' c) (chan k' c)"
    and "\<And>c. io_next_chan (k_io k') \<le> c \<Longrightarrow> k_sent k' c = []"
    and nx: "io_next_chan (k_io k) \<le> io_next_chan (k_io k')"
    and lg: "set (k_log k) \<subseteq> set (k_log k')"
    and new: "\<And>c info. Added c info \<in> set (k_log k') \<Longrightarrow> Added c info \<in> set (k_log k) \<or>
      c < io_next_chan (k_io k) \<and> fin (k_sent k c) = Inr info \<and> \<not> accepts_writes (chan k c)"
    and fr: "\<And>c. c < io_next_chan (k_io k) \<Longrightarrow> \<not> accepts_writes (chan k c) \<Longrightarrow> \<not> accepts_writes (chan k' c) \<and> k_sent k' c = k_sent k c"
    and cm: "\<And>c. ch_state (chan k' c) = Committed \<Longrightarrow> ch_state (chan k c) = Committed \<or> Skipped c \<in> set (k_log k') \<or>
      (\<exists>info. Added c info \<in> set (k_log k'))"
    and fl: "\<And>fh i c. io_files (k_io k') fh = Some (Streaming i c) \<Longrightarrow> k_home k' c = i \<and> c < io_next_chan (k_io k')"
    and lk: "\<And>i d. k_lock k' i = Some d \<Longrightarrow> stage_ok fin k' i d"
  shows "stream_inv fin k'"
proof -
  have "c < io_next_chan (k_io k') \<and> fin (k_sent k' c) = Inr info \<and> \<not> accepts_writes (chan k' c)"
    if "Added c info \<in> set (k_log k')" for c info
  proof -
    have "c < io_next_chan (k_io k) \<and> fin (k_sent k c) = Inr info \<and> \<not> accepts_writes (chan k c)"
      using new [OF that] inv unfolding stream_inv_def by blast
    then show ?thesis using fr nx by auto
  qed
  moreover have "Skipped c \<in> set (k_log k') \<or> (\<exists>info. Added c info \<in> set (k_log k'))" if "ch_state (chan k' c) = Committed" for c
    using cm [OF that] inv lg unfolding stream_inv_def by blast
  ultimately show ?thesis using assms(2,3) fl lk unfolding stream_inv_def by blast
qed

text \<open>Most steps touch no state, or only the bookkeeping of one channel.\<close>

lemma stream_inv_quiet:
  assumes inv: "stream_inv fin k"
    and ok: "\<And>c. chan_ok fin (k_sent k' c) (chan k' c)"
    and st: "\<And>c. drift (ch_state (chan k c)) (ch_state (chan k' c))"
    and se: "\<And>c. k_sent k' c = k_sent k c \<or> accepts_writes (chan k c) \<and> c < io_next_chan (k_io k)"
    and e: "io_next_chan (k_io k') = io_next_chan (k_io k)" "k_home k' = k_home k" "k_log k' = k_log k"
    and fl: "\<And>fh f. io_files (k_io k') fh = Some f \<Longrightarrow> io_files (k_io k) fh = Some f"
    and lk: "\<And>i d. k_lock k' i = Some d \<Longrightarrow> stage_ok fin k i d"
  shows "stream_inv fin k'"
proof (rule stream_inv_step [OF inv ok])
  show "stage_ok fin k' i d" if "k_lock k' i = Some d" for i d
    by (rule stage_ok_mono [OF lk [OF that]]) (use st se e in auto)
  show "\<not> accepts_writes (chan k' c) \<and> k_sent k' c = k_sent k c" if "\<not> accepts_writes (chan k c)" for c
    using that driftD(2) [OF st] se by blast
  show "ch_state (chan k c) = Committed \<or> Skipped c \<in> set (k_log k') \<or> (\<exists>info. Added c info \<in> set (k_log k'))"
    if "ch_state (chan k' c) = Committed" for c
    using that st [of c] by (simp add: drift_def)
  show "k_sent k' c = []" if "io_next_chan (k_io k') \<le> c" for c
  proof -
    have "\<not> c < io_next_chan (k_io k)" using that e(1) by simp
    then show ?thesis using se [of c] inv unfolding stream_inv_def by auto
  qed
  show "k_home k' c = i \<and> c < io_next_chan (k_io k')" if "io_files (k_io k') fh = Some (Streaming i c)" for fh i c
    using fl [OF that] inv e unfolding stream_inv_def by simp
qed (use e in auto)

lemma stream_inv_same:
  assumes inv: "stream_inv fin k" and s: "same_chans (k_io k) (k_io k')"
    and e: "k_home k' = k_home k" "k_sent k' = k_sent k" "k_log k' = k_log k"
    and lk: "\<And>i d. k_lock k' i = Some d \<Longrightarrow> stage_ok fin k i d"
  shows "stream_inv fin k'"
  by (rule stream_inv_quiet [OF inv])
    (use inv e lk same_chansD [OF s] in \<open>auto simp: drift_def stream_inv_def\<close>)

text \<open>The holder of an inode's lock moves one channel of that inode.\<close>

lemma stream_inv_driver:
  assumes inv: "stream_inv fin k" and c: "k_home k c = i" "c < io_next_chan (k_io k)"
    and ok: "\<And>c. chan_ok fin (k_sent k' c) (chan k' c)"
    and st: "\<And>c'. c' \<noteq> c \<Longrightarrow> ch_state (chan k' c') = ch_state (chan k c')"
    and fr: "accepts_writes (chan k' c) \<Longrightarrow> accepts_writes (chan k c)"
    and cm: "ch_state (chan k' c) = Committed \<Longrightarrow> ch_state (chan k c) = Committed \<or> Skipped c \<in> set (k_log k') \<or> (\<exists>info. Added c info \<in> set (k_log k'))"
    and e: "io_next_chan (k_io k') = io_next_chan (k_io k)" "k_home k' = k_home k" "k_sent k' = k_sent k" "set (k_log k) \<subseteq> set (k_log k')"
    and new: "\<And>c' info. Added c' info \<in> set (k_log k') \<Longrightarrow> Added c' info \<in> set (k_log k) \<or>
      c' = c \<and> fin (k_sent k c) = Inr info \<and> \<not> accepts_writes (chan k c)"
    and fl: "\<And>fh f. io_files (k_io k') fh = Some f \<Longrightarrow> io_files (k_io k) fh = Some f"
    and lk: "\<And>j. j \<noteq> i \<Longrightarrow> k_lock k' j = k_lock k j"
    and lki: "\<And>d. k_lock k' i = Some d \<Longrightarrow> stage_ok fin k' i d"
  shows "stream_inv fin k'"
proof (rule stream_inv_step [OF inv ok])
  show "stage_ok fin k' j d" if d: "k_lock k' j = Some d" for j d
  proof (cases "j = i")
    case False
    then have "stage_ok fin k j d" using lk d inv unfolding stream_inv_def by simp
    moreover have "ch_state (chan k' x) = ch_state (chan k x)" if "k_home k x = j" for x
      by (rule st) (use that False c(1) in auto)
    ultimately show ?thesis by (elim stage_ok_mono) (use e in \<open>auto simp: drift_def\<close>)
  qed (use lki d in blast)
  show "\<not> accepts_writes (chan k' x) \<and> k_sent k' x = k_sent k x" if "\<not> accepts_writes (chan k x)" for x
    using that st [of x] fr e(3) by (cases "x = c") (auto simp: accepts_writes_def)
  show "ch_state (chan k x) = Committed \<or> Skipped x \<in> set (k_log k') \<or> (\<exists>info. Added x info \<in> set (k_log k'))"
    if "ch_state (chan k' x) = Committed" for x
    using that cm st [of x] by (cases "x = c") auto
  show "k_sent k' x = []" if "io_next_chan (k_io k') \<le> x" for x
    using that inv e unfolding stream_inv_def by simp
  show "k_home k' x = j \<and> x < io_next_chan (k_io k')" if "io_files (k_io k') fh = Some (Streaming j x)" for fh j x
    using fl [OF that] inv e unfolding stream_inv_def by simp
  show "Added x info \<in> set (k_log k) \<or> x < io_next_chan (k_io k) \<and> fin (k_sent k x) = Inr info \<and> \<not> accepts_writes (chan k x)"
    if "Added x info \<in> set (k_log k')" for x info
    using new [OF that] c(2) by blast
qed (use e in auto)

subsection \<open>One channel\<close>

lemma chan_ok_state:
  "chan_ok fin sent ch \<Longrightarrow> (accepts_writes (ch\<lparr>ch_state := st\<rparr>) \<Longrightarrow> accepts_writes ch) \<Longrightarrow> chan_ok fin sent (ch\<lparr>ch_state := st\<rparr>)"
  unfolding chan_ok_def by (elim conjE exE) (auto simp: accepts_writes_def)

lemma chan_ok_new: "chan_ok fin [] (new_channel pid sn g)"
  by (auto simp: chan_ok_def new_channel_def intro: exI [of _ 0])

lemma chan_ok_send:
  assumes "chan_ok fin sent ch" and "accepts_writes ch"
  shows "chan_ok fin (sent @ [d]) (ch\<lparr>ch_queue := ch_queue ch @ [Data d]\<rparr>)"
proof -
  have a: "accepts_writes (ch\<lparr>ch_queue := q\<rparr>) = accepts_writes ch" for q by (simp add: accepts_writes_def)
  obtain ds n where "ch_queue ch = map Data ds @ replicate n Finish" "\<not> ch_done ch \<and> \<not> ch_failed ch \<longrightarrow> ch_fed ch @ ds = sent" "n = 0"
    using assms unfolding chan_ok_def by blast
  then have "ch_queue ch @ [Data d] = map Data (ds @ [d]) @ replicate 0 Finish \<and>
    (\<not> ch_done ch \<and> \<not> ch_failed ch \<longrightarrow> ch_fed ch @ ds @ [d] = sent @ [d])" by auto
  then show ?thesis using assms unfolding chan_ok_def by (auto simp: a intro!: exI [of _ "ds @ [d]"])
qed

lemma chan_ok_finish:
  assumes "chan_ok fin sent ch" and "\<not> accepts_writes ch"
  shows "chan_ok fin sent (ch\<lparr>ch_queue := ch_queue ch @ [Finish], ch_reply := None\<rparr>)"
proof -
  obtain ds n where q: "ch_queue ch = map Data ds @ replicate n Finish" "\<not> ch_done ch \<and> \<not> ch_failed ch \<longrightarrow> ch_fed ch @ ds = sent"
    using assms unfolding chan_ok_def by blast
  have "ch_queue ch @ [Finish] = map Data ds @ replicate (Suc n) Finish"
    by (simp add: q(1) replicate_append_same)
  then show ?thesis using assms q(2) unfolding chan_ok_def
    by (auto simp: accepts_writes_def intro!: exI [of _ ds] exI [of _ "Suc n"])
qed

lemma chan_ok_exit: "chan_ok fin sent ch \<Longrightarrow> chan_ok fin sent (worker_exit ch)"
  unfolding chan_ok_def worker_exit_def by (auto simp: accepts_writes_def intro: exI [of _ "[]"] exI [of _ 0])

lemma worker_state: "ch_state (worker_step wr fin ch) = ch_state ch" "ch_pending_info (worker_step wr fin ch) = ch_pending_info ch"
  by (auto simp: worker_step_def split: list.split write_msg.split option.split)

lemma chan_ok_worker:
  assumes ok: "chan_ok fin sent ch"
  shows "chan_ok fin sent (worker_step wr fin ch)"
proof (cases "ch_done ch \<or> ch_queue ch = []")
  case True
  then show ?thesis using ok by (auto simp: worker_step_def)
next
  case False
  obtain ds n where q: "ch_queue ch = map Data ds @ replicate n Finish" "\<not> ch_failed ch \<longrightarrow> ch_fed ch @ ds = sent"
    "n > 0 \<longrightarrow> \<not> accepts_writes ch"
    using ok False unfolding chan_ok_def by blast
  show ?thesis
  proof (cases ds)
    case Nil
    then obtain m where m: "n = Suc m" using q(1) False by (cases n) auto
    then show ?thesis using ok q Nil False unfolding chan_ok_def worker_step_def
      by (auto simp: accepts_writes_def finish_result_def split: if_splits intro!: exI [of _ "[]"] exI [of _ m])
  next
    case (Cons d es)
    then show ?thesis using ok q False unfolding chan_ok_def worker_step_def
      by (auto simp: accepts_writes_def split: option.splits intro!: exI [of _ es] exI [of _ n])
  qed
qed

subsection \<open>Every step\<close>

lemma inv_chan: "stream_inv fin k \<Longrightarrow> chan_ok fin (k_sent k c) (chan k c)"
  by (simp add: stream_inv_def)

lemma inv_stage: "stream_inv fin k \<Longrightarrow> k_lock k i = Some d \<Longrightarrow> stage_ok fin k i d"
  by (simp add: stream_inv_def)

text \<open>A step that changes one channel without its state.\<close>

lemma stream_inv_upd:
  assumes inv: "stream_inv fin k" and ok: "chan_ok fin (k_sent k c) (f (chan k c))" and st: "ch_state (f (chan k c)) = ch_state (chan k c)"
    and lk: "\<And>i d. k_lock k' i = Some d \<Longrightarrow> stage_ok fin k i d"
    and k': "k_io k' = upd_chan c f (k_io k)" "k_home k' = k_home k" "k_sent k' = k_sent k" "k_log k' = k_log k"
  shows "stream_inv fin k'"
  by (rule stream_inv_quiet [OF inv])
    (use ok st lk k' inv_chan [OF inv] in \<open>auto simp: upd_chan_def drift_def\<close>)

lemma inv_write:
  assumes inv: "stream_inv fin k" and c: "accepts_writes (chan k c)" "c < io_next_chan (k_io k)"
  shows "stream_inv fin ((run_io (send_data c d) k)\<lparr>k_sent := (k_sent k)(c := k_sent k c @ [d])\<rparr>)"
  by (rule stream_inv_quiet [OF inv])
    (use c inv_chan [OF inv] inv_stage [OF inv] chan_ok_send [OF inv_chan [OF inv] c(1)] in
      \<open>auto simp: conf_defs send_data_def upd_chan_def drift_def\<close>)

lemma inv_defer:
  assumes inv: "stream_inv fin k"
  shows "stream_inv fin (run_io (defer_commit i c) k)"
proof -
  let ?k1 = "run_io (install_commit_hook i c) k"
  have i1: "stream_inv fin ?k1"
    by (rule stream_inv_same [OF inv]) (use inv_stage [OF inv] same_chans_install in \<open>auto simp: conf_defs\<close>)
  have d: "defer_commit i c s = upd_chan c (\<lambda>ch. if ch_state ch = Writing then ch\<lparr>ch_state := Deferred\<rparr> else ch) (install_commit_hook i c s)" for s
    by (simp add: defer_commit_def)
  show ?thesis
    by (rule stream_inv_quiet [OF i1])
      (use inv_chan [OF i1] inv_stage [OF i1] in
        \<open>auto simp: conf_defs d upd_chan_def drift_def accepts_writes_def intro!: chan_ok_state\<close>)
qed

lemma inv_remove:
  assumes inv: "stream_inv fin k"
  shows "stream_inv fin (run_io (\<lambda>s. snd (release_remove fh s)) k)"
proof (rule stream_inv_same [OF inv])
  let ?s = "(k_io k)\<lparr>io_files := (io_files (k_io k))(fh := None)\<rparr>"
  have "same_chans (k_io k) ?s" by (simp add: same_chans_def)
  then have "same_chans (k_io k) (snd (release_remove fh (k_io k)))"
    by (auto simp: release_remove_def Let_def intro: same_chans_trans [OF _ same_chans_install] split: option.split open_file.split)
  then show "same_chans (k_io k) (k_io (run_io (\<lambda>s. snd (release_remove fh s)) k))" by (simp add: conf_defs)
qed (use inv_stage [OF inv] in \<open>auto simp: conf_defs\<close>)

text \<open>A new channel, of an inode whose lock is free or held by its opener.\<close>

lemma inv_alloc:
  assumes inv: "stream_inv fin k" and a: "alloc_channel pid sn g (k_io k) = (fh, c, s1)"
  shows "stream_inv fin (k\<lparr>k_io := s1, k_home := (k_home k)(c := i)\<rparr>)" and "c = io_next_chan (k_io k)" "io_next_chan s1 = Suc c"
proof -
  have s1: "s1 = (k_io k)\<lparr>io_chans := (io_chans (k_io k))(c := new_channel pid sn g), io_next_chan := c + 1,
    io_next_fh := wrap64 (io_next_fh (k_io k) + 1)\<rparr>" and c: "c = io_next_chan (k_io k)"
    using a by (auto simp: alloc_channel_def Let_def alloc_file_handle_def)
  have sent: "k_sent k c = []" using inv by (simp add: c stream_inv_def)
  show "c = io_next_chan (k_io k)" "io_next_chan s1 = Suc c" using c s1 by simp_all
  show "stream_inv fin (k\<lparr>k_io := s1, k_home := (k_home k)(c := i)\<rparr>)" (is "stream_inv fin ?k")
  proof (rule stream_inv_step [OF inv])
    show "chan_ok fin (k_sent ?k x) (chan ?k x)" for x
      using inv_chan [OF inv] by (simp add: s1 sent chan_ok_new)
    show "stage_ok fin ?k j d" if "k_lock ?k j = Some d" for j d
      using that by (intro stage_ok_mono [OF inv_stage [OF inv]]) (auto simp: s1 c drift_def)
    show "k_home ?k x = j \<and> x < io_next_chan (k_io ?k)" if "io_files (k_io ?k) h = Some (Streaming j x)" for h j x
    proof -
      have "k_home k x = j \<and> x < io_next_chan (k_io k)" using that inv s1 unfolding stream_inv_def by simp
      then show ?thesis by (auto simp: s1 c)
    qed
    show "ch_state (chan k x) = Committed \<or> Skipped x \<in> set (k_log ?k) \<or> (\<exists>info. Added x info \<in> set (k_log ?k))"
      if "ch_state (chan ?k x) = Committed" for x
      using that by (auto simp: s1 new_channel_def split: if_splits)
    show "k_sent ?k x = []" if "io_next_chan (k_io ?k) \<le> x" for x
      using that inv by (simp add: s1 c stream_inv_def)
  qed (auto simp: s1 c)
qed

lemma inv_insert_handle:
  assumes inv: "stream_inv fin k" and c: "k_home k c = i" "c < io_next_chan (k_io k)"
  shows "stream_inv fin (run_io (\<lambda>s. insert_handle fh (Streaming i c) (upd_io_table g s)) k)" (is "stream_inv fin ?k")
proof (rule stream_inv_step [OF inv])
  have io: "io_chans (k_io ?k) = io_chans (k_io k)" "io_next_chan (k_io ?k) = io_next_chan (k_io k)"
    "io_files (k_io ?k) = (io_files (k_io k))(fh \<mapsto> Streaming i c)"
    and e: "k_home ?k = k_home k" "k_sent ?k = k_sent k" "k_log ?k = k_log k" "k_lock ?k = k_lock k"
    by (simp_all add: conf_defs insert_handle_def upd_io_table_def upd_vfs_def)
  show "stage_ok fin ?k j d" if "k_lock ?k j = Some d" for j d
    using that by (intro stage_ok_mono [OF inv_stage [OF inv]]) (auto simp: io e drift_def)
  show "k_home ?k x = j \<and> x < io_next_chan (k_io ?k)" if "io_files (k_io ?k) h = Some (Streaming j x)" for h j x
    using that c inv unfolding io e stream_inv_def by (auto split: if_splits)
  show "k_sent ?k x = []" if "io_next_chan (k_io ?k) \<le> x" for x
    using that inv by (simp add: io e stream_inv_def)
qed (simp_all add: conf_defs insert_handle_def upd_io_table_def upd_vfs_def inv_chan [OF inv])

lemma inv_supersede:
  assumes inv: "stream_inv fin k" and l: "k_lock k i = Some Opening" and a: "active = None \<or> (\<exists>old. active = Some old \<and> k_home k old = i \<and> old < io_next_chan (k_io k))"
  shows "stream_inv fin (run_io (supersede i active) k)"
proof (cases active)
  case None
  then show ?thesis using inv by (simp add: supersede_def run_io_def)
next
  case (Some old)
  let ?f = "set_commit_state old (Failed ''superseded by O_TRUNC reopen'')"
  have o: "k_home k old = i" "old < io_next_chan (k_io k)" using a Some by auto
  have "stream_inv fin (run_io ?f k)" (is "stream_inv fin ?k")
  proof (rule stream_inv_driver [OF inv o])
    show "chan_ok fin (k_sent ?k x) (chan ?k x)" for x
      using inv_chan [OF inv, of x] by (auto simp: conf_defs set_commit_state_def upd_chan_def accepts_writes_def intro: chan_ok_state)
  qed (use l in \<open>auto simp: conf_defs set_commit_state_def upd_chan_def accepts_writes_def stage_ok_def\<close>)
  then show ?thesis
    by (rule stream_inv_same) (use Some inv_stage [OF \<open>stream_inv fin ?k\<close>] in \<open>auto simp: supersede_def conf_defs same_chans_fulfill\<close>)
qed

lemma inv_start_stream:
  assumes inv: "stream_inv fin k"
  shows "stream_inv fin (run_io (start_stream i c) k)"
proof (rule stream_inv_same [OF inv])
  show "same_chans (k_io k) (k_io (run_io (start_stream i c) k))"
    by (auto simp: start_stream_def run_io_def same_chan_def chan_core_def intro!: same_chans_trans [OF same_chans_vfs(2) same_chans_upd] split: option.split)
qed (use inv_stage [OF inv] in \<open>auto simp: conf_defs\<close>)

lemma find_SomeD: "find P xs = Some x \<Longrightarrow> x \<in> set xs \<and> P x"
  by (auto simp: find_Some_iff)

lemma streaming_channel_for_Some:
  assumes "streaming_channel_for order i s = Some c"
  shows "\<not> channel_is_terminal (io_chans s c) \<and> (\<exists>fh. io_files s fh = Some (Streaming i c))"
proof -
  obtain z g where z: "find (\<lambda>f. case f of Streaming j x \<Rightarrow> j = i \<and> owns_generation (io_chans s x) g \<and> \<not> channel_is_terminal (io_chans s x)
      | _ \<Rightarrow> False) (List.map_filter (io_files s) order) = Some z" "c = of_channel z"
    using assms by (auto simp: streaming_channel_for_def split: option.splits)
  then have "z \<in> set (List.map_filter (io_files s) order)" "z = Streaming i c" "\<not> channel_is_terminal (io_chans s c)"
    using find_SomeD [OF z(1)] by (auto split: open_file.splits)
  then show ?thesis by (auto simp: List.map_filter_def)
qed

lemma active_home:
  assumes inv: "stream_inv fin k" and "streaming_channel_for order i (k_io k) = Some c"
  shows "k_home k c = i" "c < io_next_chan (k_io k)"
  using streaming_channel_for_Some [OF assms(2)] inv unfolding stream_inv_def by blast+

lemma inv_open:
  assumes inv: "stream_inv fin k" and l: "k_lock k i = Some Opening" and a: "active = streaming_channel_for order i (k_io k)"
  shows "stream_inv fin (leave i ((run_io (open_section pid sn active i) k)\<lparr>k_home := (k_home k)(io_next_chan (k_io k) := i)\<rparr>))"
proof -
  obtain fh c s1 where al: "alloc_channel pid sn 0 (k_io k) = (fh, c, s1)" by (metis prod_cases3)
  let ?k1 = "k\<lparr>k_io := s1, k_home := (k_home k)(c := i)\<rparr>"
  note n = inv_alloc(2,3) [OF inv al]
  have k1: "stream_inv fin ?k1" by (rule inv_alloc(1) [OF inv al])
  have "active = None \<or> (\<exists>old. active = Some old \<and> k_home ?k1 old = i \<and> old < io_next_chan (k_io ?k1))"
    using active_home [OF inv] n by (cases active) (fastforce simp: a)+
  then have "stream_inv fin (run_io (supersede i active) ?k1)" (is "stream_inv fin ?k2") using l by (intro inv_supersede [OF k1]) simp
  then have k3: "stream_inv fin (run_io (start_stream i c) ?k2)" (is "stream_inv fin ?k3") by (rule inv_start_stream)
  have "io_next_chan (supersede i active s1) = io_next_chan s1"
    by (auto simp: supersede_def set_commit_state_def upd_chan_def same_chansD(6) [OF same_chans_fulfill] split: option.split)
  moreover have "io_next_chan (start_stream i c s) = io_next_chan s" for s
    by (auto simp: start_stream_def upd_chan_def upd_io_table_def upd_vfs_def split: option.split)
  ultimately have "c < io_next_chan (k_io ?k3)" "k_home ?k3 c = i" using n(2) by (simp_all add: conf_defs)
  then have k4: "stream_inv fin (run_io (\<lambda>s. insert_handle fh (Streaming i c) (upd_io_table (bump_open_handles i) s)) ?k3)" (is "stream_inv fin ?k4")
    by (intro inv_insert_handle [OF k3])
  have "leave i ((run_io (open_section pid sn active i) k)\<lparr>k_home := (k_home k)(io_next_chan (k_io k) := i)\<rparr>) = leave i ?k4"
    using al n(1) by (simp add: conf_defs open_section_def)
  then show ?thesis
    by (simp only:) (rule stream_inv_same [OF k4], use inv_stage [OF k4] in \<open>auto simp: leave_def split: if_splits\<close>)
qed

lemma inv_create:
  assumes inv: "stream_inv fin k"
  shows "stream_inv fin ((run_io (create_section pid sn gen i) k)\<lparr>k_home := (k_home k)(io_next_chan (k_io k) := i)\<rparr>)"
proof -
  obtain fh c s1 where al: "alloc_channel pid sn gen (k_io k) = (fh, c, s1)" by (metis prod_cases3)
  let ?k1 = "k\<lparr>k_io := s1, k_home := (k_home k)(c := i)\<rparr>"
  note n = inv_alloc(2,3) [OF inv al]
  have k2: "stream_inv fin (run_io (\<lambda>s. insert_handle fh (Streaming i c) (upd_io_table (bump_open_handles i) s)) ?k1)" (is "stream_inv fin ?k2")
    by (rule inv_insert_handle [OF inv_alloc(1) [OF inv al]]) (simp_all add: n)
  have "(run_io (create_section pid sn gen i) k)\<lparr>k_home := (k_home k)(io_next_chan (k_io k) := i)\<rparr> = ?k2"
    using al n(1) by (simp add: conf_defs create_section_def)
  then show ?thesis using k2 by simp
qed

text \<open>The steps of a commit.\<close>

lemma inv_hold:
  assumes inv: "stream_inv fin k" and "stage_ok fin k i d"
  shows "stream_inv fin (hold i d k)"
  using assms by (intro stream_inv_same [OF inv]) (auto simp: hold_def stream_inv_def split: if_splits)

lemma inv_leave:
  assumes inv: "stream_inv fin k"
  shows "stream_inv fin (leave i k)"
  by (rule stream_inv_same [OF inv]) (use inv_stage [OF inv] in \<open>auto simp: leave_def split: if_splits\<close>)

lemma inv_lock:
  assumes inv: "stream_inv fin k" and c: "k_home k c = i" "c < io_next_chan (k_io k)" "\<not> channel_is_terminal (chan k c)"
  shows "stream_inv fin (hold i (Starting kind c False) (run_io (install_commit_hook i c) k))"
proof (rule inv_hold)
  show "stream_inv fin (run_io (install_commit_hook i c) k)"
    by (rule stream_inv_same [OF inv]) (use inv_stage [OF inv] same_chans_install in \<open>auto simp: conf_defs\<close>)
qed (use c in \<open>simp add: stage_ok_def conf_defs same_chansD [OF same_chans_install]\<close>)

lemma inv_flip:
  assumes inv: "stream_inv fin k" and l: "k_lock k i = Some (Starting kind c b)"
  shows "stream_inv fin (hold i (Flipped kind c b) (run_io (commit_flip c) k))" (is "stream_inv fin ?k")
proof -
  have c: "k_home k c = i" "c < io_next_chan (k_io k)" "\<not> channel_is_terminal (chan k c)"
    using inv_stage [OF inv l] by (auto simp: stage_ok_def)
  then have cs: "ch_state (chan ?k c) = Committing"
    by (cases "ch_state (chan k c)") (auto simp: conf_defs commit_flip_def upd_chan_def accepts_writes_def terminal_by_state)
  show ?thesis
  proof (rule stream_inv_driver [OF inv c(1,2)])
    show "chan_ok fin (k_sent ?k x) (chan ?k x)" for x
      using inv_chan [OF inv, of x] by (auto simp: conf_defs commit_flip_def upd_chan_def intro: chan_ok_state)
    show "stage_ok fin ?k i d" if "k_lock ?k i = Some d" for d
      using that cs c by (auto simp: stage_ok_def conf_defs commit_flip_def upd_chan_def)
    show "\<And>x. x \<noteq> c \<Longrightarrow> ch_state (chan ?k x) = ch_state (chan k x)"
      by (simp add: conf_defs commit_flip_def upd_chan_def)
  qed (use cs in \<open>auto simp: conf_defs commit_flip_def upd_chan_def accepts_writes_def\<close>)
qed

lemma inv_skip:
  assumes inv: "stream_inv fin k" and l: "k_lock k i = Some (Starting kind c b)"
  shows "stream_inv fin (record_event (Skipped c) (hold i (Returned kind c b (Inr ())) k))" (is "stream_inv fin ?k")
proof -
  have c: "k_home k c = i" "c < io_next_chan (k_io k)" "\<not> channel_is_terminal (chan k c)"
    using inv_stage [OF inv l] by (auto simp: stage_ok_def)
  show ?thesis
    by (rule stream_inv_driver [OF inv c(1,2)]) (use c inv_chan [OF inv] in \<open>auto simp: conf_defs stage_ok_def\<close>)
qed

lemma inv_accepted:
  assumes inv: "stream_inv fin k" and l: "k_lock k i = Some (Ready kind c b info)"
  shows "stream_inv fin (record_event (Added c info) (hold i (Accepted kind c b info) k))" (is "stream_inv fin ?k")
proof -
  have c: "k_home k c = i" "c < io_next_chan (k_io k)" "ch_state (chan k c) = Committing" "fin (k_sent k c) = Inr info"
    using inv_stage [OF inv l] by (auto simp: stage_ok_def)
  show ?thesis
    by (rule stream_inv_driver [OF inv c(1,2)]) (use c inv_chan [OF inv] in \<open>auto simp: conf_defs stage_ok_def accepts_writes_def\<close>)
qed

lemma inv_pending:
  assumes inv: "stream_inv fin k" and l: "k_lock k i = Some (Flipped kind c b)" and p: "ch_pending_info (chan k c) = Some info"
  shows "stream_inv fin (hold i (Ready kind c b info) (run_io (\<lambda>s. snd (take_pending c s)) k))"
proof (rule inv_hold)
  have c: "k_home k c = i" "c < io_next_chan (k_io k)" "ch_state (chan k c) = Committing" using inv_stage [OF inv l] by (auto simp: stage_ok_def)
  have ok: "chan_ok fin (k_sent k c) (chan k c)" by (rule inv_chan [OF inv])
  then have "chan_ok fin (k_sent k c) ((chan k c)\<lparr>ch_pending_info := None\<rparr>)" by (simp add: chan_ok_def accepts_writes_def)
  then show "stream_inv fin (run_io (\<lambda>s. snd (take_pending c s)) k)"
    using inv_stage [OF inv] by (intro stream_inv_upd [OF inv, of c "\<lambda>ch. ch\<lparr>ch_pending_info := None\<rparr>"]) (auto simp: conf_defs take_pending_def)
  have "fin (k_sent k c) = Inr info" using ok p by (simp add: chan_ok_def)
  then show "stage_ok fin (run_io (\<lambda>s. snd (take_pending c s)) k) i (Ready kind c b info)"
    using c by (simp add: stage_ok_def conf_defs take_pending_def upd_chan_def)
qed

lemma inv_finish:
  assumes inv: "stream_inv fin k" and l: "k_lock k i = Some (Flipped kind c b)"
  shows "stream_inv fin (hold i (Uploading kind c b) (run_io (send_finish c) k))"
proof (rule inv_hold)
  have c: "k_home k c = i" "c < io_next_chan (k_io k)" "ch_state (chan k c) = Committing" using inv_stage [OF inv l] by (auto simp: stage_ok_def)
  then show "stage_ok fin (run_io (send_finish c) k) i (Uploading kind c b)"
    by (simp add: stage_ok_def conf_defs send_finish_def upd_chan_def)
  have "\<not> accepts_writes (chan k c)" using c(3) by (simp add: accepts_writes_def)
  from chan_ok_finish [OF inv_chan [OF inv] this] show "stream_inv fin (run_io (send_finish c) k)"
    using inv_stage [OF inv] by (intro stream_inv_upd [OF inv, of c "\<lambda>ch. ch\<lparr>ch_queue := ch_queue ch @ [Finish], ch_reply := None\<rparr>"])
      (auto simp: conf_defs send_finish_def)
qed

lemma inv_refused:
  assumes inv: "stream_inv fin k" and l: "k_lock k i = Some (Ready kind c b info)"
  shows "stream_inv fin (hold i (Returned kind c b (Inl e)) (run_io (commit_refused c info) k))"
proof (rule inv_hold)
  have c: "k_home k c = i" "c < io_next_chan (k_io k)" "ch_state (chan k c) = Committing" "fin (k_sent k c) = Inr info"
    using inv_stage [OF inv l] by (auto simp: stage_ok_def)
  then show "stage_ok fin (run_io (commit_refused c info) k) i (Returned kind c b (Inl e))"
    by (simp add: stage_ok_def conf_defs commit_refused_def upd_chan_def terminal_by_state)
  have "chan_ok fin (k_sent k c) (chan k c)" by (rule inv_chan [OF inv])
  then have "chan_ok fin (k_sent k c) ((chan k c)\<lparr>ch_pending_info := Some info\<rparr>)" using c by (simp add: chan_ok_def accepts_writes_def)
  then show "stream_inv fin (run_io (commit_refused c info) k)"
    using inv_stage [OF inv] by (intro stream_inv_upd [OF inv, of c "\<lambda>ch. ch\<lparr>ch_pending_info := Some info\<rparr>"]) (auto simp: conf_defs commit_refused_def)
qed

text \<open>Setting the final state, by the holder of the lock.\<close>

lemma inv_final:
  assumes inv: "stream_inv fin k" and c: "k_home k c = i" "c < io_next_chan (k_io k)" and st: "st = Committed \<or> st = Failed m"
    and cm: "st = Committed \<Longrightarrow> ch_state (chan k c) = Committed \<or> Skipped c \<in> set (k_log k) \<or> (\<exists>info. Added c info \<in> set (k_log k))"
    and s': "same_chans (set_commit_state c st (k_io k)) s'" and lk: "\<And>j. j \<noteq> i \<Longrightarrow> lock j = k_lock k j"
    and lki: "\<And>d. lock i = Some d \<Longrightarrow> \<exists>kind b. d = Returned kind c b (Inr ()) \<and> st = Committed"
  shows "stream_inv fin (k\<lparr>k_io := s', k_lock := lock\<rparr>)" (is "stream_inv fin ?k")
proof -
  note d = same_chansD [OF s']
  have ch: "io_chans (set_commit_state c st (k_io k)) x = (if x = c then (chan k c)\<lparr>ch_state := st\<rparr> else chan k x)"
    "io_next_chan (set_commit_state c st (k_io k)) = io_next_chan (k_io k)" "io_files (set_commit_state c st (k_io k)) = io_files (k_io k)" for x
    by (simp_all add: set_commit_state_def upd_chan_def)
  have na: "\<not> accepts_writes ((chan k c)\<lparr>ch_state := st\<rparr>)" using st by (auto simp: accepts_writes_def)
  show ?thesis
  proof (rule stream_inv_driver [OF inv c])
    show "chan_ok fin (k_sent ?k x) (chan ?k x)" for x
      using inv_chan [OF inv, of x] na by (auto simp: d(5) ch intro: chan_ok_state)
    show "stage_ok fin ?k i x" if x: "k_lock ?k i = Some x" for x
    proof -
      obtain kind b where r: "x = Returned kind c b (Inr ())" "st = Committed" using lki x by auto
      have "io_next_chan (k_io ?k) = io_next_chan (k_io k)" "ch_state (chan ?k c) = Committed"
        using r(2) ch by (simp_all add: d(1,6))
      then show ?thesis using c r(1) by (simp add: stage_ok_def)
    qed
    show "io_files (k_io k) fh = Some f" if "io_files (k_io ?k) fh = Some f" for fh f using that d(7) ch(3) by simp
    show "ch_state (chan k c) = Committed \<or> Skipped c \<in> set (k_log ?k) \<or> (\<exists>info. Added c info \<in> set (k_log ?k))"
      if "ch_state (chan ?k c) = Committed"
      using cm that by (simp add: d(1) ch)
  qed (use lk na in \<open>auto simp: d(1,2,6) ch\<close>)
qed

lemma inv_apply:
  assumes inv: "stream_inv fin k" and l: "k_lock k i = Some (Accepted kind c b info)"
  shows "stream_inv fin (hold i (Returned kind c b (Inr ())) (run_io (commit_apply i c info sz now) k))"
proof -
  have c: "k_home k c = i" "c < io_next_chan (k_io k)" "Added c info \<in> set (k_log k)" using inv_stage [OF inv l] by (auto simp: stage_ok_def)
  have "same_chans (set_commit_state c Committed (k_io k)) (commit_apply i c info sz now (k_io k))"
    by (simp add: same_chans_def commit_apply_def set_commit_state_def upd_chan_def upd_io_table_def upd_vfs_def)
  from inv_final [OF inv c(1,2) _ _ this, where lock = "(k_lock k)(i \<mapsto> Returned kind c b (Inr ()))"] c(3)
  show ?thesis by (auto simp: conf_defs)
qed

lemma returned_committed:
  assumes inv: "stream_inv fin k" and l: "k_lock k i = Some (Returned kind c b (Inr u))"
  shows "ch_state (chan k c) = Committed \<or> Skipped c \<in> set (k_log k)"
  using inv_stage [OF inv l] by (auto simp: stage_ok_def)

lemma returned_home:
  assumes inv: "stream_inv fin k" and l: "k_lock k i = Some (Returned kind c b r)"
  shows "k_home k c = i" "c < io_next_chan (k_io k)"
  using inv_stage [OF inv l] by (auto simp: stage_ok_def)

lemma inv_flushed:
  assumes inv: "stream_inv fin k" and l: "k_lock k i = Some (Returned ByFlush c b r)"
  shows "stream_inv fin (leave i (run_io (settle_flush i c r) k))"
proof (cases r)
  case (Inl e)
  then show ?thesis using inv_leave [OF inv] by (simp add: settle_flush_def run_io_def)
next
  case (Inr u)
  have "same_chans (set_commit_state c Committed (k_io k)) (settle_flush i c r (k_io k))"
    by (simp add: Inr settle_flush_def same_chans_fulfill)
  from inv_final [OF inv returned_home [OF inv l] _ _ this, where lock = "(k_lock k)(i := None)"]
  show ?thesis using returned_committed [OF inv l [unfolded Inr]] by (auto simp: conf_defs)
qed

lemma inv_released:
  assumes inv: "stream_inv fin k" and l: "k_lock k i = Some (Returned ByRelease c b r)" and s: "settle_release i c r (k_io k) = Some s'"
  shows "stream_inv fin (leave i (k\<lparr>k_io := s'\<rparr>))"
proof -
  define st where "st = (case r of Inr _ \<Rightarrow> Committed | Inl _ \<Rightarrow> Failed ''commit failed'')"
  have "same_chans (set_commit_state c st (k_io k)) s'"
  proof (cases r)
    case (Inr u)
    then show ?thesis using s by (auto simp: settle_release_def st_def same_chans_fulfill)
  next
    case (Inl e)
    then obtain t where "s' = fulfill_commit_hook i c r (set_commit_state c st (upd_io_table (\<lambda>_. t) (k_io k)))"
      using s by (auto simp: settle_release_def st_def)
    moreover have "same_chans (set_commit_state c st (k_io k)) (set_commit_state c st (upd_io_table (\<lambda>_. t) (k_io k)))"
      by (simp add: same_chans_def set_commit_state_def upd_chan_def upd_io_table_def upd_vfs_def)
    ultimately show ?thesis using same_chans_trans same_chans_fulfill by blast
  qed
  from inv_final [OF inv returned_home [OF inv l] _ _ this, where lock = "(k_lock k)(i := None)" and m = "''commit failed''"]
  show ?thesis using returned_committed [OF inv, of i ByRelease c b] l by (cases r) (auto simp: conf_defs st_def)
qed

lemma stream_inv_start: "stream_inv fin (stream_start v)"
  by (simp add: stream_inv_def stream_start_def chan_ok_new) (simp add: new_channel_def)

lemma stream_inv_preserved:
  assumes "stream_step wr fin k k'" and inv: "stream_inv fin k"
  shows "stream_inv fin k'"
  using assms(1)
proof cases
  case (c_worker c)
  then show ?thesis using chan_ok_worker [OF inv_chan [OF inv]] inv_stage [OF inv]
    by (intro stream_inv_upd [OF inv, of c "worker_step wr fin"]) (auto simp: conf_defs worker_state)
next
  case (c_exit c)
  then show ?thesis using chan_ok_exit [OF inv_chan [OF inv]] inv_stage [OF inv]
    by (intro stream_inv_upd [OF inv, of c worker_exit]) (auto simp: conf_defs worker_exit_def)
next
  case (c_account c n)
  have "same_chans (k_io k) (k_io k')" unfolding c_account run_io_def account_write_def
    by (simp add: same_chans_upd same_chan_def chan_core_def)
  then show ?thesis using inv_stage [OF inv] by (intro stream_inv_same [OF inv]) (auto simp: c_account conf_defs)
next
  case (c_others f)
  then show ?thesis using inv_stage [OF inv] by (intro stream_inv_same [OF inv]) (auto simp: conf_defs same_chans_vfs)
next
  case (c_uploaded i kind c b info)
  then have "fin (k_sent k c) = Inr info" using inv_chan [OF inv, of c] by (simp add: chan_ok_def)
  then show ?thesis using c_uploaded inv_stage [OF inv c_uploaded(2)]
    by (auto intro!: inv_hold [OF inv] simp: stage_ok_def)
next
  case (c_closed i kind c b)
  then show ?thesis using inv_stage [OF inv c_closed(2)]
    by (auto intro!: inv_hold [OF inv] simp: stage_ok_def terminal_by_state)
next
  case (c_upload_failed i kind c b e)
  then show ?thesis using inv_stage [OF inv c_upload_failed(2)]
    by (auto intro!: inv_hold [OF inv] simp: stage_ok_def terminal_by_state)
next
  case (c_dropped i kind c b)
  then show ?thesis using inv_stage [OF inv c_dropped(2)]
    by (auto intro!: inv_hold [OF inv] simp: stage_ok_def terminal_by_state)
next
  case (c_gone i kind c b info)
  then show ?thesis using inv_stage [OF inv c_gone(2)]
    by (auto intro!: inv_hold [OF inv] simp: stage_ok_def terminal_by_state)
next
  case (c_retry i c e)
  then show ?thesis using inv_stage [OF inv c_retry(2)]
    by (auto intro!: inv_hold [OF inv] simp: stage_ok_def)
next
  case (c_open_lock i)
  then show ?thesis by (auto intro!: inv_hold [OF inv] simp: stage_ok_def)
qed (use inv in \<open>auto intro: inv_write inv_defer inv_remove inv_create inv_leave inv_open inv_lock inv_skip inv_flip inv_pending
    inv_finish inv_refused inv_accepted inv_apply inv_flushed inv_released\<close>)

lemma stream_reach_inv: "stream_reach wr fin k \<Longrightarrow> stream_inv fin k"
  by (induction rule: stream_reach.induct) (auto intro: stream_inv_start stream_inv_preserved)

section \<open>What is committed\<close>

text \<open>
  C9: in every interleaving of writers, workers, flushes, closes and reopens, what the Hub accepted for
  a channel is the upload of exactly the bytes \<open>write\<close> acknowledged on it, all of them and in order, and
  no write is acknowledged on it afterwards; and a channel that ends as committed was either accepted by
  the Hub or left out because the file was unlinked or the writer superseded.
\<close>

theorem streaming_commit_exact:
  assumes "stream_reach wr fin k"
  shows "(\<forall>c info. Added c info \<in> set (k_log k) \<longrightarrow>
      fin (k_sent k c) = Inr info \<and> \<not> accepts_writes (io_chans (k_io k) c)) \<and>
    (\<forall>c. ch_state (io_chans (k_io k) c) = Committed \<longrightarrow>
      Skipped c \<in> set (k_log k) \<or> (\<exists>info. Added c info \<in> set (k_log k) \<and> fin (k_sent k c) = Inr info))"
proof -
  have inv: "stream_inv fin k" by (rule stream_reach_inv [OF assms])
  then have "fin (k_sent k c) = Inr info \<and> \<not> accepts_writes (chan k c)" if "Added c info \<in> set (k_log k)" for c info
    using that unfolding stream_inv_def by blast
  moreover have "Skipped c \<in> set (k_log k) \<or> (\<exists>info. Added c info \<in> set (k_log k))" if "ch_state (chan k c) = Committed" for c
    using that inv unfolding stream_inv_def by blast
  ultimately show ?thesis by blast
qed

text \<open>The final state of a channel: only its holder moves it there, and nothing moves it away.\<close>

lemma state_set: "ch_state (io_chans (set_commit_state x st s) c) = (if c = x then st else ch_state (io_chans s c))"
  by (simp add: set_commit_state_def upd_chan_def)

lemma state_supersede:
  "ch_state (io_chans (supersede i active s) c) = (if active = Some c then Failed ''superseded by O_TRUNC reopen'' else ch_state (io_chans s c))"
  by (auto simp: supersede_def same_chansD(1) [OF same_chans_fulfill] state_set split: option.split)

lemma state_alloc: "c < io_next_chan s \<Longrightarrow> alloc_channel pid sn g s = (fh, x, s1) \<Longrightarrow> ch_state (io_chans s1 c) = ch_state (io_chans s c)"
  by (auto simp: alloc_channel_def Let_def alloc_file_handle_def)

lemma state_insert: "io_chans (insert_handle fh f (upd_io_table g s)) = io_chans s"
  by (simp add: insert_handle_def upd_io_table_def upd_vfs_def)

lemma state_start: "ch_state (io_chans (start_stream i x s) c) = ch_state (io_chans s c)"
  by (simp add: start_stream_def upd_chan_def upd_io_table_def upd_vfs_def split: option.split)

lemma state_settle_flush:
  "ch_state (io_chans (settle_flush i x r s) c) = (if c = x \<and> r = Inr () then Committed else ch_state (io_chans s c))"
  by (auto simp: settle_flush_def same_chansD(1) [OF same_chans_fulfill] state_set split: sum.split)

lemma state_settle_release:
  assumes "settle_release i x r s = Some s'"
  shows "ch_state (io_chans s' c) = (if c = x then (case r of Inr _ \<Rightarrow> Committed | Inl _ \<Rightarrow> Failed ''commit failed'') else ch_state (io_chans s c))"
  using assms by (auto simp: settle_release_def same_chansD(1) [OF same_chans_fulfill] state_set upd_io_table_def upd_vfs_def split: sum.splits)

lemma state_remove: "ch_state (io_chans (snd (release_remove fh s)) c) = ch_state (io_chans s c)"
  by (simp add: release_remove_def Let_def same_chansD(1) [OF same_chans_install] split: option.split open_file.split)

lemmas state_simps = state_set state_supersede state_insert state_start state_settle_flush state_remove
  same_chansD(1) [OF same_chans_install]

lemma final_state_kept:
  assumes "stream_step wr fin k k'" and inv: "stream_inv fin k" and c: "c < io_next_chan (k_io k)" "channel_is_terminal (chan k c)"
  shows "ch_state (chan k' c) = ch_state (chan k c)"
  using assms(1)
proof cases
  case (c_create i pid sn gen)
  obtain fh x s1 where "alloc_channel pid sn gen (k_io k) = (fh, x, s1)" by (metis prod_cases3)
  then show ?thesis using c_create state_alloc [OF c(1)] by (simp add: run_io_def create_section_def state_simps)
next
  case (c_open i active order pid sn)
  obtain fh x s1 where "alloc_channel pid sn 0 (k_io k) = (fh, x, s1)" by (metis prod_cases3)
  moreover have "active \<noteq> Some c" using streaming_channel_for_Some c(2) c_open(3) by metis
  ultimately show ?thesis using c_open state_alloc [OF c(1)] by (simp add: run_io_def leave_def open_section_def state_simps)
next
  case (c_apply i kind x b info sz now)
  then have "x \<noteq> c" using inv_stage [OF inv c_apply(2)] c(2) by (auto simp: stage_ok_def terminal_by_state)
  then show ?thesis using c_apply by (simp add: conf_defs commit_apply_def state_simps upd_io_table_def upd_vfs_def)
next
  case (c_flushed i x b r)
  then show ?thesis using inv_stage [OF inv c_flushed(2)] c(2) by (auto simp: conf_defs state_simps stage_ok_def)
next
  case (c_released i x b r s')
  then show ?thesis using inv_stage [OF inv c_released(2)] c(2)
    by (auto simp: conf_defs state_settle_release stage_ok_def split: sum.split)
qed (use c(2) in \<open>auto simp: conf_defs send_data_def account_write_def upd_chan_def worker_state worker_exit_def upd_vfs_def
    defer_commit_def state_simps commit_flip_def accepts_writes_def terminal_by_state take_pending_def send_finish_def commit_refused_def\<close>)

text \<open>
  The final state of a channel is final: once a commit has succeeded or a channel has failed, no
  step of any task changes the outcome that \<open>flush\<close>, \<open>release\<close> and a waiting \<open>open\<close> read from it.
\<close>

theorem terminal_never_regresses:
  assumes "stream_reach wr fin k" and "stream_step wr fin k k'" and "c < io_next_chan (k_io k)"
    and "terminal_result (io_chans (k_io k) c) = Some r"
  shows "terminal_result (io_chans (k_io k') c) = Some r"
proof -
  have "channel_is_terminal (io_chans (k_io k) c)" using assms(4) by (simp add: channel_is_terminal_def)
  from final_state_kept [OF assms(2) stream_reach_inv [OF assms(1)] assms(3) this] show ?thesis
    using assms(4) by (simp add: terminal_result_def)
qed

section \<open>Examples\<close>

definition stream_vfs :: "inode_table \<Rightarrow> vfs" where
  "stream_vfs t = \<lparr>v_read_only = False, v_advanced_writes = False, v_overlay = False, v_filter_os_files = False,
     v_encrypting = False, v_negative_ttl = 5, v_table = t, v_negative = Map.empty, v_flush = None,
     v_staging = sc_new None\<rparr>"

definition demo_finish :: "bytes list \<Rightarrow> hub_error + xet_info" where
  "demo_finish fed = Inr \<lparr>xi_hash = ''h2'', xi_size = Some (length (concat fed))\<rparr>"

text \<open>One writer: a write, then a flush that uploads and commits it.\<close>

lemma demo_run:
  "\<exists>k. stream_reach (\<lambda>_ _. None) demo_finish k \<and> k_sent k 0 = [[7]] \<and> io_next_chan (k_io k) = 1 \<and>
     k_log k = [Added 0 \<lparr>xi_hash = ''h2'', xi_size = Some 1\<rparr>] \<and> ch_state (io_chans (k_io k) 0) = Committed"
proof -
  note defs = conf_defs stream_start_def create_section_def alloc_channel_def alloc_file_handle_def insert_handle_def upd_io_table_def
    upd_vfs_def upd_table_def new_channel_def send_data_def upd_chan_def worker_step_def finish_result_def commit_flip_def send_finish_def
    accepts_writes_def install_commit_hook_def put_hook_def terminal_result_def channel_is_terminal_def commit_skip_def io_table_def
    owns_generation_def commit_apply_def set_commit_state_def stream_vfs_def demo_finish_def dirty_table_def one_file_def
    insert_inode_def new_table_def set_dirty_def fresh_entry_def ROOT_INODE_def Let_def u64_max_def bump_open_handles_def upd_eviction_def upd_inode_def
  let ?wr = "\<lambda>_ _. None" and ?sn = "snapshot_entry root_entry" and ?info = "\<lparr>xi_hash = ''h2'', xi_size = Some 1\<rparr>"
  let ?k0 = "stream_start (stream_vfs dirty_table)"
  let ?k1 = "(run_io (create_section None ?sn 1 2) ?k0)\<lparr>k_home := (k_home ?k0)(io_next_chan (k_io ?k0) := 2)\<rparr>"
  let ?k2 = "(run_io (send_data 0 [7]) ?k1)\<lparr>k_sent := (k_sent ?k1)(0 := k_sent ?k1 0 @ [[7]])\<rparr>"
  let ?k3 = "hold 2 (Starting ByFlush 0 False) (run_io (install_commit_hook 2 0) ?k2)"
  let ?k4 = "hold 2 (Flipped ByFlush 0 False) (run_io (commit_flip 0) ?k3)"
  let ?k5 = "hold 2 (Uploading ByFlush 0 False) (run_io (send_finish 0) ?k4)"
  let ?k6 = "run_io (upd_chan 0 (worker_step ?wr demo_finish)) (run_io (upd_chan 0 (worker_step ?wr demo_finish)) ?k5)"
  let ?k7 = "hold 2 (Ready ByFlush 0 False ?info) ?k6"
  let ?k8 = "record_event (Added 0 ?info) (hold 2 (Accepted ByFlush 0 False ?info) ?k7)"
  let ?k9 = "hold 2 (Returned ByFlush 0 False (Inr ())) (run_io (commit_apply 2 0 ?info 1 9) ?k8)"
  have "stream_reach ?wr demo_finish ?k1" by (rule k_step [OF k_start c_create])
  then have "stream_reach ?wr demo_finish ?k2" by (rule k_step [OF _ c_write]) (simp_all add: defs)
  then have "stream_reach ?wr demo_finish ?k3" by (rule k_step [OF _ c_lock]) (simp_all add: defs)
  then have "stream_reach ?wr demo_finish ?k4" by (rule k_step [OF _ c_flip]) (simp_all add: defs)
  then have "stream_reach ?wr demo_finish ?k5" by (rule k_step [OF _ c_finish]) (simp_all add: defs)
  then have "stream_reach ?wr demo_finish ?k6" by (intro k_step [OF k_step [OF _ c_worker] c_worker]) (simp_all add: defs)
  then have "stream_reach ?wr demo_finish ?k7" by (rule k_step [OF _ c_uploaded]) (simp_all add: defs)
  then have "stream_reach ?wr demo_finish ?k8" by (rule k_step [OF _ c_accepted]) (simp add: defs)
  then have "stream_reach ?wr demo_finish ?k9" by (rule k_step [OF _ c_apply]) (simp add: defs)
  then show ?thesis by (rule exI [of _ ?k9, OF conjI]) (simp add: defs)
qed

theorem streaming_commit_exact_witness:
  "\<exists>k :: stream_conf. k_sent k 0 = [[7]] \<and> Added 0 \<lparr>xi_hash = ''h2'', xi_size = Some 1\<rparr> \<in> set (k_log k) \<and>
     demo_finish (k_sent k 0) = Inr \<lparr>xi_hash = ''h2'', xi_size = Some 1\<rparr> \<and> \<not> accepts_writes (io_chans (k_io k) 0)"
proof -
  obtain k where k: "stream_reach (\<lambda>_ _. None) demo_finish k" "k_sent k 0 = [[7]]"
    "k_log k = [Added 0 \<lparr>xi_hash = ''h2'', xi_size = Some 1\<rparr>]" using demo_run by blast
  from streaming_commit_exact [OF k(1)] k(2,3) show ?thesis by (intro exI [of _ k]) simp
qed

theorem terminal_never_regresses_witness:
  "\<exists>k :: stream_conf. ch_state (io_chans (k_io k) 0) = Committed \<and> terminal_result (io_chans (k_io (run_io (defer_commit 2 0) k)) 0) = Some (Inr ())"
proof -
  obtain k where k: "stream_reach (\<lambda>_ _. None) demo_finish k" "io_next_chan (k_io k) = 1" "ch_state (io_chans (k_io k) 0) = Committed"
    using demo_run by blast
  have "terminal_result (io_chans (k_io k) 0) = Some (Inr ())" "0 < io_next_chan (k_io k)" using k by (simp_all add: terminal_result_def)
  from terminal_never_regresses [OF k(1) c_defer this(2,1)] k(3) show ?thesis by blast
qed

lemma calm_lock:
  assumes "x_lock en = (\<lambda>_ s. s)"
  shows "io_chans (io_lock en i s) = io_chans s" "io_table (io_lock en i s) = io_table s" "v_overlay (io_vfs (io_lock en i s)) = v_overlay (io_vfs s)"
  using assms by (simp_all add: io_lock_def upd_vfs_def io_table_def)

lemma unlock_simps [simp]:
  "io_chans (io_unlock i s) = io_chans s" "io_table (io_unlock i s) = io_table s" "v_overlay (io_vfs (io_unlock i s)) = v_overlay (io_vfs s)"
  by (simp_all add: io_unlock_def upd_vfs_def io_table_def)

lemma fulfill_simps [simp]:
  "ch_state (io_chans (fulfill_commit_hook i x r s) c) = ch_state (io_chans s c)" "io_vfs (fulfill_commit_hook i x r s) = io_vfs s"
  "c \<noteq> x \<Longrightarrow> io_chans (fulfill_commit_hook i x r s) c = io_chans s c" "io_table (fulfill_commit_hook i x r s) = io_table s"
  by (simp_all add: fulfill_commit_hook_def upd_chan_def Let_def io_table_def split: option.split)

text \<open>A close whose commit is skipped, and one whose commit the Hub refuses twice.\<close>

lemma release_skipped:
  assumes "x_lock en = (\<lambda>_ s. s)" and "\<not> v_overlay (io_vfs s)" and "\<not> channel_is_terminal (io_chans s c)" and "commit_skip s i c"
  shows "release_commit en i c s = Some (None, io_unlock i (fulfill_commit_hook i c (Inr ()) (set_commit_state c Committed (io_lock en i s))))"
proof -
  have "commit_skip (io_lock en i s) i c" using assms(4) by (simp add: commit_skip_def calm_lock [OF assms(1)] split: option.splits)
  then show ?thesis using assms(2,3)
    by (simp add: release_commit_def Let_def streaming_commit_def calm_lock [OF assms(1)] settle_release_def)
qed

lemma commit_refused_once:
  assumes "\<not> v_overlay (io_vfs s)" and sk: "\<not> commit_skip s i c" and "x_slot en = (\<lambda>_ s. s)" and "ch_open (io_chans s c)"
    and "x_reply en = (\<lambda>_ s. (Some (Inr info), s))" and "x_hub en = (\<lambda>_ s. (Some er, s))"
  shows "\<exists>s'. streaming_commit en i c s = Some (Inl (to_errno er), s') \<and> io_vfs s' = io_vfs s \<and> ch_open (io_chans s' c) \<and>
    ch_pending_info (io_chans s' c) \<noteq> None \<and> ch_gen (io_chans s' c) = ch_gen (io_chans s c) \<and> ch_snapshot (io_chans s' c) = ch_snapshot (io_chans s c)"
proof -
  let ?f = "commit_flip c s"
  have f: "io_vfs ?f = io_vfs s" "ch_open (io_chans ?f c) = ch_open (io_chans s c)" "ch_gen (io_chans ?f c) = ch_gen (io_chans s c)"
    "ch_snapshot (io_chans ?f c) = ch_snapshot (io_chans s c)"
    by (simp_all add: commit_flip_def upd_chan_def)
  obtain e where "t_inodes (v_table (io_vfs s)) i = Some e" using sk by (auto simp: commit_skip_def io_table_def split: option.splits)
  then show ?thesis using assms f
    by (cases "ch_pending_info (io_chans ?f c)")
      (simp_all add: streaming_commit_def take_pending_def finish_upload_def Let_def commit_to_hub_def io_table_def, simp_all add: upd_chan_def send_finish_def commit_refused_def)
qed

text \<open>The first part of a \<open>release\<close>, while another task waits for the lock.\<close>

lemma release_remove_facts:
  assumes "io_files s fh = Some (Streaming i c)"
  shows "io_files (snd (release_remove fh s)) = (io_files s)(fh := None)" "io_vfs (snd (release_remove fh s)) = io_vfs s"
    "io_next_chan (snd (release_remove fh s)) = io_next_chan s"
    "ch_state (io_chans (snd (release_remove fh s)) k) = ch_state (io_chans s k)"
    "ch_gen (io_chans (snd (release_remove fh s)) k) = ch_gen (io_chans s k)"
  using assms
  by (auto simp: release_remove_def Let_def install_commit_hook_def put_hook_def fulfill_commit_hook_def upd_chan_def split: option.split)

lemma no_channel_found:
  assumes "\<And>fh c'. io_files s fh \<noteq> Some (Streaming i c')"
  shows "streaming_channel_for order i s = None"
proof -
  have "\<not> (case f of Streaming k c' \<Rightarrow> k = i \<and> owns_generation (io_chans s c') g \<and> \<not> channel_is_terminal (io_chans s c') | _ \<Rightarrow> False)"
    if "f \<in> set (List.map_filter (io_files s) order)" for f g
    using that assms by (auto simp: List.map_filter_def split: open_file.split)
  then have "find (\<lambda>f. case f of Streaming k c' \<Rightarrow> k = i \<and> owns_generation (io_chans s c') g \<and> \<not> channel_is_terminal (io_chans s c') | _ \<Rightarrow> False)
      (List.map_filter (io_files s) order) = None" for g unfolding find_None_iff by blast
  then show ?thesis by (simp add: streaming_channel_for_def split: option.split)
qed

text \<open>A truncating reopen that waits for the lock while the only writer's handle is taken out of the table.\<close>

lemma reopen_misses_writer:
  assumes "io_files s fh = Some (Streaming i c)" and "\<And>k c'. k \<noteq> fh \<Longrightarrow> io_files s k \<noteq> Some (Streaming i c')"
    and e: "t_inodes (io_table s) i = Some e" and c: "c < io_next_chan s" and "io_pending s i = None"
    and "x_lock en = (\<lambda>_ s. snd (release_remove fh s))" and "\<And>s. x_new_writer en s = (True, s)"
  obtains fh' s1 e1 where "open_streaming_write en i pid s = (Inr fh', s1)" "ch_state (io_chans s1 c) = ch_state (io_chans s c)"
    "ch_gen (io_chans s1 c) = ch_gen (io_chans s c)" "t_inodes (io_table s1) i = Some e1" "e_nlink e1 = e_nlink e"
    "e_dirty_generation e1 = e_dirty_generation (set_dirty e)" "v_overlay (io_vfs s1) = v_overlay (io_vfs s)"
    "io_chans s1 (io_next_chan s) = (new_channel pid (snapshot_entry e) 0)\<lparr>ch_gen := e_dirty_generation (set_dirty e)\<rparr>"
proof -
  define u where "u = upd_vfs (\<lambda>v. v\<lparr>v_staging := sc_lock i (v_staging v)\<rparr>) s"
  define S where "S = snd (release_remove fh u)"
  have uf: "io_files u fh = Some (Streaming i c)" using assms(1) by (simp add: u_def upd_vfs_def)
  note r = release_remove_facts [OF uf, folded S_def]
  have S: "io_lock en i s = S" using assms(6) by (simp add: io_lock_def u_def S_def)
  have tab: "t_inodes (io_table S) i = Some e" "v_overlay (io_vfs S) = v_overlay (io_vfs s)" "io_next_chan S = io_next_chan s"
    "ch_state (io_chans S c) = ch_state (io_chans s c)" "ch_gen (io_chans S c) = ch_gen (io_chans s c)"
    using e r by (simp_all add: io_table_def u_def upd_vfs_def)
  have "io_files S k \<noteq> Some (Streaming i c')" for k c' using assms(2) [of k c'] r(1) by (simp add: u_def upd_vfs_def)
  note none = no_channel_found [of S, OF this]
  have aw: "await_pending_commit en i s = (Inr (), s)" using assms(5) by (simp add: await_pending_commit_def)
  have "open_snapshot None i S = Some (snapshot_entry e)" using tab(1) by (simp add: open_snapshot_def)
  moreover have "e_nlink (set_dirty e) = e_nlink e" by (simp add: set_dirty_def)
  ultimately show thesis
    using aw S none assms(7) tab c
    by (intro that [of "fst (alloc_file_handle S)" "snd (open_streaming_write en i pid s)"
        "(set_dirty e)\<lparr>e_size := 0, e_xet_hash := None, e_eviction := e_eviction (set_dirty e)
          \<lparr>ev_open_handles := wrap32 (ev_open_handles (e_eviction (set_dirty e)) + 1)\<rparr>\<rparr>"])
      (simp_all add: open_streaming_write_def Let_def setup_streaming_writer_def alloc_channel_def alloc_file_handle_def supersede_def
        start_stream_def io_table_def upd_chan_def upd_io_table_def upd_vfs_def upd_table_def insert_handle_def bump_open_handles_def
        upd_eviction_def upd_inode_def io_unlock_def new_channel_def)
qed


section \<open>A reopen while the writer is being closed\<close>

lemma refused_twice:
  assumes "x_lock en = (\<lambda>_ s. s)" "x_slot en = (\<lambda>_ s. s)" "x_reply en = (\<lambda>_ s. (Some (Inr info), s))" "x_hub en = (\<lambda>_ s. (Some er, s))" "x_sleep en = id"
    and "\<not> v_overlay (io_vfs s)" and e: "t_inodes (io_table s) i = Some e" "0 < e_nlink e" "ch_gen (io_chans s c) = e_dirty_generation e"
    and ch: "ch_state (io_chans s c) = Writing" "ch_open (io_chans s c)" "sn_existed_before (ch_snapshot (io_chans s c))"
  shows "\<exists>s' f. release_commit en i c s = Some (Some (to_errno er), s') \<and> t_inodes (io_table s') i = Some f \<and>
    e_xet_hash f = sn_xet_hash (ch_snapshot (io_chans s c)) \<and> e_size f = sn_size (ch_snapshot (io_chans s c)) \<and> \<not> is_dirty f"
proof -
  let ?s = "io_lock en i s"
  note l = calm_lock [OF assms(1), of i s]
  have sk: "\<not> commit_skip x i c" if "io_table x = io_table s" "ch_gen (io_chans x c) = ch_gen (io_chans s c)" for x
    using that e by (simp add: commit_skip_def owns_generation_def)
  obtain s1 where s1: "streaming_commit en i c ?s = Some (Inl (to_errno er), s1)" "io_vfs s1 = io_vfs ?s" "ch_open (io_chans s1 c)"
    "ch_pending_info (io_chans s1 c) \<noteq> None" "ch_gen (io_chans s1 c) = ch_gen (io_chans s c)" "ch_snapshot (io_chans s1 c) = ch_snapshot (io_chans s c)"
    using commit_refused_once [OF _ sk assms(2) _ assms(3,4), of ?s] l assms(6) ch(2) by auto
  have t1: "io_table s1 = io_table s" "\<not> v_overlay (io_vfs s1)" using s1(2) l assms(6) by (simp_all add: io_table_def)
  obtain s2 where s2: "streaming_commit en i c s1 = Some (Inl (to_errno er), s2)" "io_vfs s2 = io_vfs s1"
    "ch_snapshot (io_chans s2 c) = ch_snapshot (io_chans s c)"
    using commit_refused_once [OF _ sk assms(2) _ assms(3,4), of s1] s1 t1 by auto
  have "\<not> channel_is_terminal (io_chans ?s c)" using l ch(1) by (simp add: terminal_by_state)
  moreover have "t_inodes (io_table s2) i = Some e" using e(1) t1(1) s2(2) by (simp add: io_table_def)
  ultimately show ?thesis using s1(1,4) s2 assms(5) ch(3)
    by (simp add: release_commit_def Let_def settle_release_def revert_inode_def upd_io_table_def upd_vfs_def upd_table_def
        io_table_def set_commit_state_def upd_chan_def is_dirty_def upd_inode_def io_unlock_def)
qed

text \<open>
  C38: a close that meets a truncating reopen loses data silently.  Let a streaming writer of an inode be its only one and
  own its dirty generation, and let another handle be opened with truncation while the close of the first begins:
  the close takes the handle out of the table while the reopen waits for the inode's lock.  The reopen
  misses the writer, so it neither fails it nor takes over its snapshot.  The first writer's commit then
  reports success without asking the Hub, whatever the Hub would answer and whatever its writes acknowledged; and when
  the second writer's commit is refused twice, the inode becomes clean with the hash and size it had while
  the first writer was writing, not those of the last committed state.
\<close>

theorem close_during_reopen_loses_data:
  assumes "io_files s fh = Some (Streaming i c)" and "\<And>k c'. k \<noteq> fh \<Longrightarrow> io_files s k \<noteq> Some (Streaming i c')"
    and e: "t_inodes (io_table s) i = Some e" "0 < e_nlink e" "e_dirty_generation e < u64_max"
    and c: "c < io_next_chan s" "ch_gen (io_chans s c) = e_dirty_generation e" "ch_state (io_chans s c) = Writing"
    and "\<not> v_overlay (io_vfs s)" and "io_pending s i = None"
    and "x_lock en = (\<lambda>_ s. snd (release_remove fh s))" and "\<And>s. x_new_writer en s = (True, s)"
  shows "\<exists>fh' s1 s2. open_streaming_write en i pid s = (Inr fh', s1) \<and>
    (\<forall>en'. x_lock en' = (\<lambda>_ s. s) \<longrightarrow> release_commit en' i c s1 = Some (None, s2)) \<and> ch_state (io_chans s2 c) = Committed \<and>
    (\<forall>en' info er. x_lock en' = (\<lambda>_ s. s) \<and> x_slot en' = (\<lambda>_ s. s) \<and> x_reply en' = (\<lambda>_ s. (Some (Inr info), s)) \<and>
        x_hub en' = (\<lambda>_ s. (Some er, s)) \<and> x_sleep en' = id \<longrightarrow>
      (\<exists>s3 f. release_commit en' i (io_next_chan s) s2 = Some (Some (to_errno er), s3) \<and> t_inodes (io_table s3) i = Some f \<and>
        e_xet_hash f = e_xet_hash e \<and> e_size f = e_size e \<and> \<not> is_dirty f))"
proof -
  let ?n = "io_next_chan s"
  obtain fh' s1 e1 where o: "open_streaming_write en i pid s = (Inr fh', s1)" and cs: "ch_state (io_chans s1 c) = ch_state (io_chans s c)"
    "ch_gen (io_chans s1 c) = ch_gen (io_chans s c)" and e1: "t_inodes (io_table s1) i = Some e1" "e_nlink e1 = e_nlink e"
    "e_dirty_generation e1 = e_dirty_generation (set_dirty e)" and ov: "v_overlay (io_vfs s1) = v_overlay (io_vfs s)"
    and n: "io_chans s1 ?n = (new_channel pid (snapshot_entry e) 0)\<lparr>ch_gen := e_dirty_generation (set_dirty e)\<rparr>"
    by (rule reopen_misses_writer [OF assms(1,2) e(1) c(1) assms(10,11,12), of pid])
  have gen: "e_dirty_generation (set_dirty e) = e_dirty_generation e + 1" using e(3) by (simp add: set_dirty_def sat_add64_def)
  have sk: "commit_skip s1 i c" using e1 cs(2) c(2) gen by (simp add: commit_skip_def owns_generation_def)
  have nt: "\<not> channel_is_terminal (io_chans s1 c)" using cs(1) c(3) by (simp add: terminal_by_state)
  let ?v = "upd_vfs (\<lambda>v. v\<lparr>v_staging := sc_lock i (v_staging v)\<rparr>) s1"
  define s2 where "s2 = io_unlock i (fulfill_commit_hook i c (Inr ()) (set_commit_state c Committed ?v))"
  have rel: "release_commit en' i c s1 = Some (None, s2)" if "x_lock en' = (\<lambda>_ s. s)" for en'
    using release_skipped [OF that _ nt sk] assms(9) ov that by (simp add: s2_def io_lock_def)
  have cn: "?n \<noteq> c" using c(1) by simp
  have s2: "ch_state (io_chans s2 c) = Committed" "io_table s2 = io_table s1" "v_overlay (io_vfs s2) = v_overlay (io_vfs s1)"
    "io_chans s2 ?n = io_chans s1 ?n"
    using cn by (simp_all add: s2_def set_commit_state_def upd_chan_def upd_vfs_def io_table_def io_unlock_def)
  have fail: "\<exists>s3 f. release_commit en' i ?n s2 = Some (Some (to_errno er), s3) \<and> t_inodes (io_table s3) i = Some f \<and>
      e_xet_hash f = e_xet_hash e \<and> e_size f = e_size e \<and> \<not> is_dirty f"
    if "x_lock en' = (\<lambda>_ s. s)" "x_slot en' = (\<lambda>_ s. s)" "x_reply en' = (\<lambda>_ s. (Some (Inr info), s))"
      "x_hub en' = (\<lambda>_ s. (Some er, s))" "x_sleep en' = id" for en' info er
    using refused_twice [OF that, of s2 i e1 ?n] e1 e(2) s2 ov assms(9) n by (simp add: new_channel_def snapshot_entry_def)
  show ?thesis
    using o rel s2(1) fail by (intro exI [of _ fh'] exI [of _ s1] exI [of _ s2]) blast
qed

text \<open>
  The examples: the file of inode 2 is on the Hub with hash \<open>h\<close> and three bytes.  A first writer truncates it and
  writes one byte.
\<close>

definition calm_env :: io_env where
  "calm_env = \<lparr>x_vfs = \<lparr>w_load = (\<lambda>_ s. (Inr False, s)), w_hub = (\<lambda>_ s. (None, s)), w_lock = (\<lambda>_ s. s), w_now = 9, w_mtime_ms = 9000,
       w_neg_order = (\<lambda>_. []), w_removable = (\<lambda>_. True), w_overlay_exists = Inr False, w_overlay_parents = None, w_overlay_op = None\<rparr>,
     x_hub = (\<lambda>_ s. (None, s)), x_lock = (\<lambda>_ s. s), x_await = (\<lambda>_ s. (True, s)), x_new_writer = Pair True, x_slot = (\<lambda>_ s. s),
     x_reply = (\<lambda>_ s. (Some (Inr \<lparr>xi_hash = ''h2'', xi_size = Some 1\<rparr>), s)), x_sleep = id, x_order = (\<lambda>_. [1, 2]), x_status = (\<lambda>_. None)\<rparr>"

definition one_writer :: io_state where
  "one_writer = snd (stream_write calm_env 2 0 0 [7] (snd (open_streaming_write calm_env 2 None (k_io (stream_start (stream_vfs one_file))))))"

lemmas race_defs = one_writer_def calm_env_def stream_start_def stream_vfs_def open_streaming_write_def stream_write_def release_remove_def
  await_pending_commit_def io_lock_def io_unlock_def upd_vfs_def sc_lock_def sc_unlock_def sc_new_def streaming_channel_for_def
  io_table_def open_snapshot_def snapshot_entry_def setup_streaming_writer_def alloc_channel_def alloc_file_handle_def supersede_def
  start_stream_def upd_chan_def upd_io_table_def upd_table_def insert_handle_def bump_open_handles_def upd_eviction_def upd_inode_def
  new_channel_def account_write_def send_data_def accepts_writes_def channel_is_terminal_def terminal_result_def install_commit_hook_def
  put_hook_def owns_generation_def one_file_def insert_inode_def new_table_def set_dirty_def fresh_entry_def ROOT_INODE_def Let_def
  u64_max_def wrap64_def sat_add64_def map_filter_simps


lemma one_writer_eval:
  "io_files one_writer = [1 \<mapsto> Streaming 2 0]" "io_next_chan one_writer = 1" "io_pending one_writer 2 = None" "\<not> v_overlay (io_vfs one_writer)"
  "ch_state (io_chans one_writer 0) = Writing" "ch_gen (io_chans one_writer 0) = 1"
  "\<exists>e. t_inodes (io_table one_writer) 2 = Some e \<and> e_dirty_generation e = 1 \<and> e_nlink e = 1 \<and> e_size e = 1 \<and> e_xet_hash e = None"
  by (simp_all add: race_defs)

theorem close_during_reopen_loses_data_witness:
  "\<exists>s1 s2 s3 f. snd (open_streaming_write (calm_env\<lparr>x_lock := (\<lambda>_ s. snd (release_remove 1 s))\<rparr>) 2 None one_writer) = s1 \<and>
    release_commit calm_env 2 0 s1 = Some (None, s2) \<and>
    release_commit (calm_env\<lparr>x_hub := (\<lambda>_ s. (Some (hub ''down''), s))\<rparr>) 2 1 s2 = Some (Some (to_errno (hub ''down'')), s3) \<and>
    t_inodes (io_table s3) 2 = Some f \<and> e_xet_hash f = None \<and> \<not> is_dirty f"
proof -
  let ?en = "calm_env\<lparr>x_lock := (\<lambda>_ s. snd (release_remove 1 s))\<rparr>" and ?down = "calm_env\<lparr>x_hub := (\<lambda>_ s. (Some (hub ''down''), s))\<rparr>"
  obtain e where e: "t_inodes (io_table one_writer) 2 = Some e" "e_dirty_generation e = 1" "e_nlink e = 1" "e_xet_hash e = None"
    using one_writer_eval(7) by blast
  have f: "io_files one_writer 1 = Some (Streaming 2 0)" using one_writer_eval(1) by simp
  have others: "io_files one_writer k \<noteq> Some (Streaming 2 c')" if "k \<noteq> 1" for k c' using one_writer_eval(1) that by simp
  have env: "x_lock ?en = (\<lambda>_ s. snd (release_remove 1 s))" "\<And>s. x_new_writer ?en s = (True, s)" "x_lock calm_env = (\<lambda>_ s. s)"
    "x_lock ?down = (\<lambda>_ s. s)" "x_slot ?down = (\<lambda>_ s. s)" "x_reply ?down = (\<lambda>_ s. (Some (Inr \<lparr>xi_hash = ''h2'', xi_size = Some 1\<rparr>), s))"
    "x_hub ?down = (\<lambda>_ s. (Some (hub ''down''), s))" "x_sleep ?down = id"
    by (simp_all add: calm_env_def)
  have hyp: "0 < e_nlink e" "e_dirty_generation e < u64_max" "0 < io_next_chan one_writer" "ch_gen (io_chans one_writer 0) = e_dirty_generation e"
    using e one_writer_eval by (simp_all add: u64_max_def)
  obtain fh' s1 s2 where r: "open_streaming_write ?en 2 None one_writer = (Inr fh', s1)"
    "\<forall>en'. x_lock en' = (\<lambda>_ s. s) \<longrightarrow> release_commit en' 2 0 s1 = Some (None, s2)"
    "\<forall>en' info er. x_lock en' = (\<lambda>_ s. s) \<and> x_slot en' = (\<lambda>_ s. s) \<and> x_reply en' = (\<lambda>_ s. (Some (Inr info), s)) \<and>
        x_hub en' = (\<lambda>_ s. (Some er, s)) \<and> x_sleep en' = id \<longrightarrow>
      (\<exists>s3 f. release_commit en' 2 (io_next_chan one_writer) s2 = Some (Some (to_errno er), s3) \<and> t_inodes (io_table s3) 2 = Some f \<and>
        e_xet_hash f = e_xet_hash e \<and> e_size f = e_size e \<and> \<not> is_dirty f)"
    using close_during_reopen_loses_data [where pid = None, OF f others e(1) hyp one_writer_eval(5,4,3) env(1,2)] by blast
  have "release_commit calm_env 2 0 s1 = Some (None, s2)" using r(2) env(3) by blast
  moreover obtain s3 f where "release_commit ?down 2 1 s2 = Some (Some (to_errno (hub ''down'')), s3)" "t_inodes (io_table s3) 2 = Some f"
    "e_xet_hash f = None" "\<not> is_dirty f"
    using r(3) [rule_format, of ?down] env(4-8) one_writer_eval(2) e(4) by metis
  ultimately show ?thesis using r(1) by auto
qed

end
