(* ===== verification/Open_Files_Safety.thy ===== *)
theory Open_Files_Safety
  imports Open_Files Streaming_Safety
begin

text \<open>
  Open handles are counted exactly: the count kept in the inode table, which decides whether an inode
  may be evicted, unlinked or reclaimed, is the number of handles on it.
\<close>

section \<open>The invariant\<close>

text \<open>
  \<open>counted D s\<close>: each file's count is the number of its handles in the table of open files, plus the
  handles \<open>D\<close> that closes in progress have taken out of that table and not yet given back.
\<close>

definition handles_of :: "io_state \<Rightarrow> nat \<Rightarrow> nat set" where
  "handles_of s ino = {fh. \<exists>f. io_files s fh = Some f \<and> of_ino f = ino}"

definition open_count :: "inode_entry \<Rightarrow> nat" where
  "open_count e = ev_open_handles (e_eviction e)"

definition counted :: "(nat \<Rightarrow> nat) \<Rightarrow> io_state \<Rightarrow> bool" where
  "counted D s \<longleftrightarrow>
    finite (dom (io_files s)) \<and>
    (\<forall>fh f. io_files s fh = Some f \<longrightarrow> fh < io_next_fh s \<and> of_ino f < t_next_inode (io_table s)) \<and>
    (\<forall>ino. t_next_inode (io_table s) \<le> ino \<longrightarrow> D ino = 0) \<and>
    (\<forall>p ino. t_paths (io_table s) p = Some ino \<longrightarrow> ino < t_next_inode (io_table s)) \<and>
    (\<forall>ino e. t_inodes (io_table s) ino = Some e \<and> e_kind e = File \<longrightarrow>
       ino < t_next_inode (io_table s) \<and> open_count e = wrap32 (card (handles_of s ino) + D ino))"

definition room :: "io_state \<Rightarrow> bool" where
  "room s \<longleftrightarrow> io_next_fh s < u64_max"

text \<open>Table updates that leave the counts of the files alone; files they add are not open.\<close>

definition calm :: "inode_table \<Rightarrow> inode_table \<Rightarrow> bool" where
  "calm t t' \<longleftrightarrow> t_next_inode t \<le> t_next_inode t' \<and>
    (\<forall>p i. t_paths t' p = Some i \<longrightarrow> (\<exists>q. t_paths t q = Some i) \<or> i < t_next_inode t') \<and>
    (\<forall>ino e'. t_inodes t' ino = Some e' \<and> e_kind e' = File \<longrightarrow>
      (\<exists>e. t_inodes t ino = Some e \<and> e_kind e = File \<and> open_count e' = open_count e) \<or>
      t_next_inode t \<le> ino \<and> ino < t_next_inode t' \<and> open_count e' = 0)"

lemma calm_refl [simp]: "calm t t"
  by (auto simp: calm_def)

lemma calmD:
  assumes "calm t t'" and "t_inodes t' ino = Some e'" and "e_kind e' = File"
  shows "(\<exists>e. t_inodes t ino = Some e \<and> e_kind e = File \<and> open_count e' = open_count e) \<or>
    t_next_inode t \<le> ino \<and> ino < t_next_inode t' \<and> open_count e' = 0"
  using assms unfolding calm_def by blast

lemma calm_next: "calm t t' \<Longrightarrow> t_next_inode t \<le> t_next_inode t'"
  by (simp add: calm_def)

lemma calm_paths: "calm t t' \<Longrightarrow> t_paths t' p = Some i \<Longrightarrow> (\<exists>q. t_paths t q = Some i) \<or> i < t_next_inode t'"
  by (simp add: calm_def)

lemma calm_trans:
  assumes "calm t u" and "calm u v"
  shows "calm t v"
  unfolding calm_def
proof (intro conjI allI impI)
  show n: "t_next_inode t \<le> t_next_inode v" using assms calm_next le_trans by blast
  show "(\<exists>q. t_paths t q = Some i) \<or> i < t_next_inode v" if "t_paths v p = Some i" for p i
    using calm_paths [OF assms(2) that] calm_paths [OF assms(1)] calm_next [OF assms(2)] by (meson less_le_trans)
  fix ino e' assume "t_inodes v ino = Some e' \<and> e_kind e' = File"
  then consider e where "t_inodes u ino = Some e" "e_kind e = File" "open_count e' = open_count e"
    | "t_next_inode u \<le> ino" "ino < t_next_inode v" "open_count e' = 0" using calmD [OF assms(2), of ino e'] by auto
  then show "(\<exists>e. t_inodes t ino = Some e \<and> e_kind e = File \<and> open_count e' = open_count e) \<or>
    t_next_inode t \<le> ino \<and> ino < t_next_inode v \<and> open_count e' = 0"
  proof cases
    case 1
    then show ?thesis using calmD [OF assms(1) 1(1,2)] calm_next [OF assms(2)] by auto
  next
    case 2
    then show ?thesis using calm_next [OF assms(1)] by auto
  qed
qed

lemma calm_upd: "(\<And>e. e_kind (f e) = e_kind e \<and> open_count (f e) = open_count e) \<Longrightarrow> calm t (upd_inode i f t)"
  by (auto simp: calm_def upd_inode_def)

lemma calm_del: "calm t (del_inode i t)" "calm t (remove_path p t)"
  by (auto simp: calm_def del_inode_def remove_path_def)

lemma calm_touch: "calm t (touch i t)" "calm t (touch_parent i now t)" "calm t (snd (take_evict_pending i t))"
proof -
  have "calm t (t\<lparr>t_touch_counter := n\<rparr>)" for n by (auto simp: calm_def)
  then show "calm t (touch i t)"
    by (auto simp: touch_def upd_eviction_def open_count_def intro!: calm_trans [OF _ calm_upd] split: option.split)
  show "calm t (touch_parent i now t)" "calm t (snd (take_evict_pending i t))"
    by (auto simp: touch_parent_def take_evict_pending_def upd_eviction_def open_count_def intro!: calm_upd split: option.split)
qed

lemma calm_insert_inode:
  assumes "t_next_inode t < u64_max"
  shows "calm t (snd (insert_inode par name path k sz mt hash md u g now t))"
  using assms
  by (auto simp: calm_def insert_inode_def upd_inode_def open_count_def fresh_entry_def eviction_default_def Let_def wrap64_def u64_max_def
      add_child_def split: option.splits if_splits)

lemma calm_remove_sweep:
  assumes "remove_sweep st t = Some t'"
  shows "calm t t'"
proof (rule remove_sweep.raw_induct [where P = "\<lambda>st t t'. calm t t'", OF _ assms])
  fix f st t t'
  assume IH: "\<And>st t t'. f st t = Some t' \<Longrightarrow> calm t t'"
    and eq: "(case st of [] \<Rightarrow> Some t
      | i # rest \<Rightarrow> (case t_inodes t i of None \<Rightarrow> f rest t
          | Some child \<Rightarrow> f (rev (map c_ino (e_children child)) @ rest) (remove_path (e_full_path child) (del_inode i t)))) = Some t'"
  have d: "calm t (remove_path p (del_inode i t))" for p i by (rule calm_trans [OF calm_del(1,2)])
  show "calm t t'" using eq IH by (auto intro: calm_trans [OF d] split: list.splits option.splits)
qed

lemma calm_detach: "calm t (detach_from_parent par ino k b t)"
  by (auto simp: detach_from_parent_def Let_def remove_child_by_ino_def open_count_def intro!: calm_upd split: option.split)

lemma calm_remove_inode:
  assumes "remove_inode ino t = Some (r, t')"
  shows "calm t t'"
proof (cases "t_inodes t ino")
  case (Some e)
  then have "remove_sweep (rev (map c_ino (e_children e)))
      (detach_from_parent (e_parent e) ino (e_kind e) False (remove_path (e_full_path e) (del_inode ino t))) = Some t'"
    using assms by (auto simp: remove_inode_def)
  from calm_trans [OF calm_detach calm_remove_sweep [OF this]] show ?thesis
    by (rule calm_trans [OF calm_trans [OF calm_del(1,2)]])
qed (use assms in \<open>simp add: remove_inode_def\<close>)

lemma calm_remove_orphan: "calm t (snd (remove_orphan ino t))"
  by (auto simp: remove_orphan_def calm_del Let_def intro: calm_trans [OF calm_del(1,2)] split: option.split)

lemma calm_evict: "calm t (snd (evict_if_safe ino t))"
  by (auto simp: evict_if_safe_def remove_child_by_ino_def open_count_def intro!: calm_trans [OF calm_trans [OF calm_del(1,2)] calm_upd]
      split: option.split)

section \<open>Preservation\<close>

lemma counted_calm:
  assumes c: "counted D s" and "calm (io_table s) (io_table s')" and f: "io_files s' = io_files s" "io_next_fh s' = io_next_fh s"
  shows "counted D s'"
  unfolding counted_def
proof (intro conjI allI impI)
  have h: "handles_of s' ino = handles_of s ino" for ino by (simp add: handles_of_def f)
  note n = calm_next [OF assms(2)]
  show "finite (dom (io_files s'))" using c by (simp add: f counted_def)
  show "fh < io_next_fh s'" "of_ino x < t_next_inode (io_table s')" if "io_files s' fh = Some x" for fh x
    using c that n unfolding counted_def f by (metis less_le_trans)+
  show "D ino = 0" if "t_next_inode (io_table s') \<le> ino" for ino
    using c that n unfolding counted_def by (meson le_trans)
  show "i < t_next_inode (io_table s')" if "t_paths (io_table s') p = Some i" for p i
    using calm_paths [OF assms(2) that] c n unfolding counted_def by (metis less_le_trans)
  fix ino e' assume e': "t_inodes (io_table s') ino = Some e' \<and> e_kind e' = File"
  consider e where "t_inodes (io_table s) ino = Some e" "e_kind e = File" "open_count e' = open_count e"
    | "t_next_inode (io_table s) \<le> ino" "ino < t_next_inode (io_table s')" "open_count e' = 0"
    using calmD [OF assms(2), of ino e'] e' by auto
  then have "ino < t_next_inode (io_table s') \<and> open_count e' = wrap32 (card (handles_of s ino) + D ino)"
  proof cases
    case 1
    then show ?thesis using c n unfolding counted_def by (metis less_le_trans)
  next
    case 2
    then have "handles_of s ino = {}" using c unfolding counted_def handles_of_def by fastforce
    then show ?thesis using 2 c by (simp add: counted_def wrap32_def)
  qed
  then show "ino < t_next_inode (io_table s')" "open_count e' = wrap32 (card (handles_of s' ino) + D ino)" by (simp_all add: h)
qed

text \<open>A new handle, and a handle taken out.\<close>

lemma counted_alloc:
  assumes "counted D s" and "room s"
  shows "counted D (s\<lparr>io_next_fh := wrap64 (Suc (io_next_fh s))\<rparr>)" and "io_files s (io_next_fh s) = None"
    and "io_next_fh s < wrap64 (Suc (io_next_fh s))"
proof -
  have "wrap64 (Suc (io_next_fh s)) = Suc (io_next_fh s)" using assms(2) by (simp add: room_def Suc_le_eq)
  then show "counted D (s\<lparr>io_next_fh := wrap64 (Suc (io_next_fh s))\<rparr>)" "io_next_fh s < wrap64 (Suc (io_next_fh s))"
    using assms(1) by (auto simp: counted_def handles_of_def io_table_def intro: less_SucI)
  show "io_files s (io_next_fh s) = None" using assms(1) unfolding counted_def by (metis less_irrefl not_None_eq)
qed

lemma counted_insert:
  assumes c: "counted D s" and "ino < t_next_inode (io_table s)" and fresh: "io_files s fh = None" "fh < io_next_fh s" and "of_ino f = ino"
  shows "counted D (insert_handle fh f (upd_io_table (bump_open_handles ino) s))" (is "counted D ?s")
proof -
  have t: "io_table ?s = bump_open_handles ino (io_table s)" "io_files ?s = (io_files s)(fh \<mapsto> f)" "io_next_fh ?s = io_next_fh s"
    by (simp_all add: insert_handle_def upd_io_table_def upd_vfs_def upd_table_def io_table_def)
  have nx: "t_next_inode (bump_open_handles ino (io_table s)) = t_next_inode (io_table s)" "t_paths (bump_open_handles ino (io_table s)) = t_paths (io_table s)"
    by (simp_all add: bump_open_handles_def upd_eviction_def upd_inode_def)
  have fin: "finite (handles_of s j)" for j
    using c unfolding counted_def handles_of_def by (auto elim!: finite_subset [rotated] simp: dom_def)
  have h: "handles_of ?s j = (if j = ino then insert fh (handles_of s j) else handles_of s j)" for j
    using assms(5) fresh unfolding handles_of_def t by auto
  have nin: "fh \<notin> handles_of s j" for j using fresh by (simp add: handles_of_def)
  show ?thesis
    unfolding counted_def t nx
  proof (intro conjI allI impI)
    show "finite (dom ((io_files s)(fh \<mapsto> f)))" using c by (simp add: counted_def)
    show "g < io_next_fh s" "of_ino x < t_next_inode (io_table s)" if "((io_files s)(fh \<mapsto> f)) g = Some x" for g x
      using that c assms(2,5) fresh unfolding counted_def by (auto split: if_splits)
    show "D j = 0" if "t_next_inode (io_table s) \<le> j" for j using that c by (simp add: counted_def)
    show "j < t_next_inode (io_table s)" if "t_paths (io_table s) p = Some j" for p j using that c by (simp add: counted_def)
    fix j e' assume "t_inodes (bump_open_handles ino (io_table s)) j = Some e' \<and> e_kind e' = File"
    then obtain e where e: "t_inodes (io_table s) j = Some e" "e_kind e = File"
      "open_count e' = (if j = ino then wrap32 (open_count e + 1) else open_count e)"
      by (auto simp: bump_open_handles_def upd_eviction_def upd_inode_def open_count_def split: if_splits)
    then have "j < t_next_inode (io_table s)" "open_count e = wrap32 (card (handles_of s j) + D j)" using c unfolding counted_def by blast+
    then show "j < t_next_inode (io_table s)" "open_count e' = wrap32 (card (handles_of ?s j) + D j)"
      using e(3) fin nin by (simp_all add: h wrap32_def mod_simps)
  qed
qed

text \<open>Taking a handle out moves it to the closes in progress; giving it back takes it from there.\<close>

lemma counted_removed:
  assumes c: "counted D s" and f: "io_files s fh = Some f"
  shows "counted (D(of_ino f := D (of_ino f) + 1)) (s\<lparr>io_files := (io_files s)(fh := None)\<rparr>)" (is "counted ?D ?s")
proof -
  have fin: "finite (handles_of s j)" for j
    using c unfolding counted_def handles_of_def by (auto elim!: finite_subset [rotated] simp: dom_def)
  have h: "handles_of ?s j = (if j = of_ino f then handles_of s j - {fh} else handles_of s j)" for j
    using f by (auto simp: handles_of_def)
  have m: "fh \<in> handles_of s (of_ino f)" using f by (simp add: handles_of_def)
  have "card (handles_of ?s j) + ?D j = card (handles_of s j) + D j" for j
    using card.remove [OF fin m] by (cases "j = of_ino f") (auto simp: h)
  moreover have "of_ino f < t_next_inode (io_table s)" using c f unfolding counted_def by blast
  ultimately show ?thesis using c unfolding counted_def by (auto simp: io_table_def split: if_splits)
qed

lemma counted_dropped:
  assumes c: "counted (D(ino := D ino + 1)) s"
  shows "counted D (upd_io_table (drop_open_handles ino) s)" (is "counted D ?s")
proof -
  have t: "io_table ?s = drop_open_handles ino (io_table s)" "io_files ?s = io_files s" "io_next_fh ?s = io_next_fh s"
    by (simp_all add: upd_io_table_def upd_vfs_def upd_table_def io_table_def)
  have nx: "t_next_inode (drop_open_handles ino (io_table s)) = t_next_inode (io_table s)" "t_paths (drop_open_handles ino (io_table s)) = t_paths (io_table s)"
    by (simp_all add: drop_open_handles_def upd_eviction_def upd_inode_def)
  have h: "handles_of ?s j = handles_of s j" for j by (simp add: handles_of_def t)
  show ?thesis
    unfolding counted_def t nx
  proof (intro conjI allI impI)
    show "D j = 0" if "t_next_inode (io_table s) \<le> j" for j
      using that c unfolding counted_def by (metis add_is_0 fun_upd_apply)
    fix j e' assume "t_inodes (drop_open_handles ino (io_table s)) j = Some e' \<and> e_kind e' = File"
    then obtain e where e: "t_inodes (io_table s) j = Some e" "e_kind e = File"
      "open_count e' = (if j = ino then wrap32 (open_count e + (2 ^ 32 - 1)) else open_count e)"
      by (auto simp: drop_open_handles_def upd_eviction_def upd_inode_def open_count_def split: if_splits)
    then have j: "j < t_next_inode (io_table s)" "open_count e = wrap32 (card (handles_of s j) + (D(ino := D ino + 1)) j)" using c unfolding counted_def by blast+
    have "((n + 1) mod 2 ^ 32 + (2 ^ 32 - 1)) mod 2 ^ 32 = n mod (2 ^ 32 :: nat)" for n
    proof -
      have "((n + 1) mod 2 ^ 32 + (2 ^ 32 - 1)) mod 2 ^ 32 = (n + 1 + (2 ^ 32 - 1)) mod (2 ^ 32 :: nat)" by (rule mod_add_left_eq)
      also have "n + 1 + (2 ^ 32 - 1) = n + 2 ^ 32" by simp
      finally show ?thesis by simp
    qed
    from this [of "card (handles_of s ino) + D ino"]
    show "j < t_next_inode (io_table s)" "open_count e' = wrap32 (card (handles_of ?s j) + D j)"
      using e(3) j by (auto simp: h wrap32_def)
  qed (use c in \<open>auto simp: counted_def\<close>)
qed

subsection \<open>Handlers\<close>

text \<open>\<open>yields Q m\<close>: if the handler returns, \<open>Q\<close> holds of the state it leaves.\<close>

definition yields :: "(io_state \<Rightarrow> bool) \<Rightarrow> 'a io_result \<Rightarrow> bool" where
  "yields Q m \<longleftrightarrow> (\<forall>r s'. m = Some (r, s') \<longrightarrow> Q s')"

text \<open>Between the steps of a handler also the room for one more handle is kept, and the inode counter
  stays at or above a bound (\<open>Above\<close>), in \<open>Within\<close> also with room for one more inode.\<close>

datatype inode_bound = Above nat | Within nat

fun meets_bound :: "nat \<Rightarrow> inode_bound \<Rightarrow> bool" where
  "meets_bound n (Above k) \<longleftrightarrow> k \<le> n"
| "meets_bound n (Within k) \<longleftrightarrow> k \<le> n \<and> n < u64_max"

definition steady :: "inode_bound \<Rightarrow> (nat \<Rightarrow> nat) \<Rightarrow> io_state \<Rightarrow> bool" where
  "steady N D s \<longleftrightarrow> counted D s \<and> room s \<and> meets_bound (t_next_inode (io_table s)) N"

named_theorems yields_intros

lemma yields_ok [yields_intros]: "Q s \<Longrightarrow> yields Q (ok_with a s)" "Q s \<Longrightarrow> yields Q (fail_with e s)" "yields Q None"
  by (simp_all add: yields_def ok_with_def fail_with_def)

lemma yields_and_then:
  assumes "yields P m" and "\<And>a s. P s \<Longrightarrow> yields Q (f a s)" and "\<And>s. P s \<Longrightarrow> Q s"
  shows "yields Q (and_then m f)"
  using assms unfolding yields_def and_then_def by (auto split: option.splits prod.splits sum.splits)

lemma yields_mono: "yields P m \<Longrightarrow> (\<And>s. P s \<Longrightarrow> Q s) \<Longrightarrow> yields Q m"
  by (auto simp: yields_def)

lemma yields_or_eio [yields_intros]: "yields Q m \<Longrightarrow> yields Q (or_eio m)"
  by (auto simp: yields_def or_eio_def)

lemma yields_ensure [yields_intros]: "Q s \<Longrightarrow> yields Q (ensure b e s)" "Q s \<Longrightarrow> yields Q (io_get ino er s)" "Q s \<Longrightarrow> yields Q (get_file_entry ino s)"
  "Q s \<Longrightarrow> yields Q (some_or er x s)" "Q s \<Longrightarrow> yields Q (guard_name n s)" "Q s \<Longrightarrow> yields Q (io_attr ino er s)"
  by (simp_all add: yields_def ensure_def io_get_def get_file_entry_def some_or_def guard_name_def io_attr_def ok_with_def fail_with_def split: option.split)

text \<open>Changes of the state that do not touch handles, counts or counters.\<close>

definition mild :: "(io_state \<Rightarrow> io_state) \<Rightarrow> bool" where
  "mild f \<longleftrightarrow> (\<forall>s. calm (io_table s) (io_table (f s)) \<and> t_next_inode (io_table (f s)) = t_next_inode (io_table s) \<and>
     io_files (f s) = io_files s \<and> io_next_fh (f s) = io_next_fh s)"

lemma mildD: "mild f \<Longrightarrow> counted D s \<Longrightarrow> counted D (f s)" "mild f \<Longrightarrow> steady N D s \<Longrightarrow> steady N D (f s)"
  using counted_calm [of D s "f s"] by (auto simp: mild_def steady_def room_def)

lemma mild_table: "(\<And>t. calm t (g t) \<and> t_next_inode (g t) = t_next_inode t) \<Longrightarrow> mild (upd_io_table g)"
  by (simp add: mild_def upd_io_table_def upd_vfs_def upd_table_def io_table_def)

lemma mild_upd_entry: "(\<And>e. e_kind (f e) = e_kind e \<and> open_count (f e) = open_count e) \<Longrightarrow> mild (upd_entry ino f)"
  unfolding upd_entry_def by (intro mild_table conjI calm_upd) (auto simp: upd_inode_def)

lemma mild_vfs: "(\<And>v. v_table (f v) = v_table v) \<Longrightarrow> mild (upd_vfs f)"
  by (simp add: mild_def upd_vfs_def io_table_def)

lemma mild_chan: "mild (upd_chan c f)" "mild (set_commit_state c st)" "mild (send_data c d)" "mild (account_write c n)" "mild (send_finish c)"
  "mild (commit_flip c)" "mild (commit_refused c info)" "mild (\<lambda>s. snd (take_pending c s))"
  by (simp_all add: mild_def upd_chan_def set_commit_state_def send_data_def account_write_def send_finish_def commit_flip_def
      commit_refused_def take_pending_def io_table_def)

lemma mild_hooks: "mild (fulfill_commit_hook i c r)" "mild (install_commit_hook i c)" "mild (defer_commit i c)" "mild (settle_flush i c r)"
  "mild (supersede i a)"
proof -
  have f: "mild (fulfill_commit_hook i c r)" for c r
    by (simp add: mild_def fulfill_commit_hook_def upd_chan_def Let_def io_table_def split: option.split)
  have p: "mild (put_hook i c)" by (simp add: mild_def put_hook_def upd_chan_def Let_def io_table_def)
  have i: "mild (install_commit_hook i c)"
    using f [of c] p unfolding mild_def install_commit_hook_def by (auto split: option.split intro: calm_trans)
  show "mild (fulfill_commit_hook i c r)" "mild (install_commit_hook i c)" by (rule f i)+
  show "mild (defer_commit i c)" using i mild_chan(1) unfolding mild_def defer_commit_def by (auto intro: calm_trans)
  show "mild (settle_flush i c r)" using f mild_chan(2) unfolding mild_def settle_flush_def by (auto split: sum.split intro: calm_trans)
  show "mild (supersede i a)" using f mild_chan(2) unfolding mild_def supersede_def by (auto split: option.split intro: calm_trans)
qed

lemma mild_staging: "mild (upd_staging_dir f)" "mild (put_staged ino n)" "mild (io_unlock ino)" "mild (enqueue_flush ino)" "mild (forget_missing path)"
  by (simp_all add: upd_staging_dir_def put_staged_def io_unlock_def enqueue_flush_def forget_missing_def mild_vfs upd_flush_def negative_cache_remove_def)

lemma mild_comp: "mild f \<Longrightarrow> mild g \<Longrightarrow> mild (\<lambda>s. f (g s))"
  unfolding mild_def by (auto intro: calm_trans)

lemma mild_id: "mild (\<lambda>s. s)"
  by (simp add: mild_def)

lemma kept_by_touch: "mild (upd_io_table (touch i))"
proof (rule mild_table)
  show "calm t (touch i t) \<and> t_next_inode (touch i t) = t_next_inode t" for t
    using calm_touch(1) by (simp add: touch_def upd_eviction_def upd_inode_def split: option.split)
qed

lemma open_count_kept [simp]: "e_kind (set_dirty e) = e_kind e" "open_count (set_dirty e) = open_count e"
  "open_count (e\<lparr>e_staging_is_current := b\<rparr>) = open_count e" "open_count (e\<lparr>e_size := n\<rparr>) = open_count e"
  "open_count (e\<lparr>e_xet_hash := h\<rparr>) = open_count e" "open_count (e\<lparr>e_cipher_size := x\<rparr>) = open_count e"
  "open_count (e\<lparr>e_mtime := n\<rparr>) = open_count e" "open_count (e\<lparr>e_ctime := n\<rparr>) = open_count e"
  "e_kind (apply_commit hash sz g now e) = e_kind e" "open_count (apply_commit hash sz g now e) = open_count e"
  "e_kind (mark_opened now b e) = e_kind e" "open_count (mark_opened now b e) = open_count e"
  "e_kind (mark_opened_encrypted now b e) = e_kind e" "open_count (mark_opened_encrypted now b e) = open_count e"
  "e_kind (truncate_mark now n e) = e_kind e" "open_count (truncate_mark now n e) = open_count e"
  "e_kind (change_entry now a e) = e_kind e" "open_count (change_entry now a e) = open_count e"
  by (simp_all add: open_count_def set_dirty_def apply_commit_def clear_dirty_if_def Let_def mark_opened_def mark_opened_encrypted_def
      truncate_mark_def change_entry_def)

lemma mild_commit_apply: "mild (commit_apply i c info sz now)"
proof -
  have "mild (\<lambda>s. set_commit_state c Committed (upd_io_table (upd_inode i (apply_commit h sz g now)) s))" for h g
    by (rule mild_comp [OF mild_chan(2) mild_upd_entry [unfolded upd_entry_def]]) simp
  then show ?thesis unfolding commit_apply_def mild_def by blast
qed

lemma mild_start_stream: "mild (start_stream i c)"
proof -
  have "mild (\<lambda>s. upd_chan c f (upd_io_table (upd_inode i (\<lambda>e. (set_dirty e)\<lparr>e_size := 0, e_xet_hash := None\<rparr>)) s))" for f
    by (rule mild_comp [OF mild_chan(1) mild_upd_entry [unfolded upd_entry_def]]) simp
  then show ?thesis unfolding start_stream_def mild_def by (auto split: option.split)
qed

lemma mild_note_write: "mild (note_local_write ino n)" "mild (grow_file file n)"
proof -
  have d: "mild (upd_entry ino set_dirty)" by (rule mild_upd_entry) simp
  have z: "mild (upd_entry ino (\<lambda>e. e\<lparr>e_size := n\<rparr>))" by (rule mild_upd_entry) simp
  have "mild (\<lambda>s. upd_io_table (touch ino) (upd_entry ino set_dirty (upd_entry ino (\<lambda>e. e\<lparr>e_size := n\<rparr>) (upd_staging_dir f s))))" for f
    by (intro mild_comp [OF kept_by_touch] mild_comp [OF d] mild_comp [OF z] mild_staging)
  moreover have "mild (\<lambda>s. upd_io_table (touch ino) (upd_entry ino set_dirty s))" by (rule mild_comp [OF kept_by_touch d])
  ultimately show "mild (note_local_write ino n)"
    using kept_by_touch [of ino] unfolding note_local_write_def mild_def by (auto split: option.split)
  show "mild (grow_file file n)"
    using mild_staging(2) unfolding grow_file_def mild_def by (auto split: backing.split)
qed

section \<open>The environment\<close>

text \<open>
  While an operation waits, other operations run.  Each wait leaves the handles counted as they were,
  with the same closes in progress \<open>D\<close>, and handle and inode numbers do not run out.
\<close>

definition fair_env :: "file_env \<Rightarrow> bool" where
  "fair_env en \<longleftrightarrow>
    (\<forall>N D s. steady N D s \<longrightarrow>
     (\<forall>ops. steady N D (snd (x_hub (y_io en) ops s))) \<and> (\<forall>i. steady N D (x_lock (y_io en) i s)) \<and>
     (\<forall>h. steady N D (snd (x_await (y_io en) h s))) \<and> steady N D (snd (x_new_writer (y_io en) s)) \<and>
     (\<forall>c. steady N D (x_slot (y_io en) c s)) \<and> (\<forall>c. steady N D (snd (x_reply (y_io en) c s))) \<and> steady N D (x_sleep (y_io en) s) \<and>
     (\<forall>i. steady N D (snd (y_load en i s))) \<and> (\<forall>h n i. steady N D (snd (y_download en h n i s))) \<and>
     (\<forall>p. steady N D (snd (y_http en p s))) \<and> (\<forall>h. steady N D (snd (y_cached en h s))))"

lemma fairD:
  assumes "fair_env en" and "steady N D s"
  shows "steady N D (snd (x_hub (y_io en) ops s))" "steady N D (x_lock (y_io en) i s)" "steady N D (snd (x_await (y_io en) h s))"
    "steady N D (snd (x_new_writer (y_io en) s))" "steady N D (x_slot (y_io en) c s)" "steady N D (snd (x_reply (y_io en) c s))"
    "steady N D (x_sleep (y_io en) s)" "steady N D (snd (y_load en i s))" "steady N D (snd (y_download en hash n i s))"
    "steady N D (snd (y_http en p s))" "steady N D (snd (y_cached en hash s))"
  using assms unfolding fair_env_def by blast+

lemma steady_counted: "steady N D s \<Longrightarrow> counted D s"
  by (simp add: steady_def)

lemma yields_if [yields_intros]:
  "(b \<Longrightarrow> yields Q x) \<Longrightarrow> (\<not> b \<Longrightarrow> yields Q y) \<Longrightarrow> yields Q (if b then x else y)"
  "(b \<Longrightarrow> yields Q x) \<Longrightarrow> (\<not> b \<Longrightarrow> yields Q y) \<Longrightarrow> yields Q (case b of True \<Rightarrow> x | False \<Rightarrow> y)"
  by (simp_all split: bool.split)

lemma yields_option [yields_intros]:
  "yields Q x \<Longrightarrow> (\<And>a. yields Q (f a)) \<Longrightarrow> yields Q (case opt of None \<Rightarrow> x | Some a \<Rightarrow> f a)"
  by (simp split: option.split)

lemma yields_sum [yields_intros]:
  "(\<And>a. yields Q (f a)) \<Longrightarrow> (\<And>b. yields Q (g b)) \<Longrightarrow> yields Q (case x of Inl a \<Rightarrow> f a | Inr b \<Rightarrow> g b)"
  by (simp split: sum.split)

lemma yields_answer:
  "steady N D (snd p) \<Longrightarrow> (\<And>a s. steady N D s \<Longrightarrow> yields Q (f a s)) \<Longrightarrow> yields Q (case p of (a, s) \<Rightarrow> f a s)"
  by (cases p) simp

lemma steady_lock: "fair_env en \<Longrightarrow> steady N D s \<Longrightarrow> steady N D (io_lock (y_io en) ino s)"
  unfolding io_lock_def by (intro fairD(2) mildD(2) [OF mild_vfs]) simp_all

lemma yields_with_lock:
  assumes "fair_env en" and "steady N D s" and "\<And>s. steady N D s \<Longrightarrow> yields (counted D) (f s)"
  shows "yields (counted D) (with_lock en ino f s)"
  using assms(3) [OF steady_lock [OF assms(1,2), of ino]] mildD(1) [OF mild_staging(3)]
  unfolding with_lock_def yields_def by auto

lemma yields_with_lock_steady:
  assumes "fair_env en" and "steady N D s" and "\<And>s. steady N D s \<Longrightarrow> yields (steady N D) (f s)"
  shows "yields (steady N D) (with_lock en ino f s)"
  using assms(3) [OF steady_lock [OF assms(1,2), of ino]] mildD(2) [OF mild_staging(3)]
  unfolding with_lock_def yields_def by auto

lemma yields_then:
  "yields (steady N D) m \<Longrightarrow> (\<And>a s. steady N D s \<Longrightarrow> yields (counted D) (f a s)) \<Longrightarrow> yields (counted D) (and_then m f)"
  by (rule yields_and_then [where P = "steady N D"]) (auto intro: steady_counted)

lemma yields_then_steady:
  "yields (steady N D) m \<Longrightarrow> (\<And>a s. steady N D s \<Longrightarrow> yields (steady N D) (f a s)) \<Longrightarrow> yields (steady N D) (and_then m f)"
  by (rule yields_and_then [where P = "steady N D"]) auto

section \<open>Commits\<close>

lemma steady_commit:
  assumes "fair_env en" and "steady N D s"
  shows "yields (steady N D) (streaming_commit (y_io en) i c s)"
proof -
  have hub: "yields (steady N D) (commit_to_hub (y_io en) i c info s)" if "steady N D s" for info s
    unfolding commit_to_hub_def
    by (intro yields_intros yields_answer [where N = N and D = D]) (auto intro: that fairD(1) [OF assms(1)] mildD(2) [OF mild_chan(7)] mildD(2) [OF mild_commit_apply]
        simp: yields_def split: option.split)
  have up: "steady N D (snd (finish_upload (y_io en) c s))" if "steady N D s" for s
  proof -
    have "steady N D (send_finish c (x_slot (y_io en) c s))" by (intro mildD(2) [OF mild_chan(5)] fairD(5) [OF assms(1)] that)
    from fairD(6) [OF assms(1) this, of c] fairD(5) [OF assms(1) that, of c] show ?thesis
      by (auto simp: finish_upload_def Let_def split: prod.splits option.splits sum.splits)
  qed
  have "steady N D (snd (take_pending c (commit_flip c s)))"
    by (intro mildD(2) [OF mild_chan(8)] mildD(2) [OF mild_chan(6)] assms(2))
  then show ?thesis
    unfolding streaming_commit_def using assms(2) hub up
    by (auto simp: yields_def split: if_splits prod.splits option.splits sum.splits)
      (metis snd_conv)+
qed

lemma steady_commit_now:
  assumes "fair_env en" and "steady N D s"
  shows "yields (steady N D) (commit_streaming_now (y_io en) i c s)"
proof -
  let ?s = "io_lock (y_io en) i s"
  have l: "steady N D ?s" by (rule steady_lock [OF assms])
  have u: "steady N D (io_unlock i s)" if "steady N D s" for s by (rule mildD(2) [OF mild_staging(3) that])
  have "yields (steady N D) (streaming_commit (y_io en) i c (install_commit_hook i c ?s))"
    by (rule steady_commit [OF assms(1) mildD(2) [OF mild_hooks(2) l]])
  then show ?thesis
    using u [OF l] u mildD(2) [OF mild_hooks(4)]
    by (auto simp: commit_streaming_now_def Let_def yields_def split: option.split)
qed

lemma steady_stream_flush:
  assumes "fair_env en" and "steady N D s"
  shows "yields (steady N D) (stream_flush (y_io en) i c pid s)"
  using steady_commit_now [OF assms] assms(2) mildD(2) [OF mild_hooks(3) assms(2)]
  by (auto simp: stream_flush_def yields_def split: option.split)

lemma steady_calm_table:
  assumes "steady N D s" and "calm (io_table s) t" and "t_next_inode t = t_next_inode (io_table s)"
  shows "steady N D (upd_io_table (\<lambda>_. t) s)"
  using assms counted_calm [of D s "upd_io_table (\<lambda>_. t) s"]
  by (simp add: steady_def room_def upd_io_table_def upd_vfs_def upd_table_def io_table_def)

lemma remove_sweep_next:
  assumes "remove_sweep st t = Some t'"
  shows "t_next_inode t' = t_next_inode t"
proof (rule remove_sweep.raw_induct [where P = "\<lambda>st t t'. t_next_inode t' = t_next_inode t", OF _ assms])
  fix f st t t'
  assume IH: "\<And>st t t'. f st t = Some t' \<Longrightarrow> t_next_inode t' = t_next_inode t"
    and eq: "(case st of [] \<Rightarrow> Some t
      | i # rest \<Rightarrow> (case t_inodes t i of None \<Rightarrow> f rest t
          | Some child \<Rightarrow> f (rev (map c_ino (e_children child)) @ rest) (remove_path (e_full_path child) (del_inode i t)))) = Some t'"
  show "t_next_inode t' = t_next_inode t"
    using eq by (auto dest!: IH simp: remove_path_def del_inode_def split: list.splits option.splits)
qed

lemma remove_inode_next: "remove_inode ino t = Some (r, t') \<Longrightarrow> t_next_inode t' = t_next_inode t"
  by (auto simp: remove_inode_def detach_from_parent_def upd_inode_def remove_path_def del_inode_def split: option.splits dest!: remove_sweep_next)

lemma steady_revert:
  assumes "steady N D s" and "revert_inode ino sn (io_table s) = Some t"
  shows "steady N D (upd_io_table (\<lambda>_. t) s)"
proof (rule steady_calm_table [OF assms(1)])
  have "calm t0 (upd_inode ino (\<lambda>e. e\<lparr>e_xet_hash := a, e_size := b, e_mtime := c, e_pending_deletes := d, e_dirty_generation := 0\<rparr>) t0)" for t0 a b c d
    by (rule calm_upd) (simp add: open_count_def)
  then show "calm (io_table s) t" "t_next_inode t = t_next_inode (io_table s)"
    using assms(2) calm_remove_inode remove_inode_next by (fastforce simp: revert_inode_def upd_inode_def split: if_splits)+
qed

lemma steady_settle_release:
  assumes "steady N D s" and "settle_release i c r s = Some s'"
  shows "steady N D s'"
  using assms steady_revert [OF assms(1)] mildD(2) [OF mild_hooks(1)] mildD(2) [OF mild_chan(2)]
  by (auto simp: settle_release_def split: sum.splits)

lemma steady_release_commit:
  assumes "fair_env en" and "steady N D s" and r: "release_commit (y_io en) i c s = Some (er, s')"
  shows "steady N D s'"
proof -
  let ?s = "io_lock (y_io en) i s"
  have l: "steady N D ?s" by (rule steady_lock [OF assms(1,2)])
  have u: "steady N D (io_unlock i s)" if "steady N D s" for s by (rule mildD(2) [OF mild_staging(3) that])
  have sc: "steady N D s2" if "streaming_commit (y_io en) i c s1 = Some (r, s2)" "steady N D s1" for r s1 s2
    using steady_commit [OF assms(1) that(2)] that(1) unfolding yields_def by blast
  show ?thesis
  proof (cases "channel_is_terminal (io_chans ?s c)")
    case True
    then show ?thesis using r u [OF l] by (simp add: release_commit_def Let_def)
  next
    case False
    then obtain r2 s2 r3 s3 s4 where 1: "streaming_commit (y_io en) i c ?s = Some (r2, s2)"
      and 2: "(if r2 \<noteq> Inr () \<and> ch_pending_info (io_chans s2 c) \<noteq> None then streaming_commit (y_io en) i c (x_sleep (y_io en) s2) else Some (r2, s2)) = Some (r3, s3)"
      and 3: "settle_release i c r3 s3 = Some s4" "s' = io_unlock i s4"
      using r by (auto simp: release_commit_def Let_def bind_eq_Some_conv split del: if_split)
    have "steady N D s2" by (rule sc [OF 1 l])
    then have "steady N D s3" using 2 sc fairD(7) [OF assms(1)] by (auto split: if_splits)
    then show ?thesis using 3 u steady_settle_release by blast
  qed
qed

section \<open>Closing\<close>

lemma counted_reap:
  assumes "counted D s"
  shows "counted D (upd_vfs (reap_on_last_release w ino) s)"
proof (rule counted_calm [OF assms])
  let ?t1 = "snd (remove_orphan ino (io_table s))"
  let ?t2 = "snd (take_evict_pending ino ?t1)"
  have "calm (io_table s) ?t2" by (rule calm_trans [OF calm_remove_orphan calm_touch(3)])
  moreover have "v_table (reap_on_last_release w ino v) =
      (if fst (take_evict_pending ino (snd (remove_orphan ino (v_table v)))) then snd (evict_if_safe ino (snd (take_evict_pending ino (snd (remove_orphan ino (v_table v))))))
       else snd (take_evict_pending ino (snd (remove_orphan ino (v_table v)))))" for v
    by (auto simp: reap_on_last_release_def Let_def case_prod_beta drop_staging_def)
  ultimately show "calm (io_table s) (io_table (upd_vfs (reap_on_last_release w ino) s))"
    using calm_trans [OF _ calm_evict] by (simp add: upd_vfs_def io_table_def)
qed (simp_all add: upd_vfs_def)

lemma counted_release:
  assumes "fair_env en" and "steady N D s"
  shows "yields (counted D) (release en fh s)"
proof (cases "io_files s fh")
  case None
  have "s\<lparr>io_files := (io_files s)(fh := None)\<rparr> = s" using None by (simp add: fun_upd_idem)
  then have "release en fh s = ok_with () s" using None by (simp add: release_def release_remove_def)
  then show ?thesis using assms(2) by (simp add: yields_intros steady_counted)
next
  case (Some f)
  let ?D = "D(of_ino f := D (of_ino f) + 1)" and ?s0 = "s\<lparr>io_files := (io_files s)(fh := None)\<rparr>"
  define s1 where "s1 = snd (release_remove fh s)"
  have "steady N ?D ?s0"
    using counted_removed [OF steady_counted [OF assms(2)] Some] assms(2) by (simp add: steady_def room_def io_table_def)
  then have s1: "steady N ?D s1"
    using mildD(2) [OF mild_hooks(2)] by (auto simp: s1_def release_remove_def Let_def split: option.split open_file.split)
  have fin: "counted D (release_finish en (of_ino f) x)" if "steady N ?D x" for x
  proof -
    have d: "counted D (upd_io_table (drop_open_handles (of_ino f)) x)" by (rule counted_dropped [OF steady_counted [OF that]])
    show ?thesis unfolding release_finish_def Let_def
      by (rule mildD(1) [OF mild_vfs]) (use d counted_reap in auto)
  qed
  have rr: "release_remove fh s = (Some f, s1)" by (simp add: s1_def release_remove_def Some Let_def)
  have m: "steady N ?D x" if "(case f of Local ino _ True _ \<Rightarrow> Some (None, if is_unlinked ino s1 then s1 else enqueue_flush ino s1)
      | Streaming ino c \<Rightarrow> if channel_is_terminal (io_chans s1 c) then Some (None, s1) else release_commit (y_io en) ino c s1
      | _ \<Rightarrow> Some (None, s1)) = Some (er, x)" for er x
    using that s1 mildD(2) [OF mild_staging(4) s1] steady_release_commit [OF assms(1) s1]
    by (auto split: open_file.splits bool.splits if_splits)
  show ?thesis unfolding yields_def release_def rr
    by (auto dest!: m intro: fin)
qed

section \<open>Opening\<close>

lemma insert_handle_table: "insert_handle fh f (upd_io_table g s) = upd_io_table g (insert_handle fh f s)"
  by (simp add: insert_handle_def upd_io_table_def upd_vfs_def)

lemma upd_io_table_twice: "upd_io_table f (upd_io_table g s) = upd_io_table (\<lambda>t. f (g t)) s"
  by (simp add: upd_io_table_def upd_vfs_def upd_table_def)

lemma counted_new_handle:
  assumes "steady (Above (Suc ino)) D s" and "of_ino f = ino"
  shows "counted D (insert_handle (io_next_fh s) f (upd_io_table (bump_open_handles ino) (s\<lparr>io_next_fh := wrap64 (Suc (io_next_fh s))\<rparr>)))"
proof (rule counted_insert)
  have s: "counted D s" "room s" "ino < t_next_inode (io_table s)" using assms(1) by (simp_all add: steady_def)
  note a = counted_alloc [OF s(1,2)]
  show "counted D (s\<lparr>io_next_fh := wrap64 (Suc (io_next_fh s))\<rparr>)" by (rule a(1))
  show "io_files (s\<lparr>io_next_fh := wrap64 (Suc (io_next_fh s))\<rparr>) (io_next_fh s) = None"
    "io_next_fh s < io_next_fh (s\<lparr>io_next_fh := wrap64 (Suc (io_next_fh s))\<rparr>)" using a(2,3) by simp_all
  show "ino < t_next_inode (io_table (s\<lparr>io_next_fh := wrap64 (Suc (io_next_fh s))\<rparr>))" using s(3) by (simp add: io_table_def)
qed (rule assms(2))

lemma counted_install:
  assumes "steady (Above (Suc ino)) D s" and "of_ino f = ino"
  shows "yields (counted D) (install_handle ino f s)"
  using counted_new_handle [OF assms] by (simp add: install_handle_def alloc_file_handle_def yields_def ok_with_def)

lemma counted_install_local:
  assumes "steady (Above (Suc ino)) D s"
  shows "yields (counted D) (install_local_handle ino file w e s)"
proof -
  have "counted D (insert_handle (io_next_fh s) (Local ino file w e) (upd_io_table (bump_open_handles ino) (s\<lparr>io_next_fh := wrap64 (Suc (io_next_fh s))\<rparr>)))"
    by (rule counted_new_handle [OF assms]) simp
  from mildD(1) [OF kept_by_touch [of ino] this] show ?thesis
    by (simp add: install_local_handle_def alloc_file_handle_def yields_def ok_with_def insert_handle_table upd_io_table_twice)
qed

lemma counted_lazy: "steady (Above (Suc ino)) D s \<Longrightarrow> yields (counted D) (open_lazy ino h n b s)"
  unfolding open_lazy_def by (rule counted_install) simp_all

lemma steady_files:
  assumes "steady N D s"
  shows "yields (steady N D) (local_backing_exists en ino path s)" "yields (steady N D) (open_local_backing_file en ino path cr tr s)"
    "yields (steady N D) (open_staged en ino path s)" "yields (steady N D) (create_container en ino s)"
proof -
  have p: "steady N D (put_staged ino n s)" for n by (rule mildD(2) [OF mild_staging(2) assms])
  show "yields (steady N D) (local_backing_exists en ino path s)"
    unfolding local_backing_exists_def by (intro yields_intros assms)
  show "yields (steady N D) (open_local_backing_file en ino path cr tr s)"
    unfolding open_local_backing_file_def by (intro yields_intros assms p) (use assms p in simp)
  show "yields (steady N D) (open_staged en ino path s)" "yields (steady N D) (create_container en ino s)"
    unfolding open_staged_def create_container_def by (intro yields_intros assms p)+
qed

lemma steady_prepare:
  assumes "fair_env en" and "steady N D s"
  shows "yields (steady N D) (prepare_staging en ino path hash sz tr s)"
proof -
  have "mild (upd_entry ino (\<lambda>e. e\<lparr>e_staging_is_current := False\<rparr>))"
    and c: "mild (upd_entry ino (\<lambda>e. if (case e_xet_hash e of None \<Rightarrow> [] | Some h \<Rightarrow> h) = hash then e\<lparr>e_staging_is_current := True\<rparr> else e))"
    by (rule mild_upd_entry; simp)+
  from mildD(2) [OF this(1) assms(2)] have 0: "steady N D (upd_entry ino (\<lambda>e. e\<lparr>e_staging_is_current := False\<rparr>) s)" (is "steady N D ?s") .
  note d = mildD(2) [OF mild_staging(1)] mildD(2) [OF mild_staging(2)] mildD(2) [OF c]
  have "yields (steady N D) (if q then (case io_staging_dir ?s of None \<Rightarrow> None | Some _ \<Rightarrow> (case y_download en hash sz ino ?s of
          (False, s1) \<Rightarrow> fail_with EIO s1 | (True, s1) \<Rightarrow> ok_with sz (put_staged ino sz s1)))
        else and_then (or_eio (open_local_backing_file en ino path True True ?s)) (\<lambda>_ s1. ok_with 0 s1))" for q
    by (intro yields_intros yields_answer [where N = N and D = D] fairD(9) [OF assms(1)] 0 steady_files yields_then_steady d | assumption)+
  then show ?thesis
    unfolding prepare_staging_def Let_def
    by (rule yields_then_steady) (auto intro!: yields_ok d)
qed

lemma counted_open_plain:
  assumes "fair_env en" and "steady (Above (Suc ino)) D s"
  shows "yields (counted D) (open_advanced_plain en ino path hash sz tr s)"
proof -
  have m: "mild (upd_entry ino (mark_opened now tr))" for now by (rule mild_upd_entry) simp
  show ?thesis
    unfolding open_advanced_plain_def
    by (intro yields_then [where N = "Above (Suc ino)"] yields_intros steady_files steady_prepare [OF assms(1)] assms(2) counted_install_local mildD(2) [OF m] | assumption)+
qed

lemma steady_encrypted_staging:
  assumes "fair_env en" and "steady N D s"
  shows "yields (steady N D) (ensure_encrypted_staging en ino fresh s)"
proof -
  have m: "mild (upd_entry ino (\<lambda>e. e\<lparr>e_staging_is_current := True\<rparr>))" by (rule mild_upd_entry) simp
  note d = mildD(2) [OF mild_staging(1)] mildD(2) [OF mild_staging(2)] mildD(2) [OF m]
  show ?thesis
    unfolding ensure_encrypted_staging_def Let_def
    by (intro yields_intros yields_then_steady yields_answer [where N = N and D = D] fairD(9) [OF assms(1)] steady_files assms(2) d | assumption)+
qed

lemma counted_open_encrypted:
  assumes "fair_env en" and "steady (Above (Suc ino)) D s"
  shows "yields (counted D) (open_advanced_write_encrypted en ino path tr s)"
proof -
  have m: "mild (upd_entry ino (mark_opened_encrypted now tr))" for now by (rule mild_upd_entry) simp
  show ?thesis
    unfolding open_advanced_write_encrypted_def
    by (intro yields_intros yields_with_lock [OF assms] yields_then [where N = "Above (Suc ino)"] steady_encrypted_staging [OF assms(1)] steady_files
        steady_counted [OF assms(2)] counted_install mildD(2) [OF m] | assumption | simp)+
qed

lemma counted_open_advanced:
  assumes "fair_env en" and "steady (Above (Suc ino)) D s"
  shows "yields (counted D) (open_advanced_write en ino path hash sz tr s)"
  unfolding open_advanced_write_def
  by (intro yields_if counted_open_encrypted [OF assms] yields_with_lock [OF assms] counted_open_plain [OF assms(1)])

lemma counted_setup:
  assumes "fair_env en" and "steady (Above (Suc ino)) D s" and "setup_streaming_writer (y_io en) pid sn g s = (Inr (fh, c), s')"
  shows "counted D s'" "ino < t_next_inode (io_table s')" "io_files s' fh = None" "fh < io_next_fh s'"
proof -
  obtain s0 where s0: "x_new_writer (y_io en) s = (True, s0)" "alloc_channel pid sn g s0 = (fh, c, s')"
    using assms(3) by (auto simp: setup_streaming_writer_def split: prod.splits bool.splits)
  have "steady (Above (Suc ino)) D s0" using fairD(4) [OF assms(1,2)] s0(1) by simp
  then have s1: "steady (Above (Suc ino)) D (s0\<lparr>io_chans := (io_chans s0)(io_next_chan s0 := new_channel pid sn g), io_next_chan := io_next_chan s0 + 1\<rparr>)" (is "steady _ _ ?s1")
    using counted_calm [of D s0 ?s1] by (simp add: steady_def room_def io_table_def)
  have e: "s' = ?s1\<lparr>io_next_fh := wrap64 (Suc (io_next_fh ?s1))\<rparr>" "fh = io_next_fh ?s1"
    using s0(2) by (auto simp: alloc_channel_def Let_def alloc_file_handle_def)
  have "counted D ?s1" "room ?s1" "ino < t_next_inode (io_table ?s1)" using s1 by (simp_all add: steady_def)
  then show "counted D s'" "ino < t_next_inode (io_table s')" "io_files s' fh = None" "fh < io_next_fh s'"
    unfolding e using counted_alloc [of D ?s1] by (simp_all add: io_table_def)
qed

lemma counted_open_streaming:
  assumes "fair_env en" and "steady (Above (Suc ino)) D s"
  shows "counted D (snd (open_streaming_write (y_io en) ino pid s))"
proof -
  define s1 where "s1 = snd (await_pending_commit (y_io en) ino s)"
  have s1: "steady (Above (Suc ino)) D s1"
    using assms(2) fairD(3) [OF assms] by (auto simp: s1_def await_pending_commit_def split: option.split prod.split bool.split) (metis snd_conv)+
  define s2 where "s2 = io_lock (y_io en) ino s1"
  have s2: "steady (Above (Suc ino)) D s2" unfolding s2_def by (rule steady_lock [OF assms(1) s1])
  define active where "active = streaming_channel_for (x_order (y_io en) s2) ino s2"
  have u: "counted D (io_unlock ino x)" if "counted D x" for x by (rule mildD(1) [OF mild_staging(3) that])
  have ok: "counted D (insert_handle fh (Streaming ino c) (upd_io_table (bump_open_handles ino) (start_stream ino c (supersede ino active s3))))"
    if "setup_streaming_writer (y_io en) pid sn 0 s2 = (Inr (fh, c), s3)" for sn fh c s3
  proof (rule counted_insert)
    note a = counted_setup [OF assms(1) s2 that]
    have m: "mild (\<lambda>s. start_stream ino c (supersede ino active s))" by (rule mild_comp [OF mild_start_stream mild_hooks(5)])
    then show "counted D (start_stream ino c (supersede ino active s3))" by (rule mildD(1) [OF _ a(1)])
    show "ino < t_next_inode (io_table (start_stream ino c (supersede ino active s3)))"
      "io_files (start_stream ino c (supersede ino active s3)) fh = None" "fh < io_next_fh (start_stream ino c (supersede ino active s3))"
      using a m by (simp_all add: mild_def)
  qed simp
  have er: "counted D s3" if "setup_streaming_writer (y_io en) pid sn 0 s2 = (Inl e, s3)" for sn e s3
    using that fairD(4) [OF assms(1) s2] steady_counted
    by (auto simp: setup_streaming_writer_def split: prod.splits bool.splits)
  show ?thesis
  proof (cases "fst (await_pending_commit (y_io en) ino s)")
    case (Inl e)
    then have "snd (open_streaming_write (y_io en) ino pid s) = s1"
      by (auto simp: open_streaming_write_def s1_def split: prod.split sum.split)
    then show ?thesis using steady_counted [OF s1] by simp
  next
    case (Inr x)
    then have w: "await_pending_commit (y_io en) ino s = (Inr (), s1)" by (simp add: s1_def prod_eq_iff)
    show ?thesis
    proof (cases "open_snapshot active ino s2")
      case None
      then show ?thesis using u [OF steady_counted [OF s2]] by (simp add: open_streaming_write_def w Let_def s2_def [symmetric] active_def [symmetric])
    next
      case (Some sn)
      obtain r s3 where r: "setup_streaming_writer (y_io en) pid sn 0 s2 = (r, s3)" by (rule prod.exhaust)
      show ?thesis using u ok er r Some
        by (cases r) (auto simp: open_streaming_write_def w Let_def s2_def [symmetric] active_def [symmetric])
    qed
  qed
qed

lemma counted_open_readonly:
  assumes "fair_env en" and "steady (Above (Suc ino)) D s"
  shows "yields (counted D) (open_readonly en b ino fe s)"
proof -
  have lo: "yields (counted D) (open_local_readonly en ino path fl x s)" if "steady (Above (Suc ino)) D s" for path fl x s
    unfolding open_local_readonly_def by (intro yields_intros counted_install_local that steady_counted [OF that])
  have http: "yields (counted D) (open_http en h ino path s)" if "steady (Above (Suc ino)) D s" for h path s
    unfolding open_http_def
    by (intro yields_intros yields_then [where N = "Above (Suc ino)"] yields_with_lock_steady [OF assms(1)] yields_answer [where N = "Above (Suc ino)" and D = D]
        fairD(10) [OF assms(1)] lo that steady_counted [OF that] | assumption)+
  have rem: "yields (counted D) (open_remote en ino fe s)" if "steady (Above (Suc ino)) D s" for fe s
    unfolding open_remote_def
    by (intro yields_intros yields_answer [where N = "Above (Suc ino)" and D = D] fairD(11) [OF assms(1)] counted_lazy counted_install_local that | assumption)+
  have dis: "yields (counted D) (open_dispatch en h b ino fe s)" if "steady (Above (Suc ino)) D s" for h fe s
    unfolding open_dispatch_def
    by (intro yields_intros yields_then [where N = "Above (Suc ino)"] lo http rem counted_lazy that steady_counted [OF that] | assumption)+
  have ov: "yields (counted D) (open_overlay_dirty en ino fe s)" if "steady (Above (Suc ino)) D s" for fe s
    unfolding open_overlay_dirty_def
    by (intro yields_intros yields_then [where N = "Above (Suc ino)"] steady_files counted_install_local that steady_counted | assumption)+
  have body: "yields (counted D) (open_readonly_body en h b ino fe s)" if "steady (Above (Suc ino)) D s" for h fe s
    unfolding open_readonly_body_def
    by (intro yields_intros yields_then [where N = "Above (Suc ino)"] ov dis that | assumption)+
  show ?thesis
    unfolding open_readonly_def by (intro yields_if yields_with_lock [OF assms] body assms(2) | assumption)+
qed

lemma counted_open:
  assumes "fair_env en" and "steady N D s"
  shows "yields (counted D) (open_file_op en ino w tr pid s)"
proof (cases "\<exists>e. t_inodes (io_table s) ino = Some e \<and> e_kind e = File")
  case False
  then have "get_file_entry ino s = fail_with ENOENT s" by (auto simp: get_file_entry_def split: option.split)
  then have "open_file_op en ino w tr pid s = fail_with (if w \<and> v_read_only (io_vfs s) then EROFS else ENOENT) s"
    by (simp add: open_file_op_def and_then_def fail_with_def)
  then show ?thesis using steady_counted [OF assms(2)] by (simp add: yields_intros)
next
  case True
  then have "ino < t_next_inode (io_table s)" using assms(2) unfolding steady_def counted_def by blast
  then have s: "steady (Above (Suc ino)) D s" using assms(2) by (simp add: steady_def)
  have os: "yields (counted D) (Some (open_streaming_write (y_io en) ino pid s))" if "steady (Above (Suc ino)) D s" for s
    using counted_open_streaming [OF assms(1) that, of pid] by (simp add: yields_def split_paired_all) (metis snd_conv)
  show ?thesis
    unfolding open_file_op_def
    by (intro yields_intros yields_then [where N = "Above (Suc ino)"] counted_open_advanced [OF assms(1)] os counted_open_readonly [OF assms(1)] s steady_counted [OF s] | assumption | erule steady_counted)+
qed

section \<open>Creating, writing, linking\<close>

lemma steady_load:
  assumes "fair_env en" and "steady N D s"
  shows "yields (steady N D) (load_parent en parent s)"
  unfolding load_parent_def
  by (intro yields_answer [where N = N and D = D] fairD(8) [OF assms] yields_sum yields_ok | assumption)+

lemma insert_locked_calm:
  assumes "t_next_inode t < u64_max" and "\<And>e. e_kind (fin e) = e_kind e \<and> open_count (fin e) = open_count e"
  shows "calm t (snd (insert_locked parent name k sz hash mode uid gid now fin t))"
  unfolding insert_locked_def Let_def
  using calm_trans [OF calm_trans [OF calm_insert_inode [OF assms(1)] calm_upd [OF assms(2)]] calm_touch(2)]
  by (auto simp: case_prod_beta split: option.split)

text \<open>The new inode's number is allocated when the table lock is released.\<close>

lemma steady_create_locked:
  assumes "steady (Within k) D s" and "create_locked en parent name mode uid gid s = Some (Inr (ino, path, g), s')"
  shows "steady (Above (Suc ino)) D s'"
proof -
  have c: "counted D s" "t_next_inode (io_table s) < u64_max" using assms(1) by (simp_all add: steady_def)
  obtain t where t: "insert_locked parent name File 0 None mode uid gid (y_now en) set_dirty (io_table s) = (Inr (ino, path), t)"
    "s' = upd_io_table (\<lambda>_. touch ino t) s"
    using assms(2) by (auto simp: create_locked_def ok_with_def fail_with_def split: prod.splits sum.splits)
  have "calm (io_table s) t"
    using insert_locked_calm [OF c(2), of set_dirty parent name File 0 None mode uid gid "y_now en"] t(1) by simp
  then have kt: "calm (io_table s) (touch ino t)" by (rule calm_trans [OF _ calm_touch(1)])
  have s': "io_table s' = touch ino t" "io_files s' = io_files s" "io_next_fh s' = io_next_fh s"
    by (simp_all add: t(2) upd_io_table_def upd_vfs_def upd_table_def io_table_def)
  have "counted D s'" by (rule counted_calm [OF c(1)]) (use kt s' in simp_all)
  obtain r where r: "insert_inode parent name path File 0 (y_now en) None mode uid gid (y_now en) (io_table s) = (ino, r)"
    "t = touch_parent parent (y_now en) (upd_inode ino set_dirty r)"
    using t(1) by (auto simp: insert_locked_def Let_def split: option.splits if_splits prod.splits)
  have "ino < t_next_inode r"
    using r(1) c unfolding counted_def
    by (auto simp: insert_inode_def Let_def upd_inode_def Suc_le_eq split: option.splits)
  then have "ino < t_next_inode (io_table s')"
    by (auto simp: s' r(2) touch_def touch_parent_def upd_eviction_def upd_inode_def split: option.split)
  with \<open>counted D s'\<close> show ?thesis using assms(1) s'(3) by (simp add: steady_def room_def)
qed

lemma steady_undo:
  assumes "steady N D s"
  shows "yields (counted D) (undo_create ino e s)"
proof -
  have "counted D (s\<lparr>io_vfs := v\<rparr>)" if rf: "remove_from ino (io_vfs s) = Some v" for v
  proof -
    obtain r t where t: "remove_inode ino (io_table s) = Some (r, t)" "v = (io_vfs s)\<lparr>v_table := t\<rparr>"
      using rf by (auto simp: remove_from_def io_table_def)
    have "steady N D (upd_io_table (\<lambda>_. t) s)"
      by (rule steady_calm_table [OF assms calm_remove_inode [OF t(1)] remove_inode_next [OF t(1)]])
    then show ?thesis by (simp add: t(2) upd_io_table_def upd_vfs_def upd_table_def steady_def)
  qed
  then show ?thesis by (auto simp: undo_create_def io_remove_def yields_def fail_with_def bind_eq_Some_conv)
qed

lemma bump_missing: "t_inodes t ino = None \<Longrightarrow> bump_open_handles ino t = t"
  by (simp add: bump_open_handles_def upd_eviction_def upd_inode_def fun_upd_idem)

text \<open>A fresh handle whose inode's attributes are read before it is put into the table.\<close>

lemma counted_attr_handle:
  assumes "counted D s" and "ino < t_next_inode (io_table s)" and "io_files s fh = None" "fh < io_next_fh s" and "of_ino f = ino"
  shows "yields (counted D) (and_then (io_attr ino er (upd_io_table (bump_open_handles ino) s)) (\<lambda>attr s. ok_with (attr, fh) (insert_handle fh f s)))"
proof (cases "t_inodes (io_table s) ino")
  case None
  then have "upd_io_table (bump_open_handles ino) s = s"
    by (simp add: upd_io_table_def upd_vfs_def upd_table_def io_table_def bump_missing)
  then show ?thesis using None assms(1) by (simp add: io_attr_def attr_of_def io_table_def and_then_def yields_def)
next
  case (Some e)
  then obtain a where "attr_of (io_vfs (upd_io_table (bump_open_handles ino) s)) ino er = Inr a"
    by (auto simp: attr_of_def upd_io_table_def upd_vfs_def upd_table_def io_table_def bump_open_handles_def upd_eviction_def upd_inode_def)
  then show ?thesis using counted_insert [OF assms] by (simp add: io_attr_def and_then_def yields_def ok_with_def)
qed

lemma yields_attr: "counted D s \<Longrightarrow> yields (counted D) (and_then (io_attr ino er s) (\<lambda>attr s. ok_with (attr, fh) s))"
  by (auto simp: yields_def and_then_def io_attr_def ok_with_def split: sum.splits)

lemma counted_create_encrypted:
  assumes s: "steady (Above (Suc ino)) D s"
  shows "yields (counted D) (create_encrypted en ino path s)"
proof -
  have m: "mild (upd_entry ino (\<lambda>e. e\<lparr>e_cipher_size := Some n\<rparr>))" for n by (rule mild_upd_entry) simp
  have fin: "yields (counted D) (let (fh, s1) = alloc_file_handle s;
         s2 = upd_io_table (bump_open_handles ino) (upd_entry ino (\<lambda>e. e\<lparr>e_cipher_size := Some (ciphertext_size 0)\<rparr>) s1)
         in and_then (io_attr ino ENOENT s2) (\<lambda>attr s3. ok_with (attr, fh) (insert_handle fh (Local ino fl True True) s3)))"
    if s: "steady (Above (Suc ino)) D s" for s fl
  proof -
    have c: "counted D s" "room s" "ino < t_next_inode (io_table s)" using s by (simp_all add: steady_def)
    note a = counted_alloc [OF c(1,2)] and n = m [of "ciphertext_size 0", unfolded mild_def]
    show ?thesis unfolding alloc_file_handle_def Let_def prod.case Suc_eq_plus1 [symmetric]
      by (rule counted_attr_handle) (use a c n mildD(1) [OF m a(1)] in \<open>simp_all add: io_table_def\<close>)
  qed
  show ?thesis
    unfolding create_encrypted_def
    by (intro yields_intros yields_then [where N = "Above (Suc ino)"] steady_files steady_undo [where N = "Above (Suc ino)"] fin s steady_counted [OF s] | assumption)+
qed

lemma counted_create_plain:
  assumes s: "steady (Above (Suc ino)) D s"
  shows "yields (counted D) (create_plain en ino path s)"
proof -
  have inst: "yields (counted D) (and_then (install_handle ino (Local ino fl True False) s) (\<lambda>fh s2.
      and_then (io_attr ino ENOENT s2) (\<lambda>attr s3. ok_with (attr, fh) s3)))" if "steady (Above (Suc ino)) D s" for fl s
    by (rule yields_and_then [where P = "counted D", OF counted_install [OF that]]) (auto intro: yields_attr)
  have "yields (steady (Above (Suc ino)) D) (open_local_backing_file en ino path True True s)" by (rule steady_files(2) [OF s])
  then have o: "steady (Above (Suc ino)) D s1" if "open_local_backing_file en ino path True True s = Some (r, s1)" for r s1
    using that by (simp add: yields_def)
  show ?thesis
  proof (cases "open_local_backing_file en ino path True True s")
    case (Some p)
    then show ?thesis using o [of "fst p" "snd p"] inst steady_undo [where N = "Above (Suc ino)" and D = D]
      by (cases p; cases "fst p") (auto simp: create_plain_def intro: yields_if)
  qed (simp add: create_plain_def yields_intros)
qed

lemma counted_create_streaming:
  assumes "fair_env en" and "steady (Above (Suc ino)) D s"
  shows "yields (counted D) (create_streaming en ino g pid s)"
proof -
  obtain r s1 where r: "setup_streaming_writer (y_io en) pid
      \<lparr>sn_xet_hash = None, sn_size = 0, sn_mtime = y_now en, sn_pending_deletes = [], sn_existed_before = False\<rparr> g s = (r, s1)" (is "?p = _")
    by (rule prod.exhaust)
  have "yields (counted D) (undo_create ino e s1)" if "r = Inl e" for e
  proof (rule steady_undo)
    show "steady (Above (Suc ino)) D s1"
      using fairD(4) [OF assms] r that by (auto simp: setup_streaming_writer_def split: prod.splits bool.splits)
  qed
  moreover have "counted D (insert_handle fh (Streaming ino c) (upd_io_table (bump_open_handles ino) s1))" if "r = Inr (fh, c)" for fh c
    using counted_setup [OF assms r [unfolded that]] by (intro counted_insert) simp_all
  ultimately show ?thesis using r by (cases r) (auto simp: create_streaming_def intro!: yields_attr)
qed

lemma counted_create:
  assumes "fair_env en" and "steady (Within k) D s"
  shows "yields (counted D) (create en parent name mode uid gid pid s)"
proof -
  have rest: "yields (counted D) (and_then (create_locked en parent name mode uid gid s) (\<lambda>(ino, path, gen) s0.
      let s = forget_missing path s0
      in if v_advanced_writes (io_vfs s)
         then (if is_encrypting s then create_encrypted en ino path s else create_plain en ino path s)
         else create_streaming en ino gen pid s))" if s: "steady (Within k) D s" for s
  proof (cases "create_locked en parent name mode uid gid s")
    case (Some p)
    then obtain r s1 where p: "create_locked en parent name mode uid gid s = Some (r, s1)" by (cases p) auto
    show ?thesis
    proof (cases r)
      case (Inl e)
      then have "s1 = s" using p by (auto simp: create_locked_def ok_with_def fail_with_def split: prod.splits sum.splits)
      then show ?thesis using p Inl s by (simp add: and_then_def yields_def steady_def)
    next
      case (Inr a)
      then obtain ino path g where a: "r = Inr (ino, path, g)" by (cases a) auto
      have "steady (Above (Suc ino)) D s1" by (rule steady_create_locked [OF s p [unfolded a]])
      then have "steady (Above (Suc ino)) D (forget_missing path s1)" by (rule mildD(2) [OF mild_staging(5)])
      then show ?thesis unfolding p a
        by (auto simp: and_then_def Let_def intro!: yields_if counted_create_encrypted counted_create_plain counted_create_streaming [OF assms(1)])
    qed
  qed (simp add: and_then_def yields_intros)
  show ?thesis
    unfolding create_def
    by (intro yields_then [where N = "Within k"] yields_intros assms(2) steady_load [OF assms(1)] rest | assumption)+
qed

lemma counted_write:
  assumes "fair_env en" and "steady N D s"
  shows "counted D (snd (write_op en fh off data s))"
proof -
  have dirty: "mild (upd_entry ino set_dirty)" and sz: "mild (upd_entry ino (\<lambda>e. e\<lparr>e_size := n\<rparr>))" for ino n
    by (rule mild_upd_entry; simp)+
  have c: "counted D s" by (rule steady_counted [OF assms(2)])
  note m = mildD(1) [OF dirty] mildD(1) [OF sz] mildD(1) [OF kept_by_touch] mildD(1) [OF mild_staging(1)] mildD(1) [OF mild_staging(2)]
  have "counted D (snd (encrypted_local_write en ino off data s))" for ino
    using c by (auto simp: encrypted_local_write_def Let_def intro!: m split: option.split)
  moreover have "counted D (snd (local_write en ino fl off data s))" for ino fl
    using c mildD(1) [OF mild_note_write(1)] mildD(1) [OF mild_note_write(2)] by (auto simp: local_write_def Let_def split: sum.split)
  moreover have "counted D (snd (stream_write (y_io en) ino x off data s))" for ino x
  proof -
    have "counted D (x_slot (y_io en) x s)" by (rule steady_counted [OF fairD(5) [OF assms]])
    then show ?thesis using c mildD(1) [OF mild_chan(4)] mildD(1) [OF mild_chan(3)] mildD(1) [OF sz [unfolded upd_entry_def]]
      by (auto simp: stream_write_def Let_def split: option.split)
  qed
  ultimately show ?thesis using c by (auto simp: write_op_def split: option.split open_file.split bool.split)
qed

lemma counted_flush:
  assumes "fair_env en" and "steady N D s"
  shows "yields (counted D) (flush_op en ino fh pid s)"
proof -
  have "mild (upd_vfs (\<lambda>v. v\<lparr>v_flush := x\<rparr>))" for x by (rule mild_vfs) simp
  from mildD(1) [OF this steady_counted [OF assms(2)]]
  have f: "counted D (upd_vfs (\<lambda>v. v\<lparr>v_flush := x\<rparr>) s)" for x .
  show ?thesis using f steady_counted [OF assms(2)] yields_mono [OF steady_stream_flush [OF assms] steady_counted]
    by (auto simp: flush_op_def intro!: yields_ok split: option.split open_file.split prod.split)
qed

lemma counted_link:
  assumes "fair_env en" and "steady (Within k) D s"
  shows "yields (counted D) (link_op en ino par name s)"
proof -
  have ins: "yields (counted D) (link_insert now par name path src s)" if s: "steady (Within k) D s" for now path src s
  proof -
    have k: "calm (io_table s) (snd (insert_inode par name path File a now h b d e now (io_table s)))" for a h b d e
      by (rule calm_insert_inode) (use s in \<open>simp add: steady_def\<close>)
    have u: "calm t (upd_inode i (\<lambda>e. e\<lparr>e_cipher_size := x\<rparr>) t)" for t i x by (rule calm_upd) simp
    have w: "counted D (upd_io_table (\<lambda>_. touch j (touch_parent par now t)) s)" if "calm (io_table s) t" for t j
      by (rule counted_calm [OF steady_counted [OF s]])
        (use calm_trans [OF calm_trans [OF that calm_touch(2)] calm_touch(1)] in \<open>simp_all add: upd_io_table_def upd_vfs_def upd_table_def io_table_def\<close>)
    show ?thesis
      using steady_counted [OF s] w [OF k] w [OF calm_trans [OF k u]]
      unfolding link_insert_def
      by (intro yields_and_then [where P = "\<lambda>x. x = s"] yields_intros)
        (auto simp: Let_def case_prod_beta split: option.split intro!: yields_intros)
  qed
  have fm: "steady (Within k) D (forget_missing path s)" if "steady (Within k) D s" for path s
    by (rule mildD(2) [OF mild_staging(5) that])
  have hub: "yields (counted D) (case x_hub (y_io en) ops s of (Some er, s1) \<Rightarrow> fail_with (to_errno er) s1
        | (None, s1) \<Rightarrow> link_insert now par name path src (forget_missing path s1))" if "steady (Within k) D s" for ops now path src s
  proof -
    obtain r s1 where r: "x_hub (y_io en) ops s = (r, s1)" by (rule prod.exhaust)
    then have "steady (Within k) D s1" using fairD(1) [OF assms(1) that, of ops] by simp
    then show ?thesis unfolding r using ins fm by (auto intro!: yields_ok steady_counted split: option.split)
  qed
  have ls: "yields (steady (Within k) D) (link_source ino s)" "yields (steady (Within k) D) (link_target par name s)" if "steady (Within k) D s" for s
    unfolding link_source_def link_target_def by (intro yields_then_steady yields_intros that | assumption)+
  show ?thesis
    unfolding link_op_def
    by (intro yields_intros yields_then [where N = "Within k"] yields_then_steady ls hub steady_load [OF assms(1)] steady_commit_now [OF assms(1)] assms(2)
        steady_counted [OF assms(2)] | assumption)+
qed

lemma counted_setattr:
  assumes "fair_env en" and "steady N D s"
  shows "yields (counted D) (setattr en ino sz a s)"
proof -
  have me: "mild (upd_entry ino (truncate_mark now n))" "mild (upd_entry ino (change_entry now a))"
    "mild (upd_entry ino (\<lambda>e. set_dirty (e\<lparr>e_size := n, e_cipher_size := x, e_mtime := now, e_ctime := now\<rparr>)))" for now n x
    by (rule mild_upd_entry; simp)+
  note d = mildD(2) [OF mild_staging(1)] mildD(2) [OF mild_staging(2)] mildD(2) [OF mild_staging(4)] mildD(2) [OF me(1)] mildD(2) [OF me(2)] mildD(2) [OF me(3)]
  have mat: "yields (steady N D) (materialize en ino path n s)" if "steady N D s" for path n s
    unfolding materialize_def Let_def
    by (intro yields_intros yields_then_steady yields_answer [where N = N and D = D] fairD(9) [OF assms(1)] steady_files that d | assumption)+
  have bk: "steady N D (case file of StagingFile i \<Rightarrow> put_staged i n s | _ \<Rightarrow> s)" if "steady N D s" for "file" n s
    using that d(2) by (simp split: backing.split)
  have if_steady: "steady N D x \<Longrightarrow> steady N D y \<Longrightarrow> steady N D (if b then x else y)" for b x y by simp
  have tl: "yields (steady N D) (truncate_local en ino path n s)" if "steady N D s" for path n s
    unfolding truncate_local_def Let_def
    by (intro yields_intros yields_then_steady steady_files mat bk if_steady that d | assumption)+
  have et: "yields (steady N D) (encrypted_setattr_truncate en ino n s)" if "steady N D s" for n s
    unfolding encrypted_setattr_truncate_def Let_def
    by (intro yields_intros yields_with_lock_steady [OF assms(1)] yields_then_steady steady_encrypted_staging [OF assms(1)] that d | assumption)+
  have ss: "yields (steady N D) (setattr_size en ino n s)" if "steady N D s" for n s
    unfolding setattr_size_def
    by (intro yields_intros yields_then_steady et yields_with_lock_steady [OF assms(1)] tl that d | assumption)+
  have sm: "yields (steady N D) (setattr_meta en ino a s)" if "steady N D s" for s
    unfolding setattr_meta_def
    by (intro yields_intros yields_then_steady steady_files that d | assumption)+
  show ?thesis
    unfolding setattr_def
    by (intro yields_intros yields_then [where N = N] ss sm assms(2) steady_counted [OF assms(2)] | assumption | erule steady_counted)+
qed

section \<open>Every operation\<close>

inductive file_op :: "file_env \<Rightarrow> io_state \<Rightarrow> io_state \<Rightarrow> bool" for en where
  op_open: "open_file_op en ino writable trunc pid s = Some (r, s') \<Longrightarrow> file_op en s s'"
| op_create: "create en parent name mode uid gid pid s = Some (r, s') \<Longrightarrow> file_op en s s'"
| op_write: "write_op en fh off data s = (r, s') \<Longrightarrow> file_op en s s'"
| op_flush: "flush_op en ino fh pid s = Some (r, s') \<Longrightarrow> file_op en s s'"
| op_release: "release en fh s = Some (r, s') \<Longrightarrow> file_op en s s'"
| op_link: "link_op en ino newparent newname s = Some (r, s') \<Longrightarrow> file_op en s s'"
| op_setattr: "setattr en ino sz a s = Some (r, s') \<Longrightarrow> file_op en s s'"

text \<open>
  C10: every operation on open files keeps the handle counts exact, on every branch, also when other
  operations that keep them run while it waits: if the count of each file is the number of handles on it (plus the closes
  in progress), it is so afterwards, so an inode is reported as open exactly when a handle on it exists or a
  close of it is in progress.
\<close>

theorem open_handles_exact:
  assumes "fair_env en" and "counted D s" and "room s" and "t_next_inode (io_table s) < u64_max"
    and "file_op en s s'"
  shows "counted D s' \<and>
    (\<forall>ino e. t_inodes (io_table s') ino = Some e \<and> e_kind e = File \<and> card (handles_of s' ino) + D ino < 2 ^ 32 \<longrightarrow>
      (has_open_handles (io_table s') ino \<longleftrightarrow> handles_of s' ino \<noteq> {} \<or> D ino \<noteq> 0))"
proof -
  have s: "steady (Within 0) D s" using assms(2-4) by (simp add: steady_def)
  note ops = counted_open [OF assms(1) s] counted_create [OF assms(1) s] counted_flush [OF assms(1) s] counted_release [OF assms(1) s]
    counted_link [OF assms(1) s] counted_setattr [OF assms(1) s]
  have w: "counted D s'" if "write_op en fh off data s = (r, s')" for fh off data r
    using counted_write [OF assms(1) s, of fh off data] that by simp
  have c: "counted D s'"
    using assms(5) by cases (use ops w in \<open>auto simp: yields_def\<close>)
  moreover have "has_open_handles (io_table s') ino \<longleftrightarrow> handles_of s' ino \<noteq> {} \<or> D ino \<noteq> 0"
    if e: "t_inodes (io_table s') ino = Some e" "e_kind e = File" "card (handles_of s' ino) + D ino < 2 ^ 32" for ino e
  proof -
    have "finite (handles_of s' ino)"
      using c unfolding counted_def handles_of_def by (auto elim!: finite_subset [rotated] simp: dom_def)
    moreover have "open_count e = card (handles_of s' ino) + D ino" using c e wrap32_id unfolding counted_def by metis
    ultimately show ?thesis using e(1) by (simp add: has_open_handles_def open_count_def card_gt_0_iff)
  qed
  ultimately show ?thesis by blast
qed

text \<open>A mount on which nothing else happens; a first open of its file with truncation.\<close>

definition calm_files :: file_env where
  "calm_files = \<lparr>y_io = calm_env, y_load = (\<lambda>_ s. (Inr False, s)), y_overlay_exists = (\<lambda>_. Inr False), y_overlay_mode = (\<lambda>_. None),
     y_open = (\<lambda>_ _ _. None), y_download = (\<lambda>_ _ _ s. (True, s)), y_http = (\<lambda>_ s. (True, s)), y_cached = (\<lambda>_ s. (False, s)),
     y_has_cache = False, y_pwrite = (\<lambda>_ _ d. Inr (length d)), y_sync = (\<lambda>_. None), y_container = Some 0,
     y_raf_write = (\<lambda>_ _ _. None), y_raf_truncate = (\<lambda>_ _. None)\<rparr>"

lemma calm_files_fair: "fair_env calm_files"
  by (simp add: fair_env_def calm_files_def calm_env_def)

definition quiet :: io_state where
  "quiet = k_io (stream_start (stream_vfs one_file))"

lemma quiet_counted: "counted (\<lambda>_. 0) quiet" "room quiet" "t_next_inode (io_table quiet) < u64_max"
  by (auto simp: counted_def room_def handles_of_def open_count_def quiet_def wrap32_def race_defs eviction_default_def
      add_child_def root_entry_def split: if_splits)

lemma quiet_open: "open_file_op calm_files 2 True True None quiet = Some (open_streaming_write calm_env 2 None quiet)"
  by (simp add: open_file_op_def calm_files_def and_then_def ensure_def get_file_entry_def ok_with_def quiet_def race_defs)

theorem open_handles_exact_witness:
  "has_open_handles (io_table (snd (open_streaming_write calm_env 2 None quiet))) 2 \<and>
   handles_of (snd (open_streaming_write calm_env 2 None quiet)) 2 = {1}"
proof -
  let ?s = "snd (open_streaming_write calm_env 2 None quiet)"
  have "file_op calm_files quiet ?s" using op_open [of calm_files 2 True True None quiet "fst (open_streaming_write calm_env 2 None quiet)"] quiet_open by simp
  note x = open_handles_exact [OF calm_files_fair quiet_counted this]
  have h: "handles_of ?s 2 = {1}" by (auto simp: handles_of_def quiet_def race_defs split: if_splits)
  obtain e where "t_inodes (io_table ?s) 2 = Some e" "e_kind e = File" by (auto simp: quiet_def race_defs)
  with x h show ?thesis by simp
qed

section \<open>A creation that fails\<close>

lemma touch_entry: "t_inodes t j = Some e \<Longrightarrow> \<exists>v. t_inodes (touch i t) j = Some (e\<lparr>e_eviction := v\<rparr>)"
proof -
  assume "t_inodes t j = Some e"
  moreover have "\<exists>v. e = e\<lparr>e_eviction := v\<rparr>" by (rule exI [of _ "e_eviction e"]) simp
  ultimately show ?thesis by (auto simp: touch_def upd_eviction_def upd_inode_def split: option.split)
qed

lemma create_locked_inserts:
  assumes wf: "wf_table (io_table s)" and pe: "t_inodes (io_table s) parent = Some pe" "e_kind pe = Directory"
    and free: "lookup_child (io_table s) parent name = None" "t_paths (io_table s) (child_path (e_full_path pe) name) = None"
  obtains ino g t e pe' where "create_locked en parent name mode uid gid s = Some (Inr (ino, child_path (e_full_path pe) name, g), upd_io_table (\<lambda>_. t) s)"
    "lookup_child t parent name = Some e" "e_kind e = File" "is_dirty e" "t_inodes t parent = Some pe'" "e_kind pe' = Directory"
proof -
  let ?t = "io_table s" and ?now = "y_now en"
  let ?ino = "t_next_inode ?t" and ?path = "child_path (e_full_path pe) name"
  let ?r = "insert_inode parent name ?path File 0 ?now None mode uid gid ?now ?t"
  have ne: "parent \<noteq> ?ino" using wf_tableE [OF wf pe(1)] by (auto simp: wf_entry_def)
  have fst: "fst ?r = ?ino" using free(2) by (simp add: insert_inode_def Let_def)
  define t1 where "t1 = touch_parent parent ?now (upd_inode ?ino set_dirty (snd ?r))"
  define t where "t = touch ?ino t1"
  have "\<exists>e. t_inodes t1 ?ino = Some e \<and> e_kind e = File \<and> is_dirty e"
    using ne free(2) by (simp add: t1_def insert_inode_def Let_def touch_parent_def fresh_entry_def set_dirty_def is_dirty_def sat_add64_def u64_max_def)
  then obtain e where e: "t_inodes t ?ino = Some e" "e_kind e = File" "is_dirty e"
    using touch_entry [of t1 ?ino _ ?ino] by (force simp: t_def is_dirty_def)
  have "\<exists>pe'. t_inodes t1 parent = Some pe' \<and> e_kind pe' = Directory \<and> e_child_index pe' name = Some ?ino"
    using ne free(2) pe by (simp add: t1_def insert_inode_def Let_def touch_parent_def add_child_def)
  then obtain pe' where pe': "t_inodes t parent = Some pe'" "e_kind pe' = Directory" "e_child_index pe' name = Some ?ino"
    using touch_entry [of t1 parent _ ?ino] by (force simp: t_def)
  have "\<exists>g. create_locked en parent name mode uid gid s = Some (Inr (?ino, ?path, g), upd_io_table (\<lambda>_. t) s)"
    using pe free(1) fst by (simp add: create_locked_def insert_locked_def Let_def case_prod_beta ok_with_def t_def t1_def)
  moreover have "lookup_child t parent name = Some e" using pe'(1,3) e(1) by (simp add: lookup_child_def)
  ultimately show thesis using that e pe' by blast
qed

text \<open>
  C39: a creation that fails for want of a staging container leaves the new inode behind on an encrypted mount.
  Let a name be free in a directory of a mount with advanced writes and encryption.  When the container cannot be
  written, \<open>create\<close> reports \<open>EIO\<close> and opens no handle, yet the name is now taken by a dirty file without
  a container; every further creation of the name, however well the disk works by then, is refused
  with \<open>EEXIST\<close>.
\<close>

theorem failed_encrypted_create_lingers:
  assumes "new_name_guard (io_vfs s) name = Inr ()" and "y_load en parent s = (Inr b, s1)"
    and "wf_table (io_table s1)" and "t_inodes (io_table s1) parent = Some pe" and "e_kind pe = Directory"
    and "lookup_child (io_table s1) parent name = None" and "t_paths (io_table s1) (child_path (e_full_path pe) name) = None"
    and "v_advanced_writes (io_vfs s1)" and "v_encrypting (io_vfs s1)" and "y_container en = None"
  shows "\<exists>s2 e. create en parent name mode uid gid pid s = Some (Inl EIO, s2) \<and> io_files s2 = io_files s1 \<and>
    lookup_child (io_table s2) parent name = Some e \<and> e_kind e = File \<and> is_dirty e \<and>
    (\<forall>en' mode' uid' gid' pid' b'. new_name_guard (io_vfs s2) name = Inr () \<and> y_load en' parent s2 = (Inr b', s2) \<longrightarrow>
      create en' parent name mode' uid' gid' pid' s2 = Some (Inl EEXIST, s2))"
proof -
  let ?path = "child_path (e_full_path pe) name"
  obtain ino g t e pe' where c: "create_locked en parent name mode uid gid s1 = Some (Inr (ino, ?path, g), upd_io_table (\<lambda>_. t) s1)"
    and e: "lookup_child t parent name = Some e" "e_kind e = File" "is_dirty e" and pe': "t_inodes t parent = Some pe'" "e_kind pe' = Directory"
    by (rule create_locked_inserts [OF assms(3-7), of en mode uid gid])
  define s2 where "s2 = forget_missing ?path (upd_io_table (\<lambda>_. t) s1)"
  have v: "v_advanced_writes (io_vfs s2)" "is_encrypting s2" "io_table s2 = t" "io_files s2 = io_files s1"
    using assms(8,9) by (simp_all add: s2_def forget_missing_def upd_io_table_def upd_vfs_def upd_table_def upd_flush_def
        negative_cache_remove_def is_encrypting_def io_table_def)
  have "create_encrypted en ino ?path s2 = Some (Inl EIO, s2)"
    using assms(10) by (simp add: create_encrypted_def create_container_def and_then_def fail_with_def)
  then have "create en parent name mode uid gid pid s = Some (Inl EIO, s2)"
    using assms(1,2) c v(1,2) by (simp add: create_def guard_name_def load_parent_def and_then_def ok_with_def Let_def s2_def [symmetric])
  moreover have "create en' parent name mode' uid' gid' pid' s2 = Some (Inl EEXIST, s2)"
    if "new_name_guard (io_vfs s2) name = Inr ()" "y_load en' parent s2 = (Inr b', s2)" for en' mode' uid' gid' pid' b'
  proof -
    have "create_locked en' parent name mode' uid' gid' s2 = Some (Inl EEXIST, s2)"
      using e(1) pe' v(3) by (simp add: create_locked_def insert_locked_def Let_def fail_with_def)
    then show ?thesis using that by (simp add: create_def guard_name_def load_parent_def and_then_def ok_with_def)
  qed
  ultimately show ?thesis using e v(3,4) by (intro exI [of _ s2] exI [of _ e]) simp
qed

text \<open>An example.\<close>

definition staged_mount :: io_state where
  "staged_mount = upd_vfs (\<lambda>v. v\<lparr>v_advanced_writes := True, v_encrypting := True,
     v_staging := sc_new (Some (staging_new 100))\<rparr>) quiet"

definition full_disk :: file_env where
  "full_disk = calm_files\<lparr>y_open := (\<lambda>_ _ _. Some ENOSPC), y_container := None\<rparr>"

lemma short_name: "check_name_len ''n'' = Inr ()"
  by (simp add: check_name_len_def validate_name_cases valid_name_def u8_of_char_def encrypt_input_len_def encoded_fits_def
      encoded_len_upper_bound_def NAME_MAX_def Let_def MIN_ZERO_PAD_def PAD_BLOCK_def div_ceil_def)

theorem failed_encrypted_create_lingers_witness:
  "\<exists>s2. create full_disk 1 ''n'' 420 0 0 None staged_mount = Some (Inl EIO, s2) \<and> lookup_child (io_table s2) 1 ''n'' \<noteq> None"
proof -
  have t: "io_table staged_mount = one_file" by (simp add: staged_mount_def quiet_def race_defs)
  have g: "new_name_guard (io_vfs staged_mount) ''n'' = Inr ()"
    by (simp add: new_name_guard_def check_encrypted_name_def short_name staged_mount_def quiet_def race_defs)
  have l: "y_load full_disk 1 staged_mount = (Inr False, staged_mount)" by (simp add: full_disk_def calm_files_def)
  obtain pe where pe: "t_inodes (io_table staged_mount) 1 = Some pe" "e_kind pe = Directory" "e_full_path pe = []"
    using wf_wf_root [OF wf_one_file] by (auto simp: t wf_root_def ROOT_INODE_def)
  have f: "lookup_child (io_table staged_mount) 1 ''n'' = None" "t_paths (io_table staged_mount) (child_path (e_full_path pe) ''n'') = None"
    by (simp_all add: t pe(3) one_file_def lookup_child_def child_path_def insert_inode_def new_table_def root_entry_def add_child_def Let_def ROOT_INODE_def)
  have v: "v_advanced_writes (io_vfs staged_mount)" "v_encrypting (io_vfs staged_mount)" "y_container full_disk = None"
    by (simp_all add: staged_mount_def full_disk_def upd_vfs_def)
  have wf: "wf_table (io_table staged_mount)" by (simp add: t wf_one_file)
  from failed_encrypted_create_lingers [OF g l wf pe(1,2) f v, of 420 0 0 None] show ?thesis by auto
qed

end
