(* ===== verification/Cas_Cache.thy ===== *)
theory Cas_Cache
  imports Prelude
begin

text \<open>
  \<open>src/src/cached_xet_client.rs\<close>: the cache of reconstruction plans in front of the content store.
  A plan lists the pieces (terms) whose concatenation is the file or a byte range of it.  The theory
  has the derivation of a range's plan from the plan of the whole file, the cache with its expiry
  and eviction, and the single-flight protocol that lets one caller ask the store while others wait.
\<close>

section \<open>Plans\<close>

record file_range =
  fr_start :: nat
  fr_end :: nat

text \<open>Of the content store's own types, the fields the client reads; the rest it only copies.\<close>

record recon_term =
  rt_hash :: string
  rt_unpacked_length :: nat
  rt_chunks :: "nat \<times> nat"

record recon_response =
  rr_offset_into_first_range :: nat
  rr_terms :: "recon_term list"
  rr_xorbs :: "string \<rightharpoonup> string list"

text \<open>
  The loop of \<open>derive_range_response\<close>: the current offset, the offset into the first term kept and
  the terms kept so far.
\<close>

fun derive_terms ::
  "file_range \<Rightarrow> nat \<Rightarrow> nat \<Rightarrow> recon_term list \<Rightarrow> recon_term list \<Rightarrow> nat \<times> recon_term list" where
  "derive_terms rng cur_offset offset_into_first kept [] = (offset_into_first, kept)"
| "derive_terms rng cur_offset offset_into_first kept (tm # tms) =
    (let term_end = wrap64 (cur_offset + rt_unpacked_length tm)
     in if term_end \<le> fr_start rng then derive_terms rng term_end offset_into_first kept tms
        else if cur_offset \<ge> fr_end rng then (offset_into_first, kept)
        else derive_terms rng term_end
          (if kept = [] then fr_start rng - cur_offset else offset_into_first) (kept @ [tm]) tms)"

definition derive_range_response :: "recon_response \<Rightarrow> file_range \<Rightarrow> recon_response" where
  "derive_range_response full rng =
    (let (off, tms) = derive_terms rng 0 0 [] (rr_terms full)
     in \<lparr>rr_offset_into_first_range = off, rr_terms = tms, rr_xorbs = rr_xorbs full |` (rt_hash ` set tms)\<rparr>)"

section \<open>The cache\<close>

record recon_key =
  rk_file :: string
  rk_range :: "file_range option"

definition full_key :: "string \<Rightarrow> recon_key" where
  "full_key f = \<lparr>rk_file = f, rk_range = None\<rparr>"

definition range_key :: "string \<Rightarrow> file_range \<Rightarrow> recon_key" where
  "range_key f rng = \<lparr>rk_file = f, rk_range = Some rng\<rparr>"

lemma key_simps [simp]: "rk_file (full_key f) = f" "rk_range (full_key f) = None" "rk_file (range_key f r) = f" "rk_range (range_key f r) = Some r"
  by (simp_all add: full_key_def range_key_def)

record recon_entry =
  ce_response :: recon_response
  ce_inserted_at :: nat
  ce_last_accessed :: nat

type_synonym recon_cache = "recon_key \<rightharpoonup> recon_entry"

definition MAX_CACHE_ENTRIES :: nat where "MAX_CACHE_ENTRIES = 4096"
definition CACHE_TTL :: nat where "CACHE_TTL = 59 * 60"

definition recon_entry_new :: "nat \<Rightarrow> recon_response \<Rightarrow> recon_entry" where
  "recon_entry_new now response = \<lparr>ce_response = response, ce_inserted_at = now, ce_last_accessed = now\<rparr>"

definition entry_is_valid :: "nat \<Rightarrow> nat \<Rightarrow> recon_entry \<Rightarrow> bool" where
  "entry_is_valid ttl now e \<longleftrightarrow> now - ce_inserted_at e < ttl"

definition try_get :: "nat \<Rightarrow> nat \<Rightarrow> recon_key \<Rightarrow> recon_cache \<Rightarrow> recon_response option \<times> recon_cache" where
  "try_get ttl now key cache =
    (case cache key of
      None \<Rightarrow> (None, cache)
    | Some e \<Rightarrow>
        if entry_is_valid ttl now e then (Some (ce_response e), cache(key \<mapsto> e\<lparr>ce_last_accessed := now\<rparr>))
        else (None, cache(key := None)))"

datatype cache_result = ExactHit recon_response | FullPlan recon_response file_range | NoPlan

definition check_cache :: "nat \<Rightarrow> nat \<Rightarrow> recon_key \<Rightarrow> recon_cache \<Rightarrow> cache_result \<times> recon_cache" where
  "check_cache ttl now key cache =
    (case try_get ttl now key cache of
      (Some resp, c1) \<Rightarrow> (ExactHit resp, c1)
    | (None, c1) \<Rightarrow>
        (case rk_range key of
          None \<Rightarrow> (NoPlan, c1)
        | Some rng \<Rightarrow>
            (case try_get ttl now (full_key (rk_file key)) c1 of
              (Some full, c2) \<Rightarrow> (FullPlan full rng, c2)
            | (None, c2) \<Rightarrow> (NoPlan, c2))))"

text \<open>What a hit answers; \<open>None\<close> on a miss.\<close>

fun cached_answer :: "cache_result \<Rightarrow> recon_response option option" where
  "cached_answer (ExactHit resp) = Some (Some resp)"
| "cached_answer (FullPlan full rng) =
    (let resp = derive_range_response full rng
     in if rr_terms resp = [] \<and> (rr_terms full \<noteq> [] \<or> fr_start rng > 0) then Some None else Some (Some resp))"
| "cached_answer NoPlan = None"

text \<open>\<open>min_by_key\<close> on the last access, over the keys in iteration order: the first of the smallest.\<close>

fun lru_victim :: "recon_cache \<Rightarrow> recon_key list \<Rightarrow> recon_key option" where
  "lru_victim cache [] = None"
| "lru_victim cache (k # ks) =
    (case cache k of
      None \<Rightarrow> lru_victim cache ks
    | Some e \<Rightarrow>
        (case lru_victim cache ks of
          None \<Rightarrow> Some k
        | Some k' \<Rightarrow>
            (case cache k' of
              None \<Rightarrow> Some k
            | Some e' \<Rightarrow> if ce_last_accessed e' < ce_last_accessed e then Some k' else Some k)))"

definition drop_ranges_of :: "string \<Rightarrow> recon_cache \<Rightarrow> recon_cache" where
  "drop_ranges_of file_id cache = cache |` {k. rk_file k \<noteq> file_id \<or> rk_range k = None}"

definition make_room :: "recon_key list \<Rightarrow> recon_cache \<Rightarrow> recon_cache" where
  "make_room order cache =
    (if card (dom cache) < MAX_CACHE_ENTRIES then cache
     else (let c1 = cache |` {k. rk_range k = None}
           in if card (dom c1) < MAX_CACHE_ENTRIES then c1
              else (case lru_victim c1 order of None \<Rightarrow> c1 | Some victim \<Rightarrow> c1(victim := None))))"

definition store_plan :: "recon_key list \<Rightarrow> nat \<Rightarrow> recon_key \<Rightarrow> recon_response \<Rightarrow> recon_cache \<Rightarrow> recon_cache" where
  "store_plan order now key response cache =
    (make_room order (if rk_range key = None then drop_ranges_of (rk_file key) cache else cache))
      (key \<mapsto> recon_entry_new now response)"

section \<open>Single flight\<close>

text \<open>
  A caller of \<open>get_reconstruction\<close> is at the top of the loop, past a miss, waiting on the sender of
  an earlier caller, asking the store as the leader, or back with its answer.  Senders are told apart
  by a number; a wait ends when the sender has been taken out of the map and used.
\<close>

datatype recon_answer = Plan recon_response | NoRange | StoreError string

datatype recon_phase =
    Looking
  | Missed
  | Waiting nat
  | Leading nat
  | Finished recon_answer

record recon_client =
  cc_cache :: recon_cache
  cc_inflight :: "recon_key \<rightharpoonup> nat"
  cc_next_tx :: nat

definition client_new :: recon_client where
  "client_new = \<lparr>cc_cache = Map.empty, cc_inflight = Map.empty, cc_next_tx = 0\<rparr>"

definition answer_of :: "recon_response option \<Rightarrow> recon_answer" where
  "answer_of r = (case r of None \<Rightarrow> NoRange | Some resp \<Rightarrow> Plan resp)"

text \<open>The three sections of a turn of the loop.\<close>

definition check_section :: "nat \<Rightarrow> nat \<Rightarrow> recon_key \<Rightarrow> recon_client \<Rightarrow> recon_phase \<times> recon_client" where
  "check_section ttl now key cl =
    (let (r, cache) = check_cache ttl now key (cc_cache cl)
     in (case cached_answer r of None \<Rightarrow> Missed | Some a \<Rightarrow> Finished (answer_of a), cl\<lparr>cc_cache := cache\<rparr>))"

definition flight_section :: "recon_key \<Rightarrow> recon_client \<Rightarrow> recon_phase \<times> recon_client" where
  "flight_section key cl =
    (case cc_inflight cl key of
      Some tx \<Rightarrow> (Waiting tx, cl)
    | None \<Rightarrow> (let tx = cc_next_tx cl
               in (Leading tx, cl\<lparr>cc_inflight := (cc_inflight cl)(key \<mapsto> tx), cc_next_tx := tx + 1\<rparr>)))"

definition finish_section ::
  "recon_key list \<Rightarrow> nat \<Rightarrow> recon_key \<Rightarrow> string + recon_response option \<Rightarrow> recon_client \<Rightarrow> recon_phase \<times> recon_client" where
  "finish_section order now key result cl =
    (let cache = (case result of
           Inr (Some response) \<Rightarrow> store_plan order now key response (cc_cache cl)
         | _ \<Rightarrow> cc_cache cl)
     in (Finished (case result of Inl e \<Rightarrow> StoreError e | Inr r \<Rightarrow> answer_of r),
         cl\<lparr>cc_cache := cache, cc_inflight := (cc_inflight cl)(key := None)\<rparr>))"

text \<open>
  The callers and the client.  \<open>answers\<close> says what the store may answer for a key, a plan or that
  there is none; it may also fail.  A caller may be dropped while it waits (\<open>g_cancel\<close>), as a
  future may at any suspension point; \<open>cancels\<close> says whether that happens to leaders.
\<close>

record recon_conf =
  g_client :: recon_client
  g_tasks :: "nat \<rightharpoonup> recon_key \<times> recon_phase"

definition recon_start :: recon_conf where
  "recon_start = \<lparr>g_client = client_new, g_tasks = Map.empty\<rparr>"

definition move_task :: "nat \<Rightarrow> recon_key \<Rightarrow> recon_phase \<times> recon_client \<Rightarrow> recon_conf \<Rightarrow> recon_conf" where
  "move_task i key p g = g\<lparr>g_client := snd p, g_tasks := (g_tasks g)(i \<mapsto> (key, fst p))\<rparr>"

inductive recon_step :: "(recon_key \<Rightarrow> recon_response option \<Rightarrow> bool) \<Rightarrow> bool \<Rightarrow> nat \<Rightarrow> recon_conf \<Rightarrow> recon_conf \<Rightarrow> bool"
  for answers cancels ttl where
  g_call: "g_tasks g i = None \<Longrightarrow> recon_step answers cancels ttl g (move_task i key (Looking, g_client g) g)"
| g_check: "g_tasks g i = Some (key, Looking) \<Longrightarrow>
    recon_step answers cancels ttl g (move_task i key (check_section ttl now key (g_client g)) g)"
| g_flight: "g_tasks g i = Some (key, Missed) \<Longrightarrow>
    recon_step answers cancels ttl g (move_task i key (flight_section key (g_client g)) g)"
| g_wake: "g_tasks g i = Some (key, Waiting tx) \<Longrightarrow> cc_inflight (g_client g) key \<noteq> Some tx \<Longrightarrow>
    recon_step answers cancels ttl g (move_task i key (Looking, g_client g) g)"
| g_finish: "g_tasks g i = Some (key, Leading tx) \<Longrightarrow> (\<And>r. result = Inr r \<Longrightarrow> answers key r) \<Longrightarrow>
    set order = dom (cc_cache (g_client g)) \<Longrightarrow>
    recon_step answers cancels ttl g (move_task i key (finish_section order now key result (g_client g)) g)"
| g_cancel: "g_tasks g i = Some (key, ph) \<Longrightarrow> cancels \<or> (\<forall>tx. ph \<noteq> Leading tx) \<Longrightarrow>
    recon_step answers cancels ttl g (g\<lparr>g_tasks := (g_tasks g)(i := None)\<rparr>)"

inductive recon_reach :: "(recon_key \<Rightarrow> recon_response option \<Rightarrow> bool) \<Rightarrow> bool \<Rightarrow> nat \<Rightarrow> recon_conf \<Rightarrow> bool"
  for answers cancels ttl where
  g_start: "recon_reach answers cancels ttl recon_start"
| g_step: "recon_reach answers cancels ttl g \<Longrightarrow> recon_step answers cancels ttl g g' \<Longrightarrow> recon_reach answers cancels ttl g'"

section \<open>Deriving a range\<close>

text \<open>
  \<open>data tm\<close> is the unpacked content of a term and \<open>content f\<close> that of a file.  A plan is faithful to
  its key when it reproduces the file, or the range of it, and comes with the places its terms are in.
\<close>

definition plan_bytes :: "(recon_term \<Rightarrow> bytes) \<Rightarrow> recon_response \<Rightarrow> bytes" where
  "plan_bytes data resp = drop (rr_offset_into_first_range resp) (concat (map data (rr_terms resp)))"

definition faithful :: "(string \<Rightarrow> bytes) \<Rightarrow> (recon_term \<Rightarrow> bytes) \<Rightarrow> recon_key \<Rightarrow> recon_response \<Rightarrow> bool" where
  "faithful content data key resp \<longleftrightarrow>
    (\<forall>tm \<in> set (rr_terms resp). length (data tm) = rt_unpacked_length tm \<and> rt_hash tm \<in> dom (rr_xorbs resp)) \<and>
    (case rk_range key of
      None \<Rightarrow> rr_offset_into_first_range resp = 0 \<and> plan_bytes data resp = content (rk_file key)
    | Some rng \<Rightarrow>
        take (fr_end rng - fr_start rng) (plan_bytes data resp) =
        take (fr_end rng - fr_start rng) (drop (fr_start rng) (content (rk_file key))))"

abbreviation unpacked :: "recon_term list \<Rightarrow> nat" where
  "unpacked tms \<equiv> sum_list (map rt_unpacked_length tms)"

text \<open>Once a term is kept, the loop keeps terms until the end of the range.\<close>

lemma derive_terms_keeping:
  assumes "kept \<noteq> []" and "fr_start rng < cur" and "cur + unpacked tms \<le> u64_max"
  shows "\<exists>us vs. tms = us @ vs \<and> derive_terms rng cur off kept tms = (off, kept @ us) \<and>
    (vs = [] \<or> fr_end rng \<le> cur + unpacked us)"
  using assms
proof (induction tms arbitrary: cur kept)
  case (Cons tm tms)
  show ?case
  proof (cases "fr_end rng \<le> cur")
    case True
    then show ?thesis using Cons.prems by (intro exI [of _ "[]"] exI [of _ "tm # tms"]) simp
  next
    case False
    obtain us vs where "tms = us @ vs" "derive_terms rng (cur + rt_unpacked_length tm) off (kept @ [tm]) tms = (off, (kept @ [tm]) @ us)"
      "vs = [] \<or> fr_end rng \<le> cur + rt_unpacked_length tm + unpacked us"
      using Cons.IH [of "kept @ [tm]" "cur + rt_unpacked_length tm"] Cons.prems by auto
    then show ?thesis using False Cons.prems
      by (intro exI [of _ "tm # us"] exI [of _ vs]) (auto simp: add.assoc)
  qed
qed simp

text \<open>Before that it skips the terms that end at or before the start.\<close>

lemma derive_terms_skipping:
  assumes "cur \<le> fr_start rng" and "cur + unpacked tms \<le> u64_max"
  shows "\<exists>pre us vs. tms = pre @ us @ vs \<and> snd (derive_terms rng cur 0 [] tms) = us \<and> cur + unpacked pre \<le> fr_start rng \<and>
    fst (derive_terms rng cur 0 [] tms) = (if us = [] then 0 else fr_start rng - (cur + unpacked pre)) \<and>
    (vs = [] \<or> fr_end rng \<le> cur + unpacked pre + unpacked us)"
  using assms
proof (induction tms arbitrary: cur)
  case (Cons tm tms)
  let ?e = "cur + rt_unpacked_length tm"
  consider "?e \<le> fr_start rng" | "fr_start rng < ?e" "fr_end rng \<le> cur" | "fr_start rng < ?e" "cur < fr_end rng" by linarith
  then show ?case
  proof cases
    case 1
    obtain pre us vs where "tms = pre @ us @ vs" "snd (derive_terms rng ?e 0 [] tms) = us" "?e + unpacked pre \<le> fr_start rng"
      "fst (derive_terms rng ?e 0 [] tms) = (if us = [] then 0 else fr_start rng - (?e + unpacked pre))"
      "vs = [] \<or> fr_end rng \<le> ?e + unpacked pre + unpacked us"
      using Cons.IH [OF 1] Cons.prems(2) by (auto simp only: list.map sum_list.Cons add.assoc)
    then show ?thesis using 1 Cons.prems
      by (intro exI [of _ "tm # pre"] exI [of _ us] exI [of _ vs]) (auto simp: add.assoc)
  next
    case 2
    then show ?thesis using Cons.prems by (intro exI [of _ "[]"] exI [of _ "[]"] exI [of _ "tm # tms"]) simp
  next
    case 3
    obtain us vs where "tms = us @ vs" "derive_terms rng ?e (fr_start rng - cur) [tm] tms = (fr_start rng - cur, [tm] @ us)"
      "vs = [] \<or> fr_end rng \<le> ?e + unpacked us"
      using derive_terms_keeping [of "[tm]" rng ?e tms "fr_start rng - cur"] Cons.prems 3 by auto
    then show ?thesis using 3 Cons.prems
      by (intro exI [of _ "[]"] exI [of _ "tm # us"] exI [of _ vs]) (auto simp: add.assoc)
  qed
qed simp

lemma length_concat_data:
  "\<forall>tm \<in> set tms. length (data tm) = rt_unpacked_length tm \<Longrightarrow> length (concat (map data tms)) = unpacked tms"
  by (induction tms) auto

text \<open>Where the terms before the range end and where the range ends.\<close>

lemma derive_split:
  assumes "faithful content data (full_key f) full" and "length (content f) \<le> u64_max"
  obtains pre us vs where "rr_terms full = pre @ us @ vs" and "rr_terms (derive_range_response full rng) = us"
    and "length (concat (map data pre)) \<le> fr_start rng"
    and "rr_offset_into_first_range (derive_range_response full rng) = (if us = [] then 0 else fr_start rng - length (concat (map data pre)))"
    and "vs = [] \<or> fr_end rng \<le> length (concat (map data pre)) + length (concat (map data us))"
    and "content f = concat (map data pre) @ concat (map data us) @ concat (map data vs)"
proof -
  have l: "\<forall>tm \<in> set (rr_terms full). length (data tm) = rt_unpacked_length tm" and c: "content f = concat (map data (rr_terms full))"
    using assms(1) by (auto simp: faithful_def plan_bytes_def)
  have "0 + unpacked (rr_terms full) \<le> u64_max" using assms(2) length_concat_data [OF l] c by simp
  from derive_terms_skipping [OF le0 this, unfolded add_0] obtain pre us vs where s: "rr_terms full = pre @ us @ vs" "snd (derive_terms rng 0 0 [] (rr_terms full)) = us"
    "unpacked pre \<le> fr_start rng" "fst (derive_terms rng 0 0 [] (rr_terms full)) = (if us = [] then 0 else fr_start rng - unpacked pre)"
    "vs = [] \<or> fr_end rng \<le> unpacked pre + unpacked us" by blast
  then have "length (concat (map data pre)) = unpacked pre" "length (concat (map data us)) = unpacked us"
    using l by (intro length_concat_data; simp)+
  with s c that [of pre us vs] show thesis by (simp add: derive_range_response_def case_prod_beta)
qed

lemma derive_faithful:
  assumes "faithful content data (full_key f) full" and "length (content f) \<le> u64_max"
  shows "faithful content data (range_key f rng) (derive_range_response full rng)"
proof -
  obtain pre us vs where d: "rr_terms full = pre @ us @ vs" "rr_terms (derive_range_response full rng) = us"
    "length (concat (map data pre)) \<le> fr_start rng"
    "rr_offset_into_first_range (derive_range_response full rng) = (if us = [] then 0 else fr_start rng - length (concat (map data pre)))"
    "vs = [] \<or> fr_end rng \<le> length (concat (map data pre)) + length (concat (map data us))"
    "content f = concat (map data pre) @ concat (map data us) @ concat (map data vs)"
    by (rule derive_split [OF assms])
  have "\<forall>tm \<in> set us. length (data tm) = rt_unpacked_length tm \<and> rt_hash tm \<in> dom (rr_xorbs (derive_range_response full rng))"
    using assms(1) d(1,2) by (auto simp: faithful_def derive_range_response_def case_prod_beta)
  moreover have "take (fr_end rng - fr_start rng) (plan_bytes data (derive_range_response full rng)) =
      take (fr_end rng - fr_start rng) (drop (fr_start rng) (content f))"
    using d(2-6) by (auto simp: plan_bytes_def)
  ultimately show ?thesis using d(2) by (simp add: faithful_def)
qed

lemma derive_none:
  assumes "faithful content data (full_key f) full" and "length (content f) \<le> u64_max" and "cached_answer (FullPlan full rng) = Some None"
  shows "length (content f) \<le> fr_start rng \<or> fr_end rng \<le> fr_start rng"
proof -
  obtain pre us vs where d: "rr_terms full = pre @ us @ vs" "rr_terms (derive_range_response full rng) = us"
    "length (concat (map data pre)) \<le> fr_start rng"
    "vs = [] \<or> fr_end rng \<le> length (concat (map data pre)) + length (concat (map data us))"
    "content f = concat (map data pre) @ concat (map data us) @ concat (map data vs)"
    by (rule derive_split [OF assms(1,2)])
  have "us = []" using assms(3) d(2) by (auto simp: Let_def split: if_splits)
  then show ?thesis using d(3-5) by auto
qed

section \<open>What the cache holds\<close>

lemma try_get_cases:
  assumes "try_get ttl now key cache = (r, cache')"
  shows "dom cache' \<subseteq> dom cache" and "cache' k = Some e' \<Longrightarrow> \<exists>e. cache k = Some e \<and> ce_response e' = ce_response e"
    and "r = Some resp \<Longrightarrow> \<exists>e. cache key = Some e \<and> entry_is_valid ttl now e \<and> resp = ce_response e"
  using assms by (auto simp: try_get_def split: option.splits if_splits)

lemma check_cache_cases:
  assumes "check_cache ttl now key cache = (r, cache')"
  shows "dom cache' \<subseteq> dom cache" and "cache' k = Some e' \<Longrightarrow> \<exists>e. cache k = Some e \<and> ce_response e' = ce_response e"
    and "r = ExactHit resp \<Longrightarrow> \<exists>e. cache key = Some e \<and> resp = ce_response e"
    and "r = FullPlan full rng \<Longrightarrow> rk_range key = Some rng \<and> (\<exists>e. cache (full_key (rk_file key)) = Some e \<and> full = ce_response e)"
proof -
  obtain r1 c1 where 1: "try_get ttl now key cache = (r1, c1)" by (rule prod.exhaust)
  obtain r2 c2 where 2: "try_get ttl now (full_key (rk_file key)) c1 = (r2, c2)" by (rule prod.exhaust)
  have k: "\<exists>e. cache k = Some e \<and> ce_response e'' = ce_response e" if "c2 k = Some e''" for k e''
    using try_get_cases(2) [OF 2 that] try_get_cases(2) [OF 1] by fastforce
  show "dom cache' \<subseteq> dom cache"
    using assms 1 2 try_get_cases(1) [OF 1] try_get_cases(1) [OF 2]
    by (auto simp: check_cache_def split: option.splits)
  show "\<exists>e. cache k = Some e \<and> ce_response e' = ce_response e" if "cache' k = Some e'"
    using assms 1 2 that k try_get_cases(2) [OF 1] by (auto simp: check_cache_def split: option.splits)
  show "\<exists>e. cache key = Some e \<and> resp = ce_response e" if "r = ExactHit resp"
    using assms 1 2 that try_get_cases(3) [OF 1] by (auto simp: check_cache_def split: option.splits)
  show "rk_range key = Some rng \<and> (\<exists>e. cache (full_key (rk_file key)) = Some e \<and> full = ce_response e)" if "r = FullPlan full rng"
    using assms 1 2 that try_get_cases(3) [OF 2] try_get_cases(2) [OF 1] by (fastforce simp: check_cache_def split: option.splits)
qed

lemma lru_victim_in: "lru_victim cache ks = Some k \<Longrightarrow> k \<in> dom cache"
  by (induction ks arbitrary: k) (auto split: option.splits if_splits)

lemma lru_victim_some: "k \<in> set ks \<Longrightarrow> k \<in> dom cache \<Longrightarrow> lru_victim cache ks \<noteq> None"
  by (induction ks) (auto split: option.splits if_splits)

lemma make_room_sub: "make_room order cache k = Some e \<Longrightarrow> cache k = Some e"
  by (auto simp: make_room_def Let_def restrict_map_def split: if_splits option.splits)

lemma make_room_card:
  assumes "finite (dom cache)" and "card (dom cache) \<le> MAX_CACHE_ENTRIES" and "dom cache \<subseteq> set order"
  shows "card (dom (make_room order cache)) < MAX_CACHE_ENTRIES"
proof -
  let ?c = "cache |` {k. rk_range k = None}"
  have d: "dom ?c \<subseteq> dom cache" and f: "finite (dom ?c)" using assms(1) by auto
  have le: "card (dom ?c) \<le> MAX_CACHE_ENTRIES" using card_mono [OF assms(1) d] assms(2) by simp
  have "card (dom (?c(v := None))) < MAX_CACHE_ENTRIES" if "lru_victim ?c order = Some v" for v
    using card_Diff1_less [OF f lru_victim_in [OF that]] le by (simp only: dom_fun_upd if_True simp_thms)
  moreover have "lru_victim ?c order \<noteq> None" if "\<not> card (dom ?c) < MAX_CACHE_ENTRIES"
  proof -
    have "dom ?c \<noteq> {}" using that by (auto simp: MAX_CACHE_ENTRIES_def)
    then obtain k where "k \<in> dom ?c" by blast
    then show ?thesis using lru_victim_some [of k order ?c] d assms(3) by blast
  qed
  ultimately show ?thesis by (auto simp: make_room_def Let_def split: option.split)
qed

lemma store_plan_cases:
  "store_plan order now key response cache k = Some e \<Longrightarrow>
    k = key \<and> ce_response e = response \<or> k \<noteq> key \<and> cache k = Some e"
  by (auto simp: store_plan_def recon_entry_new_def drop_ranges_of_def restrict_map_def split: if_splits dest!: make_room_sub)

lemma store_plan_card:
  assumes "finite (dom cache)" and "card (dom cache) \<le> MAX_CACHE_ENTRIES" and "dom cache \<subseteq> set order"
  shows "finite (dom (store_plan order now key response cache)) \<and> card (dom (store_plan order now key response cache)) \<le> MAX_CACHE_ENTRIES"
proof -
  let ?c = "if rk_range key = None then drop_ranges_of (rk_file key) cache else cache"
  have d: "dom ?c \<subseteq> dom cache" by (auto simp: drop_ranges_of_def)
  then have f: "finite (dom ?c)" using assms(1) finite_subset by blast
  have "card (dom (make_room order ?c)) < MAX_CACHE_ENTRIES"
    using make_room_card [OF f] card_mono [OF assms(1) d] assms(2,3) d by simp
  moreover have "dom (make_room order ?c) \<subseteq> dom ?c" using make_room_sub by blast
  then have "finite (dom (make_room order ?c))" using f finite_subset by blast
  ultimately show ?thesis
    using card_insert_le_m1 [of MAX_CACHE_ENTRIES "dom (make_room order ?c)" key] by (simp add: store_plan_def MAX_CACHE_ENTRIES_def)
qed

section \<open>The protocol\<close>

text \<open>What a caller may be given: an answer of the store for its key, or one derived from the store's plan of the whole file.\<close>

definition justified :: "(recon_key \<Rightarrow> recon_response option \<Rightarrow> bool) \<Rightarrow> recon_key \<Rightarrow> recon_answer \<Rightarrow> bool" where
  "justified answers key a \<longleftrightarrow>
    (\<exists>e. a = StoreError e) \<or> (\<exists>r. a = answer_of r \<and> answers key r) \<or>
    (\<exists>rng full r. rk_range key = Some rng \<and> answers (full_key (rk_file key)) (Some full) \<and>
       cached_answer (FullPlan full rng) = Some r \<and> a = answer_of r)"

definition recon_inv :: "(recon_key \<Rightarrow> recon_response option \<Rightarrow> bool) \<Rightarrow> bool \<Rightarrow> recon_conf \<Rightarrow> bool" where
  "recon_inv answers cancels g \<longleftrightarrow>
    finite (dom (cc_cache (g_client g))) \<and> card (dom (cc_cache (g_client g))) \<le> MAX_CACHE_ENTRIES \<and>
    (\<forall>key e. cc_cache (g_client g) key = Some e \<longrightarrow> answers key (Some (ce_response e))) \<and>
    (\<forall>i key a. g_tasks g i = Some (key, Finished a) \<longrightarrow> justified answers key a) \<and>
    (\<forall>key tx. cc_inflight (g_client g) key = Some tx \<longrightarrow> tx < cc_next_tx (g_client g)) \<and>
    (\<forall>i key tx. g_tasks g i = Some (key, Leading tx) \<longrightarrow> cc_inflight (g_client g) key = Some tx) \<and>
    (\<forall>i j key tx. g_tasks g i = Some (key, Leading tx) \<and> g_tasks g j = Some (key, Leading tx) \<longrightarrow> i = j) \<and>
    (\<not> cancels \<longrightarrow> (\<forall>key tx. cc_inflight (g_client g) key = Some tx \<longrightarrow> (\<exists>i. g_tasks g i = Some (key, Leading tx))))"

lemma recon_inv_start: "recon_inv answers cancels recon_start"
  by (simp add: recon_inv_def recon_start_def client_new_def)

lemma recon_invD:
  assumes "recon_inv answers cancels g"
  shows "finite (dom (cc_cache (g_client g)))" "card (dom (cc_cache (g_client g))) \<le> MAX_CACHE_ENTRIES"
    "cc_cache (g_client g) key = Some e \<Longrightarrow> answers key (Some (ce_response e))"
    "g_tasks g i = Some (key, Finished a) \<Longrightarrow> justified answers key a"
    "cc_inflight (g_client g) key = Some tx \<Longrightarrow> tx < cc_next_tx (g_client g)"
    "g_tasks g i = Some (key, Leading tx) \<Longrightarrow> cc_inflight (g_client g) key = Some tx"
    "g_tasks g i = Some (key, Leading tx) \<Longrightarrow> g_tasks g j = Some (key, Leading tx) \<Longrightarrow> i = j"
    "\<not> cancels \<Longrightarrow> cc_inflight (g_client g) key = Some tx \<Longrightarrow> \<exists>i. g_tasks g i = Some (key, Leading tx)"
  using assms unfolding recon_inv_def by blast+

lemma recon_invI:
  assumes "finite (dom (cc_cache (g_client g)))" "card (dom (cc_cache (g_client g))) \<le> MAX_CACHE_ENTRIES"
    "\<And>key e. cc_cache (g_client g) key = Some e \<Longrightarrow> answers key (Some (ce_response e))"
    "\<And>i key a. g_tasks g i = Some (key, Finished a) \<Longrightarrow> justified answers key a"
    "\<And>key tx. cc_inflight (g_client g) key = Some tx \<Longrightarrow> tx < cc_next_tx (g_client g)"
    "\<And>i key tx. g_tasks g i = Some (key, Leading tx) \<Longrightarrow> cc_inflight (g_client g) key = Some tx"
    "\<And>i j key tx. g_tasks g i = Some (key, Leading tx) \<Longrightarrow> g_tasks g j = Some (key, Leading tx) \<Longrightarrow> i = j"
    "\<And>key tx. \<not> cancels \<Longrightarrow> cc_inflight (g_client g) key = Some tx \<Longrightarrow> \<exists>i. g_tasks g i = Some (key, Leading tx)"
  shows "recon_inv answers cancels g"
  using assms unfolding recon_inv_def by blast

text \<open>A section that leaves the map of senders alone and does not make or unmake a leader.\<close>

lemma recon_inv_quiet:
  assumes inv: "recon_inv answers cancels g"
    and k: "finite (dom (cc_cache cl))" "card (dom (cc_cache cl)) \<le> MAX_CACHE_ENTRIES"
      "\<And>key e. cc_cache cl key = Some e \<Longrightarrow> answers key (Some (ce_response e))"
    and f: "cc_inflight cl = cc_inflight (g_client g)" "cc_next_tx cl = cc_next_tx (g_client g)"
    and p: "\<And>a. ph = Finished a \<Longrightarrow> justified answers key a" "\<And>tx. ph \<noteq> Leading tx"
    and old: "\<And>k tx. g_tasks g i \<noteq> Some (k, Leading tx)"
  shows "recon_inv answers cancels (move_task i key (ph, cl) g)"
proof -
  have lead: "g_tasks (move_task i key (ph, cl) g) j = Some (k, Leading tx) \<longleftrightarrow> g_tasks g j = Some (k, Leading tx)" for j k tx
    using p(2) old by (simp add: move_task_def)
  have "justified answers k a" if "g_tasks (move_task i key (ph, cl) g) j = Some (k, Finished a)" for j k a
    using that p(1) recon_invD(4) [OF inv] by (auto simp: move_task_def split: if_splits)
  moreover have "g_client (move_task i key (ph, cl) g) = cl" by (simp add: move_task_def)
  ultimately show ?thesis
    unfolding recon_inv_def lead using k f recon_invD(5-8) [OF inv] by (simp; blast)
qed

lemma check_justified:
  assumes "recon_inv answers cancels g" and "check_cache ttl now key (cc_cache (g_client g)) = (r, cache)" and "cached_answer r = Some a"
  shows "justified answers key (answer_of a)"
proof (cases r)
  case (ExactHit resp)
  then have "answers key a" using check_cache_cases(3) [OF assms(2)] recon_invD(3) [OF assms(1)] assms(3) by auto
  then show ?thesis unfolding justified_def by blast
next
  case (FullPlan full rng)
  then have "rk_range key = Some rng" "answers (full_key (rk_file key)) (Some full)"
    using check_cache_cases(4) [OF assms(2)] recon_invD(3) [OF assms(1)] by auto
  then show ?thesis using assms(3) FullPlan unfolding justified_def by blast
qed (use assms(3) in simp)

lemma recon_inv_check:
  assumes inv: "recon_inv answers cancels g" and "g_tasks g i = Some (key, Looking)"
  shows "recon_inv answers cancels (move_task i key (check_section ttl now key (g_client g)) g)"
proof -
  obtain r cache where r: "check_cache ttl now key (cc_cache (g_client g)) = (r, cache)" by (rule prod.exhaust)
  note c = check_cache_cases [OF r]
  have "finite (dom cache)" "card (dom cache) \<le> MAX_CACHE_ENTRIES"
    by (rule finite_subset [OF c(1) recon_invD(1) [OF inv]], rule le_trans [OF card_mono [OF recon_invD(1) [OF inv] c(1)] recon_invD(2) [OF inv]])
  moreover have "answers k (Some (ce_response e))" if "cache k = Some e" for k e
    using c(2) [OF that] recon_invD(3) [OF inv] by metis
  ultimately show ?thesis
    unfolding check_section_def r Let_def prod.case
    by (intro recon_inv_quiet [OF inv]) (use assms(2) check_justified [OF inv r] in \<open>auto split: option.splits\<close>)
qed

lemma recon_inv_flight:
  assumes inv: "recon_inv answers cancels g" and t: "g_tasks g i = Some (key, Missed)"
  shows "recon_inv answers cancels (move_task i key (flight_section key (g_client g)) g)"
proof (cases "cc_inflight (g_client g) key")
  case (Some tx)
  then show ?thesis unfolding flight_section_def
    using recon_inv_quiet [OF inv, of "g_client g" "Waiting tx" key i] recon_invD(1-3) [OF inv] t by simp
next
  case None
  then have no: "g_tasks g j \<noteq> Some (key, Leading tx)" for j tx using recon_invD(6) [OF inv] by fastforce
  have lt: "cc_inflight (g_client g) k = Some tx \<Longrightarrow> tx < Suc (cc_next_tx (g_client g))" for k tx
    using recon_invD(5) [OF inv] less_SucI by blast
  let ?g = "move_task i key (flight_section key (g_client g)) g"
  have g: "cc_cache (g_client ?g) = cc_cache (g_client g)" "cc_inflight (g_client ?g) = (cc_inflight (g_client g))(key \<mapsto> cc_next_tx (g_client g))"
    "cc_next_tx (g_client ?g) = Suc (cc_next_tx (g_client g))" "g_tasks ?g = (g_tasks g)(i \<mapsto> (key, Leading (cc_next_tx (g_client g))))"
    by (simp_all add: flight_section_def None move_task_def Let_def)
  have "\<exists>j. g_tasks ?g j = Some (k, Leading tx)" if "\<not> cancels" "cc_inflight (g_client ?g) k = Some tx" for k tx
    using recon_invD(8) [OF inv that(1), of k tx] that(2) t unfolding g by (cases "k = key") (auto, metis option.inject prod.inject recon_phase.distinct)
  moreover have "cc_inflight (g_client ?g) k = Some tx" if "g_tasks ?g j = Some (k, Leading tx)" for j k tx
    using that recon_invD(6) [OF inv, of j k tx] no unfolding g by (auto split: if_splits)
  moreover have "j = j'" if "g_tasks ?g j = Some (k, Leading tx)" "g_tasks ?g j' = Some (k, Leading tx)" for j j' k tx
    using that recon_invD(7) [OF inv, of j k tx j'] no unfolding g by (auto split: if_splits)
  moreover have "justified answers k a" if "g_tasks ?g j = Some (k, Finished a)" for j k a
    using that recon_invD(4) [OF inv] unfolding g by (auto split: if_splits)
  moreover have "tx < cc_next_tx (g_client ?g)" if "cc_inflight (g_client ?g) k = Some tx" for k tx
    using that lt unfolding g by (auto split: if_splits)
  ultimately show ?thesis unfolding recon_inv_def using recon_invD(1-3) [OF inv] unfolding g(1) by blast
qed

lemma recon_inv_finish:
  assumes inv: "recon_inv answers cancels g" and t: "g_tasks g i = Some (key, Leading tx)"
    and r: "\<And>r. result = Inr r \<Longrightarrow> answers key r" and o: "set order = dom (cc_cache (g_client g))"
  shows "recon_inv answers cancels (move_task i key (finish_section order now key result (g_client g)) g)"
proof -
  define cache where "cache = (case result of Inr (Some response) \<Rightarrow> store_plan order now key response (cc_cache (g_client g)) | _ \<Rightarrow> cc_cache (g_client g))"
  have c: "finite (dom cache) \<and> card (dom cache) \<le> MAX_CACHE_ENTRIES"
    using store_plan_card [OF recon_invD(1,2) [OF inv], of order now key] o recon_invD(1,2) [OF inv] by (simp add: cache_def split: sum.split option.split)
  have a: "answers k (Some (ce_response e))" if "cache k = Some e" for k e
  proof (cases "\<exists>response. result = Inr (Some response)")
    case True
    then obtain response where r1: "result = Inr (Some response)" by blast
    then show ?thesis using store_plan_cases [of order now key response "cc_cache (g_client g)" k e] that r recon_invD(3) [OF inv, of k e]
      by (auto simp: cache_def)
  next
    case False
    then have "cache = cc_cache (g_client g)" by (auto simp: cache_def split: sum.split option.split)
    then show ?thesis using that recon_invD(3) [OF inv] by simp
  qed
  have j: "justified answers key (case result of Inl e \<Rightarrow> StoreError e | Inr r \<Rightarrow> answer_of r)"
    using r by (auto simp: justified_def split: sum.split)
  have u: "j = i" if "g_tasks g j = Some (key, Leading tx')" for j tx'
  proof -
    have "tx' = tx" using recon_invD(6) [OF inv that] recon_invD(6) [OF inv t] by simp
    then show ?thesis using recon_invD(7) [OF inv, of j key tx i] that t by simp
  qed
  let ?g = "move_task i key (finish_section order now key result (g_client g)) g"
  have g: "cc_cache (g_client ?g) = cache" "cc_inflight (g_client ?g) = (cc_inflight (g_client g))(key := None)"
    "cc_next_tx (g_client ?g) = cc_next_tx (g_client g)"
    "g_tasks ?g = (g_tasks g)(i \<mapsto> (key, Finished (case result of Inl e \<Rightarrow> StoreError e | Inr r \<Rightarrow> answer_of r)))"
    by (simp_all add: finish_section_def cache_def move_task_def Let_def)
  have lead: "g_tasks ?g j = Some (k, Leading tx') \<longleftrightarrow> g_tasks g j = Some (k, Leading tx') \<and> k \<noteq> key" for j k tx'
    using u [of j tx'] t unfolding g by (cases "j = i") auto
  have fl: "cc_inflight (g_client ?g) k = Some tx' \<longleftrightarrow> k \<noteq> key \<and> cc_inflight (g_client g) k = Some tx'" for k tx'
    unfolding g by simp
  show ?thesis
  proof (rule recon_invI)
    show "justified answers k a" if "g_tasks ?g j = Some (k, Finished a)" for j k a
      using that j recon_invD(4) [OF inv] unfolding g by (auto split: if_splits)
    show "finite (dom (cc_cache (g_client ?g)))" "card (dom (cc_cache (g_client ?g))) \<le> MAX_CACHE_ENTRIES"
      using c unfolding g(1) by simp_all
    show "answers k (Some (ce_response e))" if "cc_cache (g_client ?g) k = Some e" for k e using that a unfolding g(1) by simp
    show "tx' < cc_next_tx (g_client ?g)" if "cc_inflight (g_client ?g) k = Some tx'" for k tx'
      using that recon_invD(5) [OF inv, of k tx'] unfolding fl g(3) by simp
    show "cc_inflight (g_client ?g) k = Some tx'" if "g_tasks ?g j = Some (k, Leading tx')" for j k tx'
      using that recon_invD(6) [OF inv, of j k tx'] unfolding fl lead by simp
    show "j = j'" if "g_tasks ?g j = Some (k, Leading tx')" "g_tasks ?g j' = Some (k, Leading tx')" for j j' k tx'
      using that recon_invD(7) [OF inv, of j k tx' j'] unfolding lead by simp
    show "\<exists>j. g_tasks ?g j = Some (k, Leading tx')" if "\<not> cancels" "cc_inflight (g_client ?g) k = Some tx'" for k tx'
      using that recon_invD(8) [OF inv, of k tx'] unfolding lead fl by simp
  qed
qed

lemma recon_inv_step: "recon_step answers cancels ttl g g' \<Longrightarrow> recon_inv answers cancels g \<Longrightarrow> recon_inv answers cancels g'"
proof (induction rule: recon_step.induct)
  case (g_call g i key)
  then show ?case using recon_inv_quiet [of answers cancels g "g_client g" Looking key i] recon_invD(1-3) [of answers cancels g] by simp
next
  case (g_wake g i key tx)
  then show ?case using recon_inv_quiet [of answers cancels g "g_client g" Looking key i] recon_invD(1-3) [of answers cancels g] by simp
next
  case (g_cancel g i key ph)
  note inv = g_cancel.prems
  let ?g = "g\<lparr>g_tasks := (g_tasks g)(i := None)\<rparr>"
  have lead: "g_tasks ?g j = Some x \<longleftrightarrow> j \<noteq> i \<and> g_tasks g j = Some x" for j x by simp
  have "\<exists>j. j \<noteq> i \<and> g_tasks g j = Some (k, Leading tx)" if "\<not> cancels" "cc_inflight (g_client g) k = Some tx" for k tx
    using recon_invD(8) [OF inv that] g_cancel.hyps that(1) by (metis option.inject prod.inject)
  then show ?case unfolding recon_inv_def lead using recon_invD(1-7) [OF inv] by (simp; blast)
qed (auto intro: recon_inv_check recon_inv_flight recon_inv_finish)

lemma recon_inv_reach: "recon_reach answers cancels ttl g \<Longrightarrow> recon_inv answers cancels g"
  by (induction rule: recon_reach.induct) (auto intro: recon_inv_start recon_inv_step)

section \<open>Properties\<close>

text \<open>
  C12: whatever the callers do, in every interleaving and with any of them dropped, an answer from the
  plan cache reproduces exactly the requested bytes of the file, as the store's own answers do: a
  plan given for a file or a range is faithful to it, whether it came from the store, from the cache
  or was cut out of the plan of the whole file; and a caller is told that the range does not exist
  only by the store, or when the range is empty or starts at or after the end of the file.
\<close>

theorem recon_answers_exact:
  assumes "recon_reach answers cancels ttl g"
    and store: "\<And>key resp. answers key (Some resp) \<Longrightarrow> faithful content data key resp"
    and "\<And>f. length (content f) \<le> u64_max" and t: "g_tasks g i = Some (key, Finished a)"
  shows "case a of
      Plan resp \<Rightarrow> faithful content data key resp
    | NoRange \<Rightarrow> answers key None \<or>
        (\<exists>rng. rk_range key = Some rng \<and> (length (content (rk_file key)) \<le> fr_start rng \<or> fr_end rng \<le> fr_start rng))
    | StoreError e \<Rightarrow> True"
proof -
  have "justified answers key a" by (rule recon_invD(4) [OF recon_inv_reach [OF assms(1)] t])
  then consider (err) e where "a = StoreError e" | (store) r where "a = answer_of r" "answers key r"
    | (derived) rng full r where "rk_range key = Some rng" "answers (full_key (rk_file key)) (Some full)"
        "cached_answer (FullPlan full rng) = Some r" "a = answer_of r"
    unfolding justified_def by blast
  then show ?thesis
  proof cases
    case derived
    have k: "key = range_key (rk_file key) rng" using derived(1) by (cases key) (simp add: range_key_def)
    have f: "faithful content data (full_key (rk_file key)) full" by (rule store [OF derived(2)])
    show ?thesis
    proof (cases r)
      case None
      then show ?thesis using derived derive_none [OF f assms(3), of rng] by (simp add: answer_of_def)
    next
      case (Some resp)
      then have "resp = derive_range_response full rng" using derived(3) by (auto simp: Let_def split: if_splits)
      then show ?thesis using derived(4) Some derive_faithful [OF f assms(3), of rng] k by (simp add: answer_of_def)
    qed
  qed (use store in \<open>auto simp: answer_of_def split: option.split\<close>)
qed

text \<open>
  C19: single flight.  At most one caller at a time asks the store for a key, the cache never holds
  more than its limit, and, when no leader is dropped, nobody waits for an answer that nobody is
  fetching: a waiting caller either can go on or waits for a leader that exists.
\<close>

theorem recon_single_flight:
  assumes "recon_reach answers cancels ttl g"
  shows "card (dom (cc_cache (g_client g))) \<le> MAX_CACHE_ENTRIES \<and>
    (\<forall>i j key tx tx'. g_tasks g i = Some (key, Leading tx) \<and> g_tasks g j = Some (key, Leading tx') \<longrightarrow> i = j) \<and>
    (\<not> cancels \<longrightarrow> (\<forall>i key tx. g_tasks g i = Some (key, Waiting tx) \<longrightarrow>
      cc_inflight (g_client g) key \<noteq> Some tx \<or> (\<exists>j. g_tasks g j = Some (key, Leading tx))))"
proof -
  note inv = recon_inv_reach [OF assms]
  have "i = j" if "g_tasks g i = Some (key, Leading tx)" "g_tasks g j = Some (key, Leading tx')" for i j key tx tx'
    using recon_invD(6) [OF inv that(1)] recon_invD(6) [OF inv that(2)] recon_invD(7) [OF inv, of i key tx j] that by simp
  then show ?thesis using recon_invD(2,8) [OF inv] by blast
qed

subsection \<open>A leader that is dropped\<close>

definition wedged :: "recon_key \<Rightarrow> nat \<Rightarrow> recon_conf \<Rightarrow> bool" where
  "wedged key tx g \<longleftrightarrow> cc_inflight (g_client g) key = Some tx \<and> cc_cache (g_client g) key = None \<and>
    (\<forall>i ph. g_tasks g i = Some (key, ph) \<longrightarrow> ph \<in> {Looking, Missed, Waiting tx})"

lemma wedgedI:
  assumes "wedged key tx g" and "cc_inflight cl key = Some tx" and "cc_cache cl key = None"
    and "key' = key \<Longrightarrow> ph \<in> {Looking, Missed, Waiting tx}"
  shows "wedged key tx (move_task i key' (ph, cl) g)"
  using assms unfolding wedged_def move_task_def by auto

lemma wedged_step:
  assumes "recon_step answers cancels ttl g g'" and "wedged (full_key f) tx g"
  shows "wedged (full_key f) tx g'"
  using assms
proof (induction rule: recon_step.induct)
  case (g_check g i key now)
  obtain r cache where r: "check_cache ttl now key (cc_cache (g_client g)) = (r, cache)" by (rule prod.exhaust)
  note c = check_cache_cases [OF r]
  have none: "cc_cache (g_client g) (full_key f) = None" using g_check.prems by (simp add: wedged_def)
  then have "cache (full_key f) = None" using c(1) by blast
  moreover have "r = NoPlan" if "key = full_key f"
    using that none c(3,4) by (cases r) fastforce+
  ultimately show ?case unfolding check_section_def r Let_def prod.case
    by (intro wedgedI [OF g_check.prems]) (use g_check.prems in \<open>simp_all add: wedged_def\<close>)
next
  case (g_flight g i key)
  then show ?case unfolding flight_section_def
    by (cases "cc_inflight (g_client g) key") (auto simp: Let_def wedged_def move_task_def split: if_splits)
next
  case (g_finish g i key tx' result order now)
  have ne: "key \<noteq> full_key f" using g_finish.hyps(1) g_finish.prems by (fastforce simp: wedged_def)
  have "store_plan order now key response (cc_cache (g_client g)) (full_key f) = None" for response
    using store_plan_cases [of order now key response "cc_cache (g_client g)" "full_key f"] ne g_finish.prems
    by (cases "store_plan order now key response (cc_cache (g_client g)) (full_key f)") (auto simp: wedged_def)
  then show ?case unfolding finish_section_def Let_def
    by (intro wedgedI [OF g_finish.prems]) (use g_finish.prems ne in \<open>auto simp: wedged_def split: sum.split option.split\<close>)
qed (auto simp: wedged_def move_task_def split: if_splits)

lemma wedged_steps: "(recon_step answers cancels ttl)\<^sup>*\<^sup>* g g' \<Longrightarrow> wedged (full_key f) tx g \<Longrightarrow> wedged (full_key f) tx g'"
  by (induction rule: rtranclp_induct) (auto intro: wedged_step)

text \<open>A caller that asks for a file and is dropped while the store has not answered.\<close>

definition dropped_leader :: recon_conf where
  "dropped_leader = recon_start\<lparr>g_client := snd (flight_section (full_key ''f'') client_new)\<rparr>"

lemma dropped_leader_reach: "recon_reach answers True ttl dropped_leader"
proof -
  let ?k = "full_key ''f''"
  let ?g1 = "move_task 0 ?k (Looking, g_client recon_start) recon_start"
  let ?g2 = "move_task 0 ?k (check_section ttl 0 ?k (g_client ?g1)) ?g1"
  let ?g3 = "move_task 0 ?k (flight_section ?k (g_client ?g2)) ?g2"
  note d = recon_start_def client_new_def move_task_def check_section_def check_cache_def try_get_def flight_section_def Let_def
  have "recon_reach answers True ttl ?g1" by (intro g_step [OF g_start g_call]) (simp add: d)
  then have "recon_reach answers True ttl ?g2" by (rule g_step [OF _ g_check]) (simp add: d)
  then have "recon_reach answers True ttl ?g3" by (rule g_step [OF _ g_flight]) (simp add: d)
  then have "recon_reach answers True ttl (?g3\<lparr>g_tasks := (g_tasks ?g3)(0 := None)\<rparr>)"
    by (rule g_step [OF _ g_cancel [of _ 0 ?k "Leading 0"]]) (simp_all add: d)
  moreover have "?g3\<lparr>g_tasks := (g_tasks ?g3)(0 := None)\<rparr> = dropped_leader" by (simp add: dropped_leader_def d)
  ultimately show ?thesis by simp
qed

text \<open>
  C40: a leader that is dropped while the store has not answered blocks its key for good.  Nothing takes
  its sender out of the map, so that afterwards, whatever happens, nobody asks the store for that
  file again and no caller for it ever gets an answer: each waits for the sender that is never used.
\<close>

theorem dropped_leader_blocks_key:
  "recon_reach answers True ttl dropped_leader \<and>
   (\<forall>g i ph. (recon_step answers True ttl)\<^sup>*\<^sup>* dropped_leader g \<longrightarrow> g_tasks g i = Some (full_key ''f'', ph) \<longrightarrow>
      ph = Looking \<or> ph = Missed \<or> ph = Waiting 0 \<and> cc_inflight (g_client g) (full_key ''f'') = Some 0)"
proof -
  have "wedged (full_key ''f'') 0 dropped_leader"
    by (simp add: wedged_def dropped_leader_def flight_section_def client_new_def recon_start_def Let_def)
  from wedged_steps [OF _ this] show ?thesis using dropped_leader_reach unfolding wedged_def by blast
qed

section \<open>Examples\<close>

text \<open>A file of three bytes in two pieces; one caller fetches its plan, another asks for its last two bytes.\<close>

definition demo_plan :: recon_response where
  "demo_plan = \<lparr>rr_offset_into_first_range = 0,
     rr_terms = [\<lparr>rt_hash = ''a'', rt_unpacked_length = 2, rt_chunks = (0, 1)\<rparr>, \<lparr>rt_hash = ''b'', rt_unpacked_length = 1, rt_chunks = (0, 1)\<rparr>],
     rr_xorbs = (\<lambda>_. Some [])\<rparr>"

definition demo_data :: "recon_term \<Rightarrow> bytes" where
  "demo_data tm = (if rt_hash tm = ''a'' then [1, 2] else [3])"

definition demo_store :: "recon_key \<Rightarrow> recon_response option \<Rightarrow> bool" where
  "demo_store key r \<longleftrightarrow> key = full_key ''f'' \<and> r = Some demo_plan"

definition tail_key :: recon_key where
  "tail_key = range_key ''f'' \<lparr>fr_start = 1, fr_end = 3\<rparr>"

lemmas recon_eval = recon_start_def client_new_def move_task_def check_section_def check_cache_def try_get_def flight_section_def
  finish_section_def store_plan_def make_room_def drop_ranges_of_def recon_entry_new_def entry_is_valid_def answer_of_def
  MAX_CACHE_ENTRIES_def CACHE_TTL_def tail_key_def full_key_def range_key_def Let_def

lemma recon_demo_run:
  "\<exists>g. recon_reach demo_store False CACHE_TTL g \<and>
     g_tasks g 1 = Some (tail_key, Finished (Plan (derive_range_response demo_plan \<lparr>fr_start = 1, fr_end = 3\<rparr>)))"
proof -
  let ?k = "full_key ''f''" and ?r = "recon_reach demo_store False CACHE_TTL"
  let ?g1 = "move_task 0 ?k (Looking, g_client recon_start) recon_start"
  let ?g2 = "move_task 0 ?k (check_section CACHE_TTL 0 ?k (g_client ?g1)) ?g1"
  let ?g3 = "move_task 0 ?k (flight_section ?k (g_client ?g2)) ?g2"
  let ?g4 = "move_task 0 ?k (finish_section [] 5 ?k (Inr (Some demo_plan)) (g_client ?g3)) ?g3"
  let ?g5 = "move_task 1 tail_key (Looking, g_client ?g4) ?g4"
  let ?g6 = "move_task 1 tail_key (check_section CACHE_TTL 9 tail_key (g_client ?g5)) ?g5"
  have "?r ?g1" by (intro g_step [OF g_start g_call]) (simp add: recon_eval)
  then have "?r ?g2" by (rule g_step [OF _ g_check]) (simp add: recon_eval)
  then have "?r ?g3" by (rule g_step [OF _ g_flight]) (simp add: recon_eval)
  then have "?r ?g4" by (rule g_step [OF _ g_finish [of _ 0 _ 0]]) (simp_all add: recon_eval demo_store_def)
  then have "?r ?g5" by (rule g_step [OF _ g_call]) (simp add: recon_eval)
  then have "?r ?g6" by (rule g_step [OF _ g_check]) (simp add: recon_eval)
  moreover have "g_tasks ?g6 1 = Some (tail_key, Finished (Plan (derive_range_response demo_plan \<lparr>fr_start = 1, fr_end = 3\<rparr>)))"
    by (simp add: recon_eval derive_range_response_def demo_plan_def wrap64_def)
  ultimately show ?thesis by blast
qed

theorem recon_answers_exact_witness:
  "\<exists>(g :: recon_conf) resp. g_tasks g 1 = Some (tail_key, Finished (Plan resp)) \<and> take 2 (plan_bytes demo_data resp) = [2, 3]"
proof -
  obtain g where g: "recon_reach demo_store False CACHE_TTL g"
    "g_tasks g 1 = Some (tail_key, Finished (Plan (derive_range_response demo_plan \<lparr>fr_start = 1, fr_end = 3\<rparr>)))"
    using recon_demo_run by blast
  have "faithful (\<lambda>_. [1, 2, 3]) demo_data key resp" if "demo_store key (Some resp)" for key resp
    using that by (auto simp: demo_store_def faithful_def demo_plan_def demo_data_def plan_bytes_def)
  from recon_answers_exact [OF g(1) this _ g(2)]
  have "faithful (\<lambda>_. [1, 2, 3]) demo_data tail_key (derive_range_response demo_plan \<lparr>fr_start = 1, fr_end = 3\<rparr>)"
    by (simp add: u64_max_def)
  then show ?thesis using g(2) by (intro exI [of _ g]) (auto simp: faithful_def tail_key_def range_key_def)
qed

theorem recon_single_flight_witness:
  "\<exists>g :: recon_conf. g_tasks g 1 \<noteq> None \<and> card (dom (cc_cache (g_client g))) \<le> MAX_CACHE_ENTRIES"
  using recon_demo_run recon_single_flight by (metis option.distinct(1))

theorem dropped_leader_blocks_key_witness:
  "\<exists>g. (recon_step demo_store True CACHE_TTL)\<^sup>*\<^sup>* dropped_leader g \<and> (\<exists>ph. g_tasks g 1 = Some (full_key ''f'', ph) \<and>
     (ph = Looking \<or> ph = Missed \<or> ph = Waiting 0 \<and> cc_inflight (g_client g) (full_key ''f'') = Some 0))"
proof -
  let ?g = "move_task 1 (full_key ''f'') (Looking, g_client dropped_leader) dropped_leader"
  have s: "(recon_step demo_store True CACHE_TTL)\<^sup>*\<^sup>* dropped_leader ?g"
    by (rule r_into_rtranclp, rule g_call) (simp add: dropped_leader_def recon_start_def)
  moreover have "g_tasks ?g 1 = Some (full_key ''f'', Looking)" by (simp add: move_task_def)
  ultimately show ?thesis
    using dropped_leader_blocks_key [of demo_store CACHE_TTL, THEN conjunct2, rule_format, OF s] by blast
qed

end
