(* ===== verification/Nfs_Pool.thy ===== *)
theory Nfs_Pool
  imports Prelude
begin

text \<open>
  \<open>src/src/nfs.rs\<close>: the pool of open handles.  NFS has no open and close, so the adapter keeps the
  handles it opened by inode, pins those in use and gives up the least recently used when it has too
  many.
\<close>

section \<open>The pool\<close>

definition HANDLE_POOL_CAPACITY :: nat where "HANDLE_POOL_CAPACITY = 64"

record insert_result =
  ir_evicted :: "(nat \<times> nat) list"
  ir_replaced :: "nat option"

record handle_entry =
  he_file_handle :: nat
  he_pin_count :: nat

record handle_pool =
  hp_handles :: "nat \<rightharpoonup> handle_entry"
  hp_order :: "nat list"

definition pool_new :: handle_pool where
  "pool_new = \<lparr>hp_handles = Map.empty, hp_order = []\<rparr>"

definition pin :: "nat \<Rightarrow> handle_pool \<Rightarrow> nat option \<times> handle_pool" where
  "pin ino p =
    (case hp_handles p ino of
      None \<Rightarrow> (None, p)
    | Some e \<Rightarrow> (Some (he_file_handle e),
        p\<lparr>hp_handles := (hp_handles p)(ino \<mapsto> e\<lparr>he_pin_count := wrap32 (he_pin_count e + 1)\<rparr>)\<rparr>))"

definition unpin :: "nat \<Rightarrow> handle_pool \<Rightarrow> handle_pool" where
  "unpin ino p =
    (case hp_handles p ino of
      None \<Rightarrow> p
    | Some e \<Rightarrow> p\<lparr>hp_handles := (hp_handles p)(ino \<mapsto> e\<lparr>he_pin_count := he_pin_count e - 1\<rparr>)\<rparr>)"

definition order_remove :: "nat \<Rightarrow> nat list \<Rightarrow> nat list" where
  "order_remove ino order = remove1 ino order"

definition acquire_shared :: "nat \<Rightarrow> handle_pool \<Rightarrow> nat option \<times> handle_pool" where
  "acquire_shared ino p =
    (case pin ino p of
      (None, p1) \<Rightarrow> (None, p1)
    | (Some fh, p1) \<Rightarrow>
        (Some fh, if hp_order p1 \<noteq> [] \<and> last (hp_order p1) = ino then p1
                  else p1\<lparr>hp_order := order_remove ino (hp_order p1) @ [ino]\<rparr>))"

definition peek :: "nat \<Rightarrow> handle_pool \<Rightarrow> nat option" where
  "peek ino p = map_option he_file_handle (hp_handles p ino)"

definition pool_remove :: "nat \<Rightarrow> handle_pool \<Rightarrow> nat option \<times> handle_pool" where
  "pool_remove ino p =
    (case hp_handles p ino of
      None \<Rightarrow> (None, p)
    | Some e \<Rightarrow> (Some (he_file_handle e),
        p\<lparr>hp_handles := (hp_handles p)(ino := None), hp_order := order_remove ino (hp_order p)\<rparr>))"

text \<open>\<open>drain\<close> gives the entries in the map's iteration order, here \<open>order\<close>.\<close>

definition pool_drain :: "nat list \<Rightarrow> handle_pool \<Rightarrow> (nat \<times> nat) list \<times> handle_pool" where
  "pool_drain order p =
    (List.map_filter (\<lambda>ino. map_option (\<lambda>e. (ino, he_file_handle e)) (hp_handles p ino)) order, pool_new)"

text \<open>The eviction loop of \<open>insert\<close>: the entries given up, the entries and the order that stay.\<close>

fun evict_lru :: "(nat \<rightharpoonup> handle_entry) \<Rightarrow> nat list \<Rightarrow> (nat \<times> nat) list \<times> (nat \<rightharpoonup> handle_entry) \<times> nat list" where
  "evict_lru handles [] = ([], handles, [])"
| "evict_lru handles (lru_ino # order) =
    (if card (dom handles) < HANDLE_POOL_CAPACITY then ([], handles, lru_ino # order)
     else (case handles lru_ino of
        None \<Rightarrow> evict_lru handles order
      | Some e \<Rightarrow>
          if he_pin_count e \<noteq> 0 then ([], handles, lru_ino # order)
          else (case evict_lru (handles(lru_ino := None)) order of
              (evicted, h, ord) \<Rightarrow> ((lru_ino, he_file_handle e) # evicted, h, ord))))"

definition pool_insert :: "nat \<Rightarrow> nat \<Rightarrow> handle_pool \<Rightarrow> insert_result \<times> handle_pool" where
  "pool_insert ino file_handle p =
    (let (replaced, p1) = pool_remove ino p;
         (evicted, handles, order) = evict_lru (hp_handles p1) (hp_order p1)
     in (\<lparr>ir_evicted = evicted, ir_replaced = replaced\<rparr>,
         \<lparr>hp_handles = handles(ino \<mapsto> \<lparr>he_file_handle = file_handle, he_pin_count = 0\<rparr>), hp_order = order @ [ino]\<rparr>))"

section \<open>The invariant\<close>

text \<open>The order lists the pooled inodes once each; so the pool is finite.\<close>

definition pool_ok :: "handle_pool \<Rightarrow> bool" where
  "pool_ok p \<longleftrightarrow> distinct (hp_order p) \<and> set (hp_order p) = dom (hp_handles p)"

definition pooled :: "handle_pool \<Rightarrow> nat set" where
  "pooled p = he_file_handle ` ran (hp_handles p)"

lemma pooledI: "hp_handles p ino = Some e \<Longrightarrow> he_file_handle e \<in> pooled p"
  by (auto simp: pooled_def ran_def)

lemma pooledE:
  assumes "fh \<in> pooled p"
  obtains ino e where "hp_handles p ino = Some e" and "he_file_handle e = fh"
  using assms by (auto simp: pooled_def ran_def)

lemma pool_ok_new: "pool_ok pool_new" "pooled pool_new = {}"
  by (simp_all add: pool_ok_def pool_new_def pooled_def)

lemma pool_ok_unpin: "pool_ok p \<Longrightarrow> pool_ok (unpin ino p)"
  by (auto simp: pool_ok_def unpin_def split: option.split)

lemma pooled_same:
  assumes "\<And>i. map_option he_file_handle (hp_handles q i) = map_option he_file_handle (hp_handles p i)"
  shows "pooled q = pooled p"
proof -
  have eq: "pooled q = {fh. \<exists>i. map_option he_file_handle (hp_handles q i) = Some fh}" for q
    by (auto simp: pooled_def ran_def)
  show ?thesis by (simp only: eq assms)
qed

lemma pooled_unpin: "pooled (unpin ino p) = pooled p"
  by (rule pooled_same) (simp add: unpin_def split: option.split)

lemma pool_ok_acquire: "pool_ok p \<Longrightarrow> pool_ok (snd (acquire_shared ino p))"
  by (auto simp: pool_ok_def acquire_shared_def pin_def order_remove_def split: option.split)

lemma pooled_acquire: "pooled (snd (acquire_shared ino p)) = pooled p" "fst (acquire_shared ino p) = peek ino p"
proof -
  show "pooled (snd (acquire_shared ino p)) = pooled p"
    by (rule pooled_same) (simp add: acquire_shared_def pin_def split: option.split)
  show "fst (acquire_shared ino p) = peek ino p"
    by (simp add: acquire_shared_def pin_def peek_def split: option.split)
qed

lemma pool_ok_remove: "pool_ok p \<Longrightarrow> pool_ok (snd (pool_remove ino p))"
  by (auto simp: pool_ok_def pool_remove_def order_remove_def split: option.split)

lemma pooled_remove: "pooled p \<subseteq> pooled (snd (pool_remove ino p)) \<union> set_option (peek ino p)" "pooled (snd (pool_remove ino p)) \<subseteq> pooled p"
  "fst (pool_remove ino p) = peek ino p" "hp_handles (snd (pool_remove ino p)) = (hp_handles p)(ino := None)"
proof -
  show h: "hp_handles (snd (pool_remove ino p)) = (hp_handles p)(ino := None)"
    by (auto simp: pool_remove_def split: option.split)
  show "fst (pool_remove ino p) = peek ino p" by (simp add: pool_remove_def peek_def split: option.split)
  show "pooled p \<subseteq> pooled (snd (pool_remove ino p)) \<union> set_option (peek ino p)"
  proof
    fix fh assume "fh \<in> pooled p"
    then obtain i e where "hp_handles p i = Some e" "he_file_handle e = fh" by (rule pooledE)
    then show "fh \<in> pooled (snd (pool_remove ino p)) \<union> set_option (peek ino p)"
      using pooledI [of "snd (pool_remove ino p)" i e] h by (cases "i = ino") (auto simp: peek_def)
  qed
  show "pooled (snd (pool_remove ino p)) \<subseteq> pooled p" unfolding pooled_def h by (auto simp: ran_def)
qed

section \<open>Insertion\<close>

text \<open>The loop gives up a prefix of the order, all unpinned, and stops below the capacity or at a pinned entry.\<close>

lemma evict_lru_spec:
  assumes "distinct order" and "set order = dom handles" and "evict_lru handles order = (evicted, h, ord)"
  shows "order = map fst evicted @ ord \<and> h = handles |` (- set (map fst evicted)) \<and>
    (\<forall>(i, fh) \<in> set evicted. handles i = Some \<lparr>he_file_handle = fh, he_pin_count = 0\<rparr>) \<and>
    (card (dom h) < HANDLE_POOL_CAPACITY \<or> (\<exists>i e rest. ord = i # rest \<and> h i = Some e \<and> he_pin_count e \<noteq> 0)) \<and>
    (evicted \<noteq> [] \<longrightarrow> HANDLE_POOL_CAPACITY \<le> card (dom h) + 1)"
  using assms
proof (induction order arbitrary: handles evicted)
  case (Cons i order)
  obtain e where e: "handles i = Some e" using Cons.prems(2) by auto
  have d: "distinct order" "set order = dom (handles(i := None))" using Cons.prems(1,2) by auto
  show ?case
  proof (cases "card (dom handles) < HANDLE_POOL_CAPACITY \<or> he_pin_count e \<noteq> 0")
    case True
    then have "evicted = []" "h = handles" "ord = i # order" using Cons.prems(3) e by (auto split: if_splits)
    then show ?thesis using True e by auto
  next
    case False
    then obtain ev where ev: "evict_lru (handles(i := None)) order = (ev, h, ord)" "evicted = (i, he_file_handle e) # ev"
      using Cons.prems(3) e by (auto split: prod.splits)
    note IH = Cons.IH [OF d ev(1)]
    have f: "finite (dom handles)" using Cons.prems(2) List.finite_set by metis
    have "card (dom (handles(i := None))) + 1 = card (dom handles)" using card_Suc_Diff1 [OF f domI [of handles i e, OF e]] by simp
    moreover have "h = handles(i := None)" if "ev = []" using that IH by (simp add: fun_eq_iff)
    ultimately have "HANDLE_POOL_CAPACITY \<le> card (dom h) + 1" if "ev = []" using that False by (simp only:) linarith
    then have "HANDLE_POOL_CAPACITY \<le> card (dom h) + 1" using IH by blast
    moreover have "h = handles |` (- set (map fst evicted))"
      using conjunct1 [OF conjunct2 [OF IH]] ev(2) by (simp add: restrict_map_def fun_eq_iff)
    moreover have "\<forall>(j, fh) \<in> set evicted. handles j = Some \<lparr>he_file_handle = fh, he_pin_count = 0\<rparr>"
      using IH ev(2) e False by (cases e) (auto split: if_splits)
    moreover have "i # order = map fst evicted @ ord" using IH ev(2) by simp
    ultimately show ?thesis using IH by blast
  qed
qed (auto simp: restrict_map_def HANDLE_POOL_CAPACITY_def)

lemma evict_lru_rest:
  assumes "distinct order" and "set order = dom handles" and "evict_lru handles order = (evicted, h, ord)"
  shows "distinct ord" and "set ord = dom h" and "dom h \<subseteq> dom handles" and "finite (dom h)"
proof -
  have s: "order = map fst evicted @ ord" "h = handles |` (- set (map fst evicted))" using evict_lru_spec [OF assms] by blast+
  have "set (map fst evicted) \<inter> set ord = {}" "dom handles = set (map fst evicted) \<union> set ord"
    using assms(1,2) unfolding s(1) by auto
  then show "set ord = dom h" unfolding s(2) dom_restrict by blast
  then show "finite (dom h)" using List.finite_set by metis
  show "distinct ord" using assms(1) unfolding s(1) by simp
  show "dom h \<subseteq> dom handles" unfolding s(2) dom_restrict by blast
qed

lemma pool_insert_parts:
  assumes "pool_ok p" and "pool_insert ino fh p = (res, p')"
  obtains h ord where "evict_lru ((hp_handles p)(ino := None)) (order_remove ino (hp_order p)) = (ir_evicted res, h, ord)"
    and "ir_replaced res = peek ino p" and "p' = \<lparr>hp_handles = h(ino \<mapsto> \<lparr>he_file_handle = fh, he_pin_count = 0\<rparr>), hp_order = ord @ [ino]\<rparr>"
    and "distinct (order_remove ino (hp_order p))" and "set (order_remove ino (hp_order p)) = dom ((hp_handles p)(ino := None))"
proof -
  let ?q = "snd (pool_remove ino p)"
  have q: "pool_ok ?q" "hp_handles ?q = (hp_handles p)(ino := None)" by (rule pool_ok_remove [OF assms(1)], rule pooled_remove)
  have o: "hp_order ?q = order_remove ino (hp_order p)"
    using assms(1) remove1_idem [of ino "hp_order p"] by (auto simp: pool_remove_def order_remove_def pool_ok_def domIff split: option.split)
  obtain ev h ord where "evict_lru ((hp_handles p)(ino := None)) (order_remove ino (hp_order p)) = (ev, h, ord)" by (metis prod_cases3)
  then show thesis using assms(2) that [of h ord] q o pooled_remove(3) [of ino p]
    by (auto simp: pool_insert_def case_prod_beta pool_ok_def)
qed

text \<open>
  C17: inserting into the handle pool.  The new handle is pooled and unpinned, and most recently used; the handle it
  replaces is given back; every other entry stays as it was or is given up, and those given up were
  unpinned and the least recently used ones, in order; so no handle is lost.  The pool ends within its
  capacity unless the oldest entry that stays is pinned, and nothing is given up that did not have to be.
\<close>

theorem pool_insert_exact:
  assumes "pool_ok p" and "pool_insert ino fh p = (res, p')"
  shows "pool_ok p' \<and> hp_handles p' ino = Some \<lparr>he_file_handle = fh, he_pin_count = 0\<rparr> \<and> last (hp_order p') = ino \<and>
    ir_replaced res = peek ino p \<and>
    (\<forall>i. i \<noteq> ino \<longrightarrow> hp_handles p' i = (if i \<in> fst ` set (ir_evicted res) then None else hp_handles p i)) \<and>
    (\<forall>i h. (i, h) \<in> set (ir_evicted res) \<longrightarrow> i \<noteq> ino \<and> hp_handles p i = Some \<lparr>he_file_handle = h, he_pin_count = 0\<rparr>) \<and>
    order_remove ino (hp_order p) @ [ino] = map fst (ir_evicted res) @ hp_order p' \<and>
    (card (dom (hp_handles p')) \<le> HANDLE_POOL_CAPACITY \<or>
      (\<exists>e. hp_handles p' (hd (hp_order p')) = Some e \<and> he_pin_count e \<noteq> 0)) \<and>
    (ir_evicted res \<noteq> [] \<longrightarrow> HANDLE_POOL_CAPACITY \<le> card (dom (hp_handles p')))"
proof -
  obtain h ord where e: "evict_lru ((hp_handles p)(ino := None)) (order_remove ino (hp_order p)) = (ir_evicted res, h, ord)"
    and r: "ir_replaced res = peek ino p" and p': "p' = \<lparr>hp_handles = h(ino \<mapsto> \<lparr>he_file_handle = fh, he_pin_count = 0\<rparr>), hp_order = ord @ [ino]\<rparr>"
    and d: "distinct (order_remove ino (hp_order p))" "set (order_remove ino (hp_order p)) = dom ((hp_handles p)(ino := None))"
    by (rule pool_insert_parts [OF assms])
  note s = evict_lru_spec [OF d e]
  define ev where "ev = ir_evicted res"
  have s1: "order_remove ino (hp_order p) = map fst ev @ ord" and s2: "h = ((hp_handles p)(ino := None)) |` (- set (map fst ev))"
    and s3: "\<And>i fh. (i, fh) \<in> set ev \<Longrightarrow> ((hp_handles p)(ino := None)) i = Some \<lparr>he_file_handle = fh, he_pin_count = 0\<rparr>"
    and s4: "card (dom h) < HANDLE_POOL_CAPACITY \<or> (\<exists>i e rest. ord = i # rest \<and> h i = Some e \<and> he_pin_count e \<noteq> 0)"
    and s5: "ev \<noteq> [] \<longrightarrow> HANDLE_POOL_CAPACITY \<le> card (dom h) + 1"
    using s unfolding ev_def by blast+
  note ord = evict_lru_rest [OF d e]
  have no: "h ino = None" "ino \<notin> set ord" using ord(2,3) by auto
  have f: "finite (dom h)" by (rule ord(4))
  have card: "card (dom (hp_handles p')) = card (dom h) + 1" using f no by (simp add: p' domIff)
  have "pool_ok p'" using ord no by (auto simp: p' pool_ok_def)
  moreover have "card (dom (hp_handles p')) \<le> HANDLE_POOL_CAPACITY \<or> (\<exists>e. hp_handles p' (hd (hp_order p')) = Some e \<and> he_pin_count e \<noteq> 0)"
    using s4 card no by (auto simp: p')
  moreover have "hp_handles p' i = (if i \<in> fst ` set ev then None else hp_handles p i)" if "i \<noteq> ino" for i
    using that s2 by (simp add: p' restrict_map_def)
  moreover have "i \<noteq> ino \<and> hp_handles p i = Some \<lparr>he_file_handle = h, he_pin_count = 0\<rparr>" if "(i, h) \<in> set ev" for i h
    using s3 [OF that] by (auto split: if_splits)
  ultimately show ?thesis using s1 s5 card r unfolding ev_def by (simp add: p')
qed

theorem pool_insert_exact_witness:
  "hp_handles (snd (pool_insert 7 3 pool_new)) 7 = Some \<lparr>he_file_handle = 3, he_pin_count = 0\<rparr>"
  using pool_insert_exact [OF pool_ok_new(1) surjective_pairing, of 7 3] by blast

text \<open>The same for the handles alone.\<close>

lemma pooled_insert:
  assumes "pool_ok p" and "pool_insert ino fh p = (res, p')"
  shows "pool_ok p'" and "pooled p \<union> {fh} \<subseteq> pooled p' \<union> snd ` set (ir_evicted res) \<union> set_option (ir_replaced res)"
    and "snd ` set (ir_evicted res) \<union> set_option (ir_replaced res) \<subseteq> pooled p" and "pooled p' \<subseteq> insert fh (pooled p)"
proof -
  obtain h ord where e: "evict_lru ((hp_handles p)(ino := None)) (order_remove ino (hp_order p)) = (ir_evicted res, h, ord)"
    and r: "ir_replaced res = peek ino p" and p': "p' = \<lparr>hp_handles = h(ino \<mapsto> \<lparr>he_file_handle = fh, he_pin_count = 0\<rparr>), hp_order = ord @ [ino]\<rparr>"
    and d: "distinct (order_remove ino (hp_order p))" "set (order_remove ino (hp_order p)) = dom ((hp_handles p)(ino := None))"
    by (rule pool_insert_parts [OF assms])
  note s = evict_lru_spec [OF d e]
  have s2: "h = ((hp_handles p)(ino := None)) |` (- fst ` set (ir_evicted res))"
    and s3: "\<And>i fh. (i, fh) \<in> set (ir_evicted res) \<Longrightarrow> i \<noteq> ino \<and> hp_handles p i = Some \<lparr>he_file_handle = fh, he_pin_count = 0\<rparr>"
  proof -
    show "h = ((hp_handles p)(ino := None)) |` (- fst ` set (ir_evicted res))" using s by simp
    show "i \<noteq> ino \<and> hp_handles p i = Some \<lparr>he_file_handle = fh, he_pin_count = 0\<rparr>" if "(i, fh) \<in> set (ir_evicted res)" for i fh
      using s that by (cases "i = ino") fastforce+
  qed
  note ord = evict_lru_rest [OF d e]
  have "ino \<notin> dom h" using ord(3) by auto
  then show "pool_ok p'" using ord(1,2) by (auto simp: p' pool_ok_def)
  show "pooled p' \<subseteq> insert fh (pooled p)"
  proof
    fix x assume "x \<in> pooled p'"
    then obtain i en where i: "hp_handles p' i = Some en" "he_file_handle en = x" by (rule pooledE)
    then show "x \<in> insert fh (pooled p)" using s2 pooledI [of p i en] by (auto simp: p' restrict_map_def split: if_splits)
  qed
  show "snd ` set (ir_evicted res) \<union> set_option (ir_replaced res) \<subseteq> pooled p"
  proof
    fix x assume "x \<in> snd ` set (ir_evicted res) \<union> set_option (ir_replaced res)"
    then consider i where "(i, x) \<in> set (ir_evicted res)" | en where "hp_handles p ino = Some en" "he_file_handle en = x"
      using r by (auto simp: peek_def)
    then show "x \<in> pooled p"
    proof cases
      case 1
      from pooledI [of p, OF conjunct2 [OF s3 [OF this]]] show ?thesis by simp
    qed (use pooledI in blast)
  qed
  show "pooled p \<union> {fh} \<subseteq> pooled p' \<union> snd ` set (ir_evicted res) \<union> set_option (ir_replaced res)"
  proof
    fix x assume x: "x \<in> pooled p \<union> {fh}"
    show "x \<in> pooled p' \<union> snd ` set (ir_evicted res) \<union> set_option (ir_replaced res)"
    proof (cases "x = fh")
      case True
      then show ?thesis using pooledI [of p' ino "\<lparr>he_file_handle = fh, he_pin_count = 0\<rparr>"] by (simp add: p')
    next
      case False
      then obtain i en where i: "hp_handles p i = Some en" "he_file_handle en = x" using x by (auto elim: pooledE)
      consider "i = ino" | "i \<noteq> ino" "i \<in> fst ` set (ir_evicted res)" | "i \<noteq> ino" "i \<notin> fst ` set (ir_evicted res)" by blast
      then show ?thesis
      proof cases
        case 2
        then obtain y where y: "(i, y) \<in> set (ir_evicted res)" by auto
        then show ?thesis using s3 [OF y] i by force
      next
        case 3
        then have "hp_handles p' i = Some en" using i s2 by (simp add: p' restrict_map_def)
        then show ?thesis using pooledI i(2) by blast
      qed (use i r in \<open>simp add: peek_def\<close>)
    qed
  qed
qed

end
