(* ===== verification/Nfs.thy ===== *)
theory Nfs
  imports Nfs_Pool Open_Files Vfs_Lookup Vfs_Rename
begin

text \<open>
  \<open>src/src/nfs.rs\<close>: the NFS adapter.  Each procedure of the protocol is one or more calls of
  \<open>VirtualFs\<close> with a handle of the pool.

  A call that waits is followed by \<open>z_yield\<close>, what other requests have made of the mount and of the pool
  meanwhile; each use of the pool is one critical section.  A procedure gives \<open>None\<close> when a call of
  \<open>VirtualFs\<close> panics or does not end.  Times are nanoseconds since the epoch.
\<close>

section \<open>Conversions\<close>

datatype nfsstat3 =
    NFS3ERR_NOENT | NFS3ERR_IO | NFS3ERR_ACCES | NFS3ERR_EXIST | NFS3ERR_NOTDIR | NFS3ERR_ISDIR | NFS3ERR_INVAL
  | NFS3ERR_ROFS | NFS3ERR_NOTEMPTY | NFS3ERR_STALE | NFS3ERR_NOSPC | NFS3ERR_JUKEBOX

definition errno_to_nfs :: "int \<Rightarrow> nfsstat3" where
  "errno_to_nfs e =
    (if e = ENOENT then NFS3ERR_NOENT
     else if e = EIO then NFS3ERR_IO
     else if e = EACCES then NFS3ERR_ACCES
     else if e = EEXIST then NFS3ERR_EXIST
     else if e = ENOTDIR then NFS3ERR_NOTDIR
     else if e = EISDIR then NFS3ERR_ISDIR
     else if e = EINVAL then NFS3ERR_INVAL
     else if e = EROFS then NFS3ERR_ROFS
     else if e = ENOTEMPTY then NFS3ERR_NOTEMPTY
     else if e = EBADF then NFS3ERR_STALE
     else if e = ENOSPC then NFS3ERR_NOSPC
     else if e = EAGAIN then NFS3ERR_JUKEBOX
     else NFS3ERR_IO)"

definition nfs_name :: "bytes \<Rightarrow> nfsstat3 + string" where
  "nfs_name filename = (case from_utf8 filename of None \<Rightarrow> Inl NFS3ERR_INVAL | Some name \<Rightarrow> Inr name)"

definition system_time_to_nfstime :: "nat \<Rightarrow> nat \<times> nat" where
  "system_time_to_nfstime t = (min (t div 10 ^ 9) (2 ^ 32 - 1), t mod 10 ^ 9)"

definition nfstime_to_system_time :: "nat \<times> nat \<Rightarrow> nat" where
  "nfstime_to_system_time t = fst t * 10 ^ 9 + min (snd t) 999999999"

datatype ftype3 = NF3REG | NF3DIR | NF3LNK

record fattr3 =
  fa_ftype :: ftype3
  fa_mode :: nat
  fa_nlink :: nat
  fa_uid :: nat
  fa_gid :: nat
  fa_size :: nat
  fa_used :: nat
  fa_fileid :: nat
  fa_atime :: "nat \<times> nat"
  fa_mtime :: "nat \<times> nat"
  fa_ctime :: "nat \<times> nat"

definition vfs_attr_to_nfs :: "vfs_attr \<Rightarrow> fattr3" where
  "vfs_attr_to_nfs attr =
    \<lparr>fa_ftype = (case a_kind attr of File \<Rightarrow> NF3REG | Directory \<Rightarrow> NF3DIR | Symlink \<Rightarrow> NF3LNK),
     fa_mode = a_perm attr, fa_nlink = a_nlink attr, fa_uid = vfs_attr.a_uid attr, fa_gid = vfs_attr.a_gid attr, fa_size = a_size attr,
     fa_used = wrap64 (a_blocks attr * 512), fa_fileid = a_ino attr,
     fa_atime = system_time_to_nfstime (vfs_attr.a_atime attr), fa_mtime = system_time_to_nfstime (vfs_attr.a_mtime attr),
     fa_ctime = system_time_to_nfstime (a_ctime attr)\<rparr>"

datatype set_time = SET_TO_CLIENT_TIME "nat \<times> nat" | SET_TO_SERVER_TIME | DONT_CHANGE

record sattr3 =
  sa_size :: "nat option"
  sa_mode :: "nat option"
  sa_uid :: "nat option"
  sa_gid :: "nat option"
  sa_atime :: set_time
  sa_mtime :: set_time

definition mode_bits :: "nat \<Rightarrow> nat" where
  "mode_bits m = m mod 4096"

section \<open>The adapter\<close>

record nfs_adapter =
  n_io :: io_state
  n_pool :: handle_pool

text \<open>
  \<open>z_yield\<close> is given the handles the waiting request holds, whose numbers nobody is given again.
  \<open>z_read\<close> reads from a target that \<open>read\<close> has found; the rest of the environment is that of \<open>VirtualFs\<close>.
\<close>

record nfs_env =
  z_files :: file_env
  z_lookup :: lookup_env
  z_read :: "read_target \<Rightarrow> nat \<Rightarrow> nat \<Rightarrow> io_state \<Rightarrow> (int + bytes \<times> bool) \<times> io_state"
  z_yield :: "nat set \<Rightarrow> nfs_adapter \<Rightarrow> nfs_adapter"
  z_uid :: nat
  z_gid :: nat

type_synonym 'a nfs_result = "((nfsstat3 + 'a) \<times> nfs_adapter) option"

subsection \<open>Calling the file system\<close>

definition call_io :: "nfs_env \<Rightarrow> nat set \<Rightarrow> (io_state \<Rightarrow> 'a io_result) \<Rightarrow> nfs_adapter \<Rightarrow> ((int + 'a) \<times> nfs_adapter) option" where
  "call_io en held f s = map_option (\<lambda>(r, io). (r, z_yield en held (s\<lparr>n_io := io\<rparr>))) (f (n_io s))"

definition on_vfs :: "(vfs \<Rightarrow> ((int + 'a) \<times> vfs) option) \<Rightarrow> io_state \<Rightarrow> 'a io_result" where
  "on_vfs f io = map_option (\<lambda>(r, v). (r, io\<lparr>io_vfs := v\<rparr>)) (f (io_vfs io))"

definition vfs_env_of :: "nfs_env \<Rightarrow> vfs_env" where
  "vfs_env_of en = x_vfs (y_io (z_files en))"

definition nfs_then :: "((int + 'a) \<times> nfs_adapter) option \<Rightarrow> ('a \<Rightarrow> nfs_adapter \<Rightarrow> 'b nfs_result) \<Rightarrow> 'b nfs_result" where
  "nfs_then m f = (case m of None \<Rightarrow> None | Some (Inl e, s) \<Rightarrow> Some (Inl (errno_to_nfs e), s) | Some (Inr a, s) \<Rightarrow> f a s)"

definition nfs_getattr :: "nat \<Rightarrow> nfs_adapter \<Rightarrow> (nfsstat3 + fattr3) \<times> nfs_adapter" where
  "nfs_getattr ino s =
    (case getattr ino (io_vfs (n_io s)) of
      (Inl e, v) \<Rightarrow> (Inl (errno_to_nfs e), s\<lparr>n_io := (n_io s)\<lparr>io_vfs := v\<rparr>\<rparr>)
    | (Inr a, v) \<Rightarrow> (Inr (vfs_attr_to_nfs a), s\<lparr>n_io := (n_io s)\<lparr>io_vfs := v\<rparr>\<rparr>))"

definition read_op :: "nfs_env \<Rightarrow> nat \<Rightarrow> nat \<Rightarrow> nat \<Rightarrow> io_state \<Rightarrow> (bytes \<times> bool) io_result" where
  "read_op en fh offset n io =
    (case read_dispatch fh io of Inl e \<Rightarrow> fail_with e io | Inr tgt \<Rightarrow> Some (z_read en tgt offset n io))"

subsection \<open>Handles\<close>

definition release_now :: "nfs_env \<Rightarrow> nat \<Rightarrow> nfs_adapter \<Rightarrow> nfs_adapter option" where
  "release_now en fh s = map_option snd (call_io en {fh} (release (z_files en) fh) s)"

definition evict_handle :: "nfs_env \<Rightarrow> nat \<Rightarrow> nat \<Rightarrow> nfs_adapter \<Rightarrow> nfs_adapter option" where
  "evict_handle en ino fh s =
    Option.bind (call_io en {fh} (flush_op (z_files en) ino fh None) s) (\<lambda>(_, s1). release_now en fh s1)"

fun evict_all :: "nfs_env \<Rightarrow> (nat \<times> nat) list \<Rightarrow> nfs_adapter \<Rightarrow> nfs_adapter option" where
  "evict_all en [] s = Some s"
| "evict_all en ((ino, fh) # rest) s = Option.bind (evict_handle en ino fh s) (evict_all en rest)"

definition process_insert_result :: "nfs_env \<Rightarrow> insert_result \<Rightarrow> nfs_adapter \<Rightarrow> nfs_adapter option" where
  "process_insert_result en res s =
    Option.bind (evict_all en (ir_evicted res) s) (\<lambda>s1.
      case ir_replaced res of None \<Rightarrow> Some s1 | Some fh \<Rightarrow> release_now en fh s1)"

definition insert_pooled :: "nfs_env \<Rightarrow> nat \<Rightarrow> nat \<Rightarrow> nfs_adapter \<Rightarrow> nfs_adapter option" where
  "insert_pooled en ino fh s =
    (let (res, pool) = pool_insert ino fh (n_pool s)
     in Option.bind (evict_all en (ir_evicted res) (s\<lparr>n_pool := pool\<rparr>)) (\<lambda>s1.
          case ir_replaced res of None \<Rightarrow> Some s1 | Some old \<Rightarrow> evict_handle en ino old s1))"

definition get_or_open_handle :: "nfs_env \<Rightarrow> nat \<Rightarrow> nfs_adapter \<Rightarrow> nat nfs_result" where
  "get_or_open_handle en ino s0 =
    (case acquire_shared ino (n_pool s0) of
      (Some fh, pool) \<Rightarrow> Some (Inr fh, s0\<lparr>n_pool := pool\<rparr>)
    | (None, _) \<Rightarrow>
        (case call_io en {} (open_file_op (z_files en) ino False False None) s0 of
          None \<Rightarrow> None
        | Some (Inl e, s) \<Rightarrow>
            (case acquire_shared ino (n_pool s) of
              (Some fh, pool) \<Rightarrow> Some (Inr fh, s\<lparr>n_pool := pool\<rparr>)
            | (None, _) \<Rightarrow> Some (Inl (errno_to_nfs e), s))
        | Some (Inr fh, s) \<Rightarrow>
            (case acquire_shared ino (n_pool s) of
              (Some existing, pool) \<Rightarrow> map_option (Pair (Inr existing)) (release_now en fh (s\<lparr>n_pool := pool\<rparr>))
            | (None, _) \<Rightarrow>
                (let (res, pool) = pool_insert ino fh (n_pool s)
                 in map_option (Pair (Inr fh)) (process_insert_result en res (s\<lparr>n_pool := snd (acquire_shared ino pool)\<rparr>))))))"

section \<open>The procedures\<close>

definition nfs_lookup :: "nfs_env \<Rightarrow> nat \<Rightarrow> bytes \<Rightarrow> nfs_adapter \<Rightarrow> nat nfs_result" where
  "nfs_lookup en dirid filename s =
    (case nfs_name filename of
      Inl _ \<Rightarrow> Some (Inl NFS3ERR_NOENT, s)
    | Inr name \<Rightarrow> nfs_then (call_io en {} (on_vfs (lookup (z_lookup en) dirid name)) s) (\<lambda>a s. Some (Inr (a_ino a), s)))"

definition nfs_read :: "nfs_env \<Rightarrow> nat \<Rightarrow> nat \<Rightarrow> nat \<Rightarrow> nfs_adapter \<Rightarrow> (bytes \<times> bool) nfs_result" where
  "nfs_read en ino offset n s =
    (case (case acquire_shared ino (n_pool s) of
            (Some fh, pool) \<Rightarrow> Some (Inr fh, s\<lparr>n_pool := pool\<rparr>)
          | (None, _) \<Rightarrow> get_or_open_handle en ino s) of
      None \<Rightarrow> None
    | Some (Inl e, s1) \<Rightarrow> Some (Inl e, s1)
    | Some (Inr fh, s1) \<Rightarrow>
        (case call_io en {fh} (read_op en fh offset n) s1 of
          None \<Rightarrow> None
        | Some (r, s2) \<Rightarrow>
            (let s3 = s2\<lparr>n_pool := unpin ino (n_pool s2)\<rparr>
             in case r of
                  Inr bytes_eof \<Rightarrow> Some (Inr bytes_eof, s3)
                | Inl e \<Rightarrow>
                    if e \<noteq> EBADF then Some (Inl (errno_to_nfs e), s3)
                    else (let s4 = (if peek ino (n_pool s3) = Some fh then s3\<lparr>n_pool := snd (pool_remove ino (n_pool s3))\<rparr> else s3)
                          in nfs_then (call_io en {} (open_file_op (z_files en) ino False False None) s4) (\<lambda>h s5.
                               (case call_io en {h} (read_op en h offset n) s5 of
                                 None \<Rightarrow> None
                               | Some (r', s6) \<Rightarrow> map_option (Pair (map_sum errno_to_nfs id r')) (release_now en h s6)))))))"

text \<open>
  A page of a directory starts after the entry the client names, or at the beginning when it is gone.  An
  entry whose attributes cannot be read gets the default ones of the protocol library, here \<open>None\<close>.
\<close>

fun entry_position :: "nat \<Rightarrow> dir_entry list \<Rightarrow> nat option" where
  "entry_position ino [] = None"
| "entry_position ino (e # es) = (if d_ino e = ino then Some 0 else map_option Suc (entry_position ino es))"

definition page_start :: "nat \<Rightarrow> dir_entry list \<Rightarrow> nat" where
  "page_start start_after entries =
    (if start_after > 0 then (case entry_position start_after entries of None \<Rightarrow> 0 | Some i \<Rightarrow> i + 1) else 0)"

definition page_of :: "nat \<Rightarrow> nat \<Rightarrow> dir_entry list \<Rightarrow> dir_entry list \<times> bool" where
  "page_of start_after max_entries entries =
    (let skip = page_start start_after entries;
         page = take max_entries (drop skip entries)
     in (page, length entries \<le> skip + length page))"

fun page_attrs :: "dir_entry list \<Rightarrow> nfs_adapter \<Rightarrow> (nat \<times> string \<times> fattr3 option) list \<times> nfs_adapter" where
  "page_attrs [] s = ([], s)"
| "page_attrs (e # es) s =
    (let (r, s1) = nfs_getattr (d_ino e) s; (rest, s2) = page_attrs es s1
     in ((d_ino e, d_name e, case r of Inl _ \<Rightarrow> None | Inr a \<Rightarrow> Some a) # rest, s2))"

definition nfs_readdir ::
  "nfs_env \<Rightarrow> nat \<Rightarrow> nat \<Rightarrow> nat \<Rightarrow> nfs_adapter \<Rightarrow> ((nat \<times> string \<times> fattr3 option) list \<times> bool) nfs_result" where
  "nfs_readdir en dirid start_after max_entries s =
    nfs_then (call_io en {} (on_vfs (\<lambda>v. Some (readdir (vfs_env_of en) dirid v))) s) (\<lambda>entries s1.
      let (page, fin) = page_of start_after max_entries entries;
          (rows, s2) = page_attrs page s1
      in Some (Inr (rows, fin), s2))"

definition time_change :: "nat \<Rightarrow> set_time \<Rightarrow> nat option" where
  "time_change now t =
    (case t of SET_TO_CLIENT_TIME c \<Rightarrow> Some (nfstime_to_system_time c) | SET_TO_SERVER_TIME \<Rightarrow> Some now | DONT_CHANGE \<Rightarrow> None)"

definition nfs_setattr :: "nfs_env \<Rightarrow> nat \<Rightarrow> sattr3 \<Rightarrow> nfs_adapter \<Rightarrow> fattr3 nfs_result" where
  "nfs_setattr en ino sa s =
    (let now = y_now (z_files en);
         a = \<lparr>a_mode = map_option mode_bits (sa_mode sa), a_uid = sa_uid sa, a_gid = sa_gid sa,
              a_atime = time_change now (sa_atime sa), a_mtime = time_change now (sa_mtime sa)\<rparr>
     in nfs_then (call_io en {} (setattr (z_files en) ino (sa_size sa) a) s) (\<lambda>attr s. Some (Inr (vfs_attr_to_nfs attr), s)))"

definition write_now :: "nfs_env \<Rightarrow> nat \<Rightarrow> nat \<Rightarrow> bytes \<Rightarrow> nfs_adapter \<Rightarrow> (int + nat) \<times> nfs_adapter" where
  "write_now en fh offset data s =
    (case write_op (z_files en) fh offset data (n_io s) of (r, io) \<Rightarrow> (r, s\<lparr>n_io := io\<rparr>))"

definition schedule_flush :: "nat \<Rightarrow> nfs_adapter \<Rightarrow> nfs_adapter" where
  "schedule_flush ino s = s\<lparr>n_io := enqueue_flush ino (n_io s)\<rparr>"

definition nfs_write_slow :: "nfs_env \<Rightarrow> nat \<Rightarrow> nat \<Rightarrow> bytes \<Rightarrow> nfs_adapter \<Rightarrow> fattr3 nfs_result" where
  "nfs_write_slow en ino offset data s =
    nfs_then (call_io en {} (open_file_op (z_files en) ino True False None) s) (\<lambda>fh s1.
      case write_now en fh offset data s1 of
        (Inl e, s2) \<Rightarrow> map_option (Pair (Inl (errno_to_nfs e))) (release_now en fh s2)
      | (Inr _, s2) \<Rightarrow>
          map_option (\<lambda>s3. nfs_getattr ino (schedule_flush ino s3)) (insert_pooled en ino fh s2))"

definition nfs_write :: "nfs_env \<Rightarrow> nat \<Rightarrow> nat \<Rightarrow> bytes \<Rightarrow> nfs_adapter \<Rightarrow> fattr3 nfs_result" where
  "nfs_write en ino offset data s =
    (case peek ino (n_pool s) of
      None \<Rightarrow> nfs_write_slow en ino offset data s
    | Some fh \<Rightarrow>
        (case write_now en fh offset data s of
          (Inr _, s1) \<Rightarrow> Some (nfs_getattr ino (schedule_flush ino s1))
        | (Inl e, s1) \<Rightarrow>
            if e \<noteq> EBADF then Some (Inl (errno_to_nfs e), s1)
            else Option.bind
              (evict_handle en ino fh
                (if peek ino (n_pool s1) = Some fh then s1\<lparr>n_pool := snd (pool_remove ino (n_pool s1))\<rparr> else s1))
              (nfs_write_slow en ino offset data)))"

definition create_file :: "nfs_env \<Rightarrow> nat \<Rightarrow> bytes \<Rightarrow> nat \<Rightarrow> nat \<Rightarrow> nat \<Rightarrow> nfs_adapter \<Rightarrow> (nat \<times> fattr3) nfs_result" where
  "create_file en dirid filename mode uid gid s =
    (case nfs_name filename of
      Inl e \<Rightarrow> Some (Inl e, s)
    | Inr name \<Rightarrow>
        nfs_then (call_io en {} (create (z_files en) dirid name mode uid gid None) s) (\<lambda>(attr, fh) s1.
          map_option (Pair (Inr (a_ino attr, vfs_attr_to_nfs attr))) (insert_pooled en (a_ino attr) fh s1)))"

definition flush_created :: "(nat \<times> fattr3) nfs_result \<Rightarrow> (nat \<times> fattr3) nfs_result" where
  "flush_created m =
    map_option (\<lambda>(r, s). (r, case r of Inl _ \<Rightarrow> s | Inr (ino, _) \<Rightarrow> schedule_flush ino s)) m"

definition nfs_create :: "nfs_env \<Rightarrow> nat \<Rightarrow> bytes \<Rightarrow> sattr3 \<Rightarrow> nfs_adapter \<Rightarrow> (nat \<times> fattr3) nfs_result" where
  "nfs_create en dirid filename sa s =
    flush_created (create_file en dirid filename (case sa_mode sa of None \<Rightarrow> 420 | Some m \<Rightarrow> mode_bits m)
      (or_old (sa_uid sa) (z_uid en)) (or_old (sa_gid sa) (z_gid en)) s)"

definition nfs_create_exclusive :: "nfs_env \<Rightarrow> nat \<Rightarrow> bytes \<Rightarrow> nfs_adapter \<Rightarrow> nat nfs_result" where
  "nfs_create_exclusive en dirid filename s =
    map_option (\<lambda>(r, s). (map_sum id fst r, s)) (flush_created (create_file en dirid filename 420 (z_uid en) (z_gid en) s))"

definition nfs_mkdir :: "nfs_env \<Rightarrow> nat \<Rightarrow> bytes \<Rightarrow> nfs_adapter \<Rightarrow> (nat \<times> fattr3) nfs_result" where
  "nfs_mkdir en dirid dirname s =
    (case nfs_name dirname of
      Inl e \<Rightarrow> Some (Inl e, s)
    | Inr name \<Rightarrow>
        nfs_then (call_io en {} (on_vfs (mkdir (vfs_env_of en) dirid name 493 (z_uid en) (z_gid en))) s)
          (\<lambda>attr s. Some (Inr (a_ino attr, vfs_attr_to_nfs attr), s)))"

text \<open>The handle of a file that is gone leaves the pool and is given up.\<close>

definition drop_pooled :: "nfs_env \<Rightarrow> nat \<Rightarrow> nfs_adapter \<Rightarrow> unit nfs_result" where
  "drop_pooled en ino s =
    (case pool_remove ino (n_pool s) of
      (None, _) \<Rightarrow> Some (Inr (), s)
    | (Some fh, pool) \<Rightarrow> map_option (Pair (Inr ())) (evict_handle en ino fh (s\<lparr>n_pool := pool\<rparr>)))"

definition nfs_remove :: "nfs_env \<Rightarrow> nat \<Rightarrow> bytes \<Rightarrow> nfs_adapter \<Rightarrow> unit nfs_result" where
  "nfs_remove en dirid filename s =
    (case nfs_name filename of
      Inl e \<Rightarrow> Some (Inl e, s)
    | Inr name \<Rightarrow>
        nfs_then (call_io en {} (on_vfs (lookup (z_lookup en) dirid name)) s) (\<lambda>attr s1.
        nfs_then (call_io en {} (on_vfs (if a_kind attr = Directory then rmdir (vfs_env_of en) dirid name
                                      else unlink (vfs_env_of en) dirid name)) s1) (\<lambda>_ s2.
        drop_pooled en (a_ino attr) s2)))"

definition ino_of :: "(int + vfs_attr) \<Rightarrow> nat option" where
  "ino_of r = (case r of Inl _ \<Rightarrow> None | Inr a \<Rightarrow> Some (a_ino a))"

definition nfs_rename :: "nfs_env \<Rightarrow> nat \<Rightarrow> bytes \<Rightarrow> nat \<Rightarrow> bytes \<Rightarrow> nfs_adapter \<Rightarrow> unit nfs_result" where
  "nfs_rename en from_dirid from_filename to_dirid to_filename s =
    (case (nfs_name from_filename, nfs_name to_filename) of
      (Inl e, _) \<Rightarrow> Some (Inl e, s)
    | (_, Inl e) \<Rightarrow> Some (Inl e, s)
    | (Inr from_name, Inr to_name) \<Rightarrow>
        Option.bind (call_io en {} (on_vfs (lookup (z_lookup en) to_dirid to_name)) s) (\<lambda>(r, s1).
        Option.bind (if ino_of r = None then Some (None, s1)
             else map_option (\<lambda>(r', s2). (ino_of r', s2)) (call_io en {} (on_vfs (lookup (z_lookup en) from_dirid from_name)) s1)) (\<lambda>(src_ino, s2).
        nfs_then (call_io en {} (on_vfs (rename (vfs_env_of en) from_dirid from_name to_dirid to_name False)) s2) (\<lambda>_ s3.
          case ino_of r of
            None \<Rightarrow> Some (Inr (), s3)
          | Some ino \<Rightarrow> if src_ino = Some ino then Some (Inr (), s3) else drop_pooled en ino s3))))"

definition nfs_symlink :: "nfs_env \<Rightarrow> nat \<Rightarrow> bytes \<Rightarrow> bytes \<Rightarrow> sattr3 \<Rightarrow> nfs_adapter \<Rightarrow> (nat \<times> fattr3) nfs_result" where
  "nfs_symlink en dirid linkname target sa s =
    (case nfs_name linkname of
      Inl e \<Rightarrow> Some (Inl e, s)
    | Inr name \<Rightarrow>
        (case from_utf8 target of
          None \<Rightarrow> Some (Inl NFS3ERR_INVAL, s)
        | Some tgt \<Rightarrow>
            nfs_then (call_io en {} (on_vfs (\<lambda>v. Some (symlink (vfs_env_of en) dirid name tgt
                  (case sa_mode sa of None \<Rightarrow> 511 | Some m \<Rightarrow> mode_bits m) (or_old (sa_uid sa) (z_uid en)) (or_old (sa_gid sa) (z_gid en)) v))) s)
              (\<lambda>attr s. Some (Inr (a_ino attr, vfs_attr_to_nfs attr), s))))"

definition nfs_readlink :: "nat \<Rightarrow> nfs_adapter \<Rightarrow> nfsstat3 + bytes" where
  "nfs_readlink ino s = map_sum errno_to_nfs as_bytes (readlink ino (io_vfs (n_io s)))"

text \<open>The invalidation of a changed inode, and the drain when the mount goes away.\<close>

definition nfs_invalidate :: "nfs_env \<Rightarrow> nat \<Rightarrow> nfs_adapter \<Rightarrow> nfs_adapter option" where
  "nfs_invalidate en ino s =
    (case pool_remove ino (n_pool s) of
      (None, _) \<Rightarrow> Some s
    | (Some fh, pool) \<Rightarrow> release_now en fh (s\<lparr>n_pool := pool\<rparr>))"

definition nfs_drain :: "nfs_env \<Rightarrow> nat list \<Rightarrow> nfs_adapter \<Rightarrow> nfs_adapter option" where
  "nfs_drain en order s =
    (let (entries, pool) = pool_drain order (n_pool s) in evict_all en entries (s\<lparr>n_pool := pool\<rparr>))"

end
