(* ===== verification/Nfs_Safety.thy ===== *)
theory Nfs_Safety
  imports Nfs Open_Files_Safety Vfs_Lookup_Safety
begin

text \<open>
  The NFS adapter loses no handle: every handle of the table of open files is in the pool, or held by a
  request in progress.  Directory pages add up to the directory.
\<close>

section \<open>What the file system does to its handles\<close>

text \<open>A mount an NFS client may create files on: set-up turns advanced writes on, and known paths have inodes.\<close>

definition ready :: "io_state \<Rightarrow> bool" where
  "ready s \<longleftrightarrow> v_advanced_writes (io_vfs s) \<and> (\<forall>p i. t_paths (io_table s) p = Some i \<longrightarrow> t_inodes (io_table s) i \<noteq> None)"

definition is_stream :: "open_file \<Rightarrow> bool" where
  "is_stream f = (case f of Streaming _ _ \<Rightarrow> True | _ \<Rightarrow> False)"

text \<open>
  \<open>keeps X s\<close>: each open handle is one of \<open>X\<close> or held by another request, and no handle is a stream.
\<close>

definition keeps :: "nat set \<Rightarrow> io_state \<Rightarrow> bool" where
  "keeps X s \<longleftrightarrow> dom (io_files s) \<subseteq> X \<union> io_held s \<and> (\<forall>fh f. io_files s fh = Some f \<longrightarrow> \<not> is_stream f)"

text \<open>
  The other requests run while a call of the file system waits.  They open and close handles, those this
  request uses included; a handle they open is theirs.
\<close>

definition disciplined :: "io_state \<Rightarrow> io_state \<Rightarrow> bool" where
  "disciplined s s' \<longleftrightarrow> (\<forall>X. keeps X s \<longrightarrow> keeps X s')"

definition rely_files :: "file_env \<Rightarrow> bool" where
  "rely_files en \<longleftrightarrow> (\<forall>s.
    (\<forall>ops. disciplined s (snd (x_hub (y_io en) ops s))) \<and> (\<forall>i. disciplined s (x_lock (y_io en) i s)) \<and>
    (\<forall>h. disciplined s (snd (x_await (y_io en) h s))) \<and> disciplined s (snd (x_new_writer (y_io en) s)) \<and>
    (\<forall>c. disciplined s (x_slot (y_io en) c s)) \<and> (\<forall>c. disciplined s (snd (x_reply (y_io en) c s))) \<and>
    disciplined s (x_sleep (y_io en) s) \<and> (\<forall>i. disciplined s (snd (y_load en i s))) \<and>
    (\<forall>h n i. disciplined s (snd (y_download en h n i s))) \<and> (\<forall>p. disciplined s (snd (y_http en p s))) \<and>
    (\<forall>h. disciplined s (snd (y_cached en h s))) \<and>
    (\<forall>i. ready s \<longrightarrow> ready (snd (y_load en i s))))"

lemma relyD:
  assumes "rely_files en" and "keeps X s"
  shows "keeps X (x_lock (y_io en) i s)" "keeps X (snd (y_load en i s))"
    "keeps X (snd (y_download en hash n i s))" "keeps X (snd (y_http en p s))" "keeps X (snd (y_cached en hash s))"
proof -
  note r = assms(1) [unfolded rely_files_def, THEN spec [of _ s]]
  have d: "disciplined s s' \<Longrightarrow> keeps X s'" for s' using assms(2) by (simp add: disciplined_def)
  show "keeps X (x_lock (y_io en) i s)" "keeps X (snd (y_load en i s))"
    "keeps X (snd (y_download en hash n i s))" "keeps X (snd (y_http en p s))" "keeps X (snd (y_cached en hash s))"
    by (rule d; use r in simp)+
qed

lemma rely_ready: "rely_files en \<Longrightarrow> ready s \<Longrightarrow> ready (snd (y_load en i s))"
  unfolding rely_files_def by blast

lemma keeps_same: "keeps X s \<Longrightarrow> io_files s' = io_files s \<Longrightarrow> io_held s' = io_held s \<Longrightarrow> keeps X s'"
  by (simp add: keeps_def)

lemma keeps_no_stream: "keeps X s \<Longrightarrow> io_files s fh = Some f \<Longrightarrow> \<not> is_stream f"
  by (simp add: keeps_def)

lemma keeps_opened:
  assumes "keeps X s" and "io_files s' = (io_files s)(fh \<mapsto> f)" and "io_held s' = io_held s" and "\<not> is_stream f"
  shows "keeps (insert fh X) s'"
  using assms by (auto simp: keeps_def)

text \<open>\<open>opens X h m\<close>: the handler fails and leaves \<open>X\<close>, or adds the handle \<open>h\<close> of its answer, no stream.\<close>

definition opens :: "nat set \<Rightarrow> ('a \<Rightarrow> nat) \<Rightarrow> 'a io_result \<Rightarrow> bool" where
  "opens X h m \<longleftrightarrow> (\<forall>r s'. m = Some (r, s') \<longrightarrow> (case r of Inl _ \<Rightarrow> keeps X s' | Inr a \<Rightarrow> keeps (insert (h a) X) s'))"

named_theorems opens_intros

lemma opens_basic [opens_intros]:
  "keeps F s \<Longrightarrow> opens F h (fail_with e s)" "opens F h None"
  "(b \<Longrightarrow> opens F h x) \<Longrightarrow> (\<not> b \<Longrightarrow> opens F h y) \<Longrightarrow> opens F h (if b then x else y)"
  by (simp_all add: opens_def fail_with_def)

lemma opens_then:
  assumes "yields (keeps F) m" and "\<And>a s. keeps F s \<Longrightarrow> opens F h (f a s)"
  shows "opens F h (and_then m f)"
proof (cases m)
  case None
  then show ?thesis by (simp add: opens_basic and_then_def)
next
  case (Some p)
  then obtain r s where m: "m = Some (r, s)" by (cases p) simp
  with assms(1) have "keeps F s" by (simp add: yields_def)
  then show ?thesis using assms(2) m by (cases r) (simp_all add: and_then_def opens_def)
qed

lemma opens_bool: "opens F h x \<Longrightarrow> opens F h y \<Longrightarrow> opens F h (case b of True \<Rightarrow> x | False \<Rightarrow> y)"
  by (cases b) simp_all

lemma opens_answer: "keeps F (snd p) \<Longrightarrow> (\<And>a s. keeps F s \<Longrightarrow> opens F h (f a s)) \<Longrightarrow> opens F h (case p of (a, s) \<Rightarrow> f a s)"
  by (cases p) simp

lemma keeps_answer: "keeps F (snd p) \<Longrightarrow> (\<And>a s. keeps F s \<Longrightarrow> yields Q (f a s)) \<Longrightarrow> yields Q (case p of (a, s) \<Rightarrow> f a s)"
  by (cases p) simp

lemma keeps_then: "yields (keeps F) m \<Longrightarrow> (\<And>a s. keeps F s \<Longrightarrow> yields (keeps F) (f a s)) \<Longrightarrow> yields (keeps F) (and_then m f)"
  by (rule yields_and_then) auto

lemma keeps_lock: "rely_files en \<Longrightarrow> keeps F s \<Longrightarrow> keeps F (io_lock (y_io en) ino s)"
  unfolding io_lock_def by (rule relyD(1)) (auto simp: upd_vfs_def keeps_def)

lemma keeps_unlock: "keeps F (io_unlock ino s) \<longleftrightarrow> keeps F s"
  by (simp add: io_unlock_def upd_vfs_def keeps_def)

lemma opens_with_lock:
  assumes "rely_files en" and "keeps F s" and "\<And>s. keeps F s \<Longrightarrow> opens F h (f s)"
  shows "opens F h (with_lock en ino f s)"
  using assms(3) [OF keeps_lock [OF assms(1,2)], of ino]
  unfolding with_lock_def opens_def by (fastforce split: sum.splits simp: keeps_unlock)

lemma keeps_with_lock:
  assumes "rely_files en" and "keeps F s" and "\<And>s. keeps F s \<Longrightarrow> yields (keeps F) (f s)"
  shows "yields (keeps F) (with_lock en ino f s)"
  using assms(3) [OF keeps_lock [OF assms(1,2)]] unfolding with_lock_def yields_def by (auto simp: keeps_unlock)

lemma opens_install: "keeps F s \<Longrightarrow> \<not> is_stream f \<Longrightarrow> opens F (\<lambda>fh. fh) (install_handle ino f s)"
  "keeps F s \<Longrightarrow> opens F (\<lambda>fh. fh) (install_local_handle ino file w e s)" "keeps F s \<Longrightarrow> opens F (\<lambda>fh. fh) (open_lazy ino hash n e s)"
proof -
  have l: "\<not> is_stream (Local ino file w e)" "\<not> is_stream (Lazy ino hash n e)" by (simp_all add: is_stream_def)
  show i: "opens F (\<lambda>fh. fh) (install_handle ino f s)" if "keeps F s" "\<not> is_stream f" for f
    using keeps_opened [OF that(1) _ _ that(2)] by (simp add: opens_def install_handle_def alloc_file_handle_def insert_handle_def ok_with_def upd_io_table_def upd_vfs_def)
  show "opens F (\<lambda>fh. fh) (install_local_handle ino file w e s)" if "keeps F s"
    using keeps_opened [OF that _ _ l(1)] by (simp add: opens_def install_local_handle_def alloc_file_handle_def insert_handle_def ok_with_def upd_io_table_def upd_vfs_def)
  show "opens F (\<lambda>fh. fh) (open_lazy ino hash n e s)" if "keeps F s" unfolding open_lazy_def by (rule i [OF that l(2)])
qed

lemma keeps_entry: "keeps F s \<Longrightarrow> keeps F (upd_entry ino f s)" "keeps F s \<Longrightarrow> keeps F (upd_io_table g s)"
  "keeps F s \<Longrightarrow> keeps F (upd_staging_dir k s)" "keeps F s \<Longrightarrow> keeps F (put_staged ino n s)" "keeps F s \<Longrightarrow> keeps F (upd_vfs u s)"
  "keeps F s \<Longrightarrow> keeps F (enqueue_flush ino s)" "keeps F s \<Longrightarrow> keeps F (forget_missing path s)"
  by (simp_all add: keeps_def upd_entry_def upd_io_table_def upd_staging_dir_def put_staged_def upd_vfs_def enqueue_flush_def forget_missing_def)

lemma keeps_download: "rely_files en \<Longrightarrow> keeps F s \<Longrightarrow> keeps F (snd (y_download en hash n i s))"
  by (rule relyD(3))

lemma keeps_files:
  assumes "keeps F s"
  shows "yields (keeps F) (local_backing_exists en ino path s)" "yields (keeps F) (open_local_backing_file en ino path cr tr s)"
    "yields (keeps F) (open_staged en ino path s)" "yields (keeps F) (create_container en ino s)"
proof -
  show "yields (keeps F) (open_local_backing_file en ino path cr tr s)"
    unfolding open_local_backing_file_def by (intro yields_intros assms keeps_entry) (use assms keeps_entry(4) in simp)
qed (unfold local_backing_exists_def open_staged_def create_container_def, (intro yields_intros assms keeps_entry)+)

subsection \<open>Opening\<close>

lemma keeps_if: "keeps F x \<Longrightarrow> keeps F y \<Longrightarrow> keeps F (if b then x else y)"
  by simp

lemma keeps_prepare:
  assumes "rely_files en" and "keeps F s"
  shows "yields (keeps F) (prepare_staging en ino path hash sz tr s)"
  unfolding prepare_staging_def Let_def
  by (intro keeps_then yields_intros keeps_answer [where F = F] keeps_download [OF assms(1)] keeps_files keeps_if keeps_entry assms(2) | assumption)+

lemma opens_plain:
  assumes "rely_files en" and "keeps F s"
  shows "opens F (\<lambda>fh. fh) (open_advanced_plain en ino path hash sz tr s)"
  unfolding open_advanced_plain_def
  by (intro opens_then yields_intros keeps_files keeps_prepare [OF assms(1)] opens_install keeps_entry assms(2) | assumption)+

lemma keeps_encrypted_staging:
  assumes "rely_files en" and "keeps F s"
  shows "yields (keeps F) (ensure_encrypted_staging en ino fresh s)"
  unfolding ensure_encrypted_staging_def Let_def
  by (intro keeps_then yields_intros keeps_answer [where F = F] keeps_download [OF assms(1)] keeps_files keeps_entry assms(2) | assumption)+

lemma opens_encrypted:
  assumes "rely_files en" and "keeps F s"
  shows "opens F (\<lambda>fh. fh) (open_advanced_write_encrypted en ino path tr s)"
  unfolding open_advanced_write_encrypted_def
  by (intro opens_intros opens_with_lock [OF assms(1)] opens_then keeps_encrypted_staging [OF assms(1)] keeps_files yields_intros opens_install keeps_entry assms(2)
      | assumption | simp add: is_stream_def)+

lemma opens_readonly:
  assumes "rely_files en" and "keeps F s"
  shows "opens F (\<lambda>fh. fh) (open_readonly en b ino fe s)"
proof -
  have lo: "opens F (\<lambda>fh. fh) (open_local_readonly en ino path fl x s)" if "keeps F s" for path fl x s
    unfolding open_local_readonly_def by (intro opens_intros opens_install that)
  have hk: "keeps F (snd (y_http en path s))" "keeps F (snd (y_cached en hash s))" if "keeps F s" for path hash s
    using relyD(4,5) [OF assms(1) that] by simp_all
  have http: "opens F (\<lambda>fh. fh) (open_http en h ino path s)" if "keeps F s" for h path s
    unfolding open_http_def
    by (intro opens_intros opens_then keeps_with_lock [OF assms(1)] keeps_answer [where F = F] hk yields_intros lo that | assumption)+
  have rem: "opens F (\<lambda>fh. fh) (open_remote en ino fe s)" if "keeps F s" for fe s
    unfolding open_remote_def
    by (intro opens_intros opens_answer [where F = F] opens_bool hk opens_install that | assumption | simp)+
  have dis: "opens F (\<lambda>fh. fh) (open_dispatch en h b ino fe s)" if "keeps F s" for h fe s
    unfolding open_dispatch_def
    by (intro opens_intros opens_then yields_intros lo http rem opens_install that | assumption)+
  have ov: "opens F (\<lambda>fh. fh) (open_overlay_dirty en ino fe s)" if "keeps F s" for fe s
    unfolding open_overlay_dirty_def
    by (intro opens_intros opens_then yields_intros keeps_files opens_install that | assumption)+
  have body: "opens F (\<lambda>fh. fh) (open_readonly_body en h b ino fe s)" if "keeps F s" for h fe s
    unfolding open_readonly_body_def
    by (intro opens_intros opens_then yields_intros ov dis that | assumption)+
  show ?thesis unfolding open_readonly_def by (intro opens_intros opens_with_lock [OF assms(1)] body assms(2) | assumption)+
qed

lemma opens_open:
  assumes "rely_files en" and "keeps F s"
  shows "opens F (\<lambda>fh. fh) (open_file_op en ino w False pid s)"
proof -
  have adv: "opens F (\<lambda>fh. fh) (open_advanced_write en ino path hash sz tr s)" if "keeps F s" for path hash sz tr s
    unfolding open_advanced_write_def
    by (intro opens_intros opens_encrypted [OF assms(1)] opens_with_lock [OF assms(1)] opens_plain [OF assms(1)] that | assumption)+
  show ?thesis unfolding open_file_op_def
    by (intro opens_intros opens_then yields_intros adv opens_readonly [OF assms(1)] assms(2) | assumption | simp)+
qed

subsection \<open>Creating\<close>

text \<open>With advanced writes a created file is a local one.\<close>

lemma keeps_undo: "keeps F s \<Longrightarrow> opens F h (undo_create ino e s)"
  by (auto simp: undo_create_def io_remove_def opens_def fail_with_def bind_eq_Some_conv elim: keeps_same)

lemma opens_create_encrypted:
  assumes "keeps F s"
  shows "opens F snd (create_encrypted en ino path s)"
proof -
  have last: "opens F snd (let (fh, s1) = alloc_file_handle s; s2 = upd_io_table (bump_open_handles ino) (upd_entry ino u s1)
      in and_then (io_attr ino ENOENT s2) (\<lambda>attr s3. ok_with (attr, fh) (insert_handle fh (Local ino fl True True) s3)))"
    if "keeps F s" for s u fl
    using that by (auto simp: opens_def alloc_file_handle_def io_attr_def and_then_def ok_with_def insert_handle_def is_stream_def keeps_def
        upd_io_table_def upd_entry_def upd_vfs_def Let_def split: sum.splits if_splits)
  show ?thesis unfolding create_encrypted_def
    by (intro opens_intros opens_then keeps_files keeps_undo last assms | assumption)+
qed

lemma opens_create_plain:
  assumes "keeps F s" and "t_inodes (io_table s) ino \<noteq> None"
  shows "opens F snd (create_plain en ino path s)"
proof (cases "open_local_backing_file en ino path True True s")
  case (Some p)
  obtain r s1 where p: "open_local_backing_file en ino path True True s = Some (r, s1)" using Some by (cases p) simp
  have k: "keeps F s1" using keeps_files(2) [OF assms(1)] p unfolding yields_def by blast
  have "io_table s1 = io_table s"
    using p by (auto simp: open_local_backing_file_def ok_with_def fail_with_def put_staged_def upd_staging_dir_def upd_vfs_def io_table_def
        split: if_splits option.splits)
  then have l: "t_inodes (io_table s1) ino \<noteq> None" using assms(2) by simp
  have "opens F snd (and_then (install_handle ino (Local ino fl True False) s1) (\<lambda>fh s2. and_then (io_attr ino ENOENT s2) (\<lambda>attr s3. ok_with (attr, fh) s3)))" for fl
    using k l by (auto simp: opens_def install_handle_def alloc_file_handle_def insert_handle_def io_attr_def attr_of_def and_then_def ok_with_def keeps_def
        is_stream_def upd_io_table_def upd_vfs_def upd_table_def io_table_def bump_open_handles_def upd_eviction_def upd_inode_def Let_def
        split: option.splits if_splits)
  then show ?thesis using p by (cases r) (auto simp: create_plain_def intro: keeps_undo [OF k])
qed (simp add: create_plain_def opens_basic)

lemma create_locked_live:
  assumes "ready s" and "create_locked en parent name mode uid gid s = Some (Inr (ino, path, g), s')"
  shows "t_inodes (io_table s') ino \<noteq> None" and "v_advanced_writes (io_vfs s')" and "io_files s' = io_files s" "io_held s' = io_held s"
  using assms
  by (auto simp: create_locked_def insert_locked_def insert_inode_def touch_def touch_parent_def upd_inode_def upd_eviction_def ready_def fail_with_def ok_with_def
      upd_io_table_def upd_vfs_def upd_table_def io_table_def Let_def split: option.splits if_splits prod.splits)
    (metis option.distinct(1))

lemma opens_create:
  assumes en: "rely_files en" and "ready s" and "keeps F s"
  shows "opens F snd (create en parent name mode uid gid pid s)"
proof -
  have fin: "opens F snd (and_then (create_locked en parent name mode uid gid s1) (\<lambda>(ino, path, gen) s0.
      let s = forget_missing path s0
      in if v_advanced_writes (io_vfs s)
         then (if is_encrypting s then create_encrypted en ino path s else create_plain en ino path s)
         else create_streaming en ino gen pid s))" if "keeps F s1" "ready s1" for s1
  proof (cases "create_locked en parent name mode uid gid s1")
    case (Some p)
    then obtain r s2 where p: "create_locked en parent name mode uid gid s1 = Some (r, s2)" by (cases p) simp
    show ?thesis
    proof (cases r)
      case (Inl e)
      then have "s2 = s1" using p by (auto simp: create_locked_def ok_with_def fail_with_def split: prod.splits sum.splits)
      then show ?thesis using p Inl that(1) by (simp add: and_then_def opens_def)
    next
      case (Inr a)
      obtain ino path g where a: "a = (ino, path, g)" by (cases a)
      note l = create_locked_live [OF that(2) p [unfolded Inr a]]
      have k: "keeps F (forget_missing path s2)" by (rule keeps_entry(7)) (rule keeps_same [OF that(1) l(3,4)])
      have t: "io_table (forget_missing path s2) = io_table s2" "v_advanced_writes (io_vfs (forget_missing path s2))"
        using l(2) by (simp_all add: forget_missing_def upd_vfs_def io_table_def upd_flush_def negative_cache_remove_def split: option.split)
      show ?thesis unfolding p Inr a and_then_def using t l(1) opens_create_encrypted [OF k] opens_create_plain [OF k]
        by (simp add: Let_def)
    qed
  qed (simp add: and_then_def opens_basic)
  have ld: "opens F snd (and_then (load_parent en parent s1) (\<lambda>_. f))" if "keeps F s1" "ready s1" "\<And>s. keeps F s \<Longrightarrow> ready s \<Longrightarrow> opens F snd (f s)" for f s1
  proof -
    obtain r s2 where p: "y_load en parent s1 = (r, s2)" by fastforce
    have "keeps F s2" "ready s2" using relyD(2) [OF en that(1), where i = parent] rely_ready [OF en that(2), where i = parent] p by simp_all
    then show ?thesis using that(3) p by (cases r) (simp_all add: load_parent_def and_then_def fail_with_def ok_with_def opens_def)
  qed
  show ?thesis
    unfolding create_def using ld [OF assms(3,2) fin] assms(3)
    by (cases "new_name_guard (io_vfs s) name") (simp_all add: guard_name_def and_then_def opens_def)
qed

subsection \<open>Closing, flushing, writing, attributes\<close>

lemma keeps_release:
  assumes "release en fh s = Some (r, s')" and "keeps (insert fh X) s"
  shows "keeps X s'"
proof -
  have fin: "keeps X (release_finish en i x)" if "keeps X x" for i x
    using that by (simp add: release_finish_def Let_def upd_io_table_def upd_vfs_def keeps_def)
  have gone: "keeps X (s\<lparr>io_files := (io_files s)(fh := None)\<rparr>)" using assms(2) by (auto simp: keeps_def split: if_splits)
  show ?thesis
  proof (cases "io_files s fh")
    case None
    then have "s' = s\<lparr>io_files := (io_files s)(fh := None)\<rparr>" using assms(1) by (auto simp: release_def release_remove_def ok_with_def)
    then show ?thesis using gone by simp
  next
    case (Some f)
    then show ?thesis using assms(1) keeps_no_stream [OF assms(2) Some] fin gone keeps_entry(6) [OF gone]
      by (auto simp: release_def release_remove_def Let_def is_stream_def split: open_file.splits bool.splits if_splits)
  qed
qed

lemma keeps_flush:
  assumes "flush_op en ino fh pid s = Some (r, s')" and "keeps X s"
  shows "keeps X s'"
  using assms(1) keeps_no_stream [OF assms(2), of fh] assms(2)
  by (auto simp: flush_op_def ok_with_def fail_with_def is_stream_def keeps_entry(5) split: option.splits open_file.splits prod.splits)

lemma keeps_write:
  assumes "keeps X s"
  shows "keeps X (snd (write_op en fh offset data s))"
proof -
  have "keeps X (note_local_write i n x)" "keeps X (grow_file b n x)" if "keeps X x" for i n b x
    using that by (auto simp: note_local_write_def grow_file_def Let_def intro!: keeps_entry split: option.split backing.split)
  then show ?thesis using keeps_no_stream [OF assms, of fh] assms
    by (auto simp: write_op_def local_write_def encrypted_local_write_def Let_def is_stream_def
        intro!: keeps_entry split: option.splits open_file.splits bool.splits sum.splits)
qed

lemma keeps_backing: "keeps F s \<Longrightarrow> keeps F (case b of StagingFile i \<Rightarrow> put_staged i n s | _ \<Rightarrow> s)"
  by (cases b) (simp_all add: keeps_entry)

lemma keeps_setattr:
  assumes "rely_files en" and "keeps F s"
  shows "yields (keeps F) (setattr en ino sz a s)"
proof -
  have enc: "yields (keeps F) (encrypted_setattr_truncate en i n s)" if "keeps F s" for i n s
    unfolding encrypted_setattr_truncate_def Let_def
    by (intro keeps_then keeps_with_lock [OF assms(1)] keeps_encrypted_staging [OF assms(1)] yields_intros keeps_entry that | assumption)+
  have mat: "yields (keeps F) (materialize en i path n s)" if "keeps F s" for i path n s
    unfolding materialize_def Let_def
    by (intro keeps_then yields_intros keeps_answer [where F = F] keeps_download [OF assms(1)] keeps_files keeps_entry that | assumption)+
  have loc: "yields (keeps F) (truncate_local en i path n s)" if "keeps F s" for i path n s
    unfolding truncate_local_def Let_def
    by (intro keeps_then mat yields_intros keeps_files keeps_if keeps_entry that | assumption | (rule keeps_backing))+
  have sized: "yields (keeps F) (setattr_size en i n s)" if "keeps F s" for i n s
    unfolding setattr_size_def
    by (intro keeps_then keeps_with_lock [OF assms(1)] enc loc yields_intros keeps_entry that | assumption)+
  have meta: "yields (keeps F) (setattr_meta en i a s)" if "keeps F s" for i a s
    unfolding setattr_meta_def by (intro keeps_then yields_intros keeps_files keeps_entry that | assumption)+
  show ?thesis unfolding setattr_def
    by (intro keeps_then sized meta yields_intros assms(2) | assumption)+
qed

section \<open>What the adapter does to them\<close>

text \<open>
  \<open>tidy H s\<close>: each open handle is in the pool, one of \<open>H\<close>, the handles of this request, or held by another
  request, and no handle is a stream.
\<close>

definition tidy :: "nat set \<Rightarrow> nfs_adapter \<Rightarrow> bool" where
  "tidy H s \<longleftrightarrow> pool_ok (n_pool s) \<and> keeps (pooled (n_pool s) \<union> H) (n_io s)"

text \<open>
  What this request relies on.  While it waits the others open and close handles, put them into the pool, use
  and pin those there and take them out: whatever \<open>H\<close> this request holds, a handle they opened or took out is
  then closed, in the pool or in \<open>io_held\<close>.  Nobody is given the number of a handle that this request holds and that
  was closed.  A read of an open handle does not answer \<open>EBADF\<close>.
\<close>

definition nfs_rely :: "nfs_env \<Rightarrow> bool" where
  "nfs_rely en \<longleftrightarrow> rely_files (z_files en) \<and>
    (\<forall>tgt off n s. disciplined s (snd (z_read en tgt off n s)) \<and> fst (z_read en tgt off n s) \<noteq> Inl EBADF) \<and>
    (\<forall>H K s. tidy H s \<longrightarrow> tidy H (z_yield en K s)) \<and>
    (\<forall>K s fh. fh \<in> K \<longrightarrow> io_files (n_io s) fh = None \<longrightarrow> io_files (n_io (z_yield en K s)) fh = None)"

lemma relyE:
  assumes "nfs_rely en"
  shows "rely_files (z_files en)" "keeps X io \<Longrightarrow> keeps X (snd (z_read en tgt off n io))" "fst (z_read en tgt off n io) \<noteq> Inl EBADF"
    "tidy H s \<Longrightarrow> tidy H (z_yield en K s)" "fh \<in> K \<Longrightarrow> io_files (n_io s) fh = None \<Longrightarrow> io_files (n_io (z_yield en K s)) fh = None"
  using assms by (simp_all add: nfs_rely_def disciplined_def)

lemma keeps_mono: "keeps X s \<Longrightarrow> X \<subseteq> Y \<Longrightarrow> keeps Y s"
  by (auto simp: keeps_def)

lemma tidy_mono: "tidy H s \<Longrightarrow> H \<subseteq> H' \<Longrightarrow> tidy H' s"
  unfolding tidy_def by (auto elim: keeps_mono)

lemma tidy_keeps: "tidy H s \<Longrightarrow> keeps (pooled (n_pool s) \<union> H) (n_io s)"
  by (simp add: tidy_def)

lemma tidy_io: "tidy H s \<Longrightarrow> keeps (pooled (n_pool s) \<union> H') io \<Longrightarrow> tidy H' (s\<lparr>n_io := io\<rparr>)"
  by (simp add: tidy_def)

lemma tidy_pool: "tidy H s \<Longrightarrow> pool_ok p \<Longrightarrow> pooled (n_pool s) \<subseteq> pooled p \<union> H' \<Longrightarrow> H \<subseteq> H' \<Longrightarrow> tidy H' (s\<lparr>n_pool := p\<rparr>)"
  unfolding tidy_def by (auto elim: keeps_mono)

lemma tidy_acquire: "tidy H s \<Longrightarrow> tidy H (s\<lparr>n_pool := snd (acquire_shared ino (n_pool s))\<rparr>)" "tidy H s \<Longrightarrow> tidy H (s\<lparr>n_pool := unpin ino (n_pool s)\<rparr>)"
  by (simp_all add: tidy_def pool_ok_acquire pooled_acquire pool_ok_unpin pooled_unpin)

lemma tidy_remove: "tidy H s \<Longrightarrow> tidy (set_option (peek ino (n_pool s)) \<union> H) (s\<lparr>n_pool := snd (pool_remove ino (n_pool s))\<rparr>)"
  by (rule tidy_pool [where H = H]) (use pooled_remove(1) [of "n_pool s" ino] pool_ok_remove [of "n_pool s" ino] in \<open>auto simp: tidy_def\<close>)

lemma tidy_closed: "tidy (insert fh H) s \<Longrightarrow> io_files (n_io s) fh = None \<Longrightarrow> tidy H s"
  by (auto simp: tidy_def keeps_def)

subsection \<open>Calls\<close>

lemma call_keeps:
  assumes "nfs_rely en" and "tidy H s" and "call_io en K f s = Some (r, s')"
    and "\<And>r io. f (n_io s) = Some (r, io) \<Longrightarrow> keeps (pooled (n_pool s) \<union> H) io"
  shows "tidy H s'"
  using assms(3,4) relyE(4) [OF assms(1) tidy_io [OF assms(2)]] by (auto simp: call_io_def)

lemma call_vfs:
  assumes "nfs_rely en" and "tidy H s" and "call_io en K (on_vfs f) s = Some (r, s')"
  shows "tidy H s'"
proof (rule call_keeps [OF assms])
  show "keeps (pooled (n_pool s) \<union> H) io" if "on_vfs f (n_io s) = Some (q, io)" for q io
    using that keeps_same [OF tidy_keeps [OF assms(2)]] by (auto simp: on_vfs_def)
qed

lemma call_opens:
  assumes "nfs_rely en" and "tidy H s" and "opens (pooled (n_pool s) \<union> H) h (f (n_io s))"
  shows "call_io en K f s = Some (Inl e, s') \<Longrightarrow> tidy H s'" and "call_io en K f s = Some (Inr a, s') \<Longrightarrow> tidy (insert (h a) H) s'"
  using assms(3) relyE(4) [OF assms(1) tidy_io [OF assms(2)]] by (auto simp: call_io_def opens_def)

lemma open_ok: "nfs_rely en \<Longrightarrow> keeps X io \<Longrightarrow> opens X (\<lambda>fh. fh) (open_file_op (z_files en) ino w False None io)"
  by (rule opens_open [OF relyE(1)])

lemma call_open:
  assumes "nfs_rely en" and "tidy H s"
  shows "call_io en K (open_file_op (z_files en) ino w False None) s = Some (Inl e, s') \<Longrightarrow> tidy H s'"
    and "call_io en K (open_file_op (z_files en) ino w False None) s = Some (Inr fh, s') \<Longrightarrow> tidy (insert fh H) s'"
  using call_opens [where f = "open_file_op (z_files en) ino w False None", OF assms open_ok [OF assms(1) tidy_keeps [OF assms(2)]]] by blast+

lemma tidy_release:
  assumes "nfs_rely en" and "tidy (insert fh H) s" and "release_now en fh s = Some s'"
  shows "tidy H s'"
proof -
  obtain r io where io: "release (z_files en) fh (n_io s) = Some (r, io)" "s' = z_yield en {fh} (s\<lparr>n_io := io\<rparr>)"
    using assms(3) by (auto simp: release_now_def call_io_def)
  have "keeps (pooled (n_pool s) \<union> H) io" by (rule keeps_release [OF io(1)]) (use tidy_keeps [OF assms(2)] in simp)
  then show ?thesis unfolding io(2) by (rule relyE(4) [OF assms(1) tidy_io [OF assms(2)]])
qed

lemma tidy_evict:
  assumes "nfs_rely en" and "tidy (insert fh H) s" and "evict_handle en ino fh s = Some s'"
  shows "tidy H s'"
proof -
  obtain r s1 where 1: "call_io en {fh} (flush_op (z_files en) ino fh None) s = Some (r, s1)" "release_now en fh s1 = Some s'"
    using assms(3) by (auto simp: evict_handle_def bind_eq_Some_conv)
  have "tidy (insert fh H) s1"
    by (rule call_keeps [OF assms(1,2) 1(1)]) (erule keeps_flush, rule tidy_keeps [OF assms(2)])
  from tidy_release [OF assms(1) this 1(2)] show ?thesis .
qed

lemma tidy_evict_all:
  assumes "nfs_rely en" and "tidy (snd ` set l \<union> H) s" and "evict_all en l s = Some s'"
  shows "tidy H s'"
  using assms(2,3)
proof (induction l arbitrary: s)
  case (Cons e rest)
  obtain ino fh where e: "e = (ino, fh)" by fastforce
  show ?case using Cons tidy_evict [OF assms(1), of fh "snd ` set rest \<union> H" s ino] by (auto simp: e bind_eq_Some_conv)
qed simp

subsection \<open>The pool\<close>

lemma tidy_inserted:
  assumes "tidy (insert fh H) s" and "pool_insert ino fh (n_pool s) = (res, p)"
  shows "tidy (snd ` set (ir_evicted res) \<union> (set_option (ir_replaced res) \<union> H)) (s\<lparr>n_pool := p\<rparr>)" and "pool_ok p"
proof -
  have ok: "pool_ok (n_pool s)" using assms(1) by (simp add: tidy_def)
  note i = pooled_insert(1,2) [OF ok assms(2)]
  show "pool_ok p" by (rule i(1))
  show "tidy (snd ` set (ir_evicted res) \<union> (set_option (ir_replaced res) \<union> H)) (s\<lparr>n_pool := p\<rparr>)"
    using assms(1) i unfolding tidy_def by (auto elim: keeps_mono)
qed

lemma tidy_insert_pooled:
  assumes "nfs_rely en" and "tidy (insert fh H) s" and "insert_pooled en ino fh s = Some s'"
  shows "tidy H s'"
proof -
  obtain res p where p: "pool_insert ino fh (n_pool s) = (res, p)" by fastforce
  obtain s1 where s1: "evict_all en (ir_evicted res) (s\<lparr>n_pool := p\<rparr>) = Some s1"
    "(case ir_replaced res of None \<Rightarrow> Some s1 | Some old \<Rightarrow> evict_handle en ino old s1) = Some s'"
    using assms(3) by (auto simp: insert_pooled_def p bind_eq_Some_conv)
  have "tidy (set_option (ir_replaced res) \<union> H) s1" by (rule tidy_evict_all [OF assms(1) tidy_inserted(1) [OF assms(2) p] s1(1)])
  then show ?thesis using s1(2) tidy_evict [OF assms(1)] by (auto split: option.splits)
qed

lemma tidy_process:
  assumes "nfs_rely en" and "tidy (snd ` set (ir_evicted res) \<union> (set_option (ir_replaced res) \<union> H)) s" and "process_insert_result en res s = Some s'"
  shows "tidy H s'"
proof -
  obtain s1 where s1: "evict_all en (ir_evicted res) s = Some s1"
    "(case ir_replaced res of None \<Rightarrow> Some s1 | Some old \<Rightarrow> release_now en old s1) = Some s'"
    using assms(3) by (auto simp: process_insert_result_def bind_eq_Some_conv)
  have "tidy (set_option (ir_replaced res) \<union> H) s1" by (rule tidy_evict_all [OF assms(1,2) s1(1)])
  then show ?thesis using s1(2) tidy_release [OF assms(1)] by (auto split: option.splits)
qed

lemma tidy_get_or_open:
  assumes f: "nfs_rely en" and "tidy H s0" and g: "get_or_open_handle en ino s0 = Some (r, s')"
  shows "tidy H s'"
proof (cases "acquire_shared ino (n_pool s0)")
  case (Pair o0 p0)
  show ?thesis
  proof (cases o0)
    case (Some fh)
    then show ?thesis using g Pair tidy_acquire(1) [OF assms(2), of ino] by (simp add: get_or_open_handle_def)
  next
    case None
    then obtain q s where q: "call_io en {} (open_file_op (z_files en) ino False False None) s0 = Some (q, s)"
      using g Pair by (auto simp: get_or_open_handle_def split: option.splits)
    note op = call_open [OF f assms(2)]
    obtain o1 p1 where a: "acquire_shared ino (n_pool s) = (o1, p1)" by fastforce
    show ?thesis
    proof (cases q)
      case (Inl e)
      then show ?thesis using g Pair None q a op(1) [OF q [unfolded Inl]] tidy_acquire(1) [of H s ino]
        by (auto simp: get_or_open_handle_def split: option.splits)
    next
      case (Inr fh)
      have t: "tidy (insert fh H) s" by (rule op(2) [OF q [unfolded Inr]])
      show ?thesis
      proof (cases o1)
        case (Some ex)
        then have "release_now en fh (s\<lparr>n_pool := p1\<rparr>) = Some s'" using g Pair None q a Inr by (auto simp: get_or_open_handle_def)
        moreover have "tidy (insert fh H) (s\<lparr>n_pool := p1\<rparr>)" using tidy_acquire(1) [OF t, of ino] a by simp
        ultimately show ?thesis using tidy_release [OF f] by blast
      next
        case o1: None
        obtain res p where i: "pool_insert ino fh (n_pool s) = (res, p)" by fastforce
        have "process_insert_result en res (s\<lparr>n_pool := snd (acquire_shared ino p)\<rparr>) = Some s'"
          using g Pair None q a Inr o1 i by (auto simp: get_or_open_handle_def)
        moreover have "tidy (snd ` set (ir_evicted res) \<union> (set_option (ir_replaced res) \<union> H)) (s\<lparr>n_pool := snd (acquire_shared ino p)\<rparr>)"
          using tidy_acquire(1) [OF tidy_inserted(1) [OF t i], of ino] by simp
        ultimately show ?thesis using tidy_process [OF f] by blast
      qed
    qed
  qed
qed

lemma tidy_drop_pooled:
  assumes "nfs_rely en" and "tidy H s" and "drop_pooled en ino s = Some (r, s')"
  shows "tidy H s'"
  using assms(3) tidy_remove [OF assms(2), of ino] tidy_evict [OF assms(1)] pooled_remove(3) [of ino "n_pool s"] assms(2)
  by (cases "pool_remove ino (n_pool s)") (auto simp: drop_pooled_def split: option.splits)

lemma tidy_invalidate:
  assumes "nfs_rely en" and "tidy H s" and "nfs_invalidate en ino s = Some s'"
  shows "tidy H s'"
  using assms(3) tidy_remove [OF assms(2), of ino] tidy_release [OF assms(1)] pooled_remove(3) [of ino "n_pool s"] assms(2)
  by (cases "pool_remove ino (n_pool s)") (auto simp: nfs_invalidate_def split: option.splits)

lemma tidy_drain:
  assumes "nfs_rely en" and "tidy H s" and "set order = dom (hp_handles (n_pool s))" and "nfs_drain en order s = Some s'"
  shows "tidy H s'"
proof -
  let ?l = "fst (pool_drain order (n_pool s))"
  have "pooled (n_pool s) \<subseteq> snd ` set ?l"
  proof
    fix fh assume "fh \<in> pooled (n_pool s)"
    then obtain i e where i: "hp_handles (n_pool s) i = Some e" "he_file_handle e = fh" by (rule pooledE)
    then have "i \<in> set order" using assms(3) by blast
    then have "(i, fh) \<in> set ?l" using i by (force simp: pool_drain_def List.map_filter_def)
    then show "fh \<in> snd ` set ?l" by force
  qed
  then have "tidy (snd ` set ?l \<union> H) (s\<lparr>n_pool := pool_new\<rparr>)" using assms(2) pool_ok_new by (auto simp: tidy_def elim: keeps_mono)
  from tidy_evict_all [OF assms(1) this] show ?thesis using assms(4) by (simp add: nfs_drain_def pool_drain_def)
qed

subsection \<open>The procedures\<close>

text \<open>\<open>leaves H m\<close>: if the procedure returns, it leaves the adapter tidy.\<close>

definition leaves :: "nat set \<Rightarrow> ('a \<times> nfs_adapter) option \<Rightarrow> bool" where
  "leaves H m \<longleftrightarrow> (\<forall>r s'. m = Some (r, s') \<longrightarrow> tidy H s')"

lemma leavesD: "leaves H m \<Longrightarrow> m = Some (r, s') \<Longrightarrow> tidy H s'"
  by (simp add: leaves_def)

lemma leaves_now: "tidy H s \<Longrightarrow> leaves H (Some (r, s))" "leaves H None"
  by (simp_all add: leaves_def)

lemma leaves_pair: "(\<And>s'. m = Some s' \<Longrightarrow> tidy H s') \<Longrightarrow> leaves H (map_option (Pair r) m)"
  by (auto simp: leaves_def)

lemma leaves_call: "nfs_rely en \<Longrightarrow> tidy H s \<Longrightarrow> leaves H (call_io en K (on_vfs f) s)"
  using call_vfs unfolding leaves_def by blast

lemma leaves_then: "leaves H m \<Longrightarrow> (\<And>a s. tidy H s \<Longrightarrow> leaves H (f a s)) \<Longrightarrow> leaves H (nfs_then m f)"
  by (auto simp: leaves_def nfs_then_def split: option.splits sum.splits)

lemma leaves_bind: "leaves H m \<Longrightarrow> (\<And>a s. tidy H s \<Longrightarrow> leaves H (f a s)) \<Longrightarrow> leaves H (Option.bind m (\<lambda>(a, s). f a s))"
  by (auto simp: leaves_def bind_eq_Some_conv)

lemma leaves_name: "(\<And>e. leaves H (f e)) \<Longrightarrow> (\<And>n. leaves H (g n)) \<Longrightarrow> leaves H (case x of Inl e \<Rightarrow> f e | Inr n \<Rightarrow> g n)"
  by (cases x) simp_all

lemma leaves_if: "leaves H x \<Longrightarrow> leaves H y \<Longrightarrow> leaves H (if b then x else y)"
  by simp

lemma leaves_option: "leaves H x \<Longrightarrow> (\<And>a. leaves H (f a)) \<Longrightarrow> leaves H (case v of None \<Rightarrow> x | Some a \<Rightarrow> f a)"
  by (cases v) simp_all

lemma leaves_map: "leaves H m \<Longrightarrow> leaves H (map_option (\<lambda>(r, s). (g r, s)) m)"
  by (auto simp: leaves_def)

lemmas leaves_intros = leaves_now leaves_name leaves_if leaves_option leaves_map

lemma tidy_getattr: "tidy H s \<Longrightarrow> tidy H (snd (nfs_getattr ino s))"
  by (auto simp: nfs_getattr_def tidy_def keeps_def split: prod.split sum.split)

lemma tidy_schedule: "tidy H s \<Longrightarrow> tidy H (schedule_flush ino s)"
  by (simp add: schedule_flush_def tidy_def keeps_entry)

lemma leaves_lookup:
  assumes "nfs_rely en" and "tidy H s"
  shows "leaves H (nfs_lookup en dirid name s)"
  unfolding nfs_lookup_def by (intro leaves_intros leaves_then leaves_call assms | assumption)+

lemma leaves_mkdir:
  assumes "nfs_rely en" and "tidy H s"
  shows "leaves H (nfs_mkdir en dirid name s)" "leaves H (nfs_symlink en dirid name target sa s)"
  unfolding nfs_mkdir_def nfs_symlink_def by (intro leaves_intros leaves_then leaves_call assms | assumption)+

lemma leaves_readdir:
  assumes "nfs_rely en" and "tidy H s"
  shows "leaves H (nfs_readdir en dirid after n s)"
proof -
  have "tidy H (snd (page_attrs es s))" if "tidy H s" for es s
    using that
  proof (induction es arbitrary: s)
    case (Cons e es)
    from Cons.IH [OF tidy_getattr [OF Cons.prems, of "d_ino e"]] show ?case by (simp add: case_prod_beta Let_def)
  qed simp
  then have "leaves H (let (page, fin) = page_of after n es; (rows, s2) = page_attrs page s in Some (Inr (rows, fin), s2))" if "tidy H s" for es s
    using that by (simp add: case_prod_beta Let_def leaves_def)
  then show ?thesis unfolding nfs_readdir_def by (intro leaves_then leaves_call assms)
qed

lemma leaves_setattr:
  assumes "nfs_rely en" and "tidy H s"
  shows "leaves H (nfs_setattr en ino sa s)"
proof -
  have "leaves H (call_io en {} (setattr (z_files en) ino sz a) s)" for sz a
    unfolding leaves_def using call_keeps [OF assms] keeps_setattr [OF relyE(1) [OF assms(1)] tidy_keeps [OF assms(2)]] unfolding yields_def by blast
  then show ?thesis unfolding nfs_setattr_def Let_def by (intro leaves_then leaves_now)
qed

lemma leaves_remove:
  assumes "nfs_rely en" and "tidy H s"
  shows "leaves H (nfs_remove en dirid name s)" "leaves H (nfs_rename en d1 n1 d2 n2 s)"
proof -
  have d: "leaves H (drop_pooled en i s)" if "tidy H s" for i s
    using tidy_drop_pooled [OF assms(1) that] unfolding leaves_def by blast
  show "leaves H (nfs_remove en dirid name s)"
    unfolding nfs_remove_def by (intro leaves_intros leaves_then leaves_call assms d | assumption)+
  show "leaves H (nfs_rename en d1 n1 d2 n2 s)"
    unfolding nfs_rename_def prod.case
    by (intro leaves_intros leaves_then leaves_bind leaves_call assms d | assumption)+
qed

lemma leaves_opens:
  assumes "nfs_rely en" and "tidy H s" and "opens (pooled (n_pool s) \<union> H) h (g (n_io s))" and f: "\<And>a s. tidy (insert (h a) H) s \<Longrightarrow> leaves H (f a s)"
  shows "leaves H (nfs_then (call_io en K g s) f)"
proof (cases "call_io en K g s")
  case None
  then show ?thesis by (simp add: nfs_then_def leaves_now)
next
  case (Some p)
  then obtain r s1 where c: "call_io en K g s = Some (r, s1)" by (cases p) simp
  note o = call_opens [where f = g, OF assms(1-3)]
  show ?thesis
  proof (cases r)
    case (Inl e)
    then show ?thesis using c o(1) by (simp add: nfs_then_def leaves_now)
  next
    case (Inr a)
    then show ?thesis using c f [OF o(2) [OF c [unfolded Inr]]] by (simp add: nfs_then_def)
  qed
qed

lemma leaves_open:
  assumes "nfs_rely en" and "tidy H s" and "\<And>fh s. tidy (insert fh H) s \<Longrightarrow> leaves H (f fh s)"
  shows "leaves H (nfs_then (call_io en K (open_file_op (z_files en) ino w False None) s) f)"
  by (rule leaves_opens [where h = "\<lambda>fh. fh" and g = "open_file_op (z_files en) ino w False None", OF assms(1,2) open_ok [OF assms(1) tidy_keeps [OF assms(2)]] assms(3)])

lemma tidy_write_now: "tidy H s \<Longrightarrow> tidy H (snd (write_now en fh offset data s))"
  unfolding write_now_def case_prod_beta by (simp add: tidy_io keeps_write tidy_keeps)

lemma leaves_write_slow:
  assumes f: "nfs_rely en" and "tidy H s"
  shows "leaves H (nfs_write_slow en ino offset data s)"
proof -
  have after: "leaves H (case write_now en fh offset data s1 of
        (Inl e, s2) \<Rightarrow> map_option (Pair (Inl (errno_to_nfs e))) (release_now en fh s2)
      | (Inr _, s2) \<Rightarrow> map_option (\<lambda>s3. nfs_getattr ino (schedule_flush ino s3)) (insert_pooled en ino fh s2))"
    if t: "tidy (insert fh H) s1" for fh s1
  proof (cases "write_now en fh offset data s1")
    case (Pair r s2)
    then have "tidy (insert fh H) s2" using tidy_write_now [OF t, of en fh offset data] by simp
    then have "tidy H s3" if "release_now en fh s2 = Some s3 \<or> insert_pooled en ino fh s2 = Some s3" for s3
      using that tidy_release [OF f] tidy_insert_pooled [OF f] by blast
    then show ?thesis using Pair
      by (cases r) (auto simp: leaves_def dest!: arg_cong [where f = snd] intro!: tidy_getattr tidy_schedule)
  qed
  show ?thesis unfolding nfs_write_slow_def by (rule leaves_open [OF assms after])
qed

lemma leaves_write:
  assumes f: "nfs_rely en" and t: "tidy H s"
  shows "leaves H (nfs_write en ino offset data s)"
proof (cases "peek ino (n_pool s)")
  case None
  then show ?thesis using leaves_write_slow [OF assms] by (simp add: nfs_write_def)
next
  case (Some fh)
  obtain r s1 where w: "write_now en fh offset data s = (r, s1)" by fastforce
  have t1: "tidy H s1" using tidy_write_now [OF t, of en fh offset data] w by simp
  let ?s = "if peek ino (n_pool s1) = Some fh then s1\<lparr>n_pool := snd (pool_remove ino (n_pool s1))\<rparr> else s1"
  have "tidy (insert fh H) ?s" using tidy_remove [OF t1, of ino] tidy_mono [OF t1, of "insert fh H"] by auto
  then have "leaves H (Option.bind (evict_handle en ino fh ?s) (nfs_write_slow en ino offset data))"
    using leaves_write_slow [OF f tidy_evict [OF f]] by (cases "evict_handle en ino fh ?s") (simp_all add: leaves_now)
  moreover have "leaves H (Some (nfs_getattr ino (schedule_flush ino s1)))"
    using tidy_getattr [OF tidy_schedule [OF t1]] by (metis leaves_now(1) surjective_pairing)
  ultimately show ?thesis using Some w t1 by (cases r) (simp_all add: nfs_write_def leaves_now)
qed

lemma tidy_read:
  assumes f: "nfs_rely en" and t: "tidy H s" and c: "call_io en {fh} (read_op en fh offset n) s = Some (r, s')"
  shows "tidy H s'" and "r = Inl EBADF \<Longrightarrow> io_files (n_io s') fh = None"
proof -
  show "tidy H s'"
  proof (rule call_keeps [OF f t c])
    fix r io assume "read_op en fh offset n (n_io s) = Some (r, io)"
    then show "keeps (pooled (n_pool s) \<union> H) io"
      using tidy_keeps [OF t] relyE(2) [OF f tidy_keeps [OF t], of _ offset n] by (auto simp: read_op_def fail_with_def split: sum.splits) (metis snd_conv)
  qed
  assume r: "r = Inl EBADF"
  obtain io where io: "read_op en fh offset n (n_io s) = Some (Inl EBADF, io)" "s' = z_yield en {fh} (s\<lparr>n_io := io\<rparr>)"
    using c r by (auto simp: call_io_def)
  have "read_dispatch fh (n_io s) = Inl EBADF \<and> io = n_io s"
    using io(1) relyE(3) [OF f, of _ offset n "n_io s"] by (auto simp: read_op_def fail_with_def split: sum.splits) (metis fst_conv)
  then have "io_files io fh = None"
    using keeps_no_stream [OF tidy_keeps [OF t], of fh] by (auto simp: read_dispatch_def is_stream_def split: option.splits open_file.splits)
  then show "io_files (n_io s') fh = None" unfolding io(2) by (intro relyE(5) [OF f]) simp_all
qed

lemma leaves_read:
  assumes f: "nfs_rely en" and t: "tidy H s"
  shows "leaves H (nfs_read en ino offset n s)"
proof -
  let ?got = "case acquire_shared ino (n_pool s) of
      (Some fh, pool) \<Rightarrow> Some (Inr fh, s\<lparr>n_pool := pool\<rparr>) | (None, _) \<Rightarrow> get_or_open_handle en ino s"
  have got: "tidy H s1" if "?got = Some (r, s1)" for r s1
    using that tidy_acquire(1) [OF t, of ino] tidy_get_or_open [OF f t] by (auto split: prod.splits option.splits)
  have again: "leaves H (nfs_then (call_io en {} (open_file_op (z_files en) ino False False None) s4) (\<lambda>h s5.
      (case call_io en {h} (read_op en h offset n) s5 of
        None \<Rightarrow> None
      | Some (r', s6) \<Rightarrow> map_option (Pair (map_sum errno_to_nfs id r')) (release_now en h s6))))" if "tidy H s4" for s4
  proof -
    have "leaves H (case call_io en {h} (read_op en h offset n) s5 of
        None \<Rightarrow> None
      | Some (r', s6) \<Rightarrow> map_option (Pair (map_sum errno_to_nfs id r')) (release_now en h s6))" if "tidy (insert h H) s5" for h s5
      using tidy_read(1) [OF f that] tidy_release [OF f] by (fastforce simp: leaves_def split: option.splits)
    then show ?thesis by (rule leaves_open [OF f that])
  qed
  have rd: "leaves H (nfs_read en ino offset n s)" if g: "?got = Some (Inr fh, s1)" for fh s1
  proof (cases "call_io en {fh} (read_op en fh offset n) s1")
    case None
    then show ?thesis using g by (simp add: nfs_read_def leaves_now)
  next
    case (Some p)
    then obtain r s2 where c: "call_io en {fh} (read_op en fh offset n) s1 = Some (r, s2)" by (cases p) simp
    note tr = tidy_read [OF f got [OF g] c]
    let ?s3 = "s2\<lparr>n_pool := unpin ino (n_pool s2)\<rparr>"
    have t3: "tidy H ?s3" by (rule tidy_acquire(2) [OF tr(1)])
    let ?s4 = "if peek ino (n_pool ?s3) = Some fh then ?s3\<lparr>n_pool := snd (pool_remove ino (n_pool ?s3))\<rparr> else ?s3"
    have t4: "tidy H ?s4" if "r = Inl EBADF"
    proof -
      have "tidy (insert fh H) ?s4" using tidy_remove [OF t3, of ino] tidy_mono [OF t3, of "insert fh H"] by auto
      then show ?thesis by (rule tidy_closed) (use tr(2) [OF that] in simp)
    qed
    consider b where "r = Inr b" | "r = Inl EBADF" | e where "r = Inl e" "e \<noteq> EBADF" by (cases r) auto
    then show ?thesis
      using g c t3 again [OF t4] by cases (simp_all add: nfs_read_def Let_def leaves_now)
  qed
  show ?thesis
  proof (cases ?got)
    case None
    then show ?thesis by (simp add: nfs_read_def leaves_now)
  next
    case (Some p)
    then obtain r s1 where g: "?got = Some (r, s1)" by (cases p) simp
    show ?thesis using rd g got [OF g] by (cases r) (simp_all add: nfs_read_def leaves_now)
  qed
qed

lemma leaves_create:
  assumes f: "nfs_rely en" and t: "tidy H s" and "ready (n_io s)"
  shows "leaves H (create_file en dirid name mode uid gid s)"
proof -
  have "leaves H (nfs_then (call_io en {} (create (z_files en) dirid nm mode uid gid None) s) (\<lambda>(attr, fh) s1.
      map_option (Pair (Inr (a_ino attr, vfs_attr_to_nfs attr))) (insert_pooled en (a_ino attr) fh s1)))" for nm
  proof (rule leaves_opens [where h = snd and g = "create (z_files en) dirid nm mode uid gid None", OF f t opens_create [OF relyE(1) [OF f] assms(3) tidy_keeps [OF t]]])
    fix a :: "vfs_attr \<times> nat" and s1 assume a: "tidy (insert (snd a) H) s1"
    show "leaves H ((\<lambda>(attr, fh) s1. map_option (Pair (Inr (a_ino attr, vfs_attr_to_nfs attr))) (insert_pooled en (a_ino attr) fh s1)) a s1)"
      unfolding case_prod_beta by (rule leaves_pair) (rule tidy_insert_pooled [OF f a])
  qed
  then show ?thesis unfolding create_file_def by (intro leaves_intros t)
qed

lemma leaves_flush_created: "leaves H m \<Longrightarrow> leaves H (flush_created m)"
  unfolding leaves_def flush_created_def using tidy_schedule by (fastforce split: sum.splits)

text \<open>What a client, the poll loop and the end of the mount may ask for.\<close>

inductive nfs_op :: "nfs_env \<Rightarrow> nfs_adapter \<Rightarrow> nfs_adapter \<Rightarrow> bool" for en where
  req_lookup: "nfs_lookup en d n s = Some (r, s') \<Longrightarrow> nfs_op en s s'"
| req_getattr: "nfs_getattr i s = (r, s') \<Longrightarrow> nfs_op en s s'"
| req_setattr: "nfs_setattr en i sa s = Some (r, s') \<Longrightarrow> nfs_op en s s'"
| req_read: "nfs_read en i off cnt s = Some (r, s') \<Longrightarrow> nfs_op en s s'"
| req_write: "nfs_write en i off data s = Some (r, s') \<Longrightarrow> nfs_op en s s'"
| req_readdir: "nfs_readdir en d after cnt s = Some (r, s') \<Longrightarrow> nfs_op en s s'"
| req_create: "ready (n_io s) \<Longrightarrow> nfs_create en d n sa s = Some (r, s') \<Longrightarrow> nfs_op en s s'"
| req_exclusive: "ready (n_io s) \<Longrightarrow> nfs_create_exclusive en d n s = Some (r, s') \<Longrightarrow> nfs_op en s s'"
| req_mkdir: "nfs_mkdir en d n s = Some (r, s') \<Longrightarrow> nfs_op en s s'"
| req_symlink: "nfs_symlink en d n target sa s = Some (r, s') \<Longrightarrow> nfs_op en s s'"
| req_remove: "nfs_remove en d n s = Some (r, s') \<Longrightarrow> nfs_op en s s'"
| req_rename: "nfs_rename en d n d' n' s = Some (r, s') \<Longrightarrow> nfs_op en s s'"
| req_invalidate: "nfs_invalidate en i s = Some s' \<Longrightarrow> nfs_op en s s'"
| req_drain: "set order = dom (hp_handles (n_pool s)) \<Longrightarrow> nfs_drain en order s = Some s' \<Longrightarrow> nfs_op en s s'"

inductive nfs_run :: "nfs_env \<Rightarrow> nfs_adapter \<Rightarrow> nfs_adapter \<Rightarrow> bool" for en where
  run_none: "nfs_run en s s"
| run_op: "nfs_run en s s1 \<Longrightarrow> nfs_op en s1 s2 \<Longrightarrow> nfs_run en s s2"

lemma tidy_op:
  assumes f: "nfs_rely en" and t: "tidy H s" and "nfs_op en s s'"
  shows "tidy H s'"
  using assms(3)
proof cases
  case (req_getattr i r)
  then show ?thesis using tidy_getattr [OF t, of i] by simp
next
  case (req_create d n sa r)
  have "leaves H (nfs_create en d n sa s)"
    unfolding nfs_create_def by (intro leaves_flush_created leaves_create f t req_create(1))
  then show ?thesis using req_create(2) by (rule leavesD)
next
  case (req_exclusive d n r)
  have "leaves H (nfs_create_exclusive en d n s)"
    unfolding nfs_create_exclusive_def by (intro leaves_map leaves_flush_created leaves_create f t req_exclusive(1))
  then show ?thesis using req_exclusive(2) by (rule leavesD)
next
  case (req_lookup d n r)
  from leavesD [OF leaves_lookup [OF f t] this] show ?thesis .
next
  case (req_setattr i sa r)
  from leavesD [OF leaves_setattr [OF f t] this] show ?thesis .
next
  case (req_read i off cnt r)
  from leavesD [OF leaves_read [OF f t] this] show ?thesis .
next
  case (req_write i off data r)
  from leavesD [OF leaves_write [OF f t] this] show ?thesis .
next
  case (req_readdir d after cnt r)
  from leavesD [OF leaves_readdir [OF f t] this] show ?thesis .
next
  case (req_mkdir d n r)
  from leavesD [OF leaves_mkdir(1) [OF f t] this] show ?thesis .
next
  case (req_symlink d n target sa r)
  from leavesD [OF leaves_mkdir(2) [OF f t] this] show ?thesis .
next
  case (req_remove d n r)
  from leavesD [OF leaves_remove(1) [OF f t] this] show ?thesis .
next
  case (req_rename d n d' n' r)
  from leavesD [OF leaves_remove(2) [OF f t] this] show ?thesis .
next
  case (req_invalidate i)
  from tidy_invalidate [OF f t this] show ?thesis .
next
  case (req_drain order)
  from tidy_drain [OF f t this] show ?thesis .
qed

lemma tidy_run: "nfs_run en s s' \<Longrightarrow> nfs_rely en \<Longrightarrow> tidy H s \<Longrightarrow> tidy H s'"
  by (induction rule: nfs_run.induct) (auto intro: tidy_op)

lemma evict_all_pool:
  assumes "\<And>K x. n_pool (z_yield en K x) = n_pool x" and "evict_all en l s = Some s'"
  shows "n_pool s' = n_pool s"
  using assms(2)
proof (induction l arbitrary: s)
  case (Cons e l)
  have c: "n_pool s2 = n_pool s1" if "call_io en K f s1 = Some (r, s2)" for K r s1 s2 and f :: "io_state \<Rightarrow> unit io_result"
    using that by (auto simp: call_io_def assms(1))
  obtain i fh where e: "e = (i, fh)" by fastforce
  obtain s1 where s1: "evict_handle en i fh s = Some s1" "evict_all en l s1 = Some s'" using Cons.prems by (auto simp: e bind_eq_Some_conv)
  have "n_pool s1 = n_pool s" using s1(1) by (auto simp: evict_handle_def release_now_def bind_eq_Some_conv dest!: c)
  then show ?case using Cons.IH [OF s1(2)] by simp
qed simp

text \<open>
  C11: the NFS adapter leaks no handle.  Over any sequence of requests (reads, writes, creations, removals,
  renames, directory pages, invalidations and the final drain, failed ones included), whatever the Hub and the
  disk answer, and while other requests run at every wait, inside the calls of the file system too, where they open handles,
  hold them, put them into the pool, take them out and close them: each handle that is open in the file
  system at the end is in the pool, where a later eviction, removal or the drain closes it, or is held by one of the others.
  A drain during which the others leave the pool alone empties it, and leaves open only what they hold.
\<close>

theorem nfs_no_leak:
  assumes "nfs_rely en" and "tidy {} s" and "nfs_run en s s'"
  shows "pool_ok (n_pool s') \<and> dom (io_files (n_io s')) \<subseteq> pooled (n_pool s') \<union> io_held (n_io s') \<and>
    (\<forall>en' order s''. nfs_rely en' \<and> (\<forall>K x. n_pool (z_yield en' K x) = n_pool x) \<and>
      set order = dom (hp_handles (n_pool s')) \<and> nfs_drain en' order s' = Some s'' \<longrightarrow>
      n_pool s'' = pool_new \<and> dom (io_files (n_io s'')) \<subseteq> io_held (n_io s''))"
proof -
  have t: "tidy {} s'" using assms(3,1,2) by (rule tidy_run)
  have "n_pool s'' = pool_new \<and> dom (io_files (n_io s'')) \<subseteq> io_held (n_io s'')"
    if f: "nfs_rely en'" and y: "\<And>K x. n_pool (z_yield en' K x) = n_pool x"
      and o: "set order = dom (hp_handles (n_pool s'))" and d: "nfs_drain en' order s' = Some s''" for en' order s''
  proof -
    have p: "n_pool s'' = pool_new" using evict_all_pool [OF y] d by (fastforce simp: nfs_drain_def pool_drain_def)
    then show ?thesis using tidy_drain [OF f t o d] pool_ok_new(2) by (simp add: tidy_def keeps_def)
  qed
  moreover have "pool_ok (n_pool s')" "dom (io_files (n_io s')) \<subseteq> pooled (n_pool s') \<union> io_held (n_io s')"
    using t by (simp_all add: tidy_def keeps_def)
  ultimately show ?thesis by blast
qed

text \<open>
  A read of a clean file opens a lazy handle, which stays in the pool, while another request opens the handle 7 and
  does not yet give it up.
\<close>

definition demo_yield :: "nat set \<Rightarrow> nfs_adapter \<Rightarrow> nfs_adapter" where
  "demo_yield K s =
    (if 7 \<in> K then s
     else s\<lparr>n_io := (n_io s)\<lparr>io_files := (io_files (n_io s))(7 \<mapsto> Lazy 2 ''h'' 3 False), io_held := insert 7 (io_held (n_io s))\<rparr>\<rparr>)"

definition demo_nfs_env :: nfs_env where
  "demo_nfs_env = \<lparr>z_files = calm_files, z_lookup = empty_hub, z_read = (\<lambda>_ _ _ s. (Inr ([1], True), s)), z_yield = demo_yield, z_uid = 0, z_gid = 0\<rparr>"

definition demo_nfs :: nfs_adapter where
  "demo_nfs = \<lparr>n_io = quiet, n_pool = pool_new\<rparr>"

lemma demo_fair: "nfs_rely demo_nfs_env" "tidy {} demo_nfs"
proof -
  have files: "rely_files calm_files" by (simp add: rely_files_def disciplined_def calm_files_def calm_env_def)
  have "keeps X io \<Longrightarrow> keeps X (io\<lparr>io_files := (io_files io)(7 \<mapsto> Lazy 2 ''h'' 3 False), io_held := insert 7 (io_held io)\<rparr>)" for X io
    by (auto simp: keeps_def is_stream_def)
  then have "tidy H (demo_yield K s)" if "tidy H s" for H K s
    using that by (simp add: tidy_def demo_yield_def)
  then show "nfs_rely demo_nfs_env"
    by (simp add: nfs_rely_def disciplined_def demo_nfs_env_def files) (auto simp: demo_yield_def)
  show "tidy {} demo_nfs" by (simp add: tidy_def keeps_def demo_nfs_def quiet_def stream_start_def pool_ok_new)
qed

lemma demo_read:
  "\<exists>s'. nfs_read demo_nfs_env 2 0 10 demo_nfs = Some (Inr ([1], True), s') \<and> dom (io_files (n_io s')) = {1, 7} \<and> io_held (n_io s') = {7}"
proof -
  have "\<exists>s1. open_file_op calm_files 2 False False None quiet = Some (Inr 1, s1) \<and> io_files s1 = [1 \<mapsto> Lazy 2 ''h'' 3 False] \<and> io_held s1 = {}"
    by (simp add: open_file_op_def open_readonly_def open_readonly_body_def open_dispatch_def open_remote_def open_lazy_def install_handle_def get_file_entry_def
        and_then_def ok_with_def ensure_def fail_with_def is_dirty_def with_lock_def quiet_def race_defs calm_files_def overlay_def is_encrypting_def io_staging_dir_def io_lock_def io_unlock_def)
  then obtain s1 where s1: "open_file_op calm_files 2 False False None quiet = Some (Inr 1, s1)" "io_files s1 = [1 \<mapsto> Lazy 2 ''h'' 3 False]" "io_held s1 = {}" by blast
  show ?thesis
    using s1 by (auto simp: nfs_read_def get_or_open_handle_def demo_nfs_env_def demo_nfs_def call_io_def acquire_shared_def pin_def pool_new_def pool_insert_def
        pool_remove_def process_insert_result_def read_op_def read_dispatch_def demo_yield_def)
qed

theorem nfs_no_leak_witness:
  "\<exists>s'. nfs_read demo_nfs_env 2 0 10 demo_nfs = Some (Inr ([1], True), s') \<and> dom (io_files (n_io s')) = {1, 7} \<and>
    io_held (n_io s') = {7} \<and> 1 \<in> pooled (n_pool s')"
proof -
  obtain s' where s': "nfs_read demo_nfs_env 2 0 10 demo_nfs = Some (Inr ([1], True), s')" "dom (io_files (n_io s')) = {1, 7}" "io_held (n_io s') = {7}"
    using demo_read by blast
  have "nfs_run demo_nfs_env demo_nfs s'" by (rule run_op [OF run_none req_read [OF s'(1)]])
  from nfs_no_leak [OF demo_fair this, THEN conjunct2, THEN conjunct1] have "1 \<in> pooled (n_pool s')" using s'(2,3) by simp
  then show ?thesis using s' by blast
qed

end
