(* ===== verification/Nfs_Paging.thy ===== *)
theory Nfs_Paging
  imports Nfs Inode_Tree Inode_Evict
begin

text \<open>
  Reading a directory page by page over NFS: the client asks for the entries after the last one it has seen
  until it is told that there are no more.
\<close>

section \<open>The client\<close>

fun client_pages :: "nat \<Rightarrow> nat \<Rightarrow> nat \<Rightarrow> dir_entry list \<Rightarrow> dir_entry list option" where
  "client_pages 0 after n es = None"
| "client_pages (Suc fuel) after n es =
    (let (page, fin) = page_of after n es
     in if fin then Some page
        else map_option (\<lambda>more. page @ more) (client_pages fuel (d_ino (last page)) n es))"

text \<open>A page may end at an entry whose inode number no earlier entry has.\<close>

definition fresh_at :: "dir_entry list \<Rightarrow> nat \<Rightarrow> bool" where
  "fresh_at es i \<longleftrightarrow> d_ino (es ! i) \<noteq> 0 \<and> d_ino (es ! i) \<notin> d_ino ` set (take i es)"

lemma entry_position_fresh:
  "i < length es \<Longrightarrow> d_ino (es ! i) \<notin> d_ino ` set (take i es) \<Longrightarrow> entry_position (d_ino (es ! i)) es = Some i"
proof (induction es arbitrary: i)
  case (Cons e es)
  then show ?case by (cases i) auto
qed simp

lemma pages_from:
  assumes "0 < n" and f: "\<And>i. n \<le> Suc i \<Longrightarrow> i < length es \<Longrightarrow> fresh_at es i"
  shows "length es - k < fuel \<Longrightarrow> k = 0 \<and> after = 0 \<or> n \<le> k \<and> k \<le> length es \<and> after = d_ino (es ! (k - 1)) \<Longrightarrow>
    client_pages fuel after n es = Some (drop k es)"
proof (induction fuel arbitrary: k after)
  case (Suc fuel)
  have start: "page_start after es = k"
    using Suc.prems(2)
  proof
    assume k: "n \<le> k \<and> k \<le> length es \<and> after = d_ino (es ! (k - 1))"
    then have "n \<le> Suc (k - 1)" "k - 1 < length es" using assms(1) by linarith+
    then have "fresh_at es (k - 1)" by (rule f)
    then show ?thesis using k assms(1) entry_position_fresh [of "k - 1" es] by (auto simp: page_start_def fresh_at_def)
  qed (simp add: page_start_def)
  have kl: "k \<le> length es" using Suc.prems(2) by auto
  show ?case
  proof (cases "length es \<le> k + n")
    case True
    then show ?thesis using start kl by (simp add: page_of_def Let_def)
  next
    case False
    let ?page = "take n (drop k es)"
    have l: "last ?page = es ! (k + n - 1)" "k + n \<le> length es" using False assms(1) by (simp_all add: last_conv_nth)
    have "client_pages fuel (d_ino (last ?page)) n es = Some (drop (k + n) es)"
      by (rule Suc.IH) (use Suc.prems(1) l assms(1) in auto)
    moreover have "take n (drop k es) @ drop (k + n) es = drop k es"
      by (metis add.commute append_take_drop_id drop_drop)
    ultimately show ?thesis using start False by (simp add: page_of_def Let_def)
  qed
qed simp

section \<open>The directories\<close>

text \<open>In a well-formed table the listing repeats an inode number in its first two entries only.\<close>

lemma listing_numbers:
  assumes wf: "wf_table t" and e: "t_inodes t ino = Some e" and es: "dir_entries t ino = Inr es"
  shows "map d_ino es = ino # e_parent e # map c_ino (e_children e)"
proof -
  have "List.map_filter (\<lambda>c. map_option (\<lambda>ce. \<lparr>d_ino = e_inode ce, d_kind = e_kind ce, d_name = c_name c\<rparr>) (t_inodes t (c_ino c))) cs =
      map (\<lambda>c. \<lparr>d_ino = c_ino c, d_kind = e_kind (the (t_inodes t (c_ino c))), d_name = c_name c\<rparr>) cs" if "set cs \<subseteq> set (e_children e)" for cs
    using that
  proof (induction cs)
    case (Cons c cs)
    obtain ce where ce: "t_inodes t (c_ino c) = Some ce" using wf_child_entry [OF wf e] Cons.prems by (metis list.set_intros(1) subsetD)
    have "e_inode ce = c_ino c" by (rule we_inode [OF wf_tableE [OF wf ce]])
    then show ?case using Cons ce by (simp add: List.map_filter_def)
  qed (simp add: List.map_filter_def)
  from this [OF subset_refl] show ?thesis using es e by (auto simp: dir_entries_def)
qed

lemma child_numbers:
  assumes wf: "wf_table t" and e: "t_inodes t ino = Some e" and c: "c \<in> set (e_children e)"
  shows "c_ino c \<noteq> ino" and "c_ino c \<noteq> e_parent e"
proof -
  obtain ce where ce: "t_inodes t (c_ino c) = Some ce" "e_full_path ce = child_path (e_full_path e) (c_name c)" "c_ino c \<noteq> ROOT_INODE" "name_ok (c_name c)"
    by (rule wf_child_entry [OF wf e c])
  have longer: "length (e_full_path e) < length (e_full_path ce)" using child_path_longer [OF ce(4)] ce(2) by simp
  then show "c_ino c \<noteq> ino" using ce(1) e by auto
  show "c_ino c \<noteq> e_parent e"
  proof (cases "ino = ROOT_INODE")
    case True
    then show ?thesis using ce(3) e wf_wf_root [OF wf] by (auto simp: wf_root_def)
  next
    case False
    have "e_kind e = Directory" using c we_listing [OF wf_tableE [OF wf e]] by (auto simp: listing_ok_def)
    then have "attached t e" using we_attached [OF wf_tableE [OF wf e] False] by (simp add: linked_def)
    then obtain pe where pe: "t_inodes t (e_parent e) = Some pe" "\<lparr>c_ino = e_inode e, c_name = e_name e\<rparr> \<in> set (e_children pe)"
      by (auto simp: attached_def)
    obtain x where "t_inodes t (e_inode e) = Some x" "e_full_path x = child_path (e_full_path pe) (e_name e)" "name_ok (e_name e)"
      using wf_child_entry [OF wf pe] by (metis dir_child.select_convs)
    then have "length (e_full_path pe) < length (e_full_path e)"
      using child_path_longer we_inode [OF wf_tableE [OF wf e]] e by fastforce
    then show ?thesis using longer pe(1) ce(1) by auto
  qed
qed

lemma listing_fresh:
  assumes wf: "wf_table t" and z: "t_inodes t 0 = None" and es: "dir_entries t ino = Inr es" and i: "2 \<le> i" "i < length es"
  shows "fresh_at es i"
proof -
  obtain e where e: "t_inodes t ino = Some e" using es by (auto simp: dir_entries_def split: option.splits)
  note nums = listing_numbers [OF wf e es]
  define ns where "ns = map c_ino (e_children e)"
  have d: "distinct ns" using we_listing [OF wf_tableE [OF wf e]] by (simp add: listing_ok_def ns_def)
  have out: "ino \<notin> set ns" "e_parent e \<notin> set ns" by (auto simp: ns_def dest: child_numbers [OF wf e])
  have z': "0 \<notin> set ns"
  proof
    assume "0 \<in> set ns"
    then obtain c where c: "c \<in> set (e_children e)" "c_ino c = 0" by (auto simp: ns_def)
    obtain ce where "t_inodes t (c_ino c) = Some ce" by (rule wf_child_entry [OF wf e c(1)])
    then show False using z c(2) by simp
  qed
  obtain j where j: "i = Suc (Suc j)" using i(1) by (metis add_2_eq_Suc le_Suc_ex)
  have len: "j < length ns" using arg_cong [OF nums, of length] i(2) j by (simp add: ns_def)
  have "map d_ino es ! i = ns ! j" by (simp add: nums j ns_def)
  then have n: "d_ino (es ! i) = ns ! j" using i(2) by simp
  have "d_ino ` set (take i es) = set (take i (map d_ino es))" by (simp add: take_map)
  also have "\<dots> = {ino, e_parent e} \<union> set (take j ns)" by (simp add: nums j ns_def)
  finally have seen: "d_ino ` set (take i es) = {ino, e_parent e} \<union> set (take j ns)" .
  have "ns ! j \<notin> set (take j ns)"
    using d len distinct_take [of ns "Suc j"] by (simp add: take_Suc_conv_app_nth)
  moreover have "ns ! j \<notin> {ino, e_parent e}" using out nth_mem [OF len] by (cases "ns ! j = ino") auto
  ultimately have "d_ino (es ! i) \<notin> d_ino ` set (take i es)" unfolding seen n by blast
  then show ?thesis using n z' nth_mem [OF len] by (auto simp: fresh_at_def)
qed

text \<open>
  C18: reading a directory over NFS in pages of three entries or more gives each entry of the listing once, in
  order, and ends: whatever the page size and wherever the pages fall, also at the root, whose first two
  entries have the same inode number.
\<close>

theorem readdir_pages_exact:
  assumes "wf_table t" and "t_inodes t 0 = None" and "dir_entries t ino = Inr es" and "3 \<le> n"
  shows "client_pages (Suc (length es)) 0 n es = Some es"
proof -
  have "client_pages (Suc (length es)) 0 n es = Some (drop 0 es)"
    by (rule pages_from) (use assms(4) listing_fresh [OF assms(1-3)] in auto)
  then show ?thesis by simp
qed

lemma one_file_0: "t_inodes one_file 0 = None"
  by (simp add: one_file_def insert_inode_def new_table_def ROOT_INODE_def Let_def)

lemma one_file_listing: "\<exists>es. dir_entries one_file 1 = Inr es \<and> map d_name es = [''.'', ''..'', ''a''] \<and> length es = 3"
  by (simp add: dir_entries_def one_file_def sample_defs List.map_filter_def)

theorem readdir_pages_exact_witness:
  "\<exists>es. dir_entries one_file 1 = Inr es \<and> map d_name es = [''.'', ''..'', ''a''] \<and> client_pages (Suc 3) 0 3 es = Some es"
proof -
  obtain es where es: "dir_entries one_file 1 = Inr es" "map d_name es = [''.'', ''..'', ''a'']" "length es = 3"
    using one_file_listing by (elim exE conjE) (rule that)
  have "client_pages (Suc 3) 0 3 es = Some es"
    using readdir_pages_exact [OF wf_one_file one_file_0 es(1) order_refl] by (simp only: es(3))
  from this [THEN conjI [OF es(2)], THEN conjI [OF es(1)]] show ?thesis by (rule exI)
qed

text \<open>
  In pages of one entry the root does not end: the page after the parent entry is that entry again.
\<close>

lemma root_pages_of_one_never_end:
  assumes "wf_table t" and "dir_entries t ROOT_INODE = Inr es" and "2 < length es"
  shows "client_pages fuel 0 1 es = None"
proof -
  obtain e where e: "t_inodes t ROOT_INODE = Some e" "e_parent e = ROOT_INODE" using wf_wf_root [OF assms(1)] by (auto simp: wf_root_def)
  have "map d_ino es = ROOT_INODE # ROOT_INODE # map c_ino (e_children e)" using listing_numbers [OF assms(1) e(1) assms(2)] e(2) by simp
  then obtain a b rest where es: "es = a # b # rest" "d_ino a = ROOT_INODE" "d_ino b = ROOT_INODE" by auto
  have "rest \<noteq> []" using assms(3) es by auto
  then have page: "page_of ROOT_INODE 1 es = ([b], False)" "page_of 0 1 es = ([a], False)"
    by (cases rest; simp add: page_of_def page_start_def es ROOT_INODE_def)+
  have loop: "client_pages fuel ROOT_INODE 1 es = None" for fuel
    by (induction fuel) (simp_all add: page es(3) del: One_nat_def)
  show ?thesis by (cases fuel) (simp_all add: page es(2) loop del: One_nat_def)
qed

end
