(* ===== verification/Lru_Sweep.thy ===== *)
theory Lru_Sweep
  imports Vfs_Load_Safety Vfs_Lookup_Safety Flush Inode_Evict
begin

text \<open>
  \<open>lru_evict_sweep\<close> of \<open>src/src/virtual_fs/mod.rs\<close>: the background sweep that keeps the inode table below its
  soft limit.  It picks the oldest reclaimable files, asks the kernel to forget their names and then
  evicts those that are still unused.  Between these steps no lock is held: what others make of the mount
  meanwhile is part of the environment.
\<close>

section \<open>The sweep\<close>

definition INVAL_BATCH_SIZE :: nat where "INVAL_BATCH_SIZE = 64"
definition EVICT_CHUNK :: nat where "EVICT_CHUNK = 4096"

text \<open>
  \<open>q_inval\<close> is the entry invalidator, when one is set: false when the notify channel is full.  \<open>q_join\<close> says
  whether the blocking task came back; \<open>q_parents\<close> and \<open>q_members\<close> are iteration orders of hash maps.
\<close>

record sweep_env =
  q_vfs :: vfs_env
  q_order :: "inode_table \<Rightarrow> nat list"
  q_into_vec :: "(nat \<times> nat) list \<Rightarrow> (nat \<times> nat) list"
  q_inval :: "(nat \<Rightarrow> string \<Rightarrow> vfs \<Rightarrow> bool \<times> vfs) option"
  q_join :: "vfs \<Rightarrow> bool"
  q_pause :: "vfs \<Rightarrow> vfs"
  q_parents :: "inode_table \<Rightarrow> nat list \<Rightarrow> nat list"
  q_members :: "inode_table \<Rightarrow> nat list \<Rightarrow> nat \<Rightarrow> nat list"
  q_between :: "vfs \<Rightarrow> vfs"

fun inval_chunk :: "(nat \<Rightarrow> string \<Rightarrow> vfs \<Rightarrow> bool \<times> vfs) \<Rightarrow> (nat \<times> nat \<times> string) list \<Rightarrow> vfs \<Rightarrow> nat list \<times> bool \<times> vfs" where
  "inval_chunk inval [] s = ([], False, s)"
| "inval_chunk inval ((ino, parent, name) # rest) s =
    (case inval parent name s of
      (False, s1) \<Rightarrow> ([], True, s1)
    | (True, s1) \<Rightarrow> (case inval_chunk inval rest s1 of (inos, stop, s2) \<Rightarrow> (ino # inos, stop, s2)))"

function inval_loop ::
  "sweep_env \<Rightarrow> (nat \<Rightarrow> string \<Rightarrow> vfs \<Rightarrow> bool \<times> vfs) \<Rightarrow> (nat \<times> nat \<times> string) list \<Rightarrow> vfs \<Rightarrow> nat list \<times> vfs" where
  "inval_loop en inval cands s =
    (if cands = [] then ([], s)
     else (let chunk = take INVAL_BATCH_SIZE cands;
               is_last = (length chunk < INVAL_BATCH_SIZE);
               (inos, full, s1) = inval_chunk inval chunk s;
               (chunk_inos, stop) = (if q_join en s1 then (inos, full) else ([], True))
           in if stop \<or> is_last then (chunk_inos, s1)
              else (case inval_loop en inval (drop INVAL_BATCH_SIZE cands) (q_pause en s1) of
                (rest, s2) \<Rightarrow> (chunk_inos @ rest, s2))))"
  by pat_completeness auto
termination
  by (relation "measure (\<lambda>(en, inval, cands, s). length cands)") (auto simp: INVAL_BATCH_SIZE_def)

declare inval_loop.simps [simp del]

function evict_chunks :: "sweep_env \<Rightarrow> nat list \<Rightarrow> vfs \<Rightarrow> nat \<times> vfs" where
  "evict_chunks en inos s =
    (if inos = [] then (0, s)
     else (let chunk = take EVICT_CHUNK inos; t = v_table s;
               (evicted, t1) = evict_batch_if_safe (q_parents en t chunk) (q_members en t chunk) chunk t;
               s1 = fold (drop_staging (q_vfs en)) evicted (s\<lparr>v_table := t1\<rparr>);
               (n, s2) = evict_chunks en (drop EVICT_CHUNK inos) (q_between en s1)
           in (length evicted + n, s2)))"
  by pat_completeness auto
termination
  by (relation "measure (\<lambda>(en, inos, s). length inos)") (auto simp: EVICT_CHUNK_def)

declare evict_chunks.simps [simp del]

definition lru_evict_sweep :: "sweep_env \<Rightarrow> nat \<Rightarrow> vfs \<Rightarrow> nat \<times> vfs" where
  "lru_evict_sweep en soft_limit s =
    (let t = v_table s; len = card (dom (t_inodes t))
     in if len \<le> soft_limit then (0, s)
        else (let candidates = lru_candidates (q_order en t) (q_into_vec en) t (len - soft_limit)
              in if candidates = [] then (0, s)
                 else (case q_inval en of
                    None \<Rightarrow> (0, s)
                  | Some inval \<Rightarrow>
                      (case inval_loop en inval candidates s of
                        (to_evict, s1) \<Rightarrow> if to_evict = [] then (0, s1) else evict_chunks en to_evict s1))))"

section \<open>What it keeps\<close>

text \<open>Hash maps are iterated over in some order.\<close>

definition sweep_orders :: "sweep_env \<Rightarrow> bool" where
  "sweep_orders en \<longleftrightarrow> (\<forall>t. wf_table t \<longrightarrow> enumerates (q_order en t) (t_inodes t) \<and>
      (\<forall>inos. batch_order t inos (q_parents en t inos) (q_members en t inos))) \<and> (\<forall>xs. mset (q_into_vec en xs) = mset xs)"

text \<open>The other users of the mount keep a property of the state.\<close>

definition others_keep :: "sweep_env \<Rightarrow> (vfs \<Rightarrow> bool) \<Rightarrow> bool" where
  "others_keep en Q \<longleftrightarrow> (\<forall>s. Q s \<longrightarrow> Q (q_pause en s) \<and> Q (q_between en s) \<and>
     (\<forall>inval parent name. q_inval en = Some inval \<longrightarrow> Q (snd (inval parent name s))))"

lemma inval_chunk_keeps:
  assumes "others_keep en Q" and "q_inval en = Some inval" and "Q s" and "inval_chunk inval chunk s = (inos, stop, s')"
  shows "Q s'"
  using assms(3,4)
proof (induction chunk arbitrary: s inos stop s')
  case (Cons c chunk)
  obtain ino parent name where c: "c = (ino, parent, name)" using prod_cases3 by blast
  obtain b s1 where i: "inval parent name s = (b, s1)" by fastforce
  have "Q s1" using assms(1,2) Cons.prems(1) i unfolding others_keep_def by (metis snd_conv)
  then show ?case using Cons.IH [of s1] Cons.prems(2) i by (cases b) (auto simp: c split: prod.splits)
qed simp

lemma inval_chunk_prefix: "inval_chunk inval chunk s = (inos, stop, s') \<Longrightarrow> \<exists>k. inos = take k (map fst chunk) \<and> (\<not> stop \<longrightarrow> inos = map fst chunk)"
proof (induction chunk arbitrary: s inos)
  case (Cons c chunk)
  obtain ino parent name where c: "c = (ino, parent, name)" using prod_cases3 by blast
  obtain b s1 where i: "inval parent name s = (b, s1)" by fastforce
  show ?case
  proof (cases b)
    case True
    obtain js st s2 where r: "inval_chunk inval chunk s1 = (js, st, s2)" using prod_cases3 by blast
    then have e: "inos = ino # js" "stop = st" "s' = s2" using Cons.prems i True by (auto simp: c)
    obtain k where k: "js = take k (map fst chunk)" "\<not> st \<longrightarrow> js = map fst chunk" using Cons.IH [OF r [folded e(2,3)]] e(2) by blast
    have "inos = take (Suc k) (map fst (c # chunk))" using e(1) k(1) by (simp add: c)
    moreover have "\<not> stop \<longrightarrow> inos = map fst (c # chunk)" using e(1,2) k(2) by (simp add: c)
    ultimately show ?thesis by blast
  qed (use Cons.prems i in \<open>auto simp: c intro: exI [of _ 0]\<close>)
qed simp

lemma inval_loop_prefix:
  assumes "others_keep en Q" and "q_inval en = Some inval"
  shows "Q s \<Longrightarrow> inval_loop en inval cands s = (inos, s') \<Longrightarrow> Q s' \<and> (\<exists>k. inos = take k (map fst cands))"
proof (induction "length cands" arbitrary: cands s inos s' rule: less_induct)
  case less
  show ?case
  proof (cases "cands = []")
    case True
    then show ?thesis using less.prems by (simp add: inval_loop.simps)
  next
    case False
    let ?c = "take INVAL_BATCH_SIZE cands"
    obtain js full s1 where c: "inval_chunk inval ?c s = (js, full, s1)" using prod_cases3 by blast
    have q1: "Q s1" by (rule inval_chunk_keeps [OF assms less.prems(1) c])
    obtain k where k: "js = take k (map fst ?c)" "\<not> full \<longrightarrow> js = map fst ?c" using inval_chunk_prefix [OF c] by blast
    define stop where "stop \<longleftrightarrow> \<not> q_join en s1 \<or> full \<or> length ?c < INVAL_BATCH_SIZE"
    show ?thesis
    proof (cases stop)
      case True
      then have "s' = s1" "inos = (if q_join en s1 then js else [])"
        using less.prems(2) c False by (auto simp: stop_def inval_loop.simps [of en inval cands s] Let_def split: if_splits)
      moreover have "js = take (min k INVAL_BATCH_SIZE) (map fst cands)" using k(1) by (simp add: take_map)
      ultimately show ?thesis using q1 by (cases "q_join en s1") (auto intro: exI [of _ 0])
    next
      case F: False
      obtain ks s2 where r: "inval_loop en inval (drop INVAL_BATCH_SIZE cands) (q_pause en s1) = (ks, s2)" by fastforce
      have e: "inos = js @ ks" "s' = s2" "js = map fst ?c"
        using less.prems(2) c False F r k(2) by (simp_all add: stop_def inval_loop.simps [of en inval cands s])
      have "Q (q_pause en s1)" using assms(1) q1 by (simp add: others_keep_def)
      moreover have "length (drop INVAL_BATCH_SIZE cands) < length cands" using False by (simp add: INVAL_BATCH_SIZE_def)
      ultimately obtain m where "Q s2" "ks = take m (map fst (drop INVAL_BATCH_SIZE cands))" using less.hyps r by blast
      moreover have "map fst ?c @ take m (map fst (drop INVAL_BATCH_SIZE cands)) = take (INVAL_BATCH_SIZE + m) (map fst cands)"
        by (simp add: take_add take_map drop_map)
      ultimately show ?thesis using e by metis
    qed
  qed
qed

subsection \<open>Evicting\<close>

lemma pruned_eligible: "pruned_entry S e f \<Longrightarrow> batch_eligible f = batch_eligible e"
  by (auto simp: pruned_entry_def batch_eligible_def is_dirty_def)

lemma drop_staging_table: "v_table (fold (drop_staging en) inos s) = v_table s"
  by (induction inos arbitrary: s) (simp_all add: drop_staging_def)

lemma evict_chunks_step:
  assumes "inos \<noteq> []"
  obtains evicted s1 n s2 where "evict_chunks en inos s = (length evicted + n, s2)"
    and "v_table s1 = snd (evict_batch_if_safe (q_parents en (v_table s) (take EVICT_CHUNK inos)) (q_members en (v_table s) (take EVICT_CHUNK inos)) (take EVICT_CHUNK inos) (v_table s))"
    and "evicted = fst (evict_batch_if_safe (q_parents en (v_table s) (take EVICT_CHUNK inos)) (q_members en (v_table s) (take EVICT_CHUNK inos)) (take EVICT_CHUNK inos) (v_table s))"
    and "evict_chunks en (drop EVICT_CHUNK inos) (q_between en s1) = (n, s2)"
proof -
  let ?r = "evict_batch_if_safe (q_parents en (v_table s) (take EVICT_CHUNK inos)) (q_members en (v_table s) (take EVICT_CHUNK inos)) (take EVICT_CHUNK inos) (v_table s)"
  let ?s1 = "fold (drop_staging (q_vfs en)) (fst ?r) (s\<lparr>v_table := snd ?r\<rparr>)"
  obtain n s2 where r: "evict_chunks en (drop EVICT_CHUNK inos) (q_between en ?s1) = (n, s2)" by fastforce
  show thesis
    by (rule that [of "fst ?r" n s2 ?s1]) (use assms r in \<open>simp_all add: evict_chunks.simps [of en inos s] Let_def case_prod_beta drop_staging_table\<close>)
qed

text \<open>An entry the sweep must not touch: dirty, open, known to the kernel, unlinked or with a pending rename, or no file.\<close>

definition in_use :: "inode_entry \<Rightarrow> bool" where
  "in_use e \<longleftrightarrow> is_dirty e \<or> 0 < ev_open_handles (e_eviction e) \<or> 0 < ev_nlookup (e_eviction e) \<or> e_nlink e = 0 \<or>
     e_pending_deletes e \<noteq> [] \<or> e_kind e = Directory \<or> e_kind e = Symlink"

lemma eligible_not_in_use: "batch_eligible e \<longleftrightarrow> \<not> in_use e"
  by (cases "e_kind e") (auto simp: batch_eligible_def in_use_def)

definition protected_inode :: "nat \<Rightarrow> vfs \<Rightarrow> bool" where
  "protected_inode i s \<longleftrightarrow> wf_table (v_table s) \<and> (\<exists>e. t_inodes (v_table s) i = Some e \<and> in_use e)"

lemma evict_chunks_protects:
  assumes "sweep_orders en" and "others_keep en (protected_inode i)"
  shows "protected_inode i s \<Longrightarrow> protected_inode i (snd (evict_chunks en inos s))"
proof (induction "length inos" arbitrary: inos s rule: less_induct)
  case less
  show ?case
  proof (cases "inos = []")
    case False
    let ?c = "take EVICT_CHUNK inos" and ?t = "v_table s"
    obtain ev s1 n s2 where r: "evict_chunks en inos s = (length ev + n, s2)"
      and s1: "v_table s1 = snd (evict_batch_if_safe (q_parents en ?t ?c) (q_members en ?t ?c) ?c ?t)"
      and "ev = fst (evict_batch_if_safe (q_parents en ?t ?c) (q_members en ?t ?c) ?c ?t)"
      and s2: "evict_chunks en (drop EVICT_CHUNK inos) (q_between en s1) = (n, s2)"
      by (rule evict_chunks_step [OF False, where en = en and s = s])
    have wf: "wf_table ?t" and b: "batch_order ?t ?c (q_parents en ?t ?c) (q_members en ?t ?c)"
      using less.prems assms(1) by (auto simp: protected_inode_def sweep_orders_def)
    obtain e where e: "t_inodes ?t i = Some e" "\<not> batch_eligible e"
      using less.prems by (auto simp: protected_inode_def eligible_not_in_use)
    have "i \<notin> eligible_inos ?t ?c" using e by (auto simp: eligible_inos_def)
    then obtain f where "t_inodes (v_table s1) i = Some f" "pruned_entry (eligible_inos ?t ?c) e f"
      using removes_fwd [OF evict_batch_removes(1) [OF wf b]] e(1) unfolding s1 by blast
    then have "protected_inode i s1"
      using e(2) pruned_eligible wf_evict_batch_if_safe [OF wf b] by (auto simp: protected_inode_def s1 eligible_not_in_use)
    then have "protected_inode i (q_between en s1)" using assms(2) by (simp add: others_keep_def)
    moreover have "length (drop EVICT_CHUNK inos) < length inos" using False by (simp add: EVICT_CHUNK_def)
    ultimately have "protected_inode i s2" using less.hyps s2 by (metis snd_conv)
    then show ?thesis by (simp add: r)
  qed (use less.prems in \<open>simp add: evict_chunks.simps\<close>)
qed

text \<open>With nobody else at work the evicted files are exactly the unused ones among those asked for.\<close>

definition others_idle :: "sweep_env \<Rightarrow> bool" where
  "others_idle en \<longleftrightarrow> (\<forall>s. v_table (q_pause en s) = v_table s \<and> v_table (q_between en s) = v_table s \<and>
     (\<forall>inval parent name. q_inval en = Some inval \<longrightarrow> v_table (snd (inval parent name s)) = v_table s))"

lemma removes_none:
  assumes "wf_table t" shows "removes {} t t"
proof -
  have "pruned_entry {} e e" if "t_inodes t i = Some e" for i e
    using we_listing [OF wf_tableE [OF assms that]] by (simp add: pruned_entry_def listing_ok_def prune_def)
  then have "rel_option (pruned_entry {}) (t_inodes t i) (t_inodes t i)" for i by (cases "t_inodes t i") simp_all
  then show ?thesis by (simp add: removes_def split: option.split)
qed

lemma eligible_append: "eligible_inos t (xs @ ys) = eligible_inos t xs \<union> eligible_inos t ys"
  by (auto simp: eligible_inos_def)

lemma eligible_rest:
  assumes "removes (eligible_inos t js) t t'" and "set js \<inter> set ks = {}"
  shows "eligible_inos t' ks = eligible_inos t ks"
proof -
  have "(\<exists>e. t_inodes t' i = Some e \<and> batch_eligible e) = (\<exists>e. t_inodes t i = Some e \<and> batch_eligible e)" if "i \<in> set ks" for i
  proof -
    have "i \<notin> eligible_inos t js" using that assms(2) by (auto simp: eligible_inos_def)
    then show ?thesis using removes_fwd [OF assms(1)] removes_bwd [OF assms(1)] pruned_eligible by metis
  qed
  then show ?thesis by (auto simp: eligible_inos_def)
qed

lemma evict_chunks_exact:
  assumes o: "sweep_orders en" and idle: "others_idle en"
  shows "wf_table (v_table s) \<Longrightarrow> distinct inos \<Longrightarrow> evict_chunks en inos s = (n, s') \<Longrightarrow>
    removes (eligible_inos (v_table s) inos) (v_table s) (v_table s') \<and> wf_table (v_table s') \<and> n = card (eligible_inos (v_table s) inos)"
proof (induction "length inos" arbitrary: inos s n s' rule: less_induct)
  case less
  show ?case
  proof (cases "inos = []")
    case True
    then show ?thesis using less.prems removes_none by (auto simp: evict_chunks.simps eligible_inos_def)
  next
    case False
    let ?c = "take EVICT_CHUNK inos" and ?d = "drop EVICT_CHUNK inos" and ?t = "v_table s"
    obtain ev s1 m s2 where r: "evict_chunks en inos s = (length ev + m, s2)"
      and s1: "v_table s1 = snd (evict_batch_if_safe (q_parents en ?t ?c) (q_members en ?t ?c) ?c ?t)"
      and ev: "ev = fst (evict_batch_if_safe (q_parents en ?t ?c) (q_members en ?t ?c) ?c ?t)"
      and s2: "evict_chunks en ?d (q_between en s1) = (m, s2)"
      by (rule evict_chunks_step [OF False, where en = en and s = s])
    have b: "batch_order ?t ?c (q_parents en ?t ?c) (q_members en ?t ?c)" using less.prems(1) o by (auto simp: sweep_orders_def)
    note rm = evict_batch_removes [OF less.prems(1) b, folded s1 ev] and wf1 = wf_evict_batch_if_safe [OF less.prems(1) b, folded s1]
    have t1: "v_table (q_between en s1) = v_table s1" using idle by (simp add: others_idle_def)
    have dis: "set ?c \<inter> set ?d = {}" "distinct ?d" using less.prems(2) by (auto simp: set_take_disj_set_drop_if_distinct)
    have el: "eligible_inos (v_table s1) ?d = eligible_inos ?t ?d" by (rule eligible_rest [OF rm(1) dis(1)])
    have "length ?d < length inos" using False by (simp add: EVICT_CHUNK_def)
    from less.hyps [OF this _ dis(2) s2, unfolded t1, OF wf1]
    have IH: "removes (eligible_inos ?t ?d) (v_table s1) (v_table s2)" "wf_table (v_table s2)" "m = card (eligible_inos ?t ?d)" by (simp_all add: el)
    have u: "eligible_inos ?t ?c \<union> eligible_inos ?t ?d = eligible_inos ?t inos"
      using eligible_append [of ?t ?c ?d] by simp
    have "length ev = card (eligible_inos ?t ?c)" using rm(2,3) distinct_card by metis
    moreover have "card (eligible_inos ?t inos) = card (eligible_inos ?t ?c) + card (eligible_inos ?t ?d)"
      unfolding u [symmetric] by (rule card_Un_disjoint) (use dis(1) in \<open>auto simp: eligible_inos_def\<close>)
    ultimately show ?thesis using less.prems(3) r IH removes_trans [OF rm(1) IH(1)] by (simp add: u)
  qed
qed

section \<open>Properties\<close>

text \<open>
  C24: the LRU sweep drops nothing that is in use.  An inode that is dirty, open, known to the kernel, unlinked
  or not a file is still in the table after a sweep, whatever the other users of the mount and the kernel do
  at each point where the sweep holds no lock, as long as they keep the inode so; the table stays a tree.
\<close>

theorem lru_sweep_protects:
  assumes "sweep_orders en" and "others_keep en (protected_inode i)" and "protected_inode i s"
  shows "protected_inode i (snd (lru_evict_sweep en soft_limit s))"
proof -
  have "protected_inode i (snd (case inval_loop en inval cs s of (to_evict, s1) \<Rightarrow> if to_evict = [] then (0, s1) else evict_chunks en to_evict s1))"
    if "q_inval en = Some inval" for inval cs
  proof -
    obtain js s1 where l: "inval_loop en inval cs s = (js, s1)" by fastforce
    have "protected_inode i s1" using inval_loop_prefix [OF assms(2) that assms(3) l] by blast
    then show ?thesis using evict_chunks_protects [OF assms(1,2)] l by simp
  qed
  then show ?thesis using assms(3) by (simp add: lru_evict_sweep_def Let_def split: option.split)
qed

text \<open>The candidates are distinct, and the first of them are the oldest.\<close>

lemma candidates_distinct:
  assumes "wf_table t" and "enumerates order (t_inodes t)" and "\<And>xs. mset (into_vec xs) = mset xs"
  shows "distinct (map fst (lru_candidates order into_vec t cap))"
proof (rule card_distinct)
  define keys where "keys = sort (map lru_key (filter reclaimable (table_values order t)))"
  note c = lru_candidates_oldest_parts [OF assms, of cap, folded keys_def]
  have "distinct (map e_inode (filter reclaimable (table_values order t)))"
    by (rule distinct_map_filter) (rule distinct_table_values [OF assms(1,2)])
  then have "distinct (map (snd \<circ> lru_key) (filter reclaimable (table_values order t)))" by (simp add: lru_key_def comp_def)
  moreover have "mset (map snd keys) = mset (map (snd \<circ> lru_key) (filter reclaimable (table_values order t)))"
    by (simp add: keys_def multiset.map_comp)
  ultimately have "distinct (map snd keys)" using mset_eq_imp_distinct_iff by blast
  then have "distinct (map snd (take cap keys))" by (simp add: take_map [symmetric])
  then show "card (set (map fst (lru_candidates order into_vec t cap))) = length (map fst (lru_candidates order into_vec t cap))"
    using c(1,2) distinct_card [of "map snd (take cap keys)"] by simp
qed

lemma candidates_oldest:
  assumes "wf_table t" and "enumerates order (t_inodes t)" and "\<And>xs. mset (into_vec xs) = mset xs"
    and i: "i \<in> set (take k (map fst (lru_candidates order into_vec t cap)))" "t_inodes t i = Some e"
    and j: "j \<notin> set (take k (map fst (lru_candidates order into_vec t cap)))" "t_inodes t j = Some f" "reclaimable f"
  shows "ev_last_touched (e_eviction e) \<le> ev_last_touched (e_eviction f)"
proof -
  define keys where "keys = sort (map lru_key (filter reclaimable (table_values order t)))"
  define picks where "picks = map fst (lru_candidates order into_vec t cap)"
  define ts where "ts = (\<lambda>i. ev_last_touched (e_eviction (the (t_inodes t i))))"
  note c = lru_candidates_oldest_parts [OF assms(1-3), of cap, folded keys_def]
  have "map ts picks = map (\<lambda>(i, p, n). ev_last_touched (e_eviction (the (t_inodes t i)))) (lru_candidates order into_vec t cap)"
    by (auto simp: picks_def ts_def)
  then have srt: "sorted (map ts picks)" using c(4) by simp
  have set_picks: "set picks = set (map snd (take cap keys))" using c(1) by (simp add: picks_def)
  have key: "(ts x, x) \<in> set keys" if "t_inodes t x = Some d" "reclaimable d" for x d
  proof -
    have "d \<in> set (table_values order t)" using that(1) set_table_values [OF assms(2)] by (auto simp: ran_def)
    moreover have "e_inode d = x" by (rule we_inode [OF wf_tableE [OF assms(1) that(1)]])
    ultimately show ?thesis using that by (force simp: keys_def lru_key_def ts_def)
  qed
  have "ts i \<le> ts j"
  proof (cases "j \<in> set picks")
    case True
    obtain a where a: "a < k" "a < length picks" "picks ! a = i" using i(1) by (auto simp: picks_def [symmetric] in_set_conv_nth)
    obtain b where b: "b < length picks" "picks ! b = j" using True by (auto simp: in_set_conv_nth)
    have "k \<le> b" using j(1) b unfolding picks_def [symmetric] by (metis in_set_conv_nth length_take linorder_not_le min_less_iff_conj nth_take)
    then have "map ts picks ! a \<le> map ts picks ! b" using a b by (intro sorted_nth_mono [OF srt]) auto
    then show ?thesis using a b by simp
  next
    case False
    have "i \<in> set picks" using i(1) in_set_takeD by (fastforce simp: picks_def)
    then obtain u where u: "(u, i) \<in> set (take cap keys)" using set_picks by auto
    have "(ts j, j) \<in> set keys" by (rule key [OF j(2,3)])
    moreover have "(ts j, j) \<notin> set (take cap keys)" using False set_picks by force
    ultimately have "(ts j, j) \<in> set (drop cap keys)" by (metis append_take_drop_id set_append UnE)
    moreover have "sorted (take cap keys @ drop cap keys)" by (simp add: keys_def)
    ultimately have "(u, i) \<le> (ts j, j)" using u by (simp only: sorted_append)
    moreover have "u = ts i"
    proof -
      have "(u, i) \<in> set keys" using u in_set_takeD by fast
      then obtain d where d: "d \<in> set (table_values order t)" "u = ev_last_touched (e_eviction d)" "i = e_inode d" by (auto simp: keys_def lru_key_def)
      then obtain x where x: "t_inodes t x = Some d" using set_table_values [OF assms(2)] by (auto simp: ran_def)
      then have "x = i" using we_inode [OF wf_tableE [OF assms(1) x]] d(3) by simp
      then show ?thesis using x d(2) by (simp add: ts_def)
    qed
    ultimately show ?thesis by (auto simp: less_eq_prod_def)
  qed
  then show ?thesis using i(2) j(2) by (simp add: ts_def)
qed

text \<open>When the kernel takes every invalidation, all candidates are evicted that can be.\<close>

definition kernel_accepts :: "sweep_env \<Rightarrow> bool" where
  "kernel_accepts en \<longleftrightarrow> (\<exists>inval. q_inval en = Some inval \<and> (\<forall>parent name s. fst (inval parent name s))) \<and> (\<forall>s. q_join en s)"

lemma inval_chunk_all:
  assumes "\<And>parent name s. fst (inval parent name s)"
  shows "\<exists>s'. inval_chunk inval chunk s = (map fst chunk, False, s')"
proof (induction chunk arbitrary: s)
  case (Cons c chunk)
  obtain ino parent name where c: "c = (ino, parent, name)" using prod_cases3 by blast
  obtain s1 where "inval parent name s = (True, s1)" using assms [of parent name s] by (cases "inval parent name s") simp
  moreover obtain s2 where "inval_chunk inval chunk s1 = (map fst chunk, False, s2)" using Cons.IH by blast
  ultimately show ?case by (simp add: c)
qed simp

lemma inval_loop_all:
  assumes "\<And>parent name s. fst (inval parent name s)" and "\<And>s. q_join en s"
  shows "fst (inval_loop en inval cands s) = map fst cands"
proof (induction "length cands" arbitrary: cands s rule: less_induct)
  case less
  show ?case
  proof (cases "cands = []")
    case False
    let ?c = "take INVAL_BATCH_SIZE cands" and ?d = "drop INVAL_BATCH_SIZE cands"
    obtain s1 where c: "inval_chunk inval ?c s = (map fst ?c, False, s1)" using inval_chunk_all [of inval, OF assms(1)] by blast
    have "length ?d < length cands" using False by (simp add: INVAL_BATCH_SIZE_def)
    then have r: "fst (inval_loop en inval ?d (q_pause en s1)) = map fst ?d" by (rule less.hyps)
    show ?thesis
    proof (cases "length ?c < INVAL_BATCH_SIZE")
      case True
      then have "?c = cands" by simp
      then show ?thesis using c True False assms(2) by (simp add: inval_loop.simps [of en inval cands s] Let_def)
    next
      case no: False
      have "map fst ?c @ map fst ?d = map fst cands" by (simp flip: map_append)
      then show ?thesis using c no False assms(2) r by (simp add: inval_loop.simps [of en inval cands s] Let_def case_prod_beta)
    qed
  qed (simp add: inval_loop.simps)
qed

lemma lru_sweep_reaches:
  assumes o: "sweep_orders en" and idle: "others_idle en" and wf: "wf_table (v_table s)"
    and run: "lru_evict_sweep en soft_limit s = (n, s')" and acc: "kernel_accepts en"
    and unref: "\<And>i e. t_inodes (v_table s) i = Some e \<Longrightarrow> reclaimable e \<Longrightarrow> \<not> in_use e"
  shows "card (dom (t_inodes (v_table s'))) \<le> soft_limit \<or> (\<forall>i e. t_inodes (v_table s') i = Some e \<longrightarrow> in_use e)"
proof -
  define t where "t = v_table s"
  define cap where "cap = card (dom (t_inodes t)) - soft_limit"
  define cs where "cs = lru_candidates (q_order en t) (q_into_vec en) t cap"
  define keys where "keys = sort (map lru_key (filter reclaimable (table_values (q_order en t) t)))"
  have wt: "wf_table t" and en: "enumerates (q_order en t) (t_inodes t)" and v: "\<And>xs. mset (q_into_vec en xs) = mset xs"
    using o wf by (auto simp: sweep_orders_def t_def)
  note c = lru_candidates_oldest_parts [OF wt en v, of cap, folded keys_def, folded cs_def]
  obtain inval where inval: "q_inval en = Some inval" "\<And>parent name s. fst (inval parent name s)" "\<And>s. q_join en s"
    using acc by (auto simp: kernel_accepts_def)
  have keep: "others_keep en (\<lambda>x. v_table x = t)" using idle by (simp add: others_keep_def others_idle_def)
  obtain s1 where l: "inval_loop en inval cs s = (map fst cs, s1)" using inval_loop_all [of inval en, OF inval(2,3)] by (metis prod.collapse)
  have t1: "v_table s1 = t" using inval_loop_prefix [OF keep inval(1) t_def [symmetric] l] by blast
  show ?thesis
  proof (cases "cap = 0")
    case True
    then have "s' = s" using run by (simp add: lru_evict_sweep_def Let_def t_def cap_def)
    then show ?thesis using True by (simp add: cap_def t_def)
  next
    case False
    then have lim: "soft_limit < card (dom (t_inodes t))" by (simp add: cap_def)
    let ?js = "map fst cs"
    have el: "eligible_inos t ?js = set ?js"
      using c(3) unref [folded t_def] by (fastforce simp: eligible_inos_def eligible_not_in_use)
    have d: "distinct ?js" using candidates_distinct [OF wt en v] by (simp add: cs_def)
    have x: "removes (set ?js) t (v_table s')"
    proof (cases "cs = []")
      case True
      then have "s' = s" using run lim by (simp add: lru_evict_sweep_def Let_def t_def [symmetric] cap_def [symmetric] cs_def [symmetric])
      then show ?thesis using removes_none [OF wt] True by (simp add: t_def)
    next
      case ne: False
      then have "evict_chunks en ?js s1 = (n, s')"
        using run lim l inval(1) by (simp add: lru_evict_sweep_def Let_def t_def [symmetric] cap_def [symmetric] cs_def [symmetric])
      then show ?thesis using evict_chunks_exact [OF o idle, of s1 ?js n s'] t1 wt d el by simp
    qed
    show ?thesis
    proof (cases "cap \<le> length keys")
      case True
      then have "card (set ?js) = cap" using distinct_card [OF d] c(2) by simp
      moreover have "set ?js \<subseteq> dom (t_inodes t)" using c(3) by fastforce
      moreover have "dom (t_inodes (v_table s')) = dom (t_inodes t) - set ?js" by (rule removes_dom [OF x])
      ultimately show ?thesis using lim by (simp add: card_Diff_subset cap_def)
    next
      case small: False
      have "in_use y" if y: "t_inodes (v_table s') i = Some y" for i y
      proof (rule ccontr)
        assume "\<not> in_use y"
        obtain z where z: "t_inodes t i = Some z" "pruned_entry (set ?js) z y" "i \<notin> set ?js"
          using removes_bwd [OF x y] by blast
        then have "\<not> in_use z" using \<open>\<not> in_use y\<close> pruned_eligible [OF z(2)] by (simp add: eligible_not_in_use)
        then have "reclaimable z" by (simp add: eligible_not_in_use [symmetric] reclaimable_def batch_eligible_def)
        moreover have "z \<in> set (table_values (q_order en t) t)" using z(1) set_table_values [OF en] by (auto simp: ran_def)
        ultimately have "lru_key z \<in> set keys" by (simp add: keys_def)
        then have "e_inode z \<in> set (map snd keys)" by (force simp: lru_key_def)
        moreover have "set ?js = set (map snd keys)" using c(1) small by simp
        ultimately show False using z(3) we_inode [OF wf_tableE [OF wt z(1)]] by simp
      qed
      then show ?thesis by blast
    qed
  qed
qed

text \<open>
  C25: what an undisturbed LRU sweep does.  It evicts some of the files that are clean, closed, linked, with no
  delete pending and unknown to the kernel, and nothing else, reports how many, and keeps the table a tree; it
  evicts older files before younger ones, and never takes the table below the soft limit.  When the kernel takes
  every invalidation and knows none of the clean, closed, linked files, the sweep reaches the soft limit or
  leaves no unused file behind.
\<close>

theorem lru_sweep_exact:
  assumes "sweep_orders en" and "others_idle en" and "wf_table (v_table s)" and "lru_evict_sweep en soft_limit s = (n, s')"
  shows "\<exists>E. removes E (v_table s) (v_table s') \<and> wf_table (v_table s') \<and> n = card E \<and>
    (\<forall>i \<in> E. \<exists>e. t_inodes (v_table s) i = Some e \<and> \<not> in_use e) \<and>
    (\<forall>i j e f. i \<in> E \<and> j \<notin> E \<and> t_inodes (v_table s) i = Some e \<and> t_inodes (v_table s) j = Some f \<and> \<not> in_use f \<longrightarrow>
      ev_last_touched (e_eviction e) \<le> ev_last_touched (e_eviction f)) \<and>
    min soft_limit (card (dom (t_inodes (v_table s)))) \<le> card (dom (t_inodes (v_table s'))) \<and>
    (kernel_accepts en \<and> (\<forall>i e. t_inodes (v_table s) i = Some e \<and> e_kind e = File \<and> \<not> is_dirty e \<and>
        ev_open_handles (e_eviction e) = 0 \<longrightarrow> ev_nlookup (e_eviction e) = 0) \<longrightarrow>
      card (dom (t_inodes (v_table s'))) \<le> soft_limit \<or> (\<forall>i e. t_inodes (v_table s') i = Some e \<longrightarrow> in_use e))"
proof -
  define t where "t = v_table s"
  define len where "len = card (dom (t_inodes t))"
  define cs where "cs = lru_candidates (q_order en t) (q_into_vec en) t (len - soft_limit)"
  have wf: "wf_table t" and o: "enumerates (q_order en t) (t_inodes t)" and v: "\<And>xs. mset (q_into_vec en xs) = mset xs"
    using assms(1,3) by (auto simp: sweep_orders_def t_def)
  have idle: "others_keep en (\<lambda>x. v_table x = t)" using assms(2) by (simp add: others_keep_def others_idle_def)
  have goal: "kernel_accepts en \<and> (\<forall>i e. t_inodes t i = Some e \<and> e_kind e = File \<and> \<not> is_dirty e \<and>
        ev_open_handles (e_eviction e) = 0 \<longrightarrow> ev_nlookup (e_eviction e) = 0) \<longrightarrow>
      card (dom (t_inodes (v_table s'))) \<le> soft_limit \<or> (\<forall>i e. t_inodes (v_table s') i = Some e \<longrightarrow> in_use e)"
  proof (intro impI, elim conjE)
    assume k: "kernel_accepts en" and u: "\<forall>i e. t_inodes t i = Some e \<and> e_kind e = File \<and> \<not> is_dirty e \<and>
        ev_open_handles (e_eviction e) = 0 \<longrightarrow> ev_nlookup (e_eviction e) = 0"
    show "card (dom (t_inodes (v_table s'))) \<le> soft_limit \<or> (\<forall>i e. t_inodes (v_table s') i = Some e \<longrightarrow> in_use e)"
      by (rule lru_sweep_reaches [OF assms k]) (use u in \<open>auto simp: t_def reclaimable_def in_use_def\<close>)
  qed
  consider "s' = s" "n = 0" | inval js s1 where "soft_limit < len" "q_inval en = Some inval" "inval_loop en inval cs s = (js, s1)"
      "(if js = [] then (0, s1) else evict_chunks en js s1) = (n, s')"
    using assms(4) by (auto simp: lru_evict_sweep_def Let_def t_def [symmetric] len_def [symmetric] cs_def [symmetric] split: if_splits option.splits prod.splits)
  then show ?thesis
  proof cases
    case 1
    then show ?thesis using removes_none [OF wf] wf goal by (intro exI [of _ "{}"]) (simp add: t_def)
  next
    case (2 inval js s1)
    obtain k where k: "v_table s1 = t" "js = take k (map fst cs)" using inval_loop_prefix [OF idle 2(2) t_def [symmetric] 2(3)] by blast
    have d: "distinct js" using candidates_distinct [OF wf o v] by (simp add: k(2) cs_def)
    let ?E = "eligible_inos t js"
    have x: "removes ?E t (v_table s') \<and> wf_table (v_table s') \<and> n = card ?E"
    proof (cases "js = []")
      case True
      then show ?thesis using 2(4) k(1) removes_none [OF wf] wf by (auto simp: eligible_inos_def)
    next
      case False
      then show ?thesis using evict_chunks_exact [OF assms(1,2), of s1 js n s'] 2(4) k(1) wf d by simp
    qed
    have "card ?E \<le> length cs" using card_mono [of "set js" ?E] card_length [of js] k(2) by (force simp: eligible_inos_def)
    also have "\<dots> \<le> len - soft_limit" using lru_candidates_oldest_parts(2) [OF wf o v, of "len - soft_limit"] by (simp add: cs_def)
    finally have "len - card ?E \<ge> soft_limit" using 2(1) by simp
    moreover have "card (dom (t_inodes (v_table s'))) = len - card ?E"
      using x removes_dom [of ?E t "v_table s'"] wf_finite [OF wf] unfolding len_def
      by (auto simp: eligible_inos_def intro!: card_Diff_subset)
    moreover have "ev_last_touched (e_eviction e) \<le> ev_last_touched (e_eviction f)"
      if "i \<in> ?E" "j \<notin> ?E" "t_inodes t i = Some e" "t_inodes t j = Some f" "batch_eligible f" for i j e f
    proof (rule candidates_oldest [OF wf o v, where k = k and cap = "len - soft_limit", folded cs_def k(2)])
      show "i \<in> set js" "j \<notin> set js" using that by (auto simp: eligible_inos_def)
      show "reclaimable f" using that(5) by (auto simp: reclaimable_def batch_eligible_def)
    qed (fact that)+
    moreover have "\<forall>i \<in> ?E. \<exists>e. t_inodes t i = Some e \<and> \<not> in_use e" by (auto simp: eligible_inos_def eligible_not_in_use)
    ultimately show ?thesis using x goal unfolding t_def [symmetric] len_def [symmetric] eligible_not_in_use
      by (intro exI [of _ ?E]) auto
  qed
qed

section \<open>An example\<close>

definition ordered_members :: "inode_table \<Rightarrow> nat list \<Rightarrow> nat \<Rightarrow> nat list" where
  "ordered_members t inos p = (case group_by_parent t inos p of None \<Rightarrow> [] | Some m \<Rightarrow> sorted_list_of_set m)"

definition idle_sweep :: sweep_env where
  "idle_sweep = \<lparr>q_vfs = \<lparr>w_load = (\<lambda>_ s. (Inr False, s)), w_hub = (\<lambda>_ s. (None, s)), w_lock = (\<lambda>_ s. s), w_now = 9, w_mtime_ms = 9000,
       w_neg_order = (\<lambda>_. []), w_removable = (\<lambda>_. True), w_overlay_exists = Inr False, w_overlay_parents = None, w_overlay_op = None\<rparr>,
     q_order = (\<lambda>t. sorted_list_of_set (dom (t_inodes t))), q_into_vec = id, q_inval = Some (\<lambda>_ _ s. (True, s)), q_join = (\<lambda>_. True), q_pause = id,
     q_parents = (\<lambda>t inos. sorted_list_of_set (dom (group_by_parent t inos))), q_members = ordered_members, q_between = id\<rparr>"

lemma idle_sweep_ok: "sweep_orders idle_sweep" "others_idle idle_sweep" "others_keep idle_sweep Q"
proof -
  have fin: "finite (eligible_inos t inos)" for t inos by (simp add: eligible_inos_def)
  have "finite (dom (group_by_parent t inos))" for t inos
    by (rule finite_subset [OF _ finite_imageI [OF fin, of "parent_of t" t inos]]) (auto simp: group_by_parent_eq split: if_splits)
  moreover have "finite m" if "group_by_parent t inos p = Some m" for t inos p m
    using that fin [of t inos] by (auto simp: group_by_parent_eq split: if_splits)
  ultimately show "sweep_orders idle_sweep"
    by (auto simp: sweep_orders_def idle_sweep_def enumerates_def batch_order_def ordered_members_def set_sorted_list_of_set [OF wf_finite])
  show "others_idle idle_sweep" "others_keep idle_sweep Q" by (simp_all add: others_idle_def others_keep_def idle_sweep_def)
qed

theorem lru_sweep_protects_witness:
  "protected_inode 2 (snd (lru_evict_sweep idle_sweep 0 (plain_vfs dirty_table)))"
proof -
  have "wf_table dirty_table" unfolding dirty_table_def by (rule wf_upd_same_shape [OF wf_one_file]) (rule same_shape_set_dirty)
  moreover obtain e where "t_inodes one_file 2 = Some e" using one_file_2 by blast
  ultimately have "protected_inode 2 (plain_vfs dirty_table)"
    by (auto simp: protected_inode_def plain_vfs_def dirty_table_def upd_inode_def in_use_def is_dirty_def set_dirty_def sat_add64_def u64_max_def)
  then show ?thesis by (rule lru_sweep_protects [OF idle_sweep_ok(1,3)])
qed

lemma one_file_dom: "dom (t_inodes one_file) = {1, 2}"
  by (auto simp: one_file_def insert_inode_def new_table_def ROOT_INODE_def Let_def upd_inode_def split: if_splits)

theorem lru_sweep_exact_witness:
  "1 \<le> card (dom (t_inodes (v_table (snd (lru_evict_sweep idle_sweep 1 (plain_vfs one_file)))))) \<and>
   t_inodes (v_table (snd (lru_evict_sweep idle_sweep 1 (plain_vfs one_file)))) 1 \<noteq> None \<and>
   (card (dom (t_inodes (v_table (snd (lru_evict_sweep idle_sweep 1 (plain_vfs one_file)))))) \<le> 1 \<or>
    (\<forall>i e. t_inodes (v_table (snd (lru_evict_sweep idle_sweep 1 (plain_vfs one_file)))) i = Some e \<longrightarrow> in_use e))"
proof -
  let ?r = "lru_evict_sweep idle_sweep 1 (plain_vfs one_file)"
  have v: "v_table (plain_vfs one_file) = one_file" by (simp add: plain_vfs_def)
  have k: "kernel_accepts idle_sweep" by (simp add: kernel_accepts_def idle_sweep_def)
  have u: "ev_nlookup (e_eviction e) = 0" if "t_inodes one_file i = Some e" "e_kind e = File" for i e
    using that one_file_2 wf_wf_root [OF wf_one_file] domI [of "t_inodes one_file" i e] unfolding one_file_dom
    by (auto simp: batch_eligible_def wf_root_def ROOT_INODE_def)
  obtain E where E: "removes E one_file (v_table (snd ?r))" "\<forall>i \<in> E. \<exists>e. t_inodes one_file i = Some e \<and> \<not> in_use e"
    "min 1 (card (dom (t_inodes one_file))) \<le> card (dom (t_inodes (v_table (snd ?r))))"
    "card (dom (t_inodes (v_table (snd ?r)))) \<le> 1 \<or> (\<forall>i e. t_inodes (v_table (snd ?r)) i = Some e \<longrightarrow> in_use e)"
    using lru_sweep_exact [OF idle_sweep_ok(1,2), of "plain_vfs one_file" 1 "fst ?r" "snd ?r"] wf_one_file k u unfolding v by auto
  have "1 \<notin> E" using E(2) wf_wf_root [OF wf_one_file] by (auto simp: wf_root_def ROOT_INODE_def in_use_def)
  then have "t_inodes (v_table (snd ?r)) 1 \<noteq> None" using removes_dom [OF E(1)] one_file_dom by blast
  then show ?thesis using E(3,4) one_file_dom by simp
qed

end
