(* ===== verification/Spec2Isabelle.thy ===== *)
theory Spec2Isabelle
  imports Path_Cipher Content Inode_Evict Inode_Tree Inode_Rename Staging File_Cache Flush_Rename Hub_Listing Prefetch_Safety Interleaving Open_Files_Safety
    Cas_Cache Nfs_Safety Nfs_Paging Lru_Sweep
begin

text \<open>
  \<^bold>\<open>Verification of hf-mount-encrypted.\<close>

  hf-mount mounts a Hugging Face repository or bucket as a file system.  The sources are Rust, under
  \<open>src/src\<close>; this development is a shallow embedding of the parts of it that carry its logic.

  \<^bold>\<open>The program.\<close>  A front end (FUSE or NFS) turns kernel requests into calls of \<open>VirtualFs\<close>
  (\<open>virtual_fs/mod.rs\<close>).  \<open>VirtualFs\<close> keeps the tree in an inode table (\<open>virtual_fs/inode.rs\<close>) behind
  one reader-writer lock, fills it by listing directories through the Hub client (\<open>hub_api.rs\<close>), reads
  file contents through a read-ahead buffer (\<open>virtual_fs/prefetch.rs\<close>) or a whole-file cache
  (\<open>file_cache.rs\<close>), writes to staging files (\<open>xet.rs\<close>, \<open>virtual_fs/staging.rs\<close>) or to a stream that
  is committed on close, and queues dirty files for a batched upload and commit
  (\<open>virtual_fs/flush.rs\<close>).  A poller (\<open>virtual_fs/poll.rs\<close>) and a live event stream (\<open>follow.rs\<close>)
  bring remote changes into the table.  With encryption on, path components are encrypted and written
  in base91 (\<open>encryption/path.rs\<close>, \<open>base91.rs\<close>) and contents are stored in a random-access container
  (\<open>encryption/content.rs\<close>); the Hub only ever sees the encrypted names and bytes.

  \<^bold>\<open>The theories\<close>, each with the source it models; a theory whose name is another's with a suffix
  holds lemmas about the definitions of that other one.

  \<^item> \<open>Prelude\<close>: machine integers, the string and list operations of the Rust standard library the
    program uses, stable sorting by a key.
  \<^item> \<open>Base91\<close> (\<open>base91.rs\<close>): both directions of the codec with the 32-bit bit buffer.  Decoding inverts
    encoding; the output contains no byte that is illegal in a path component; invalid input is refused.
  \<^item> \<open>Path_Cipher\<close> (\<open>encryption/path.rs\<close>): encryption of components and paths over the tweakable
    cipher as a parameter, whose laws (length preserving, invertible) are the locale of the theory.
    Round trip, exact characterisation of what decrypts, length bounds, errors.
  \<^item> \<open>Content\<close> (\<open>encryption/content.rs\<close> and the encrypted read of \<open>mod.rs\<close>): the header, the size
    arithmetic, the read planner and the two I/O windows.  A ranged read fetches only the slots it needs
    and returns the same bytes as decrypting the whole file and cutting.
  \<^item> \<open>Inode\<close> (\<open>inode.rs\<close>): entries and every operation of the table.  \<open>Inode_Inv\<close>: the tree invariant
    and that every operation keeps it.  \<open>Inode_Tree\<close>: the loops over the tree end and do exactly what
    they mean to (removal of a subtree, search for dirty or open descendants).  \<open>Inode_Evict\<close>: batched
    eviction and the choice of the oldest entries.  \<open>Inode_Rename\<close>: moving an entry and rewriting the
    paths below it.
  \<^item> \<open>Staging\<close> (\<open>virtual_fs/staging.rs\<close>, \<open>StagingDir\<close> of \<open>xet.rs\<close>): the byte budget and the sweep that
    reclaims clean staging files, oldest first, and goes no further than the budget asks.
  \<^item> \<open>File_Cache\<close> (\<open>file_cache.rs\<close>): population, byte accounting and eviction, with concurrent
    populations as a step relation cut at the suspension points.
  \<^item> \<open>Flush\<close> (\<open>virtual_fs/flush.rs\<close>): the queues, the debounce loop and the batch.  A commit never marks
    clean what was written after the snapshot; an undisturbed batch sends exactly the due inodes with new content,
    each with its own hash, adds before deletes; a failed batch keeps everything dirty.  The loop is modelled by the
    batches it collects.  \<open>Flush_Rename\<close>: a dirty file renamed during its upload loses its rename (a defect of the code).
  \<^item> \<open>Vfs\<close>, \<open>Vfs_Rename\<close>, \<open>Vfs_Load\<close>, \<open>Vfs_Lookup\<close> and their \<open>_Safety\<close> theories (\<open>mod.rs\<close>): the name
    space operations.  Renames move exactly the subtree and send the matching batch; a loaded directory
    shows its listing and leaves dirty or open files alone; a name is remembered as missing only on
    evidence.
  \<^item> \<open>Lru_Sweep\<close> (\<open>mod.rs\<close>): the background sweep that evicts the oldest unused files.  It never drops an inode
    that is in use, whatever others do between its steps; undisturbed, it evicts older files first and stops
    at the soft limit.  What is in use is defined there from the fields of the entry, not by the test the code makes.
  \<^item> \<open>Streaming\<close> (\<open>mod.rs\<close>): the default way of writing.  Channels and their background worker, the
    hooks a reopen waits on, the commit with its retry and the revert.  \<open>Streaming_Safety\<close> interleaves
    the sections of any number of writers, commits, closes and reopens: what is committed is the upload
    of exactly the acknowledged bytes, and a final result never changes.  Its step relation \<open>stream_step\<close> runs the
    sections of the handlers as they are cut by the waits; the search for the active writer and the supersession are
    one step there.  A close that meets a truncating reopen loses data (a defect of the code).
  \<^item> \<open>Open_Files\<close> (\<open>mod.rs\<close>): the table of open files.  The three ways of opening, encrypted staging
    containers, write, flush, fsync, release, create, link and setattr.  \<open>Open_Files_Safety\<close>: the handle
    counts of the inode table are exact after every operation; a failed creation on an encrypted mount
    leaves its inode behind (a defect of the code).
  \<^item> \<open>Prefetch\<close>, \<open>Prefetch_Safety\<close> (\<open>prefetch.rs\<close>): the read-ahead buffer returns exactly the
    requested bytes on a sequential handle, and on one that started at 0, however the downloads are cut; on others it
    can return bytes of another place (a defect of the code).
  \<^item> \<open>Cas_Cache\<close> (\<open>cached_xet_client.rs\<close>): the cache of reconstruction plans, with the sections of any
    number of callers interleaved.  A range derived from a full plan reproduces the bytes asked for; one
    caller at a time asks the store for a key; a leader that is dropped blocks its key (a defect of the
    code).
  \<^item> \<open>Nfs_Pool\<close>, \<open>Nfs\<close> (\<open>nfs.rs\<close>): the pool of open handles and every procedure of the NFS adapter, with
    what other requests do at each wait as an argument.  \<open>Nfs_Safety\<close>: no handle leaks, on no branch of
    any procedure, while other requests open, hold, pool, take out and close handles at every wait.  The handles they
    hold are the field \<open>io_held\<close> of the mount, which is not in the code and which no operation reads.  \<open>Nfs_Paging\<close>: the pages of a directory add up to its listing; at the root pages of one
    entry do not end (a defect of the code).
  \<^item> \<open>Hub_Url\<close>, \<open>Hub_Api\<close>, \<open>Hub_Listing\<close> (\<open>encryption/url.rs\<close>, \<open>error.rs\<close>, \<open>hub_api.rs\<close>): requests,
    retries, pagination, path rewriting.  What the client stored is listed back; a listing never leaves
    its directory; retries are bounded.
  \<^item> \<open>Follow\<close> (\<open>follow.rs\<close>): the event-stream parser does not depend on how the stream is cut.
  \<^item> \<open>Poll\<close>, \<open>Poll_Safety\<close> (\<open>poll.rs\<close>): the diff against the table and its application.  A clean orphan
    makes it unlink the file that took its name (a defect of the code).
  \<^item> \<open>Interleaving\<close>: each section that runs under the table's write lock keeps the invariant of the table, when it
    runs where the conditions the code checks hold.  Some of them the code checks in an earlier section; races between that
    check and the section are not covered.

  \<^bold>\<open>Conventions.\<close>  A hash map is a map together with, where the source iterates over it, an explicit
  enumeration of its keys given as an argument, so that a theorem holds for every iteration order.
  Clocks are arguments called \<open>now\<close>.  64-bit and 32-bit arithmetic is on \<^typ>\<open>nat\<close> with the wrap-around
  or saturation written out; a hypothesis that a counter is below its maximum appears where the source
  relies on it.  A loop over the tree is a \<open>partial_function (option)\<close>, where \<open>None\<close> means that it does
  not return or that the code panics; on a well-formed table it is proved to return.  Bounded retries
  recurse on the number of attempts left, as in the source.  Fuel appears in the client of \<open>Nfs_Paging\<close>
  only, where one request more than there are entries is proved to be enough.  An operation that waits
  (a Hub request, a download) is cut there: what comes back, and the state other tasks have made of the
  table meanwhile, are arguments.  Errors are values of a sum type, on the left.

  \<^bold>\<open>Parameters.\<close>  The wide-block cipher, the authenticated random-access container library, the Hub
  and the content store, the JSON decoder and the operating system's file operations are not part of
  the sources: they are arguments of the definitions, with their documented laws as hypotheses or as
  the assumptions of a locale.

  \<^bold>\<open>Not modelled.\<close>  The FUSE adapter (each callback is one call of \<open>VirtualFs\<close>), the listener and the mount
  commands of the NFS front end, argument parsing and set-up, the daemon, the capability-based directory
  backing and the wrappers of the content-store sessions: they are I/O and glue around third-party types.  The endless loops that call one poll round or one stream after
  another.  Key derivation.  Memory effects of the lock implementation: a critical section is atomic.
\<close>

end
